(* ===== verification/Prelude.thy ===== *)
theory Prelude
  imports Main "HOL-Library.Word"
begin

text \<open>
  Shared vocabulary of the development: the machine integer types of the Rust code,
  its saturating and checked arithmetic, slice access that may fail, big-endian fields,
  and a bind for computations that return an error or a value.

  A Rust \<open>u8\<close>, \<open>u16\<close> or \<open>u32\<close> is a word of that width. A \<open>usize\<close> is a \<open>nat\<close>: every
  \<open>usize\<close> of the code is a length of, or an index into, an existing slice, and slices are
  shorter than half the address space, so that no sum of two of them wraps or saturates.
\<close>

unbundle bit_operations_syntax

named_theorems result_simps "rewrite rules for results and slices"
named_theorems unat_simps "rewrite rules that move words to natural numbers"

type_synonym byte = "8 word"
type_synonym u16 = "16 word"
type_synonym u32 = "32 word"
type_synonym bytes = "8 word list"

section \<open>Results\<close>

text \<open>The Rust question mark: an error is passed on, a value is handed to the rest.\<close>

definition rbind :: "'e + 'a \<Rightarrow> ('a \<Rightarrow> 'e + 'b) \<Rightarrow> 'e + 'b" where
  "rbind m f = (case m of Inl e \<Rightarrow> Inl e | Inr x \<Rightarrow> f x)"

definition map_err :: "('e \<Rightarrow> 'f) \<Rightarrow> 'e + 'a \<Rightarrow> 'f + 'a" where
  "map_err h m = (case m of Inl e \<Rightarrow> Inl (h e) | Inr x \<Rightarrow> Inr x)"

definition ok_or :: "'e \<Rightarrow> 'a option \<Rightarrow> 'e + 'a" where
  "ok_or e m = (case m of None \<Rightarrow> Inl e | Some x \<Rightarrow> Inr x)"

lemma rbind_simps [simp]:
  "rbind (Inl e) f = Inl e"
  "rbind (Inr x) f = f x"
  by (simp_all add: rbind_def)

lemma map_err_simps [simp]:
  "map_err h (Inl e) = Inl (h e)"
  "map_err h (Inr x) = Inr x"
  by (simp_all add: map_err_def)

lemma ok_or_simps [simp]:
  "ok_or e None = Inl e"
  "ok_or e (Some x) = Inr x"
  by (simp_all add: ok_or_def)

lemma ex_unit: "(\<exists>u :: unit. P u) \<longleftrightarrow> P ()"
  by auto

lemma rbind_eq_Inr [result_simps]:
  "rbind m f = Inr y \<longleftrightarrow> (\<exists>x. m = Inr x \<and> f x = Inr y)"
  by (cases m) auto

lemma rbind_eq_Inl [result_simps]:
  "rbind m f = Inl e \<longleftrightarrow> m = Inl e \<or> (\<exists>x. m = Inr x \<and> f x = Inl e)"
  by (cases m) auto

lemma map_err_eq_Inr [result_simps]: "map_err h m = Inr y \<longleftrightarrow> m = Inr y"
  by (cases m) auto

lemma map_err_eq_Inl [result_simps]:
  "map_err h m = Inl e \<longleftrightarrow> (\<exists>e'. m = Inl e' \<and> e = h e')"
  by (cases m) auto

lemma ok_or_eq_Inr [result_simps]: "ok_or e m = Inr y \<longleftrightarrow> m = Some y"
  by (cases m) auto

lemma ok_or_eq_Inl [result_simps]: "ok_or e m = Inl e' \<longleftrightarrow> m = None \<and> e' = e"
  by (cases m) auto

lemma guard_eq_Inr: "(if b then Inl e else m) = Inr x \<longleftrightarrow> \<not> b \<and> m = Inr x"
  by simp

section \<open>Slices\<close>

text \<open>\<open>get_at xs i\<close> is \<open>xs.get(i)\<close>, \<open>slice xs a b\<close> is \<open>xs.get(a..b)\<close>, \<open>slice_from xs a\<close> is
  \<open>xs.get(a..)\<close>; \<open>put_slice\<close> writes a run of bytes through \<open>get_mut(a..a + n)\<close>.\<close>

definition get_at :: "'a list \<Rightarrow> nat \<Rightarrow> 'a option" where
  "get_at xs i = (if i < length xs then Some (xs ! i) else None)"

definition slice :: "'a list \<Rightarrow> nat \<Rightarrow> nat \<Rightarrow> 'a list option" where
  "slice xs a b = (if a \<le> b \<and> b \<le> length xs then Some (take (b - a) (drop a xs)) else None)"

definition slice_from :: "'a list \<Rightarrow> nat \<Rightarrow> 'a list option" where
  "slice_from xs a = (if a \<le> length xs then Some (drop a xs) else None)"

definition splice :: "'a list \<Rightarrow> nat \<Rightarrow> 'a list \<Rightarrow> 'a list" where
  "splice xs a ys = take a xs @ ys @ drop (a + length ys) xs"

definition put_slice :: "'a list \<Rightarrow> nat \<Rightarrow> 'a list \<Rightarrow> 'a list option" where
  "put_slice xs a ys = (if a + length ys \<le> length xs then Some (splice xs a ys) else None)"

lemma get_at_simps [simp]:
  "get_at [] i = None"
  "get_at (x # xs) 0 = Some x"
  "get_at (x # xs) (Suc i) = get_at xs i"
  by (simp_all add: get_at_def)

lemma get_at_eq_Some [result_simps]: "get_at xs i = Some x \<longleftrightarrow> i < length xs \<and> xs ! i = x"
  by (auto simp: get_at_def)

lemma get_at_eq_None [result_simps]: "get_at xs i = None \<longleftrightarrow> length xs \<le> i"
  by (auto simp: get_at_def)

lemma slice_eq_Some [result_simps]:
  "slice xs a b = Some ys \<longleftrightarrow> a \<le> b \<and> b \<le> length xs \<and> ys = take (b - a) (drop a xs)"
  by (auto simp: slice_def)

lemma slice_eq_None [result_simps]: "slice xs a b = None \<longleftrightarrow> b < a \<or> length xs < b"
  by (auto simp: slice_def)

lemma slice_from_eq_Some [result_simps]:
  "slice_from xs a = Some ys \<longleftrightarrow> a \<le> length xs \<and> ys = drop a xs"
  by (auto simp: slice_from_def)

lemma slice_from_eq_None [result_simps]: "slice_from xs a = None \<longleftrightarrow> length xs < a"
  by (auto simp: slice_from_def)

lemma length_splice [simp]:
  "a + length ys \<le> length xs \<Longrightarrow> length (splice xs a ys) = length xs"
  by (simp add: splice_def)

lemma put_slice_eq_Some [result_simps]:
  "put_slice xs a ys = Some zs \<longleftrightarrow> a + length ys \<le> length xs \<and> zs = splice xs a ys"
  by (auto simp: put_slice_def)

lemma put_slice_eq_None [result_simps]:
  "put_slice xs a ys = None \<longleftrightarrow> length xs < a + length ys"
  by (auto simp: put_slice_def)

lemma splice_Nil [simp]: "splice xs a [] = xs"
  by (simp add: splice_def)

lemma splice_0: "splice xs 0 ys = ys @ drop (length ys) xs"
  by (simp add: splice_def)

lemma splice_append:
  "a + length ys + length zs \<le> length xs \<Longrightarrow>
   splice (splice xs a ys) (a + length ys) zs = splice xs a (ys @ zs)"
  by (simp add: splice_def ac_simps)

lemma splice_update:
  "a < length xs \<Longrightarrow> xs[a := x] = splice xs a [x]"
  by (simp add: splice_def upd_conv_take_nth_drop)

lemma splice_drop:
  "a \<le> length xs \<Longrightarrow> b + length ys \<le> length xs - a \<Longrightarrow>
   take a xs @ splice (drop a xs) b ys = splice xs (a + b) ys"
  by (simp add: splice_def take_add add.assoc add.commute add.left_commute)

lemma take_splice:
  "a + length ys \<le> length xs \<Longrightarrow> take (a + length ys) (splice xs a ys) = take a xs @ ys"
  by (simp add: splice_def)

lemma take_prefix_iff:
  "(\<exists>rest. take n xs = ys @ rest) \<longleftrightarrow> length ys \<le> n \<and> (\<exists>rest. xs = ys @ rest)"
proof
  assume "\<exists>rest. take n xs = ys @ rest"
  then obtain rest where r: "take n xs = ys @ rest" by blast
  have "length ys \<le> n" using arg_cong [OF r, of length] by simp
  moreover have "xs = ys @ rest @ drop n xs" using r by (metis append_assoc append_take_drop_id)
  ultimately show "length ys \<le> n \<and> (\<exists>rest. xs = ys @ rest)" by blast
qed auto

section \<open>Saturating arithmetic and conversions\<close>

definition sat_add :: "'a::len word \<Rightarrow> 'a word \<Rightarrow> 'a word" where
  "sat_add a b = (if unat a + unat b < 2 ^ LENGTH('a) then a + b else - 1)"

definition sat_sub :: "'a::len word \<Rightarrow> 'a word \<Rightarrow> 'a word" where
  "sat_sub a b = (if b \<le> a then a - b else 0)"

definition sat_mul :: "'a::len word \<Rightarrow> 'a word \<Rightarrow> 'a word" where
  "sat_mul a b = (if unat a * unat b < 2 ^ LENGTH('a) then a * b else - 1)"

text \<open>\<open>u16::try_from\<close> and \<open>u32::try_from\<close> on a \<open>usize\<close>.\<close>

definition try_u16 :: "nat \<Rightarrow> u16 option" where
  "try_u16 n = (if n < 65536 then Some (word_of_nat n) else None)"

definition try_u32 :: "nat \<Rightarrow> u32 option" where
  "try_u32 n = (if n < 4294967296 then Some (word_of_nat n) else None)"

lemma unat_all_ones: "unat (- 1 :: 'a::len word) = 2 ^ LENGTH('a) - 1"
  by (simp add: unsigned_minus_1_eq_mask mask_eq_exp_minus_1)

lemma unat_sat_add [unat_simps]:
  "unat (sat_add a b :: 'a::len word) = min (unat a + unat b) (2 ^ LENGTH('a) - 1)"
  by (auto simp: sat_add_def unat_word_ariths unat_all_ones min_def)

text \<open>A chain of saturating additions saturates once.\<close>

lemma min_min_add: "min (min x m + y) m = min (x + y) (m :: nat)" "min (x + min y m) m = min (x + y) m"
  by (simp_all add: min_def)

lemma unat_sat_sub [unat_simps]: "unat (sat_sub a b) = unat a - unat b"
  by (auto simp: sat_sub_def unat_sub word_le_nat_alt)

lemma unat_sat_mul [unat_simps]:
  "unat (sat_mul a b :: 'a::len word) = min (unat a * unat b) (2 ^ LENGTH('a) - 1)"
proof (cases "unat a * unat b < 2 ^ LENGTH('a)")
  case True
  then have "unat a * unat b \<le> 2 ^ LENGTH('a) - 1" by simp
  with True show ?thesis by (simp add: sat_mul_def unat_word_ariths)
next
  case False
  then have "2 ^ LENGTH('a) - 1 \<le> unat a * unat b" by simp
  with False show ?thesis by (simp add: sat_mul_def unat_all_ones min_def)
qed

lemma unat_lt8 [simp]: "unat (b :: byte) < 256"
  using unsigned_less [of b] by simp

lemma unat_lt16 [simp]: "unat (b :: u16) < 65536"
  using unsigned_less [of b] by simp

lemma unat_lt32 [simp]: "unat (b :: u32) < 4294967296"
  using unsigned_less [of b] by simp

lemma min_unat16 [simp]: "65535 \<le> c \<Longrightarrow> min (unat (x :: u16)) c = unat x"
proof -
  assume "65535 \<le> c"
  moreover have "unat x < 65536" by (rule unat_lt16)
  ultimately have "unat x \<le> c" by linarith
  then show ?thesis by (rule min_absorb1)
qed

lemma min_unat16_add [simp]:
  "65535 + k \<le> c \<Longrightarrow> min (unat (x :: u16) + k) c = unat x + k"
proof -
  assume "65535 + k \<le> c"
  moreover have "unat x < 65536" by (rule unat_lt16)
  ultimately have "unat x + k \<le> c" by linarith
  then show ?thesis by (rule min_absorb1)
qed

lemma min_unat8 [simp]: "255 \<le> c \<Longrightarrow> min (unat (x :: byte)) c = unat x"
proof -
  assume "255 \<le> c"
  moreover have "unat x < 256" by (rule unat_lt8)
  ultimately have "unat x \<le> c" by linarith
  then show ?thesis by (rule min_absorb1)
qed

lemma unat_byte_of_nat: "n < 256 \<Longrightarrow> unat (word_of_nat n :: byte) = n"
  by (simp add: unat_of_nat)

lemma word_of_unat: "unat v = n \<Longrightarrow> v = word_of_nat n"
  by auto

lemma unat_u16_of_nat: "n < 65536 \<Longrightarrow> unat (word_of_nat n :: u16) = n"
  by (simp add: unat_of_nat)

lemma unat_u32_of_nat: "n < 4294967296 \<Longrightarrow> unat (word_of_nat n :: u32) = n"
  by (simp add: unat_of_nat)

lemma try_u16_eq_Some [result_simps]:
  "try_u16 n = Some v \<longleftrightarrow> n = unat v"
  by (auto simp: try_u16_def unat_of_nat)

lemma try_u16_eq_None [result_simps]: "try_u16 n = None \<longleftrightarrow> 65536 \<le> n"
  by (auto simp: try_u16_def)

lemma try_u32_eq_Some [result_simps]:
  "try_u32 n = Some v \<longleftrightarrow> n = unat v"
  by (auto simp: try_u32_def unat_of_nat)

lemma try_u32_eq_None [result_simps]: "try_u32 n = None \<longleftrightarrow> 4294967296 \<le> n"
  by (auto simp: try_u32_def)

lemma unat_widen [simp]:
  "unat (ucast (x :: u16) :: u32) = unat x"
  "unat (ucast (b :: byte) :: u32) = unat b"
  "unat (ucast (b :: byte) :: u16) = unat b"
proof -
  show "unat (ucast (x :: u16) :: u32) = unat x"
    using unat_lt16 [of x] by (simp add: unsigned_ucast_eq take_bit_eq_mod del: unat_lt16)
  show "unat (ucast (b :: byte) :: u32) = unat b" "unat (ucast (b :: byte) :: u16) = unat b"
    using unat_lt8 [of b] by (simp_all add: unsigned_ucast_eq take_bit_eq_mod del: unat_lt8)
qed

section \<open>The continuation bit of a byte\<close>

lemma byte_low_bits [unat_simps]: "unat (b AND 0x7F :: byte) = unat b mod 128"
proof -
  have "b AND 0x7F = take_bit 7 b" by (simp add: take_bit_eq_mask mask_eq_exp_minus_1)
  then show ?thesis by (simp add: unat_mod_distrib take_bit_eq_mod)
qed

lemma byte_high_bit: "b AND 0x80 = 0 \<longleftrightarrow> unat (b :: byte) < 128"
proof -
  have "b AND 0x80 = 0 \<longleftrightarrow> \<not> bit b 7"
    using and_exp_eq_0_iff_not_bit [of b 7] by simp
  also have "\<dots> \<longleftrightarrow> \<not> bit (unat b) 7" by (simp add: bit_unsigned_iff)
  also have "\<dots> \<longleftrightarrow> even (unat b div 128)" by (simp add: bit_iff_odd)
  also have "\<dots> \<longleftrightarrow> unat b div 128 = 0"
  proof -
    have "unat b div 128 < 2" using unat_lt8 [of b] by (simp add: less_mult_imp_div_less)
    then have "unat b div 128 = 0 \<or> unat b div 128 = 1" by linarith
    then show ?thesis by auto
  qed
  also have "\<dots> \<longleftrightarrow> unat b < 128" by (simp add: div_eq_0_iff)
  finally show ?thesis .
qed

lemma set_high_bit: "unat x < 128 \<Longrightarrow> x OR 0x80 = (word_of_nat (unat x + 128) :: byte)"
proof -
  assume x: "unat x < 128"
  then have "x AND 0x80 = 0" by (simp add: byte_high_bit)
  then have "x OR 0x80 = x + 0x80" using word_plus_and_or [of x "0x80"] by simp
  also have "\<dots> = word_of_nat (unat x + 128)" by simp
  finally show ?thesis .
qed

text \<open>A statement about one byte is decided by its 256 instances.\<close>

lemma all_bytes:
  "list_all P (map word_of_nat [0..<256]) \<Longrightarrow> P (b :: byte)"
proof -
  assume a: "list_all P (map word_of_nat [0..<256])"
  have "b = word_of_nat (unat b)" by simp
  moreover have "unat b \<in> set [0..<256]" by simp
  ultimately have "b \<in> set (map word_of_nat [0..<256])" by (metis image_eqI list.set_map)
  with a show "P b" unfolding list_all_iff by blast
qed

section \<open>Big-endian fields\<close>

text \<open>\<open>to_be_bytes\<close> and \<open>from_be_bytes\<close> for the two widths MQTT uses.\<close>

definition be16 :: "u16 \<Rightarrow> bytes" where
  "be16 v = [ucast (drop_bit 8 v), ucast v]"

definition be32 :: "u32 \<Rightarrow> bytes" where
  "be32 v = [ucast (drop_bit 24 v), ucast (drop_bit 16 v), ucast (drop_bit 8 v), ucast v]"

fun from_be16 :: "bytes \<Rightarrow> u16 option" where
  "from_be16 [a, b] = Some (push_bit 8 (ucast a) OR ucast b)"
| "from_be16 _ = None"

fun from_be32 :: "bytes \<Rightarrow> u32 option" where
  "from_be32 [a, b, c, d] =
     Some (push_bit 24 (ucast a) OR push_bit 16 (ucast b) OR push_bit 8 (ucast c) OR ucast d)"
| "from_be32 _ = None"

lemma length_be16 [simp]: "length (be16 v) = 2"
  by (simp add: be16_def)

lemma length_be32 [simp]: "length (be32 v) = 4"
  by (simp add: be32_def)

lemma byte_bit_beyond [simp]:
  "\<not> bit (b :: byte) (8 + n)" "\<not> bit (b :: byte) (16 + n)" "\<not> bit (b :: byte) (24 + n)"
  by (auto dest: bit_imp_le_length)

lemma from_be16_be16 [simp]: "from_be16 (be16 v) = Some v"
  by (auto simp: be16_def bit_simps intro!: bit_word_eqI)

lemma from_be32_be32 [simp]: "from_be32 (be32 v) = Some v"
proof -
  have "bit (push_bit 24 (ucast (ucast (drop_bit 24 v) :: byte) :: u32)
      OR push_bit 16 (ucast (ucast (drop_bit 16 v) :: byte))
      OR push_bit 8 (ucast (ucast (drop_bit 8 v) :: byte)) OR ucast (ucast v :: byte)) n
      = bit v n" if "n < 32" for n
  proof -
    consider "n < 8" | "8 \<le> n" "n < 16" | "16 \<le> n" "n < 24" | "24 \<le> n" "n < 32"
      using \<open>n < 32\<close> by linarith
    then show ?thesis by cases (auto simp: bit_simps)
  qed
  then show ?thesis by (auto simp: be32_def intro!: bit_word_eqI)
qed

lemma from_be16_eq_Some [result_simps]: "from_be16 bs = Some v \<longleftrightarrow> bs = be16 v"
proof
  assume "from_be16 bs = Some v"
  then show "bs = be16 v"
    by (cases bs rule: from_be16.cases)
      (auto simp: be16_def bit_simps intro!: bit_word_eqI)
qed simp

lemma from_be32_eq_Some [result_simps]: "from_be32 bs = Some v \<longleftrightarrow> bs = be32 v"
proof
  assume "from_be32 bs = Some v"
  then show "bs = be32 v"
    by (cases bs rule: from_be32.cases)
      (auto simp: be32_def bit_simps intro!: bit_word_eqI)
qed simp

lemma from_be16_eq_None [result_simps]: "from_be16 bs = None \<longleftrightarrow> length bs \<noteq> 2"
  by (cases bs rule: from_be16.cases) auto

lemma from_be32_eq_None [result_simps]: "from_be32 bs = None \<longleftrightarrow> length bs \<noteq> 4"
  by (cases bs rule: from_be32.cases) auto

lemma be_inject [simp]: "be16 v = be16 w \<longleftrightarrow> v = w" "be32 x = be32 y \<longleftrightarrow> x = y"
  by (metis from_be16_be16 option.inject) (metis from_be32_be32 option.inject)

lemma be16_append_eq [simp]:
  "be16 i @ xs = a # b # ys \<longleftrightarrow> be16 i = [a, b] \<and> xs = ys"
  "a # b # ys = be16 i @ xs \<longleftrightarrow> be16 i = [a, b] \<and> xs = ys"
  "be16 i @ xs \<noteq> []" "be16 i @ xs \<noteq> [a]" "[a] \<noteq> be16 i @ xs" "be16 i \<noteq> []" "[] \<noteq> be16 i" "be16 i \<noteq> [a]"
  "be16 i \<noteq> a # b # c # zs" "[a] \<noteq> be16 i" "a # b # c # zs \<noteq> be16 i"
  by (auto simp: be16_def)

end
