(* ===== verification/Varint.thy ===== *)
theory Varint
  imports Prelude
begin

text \<open>
  The specification side of MQTT's variable byte integer, over natural numbers: how a
  value is written (\<open>vl_encode\<close>), and what any reader of at most \<open>k\<close> bytes finds at the
  front of a buffer (\<open>vl_scan\<close>). The three decoders of the code and its one encoder are
  related to these two in the theories that model them. The locale \<open>prefix_codec\<close> is the
  contract between an encoder and a decoder that leaves the rest of the buffer alone.
\<close>

section \<open>The contract of a codec\<close>

locale prefix_codec =
  fixes enc :: "'a \<Rightarrow> bytes"
    and dec :: "bytes \<Rightarrow> ('a \<times> nat) option"
    and ok :: "'a \<Rightarrow> bool"
  assumes dec_enc: "ok x \<Longrightarrow> dec (enc x @ rest) = Some (x, length (enc x))"
    and dec_inv: "dec bs = Some (x, n) \<Longrightarrow> ok x \<and> n \<le> length bs \<and> take n bs = enc x"
begin

lemma dec_iff:
  "dec bs = Some (x, n) \<longleftrightarrow> ok x \<and> n = length (enc x) \<and> (\<exists>rest. bs = enc x @ rest)"
proof
  assume d: "dec bs = Some (x, n)"
  then have o: "ok x" and le: "n \<le> length bs" and t: "take n bs = enc x"
    using dec_inv by blast+
  have "bs = enc x @ drop n bs" using t by (metis append_take_drop_id)
  moreover have "n = length (enc x)" using t le by (metis length_take min.absorb2)
  ultimately show "ok x \<and> n = length (enc x) \<and> (\<exists>rest. bs = enc x @ rest)"
    using o by blast
next
  assume "ok x \<and> n = length (enc x) \<and> (\<exists>rest. bs = enc x @ rest)"
  then show "dec bs = Some (x, n)" using dec_enc by auto
qed

lemma unambiguous:
  assumes "ok x" "ok y" "enc x @ r = enc y @ s"
  shows "x = y \<and> r = s"
proof -
  have "dec (enc x @ r) = Some (x, length (enc x))" using assms(1) by (rule dec_enc)
  moreover have "dec (enc x @ r) = Some (y, length (enc y))"
    using assms(2,3) dec_enc by metis
  ultimately have "x = y" by simp
  with assms(3) show ?thesis by simp
qed

lemma enc_inject: "ok x \<Longrightarrow> ok y \<Longrightarrow> enc x = enc y \<longleftrightarrow> x = y"
  using unambiguous [of x y "[]" "[]"] by auto

lemma dec_None_iff: "dec bs = None \<longleftrightarrow> (\<forall>x rest. ok x \<longrightarrow> bs \<noteq> enc x @ rest)"
  using dec_iff by (cases "dec bs") (auto simp: dec_enc)

end

section \<open>Writing\<close>

fun vl_encode :: "nat \<Rightarrow> bytes" where
  "vl_encode n = (if n < 128 then [word_of_nat n]
     else word_of_nat (n mod 128 + 128) # vl_encode (n div 128))"

declare vl_encode.simps [simp del]

lemma vl_encode_small: "n < 128 \<Longrightarrow> vl_encode n = [word_of_nat n]"
  by (simp add: vl_encode.simps)

lemma vl_encode_step:
  "\<not> n < 128 \<Longrightarrow> vl_encode n = word_of_nat (n mod 128 + 128) # vl_encode (n div 128)"
  by (simp add: vl_encode.simps [of n])

lemma vl_encode_nonempty [simp]: "vl_encode n \<noteq> []"
  by (cases "n < 128") (simp_all add: vl_encode_small vl_encode_step)

lemma length_vl_encode:
  "n < 268435456 \<Longrightarrow>
   length (vl_encode n) = (if n < 128 then 1 else if n < 16384 then 2 else if n < 2097152 then 3 else 4)"
  by (simp add: vl_encode_step vl_encode_small less_mult_imp_div_less)

lemma length_vl_encode_pos [simp]: "0 < length (vl_encode n)"
  by simp

section \<open>Reading\<close>

datatype vl_result = Vl_Done nat nat | Vl_Truncated | Vl_TooLong

fun vl_scan :: "nat \<Rightarrow> bytes \<Rightarrow> vl_result" where
  "vl_scan 0 bs = Vl_TooLong"
| "vl_scan (Suc k) [] = Vl_Truncated"
| "vl_scan (Suc k) (b # bs) =
     (if unat b < 128 then Vl_Done (unat b) 1
      else case vl_scan k bs of
             Vl_Done v n \<Rightarrow> Vl_Done (unat b - 128 + 128 * v) (Suc n)
           | r \<Rightarrow> r)"

lemma vl_scan_encode:
  "0 < k \<Longrightarrow> n < 128 ^ k \<Longrightarrow> vl_scan k (vl_encode n @ rest) = Vl_Done n (length (vl_encode n))"
proof (induction k arbitrary: n)
  case 0
  then show ?case by simp
next
  case (Suc k)
  show ?case
  proof (cases "n < 128")
    case True
    then show ?thesis by (simp add: vl_encode_small unat_of_nat)
  next
    case False
    then have "0 < k" using Suc.prems by (cases k) auto
    moreover have "n div 128 < 128 ^ k"
      using Suc.prems by (simp add: less_mult_imp_div_less mult.commute)
    ultimately have "vl_scan k (vl_encode (n div 128) @ rest)
        = Vl_Done (n div 128) (length (vl_encode (n div 128)))" by (rule Suc.IH)
    moreover have "unat (word_of_nat (n mod 128 + 128) :: byte) = n mod 128 + 128"
      using mod_less_divisor [of 128 n] by (intro unat_byte_of_nat) linarith
    ultimately show ?thesis using False by (simp add: vl_encode_step)
  qed
qed

lemma vl_scan_bounds:
  "vl_scan k bs = Vl_Done v n \<Longrightarrow> 0 < n \<and> n \<le> k \<and> n \<le> length bs \<and> v < 128 ^ n"
proof (induction k bs arbitrary: v n rule: vl_scan.induct)
  case (3 k b bs)
  show ?case
  proof (cases "unat b < 128")
    case False
    with "3.prems" obtain v' n' where r: "vl_scan k bs = Vl_Done v' n'"
      and v: "v = unat b - 128 + 128 * v'" and n: "n = Suc n'"
      by (auto split: vl_result.splits)
    with "3.IH" False have ih: "0 < n'" "n' \<le> k" "n' \<le> length bs" "v' < 128 ^ n'" by auto
    have "unat b - 128 < 128" using unat_lt8 [of b] by linarith
    with ih(4) have "unat b - 128 + 128 * v' < 128 * 128 ^ n'" by linarith
    with ih v n show ?thesis by simp
  qed (use 3 in auto)
qed simp_all

lemma vl_scan_minimal:
  "vl_scan k bs = Vl_Done v n \<Longrightarrow> n = length (vl_encode v) \<Longrightarrow> take n bs = vl_encode v"
proof (induction k bs arbitrary: v n rule: vl_scan.induct)
  case (3 k b bs)
  show ?case
  proof (cases "unat b < 128")
    case True
    with "3.prems"(1) have "v = unat b" "n = 1" by auto
    with True show ?thesis by (simp add: vl_encode_small)
  next
    case False
    with "3.prems" obtain v' n' where r: "vl_scan k bs = Vl_Done v' n'"
      and v: "v = unat b - 128 + 128 * v'" and n: "n = Suc n'"
      by (auto split: vl_result.splits)
    have n': "0 < n'" using vl_scan_bounds [OF r] by simp
    have b: "unat b - 128 < 128" using unat_lt8 [of b] by linarith
    have "\<not> v < 128"
    proof
      assume "v < 128"
      then have "length (vl_encode v) = 1" by (simp add: vl_encode_small)
      with "3.prems"(2) n n' show False by simp
    qed
    then have e: "vl_encode v = word_of_nat (v mod 128 + 128) # vl_encode (v div 128)"
      by (rule vl_encode_step)
    have d: "v div 128 = v'" "v mod 128 = unat b - 128" using v b by simp_all
    with False have "v mod 128 + 128 = unat b" by simp
    then have "word_of_nat (v mod 128 + 128) = (word_of_nat (unat b) :: byte)" by simp
    then have "word_of_nat (v mod 128 + 128) = b" by simp
    moreover have "take n' bs = vl_encode v'"
      using "3.IH" False r e d n "3.prems"(2) by simp
    ultimately show ?thesis using e d n by simp
  qed
qed simp_all

lemma vl_scan_Truncated:
  "vl_scan k bs = Vl_Truncated \<longleftrightarrow> length bs < k \<and> (\<forall>b \<in> set bs. 128 \<le> unat b)"
  by (induction k bs rule: vl_scan.induct) (auto split: vl_result.split)

lemma vl_scan_append:
  "vl_scan k bs \<noteq> Vl_Truncated \<Longrightarrow> vl_scan k (bs @ cs) = vl_scan k bs"
  by (induction k bs rule: vl_scan.induct) (auto split: vl_result.split if_splits)

lemma digit_bound:
  "acc < 128 ^ k \<Longrightarrow> acc + 128 ^ k * (unat (b :: byte) - 128) < 128 ^ Suc k"
proof -
  assume acc: "acc < 128 ^ k"
  have "unat b - 128 \<le> 127" using unat_lt8 [of b] by linarith
  then have "128 ^ k * (unat b - 128) \<le> 128 ^ k * 127" by (rule mult_le_mono2)
  with acc have "acc + 128 ^ k * (unat b - 128) < 128 ^ k + 128 ^ k * 127" by linarith
  then show ?thesis by simp
qed

lemma digit_value:
  "acc + 128 ^ k * d + 128 ^ Suc k * v = acc + 128 ^ k * (d + 128 * v :: nat)"
  by (simp only: power_Suc add_mult_distrib2 ac_simps)

lemma vl_scan_4_less: "vl_scan 4 bs = Vl_Done v n \<Longrightarrow> v < 268435456"
proof -
  assume "vl_scan 4 bs = Vl_Done v n"
  then have "v < 128 ^ n" "n \<le> 4" using vl_scan_bounds by auto
  moreover have "(128 :: nat) ^ n \<le> 128 ^ 4" using \<open>n \<le> 4\<close> by (rule power_increasing) simp
  ultimately show ?thesis by simp
qed

definition vl_read :: "bytes \<Rightarrow> (nat \<times> nat) option" where
  "vl_read bs = (case vl_scan 4 bs of
      Vl_Done v n \<Rightarrow> if n = length (vl_encode v) then Some (v, n) else None
    | _ \<Rightarrow> None)"

interpretation vl: prefix_codec vl_encode vl_read "\<lambda>n. n < 268435456"
proof unfold_locales
  fix x rest assume "x < (268435456 :: nat)"
  then show "vl_read (vl_encode x @ rest) = Some (x, length (vl_encode x))"
    using vl_scan_encode [of 4 x rest] by (simp add: vl_read_def)
next
  fix bs x n assume "vl_read bs = Some (x, n)"
  then have s: "vl_scan 4 bs = Vl_Done x n" and m: "n = length (vl_encode x)"
    by (auto simp: vl_read_def split: vl_result.splits if_splits)
  have "x < 128 ^ n" "n \<le> 4" "n \<le> length bs" using vl_scan_bounds [OF s] by auto
  moreover have "(128 :: nat) ^ n \<le> 128 ^ 4" using \<open>n \<le> 4\<close> by (rule power_increasing) simp
  ultimately show "x < 268435456 \<and> n \<le> length bs \<and> take n bs = vl_encode x"
    using vl_scan_minimal [OF s m] by simp
qed

end
