(* ===== verification/Header.thy ===== *)
theory Header
  imports Varint
begin

text \<open>
  The fixed header (src/crates/rusty_rtos_mqtt-core/src/header.rs): the packet type bytes,
  the variable byte length in both directions, the set of types a broker may send, and the
  reader of a header out of a buffer. The lemmas relate the encoder to \<open>vl_encode\<close> and the
  reader to \<open>vl_read\<close>, from which the round trip, the bounds and the refusal of
  non-minimal lengths follow.
\<close>

section \<open>Constants\<close>

abbreviation MAX_REMAINING_LENGTH :: u32 where
  "MAX_REMAINING_LENGTH \<equiv> 268435455"

abbreviation REMAINING_LENGTH_INVALID :: u32 where
  "REMAINING_LENGTH_INVALID \<equiv> 268435456"

abbreviation (input) CONNECT :: byte where "CONNECT \<equiv> 0x10"
abbreviation (input) CONNACK :: byte where "CONNACK \<equiv> 0x20"
abbreviation (input) PUBLISH :: byte where "PUBLISH \<equiv> 0x30"
abbreviation (input) PUBACK :: byte where "PUBACK \<equiv> 0x40"
abbreviation (input) PUBREC :: byte where "PUBREC \<equiv> 0x50"
abbreviation (input) PUBREL_NIBBLE :: byte where "PUBREL_NIBBLE \<equiv> 0x60"
abbreviation (input) PUBCOMP :: byte where "PUBCOMP \<equiv> 0x70"
abbreviation (input) SUBACK :: byte where "SUBACK \<equiv> 0x90"
abbreviation (input) UNSUBACK :: byte where "UNSUBACK \<equiv> 0xB0"
abbreviation (input) PINGRESP :: byte where "PINGRESP \<equiv> 0xD0"
abbreviation (input) DISCONNECT :: byte where "DISCONNECT \<equiv> 0xE0"
abbreviation (input) PUBREL :: byte where "PUBREL \<equiv> 0x62"
abbreviation (input) SUBSCRIBE :: byte where "SUBSCRIBE \<equiv> 0x82"
abbreviation (input) UNSUBSCRIBE :: byte where "UNSUBSCRIBE \<equiv> 0xA2"
abbreviation (input) PINGREQ_TYPE :: byte where "PINGREQ_TYPE \<equiv> 0xC0"
abbreviation (input) AUTH :: byte where "AUTH \<equiv> 0xF0"

record packet_header =
  h_packet_type :: byte
  h_remaining_length :: u32
  h_header_length :: nat

datatype header_error = H_NoDataAvailable | H_NeedMoreBytes | H_BadResponse

section \<open>Encoding a length\<close>

definition variable_length_encoded_size :: "u32 \<Rightarrow> u32" where
  "variable_length_encoded_size len =
     (if len < 128 then 1 else if len < 16384 then 2
      else if len < 2097152 then 3 else 4)"

function encode_loop :: "bytes \<Rightarrow> u32 \<Rightarrow> nat \<Rightarrow> bytes \<times> nat" where
  "encode_loop destination remaining written =
     (let byte = ucast (remaining mod 128);
          remaining' = remaining div 128;
          byte' = (if remaining' > 0 then byte OR 0x80 else byte)
      in if written < length destination
         then let destination' = destination[written := byte'] in
              if remaining' = 0 then (destination', written + 1)
              else encode_loop destination' remaining' (written + 1)
         else (destination, written))"
  by pat_completeness auto
termination
proof (relation "measure (\<lambda>(d, r, w). length d - w)", goal_cases)
qed auto

declare encode_loop.simps [simp del]

text \<open>The pair is the destination afterwards and the returned count.\<close>

definition encode_variable_length :: "bytes \<Rightarrow> u32 \<Rightarrow> bytes \<times> nat" where
  "encode_variable_length destination len =
     (let needed = unat (variable_length_encoded_size len) in
      if length destination < needed then (destination, 0)
      else encode_loop destination len 0)"

section \<open>The types a broker may send\<close>

definition type_bit :: "byte \<Rightarrow> u16" where
  "type_bit type_byte = push_bit (unat (drop_bit 4 type_byte)) 1"

definition VALID :: u16 where
  "VALID = type_bit CONNACK OR type_bit PUBLISH OR type_bit PUBACK OR type_bit PUBREC
     OR type_bit PUBCOMP OR type_bit SUBACK OR type_bit UNSUBACK OR type_bit PINGRESP
     OR type_bit DISCONNECT OR type_bit AUTH"

definition incoming_packet_valid :: "byte \<Rightarrow> bool" where
  "incoming_packet_valid packet_type =
     (if packet_type AND 0xF0 = PUBREL_NIBBLE then packet_type AND 0x02 \<noteq> 0
      else drop_bit (unat (drop_bit 4 packet_type)) VALID AND 1 = 1)"

section \<open>Reading a header out of a buffer\<close>

function header_length_loop ::
    "bytes \<Rightarrow> nat \<Rightarrow> u32 \<Rightarrow> u32 \<Rightarrow> nat \<Rightarrow> header_error + (u32 \<times> nat)" where
  "header_length_loop buffer available remaining_length multiplier bytes_decoded =
     (if multiplier > 2097152 then Inl H_BadResponse
      else if available \<le> bytes_decoded + 1 then Inl H_NeedMoreBytes
      else case get_at buffer (bytes_decoded + 1) of
             None \<Rightarrow> Inl H_NeedMoreBytes
           | Some byte \<Rightarrow>
               let remaining_length' = remaining_length + ucast (byte AND 0x7F) * multiplier;
                   multiplier' = multiplier * 128;
                   bytes_decoded' = bytes_decoded + 1
               in if byte AND 0x80 = 0 then Inr (remaining_length', bytes_decoded')
                  else header_length_loop buffer available remaining_length' multiplier'
                         bytes_decoded')"
  by pat_completeness auto
termination
  by (relation "measure (\<lambda>(b, a, r, m, d). a - d)") auto

declare header_length_loop.simps [simp del]

definition process_incoming_packet_type_and_length ::
    "bytes \<Rightarrow> nat \<Rightarrow> header_error + packet_header" where
  "process_incoming_packet_type_and_length buffer available =
     (if available < 1 then Inl H_NoDataAvailable
      else case get_at buffer 0 of
        None \<Rightarrow> Inl H_NoDataAvailable
      | Some packet_type \<Rightarrow>
          if \<not> incoming_packet_valid packet_type then Inl H_BadResponse
          else rbind (header_length_loop buffer available 0 1 0)
            (\<lambda>(remaining_length, bytes_decoded).
               if bytes_decoded \<noteq> unat (variable_length_encoded_size remaining_length)
               then Inl H_BadResponse
               else Inr \<lparr>h_packet_type = packet_type, h_remaining_length = remaining_length,
                         h_header_length = bytes_decoded + 1\<rparr>))"

section \<open>The size of an encoded length\<close>

lemma encoded_size_bounds: "unat (variable_length_encoded_size n) \<in> {1..4}"
  by (simp add: variable_length_encoded_size_def)

lemma encoded_size_le_4 [simp]: "unat (variable_length_encoded_size n) \<le> 4"
  and encoded_size_pos [simp]: "0 < unat (variable_length_encoded_size n)"
  using encoded_size_bounds [of n] by auto

lemma unat_encoded_size [unat_simps]:
  "unat n < 268435456 \<Longrightarrow>
   unat (variable_length_encoded_size n) = length (vl_encode (unat n))"
  by (simp add: variable_length_encoded_size_def length_vl_encode word_less_nat_alt)

section \<open>The encoder writes the specified bytes\<close>

lemma encode_loop_small:
  "unat r < 128 \<Longrightarrow> w < length d \<Longrightarrow>
   encode_loop d r w = (d[w := word_of_nat (unat r)], Suc w)"
proof -
  assume r: "unat r < 128" and w: "w < length d"
  have z: "r div 128 = 0" using r by (simp add: unat_div_distrib word_unat_eq_iff)
  have m: "r mod 128 = r" using r by (simp add: unat_mod_distrib word_unat_eq_iff)
  have "ucast r = (word_of_nat (unat r) :: byte)" by simp
  then show ?thesis using w by (simp add: encode_loop.simps [of d r w] z m Let_def)
qed

lemma encode_loop_step:
  "\<not> unat r < 128 \<Longrightarrow> w < length d \<Longrightarrow>
   encode_loop d r w
     = encode_loop (d[w := word_of_nat (unat r mod 128 + 128)]) (r div 128) (Suc w)"
proof -
  assume r: "\<not> unat r < 128" and w: "w < length d"
  have z: "r div 128 \<noteq> 0" using r by (simp add: unat_div_distrib word_unat_eq_iff div_eq_0_iff)
  then have p: "r div 128 > 0" by (simp add: word_neq_0_conv)
  have "unat (ucast (r mod 128) :: byte) = unat r mod 128"
    by (simp add: unsigned_ucast_eq take_bit_eq_mod unat_mod_distrib mod_mod_cancel)
  then have "ucast (r mod 128) OR 0x80 = (word_of_nat (unat r mod 128 + 128) :: byte)"
    using set_high_bit [of "ucast (r mod 128)"] by simp
  then show ?thesis using w z p by (simp add: encode_loop.simps [of d r w] Let_def)
qed

lemma encode_loop_spec:
  "w + length (vl_encode (unat r)) \<le> length d \<Longrightarrow>
   encode_loop d r w = (splice d w (vl_encode (unat r)), w + length (vl_encode (unat r)))"
proof (induction "unat r" arbitrary: d r w rule: less_induct)
  case less
  show ?case
  proof (cases "unat r < 128")
    case True
    with less.prems show ?thesis by (simp add: encode_loop_small vl_encode_small splice_update)
  next
    case False
    let ?b = "word_of_nat (unat r mod 128 + 128) :: byte"
    have dv: "unat (r div 128) = unat r div 128" by (simp add: unat_div_distrib)
    have e: "vl_encode (unat r) = ?b # vl_encode (unat r div 128)"
      using False by (rule vl_encode_step)
    have l: "w < length d" using less.prems by (simp add: e)
    have "encode_loop (d[w := ?b]) (r div 128) (Suc w)
        = (splice (d[w := ?b]) (Suc w) (vl_encode (unat r div 128)),
           Suc w + length (vl_encode (unat r div 128)))"
      using less.hyps [of "r div 128" "Suc w" "d[w := ?b]"] less.prems False by (simp add: dv e)
    moreover have "splice (d[w := ?b]) (Suc w) (vl_encode (unat r div 128))
        = splice d w (vl_encode (unat r))"
      using splice_append [of w "[?b]" "vl_encode (unat r div 128)" d] less.prems l
      by (simp add: splice_update e)
    ultimately show ?thesis using encode_loop_step [OF False l] by (simp add: e)
  qed
qed

lemma encode_variable_length_eq:
  "unat n < 268435456 \<Longrightarrow>
   encode_variable_length d n =
     (if length d < length (vl_encode (unat n)) then (d, 0)
      else (splice d 0 (vl_encode (unat n)), length (vl_encode (unat n))))"
  by (simp add: encode_variable_length_def unat_encoded_size encode_loop_spec Let_def)

section \<open>The reader finds what the specification finds\<close>

fun header_outcome :: "nat \<Rightarrow> nat \<Rightarrow> vl_result \<Rightarrow> header_error + (u32 \<times> nat)" where
  "header_outcome acc k (Vl_Done v n) = Inr (word_of_nat (acc + 128 ^ k * v), k + n)"
| "header_outcome acc k Vl_Truncated = Inl H_NeedMoreBytes"
| "header_outcome acc k Vl_TooLong = Inl H_BadResponse"

lemma header_length_loop_step:
  assumes "k < 4" "acc < 128 ^ k"
  shows "header_length_loop buffer available (word_of_nat acc) (word_of_nat (128 ^ k)) k =
    (case drop (Suc k) (take available buffer) of
       [] \<Rightarrow> Inl H_NeedMoreBytes
     | b # _ \<Rightarrow>
         if unat b < 128
         then Inr (word_of_nat (acc + 128 ^ k * unat b), Suc k)
         else header_length_loop buffer available
                (word_of_nat (acc + 128 ^ k * (unat b - 128))) (word_of_nat (128 ^ Suc k)) (Suc k))"
proof -
  have p: "(128 :: nat) ^ k \<le> 128 ^ 3" using assms(1) by (intro power_increasing) auto
  have m: "\<not> (word_of_nat (128 ^ k) :: u32) > 2097152"
    using p by (simp del: of_nat_power add: word_less_nat_alt unat_u32_of_nat not_less)
  show ?thesis
  proof (cases "Suc k < available \<and> Suc k < length buffer")
    case False
    then have "drop (Suc k) (take available buffer) = []" by auto
    moreover have "available \<le> k + 1 \<or> get_at buffer (k + 1) = None"
      using False by (auto simp: result_simps)
    ultimately show ?thesis
      using m by (auto simp: header_length_loop.simps [of buffer available "word_of_nat acc"])
  next
    case True
    then obtain b where b: "b = buffer ! Suc k" by simp
    have d: "drop (Suc k) (take available buffer) = b # drop (Suc (Suc k)) (take available buffer)"
      using True b by (simp add: Cons_nth_drop_Suc [symmetric])
    have g: "get_at buffer (k + 1) = Some b" using True b by (simp add: get_at_def)
    have u: "(ucast (b AND 0x7F) :: u32) = word_of_nat (unat b mod 128)"
      by (simp add: word_unat_eq_iff unsigned_ucast_eq unat_simps take_bit_eq_mod unat_of_nat)
    have s: "word_of_nat acc + ucast (b AND 0x7F) * word_of_nat (128 ^ k)
        = (word_of_nat (acc + 128 ^ k * (unat b mod 128)) :: u32)"
      by (simp only: u of_nat_add of_nat_mult mult.commute)
    have lt: "unat b - 128 < 128" using unat_lt8 [of b] by linarith
    have b128: "unat b mod 128 = (if unat b < 128 then unat b else unat b - 128)"
      by (cases "unat b < 128") (simp_all add: le_mod_geq mod_less [OF lt])
    have mm: "word_of_nat (128 ^ k) * 128 = (word_of_nat (128 ^ Suc k) :: u32)"
      by simp
    have a: "\<not> available \<le> k + 1" using True by simp
    have "header_length_loop buffer available (word_of_nat acc) (word_of_nat (128 ^ k)) k =
      (if unat b < 128 then Inr (word_of_nat (acc + 128 ^ k * (unat b mod 128)), k + 1)
       else header_length_loop buffer available (word_of_nat (acc + 128 ^ k * (unat b mod 128)))
              (word_of_nat (128 ^ Suc k)) (k + 1))"
      by (subst header_length_loop.simps, unfold Let_def g option.case if_not_P [OF m]
          if_not_P [OF a] s mm byte_high_bit) (rule refl)
    then show ?thesis unfolding d list.case b128 by simp
  qed
qed

lemma header_length_loop_scan:
  "k \<le> 4 \<Longrightarrow> acc < 128 ^ k \<Longrightarrow>
   header_length_loop buffer available (word_of_nat acc) (word_of_nat (128 ^ k)) k =
     header_outcome acc k (vl_scan (4 - k) (drop (Suc k) (take available buffer)))"
proof (induction "4 - k" arbitrary: k acc)
  case 0
  then have "k = 4" by simp
  then show ?case by (simp add: header_length_loop.simps)
next
  case (Suc j)
  then have k: "k < 4" and jk: "4 - k = Suc j" "j = 4 - Suc k" by auto
  show ?case
  proof (cases "drop (Suc k) (take available buffer)")
    case Nil
    then show ?thesis
      by (simp only: header_length_loop_step [OF k Suc.prems(2)] jk(1) list.case vl_scan.simps
          header_outcome.simps)
  next
    case (Cons b bs)
    then have bs: "drop (Suc (Suc k)) (take available buffer) = bs"
      by (metis drop_Suc list.sel(3) tl_drop)
    show ?thesis
    proof (cases "unat b < 128")
      case True
      then show ?thesis
        by (simp only: header_length_loop_step [OF k Suc.prems(2)] jk(1) Cons list.case
            vl_scan.simps if_True header_outcome.simps) simp
    next
      case False
      have "acc + 128 ^ k * (unat b - 128) < 128 ^ Suc k"
        using Suc.prems(2) by (rule digit_bound)
      then have "header_length_loop buffer available (word_of_nat (acc + 128 ^ k * (unat b - 128)))
          (word_of_nat (128 ^ Suc k)) (Suc k)
        = header_outcome (acc + 128 ^ k * (unat b - 128)) (Suc k) (vl_scan j bs)"
        using Suc.hyps(1) [OF jk(2)] k bs jk(2) by (metis Suc_leI)
      moreover have "header_outcome (acc + 128 ^ k * (unat b - 128)) (Suc k) (vl_scan j bs)
        = header_outcome acc k (vl_scan (Suc j) (b # bs))"
      proof (cases "vl_scan j bs")
        case (Vl_Done v n)
        with False show ?thesis
          by (simp only: header_outcome.simps vl_scan.simps if_False vl_result.case add_Suc
              add_Suc_right digit_value)
      qed (use False in simp_all)
      ultimately show ?thesis
        using False
        by (simp only: header_length_loop_step [OF k Suc.prems(2)] jk(1) Cons list.case if_False)
    qed
  qed
qed

section \<open>What the reader accepts\<close>

lemma header_length_loop_top:
  "header_length_loop buffer available 0 1 0 =
     header_outcome 0 0 (vl_scan 4 (drop 1 (take available buffer)))"
  using header_length_loop_scan [of 0 0 buffer available] by simp

lemma get_at_0 [simp]: "get_at bs 0 = (case bs of [] \<Rightarrow> None | b # _ \<Rightarrow> Some b)"
  by (cases bs) simp_all

lemma scan_encoded_size:
  "vl_scan 4 bs = Vl_Done v n \<Longrightarrow>
   unat (variable_length_encoded_size (word_of_nat v)) = length (vl_encode v)"
  using vl_scan_4_less [of bs v n] by (simp add: unat_encoded_size unat_u32_of_nat)

text \<open>The reader, with the loop replaced by the scan and the empty cases taken apart.\<close>

lemma process_incoming_unfold:
  "process_incoming_packet_type_and_length buffer available =
     (case take available buffer of
        [] \<Rightarrow> Inl H_NoDataAvailable
      | t # bs \<Rightarrow>
          if \<not> incoming_packet_valid t then Inl H_BadResponse
          else case vl_scan 4 bs of
                 Vl_Truncated \<Rightarrow> Inl H_NeedMoreBytes
               | Vl_TooLong \<Rightarrow> Inl H_BadResponse
               | Vl_Done v n \<Rightarrow>
                   if n \<noteq> length (vl_encode v) then Inl H_BadResponse
                   else Inr \<lparr>h_packet_type = t, h_remaining_length = word_of_nat v,
                             h_header_length = n + 1\<rparr>)"
proof (cases "available < 1 \<or> buffer = []")
  case True
  then show ?thesis by (auto simp: process_incoming_packet_type_and_length_def)
next
  case False
  then obtain t bs where b: "buffer = t # bs" and a: "available = Suc (available - 1)"
    by (cases buffer) auto
  have t: "take available buffer = t # take (available - 1) bs" using b a by (metis take_Suc_Cons)
  show ?thesis using False b t
    by (simp add: process_incoming_packet_type_and_length_def header_length_loop_top
        scan_encoded_size split: vl_result.split)
qed

text \<open>The reader accepts a buffer exactly when it holds a packet type a broker may send,
  then the minimal encoding of a length below 2^28, and it returns that type, that length
  and the number of bytes the two take; the bytes after them do not matter.\<close>

theorem header_accepts_iff:
  "process_incoming_packet_type_and_length buffer available = Inr h \<longleftrightarrow>
     incoming_packet_valid (h_packet_type h) \<and> unat (h_remaining_length h) \<le> 268435455 \<and>
     h_header_length h = 1 + length (vl_encode (unat (h_remaining_length h))) \<and>
     (\<exists>rest. take available buffer
        = h_packet_type h # vl_encode (unat (h_remaining_length h)) @ rest)"
proof (cases "take available buffer")
  case Nil
  then show ?thesis by (simp only: process_incoming_unfold list.case) simp
next
  case (Cons t bs)
  have lt: "v < 268435456" if "vl_read bs = Some (v, n)" for v n
    using that by (simp add: vl.dec_iff)
  have u: "process_incoming_packet_type_and_length buffer available = Inr h \<longleftrightarrow>
     incoming_packet_valid t \<and> (\<exists>v n. vl_read bs = Some (v, n) \<and>
       h = \<lparr>h_packet_type = t, h_remaining_length = word_of_nat v, h_header_length = n + 1\<rparr>)"
    using Cons by (auto simp: process_incoming_unfold vl_read_def split: vl_result.split)
  show ?thesis
  proof
    assume "process_incoming_packet_type_and_length buffer available = Inr h"
    then obtain v n where v: "incoming_packet_valid t" "vl_read bs = Some (v, n)"
      "h = \<lparr>h_packet_type = t, h_remaining_length = word_of_nat v, h_header_length = n + 1\<rparr>"
      by (auto simp: u)
    moreover have "v < 268435456" using lt v(2) .
    ultimately show "incoming_packet_valid (h_packet_type h) \<and>
     unat (h_remaining_length h) \<le> 268435455 \<and>
     h_header_length h = 1 + length (vl_encode (unat (h_remaining_length h))) \<and>
     (\<exists>rest. take available buffer
        = h_packet_type h # vl_encode (unat (h_remaining_length h)) @ rest)"
      using Cons by (auto simp: vl.dec_iff unat_u32_of_nat)
  next
    assume r: "incoming_packet_valid (h_packet_type h) \<and>
     unat (h_remaining_length h) \<le> 268435455 \<and>
     h_header_length h = 1 + length (vl_encode (unat (h_remaining_length h))) \<and>
     (\<exists>rest. take available buffer
        = h_packet_type h # vl_encode (unat (h_remaining_length h)) @ rest)"
    then have "vl_read bs
        = Some (unat (h_remaining_length h), length (vl_encode (unat (h_remaining_length h))))"
      using Cons by (auto simp: vl.dec_iff)
    with r Cons show "process_incoming_packet_type_and_length buffer available = Inr h"
      by (auto simp: u)
  qed
qed

text \<open>A fixed header built with the encoder is read back: whatever length below 2^28
  is written behind a type a broker may send, in a buffer with room for it, the reader
  returns that type, that length, and the number of bytes the encoder said it wrote.\<close>

theorem header_roundtrip:
  assumes "incoming_packet_valid t" "len \<le> MAX_REMAINING_LENGTH"
    and "unat (variable_length_encoded_size len) \<le> length buffer"
    and "encode_variable_length buffer len = (buffer', n)"
    and "n < available"
  shows "process_incoming_packet_type_and_length (t # buffer') available
    = Inr \<lparr>h_packet_type = t, h_remaining_length = len, h_header_length = n + 1\<rparr>"
proof -
  have l: "unat len < 268435456" using assms(2) by (simp add: word_le_nat_alt)
  have n: "n = length (vl_encode (unat len))" and b: "buffer' = splice buffer 0 (vl_encode (unat len))"
    using assms(3,4) l by (auto simp: encode_variable_length_eq unat_encoded_size)
  have "take available (t # buffer') = t # vl_encode (unat len)
      @ take (available - 1 - n) (drop n buffer)"
    using assms(5) by (cases available) (simp_all add: b n splice_0)
  moreover have "vl_scan 4 (vl_encode (unat len) @ xs) = Vl_Done (unat len) n" for xs
    using vl_scan_encode [of 4 "unat len" xs] l n by simp
  ultimately show ?thesis using assms(1) n by (simp add: process_incoming_unfold)
qed

theorem header_roundtrip_witness:
  "process_incoming_packet_type_and_length
     (0x30 # fst (encode_variable_length [0, 0, 9] 321)) 3
   = Inr \<lparr>h_packet_type = 0x30, h_remaining_length = 321, h_header_length = 3\<rparr>"
  by (rule header_roundtrip [of "0x30" 321 "[0, 0, 9]"
        "fst (encode_variable_length [0, 0, 9] 321)" 2 3, simplified])
    (simp_all add: incoming_packet_valid_def variable_length_encoded_size_def VALID_def
      type_bit_def encode_variable_length_def encode_loop.simps)

text \<open>A verdict other than "more bytes" is final: with more of the buffer available,
  or with anything appended to it, the reader gives the same answer. So asking again as
  bytes arrive can never turn a refused header into an accepted one.\<close>

theorem header_verdict_final:
  assumes "process_incoming_packet_type_and_length buffer available = r"
    and "r \<noteq> Inl H_NoDataAvailable" "r \<noteq> Inl H_NeedMoreBytes"
    and "available \<le> available'" and "available \<le> length buffer"
  shows "process_incoming_packet_type_and_length (buffer @ later) available' = r"
proof (cases "take available buffer")
  case Nil
  then show ?thesis using assms by (auto simp: process_incoming_unfold)
next
  case (Cons t bs)
  obtain extra where "take available' (buffer @ later) = take available buffer @ extra"
    using take_add [of available "available' - available" "buffer @ later"] assms(4,5) by simp
  then have e: "take available' (buffer @ later) = t # bs @ extra" using Cons by simp
  show ?thesis
  proof (cases "incoming_packet_valid t \<and> vl_scan 4 bs = Vl_Truncated")
    case True
    then show ?thesis using assms(1-3) Cons by (auto simp: process_incoming_unfold)
  next
    case False
    then have "\<not> incoming_packet_valid t \<or> vl_scan 4 (bs @ extra) = vl_scan 4 bs"
      by (auto intro: vl_scan_append)
    with assms(1) Cons e show ?thesis by (auto simp: process_incoming_unfold)
  qed
qed

theorem header_verdict_final_witness:
  "process_incoming_packet_type_and_length [0x20, 0x80, 0x00, 7, 7] 5 = Inl H_BadResponse"
  using header_verdict_final [of "[0x20, 0x80, 0x00]" 3 "Inl H_BadResponse" 5 "[7, 7]",
      OF _ _ _ _ _] by code_simp

text \<open>The set behind the sixteen-bit mask: a type byte is accepted exactly when its high
  nibble is that of CONNACK, PUBLISH, PUBACK, PUBREC, PUBCOMP, SUBACK, UNSUBACK, PINGRESP,
  DISCONNECT or AUTH with any low nibble, or when it is a PUBREL with its reserved bit set;
  nothing a client sends and no reserved type gets through.\<close>

theorem incoming_packet_valid_iff:
  "incoming_packet_valid b \<longleftrightarrow>
     b AND 0xF0 \<in> {CONNACK, PUBLISH, PUBACK, PUBREC, PUBCOMP, SUBACK, UNSUBACK, PINGRESP,
                   DISCONNECT, AUTH}
     \<or> b AND 0xF0 = PUBREL_NIBBLE \<and> bit b 1"
proof -
  have f0: "0xF0 = push_bit 4 (mask 4 :: byte)" by (simp add: mask_eq_exp_minus_1)
  have "b AND 0xF0 = push_bit 4 (drop_bit 4 b)"
    unfolding f0 by (rule bit_word_eqI) (auto simp: bit_simps)
  moreover have "b AND 0x02 \<noteq> 0 \<longleftrightarrow> bit b 1"
    using and_exp_eq_0_iff_not_bit [of b 1] by simp
  moreover have "unat (drop_bit 4 b) < 16"
    using unat_lt8 [of b] by (simp add: drop_bit_eq_div unat_div_distrib less_mult_imp_div_less)
  then have "unat (drop_bit 4 b) \<in> {0, 1, 2, 3, 4, 5, 6, 7, 8, 9, 10, 11, 12, 13, 14, 15}"
    by (simp add: less_Suc_eq numeral_eq_Suc)
  then have "drop_bit 4 b \<in> {0, 1, 2, 3, 4, 5, 6, 7, 8, 9, 10, 11, 12, 13, 14, 15}"
    by (auto simp: word_unat_eq_iff)
  ultimately show ?thesis
    by (auto simp: incoming_packet_valid_def VALID_def type_bit_def)
qed

end
