(* ===== verification/Property.thy ===== *)
theory Property
  imports Header
begin

text \<open>
  The property primitives (src/crates/rusty_rtos_mqtt-core/src/property.rs): the bounded
  reader of a property section, the property length decoder, and the string encoder.
  Every read answers the reader afterwards and the result, on an error as well, because a
  refused read may have moved the cursor. The second half states what a property section
  is, as a list of identified values, and gives the loop every table of the crate shares
  once, with a locale for the contract of its body.
\<close>

section \<open>The reader\<close>

datatype property_error = P_BadResponse

record property_reader =
  rd_bytes :: bytes
  rd_at :: nat
  rd_remaining :: u32

definition reader_new :: "bytes \<Rightarrow> u32 \<Rightarrow> property_reader" where
  "reader_new bs property_length =
     \<lparr>rd_bytes = bs, rd_at = 0, rd_remaining = property_length\<rparr>"

definition position :: "property_reader \<Rightarrow> nat" where
  "position r = rd_at r"

definition reader_take :: "property_reader \<Rightarrow> nat \<Rightarrow> property_reader \<times> bytes option" where
  "reader_take r n = (case slice (rd_bytes r) (rd_at r) (rd_at r + n) of
      None \<Rightarrow> (r, None)
    | Some s \<Rightarrow> (r\<lparr>rd_at := rd_at r + n\<rparr>, Some s))"

text \<open>A read with a \<open>used\<close> flag returns the reader, the flag, and the result.\<close>

definition read_u8 ::
    "property_reader \<Rightarrow> bool \<Rightarrow> property_reader \<times> bool \<times> (property_error + byte)" where
  "read_u8 r used =
     (if used \<or> rd_remaining r < 1 then (r, used, Inl P_BadResponse)
      else case reader_take r 1 of
        (r1, None) \<Rightarrow> (r1, used, Inl P_BadResponse)
      | (r1, Some bs) \<Rightarrow> (case get_at bs 0 of
            None \<Rightarrow> (r1, used, Inl P_BadResponse)
          | Some v \<Rightarrow> (r1\<lparr>rd_remaining := sat_sub (rd_remaining r1) 1\<rparr>, True, Inr v)))"

definition read_u16 ::
    "property_reader \<Rightarrow> bool \<Rightarrow> property_reader \<times> bool \<times> (property_error + u16)" where
  "read_u16 r used =
     (if used \<or> rd_remaining r < 2 then (r, used, Inl P_BadResponse)
      else case reader_take r 2 of
        (r1, None) \<Rightarrow> (r1, used, Inl P_BadResponse)
      | (r1, Some bs) \<Rightarrow> (case from_be16 bs of
            None \<Rightarrow> (r1, used, Inl P_BadResponse)
          | Some v \<Rightarrow> (r1\<lparr>rd_remaining := sat_sub (rd_remaining r1) 2\<rparr>, True, Inr v)))"

definition read_u32 ::
    "property_reader \<Rightarrow> bool \<Rightarrow> property_reader \<times> bool \<times> (property_error + u32)" where
  "read_u32 r used =
     (if used \<or> rd_remaining r < 4 then (r, used, Inl P_BadResponse)
      else case reader_take r 4 of
        (r1, None) \<Rightarrow> (r1, used, Inl P_BadResponse)
      | (r1, Some bs) \<Rightarrow> (case from_be32 bs of
            None \<Rightarrow> (r1, used, Inl P_BadResponse)
          | Some v \<Rightarrow> (r1\<lparr>rd_remaining := sat_sub (rd_remaining r1) 4\<rparr>, True, Inr v)))"

definition property_id :: "property_reader \<Rightarrow> property_reader \<times> (property_error + byte)" where
  "property_id r =
     (if rd_remaining r < 1 then (r, Inl P_BadResponse)
      else case reader_take r 1 of
        (r1, None) \<Rightarrow> (r1, Inl P_BadResponse)
      | (r1, Some bs) \<Rightarrow> (case get_at bs 0 of
            None \<Rightarrow> (r1, Inl P_BadResponse)
          | Some v \<Rightarrow> (r1\<lparr>rd_remaining := sat_sub (rd_remaining r1) 1\<rparr>, Inr v)))"

definition read_utf8 ::
    "property_reader \<Rightarrow> bool \<Rightarrow> property_reader \<times> bool \<times> (property_error + bytes)" where
  "read_utf8 r used =
     (if used \<or> rd_remaining r < 2 then (r, used, Inl P_BadResponse)
      else case reader_take r 2 of
        (r1, None) \<Rightarrow> (r1, used, Inl P_BadResponse)
      | (r1, Some pfx) \<Rightarrow> (case from_be16 pfx of
            None \<Rightarrow> (r1, used, Inl P_BadResponse)
          | Some len \<Rightarrow>
              let r2 = r1\<lparr>rd_remaining := sat_sub (rd_remaining r1) 2\<rparr> in
              if rd_remaining r2 < ucast len then (r2, used, Inl P_BadResponse)
              else case reader_take r2 (unat len) of
                (r3, None) \<Rightarrow> (r3, used, Inl P_BadResponse)
              | (r3, Some body) \<Rightarrow>
                  (r3\<lparr>rd_remaining := sat_sub (rd_remaining r3) (ucast len)\<rparr>, True, Inr body)))"

definition user_property ::
    "property_reader \<Rightarrow> property_reader \<times> (property_error + bytes \<times> bytes)" where
  "user_property r =
     (case read_utf8 r False of
        (r1, _, Inl e) \<Rightarrow> (r1, Inl e)
      | (r1, _, Inr key) \<Rightarrow> (case read_utf8 r1 False of
            (r2, _, Inl e) \<Rightarrow> (r2, Inl e)
          | (r2, _, Inr val) \<Rightarrow> (r2, Inr (key, val))))"

section \<open>The property length decoder\<close>

function decode_loop :: "bytes \<Rightarrow> u32 \<Rightarrow> u32 \<Rightarrow> nat \<Rightarrow> property_error + (u32 \<times> nat)" where
  "decode_loop buffer remaining_length multiplier bytes_decoded =
     (if multiplier > 2097152 then Inl P_BadResponse
      else case get_at buffer bytes_decoded of
        None \<Rightarrow> Inl P_BadResponse
      | Some byte \<Rightarrow>
          let remaining_length' =
                sat_add remaining_length (sat_mul (ucast (byte AND 0x7F)) multiplier);
              multiplier' = sat_mul multiplier 128;
              bytes_decoded' = bytes_decoded + 1
          in if remaining_length' \<ge> REMAINING_LENGTH_INVALID then Inl P_BadResponse
             else if byte AND 0x80 = 0 then Inr (remaining_length', bytes_decoded')
             else decode_loop buffer remaining_length' multiplier' bytes_decoded')"
  by pat_completeness auto
termination
  by (relation "measure (\<lambda>(b, r, m, d). length b - d)") (auto simp: get_at_def split: if_splits)

declare decode_loop.simps [simp del]

definition decode_variable_length :: "bytes \<Rightarrow> property_error + u32" where
  "decode_variable_length buffer =
     rbind (decode_loop buffer 0 1 0) (\<lambda>(remaining_length, bytes_decoded).
       if bytes_decoded \<noteq> unat (variable_length_encoded_size remaining_length)
       then Inl P_BadResponse else Inr remaining_length)"

definition read_variable_length ::
    "property_reader \<Rightarrow> property_reader \<times> (property_error + u32)" where
  "read_variable_length r =
     (if rd_remaining r < 1 then (r, Inl P_BadResponse)
      else case slice_from (rd_bytes r) (rd_at r) of
        None \<Rightarrow> (r, Inl P_BadResponse)
      | Some rest \<Rightarrow>
          let bound = (if unat (rd_remaining r) < length rest then unat (rd_remaining r)
                       else length rest)
          in case slice rest 0 bound of
               None \<Rightarrow> (r, Inl P_BadResponse)
             | Some window \<Rightarrow> (case decode_variable_length window of
                   Inl e \<Rightarrow> (r, Inl e)
                 | Inr v \<Rightarrow>
                     let encoded = unat (variable_length_encoded_size v)
                     in (r\<lparr>rd_at := rd_at r + encoded,
                           rd_remaining := sat_sub (rd_remaining r) (word_of_nat encoded)\<rparr>,
                         Inr v)))"

section \<open>The string encoder\<close>

text \<open>The destination afterwards, and the count returned: the length prefix is written
  even when the source turns out to be too short.\<close>

definition encode_string :: "bytes \<Rightarrow> bytes option \<Rightarrow> u16 \<Rightarrow> bytes \<times> nat" where
  "encode_string destination source len =
     (let total = unat len + 2 in
      if length destination < total then (destination, 0)
      else case put_slice destination 0 (be16 len) of
        None \<Rightarrow> (destination, 0)
      | Some d1 \<Rightarrow> (case source of
            None \<Rightarrow> (d1, total)
          | Some bs \<Rightarrow> (case slice bs 0 (unat len) of
                None \<Rightarrow> (d1, 0)
              | Some body \<Rightarrow> (case put_slice d1 2 body of
                    None \<Rightarrow> (d1, 0)
                  | Some d2 \<Rightarrow> (d2, total)))))"

section \<open>What the reads find\<close>

text \<open>\<open>holds r bs\<close>: the bytes \<open>bs\<close> are next, both in the buffer and within the budget;
  \<open>advance r n\<close> moves the cursor and charges the budget.\<close>

definition holds :: "property_reader \<Rightarrow> bytes \<Rightarrow> bool" where
  "holds r bs \<longleftrightarrow> length bs \<le> unat (rd_remaining r) \<and> rd_at r \<le> length (rd_bytes r) \<and>
     (\<exists>rest. drop (rd_at r) (rd_bytes r) = bs @ rest)"

definition advance :: "property_reader \<Rightarrow> nat \<Rightarrow> property_reader" where
  "advance r n = r\<lparr>rd_at := rd_at r + n, rd_remaining := rd_remaining r - word_of_nat n\<rparr>"

text \<open>The cursor stays inside the buffer and moves by exactly what is charged.\<close>

definition reader_ok :: "property_reader \<Rightarrow> bool" where
  "reader_ok r \<longleftrightarrow> rd_at r \<le> length (rd_bytes r)"

definition charged :: "property_reader \<Rightarrow> property_reader \<Rightarrow> bool" where
  "charged r r' \<longleftrightarrow> rd_bytes r' = rd_bytes r \<and> rd_at r \<le> rd_at r' \<and>
     (reader_ok r \<longrightarrow> reader_ok r') \<and>
     rd_at r' + unat (rd_remaining r') = rd_at r + unat (rd_remaining r)"

named_theorems read_simps "what each read of a property reader finds"

lemma holds_iff:
  "holds r bs \<longleftrightarrow> length bs \<le> unat (rd_remaining r) \<and>
     rd_at r + length bs \<le> length (rd_bytes r) \<and>
     take (length bs) (drop (rd_at r) (rd_bytes r)) = bs"
proof -
  have "(\<exists>rest. drop (rd_at r) (rd_bytes r) = bs @ rest) \<Longrightarrow>
      length bs \<le> length (rd_bytes r) - rd_at r"
    by (auto dest: arg_cong [of _ _ length])
  then show ?thesis
    by (auto simp: holds_def) (metis append_take_drop_id)
qed

lemma advance_simps [simp]:
  "rd_bytes (advance r n) = rd_bytes r"
  "rd_at (advance r n) = rd_at r + n"
  "n \<le> unat (rd_remaining r) \<Longrightarrow> unat (rd_remaining (advance r n)) = unat (rd_remaining r) - n"
proof -
  assume n: "n \<le> unat (rd_remaining r)"
  then have u: "unat (word_of_nat n :: u32) = n"
    using unat_lt32 [of "rd_remaining r"] by (intro unat_u32_of_nat) linarith
  with n have "word_of_nat n \<le> rd_remaining r" by (simp add: word_le_nat_alt)
  with u show "unat (rd_remaining (advance r n)) = unat (rd_remaining r) - n"
    by (simp add: advance_def unat_sub)
qed (simp_all add: advance_def)

lemma advance_advance: "advance (advance r m) n = advance r (m + n)"
  by (simp add: advance_def algebra_simps)

lemma advance_0 [simp]: "advance r 0 = r"
  by (simp add: advance_def)

lemma reader_take_eq:
  "reader_take r n = (if rd_at r + n \<le> length (rd_bytes r)
     then (r\<lparr>rd_at := rd_at r + n\<rparr>, Some (take n (drop (rd_at r) (rd_bytes r)))) else (r, None))"
  by (simp add: reader_take_def slice_def)

lemma sat_sub_of_nat:
  "n \<le> unat a \<Longrightarrow> sat_sub a (word_of_nat n) = (a - word_of_nat n :: u32)"
proof -
  assume n: "n \<le> unat a"
  then have "unat (word_of_nat n :: u32) = n"
    using unat_lt32 [of a] by (intro unat_u32_of_nat) linarith
  with n show ?thesis by (simp add: sat_sub_def word_le_nat_alt)
qed

lemma holds_append:
  "holds r (as @ bs) \<longleftrightarrow> holds r as \<and> holds (advance r (length as)) bs"
proof (cases "holds r as")
  case True
  then have "length as \<le> unat (rd_remaining r)" "rd_at r + length as \<le> length (rd_bytes r)"
    by (auto simp: holds_iff)
  with True show ?thesis
    by (auto simp: holds_iff take_add add.commute add.left_commute append_eq_conv_conj)
next
  case False
  then show ?thesis by (auto simp: holds_def)
qed

lemma read_u8_ok [read_simps]:
  "read_u8 r used = (r', used', Inr v) \<longleftrightarrow> \<not> used \<and> used' \<and> holds r [v] \<and> r' = advance r 1"
  by (auto simp: read_u8_def reader_take_eq holds_iff advance_def word_less_nat_alt not_less
      sat_sub_of_nat [of 1, simplified] take_Suc hd_drop_conv_nth split: option.splits list.splits)

lemma property_id_ok [read_simps]:
  "property_id r = (r', Inr v) \<longleftrightarrow> holds r [v] \<and> r' = advance r 1"
  by (auto simp: property_id_def reader_take_eq holds_iff advance_def word_less_nat_alt not_less
      sat_sub_of_nat [of 1, simplified] take_Suc hd_drop_conv_nth split: option.splits list.splits)

lemma read_u16_ok [read_simps]:
  "read_u16 r used = (r', used', Inr v) \<longleftrightarrow>
     \<not> used \<and> used' \<and> holds r (be16 v) \<and> r' = advance r 2"
  by (auto simp: read_u16_def reader_take_eq holds_iff advance_def word_less_nat_alt not_less
      sat_sub_of_nat [of 2, simplified] result_simps split: option.splits)

lemma read_u32_ok [read_simps]:
  "read_u32 r used = (r', used', Inr v) \<longleftrightarrow>
     \<not> used \<and> used' \<and> holds r (be32 v) \<and> r' = advance r 4"
  by (auto simp: read_u32_def reader_take_eq holds_iff advance_def word_less_nat_alt not_less
      sat_sub_of_nat [of 4, simplified] result_simps split: option.splits)

text \<open>A length-prefixed string as it stands in a packet.\<close>

definition mqtt_string :: "bytes \<Rightarrow> bytes" where
  "mqtt_string s = be16 (word_of_nat (length s)) @ s"

lemma length_mqtt_string [simp]: "length (mqtt_string s) = length s + 2"
  by (simp add: mqtt_string_def)

lemma read_utf8_ok [read_simps]:
  "read_utf8 r used = (r', used', Inr s) \<longleftrightarrow>
     \<not> used \<and> used' \<and> length s < 65536 \<and> holds r (mqtt_string s) \<and>
     r' = advance r (length s + 2)"
proof -
  have s16: "length s < 65536 \<and> v = word_of_nat (length s) \<longleftrightarrow> length s = unat (v :: u16)" for v
    using unat_lt16 [of v] by (auto simp: unat_of_nat)
  have u: "read_utf8 r used =
    (if used \<or> \<not> 2 \<le> unat (rd_remaining r) \<or> \<not> rd_at r + 2 \<le> length (rd_bytes r)
     then (r, used, Inl P_BadResponse)
     else let r2 = advance r 2 in
       case from_be16 (take 2 (drop (rd_at r) (rd_bytes r))) of
         None \<Rightarrow> (r\<lparr>rd_at := rd_at r + 2\<rparr>, used, Inl P_BadResponse)
       | Some len \<Rightarrow>
           if unat (rd_remaining r2) < unat len \<or>
              length (rd_bytes r) < rd_at r2 + unat len
           then (r2, used, Inl P_BadResponse)
           else (advance r2 (unat len), True,
                 Inr (take (unat len) (drop (rd_at r2) (rd_bytes r)))))"
    by (auto simp: read_utf8_def reader_take_eq advance_def word_less_nat_alt not_less Let_def
        sat_sub_of_nat [of 2, simplified] unsigned_ucast_eq take_bit_nat_eq_self_iff
        sat_sub_of_nat [of "unat v" for v :: u16, simplified]
        split: option.splits)
  show ?thesis
    unfolding u mqtt_string_def holds_append
    by (auto simp: holds_iff result_simps advance_advance s16 Let_def unat_u16_of_nat split: option.splits)
qed

lemma user_property_ok [read_simps]:
  "user_property r = (r', Inr (k, v)) \<longleftrightarrow>
     length k < 65536 \<and> length v < 65536 \<and> holds r (mqtt_string k @ mqtt_string v) \<and>
     r' = advance r (length k + length v + 4)"
proof -
  have n: "advance (advance r (length k + 2)) (length v + 2) = advance r (length k + length v + 4)"
    unfolding advance_advance by (rule arg_cong [of _ _ "advance r"]) simp
  have "user_property r = (r', Inr (k, v)) \<longleftrightarrow>
    (\<exists>r1 u1 u2. read_utf8 r False = (r1, u1, Inr k) \<and> read_utf8 r1 False = (r', u2, Inr v))"
    by (auto simp: user_property_def split: prod.splits sum.splits)
  then show ?thesis
    using n by (auto simp: read_utf8_ok holds_append)
qed

section \<open>The length decoder finds what the specification finds\<close>

fun decode_outcome :: "nat \<Rightarrow> nat \<Rightarrow> vl_result \<Rightarrow> property_error + (u32 \<times> nat)" where
  "decode_outcome acc k (Vl_Done v n) = Inr (word_of_nat (acc + 128 ^ k * v), k + n)"
| "decode_outcome acc k _ = Inl P_BadResponse"

lemma pow128_le: "k \<le> 3 \<Longrightarrow> (128 :: nat) ^ k \<le> 2097152"
  using power_increasing [of k 3 "128 :: nat"] by simp

text \<open>One digit in the saturating arithmetic of the decoders, which never saturates.\<close>

lemma saturating_digit:
  assumes k: "k < 4" and acc: "acc < 128 ^ k"
  shows "\<not> (word_of_nat (128 ^ k) :: u32) > 2097152"
    "sat_add (word_of_nat acc) (sat_mul (ucast (b AND 0x7F)) (word_of_nat (128 ^ k)))
       = (word_of_nat (acc + 128 ^ k * (unat (b :: byte) mod 128)) :: u32)"
    "\<not> (word_of_nat (acc + 128 ^ k * (unat b mod 128)) :: u32) \<ge> REMAINING_LENGTH_INVALID"
    "sat_mul (word_of_nat (128 ^ k)) 128 = (word_of_nat (128 ^ Suc k) :: u32)"
proof -
  have p: "(128 :: nat) ^ k \<le> 2097152" using k by (intro pow128_le) simp
  have um: "unat (word_of_nat (128 ^ k) :: u32) = 128 ^ k"
    using p by (intro unat_u32_of_nat) linarith
  have ua: "unat (word_of_nat acc :: u32) = acc"
    using p acc by (intro unat_u32_of_nat) linarith
  show "\<not> (word_of_nat (128 ^ k) :: u32) > 2097152"
    using p by (simp del: of_nat_power add: word_less_nat_alt um not_less)
  have b7: "unat b mod 128 \<le> 127" by simp
  then have le: "unat b mod 128 * 128 ^ k \<le> 127 * 128 ^ k" by (rule mult_le_mono1)
  have lt: "acc + unat b mod 128 * 128 ^ k < 268435456" using le p acc by linarith
  then have lt': "unat b mod 128 * 128 ^ k < 268435456" by linarith
  have "unat (sat_mul (ucast (b AND 0x7F)) (word_of_nat (128 ^ k) :: u32))
      = unat b mod 128 * 128 ^ k"
    unfolding unat_sat_mul um unat_widen byte_low_bits using lt' by simp
  then have "unat (sat_add (word_of_nat acc) (sat_mul (ucast (b AND 0x7F)) (word_of_nat (128 ^ k))) :: u32)
      = acc + unat b mod 128 * 128 ^ k"
    unfolding unat_sat_add ua using lt by simp
  then show "sat_add (word_of_nat acc) (sat_mul (ucast (b AND 0x7F)) (word_of_nat (128 ^ k)))
      = (word_of_nat (acc + 128 ^ k * (unat b mod 128)) :: u32)"
    unfolding mult.commute [of "128 ^ k"] by (rule word_of_unat)
  show "\<not> (word_of_nat (acc + 128 ^ k * (unat b mod 128)) :: u32) \<ge> REMAINING_LENGTH_INVALID"
    using lt by (simp del: of_nat_power of_nat_add of_nat_mult
        add: word_le_nat_alt unat_u32_of_nat mult.commute)
  show "sat_mul (word_of_nat (128 ^ k)) 128 = (word_of_nat (128 ^ Suc k) :: u32)"
    using p by (simp add: sat_mul_def um [simplified])
qed

lemma decode_loop_step:
  assumes k: "k < 4" and acc: "acc < 128 ^ k"
  shows "decode_loop buffer (word_of_nat acc) (word_of_nat (128 ^ k)) k =
    (case drop k buffer of
       [] \<Rightarrow> Inl P_BadResponse
     | b # _ \<Rightarrow>
         if unat b < 128
         then Inr (word_of_nat (acc + 128 ^ k * unat b), Suc k)
         else decode_loop buffer (word_of_nat (acc + 128 ^ k * (unat b - 128)))
                (word_of_nat (128 ^ Suc k)) (Suc k))"
proof -
  note m = saturating_digit(1) [OF k acc]
  show ?thesis
  proof (cases "drop k buffer")
    case Nil
    then have "get_at buffer k = None" by (simp add: get_at_def)
    with Nil show ?thesis
      by (subst decode_loop.simps, unfold if_not_P [OF m]) simp
  next
    case (Cons b bs)
    then have g: "get_at buffer k = Some b"
      by (metis drop_eq_Nil get_at_def leI list.discI list.sel(1) hd_drop_conv_nth)
    note s = saturating_digit(2) [OF k acc, of b] and ninv = saturating_digit(3) [OF k acc, of b]
      and mm = saturating_digit(4) [OF k acc]
    have b128: "unat b mod 128 = (if unat b < 128 then unat b else unat b - 128)"
      using unat_lt8 [of b] by (cases "unat b < 128") (simp_all add: le_mod_geq del: unat_lt8)
    have "decode_loop buffer (word_of_nat acc) (word_of_nat (128 ^ k)) k =
      (if unat b < 128 then Inr (word_of_nat (acc + 128 ^ k * (unat b mod 128)), k + 1)
       else decode_loop buffer (word_of_nat (acc + 128 ^ k * (unat b mod 128)))
              (word_of_nat (128 ^ Suc k)) (k + 1))"
      by (subst decode_loop.simps, unfold Let_def g option.case if_not_P [OF m] s
          if_not_P [OF ninv] mm byte_high_bit) (rule refl)
    then show ?thesis unfolding Cons list.case b128 by simp
  qed
qed

lemma decode_loop_scan:
  "k \<le> 4 \<Longrightarrow> acc < 128 ^ k \<Longrightarrow>
   decode_loop buffer (word_of_nat acc) (word_of_nat (128 ^ k)) k =
     decode_outcome acc k (vl_scan (4 - k) (drop k buffer))"
proof (induction "4 - k" arbitrary: k acc)
  case 0
  then have "k = 4" by simp
  then show ?case by (simp add: decode_loop.simps)
next
  case (Suc j)
  then have k: "k < 4" and jk: "4 - k = Suc j" "j = 4 - Suc k" by auto
  show ?case
  proof (cases "drop k buffer")
    case Nil
    then show ?thesis
      by (simp only: decode_loop_step [OF k Suc.prems(2)] jk(1) list.case vl_scan.simps
          decode_outcome.simps)
  next
    case (Cons b bs)
    then have bs: "drop (Suc k) buffer = bs" by (metis drop_Suc list.sel(3) tl_drop)
    show ?thesis
    proof (cases "unat b < 128")
      case True
      then show ?thesis
        by (simp only: decode_loop_step [OF k Suc.prems(2)] jk(1) Cons list.case
            vl_scan.simps if_True decode_outcome.simps) simp
    next
      case False
      have acc': "acc + 128 ^ k * (unat b - 128) < 128 ^ Suc k"
        using Suc.prems(2) by (rule digit_bound)
      then have "decode_loop buffer (word_of_nat (acc + 128 ^ k * (unat b - 128)))
          (word_of_nat (128 ^ Suc k)) (Suc k)
        = decode_outcome (acc + 128 ^ k * (unat b - 128)) (Suc k) (vl_scan j bs)"
        using Suc.hyps(1) [OF jk(2)] k bs jk(2) by (metis Suc_leI)
      moreover have "decode_outcome (acc + 128 ^ k * (unat b - 128)) (Suc k) (vl_scan j bs)
        = decode_outcome acc k (vl_scan (Suc j) (b # bs))"
      proof (cases "vl_scan j bs")
        case (Vl_Done v n)
        with False show ?thesis
          by (simp only: decode_outcome.simps vl_scan.simps if_False vl_result.case add_Suc
              add_Suc_right digit_value)
      qed (use False in simp_all)
      ultimately show ?thesis
        using False
        by (simp only: decode_loop_step [OF k Suc.prems(2)] jk(1) Cons list.case if_False)
    qed
  qed
qed

lemma decode_variable_length_eq:
  "decode_variable_length buffer =
     (case vl_read buffer of None \<Rightarrow> Inl P_BadResponse | Some (v, n) \<Rightarrow> Inr (word_of_nat v))"
proof -
  have l: "decode_loop buffer 0 1 0 = decode_outcome 0 0 (vl_scan 4 buffer)"
    using decode_loop_scan [of 0 0 buffer] by simp
  show ?thesis
    by (auto simp: decode_variable_length_def l vl_read_def scan_encoded_size split: vl_result.split)
qed

lemma decode_variable_length_ok:
  "decode_variable_length buffer = Inr v \<longleftrightarrow>
     unat v < 268435456 \<and> (\<exists>rest. buffer = vl_encode (unat v) @ rest)"
proof -
  have "decode_variable_length buffer = Inr v \<longleftrightarrow>
      (\<exists>x n. vl_read buffer = Some (x, n) \<and> v = word_of_nat x)"
    by (auto simp: decode_variable_length_eq split: option.split)
  then show ?thesis by (auto simp: vl.dec_iff unat_u32_of_nat intro!: exI [of _ "unat v"])
qed

lemma read_variable_length_ok [read_simps]:
  "read_variable_length r = (r', Inr v) \<longleftrightarrow>
     unat v < 268435456 \<and> holds r (vl_encode (unat v)) \<and>
     r' = advance r (length (vl_encode (unat v)))"
proof -
  let ?rest = "drop (rd_at r) (rd_bytes r)"
  have pos: "rd_remaining r \<noteq> 0 \<longleftrightarrow> 0 < unat (rd_remaining r)"
    by (simp add: unat_gt_0)
  have fin: "(r\<lparr>rd_at := rd_at r + unat (variable_length_encoded_size v),
       rd_remaining := sat_sub (rd_remaining r)
         (word_of_nat (unat (variable_length_encoded_size v)))\<rparr>)
     = advance r (length (vl_encode (unat v)))"
    if "unat v < 268435456" "length (vl_encode (unat v)) \<le> unat (rd_remaining r)"
    using that by (simp add: unat_encoded_size [symmetric] advance_def sat_sub_of_nat del: of_nat_unat)
  have "read_variable_length r = (r', Inr v) \<longleftrightarrow>
      rd_remaining r \<noteq> 0 \<and> rd_at r \<le> length (rd_bytes r) \<and>
      decode_variable_length (take (unat (rd_remaining r)) ?rest) = Inr v \<and>
      r' = r\<lparr>rd_at := rd_at r + unat (variable_length_encoded_size v),
             rd_remaining := sat_sub (rd_remaining r)
               (word_of_nat (unat (variable_length_encoded_size v)))\<rparr>"
    by (auto simp: read_variable_length_def slice_def slice_from_def Let_def word_less_1
        split: sum.splits)
  also have "\<dots> \<longleftrightarrow> unat v < 268435456 \<and> holds r (vl_encode (unat v)) \<and>
     r' = advance r (length (vl_encode (unat v)))"
  proof -
    have "(\<exists>rest. take (unat (rd_remaining r)) ?rest = vl_encode (unat v) @ rest) \<longleftrightarrow>
        length (vl_encode (unat v)) \<le> unat (rd_remaining r) \<and>
        (\<exists>rest. ?rest = vl_encode (unat v) @ rest)"
      by (rule take_prefix_iff)
    moreover have lp: "length (vl_encode (unat v)) \<le> unat (rd_remaining r) \<Longrightarrow> 0 < unat (rd_remaining r)"
      using length_vl_encode_pos [of "unat v"] by linarith
    ultimately show ?thesis
      using fin
      by (auto simp: decode_variable_length_ok holds_def pos)
  qed
  finally show ?thesis .
qed

section \<open>Cursor and budget\<close>

lemma charged_refl [simp]: "charged r r"
  by (simp add: charged_def)

lemma charged_trans: "charged r1 r2 \<Longrightarrow> charged r2 r3 \<Longrightarrow> charged r1 r3"
  by (auto simp: charged_def)

lemma charged_advance: "holds r bs \<Longrightarrow> n = length bs \<Longrightarrow> charged r (advance r n)"
  by (auto simp: charged_def holds_iff reader_ok_def)

lemma charged_remaining: "charged r r' \<Longrightarrow> rd_remaining r' \<le> rd_remaining r"
  by (auto simp: charged_def word_le_nat_alt)

text \<open>A read that fails leaves the reader as it was, except \<open>utf8\<close>, which may have taken
  the two length bytes.\<close>

lemma read_u8_fail: "read_u8 r used = (r', used', Inl e) \<Longrightarrow> r' = r"
  by (auto simp: read_u8_def reader_take_eq split: if_splits list.splits option.splits)

lemma read_u16_fail: "read_u16 r used = (r', used', Inl e) \<Longrightarrow> r' = r"
  by (auto simp: read_u16_def reader_take_eq result_simps split: if_splits option.splits)

lemma read_u32_fail: "read_u32 r used = (r', used', Inl e) \<Longrightarrow> r' = r"
  by (auto simp: read_u32_def reader_take_eq result_simps split: if_splits option.splits)

lemma property_id_fail: "property_id r = (r', Inl e) \<Longrightarrow> r' = r"
  by (auto simp: property_id_def reader_take_eq split: if_splits list.splits option.splits)

lemma read_variable_length_fail: "read_variable_length r = (r', Inl e) \<Longrightarrow> r' = r"
  by (auto simp: read_variable_length_def Let_def split: if_splits option.splits sum.splits)

lemma read_utf8_fail:
  "read_utf8 r used = (r', used', Inl e) \<Longrightarrow>
   r' = r \<or> r' = advance r 2 \<and> 2 \<le> unat (rd_remaining r) \<and> rd_at r + 2 \<le> length (rd_bytes r)"
  by (auto simp: read_utf8_def reader_take_eq advance_def word_less_nat_alt not_less Let_def
      sat_sub_of_nat [of 2, simplified] result_simps split: if_splits option.splits)

lemma read_u8_charged: "read_u8 r used = (r', used', res) \<Longrightarrow> charged r r'"
  by (cases res) (auto simp: read_simps dest: read_u8_fail intro: charged_advance)

lemma read_u16_charged: "read_u16 r used = (r', used', res) \<Longrightarrow> charged r r'"
  by (cases res) (auto simp: read_simps dest: read_u16_fail intro: charged_advance)

lemma read_u32_charged: "read_u32 r used = (r', used', res) \<Longrightarrow> charged r r'"
  by (cases res) (auto simp: read_simps dest: read_u32_fail intro: charged_advance)

lemma property_id_charged: "property_id r = (r', res) \<Longrightarrow> charged r r'"
  by (cases res) (auto simp: read_simps dest: property_id_fail intro: charged_advance)

lemma read_variable_length_charged: "read_variable_length r = (r', res) \<Longrightarrow> charged r r'"
  by (cases res) (auto simp: read_simps dest: read_variable_length_fail intro: charged_advance)

lemma read_utf8_charged: "read_utf8 r used = (r', used', res) \<Longrightarrow> charged r r'"
proof (cases res)
  case (Inl e)
  moreover assume "read_utf8 r used = (r', used', res)"
  ultimately show ?thesis by (auto dest!: read_utf8_fail simp: charged_def reader_ok_def)
next
  case (Inr str)
  moreover assume "read_utf8 r used = (r', used', res)"
  ultimately show ?thesis
    using charged_advance [of r "mqtt_string str" "length str + 2"] by (auto simp: read_utf8_ok)
qed

lemma user_property_charged: "user_property r = (r', res) \<Longrightarrow> charged r r'"
  by (auto simp: user_property_def split: prod.splits sum.splits
      dest!: read_utf8_charged intro: charged_trans)

lemmas charged_reads = read_u8_charged read_u16_charged read_u32_charged read_utf8_charged
  property_id_charged user_property_charged read_variable_length_charged

section \<open>Reading one property\<close>

text \<open>The arms of the tables: a read with the question mark applied, the error turned into
  the module's own, and the rest of the arm as a continuation that receives the flag and the
  value.\<close>

definition arm_u8 :: "'e \<Rightarrow> property_reader \<Rightarrow> bool \<Rightarrow> (bool \<Rightarrow> byte \<Rightarrow> 'e + 's) \<Rightarrow>
    property_reader \<times> ('e + 's)" where
  "arm_u8 err r used k = (case read_u8 r used of
      (r', used', Inl _) \<Rightarrow> (r', Inl err) | (r', used', Inr v) \<Rightarrow> (r', k used' v))"

definition arm_u16 :: "'e \<Rightarrow> property_reader \<Rightarrow> bool \<Rightarrow> (bool \<Rightarrow> u16 \<Rightarrow> 'e + 's) \<Rightarrow>
    property_reader \<times> ('e + 's)" where
  "arm_u16 err r used k = (case read_u16 r used of
      (r', used', Inl _) \<Rightarrow> (r', Inl err) | (r', used', Inr v) \<Rightarrow> (r', k used' v))"

definition arm_u32 :: "'e \<Rightarrow> property_reader \<Rightarrow> bool \<Rightarrow> (bool \<Rightarrow> u32 \<Rightarrow> 'e + 's) \<Rightarrow>
    property_reader \<times> ('e + 's)" where
  "arm_u32 err r used k = (case read_u32 r used of
      (r', used', Inl _) \<Rightarrow> (r', Inl err) | (r', used', Inr v) \<Rightarrow> (r', k used' v))"

definition arm_utf8 :: "'e \<Rightarrow> property_reader \<Rightarrow> bool \<Rightarrow> (bool \<Rightarrow> bytes \<Rightarrow> 'e + 's) \<Rightarrow>
    property_reader \<times> ('e + 's)" where
  "arm_utf8 err r used k = (case read_utf8 r used of
      (r', used', Inl _) \<Rightarrow> (r', Inl err) | (r', used', Inr v) \<Rightarrow> (r', k used' v))"

definition arm_user :: "'e \<Rightarrow> property_reader \<Rightarrow> (bytes \<times> bytes \<Rightarrow> 'e + 's) \<Rightarrow>
    property_reader \<times> ('e + 's)" where
  "arm_user err r k = (case user_property r of
      (r', Inl _) \<Rightarrow> (r', Inl err) | (r', Inr v) \<Rightarrow> (r', k v))"

definition arm_var :: "'e \<Rightarrow> property_reader \<Rightarrow> (u32 \<Rightarrow> 'e + 's) \<Rightarrow>
    property_reader \<times> ('e + 's)" where
  "arm_var err r k = (case read_variable_length r of
      (r', Inl _) \<Rightarrow> (r', Inl err) | (r', Inr v) \<Rightarrow> (r', k v))"

lemmas arm_defs = arm_u8_def arm_u16_def arm_u32_def arm_utf8_def arm_user_def arm_var_def

lemma property_id_less:
  "(r1, Inr pid) = property_id r \<Longrightarrow> rd_remaining r2 \<le> rd_remaining r1 \<Longrightarrow>
   unat (rd_remaining r2) < unat (rd_remaining r)"
  by (drule sym) (auto simp: property_id_ok holds_iff word_le_nat_alt)

text \<open>The loop every table of the crate has:
  \<open>while reader.remaining() > 0 { let id = reader.property_id()?; match id { ... } }\<close>. The
  comparison of budgets in front of the recursive call is there for the termination proof
  only: the locale below shows that it always holds for the bodies of this development and
  gives the loop's equation without it.\<close>

function section_loop ::
    "('s \<Rightarrow> property_reader \<Rightarrow> byte \<Rightarrow> property_reader \<times> ('e + 's)) \<Rightarrow> 'e \<Rightarrow>
     's \<Rightarrow> property_reader \<Rightarrow> property_reader \<times> ('e + 's)" where
  "section_loop body err s r =
     (if rd_remaining r > 0 then
        (case property_id r of
           (r1, Inl _) \<Rightarrow> (r1, Inl err)
         | (r1, Inr pid) \<Rightarrow> (case body s r1 pid of
               (r2, Inl e) \<Rightarrow> (r2, Inl e)
             | (r2, Inr s') \<Rightarrow>
                 if rd_remaining r2 \<le> rd_remaining r1 then section_loop body err s' r2
                 else (r2, Inr s')))
      else (r, Inr s))"
  by pat_completeness auto
termination
  by (relation "measure (\<lambda>(body, err, s, r). unat (rd_remaining r))")
    (auto dest: property_id_less)

declare section_loop.simps [simp del]

section \<open>What a property section is\<close>

datatype prop_value =
    PV_u8 byte | PV_u16 u16 | PV_u32 u32 | PV_utf8 bytes | PV_user bytes bytes | PV_var u32

fun pv_bytes :: "prop_value \<Rightarrow> bytes" where
  "pv_bytes (PV_u8 b) = [b]"
| "pv_bytes (PV_u16 v) = be16 v"
| "pv_bytes (PV_u32 v) = be32 v"
| "pv_bytes (PV_utf8 s) = mqtt_string s"
| "pv_bytes (PV_user k v) = mqtt_string k @ mqtt_string v"
| "pv_bytes (PV_var v) = vl_encode (unat v)"

fun pv_ok :: "prop_value \<Rightarrow> bool" where
  "pv_ok (PV_utf8 s) = (length s < 65536)"
| "pv_ok (PV_user k v) = (length k < 65536 \<and> length v < 65536)"
| "pv_ok (PV_var v) = (unat v < 268435456)"
| "pv_ok _ = True"

definition section_bytes :: "(byte \<times> prop_value) list \<Rightarrow> bytes" where
  "section_bytes ps = concat (map (\<lambda>(pid, v). pid # pv_bytes v) ps)"

lemma section_bytes_simps [simp]:
  "section_bytes [] = []"
  "section_bytes ((pid, v) # ps) = pid # pv_bytes v @ section_bytes ps"
  by (simp_all add: section_bytes_def)

text \<open>A table as a specification: what a property does to the state, or \<open>None\<close> when the
  table does not allow it; and a list of properties from left to right.\<close>

fun apply_all :: "('s \<Rightarrow> byte \<Rightarrow> prop_value \<Rightarrow> 's option) \<Rightarrow> 's \<Rightarrow>
    (byte \<times> prop_value) list \<Rightarrow> 's option" where
  "apply_all ap s [] = Some s"
| "apply_all ap s ((pid, v) # ps) = Option.bind (ap s pid v) (\<lambda>s'. apply_all ap s' ps)"

definition reads_as ::
    "property_reader \<Rightarrow> property_reader \<times> ('e + 's) \<Rightarrow> (prop_value \<Rightarrow> 's option) \<Rightarrow> bool" where
  "reads_as r out ap \<longleftrightarrow>
     charged r (fst out) \<and>
     (\<forall>r' s'. out = (r', Inr s') \<longleftrightarrow>
        (\<exists>v. pv_ok v \<and> holds r (pv_bytes v) \<and> ap v = Some s' \<and>
             r' = advance r (length (pv_bytes v))))"

definition to_opt :: "'e + 'a \<Rightarrow> 'a option" where
  "to_opt x = (case x of Inl _ \<Rightarrow> None | Inr a \<Rightarrow> Some a)"

lemma to_opt_simps [simp]: "to_opt (Inl e) = None" "to_opt (Inr a) = Some a"
  by (simp_all add: to_opt_def)

lemma to_opt_eq_Some [simp]: "to_opt x = Some a \<longleftrightarrow> x = Inr a"
  by (cases x) auto

lemma to_opt_if: "to_opt (if b then x else y) = (if b then to_opt x else to_opt y)"
  by simp

fun on_u8 :: "bool \<Rightarrow> (byte \<Rightarrow> 's option) \<Rightarrow> prop_value \<Rightarrow> 's option" where
  "on_u8 used f (PV_u8 v) = (if used then None else f v)" | "on_u8 used f _ = None"

fun on_u16 :: "bool \<Rightarrow> (u16 \<Rightarrow> 's option) \<Rightarrow> prop_value \<Rightarrow> 's option" where
  "on_u16 used f (PV_u16 v) = (if used then None else f v)" | "on_u16 used f _ = None"

fun on_u32 :: "bool \<Rightarrow> (u32 \<Rightarrow> 's option) \<Rightarrow> prop_value \<Rightarrow> 's option" where
  "on_u32 used f (PV_u32 v) = (if used then None else f v)" | "on_u32 used f _ = None"

fun on_utf8 :: "bool \<Rightarrow> (bytes \<Rightarrow> 's option) \<Rightarrow> prop_value \<Rightarrow> 's option" where
  "on_utf8 used f (PV_utf8 v) = (if used then None else f v)" | "on_utf8 used f _ = None"

fun on_user :: "(bytes \<times> bytes \<Rightarrow> 's option) \<Rightarrow> prop_value \<Rightarrow> 's option" where
  "on_user f (PV_user k v) = f (k, v)" | "on_user f _ = None"

fun on_var :: "(u32 \<Rightarrow> 's option) \<Rightarrow> prop_value \<Rightarrow> 's option" where
  "on_var f (PV_var v) = f v" | "on_var f _ = None"

named_theorems reads_as_intros "how an arm of a table reads its property"

lemma reads_as_if [reads_as_intros]:
  "(c \<Longrightarrow> reads_as r x ap) \<Longrightarrow> (\<not> c \<Longrightarrow> reads_as r y ap') \<Longrightarrow>
   reads_as r (if c then x else y) (if c then ap else ap')"
  by simp

lemma reads_as_refuse [reads_as_intros]: "reads_as r (r, Inl e) (\<lambda>_. None)"
  by (simp add: reads_as_def)

lemma ex_prop_value:
  "(\<exists>v. P v) \<longleftrightarrow> (\<exists>b. P (PV_u8 b)) \<or> (\<exists>w. P (PV_u16 w)) \<or> (\<exists>d. P (PV_u32 d)) \<or>
     (\<exists>s. P (PV_utf8 s)) \<or> (\<exists>k v. P (PV_user k v)) \<or> (\<exists>d. P (PV_var d))"
  by (metis prop_value.exhaust)

lemma arms_charged:
  "charged r (fst (arm_u8 err r used k8))"
  "charged r (fst (arm_u16 err r used k16))"
  "charged r (fst (arm_u32 err r used k32))"
  "charged r (fst (arm_utf8 err r used ks))"
  "charged r (fst (arm_user err r ku))"
  "charged r (fst (arm_var err r kv))"
  by (auto simp: arm_defs split: prod.splits sum.splits dest: charged_reads)

lemma arm_u8_ok:
  "arm_u8 err r used k = (r', Inr s') \<longleftrightarrow>
     \<not> used \<and> (\<exists>v. holds r [v] \<and> r' = advance r 1 \<and> k True v = Inr s')"
proof -
  have "arm_u8 err r used k = (r', Inr s') \<longleftrightarrow>
      (\<exists>u v. read_u8 r used = (r', u, Inr v) \<and> k u v = Inr s')"
    by (auto simp: arm_u8_def split: prod.splits sum.splits)
  then show ?thesis by (auto simp: read_simps)
qed

lemma arm_u16_ok:
  "arm_u16 err r used k = (r', Inr s') \<longleftrightarrow>
     \<not> used \<and> (\<exists>v. holds r (be16 v) \<and> r' = advance r 2 \<and> k True v = Inr s')"
proof -
  have "arm_u16 err r used k = (r', Inr s') \<longleftrightarrow>
      (\<exists>u v. read_u16 r used = (r', u, Inr v) \<and> k u v = Inr s')"
    by (auto simp: arm_u16_def split: prod.splits sum.splits)
  then show ?thesis by (auto simp: read_simps)
qed

lemma arm_u32_ok:
  "arm_u32 err r used k = (r', Inr s') \<longleftrightarrow>
     \<not> used \<and> (\<exists>v. holds r (be32 v) \<and> r' = advance r 4 \<and> k True v = Inr s')"
proof -
  have "arm_u32 err r used k = (r', Inr s') \<longleftrightarrow>
      (\<exists>u v. read_u32 r used = (r', u, Inr v) \<and> k u v = Inr s')"
    by (auto simp: arm_u32_def split: prod.splits sum.splits)
  then show ?thesis by (auto simp: read_simps)
qed

lemma arm_utf8_ok:
  "arm_utf8 err r used k = (r', Inr s') \<longleftrightarrow>
     \<not> used \<and> (\<exists>v. length v < 65536 \<and> holds r (mqtt_string v) \<and>
                 r' = advance r (length v + 2) \<and> k True v = Inr s')"
proof -
  have "arm_utf8 err r used k = (r', Inr s') \<longleftrightarrow>
      (\<exists>u v. read_utf8 r used = (r', u, Inr v) \<and> k u v = Inr s')"
    by (auto simp: arm_utf8_def split: prod.splits sum.splits)
  then show ?thesis by (auto simp: read_simps)
qed

lemma arm_user_ok:
  "arm_user err r k = (r', Inr s') \<longleftrightarrow>
     (\<exists>key val. length key < 65536 \<and> length val < 65536 \<and>
        holds r (mqtt_string key @ mqtt_string val) \<and>
        r' = advance r (length key + length val + 4) \<and> k (key, val) = Inr s')"
proof -
  have "arm_user err r k = (r', Inr s') \<longleftrightarrow>
      (\<exists>key val. user_property r = (r', Inr (key, val)) \<and> k (key, val) = Inr s')"
    by (auto simp: arm_user_def split: prod.splits sum.splits)
  then show ?thesis by (auto simp: read_simps)
qed

lemma arm_var_ok:
  "arm_var err r k = (r', Inr s') \<longleftrightarrow>
     (\<exists>v. unat v < 268435456 \<and> holds r (vl_encode (unat v)) \<and>
        r' = advance r (length (vl_encode (unat v))) \<and> k v = Inr s')"
proof -
  have "arm_var err r k = (r', Inr s') \<longleftrightarrow>
      (\<exists>v. read_variable_length r = (r', Inr v) \<and> k v = Inr s')"
    by (auto simp: arm_var_def split: prod.splits sum.splits)
  then show ?thesis by (auto simp: read_simps)
qed

lemmas arms_ok = arm_u8_ok arm_u16_ok arm_u32_ok arm_utf8_ok arm_user_ok arm_var_ok

lemma reads_as_arms [reads_as_intros]:
  "(\<And>v. f8 v = to_opt (k8 True v)) \<Longrightarrow> reads_as r (arm_u8 err r used k8) (on_u8 used f8)"
  "(\<And>v. f16 v = to_opt (k16 True v)) \<Longrightarrow> reads_as r (arm_u16 err r used k16) (on_u16 used f16)"
  "(\<And>v. f32 v = to_opt (k32 True v)) \<Longrightarrow> reads_as r (arm_u32 err r used k32) (on_u32 used f32)"
  "(\<And>v. fs v = to_opt (ks True v)) \<Longrightarrow> reads_as r (arm_utf8 err r used ks) (on_utf8 used fs)"
  "(\<And>v. fv v = to_opt (kv v)) \<Longrightarrow> reads_as r (arm_var err r kv) (on_var fv)"
  unfolding reads_as_def ex_prop_value by (simp_all add: arms_charged arms_ok; blast)+

lemma reads_as_user [reads_as_intros]:
  "(\<And>v. fu v = to_opt (ku v)) \<Longrightarrow> reads_as r (arm_user err r ku) (on_user fu)"
proof -
  assume f: "\<And>v. fu v = to_opt (ku v)"
  have n: "length (mqtt_string k @ mqtt_string v) = length k + length v + 4" for k v by simp
  show ?thesis
    unfolding reads_as_def ex_prop_value arm_user_ok pv_bytes.simps n
    by (auto simp: arms_charged f)
qed

text \<open>The same rules for a specification that is not written as a chain of cases.\<close>

named_theorems reads_as_cases "rules that follow the cases of an arm"

lemma reads_as_case_if [reads_as_cases]:
  "(c \<Longrightarrow> reads_as r x g) \<Longrightarrow> (\<not> c \<Longrightarrow> reads_as r y g) \<Longrightarrow> reads_as r (if c then x else y) g"
  by simp

lemma reads_as_case_refuse [reads_as_cases]:
  "(\<And>x. g (PV_u8 x) = None) \<Longrightarrow> (\<And>x. g (PV_u16 x) = None) \<Longrightarrow> (\<And>x. g (PV_u32 x) = None) \<Longrightarrow>
   (\<And>x. g (PV_utf8 x) = None) \<Longrightarrow> (\<And>x y. g (PV_user x y) = None) \<Longrightarrow> (\<And>x. g (PV_var x) = None) \<Longrightarrow>
   reads_as r (r, Inl e) g"
  unfolding reads_as_def ex_prop_value by simp

lemma reads_as_ext: "reads_as r out f \<Longrightarrow> (\<And>v. g v = f v) \<Longrightarrow> reads_as r out g"
  by (simp add: reads_as_def)

lemma reads_as_case_u8 [reads_as_cases]:
  "(\<And>x. g (PV_u8 x) = (if used then None else to_opt (k True x))) \<Longrightarrow>
   (\<And>x. g (PV_u16 x) = None) \<Longrightarrow>
   (\<And>x. g (PV_u32 x) = None) \<Longrightarrow>
   (\<And>x. g (PV_utf8 x) = None) \<Longrightarrow>
   (\<And>x y. g (PV_user x y) = None) \<Longrightarrow>
   (\<And>x. g (PV_var x) = None) \<Longrightarrow>
   reads_as r (arm_u8 err r used k) g"
  by (rule reads_as_ext, rule reads_as_arms, rule refl, rule prop_value.induct) simp_all

lemma reads_as_case_u16 [reads_as_cases]:
  "(\<And>x. g (PV_u8 x) = None) \<Longrightarrow>
   (\<And>x. g (PV_u16 x) = (if used then None else to_opt (k True x))) \<Longrightarrow>
   (\<And>x. g (PV_u32 x) = None) \<Longrightarrow>
   (\<And>x. g (PV_utf8 x) = None) \<Longrightarrow>
   (\<And>x y. g (PV_user x y) = None) \<Longrightarrow>
   (\<And>x. g (PV_var x) = None) \<Longrightarrow>
   reads_as r (arm_u16 err r used k) g"
  by (rule reads_as_ext, rule reads_as_arms, rule refl, rule prop_value.induct) simp_all

lemma reads_as_case_u32 [reads_as_cases]:
  "(\<And>x. g (PV_u8 x) = None) \<Longrightarrow>
   (\<And>x. g (PV_u16 x) = None) \<Longrightarrow>
   (\<And>x. g (PV_u32 x) = (if used then None else to_opt (k True x))) \<Longrightarrow>
   (\<And>x. g (PV_utf8 x) = None) \<Longrightarrow>
   (\<And>x y. g (PV_user x y) = None) \<Longrightarrow>
   (\<And>x. g (PV_var x) = None) \<Longrightarrow>
   reads_as r (arm_u32 err r used k) g"
  by (rule reads_as_ext, rule reads_as_arms, rule refl, rule prop_value.induct) simp_all

lemma reads_as_case_utf8 [reads_as_cases]:
  "(\<And>x. g (PV_u8 x) = None) \<Longrightarrow>
   (\<And>x. g (PV_u16 x) = None) \<Longrightarrow>
   (\<And>x. g (PV_u32 x) = None) \<Longrightarrow>
   (\<And>x. g (PV_utf8 x) = (if used then None else to_opt (k True x))) \<Longrightarrow>
   (\<And>x y. g (PV_user x y) = None) \<Longrightarrow>
   (\<And>x. g (PV_var x) = None) \<Longrightarrow>
   reads_as r (arm_utf8 err r used k) g"
  by (rule reads_as_ext, rule reads_as_arms, rule refl, rule prop_value.induct) simp_all

lemma reads_as_case_user [reads_as_cases]:
  "(\<And>x. g (PV_u8 x) = None) \<Longrightarrow>
   (\<And>x. g (PV_u16 x) = None) \<Longrightarrow>
   (\<And>x. g (PV_u32 x) = None) \<Longrightarrow>
   (\<And>x. g (PV_utf8 x) = None) \<Longrightarrow>
   (\<And>x y. g (PV_user x y) = to_opt (k (x, y))) \<Longrightarrow>
   (\<And>x. g (PV_var x) = None) \<Longrightarrow>
   reads_as r (arm_user err r k) g"
  by (rule reads_as_ext, rule reads_as_user, rule refl, rule prop_value.induct) simp_all

lemma reads_as_case_var [reads_as_cases]:
  "(\<And>x. g (PV_u8 x) = None) \<Longrightarrow>
   (\<And>x. g (PV_u16 x) = None) \<Longrightarrow>
   (\<And>x. g (PV_u32 x) = None) \<Longrightarrow>
   (\<And>x. g (PV_utf8 x) = None) \<Longrightarrow>
   (\<And>x y. g (PV_user x y) = None) \<Longrightarrow>
   (\<And>x. g (PV_var x) = to_opt (k x)) \<Longrightarrow>
   reads_as r (arm_var err r k) g"
  by (rule reads_as_ext, rule reads_as_arms, rule refl, rule prop_value.induct) simp_all

section \<open>The loop reads exactly the sections its table allows\<close>

locale section_table =
  fixes body :: "'s \<Rightarrow> property_reader \<Rightarrow> byte \<Rightarrow> property_reader \<times> ('e + 's)"
    and ap :: "'s \<Rightarrow> byte \<Rightarrow> prop_value \<Rightarrow> 's option"
  assumes body_reads: "reads_as r (body s r pid) (ap s pid)"
begin

lemma body_charged: "body s r pid = (r', res) \<Longrightarrow> charged r r'"
  using body_reads [of r s pid] by (simp add: reads_as_def)

lemma loop_unfold:
  "section_loop body err s r =
     (if rd_remaining r > 0 then
        (case property_id r of
           (r1, Inl _) \<Rightarrow> (r1, Inl err)
         | (r1, Inr pid) \<Rightarrow> (case body s r1 pid of
               (r2, Inl e) \<Rightarrow> (r2, Inl e)
             | (r2, Inr s') \<Rightarrow> section_loop body err s' r2))
      else (r, Inr s))"
  by (subst section_loop.simps)
    (auto split: prod.split sum.split dest!: body_charged charged_remaining)

lemma loop_charged: "section_loop body err s r = (r', res) \<Longrightarrow> charged r r'"
proof (induction "unat (rd_remaining r)" arbitrary: s r rule: less_induct)
  case less
  have IH: "charged r r'"
    if "property_id r = (r1, Inr pid)" "body s r1 pid = (r2, Inr s')"
      "section_loop body err s' r2 = (r', res)" for r1 pid r2 s'
  proof -
    have "charged r r1" "charged r1 r2" using that property_id_charged body_charged by blast+
    moreover have "unat (rd_remaining r2) < unat (rd_remaining r)"
      using property_id_less [of r1 pid r r2] that(1) charged_remaining [OF \<open>charged r1 r2\<close>] by simp
    ultimately show ?thesis using less.hyps that(3) charged_trans by blast
  qed
  show ?case
    using less.prems
    by (subst (asm) loop_unfold)
      (auto split: if_splits prod.splits sum.splits
        intro: IH property_id_charged charged_trans [OF property_id_charged body_charged])
qed

text \<open>The loop succeeds exactly on a budget that is the encoding of a list of properties
  the table takes one after the other.\<close>

lemma loop_0: "unat (rd_remaining r) = 0 \<Longrightarrow> section_loop body err s r = (r, Inr s)"
  by (simp add: loop_unfold [of err s r] word_neq_0_conv unat_eq_0)

lemma loop_pos:
  "0 < unat (rd_remaining r) \<Longrightarrow>
   section_loop body err s r = (r', Inr s') \<longleftrightarrow>
     (\<exists>pid r2 s2. holds r [pid] \<and> body s (advance r 1) pid = (r2, Inr s2) \<and>
        section_loop body err s2 r2 = (r', Inr s'))"
proof -
  assume "0 < unat (rd_remaining r)"
  then have "section_loop body err s r = (r', Inr s') \<longleftrightarrow>
     (\<exists>pid r1 r2 s2. property_id r = (r1, Inr pid) \<and> body s r1 pid = (r2, Inr s2) \<and>
        section_loop body err s2 r2 = (r', Inr s'))"
    by (subst loop_unfold) (auto simp: word_neq_0_conv unat_gt_0 split: prod.splits sum.splits)
  then show ?thesis by (auto simp: property_id_ok)
qed

lemma loop_ok_imp:
  "section_loop body err s r = (r', Inr s') \<Longrightarrow> reader_ok r \<Longrightarrow>
   \<exists>ps. (\<forall>(pid, v) \<in> set ps. pv_ok v) \<and> holds r (section_bytes ps) \<and>
      length (section_bytes ps) = unat (rd_remaining r) \<and>
      apply_all ap s ps = Some s' \<and> r' = advance r (length (section_bytes ps))"
proof (induction "unat (rd_remaining r)" arbitrary: s r rule: less_induct)
  case less
  show ?case
  proof (cases "unat (rd_remaining r) = 0")
    case True
    with less.prems have "r' = r" "s' = s" by (simp_all add: loop_0)
    with True less.prems(2) show ?thesis
      by (intro exI [of _ "[]"]) (simp add: holds_def reader_ok_def)
  next
    case False
    then obtain pid r2 s2 where id: "holds r [pid]" and b: "body s (advance r 1) pid = (r2, Inr s2)"
      and rec: "section_loop body err s2 r2 = (r', Inr s')"
      using less.prems(1) loop_pos [of r err s r' s'] by blast
    obtain v where v: "pv_ok v" "holds (advance r 1) (pv_bytes v)" "ap s pid v = Some s2"
      and r2: "r2 = advance (advance r 1) (length (pv_bytes v))"
      using body_reads [of "advance r 1" s pid] b unfolding reads_as_def by blast
    have hd2: "holds r (pid # pv_bytes v)"
      using holds_append [of r "[pid]" "pv_bytes v"] id v(2) by simp
    have r2': "r2 = advance r (Suc (length (pv_bytes v)))"
      unfolding r2 advance_advance by simp
    have rem: "unat (rd_remaining r2) = unat (rd_remaining r) - Suc (length (pv_bytes v))"
      unfolding r2' using hd2 by (intro advance_simps(3)) (simp add: holds_iff)
    have ok: "reader_ok r2" using hd2 by (simp add: r2' reader_ok_def holds_iff)
    have "unat (rd_remaining r2) < unat (rd_remaining r)" using rem False by linarith
    from less.hyps [OF this rec ok] obtain ps where ps: "\<forall>(pid, v) \<in> set ps. pv_ok v"
      "holds r2 (section_bytes ps)" "length (section_bytes ps) = unat (rd_remaining r2)"
      "apply_all ap s2 ps = Some s'" "r' = advance r2 (length (section_bytes ps))" by blast
    have "holds r (section_bytes ((pid, v) # ps))"
      using holds_append [of r "pid # pv_bytes v" "section_bytes ps"] hd2 ps(2)
      by (simp add: r2')
    moreover have "length (section_bytes ((pid, v) # ps)) = unat (rd_remaining r)"
      using ps(3) rem hd2 by (simp add: holds_iff)
    moreover have "r' = advance r (length (section_bytes ((pid, v) # ps)))"
      using ps(5) by (simp add: r2' advance_advance)
    ultimately show ?thesis
      using ps(1,4) v by (intro exI [of _ "(pid, v) # ps"]) simp
  qed
qed

lemma loop_okI:
  "\<forall>(pid, v) \<in> set ps. pv_ok v \<Longrightarrow> holds r (section_bytes ps) \<Longrightarrow>
   length (section_bytes ps) = unat (rd_remaining r) \<Longrightarrow> apply_all ap s ps = Some s' \<Longrightarrow>
   section_loop body err s r = (advance r (length (section_bytes ps)), Inr s')"
proof (induction ps arbitrary: s r)
  case Nil
  then show ?case by (simp add: loop_0)
next
  case (Cons p ps)
  obtain pid v where p: "p = (pid, v)" by (cases p)
  from Cons.prems(4) obtain s2 where s2: "ap s pid v = Some s2" "apply_all ap s2 ps = Some s'"
    by (auto simp: p bind_eq_Some_conv)
  let ?r2 = "advance r (Suc (length (pv_bytes v)))"
  have h: "holds r (pid # pv_bytes v)" "holds ?r2 (section_bytes ps)"
    using Cons.prems(2) holds_append [of r "pid # pv_bytes v" "section_bytes ps"] by (simp_all add: p)
  then have h1: "holds r [pid]" "holds (advance r 1) (pv_bytes v)"
    using holds_append [of r "[pid]" "pv_bytes v"] by simp_all
  have adv: "advance (advance r 1) (length (pv_bytes v)) = ?r2" by (simp add: advance_advance)
  have "body s (advance r 1) pid = (?r2, Inr s2)"
    using body_reads [of "advance r 1" s pid] h1(2) s2(1) Cons.prems(1)
    unfolding reads_as_def adv [symmetric] by (auto simp: p)
  moreover have "unat (rd_remaining ?r2) = unat (rd_remaining r) - Suc (length (pv_bytes v))"
    using h(1) by (intro advance_simps(3)) (simp add: holds_iff)
  then have "section_loop body err s2 ?r2 = (advance ?r2 (length (section_bytes ps)), Inr s')"
    using Cons.prems(1,3) h(2) s2(2) by (intro Cons.IH) (auto simp: p)
  moreover have "0 < unat (rd_remaining r)" using Cons.prems(3) by (simp add: p)
  ultimately have "section_loop body err s r = (advance ?r2 (length (section_bytes ps)), Inr s')"
    using loop_pos [of r err s] h1(1) by blast
  then show ?case by (simp add: p advance_advance)
qed

lemma loop_ok:
  "reader_ok r \<Longrightarrow> section_loop body err s r = (r', Inr s') \<longleftrightarrow>
     (\<exists>ps. (\<forall>(pid, v) \<in> set ps. pv_ok v) \<and> holds r (section_bytes ps) \<and>
        length (section_bytes ps) = unat (rd_remaining r) \<and>
        apply_all ap s ps = Some s' \<and> r' = advance r (length (section_bytes ps)))"
  using loop_ok_imp loop_okI by (auto 0 3)

text \<open>The usual case: a fresh reader over a buffer that is exactly the claimed section.\<close>

lemma section_ok:
  assumes "length bs = unat n"
  shows "(\<exists>r'. section_loop body err s (reader_new bs n) = (r', Inr s')) \<longleftrightarrow>
    (\<exists>ps. (\<forall>(pid, v) \<in> set ps. pv_ok v) \<and> bs = section_bytes ps \<and> apply_all ap s ps = Some s')"
proof -
  have h: "holds (reader_new bs n) xs \<and> length xs = unat n \<longleftrightarrow> bs = xs" for xs
    using assms by (auto simp: holds_def reader_new_def)
  have ok: "reader_ok (reader_new bs n)" by (simp add: reader_ok_def reader_new_def)
  have n: "rd_remaining (reader_new bs n) = n" by (simp add: reader_new_def)
  show ?thesis unfolding loop_ok [OF ok] n using h by blast
qed

end

section \<open>A property section with its length\<close>

definition property_block :: "bytes \<Rightarrow> bytes" where
  "property_block sec = vl_encode (length sec) @ sec"

lemma length_property_block: "length (property_block sec) = length (vl_encode (length sec)) + length sec"
  by (simp add: property_block_def)

lemma property_block_nonempty [simp]: "property_block s \<noteq> []" "[] \<noteq> property_block s"
  by (simp_all add: property_block_def)

lemma length_vl_encode_le_4: "n < 268435456 \<Longrightarrow> length (vl_encode n) \<le> 4"
  by (simp add: length_vl_encode)

text \<open>What a decoder finds that reads a length and then takes that many bytes.\<close>

lemma property_block_read:
  "decode_variable_length body = Inr n \<and>
     slice body (unat (variable_length_encoded_size n))
       (unat (variable_length_encoded_size n) + unat n) = Some sec \<longleftrightarrow>
   length sec < 268435456 \<and> n = word_of_nat (length sec) \<and>
     (\<exists>rest. body = property_block sec @ rest)"
proof
  assume a: "decode_variable_length body = Inr n \<and>
     slice body (unat (variable_length_encoded_size n))
       (unat (variable_length_encoded_size n) + unat n) = Some sec"
  then obtain rest where n: "unat n < 268435456" and b: "body = vl_encode (unat n) @ rest"
    by (auto simp: decode_variable_length_ok)
  from a n b have "unat n \<le> length rest" "sec = take (unat n) rest"
    by (auto simp: result_simps unat_encoded_size)
  then have "length sec = unat n" "rest = sec @ drop (unat n) rest" by auto
  then show "length sec < 268435456 \<and> n = word_of_nat (length sec) \<and>
     (\<exists>rest. body = property_block sec @ rest)"
    using n b by (metis append.assoc property_block_def word_of_unat)
next
  assume r: "length sec < 268435456 \<and> n = word_of_nat (length sec) \<and>
     (\<exists>rest. body = property_block sec @ rest)"
  then have n: "unat n = length sec" by (simp add: unat_u32_of_nat)
  with r show "decode_variable_length body = Inr n \<and>
     slice body (unat (variable_length_encoded_size n))
       (unat (variable_length_encoded_size n) + unat n) = Some sec"
    by (auto simp: decode_variable_length_ok result_simps unat_encoded_size property_block_def)
qed

section \<open>The string encoder\<close>

lemma encode_string_Some:
  "length s = unat len \<Longrightarrow>
   encode_string d (Some s) len =
     (if length d < length s + 2 then (d, 0) else (splice d 0 (mqtt_string s), length s + 2))"
  using splice_append [of 0 "be16 len" s d] length_be16 [of len]
  by (auto simp: numeral_2_eq_2 encode_string_def put_slice_def slice_def mqtt_string_def Let_def)

text \<open>The property length decoder and the fixed header's reader, two separate loops with
  different arithmetic and different bounds, accept the same encodings with the same values;
  where one refuses, so does the other.\<close>

theorem decoders_agree:
  assumes "incoming_packet_valid t"
  shows "decode_variable_length bs =
    (case process_incoming_packet_type_and_length (t # bs) (length (t # bs)) of
       Inr h \<Rightarrow> Inr (h_remaining_length h) | Inl e \<Rightarrow> Inl P_BadResponse)"
  using assms
  by (auto simp: decode_variable_length_eq process_incoming_unfold vl_read_def
      split: vl_result.split)

theorem decoders_agree_witness:
  "decode_variable_length [0xC1, 0x02, 5] =
    (case process_incoming_packet_type_and_length [0x30, 0xC1, 0x02, 5]
            (length [0x30 :: byte, 0xC1, 0x02, 5]) of
       Inr h \<Rightarrow> Inr (h_remaining_length h) | Inl e \<Rightarrow> Inl P_BadResponse)"
  by (rule decoders_agree) (simp add: incoming_packet_valid_def VALID_def type_bit_def)

text \<open>The property length decoder accepts a buffer exactly when it begins with the minimal
  encoding of a length below 2^28, and answers that length: no longer encoding of the same
  value is accepted, no larger value, and its in-loop range check refuses nothing else.\<close>

theorem decode_variable_length_iff:
  "decode_variable_length buffer = Inr v \<longleftrightarrow>
     v \<le> MAX_REMAINING_LENGTH \<and> (\<exists>rest. buffer = vl_encode (unat v) @ rest)"
  by (auto simp: decode_variable_length_ok word_le_nat_alt)

text \<open>No read of a property reader, accepted or refused, takes the cursor out of the
  buffer, and each moves it by exactly what it charges to the budget; so the cursor and the
  budget always name the same end of the section.\<close>

theorem reads_charged:
  "charged r (fst (read_u8 r used)) \<and>
    charged r (fst (read_u16 r used)) \<and>
    charged r (fst (read_u32 r used)) \<and>
    charged r (fst (read_utf8 r used)) \<and>
    charged r (fst (user_property r)) \<and>
    charged r (fst (read_variable_length r)) \<and>
    charged r (fst (property_id r))"
  by (intro conjI; metis charged_reads prod_cases3 prod.exhaust fst_conv)

text \<open>A string written by the encoder is the string the reader reads back, with the
  cursor just behind it, whatever follows it in the buffer.\<close>

theorem encode_string_roundtrip:
  assumes "length str = unat len" and "encode_string destination (Some str) len = (d, n)"
    and "n \<noteq> 0" and "n \<le> unat budget"
  shows "read_utf8 (reader_new d budget) False =
    (advance (reader_new d budget) n, True, Inr str)"
proof -
  have n: "n = length str + 2" and d: "d = mqtt_string str @ drop n destination"
    using assms(1-3) by (auto simp: encode_string_Some splice_0 split: if_splits)
  have "length str < 65536" using unat_lt16 [of len] assms(1) by linarith
  moreover have "holds (reader_new d budget) (mqtt_string str)"
    using assms(4) n d by (auto simp: holds_def reader_new_def)
  ultimately show ?thesis using n by (simp add: read_utf8_ok)
qed

theorem encode_string_roundtrip_witness:
  "read_utf8 (reader_new (fst (encode_string [0, 0, 0, 0, 9] (Some [65, 66]) 2)) 5) False =
    (advance (reader_new (fst (encode_string [0, 0, 0, 0, 9] (Some [65, 66]) 2)) 5) 4,
     True, Inr [65, 66])"
  by (rule encode_string_roundtrip [of _ 2 "[0, 0, 0, 0, 9]"])
    (simp_all add: encode_string_Some)

end
