(* ===== verification/Ack.thy ===== *)
theory Ack
  imports Property
begin

text \<open>
  Incoming acknowledgements (src/crates/rusty_rtos_mqtt-core/src/ack.rs): the packet as the
  receive loop hands it over, the three families of acknowledgement, their reason code
  tables and the walk over their two properties. The lemmas characterise the accepted
  packets by their layout: packet id, reason code, and a property section that is the
  encoding of a list of properties.
\<close>

abbreviation (input) REASON_STRING_ID :: byte where "REASON_STRING_ID \<equiv> 0x1F"
abbreviation (input) USER_PROPERTY_ID :: byte where "USER_PROPERTY_ID \<equiv> 0x26"
abbreviation (input) PINGRESP_REMAINING_LENGTH :: u32 where "PINGRESP_REMAINING_LENGTH \<equiv> 0"

record packet_info =
  pi_packet_type :: byte
  pi_remaining_length :: u32
  pi_remaining_data :: bytes

record ack_limits =
  al_max_packet_size :: u32
  al_request_problem_info :: bool

record ack_info =
  ai_packet_id :: "u16 option"
  ai_reason_codes :: bytes
  ai_properties :: bytes

datatype ack_error = Ack_BadParameter | Ack_BadResponse

definition bounded :: "bytes \<Rightarrow> nat \<Rightarrow> u32 \<Rightarrow> ack_error + bytes" where
  "bounded buffer start len = ok_or Ack_BadResponse (slice buffer start (start + unat len))"

definition read_packet_id :: "bytes \<Rightarrow> ack_error + u16" where
  "read_packet_id remaining_data =
     rbind (ok_or Ack_BadResponse (slice remaining_data 0 2)) (\<lambda>bs.
       case from_be16 bs of
         None \<Rightarrow> Inl Ack_BadResponse
       | Some i \<Rightarrow> if i = 0 then Inl Ack_BadResponse else Inr i)"

definition validate_ack_reason_code :: "byte \<Rightarrow> ack_error + unit" where
  "validate_ack_reason_code code =
     (if code \<in> {0x00, 0x10, 0x80, 0x83, 0x87, 0x90, 0x91, 0x92, 0x97, 0x99}
      then Inr () else Inl Ack_BadResponse)"

definition ack_reason_message :: "byte \<Rightarrow> string" where
  "ack_reason_message reason_code =
     (if reason_code = 0x00 then ''''
      else if reason_code = 0x10 then
        ''Publish accepted with packet id %hu: No matching subscribers.''
      else if reason_code = 0x80 then
        ''Publish refused with packet id %hu: Connection rate exceeded.''
      else if reason_code = 0x83 then
        ''Publish refused with packet id %hu:  The PUBLISH is valid but the '' @
        ''receiver is not willing to accept it.''
      else if reason_code = 0x87 then
        ''Publish refused with packet id %hu: The PUBLISH is not authorized.''
      else if reason_code = 0x90 then
        ''Publish refused with packet id %hu: Topic Name not accepted.''
      else if reason_code = 0x91 then
        ''Publish refused with packet id %hu: The Packet Identifier is already in use. ''
      else if reason_code = 0x97 then
        ''Publish refused with packet id %hu: Quota exceeded.''
      else if reason_code = 0x99 then
        ''Publish refused with packet id %hu: Payload format indicator is invalid.''
      else if reason_code = 0x92 then
        ''Publish refused with packet id %hu: Packet identifier invalid.''
      else '''')"

fun read_suback_status :: "bytes \<Rightarrow> ack_error + unit" where
  "read_suback_status [] = Inr ()"
| "read_suback_status (code # reason_codes) =
     (if code \<le> 0x02 then read_suback_status reason_codes
      else if code \<in> {0x80, 0x83, 0x87, 0x8F, 0x91, 0x97, 0x9E, 0xA1, 0xA2}
      then read_suback_status reason_codes
      else Inl Ack_BadResponse)"

section \<open>The property walk\<close>

text \<open>The body of the loop: the state is the flag \<open>reason_string_seen\<close>.\<close>

definition ack_property ::
    "bool \<Rightarrow> property_reader \<Rightarrow> byte \<Rightarrow> property_reader \<times> (ack_error + bool)" where
  "ack_property seen r pid =
     (if pid = REASON_STRING_ID then arm_utf8 Ack_BadResponse r seen (\<lambda>seen' _. Inr seen')
      else if pid = USER_PROPERTY_ID then arm_user Ack_BadResponse r (\<lambda>_. Inr seen)
      else (r, Inl Ack_BadResponse))"

definition walk_ack_properties :: "bytes \<Rightarrow> u32 \<Rightarrow> ack_error + unit" where
  "walk_ack_properties properties property_length =
     (case section_loop ack_property Ack_BadResponse False (reader_new properties property_length) of
        (_, Inl e) \<Rightarrow> Inl e
      | (_, Inr _) \<Rightarrow> Inr ())"

section \<open>The three families\<close>

definition decode_pub_ack_properties :: "bytes \<Rightarrow> ack_error + bytes" where
  "decode_pub_ack_properties body =
     rbind (map_err (\<lambda>_. Ack_BadResponse) (decode_variable_length body)) (\<lambda>property_length.
       let encoded = variable_length_encoded_size property_length in
       rbind (ok_or Ack_BadResponse (try_u32 (length body))) (\<lambda>available.
         if available \<noteq> sat_add property_length encoded then Inl Ack_BadResponse
         else rbind (bounded body (unat encoded) property_length) (\<lambda>properties.
           rbind (walk_ack_properties properties property_length) (\<lambda>_. Inr properties))))"

definition deserialize_pub_acks :: "packet_info \<Rightarrow> bool \<Rightarrow> ack_error + ack_info" where
  "deserialize_pub_acks packet request_problem_info =
     (if pi_remaining_length packet < 2 then Inl Ack_BadResponse
      else rbind (read_packet_id (pi_remaining_data packet)) (\<lambda>packet_id.
        rbind (if pi_remaining_length packet > 2
               then ok_or Ack_BadResponse (slice (pi_remaining_data packet) 2 3)
               else Inr []) (\<lambda>reason_codes.
          if pi_remaining_length packet \<le> 3
          then Inr \<lparr>ai_packet_id = Some packet_id, ai_reason_codes = reason_codes,
                    ai_properties = []\<rparr>
          else if \<not> request_problem_info then Inl Ack_BadResponse
          else rbind (bounded (pi_remaining_data packet) 3 (sat_sub (pi_remaining_length packet) 3))
            (\<lambda>body. rbind (decode_pub_ack_properties body) (\<lambda>properties.
               Inr \<lparr>ai_packet_id = Some packet_id, ai_reason_codes = reason_codes,
                     ai_properties = properties\<rparr>)))))"

definition deserialize_sub_unsub_ack_properties :: "bytes \<Rightarrow> ack_error + bytes \<times> nat" where
  "deserialize_sub_unsub_ack_properties after_id =
     rbind (map_err (\<lambda>_. Ack_BadResponse) (decode_variable_length after_id)) (\<lambda>property_length.
       let encoded = variable_length_encoded_size property_length;
           claimed = sat_add (sat_add property_length encoded) 2 in
       rbind (ok_or Ack_BadResponse (try_u32 (length after_id))) (\<lambda>n.
         let available = sat_add n 2 in
         if claimed > available then Inl Ack_BadResponse
         else rbind (bounded after_id (unat encoded) property_length) (\<lambda>properties.
           rbind (walk_ack_properties properties property_length) (\<lambda>_.
             Inr (properties, unat encoded + length properties)))))"

definition deserialize_sub_unsub_ack :: "packet_info \<Rightarrow> ack_error + ack_info" where
  "deserialize_sub_unsub_ack packet =
     (if pi_remaining_length packet < 4 then Inl Ack_BadResponse
      else rbind (read_packet_id (pi_remaining_data packet)) (\<lambda>packet_id.
        rbind (bounded (pi_remaining_data packet) 2 (sat_sub (pi_remaining_length packet) 2))
          (\<lambda>after_id.
            rbind (deserialize_sub_unsub_ack_properties after_id) (\<lambda>(properties, property_bytes).
              rbind (ok_or Ack_BadResponse (slice_from after_id property_bytes)) (\<lambda>reason_codes.
                rbind (read_suback_status reason_codes) (\<lambda>_.
                  Inr \<lparr>ai_packet_id = Some packet_id, ai_reason_codes = reason_codes,
                        ai_properties = properties\<rparr>))))))"

definition total_packet_size :: "u32 \<Rightarrow> u32" where
  "total_packet_size remaining_length =
     sat_add (sat_add remaining_length (variable_length_encoded_size remaining_length)) 1"

definition deserialize_ack :: "packet_info \<Rightarrow> ack_limits \<Rightarrow> ack_error + ack_info" where
  "deserialize_ack packet limits =
     (if pi_packet_type packet = CONNACK then Inl Ack_BadParameter
      else if al_max_packet_size limits = 0 then Inl Ack_BadParameter
      else let packet_size = total_packet_size (pi_remaining_length packet) in
      if packet_size > al_max_packet_size limits then Inl Ack_BadResponse
      else if pi_packet_type packet \<in> {PUBACK, PUBREC, PUBREL, PUBCOMP} then
        rbind (deserialize_pub_acks packet (al_request_problem_info limits)) (\<lambda>ack.
          if pi_remaining_length packet > 2 then
            (case ai_reason_codes ack of
               [] \<Rightarrow> Inr ack
             | code # _ \<Rightarrow> rbind (validate_ack_reason_code code) (\<lambda>_. Inr ack))
          else Inr ack)
      else if pi_packet_type packet \<in> {SUBACK, UNSUBACK} then deserialize_sub_unsub_ack packet
      else if pi_packet_type packet = PINGRESP then
        (if pi_remaining_length packet = PINGRESP_REMAINING_LENGTH
         then Inr \<lparr>ai_packet_id = None, ai_reason_codes = [], ai_properties = []\<rparr>
         else Inl Ack_BadResponse)
      else Inl Ack_BadResponse)"

section \<open>The walk accepts reason strings and user properties, the former once\<close>

definition ack_table :: "bool \<Rightarrow> byte \<Rightarrow> prop_value \<Rightarrow> bool option" where
  "ack_table seen pid =
     (if pid = REASON_STRING_ID then on_utf8 seen (\<lambda>_. Some True)
      else if pid = USER_PROPERTY_ID then on_user (\<lambda>_. Some seen)
      else (\<lambda>_. None))"

interpretation ack_walk: section_table ack_property ack_table
  by unfold_locales (auto simp: ack_property_def ack_table_def intro!: reads_as_intros)

text \<open>The property lists an acknowledgement may carry.\<close>

fun ack_prop_ok :: "byte \<times> prop_value \<Rightarrow> bool" where
  "ack_prop_ok (pid, PV_utf8 s) = (pid = REASON_STRING_ID)"
| "ack_prop_ok (pid, PV_user k v) = (pid = USER_PROPERTY_ID)"
| "ack_prop_ok _ = False"

definition ack_props_ok :: "(byte \<times> prop_value) list \<Rightarrow> bool" where
  "ack_props_ok ps \<longleftrightarrow> list_all ack_prop_ok ps \<and> list_all (\<lambda>(_, v). pv_ok v) ps \<and>
     length (filter (\<lambda>(pid, _). pid = REASON_STRING_ID) ps) \<le> 1"

lemma ack_table_all:
  "(\<exists>s'. apply_all ack_table seen ps = Some s') \<longleftrightarrow>
     list_all ack_prop_ok ps \<and>
     length (filter (\<lambda>(pid, _). pid = REASON_STRING_ID) ps) \<le> (if seen then 0 else 1)"
proof (induction ps arbitrary: seen)
  case (Cons p ps)
  obtain pid v where p: "p = (pid, v)" by (cases p)
  have step: "(\<exists>s'. apply_all ack_table seen (p # ps) = Some s') \<longleftrightarrow>
      (\<exists>s1. ack_table seen pid v = Some s1 \<and> (\<exists>s'. apply_all ack_table s1 ps = Some s'))"
    by (auto simp: p bind_eq_Some_conv)
  show ?case
    unfolding step Cons.IH
    by (cases v) (simp_all add: p ack_table_def ex_bool_eq del: length_0_conv)
qed simp

lemma walk_ack_properties_ok:
  assumes "length properties = unat n"
  shows "walk_ack_properties properties n = Inr () \<longleftrightarrow>
    (\<exists>ps. ack_props_ok ps \<and> properties = section_bytes ps)"
proof -
  let ?loop = "section_loop ack_property Ack_BadResponse False (reader_new properties n)"
  have "walk_ack_properties properties n = Inr () \<longleftrightarrow> (\<exists>s' r'. ?loop = (r', Inr s'))"
    by (auto simp: walk_ack_properties_def split: prod.splits sum.splits)
  also have "\<dots> \<longleftrightarrow> (\<exists>ps. (\<forall>(pid, v) \<in> set ps. pv_ok v) \<and> properties = section_bytes ps \<and>
      (\<exists>s'. apply_all ack_table False ps = Some s'))"
    unfolding ack_walk.section_ok [OF assms] by blast
  also have "\<dots> \<longleftrightarrow> (\<exists>ps. ack_props_ok ps \<and> properties = section_bytes ps)"
    unfolding ack_table_all ack_props_ok_def list_all_iff by (rule ex_cong1) auto
  finally show ?thesis .
qed

section \<open>The layout of an accepted acknowledgement\<close>

definition ack_section :: "bytes \<Rightarrow> bool" where
  "ack_section sec \<longleftrightarrow> length sec < 268435456 \<and> (\<exists>ps. ack_props_ok ps \<and> sec = section_bytes ps)"

lemma ack_section_Nil [simp]: "ack_section []"
  by (auto simp: ack_section_def ack_props_ok_def intro!: exI [of _ "[]"])

lemma bounded_eq_Inr [result_simps]:
  "bounded buffer start len = Inr bs \<longleftrightarrow>
     start + unat len \<le> length buffer \<and> bs = take (unat len) (drop start buffer)"
  by (auto simp: bounded_def result_simps)

lemma decode_pub_ack_properties_ok:
  "decode_pub_ack_properties body = Inr sec \<longleftrightarrow> ack_section sec \<and> body = property_block sec"
proof -
  have "decode_pub_ack_properties body = Inr sec \<longleftrightarrow>
    (\<exists>n. (decode_variable_length body = Inr n \<and>
       slice body (unat (variable_length_encoded_size n))
         (unat (variable_length_encoded_size n) + unat n) = Some sec) \<and>
       length body = unat (sat_add n (variable_length_encoded_size n)) \<and>
       walk_ack_properties sec n = Inr ())"
    by (auto simp: decode_pub_ack_properties_def result_simps Let_def
        split: if_splits)
  also have "\<dots> \<longleftrightarrow> length sec < 268435456 \<and> body = property_block sec \<and>
       walk_ack_properties sec (word_of_nat (length sec)) = Inr ()"
  proof -
    have "unat (sat_add n (variable_length_encoded_size n)) = length (property_block sec)"
      if "length sec < 268435456" "n = word_of_nat (length sec)" for n
      using that length_vl_encode_le_4 [of "length sec"]
      by (simp add: unat_simps unat_u32_of_nat length_property_block)
    then show ?thesis unfolding property_block_read by auto
  qed
  finally show ?thesis
    by (auto simp: ack_section_def walk_ack_properties_ok unat_u32_of_nat)
qed

lemma deserialize_sub_unsub_ack_properties_ok:
  assumes "length after_id < 4294967296"
  shows "deserialize_sub_unsub_ack_properties after_id = Inr (sec, k) \<longleftrightarrow>
    ack_section sec \<and> k = length (property_block sec) \<and>
    (\<exists>rest. after_id = property_block sec @ rest)"
proof -
  have t: "try_u32 (length after_id) = Some (word_of_nat (length after_id))"
    using assms by (simp add: try_u32_def)
  have "deserialize_sub_unsub_ack_properties after_id = Inr (sec, k) \<longleftrightarrow>
    (\<exists>n. (decode_variable_length after_id = Inr n \<and>
       slice after_id (unat (variable_length_encoded_size n))
         (unat (variable_length_encoded_size n) + unat n) = Some sec) \<and>
       sat_add (sat_add n (variable_length_encoded_size n)) 2
         \<le> sat_add (word_of_nat (length after_id)) 2 \<and>
       walk_ack_properties sec n = Inr () \<and>
       k = unat (variable_length_encoded_size n) + length sec)"
  proof (cases "decode_variable_length after_id")
    case (Inr n)
    then show ?thesis
      unfolding deserialize_sub_unsub_ack_properties_def t ok_or_simps rbind_simps Let_def Inr
      by (auto simp: result_simps not_less split: if_splits)
  qed (simp add: deserialize_sub_unsub_ack_properties_def)
  also have "\<dots> \<longleftrightarrow> length sec < 268435456 \<and> (\<exists>rest. after_id = property_block sec @ rest) \<and>
       walk_ack_properties sec (word_of_nat (length sec)) = Inr () \<and>
       k = length (property_block sec)"
  proof -
    have "sat_add (sat_add n (variable_length_encoded_size n)) 2
        \<le> sat_add (word_of_nat (length (property_block sec @ rest))) 2 \<and>
       unat (variable_length_encoded_size n) + length sec = length (property_block sec)"
      if "length sec < 268435456" "n = word_of_nat (length sec)"
        "length (property_block sec @ rest) < 4294967296" for n rest
      using that length_vl_encode_le_4 [of "length sec"]
      by (simp add: word_le_nat_alt unat_simps unat_u32_of_nat length_property_block
          del: of_nat_add)
    then show ?thesis using assms unfolding property_block_read by auto
  qed
  finally show ?thesis
    by (auto simp: ack_section_def walk_ack_properties_ok unat_u32_of_nat)
qed

lemma read_packet_id_ok:
  "read_packet_id bs = Inr i \<longleftrightarrow> i \<noteq> 0 \<and> (\<exists>rest. bs = be16 i @ rest)"
proof -
  have "read_packet_id bs = Inr i \<longleftrightarrow> i \<noteq> 0 \<and> take 2 bs = be16 i"
    by (auto simp: read_packet_id_def result_simps split: option.splits if_splits
        dest: arg_cong [of _ _ length])
  moreover have "take 2 bs = be16 i \<longleftrightarrow> (\<exists>rest. bs = be16 i @ rest)"
    using take_prefix_iff [of 2 bs "be16 i"]
    by (metis append_Nil2 append_eq_conv_conj length_be16)
  ultimately show ?thesis by simp
qed

lemma read_suback_status_ok:
  "read_suback_status codes = Inr () \<longleftrightarrow>
     set codes \<subseteq> {0, 1, 2, 0x80, 0x83, 0x87, 0x8F, 0x91, 0x97, 0x9E, 0xA1, 0xA2}"
proof -
  have "c \<le> 2 \<longleftrightarrow> c = 0 \<or> c = 1 \<or> c = 2" for c :: byte
    by (auto simp: word_le_nat_alt word_unat_eq_iff)
  then show ?thesis by (induction codes) auto
qed

lemma deserialize_pub_acks_ok:
  "deserialize_pub_acks p info = Inr a \<longleftrightarrow>
     unat (pi_remaining_length p) \<le> length (pi_remaining_data p) \<and>
     (\<exists>i. i \<noteq> 0 \<and> ai_packet_id a = Some i \<and>
       (let body = take (unat (pi_remaining_length p)) (pi_remaining_data p) in
        body = be16 i \<and> ai_reason_codes a = [] \<and> ai_properties a = [] \<or>
        (\<exists>c. ai_reason_codes a = [c] \<and>
          (body = be16 i @ [c] \<and> ai_properties a = [] \<or>
           info \<and> ack_section (ai_properties a) \<and>
             body = be16 i @ c # property_block (ai_properties a)))))"
  (is "?L \<longleftrightarrow> ?R")
proof -
  let ?n = "unat (pi_remaining_length p)" and ?d = "pi_remaining_data p"
  let ?w = "pi_remaining_length p"
  have w: "?w < 2 \<longleftrightarrow> ?n < 2" "?w > 2 \<longleftrightarrow> 2 < ?n" "?w \<le> 3 \<longleftrightarrow> ?n \<le> 3"
    "unat (sat_sub ?w 3) = ?n - 3"
    by (simp_all add: word_less_nat_alt word_le_nat_alt unat_simps)
  note defs = deserialize_pub_acks_def w Let_def result_simps read_packet_id_ok
    decode_pub_ack_properties_ok
  consider (over) "length ?d < ?n" | (short) "?n < 2" | (id) "?n = 2" "2 \<le> length ?d"
    | (longer) "3 \<le> ?n" "?n \<le> length ?d" by linarith
  then show ?thesis
  proof cases
    case over
    have "\<not> ?L"
    proof
      assume ?L
      then obtain i where "2 \<le> ?n" "\<exists>rest. ?d = be16 i @ rest" by (auto simp: defs split: if_splits)
      then have "2 \<le> length ?d" by auto
      with over \<open>?L\<close> show False by (auto simp: defs split: if_splits)
    qed
    with over show ?thesis by simp
  next
    case short
    then show ?thesis by (cases ?d; cases "?n") (auto simp: defs)
  next
    case id
    then have "Suc (Suc 0) \<le> length ?d" by linarith
    then obtain x y rest where "?d = x # y # rest"
      by (auto simp: Suc_le_length_iff)
    with id show ?thesis by (cases a) (auto simp: defs numeral_2_eq_2)
  next
    case longer
    then have "Suc (Suc (Suc 0)) \<le> length ?d" by linarith
    then obtain x y c rest where d: "?d = x # y # c # rest"
      by (auto simp: Suc_le_length_iff)
    have t: "take ?n ?d = x # y # c # take (?n - 3) rest"
      using longer(1) by (cases ?n; cases "?n - 1"; cases "?n - 2") (simp_all add: d)
    have s3: "slice ?d 2 3 = Some [c]" by (simp add: slice_def d)
    have id: "read_packet_id ?d = Inr i \<longleftrightarrow> i \<noteq> 0 \<and> be16 i = [x, y]" for i
      unfolding read_packet_id_ok d by auto
    have b: "bounded ?d 3 (sat_sub ?w 3) = Inr (take (?n - 3) rest)"
      using longer by (simp add: result_simps w d)
    have z: "?n \<le> 3 \<longleftrightarrow> take (?n - 3) rest = []" using longer d by auto
    have "?L \<longleftrightarrow> (\<exists>i. i \<noteq> 0 \<and> be16 i = [x, y] \<and> ai_packet_id a = Some i \<and> ai_reason_codes a = [c] \<and>
        (take (?n - 3) rest = [] \<and> ai_properties a = [] \<or>
         info \<and> ack_section (ai_properties a) \<and>
           take (?n - 3) rest = property_block (ai_properties a)))"
    proof -
      let ?rest = "take (?n - 3) rest"
      have "deserialize_pub_acks p info = rbind (read_packet_id ?d) (\<lambda>i.
          if ?rest = []
          then Inr \<lparr>ai_packet_id = Some i, ai_reason_codes = [c], ai_properties = []\<rparr>
          else if \<not> info then Inl Ack_BadResponse
          else rbind (decode_pub_ack_properties ?rest) (\<lambda>sec.
             Inr \<lparr>ai_packet_id = Some i, ai_reason_codes = [c], ai_properties = sec\<rparr>))"
        using longer(1) unfolding deserialize_pub_acks_def w z s3 b rbind_simps by simp
      then have "?L \<longleftrightarrow> (\<exists>i. i \<noteq> 0 \<and> be16 i = [x, y] \<and>
          (if ?rest = []
           then \<lparr>ai_packet_id = Some i, ai_reason_codes = [c], ai_properties = []\<rparr> = a
           else info \<and> (\<exists>sec. ack_section sec \<and> ?rest = property_block sec \<and>
             \<lparr>ai_packet_id = Some i, ai_reason_codes = [c], ai_properties = sec\<rparr> = a)))"
        by (simp only: rbind_eq_Inr id) (auto simp: rbind_eq_Inr decode_pub_ack_properties_ok)
      then show ?thesis by (cases a; cases "?rest = []") auto
    qed
    also have "\<dots> \<longleftrightarrow> ?R" using longer(2) unfolding t Let_def by auto
    finally show ?thesis .
  qed
qed

definition ack_code_ok :: "byte \<Rightarrow> bool" where
  "ack_code_ok c \<longleftrightarrow> c \<in> {0, 0x10, 0x80, 0x83, 0x87, 0x90, 0x91, 0x92, 0x97, 0x99}"

lemma validate_ack_reason_code_ok [simp]: "validate_ack_reason_code c = Inr () \<longleftrightarrow> ack_code_ok c"
  by (simp add: validate_ack_reason_code_def ack_code_ok_def)

lemma code_checked:
  "(case cs of [] \<Rightarrow> Inr ack | c # _ \<Rightarrow> rbind (validate_ack_reason_code c) (\<lambda>_. Inr ack)) = Inr a \<longleftrightarrow>
     ack = a \<and> (\<forall>c cs'. cs = c # cs' \<longrightarrow> ack_code_ok c)"
  by (cases cs) (auto simp: rbind_eq_Inr)

text \<open>The body of a packet: the bytes it claims, which must have arrived.\<close>

definition packet_body :: "packet_info \<Rightarrow> bytes option" where
  "packet_body p = slice (pi_remaining_data p) 0 (unat (pi_remaining_length p))"

lemma pub_ack_ok:
  assumes "pi_packet_type p \<in> {PUBACK, PUBREC, PUBREL, PUBCOMP}"
  shows "deserialize_ack p l = Inr a \<longleftrightarrow>
    al_max_packet_size l \<noteq> 0 \<and>
    total_packet_size (pi_remaining_length p) \<le> al_max_packet_size l \<and>
    (\<exists>i body. ai_packet_id a = Some i \<and> i \<noteq> 0 \<and> packet_body p = Some body \<and>
      (body = be16 i \<and> ai_reason_codes a = [] \<and> ai_properties a = [] \<or>
       (\<exists>c. ack_code_ok c \<and> ai_reason_codes a = [c] \<and>
         (body = be16 i @ [c] \<and> ai_properties a = [] \<or>
          al_request_problem_info l \<and> ack_section (ai_properties a) \<and>
            body = be16 i @ c # property_block (ai_properties a)))))"
proof -
  let ?n = "unat (pi_remaining_length p)" and ?d = "pi_remaining_data p"
  have t: "pi_packet_type p \<noteq> CONNACK" using assms by auto
  have n2: "pi_remaining_length p > 2 \<longleftrightarrow> 2 < ?n" by (simp add: word_less_nat_alt)
  have "deserialize_ack p l = Inr a \<longleftrightarrow> al_max_packet_size l \<noteq> 0 \<and>
    total_packet_size (pi_remaining_length p) \<le> al_max_packet_size l \<and>
    deserialize_pub_acks p (al_request_problem_info l) = Inr a \<and>
    (2 < ?n \<longrightarrow> (\<forall>c cs. ai_reason_codes a = c # cs \<longrightarrow> ack_code_ok c))"
    unfolding deserialize_ack_def if_not_P [OF t] if_P [OF assms] Let_def n2
    by (auto simp: rbind_eq_Inr code_checked not_less)
  also have "\<dots> \<longleftrightarrow> al_max_packet_size l \<noteq> 0 \<and>
    total_packet_size (pi_remaining_length p) \<le> al_max_packet_size l \<and>
    (\<exists>i body. ai_packet_id a = Some i \<and> i \<noteq> 0 \<and> packet_body p = Some body \<and>
      (body = be16 i \<and> ai_reason_codes a = [] \<and> ai_properties a = [] \<or>
       (\<exists>c. ack_code_ok c \<and> ai_reason_codes a = [c] \<and>
         (body = be16 i @ [c] \<and> ai_properties a = [] \<or>
          al_request_problem_info l \<and> ack_section (ai_properties a) \<and>
            body = be16 i @ c # property_block (ai_properties a)))))"
  proof -
    have "2 < ?n" if "?n \<le> length ?d" "take ?n ?d = be16 i @ c # xs" for i c xs
      using that(1) arg_cong [OF that(2), of length] by simp
    then show ?thesis
      unfolding deserialize_pub_acks_ok packet_body_def Let_def
      by (auto simp: result_simps)
  qed
  finally show ?thesis .
qed

text \<open>C33. A publish acknowledgement is accepted exactly when the packet fits the client's
  maximum, its claimed bytes are there, and they are a packet id other than zero, alone; or
  followed by one of the ten known reason codes; or followed by such a code and, if the
  client asked for problem information, a length-prefixed property section with user
  properties and at most one reason string and nothing else. The result holds the id, the
  code and the section of that layout.\<close>

theorem pub_ack_accepts_iff:
  assumes "pi_packet_type p \<in> {PUBACK, PUBREC, PUBREL, PUBCOMP}"
  shows "deserialize_ack p l = Inr a \<longleftrightarrow>
    al_max_packet_size l \<noteq> 0 \<and>
    total_packet_size (pi_remaining_length p) \<le> al_max_packet_size l \<and>
    (\<exists>i body. ai_packet_id a = Some i \<and> i \<noteq> 0 \<and> packet_body p = Some body \<and>
      (body = be16 i \<and> ai_reason_codes a = [] \<and> ai_properties a = [] \<or>
       (\<exists>c. ack_code_ok c \<and> ai_reason_codes a = [c] \<and>
         (body = be16 i @ [c] \<and> ai_properties a = [] \<or>
          al_request_problem_info l \<and> ack_section (ai_properties a) \<and>
            body = be16 i @ c # property_block (ai_properties a)))))"
  using assms by (rule pub_ack_ok)

theorem pub_ack_accepts_iff_witness:
  "deserialize_ack \<lparr>pi_packet_type = PUBACK, pi_remaining_length = 3,
      pi_remaining_data = [0, 7, 0x10, 9]\<rparr>
    \<lparr>al_max_packet_size = 100, al_request_problem_info = True\<rparr>
   = Inr \<lparr>ai_packet_id = Some 7, ai_reason_codes = [0x10], ai_properties = []\<rparr>"
proof -
  have "be16 7 = [0, 7]" by (simp add: be16_def)
  then show ?thesis
    by (subst pub_ack_accepts_iff)
      (simp_all add: packet_body_def slice_def ack_code_ok_def total_packet_size_def
        variable_length_encoded_size_def sat_add_def)
qed

lemma deserialize_sub_unsub_ack_ok:
  "deserialize_sub_unsub_ack p = Inr a \<longleftrightarrow> 4 \<le> pi_remaining_length p \<and>
    (\<exists>i. ai_packet_id a = Some i \<and> i \<noteq> 0 \<and> ack_section (ai_properties a) \<and>
      set (ai_reason_codes a)
        \<subseteq> {0, 1, 2, 0x80, 0x83, 0x87, 0x8F, 0x91, 0x97, 0x9E, 0xA1, 0xA2} \<and>
      packet_body p = Some (be16 i @ property_block (ai_properties a) @ ai_reason_codes a))"
proof -
  let ?n = "unat (pi_remaining_length p)" and ?d = "pi_remaining_data p"
  have n4: "pi_remaining_length p < 4 \<longleftrightarrow> ?n < 4" "4 \<le> pi_remaining_length p \<longleftrightarrow> 4 \<le> ?n"
    by (simp_all add: word_less_nat_alt word_le_nat_alt)
  have "deserialize_sub_unsub_ack p = Inr a \<longleftrightarrow> 4 \<le> ?n \<and> 2 \<le> ?n \<and> ?n \<le> length ?d \<and>
    (\<exists>i. ai_packet_id a = Some i \<and> i \<noteq> 0 \<and> take 2 ?d = be16 i \<and>
      ack_section (ai_properties a) \<and>
      take (?n - 2) (drop 2 ?d) = property_block (ai_properties a) @ ai_reason_codes a \<and>
      read_suback_status (ai_reason_codes a) = Inr ())"
  proof (cases "4 \<le> ?n \<and> ?n \<le> length ?d")
    case False
    then show ?thesis
      by (auto simp: deserialize_sub_unsub_ack_def n4 result_simps unat_sat_sub)
  next
    case True
    let ?after = "take (?n - 2) (drop 2 ?d)"
    have b: "bounded ?d 2 (sat_sub (pi_remaining_length p) 2) = Inr ?after"
      using True by (simp add: bounded_def slice_def unat_sat_sub) linarith
    have "length ?after \<le> ?n" by simp
    then have la: "length ?after < 4294967296"
      using unat_lt32 [of "pi_remaining_length p"] by linarith
    have id: "read_packet_id ?d = Inr i \<longleftrightarrow> i \<noteq> 0 \<and> take 2 ?d = be16 i" for i
      using take_prefix_iff [of 2 ?d "be16 i"] True
      by (auto simp: read_packet_id_ok)
    have split: "?after = property_block sec @ codes \<longleftrightarrow>
        (\<exists>rest. ?after = property_block sec @ rest) \<and>
        length (property_block sec) \<le> length ?after \<and>
        codes = drop (length (property_block sec)) ?after" for sec codes
      by (metis append_eq_conv_conj length_append le_add1)
    have "deserialize_sub_unsub_ack p = rbind (read_packet_id ?d) (\<lambda>i.
        rbind (deserialize_sub_unsub_ack_properties ?after) (\<lambda>(sec, k).
          rbind (ok_or Ack_BadResponse (slice_from ?after k)) (\<lambda>codes.
            rbind (read_suback_status codes) (\<lambda>_.
              Inr \<lparr>ai_packet_id = Some i, ai_reason_codes = codes, ai_properties = sec\<rparr>))))"
      using True unfolding deserialize_sub_unsub_ack_def b rbind_simps n4 by simp
    then have "deserialize_sub_unsub_ack p = Inr a \<longleftrightarrow> (\<exists>i. i \<noteq> 0 \<and> take 2 ?d = be16 i \<and>
        (\<exists>sec. ack_section sec \<and> (\<exists>rest. ?after = property_block sec @ rest) \<and>
          (\<exists>codes. length (property_block sec) \<le> length ?after \<and>
             codes = drop (length (property_block sec)) ?after \<and>
             read_suback_status codes = Inr () \<and>
             \<lparr>ai_packet_id = Some i, ai_reason_codes = codes, ai_properties = sec\<rparr> = a)))"
      by (simp only: rbind_eq_Inr id ok_or_eq_Inr slice_from_eq_Some split_paired_Ex prod.case
          deserialize_sub_unsub_ack_properties_ok [OF la] sum.inject simp_thms ex_simps
          conj_assoc ex_unit)
    also have "\<dots> \<longleftrightarrow> (\<exists>i. ai_packet_id a = Some i \<and> i \<noteq> 0 \<and> take 2 ?d = be16 i \<and>
      ack_section (ai_properties a) \<and> ?after = property_block (ai_properties a) @ ai_reason_codes a \<and>
      read_suback_status (ai_reason_codes a) = Inr ())"
      unfolding split [of "ai_properties a" "ai_reason_codes a"]
      by (cases a) (simp del: drop_drop length_take length_drop, blast)
    finally show ?thesis using True by simp
  qed
  also have "\<dots> \<longleftrightarrow> 4 \<le> pi_remaining_length p \<and>
    (\<exists>i. ai_packet_id a = Some i \<and> i \<noteq> 0 \<and> ack_section (ai_properties a) \<and>
      read_suback_status (ai_reason_codes a) = Inr () \<and>
      packet_body p = Some (be16 i @ property_block (ai_properties a) @ ai_reason_codes a))"
  proof -
    have "be16 i @ xs = take ?n ?d \<longleftrightarrow> take 2 ?d = be16 i \<and> take (?n - 2) (drop 2 ?d) = xs"
      if "4 \<le> ?n" "?n \<le> length ?d" for i xs
    proof -
      have "2 + (?n - 2) = ?n" using that by simp
      then have "take ?n ?d = take 2 ?d @ take (?n - 2) (drop 2 ?d)"
        using take_add [of 2 "?n - 2" ?d] by simp
      then show ?thesis using that by auto
    qed
    then show ?thesis unfolding n4 packet_body_def by (auto simp: slice_eq_Some)
  qed
  finally show ?thesis unfolding read_suback_status_ok by blast
qed

text \<open>C34. A SUBACK or UNSUBACK is accepted exactly when it fits, its claimed bytes are there,
  at least four, and they are a packet id other than zero, a length-prefixed section of user
  properties with at most one reason string, and reason codes that are all in the SUBACK
  table, for either packet. So 0x11, which the protocol allows in an UNSUBACK, is refused,
  and the granted QoS values 0, 1, 2 are accepted there.\<close>

theorem sub_ack_accepts_iff:
  assumes "pi_packet_type p \<in> {SUBACK, UNSUBACK}"
  shows "deserialize_ack p l = Inr a \<longleftrightarrow>
    al_max_packet_size l \<noteq> 0 \<and>
    total_packet_size (pi_remaining_length p) \<le> al_max_packet_size l \<and>
    4 \<le> pi_remaining_length p \<and>
    (\<exists>i. ai_packet_id a = Some i \<and> i \<noteq> 0 \<and> ack_section (ai_properties a) \<and>
      set (ai_reason_codes a)
        \<subseteq> {0, 1, 2, 0x80, 0x83, 0x87, 0x8F, 0x91, 0x97, 0x9E, 0xA1, 0xA2} \<and>
      packet_body p = Some (be16 i @ property_block (ai_properties a) @ ai_reason_codes a))"
proof -
  have t: "pi_packet_type p \<noteq> CONNACK" "pi_packet_type p \<notin> {PUBACK, PUBREC, PUBREL, PUBCOMP}"
    using assms by auto
  have "deserialize_ack p l = Inr a \<longleftrightarrow> al_max_packet_size l \<noteq> 0 \<and>
    total_packet_size (pi_remaining_length p) \<le> al_max_packet_size l \<and>
    deserialize_sub_unsub_ack p = Inr a"
    unfolding deserialize_ack_def if_not_P [OF t(1)] if_not_P [OF t(2)] if_P [OF assms] Let_def
    by (auto simp: not_less)
  then show ?thesis unfolding deserialize_sub_unsub_ack_ok by blast
qed

theorem sub_ack_accepts_iff_witness:
  "deserialize_ack \<lparr>pi_packet_type = SUBACK, pi_remaining_length = 5,
      pi_remaining_data = [0, 7, 0, 1, 0x87]\<rparr>
    \<lparr>al_max_packet_size = 100, al_request_problem_info = True\<rparr>
   = Inr \<lparr>ai_packet_id = Some 7, ai_reason_codes = [1, 0x87], ai_properties = []\<rparr>"
proof -
  have "be16 7 = [0, 7]" "property_block [] = [0]"
    by (simp_all add: be16_def property_block_def vl_encode_small)
  then show ?thesis
    by (subst sub_ack_accepts_iff)
      (simp_all add: packet_body_def slice_def total_packet_size_def
        variable_length_encoded_size_def sat_add_def)
qed

end
