(* ===== verification/Topic.thy ===== *)
theory Topic
  imports Ack
begin

text \<open>
  Topic matching and the reason codes of list acknowledgements
  (src/crates/rusty_rtos_mqtt-core/src/topic.rs). The matcher walks two byte strings with two
  indices; the lemmas turn it first into a recursion over the two remaining strings
  (\<open>match_rest\<close>) and then into one over their levels (\<open>match_levels\<close>), and compare that with
  the rules of MQTT (\<open>mqtt_match\<close>).
\<close>

abbreviation (input) SLASH :: byte where "SLASH \<equiv> 0x2F"
abbreviation (input) PLUS :: byte where "PLUS \<equiv> 0x2B"
abbreviation (input) HASH :: byte where "HASH \<equiv> 0x23"
abbreviation (input) DOLLAR :: byte where "DOLLAR \<equiv> 0x24"

datatype topic_error = Topic_BadParameter

section \<open>The matcher\<close>

definition match_end_wildcards :: "bytes \<Rightarrow> nat \<Rightarrow> bool" where
  "match_end_wildcards filt at =
     (let len = length filt;
          found = (len \<ge> 3 \<and> at = len - 3 \<and> get_at filt (at + 1) = Some SLASH \<and>
                   get_at filt (at + 2) = Some HASH)
      in if at = len - 2 \<and> get_at filt at = Some SLASH
         then get_at filt (at + 1) = Some PLUS \<or> get_at filt (at + 1) = Some HASH
         else found)"

text \<open>The inner loop of \<open>match_wildcards\<close>: whether a separator was found, and where.\<close>

function level_end :: "bytes \<Rightarrow> nat \<Rightarrow> bool \<times> nat" where
  "level_end topic name =
     (if name < length topic then
        if get_at topic name = Some SLASH then (True, name) else level_end topic (name + 1)
      else (False, name))"
  by pat_completeness auto
termination
  by (relation "measure (\<lambda>(topic, name). length topic - name)") auto

declare level_end.simps [simp del]

record match_step =
  ms_stop :: bool
  ms_matched :: bool
  ms_name_index :: nat
  ms_filter_index :: nat

definition match_wildcards :: "bytes \<Rightarrow> bytes \<Rightarrow> nat \<Rightarrow> nat \<Rightarrow> match_step" where
  "match_wildcards topic filt name_index filter_index =
     (let valid_here = (filter_index = 0 \<or> get_at filt (filter_index - 1) = Some SLASH);
          here = get_at filt filter_index
      in if here = Some PLUS \<and> valid_here then
           (let (next_level_in_topic, name) = level_end topic name_index;
                next_level_in_filter = (filter_index < length filt - 1 \<and>
                  get_at filt (filter_index + 1) = Some SLASH)
            in if next_level_in_topic \<and> \<not> next_level_in_filter
               then \<lparr>ms_stop = True, ms_matched = False, ms_name_index = name,
                     ms_filter_index = filter_index\<rparr>
               else if next_level_in_topic
               then \<lparr>ms_stop = False, ms_matched = False, ms_name_index = name,
                     ms_filter_index = filter_index + 1\<rparr>
               else \<lparr>ms_stop = False, ms_matched = False, ms_name_index = name - 1,
                     ms_filter_index = filter_index\<rparr>)
         else if here = Some HASH \<and> filter_index = length filt - 1 \<and> valid_here
         then \<lparr>ms_stop = True, ms_matched = True, ms_name_index = name_index,
               ms_filter_index = filter_index\<rparr>
         else \<lparr>ms_stop = True, ms_matched = False, ms_name_index = name_index,
               ms_filter_index = filter_index\<rparr>)"

lemma match_wildcards_filter_index:
  "filter_index \<le> ms_filter_index (match_wildcards topic filt name_index filter_index)"
  by (simp add: match_wildcards_def Let_def split: prod.split)

function match_loop :: "bytes \<Rightarrow> bytes \<Rightarrow> nat \<Rightarrow> nat \<Rightarrow> bool \<times> nat \<times> nat" where
  "match_loop topic filt name_index filter_index =
     (if name_index < length topic \<and> filter_index < length filt then
        if get_at topic name_index = get_at filt filter_index then
          let matched = (if name_index = length topic - 1
                         then match_end_wildcards filt filter_index else False)
          in if matched then (True, name_index, filter_index)
             else match_loop topic filt (name_index + 1) (filter_index + 1)
        else
          let step = match_wildcards topic filt name_index filter_index
          in if ms_matched step \<or> ms_stop step
             then (ms_matched step, ms_name_index step, ms_filter_index step)
             else match_loop topic filt (ms_name_index step + 1) (ms_filter_index step + 1)
      else (False, name_index, filter_index))"
  by pat_completeness auto
termination
  by (relation "measure (\<lambda>(topic, filt, n, f). length filt - f)")
    (auto simp: less_Suc_eq_le intro!: diff_less_mono2 match_wildcards_filter_index)

declare match_loop.simps [simp del]

definition match_filter :: "bytes \<Rightarrow> bytes \<Rightarrow> bool" where
  "match_filter topic filt =
     (case match_loop topic filt 0 0 of (matched, name_index, filter_index) \<Rightarrow>
        matched \<or> (name_index = length topic \<and> filter_index = length filt))"

definition topic_matches :: "bytes \<Rightarrow> bytes \<Rightarrow> topic_error + bool" where
  "topic_matches topic filt =
     (if topic = [] \<or> filt = [] then Inl Topic_BadParameter
      else if try_u16 (length topic) = None \<or> try_u16 (length filt) = None
      then Inl Topic_BadParameter
      else if length topic = length filt \<and> topic = filt then Inr True
      else let filter_starts_with_wildcard =
                 (get_at filt 0 = Some PLUS \<or> get_at filt 0 = Some HASH)
      in if get_at topic 0 = Some DOLLAR \<and> filter_starts_with_wildcard then Inr False
         else Inr (match_filter topic filt))"

section \<open>The reason codes of a list acknowledgement\<close>

definition status_codes :: "packet_info \<Rightarrow> byte \<Rightarrow> ack_error + bytes" where
  "status_codes packet expected =
     (if pi_packet_type packet \<noteq> expected then Inl Ack_BadParameter
      else if pi_remaining_length packet < 4 \<or>
              pi_remaining_length packet \<ge> REMAINING_LENGTH_INVALID then Inl Ack_BadParameter
      else rbind (ok_or Ack_BadParameter (slice_from (pi_remaining_data packet) 2)) (\<lambda>after_id.
        rbind (map_err (\<lambda>_. Ack_BadResponse) (decode_variable_length after_id)) (\<lambda>val.
          let width = unat (variable_length_encoded_size val);
              skip = width + unat val
          in ok_or Ack_BadResponse (slice_from after_id skip))))"

definition suback_status_codes :: "packet_info \<Rightarrow> ack_error + bytes" where
  "suback_status_codes packet = status_codes packet SUBACK"

definition unsuback_status_codes :: "packet_info \<Rightarrow> ack_error + bytes" where
  "unsuback_status_codes packet = status_codes packet UNSUBACK"

definition packet_type_name :: "byte \<Rightarrow> string" where
  "packet_type_name t =
     (if t AND 0xF0 = PUBLISH then ''PUBLISH''
      else if t = CONNECT then ''CONNECT'' else if t = CONNACK then ''CONNACK''
      else if t = PUBACK then ''PUBACK'' else if t = PUBREC then ''PUBREC''
      else if t = PUBREL then ''PUBREL'' else if t = PUBCOMP then ''PUBCOMP''
      else if t = SUBSCRIBE then ''SUBSCRIBE'' else if t = SUBACK then ''SUBACK''
      else if t = UNSUBSCRIBE then ''UNSUBSCRIBE'' else if t = UNSUBACK then ''UNSUBACK''
      else if t = PINGREQ_TYPE then ''PINGREQ'' else if t = PINGRESP then ''PINGRESP''
      else if t = DISCONNECT then ''DISCONNECT'' else if t = AUTH then ''AUTH''
      else ''UNKNOWN'')"

definition status_name :: "byte \<Rightarrow> string" where
  "status_name code =
     (if code = 0 then ''MQTTSuccess'' else if code = 1 then ''MQTTBadParameter''
      else if code = 2 then ''MQTTNoMemory'' else if code = 3 then ''MQTTSendFailed''
      else if code = 4 then ''MQTTRecvFailed'' else if code = 5 then ''MQTTBadResponse''
      else if code = 6 then ''MQTTServerRefused'' else if code = 7 then ''MQTTNoDataAvailable''
      else if code = 8 then ''MQTTIllegalState'' else if code = 9 then ''MQTTStateCollision''
      else if code = 10 then ''MQTTKeepAliveTimeout'' else if code = 11 then ''MQTTNeedMoreBytes''
      else if code = 13 then ''MQTTStatusConnected'' else if code = 14 then ''MQTTStatusNotConnected''
      else if code = 15 then ''MQTTStatusDisconnectPending''
      else if code = 16 then ''MQTTPublishStoreFailed''
      else if code = 17 then ''MQTTPublishRetrieveFailed''
      else ''Invalid MQTT Status code'')"

section \<open>The matcher on the rest of the two strings\<close>

text \<open>The topic from a position on, without its first level: the rest behind the separator,
  if there is one.\<close>

fun after_level :: "bytes \<Rightarrow> bytes option" where
  "after_level [] = None"
| "after_level (c # cs) = (if c = SLASH then Some cs else after_level cs)"

lemma after_level_length: "after_level cs = Some ds \<Longrightarrow> length ds < length cs"
  by (induction cs) (auto split: if_splits)

fun end_wild :: "bytes \<Rightarrow> bool" where
  "end_wild [] = False"
| "end_wild (f # fs) \<longleftrightarrow> fs = [SLASH, HASH] \<or> f = SLASH \<and> (fs = [PLUS] \<or> fs = [HASH])"

function match_rest :: "bool \<Rightarrow> bytes \<Rightarrow> bytes \<Rightarrow> bool" where
  "match_rest v fs [] = (fs = [])"
| "match_rest v [] (t # ts) = False"
| "match_rest v (f # fs) (t # ts) =
     (if t = f then
        (if ts = [] then end_wild (f # fs) \<or> fs = [] else match_rest (f = SLASH) fs ts)
      else if f = PLUS \<and> v then
        (case after_level (t # ts) of
           None \<Rightarrow> fs = []
         | Some ts' \<Rightarrow> (case fs of
               g # fs' \<Rightarrow> g = SLASH \<and> match_rest True fs' ts' | [] \<Rightarrow> False))
      else f = HASH \<and> fs = [] \<and> v)"
  by pat_completeness auto
termination
  by (relation "measure (\<lambda>(v, fs, ts). length fs)") auto

declare match_rest.simps(3) [simp del]

lemma level_end_spec:
  "level_end topic n = (case after_level (drop n topic) of
     None \<Rightarrow> (False, max n (length topic))
   | Some ts \<Rightarrow> (True, length topic - length ts - 1))"
proof (induction topic n rule: level_end.induct)
  case (1 topic n)
  show ?case
  proof (cases "n < length topic")
    case True
    then have d: "drop n topic = topic ! n # drop (Suc n) topic" by (simp add: Cons_nth_drop_Suc)
    then show ?thesis
      using 1 True by (subst level_end.simps) (auto simp: get_at_def max_def split: option.split)
  qed (simp add: level_end.simps)
qed

lemma after_level_suffix: "after_level cs = Some ds \<Longrightarrow> drop (length cs - length ds) cs = ds"
  by (induction cs) (auto split: if_splits dest: after_level_length simp: Suc_diff_le)

lemma match_end_wildcards_rest:
  "k < length filt \<Longrightarrow> match_end_wildcards filt k = end_wild (drop k filt)"
proof -
  assume k: "k < length filt"
  then obtain f fs where d: "drop k filt = f # fs" by (metis Cons_nth_drop_Suc)
  have l: "length filt = Suc (k + length fs)"
    using arg_cong [OF d, of length] k by simp
  have g: "get_at filt (k + j) = get_at (f # fs) j" for j
    using k by (auto simp: get_at_def d [symmetric] nth_drop l)
  have g0: "get_at filt k = Some f" using g [of 0] by simp
  have g1: "get_at filt (k + 1) = get_at fs 0" using g [of 1] by simp
  have g2: "get_at filt (k + 2) = get_at fs 1" using g [of 2] by (simp add: numeral_2_eq_2)
  have at3: "length filt \<ge> 3 \<and> k = length filt - 3 \<longleftrightarrow> length fs = 2" using l by auto
  have at2: "k = length filt - 2 \<longleftrightarrow> length fs = 1 \<or> k = 0 \<and> fs = []"
    using l by (cases fs) auto
  show ?thesis
    unfolding match_end_wildcards_def Let_def g0 g1 g2 at2 d
    using at3 by (cases fs; cases "tl fs"; cases "tl (tl fs)") auto
qed

lemma match_loop_rest:
  "n \<le> length topic \<Longrightarrow> k \<le> length filt \<Longrightarrow>
   (case match_loop topic filt n k of (m, a, b) \<Rightarrow> m \<or> (a = length topic \<and> b = length filt)) =
     match_rest (k = 0 \<or> get_at filt (k - 1) = Some SLASH) (drop k filt) (drop n topic)"
proof (induction topic filt n k rule: match_loop.induct)
  case (1 topic filt n k)
  show ?case
  proof (cases "n < length topic \<and> k < length filt")
    case False
    then have "match_loop topic filt n k = (False, n, k)"
      unfolding match_loop.simps [of topic filt n k] by (rule if_not_P)
    moreover have "n = length topic \<or> k = length filt \<and> n < length topic"
      using False "1.prems" by auto
    ultimately show ?thesis using "1.prems"
      by (cases "drop n topic") auto
  next
    case True
    define t ts f fs where d0: "t = topic ! n" and d1: "ts = drop (Suc n) topic"
      and d2: "f = filt ! k" and d3: "fs = drop (Suc k) filt"
    note t_def = d0 d1 d2 d3
    have dt: "drop n topic = t # ts" and df: "drop k filt = f # fs"
      using True by (simp_all add: t_def Cons_nth_drop_Suc)
    have gt: "get_at topic n = Some t" and gf: "get_at filt k = Some f"
      using True by (simp_all add: get_at_def t_def)
    have lt: "n = length topic - 1 \<longleftrightarrow> ts = []" using True by (auto simp: t_def)
    have lf: "k = length filt - 1 \<longleftrightarrow> fs = []" "k < length filt - 1 \<longleftrightarrow> fs \<noteq> []"
      using True by (auto simp: t_def)
    have gk: "get_at filt (k + 1) = get_at fs 0"
      using True by (auto simp: t_def get_at_def nth_drop split: list.split)
    let ?v = "k = 0 \<or> get_at filt (k - 1) = Some SLASH"
    have kf: "k + 1 = length filt \<longleftrightarrow> fs = []" using True by (auto simp: t_def)
    have ew: "match_end_wildcards filt k = end_wild (f # fs)"
      using True by (simp add: match_end_wildcards_rest df)
    have dS: "drop (n + 1) topic = ts" "drop (k + 1) filt = fs" by (simp_all add: t_def)
    show ?thesis
    proof (cases "t = f")
      case eq: True
      have rec: "(case match_loop topic filt (n + 1) (k + 1) of
          (m, a, b) \<Rightarrow> m \<or> (a = length topic \<and> b = length filt)) = match_rest (f = SLASH) fs ts"
        if "\<not> (if n = length topic - 1 then match_end_wildcards filt k else False)"
        using "1.IH"(1) [OF True _ refl that] True eq gt gf dS by simp
      show ?thesis
      proof (cases "ts = [] \<and> end_wild (f # fs)")
        case matched: True
        then have "match_loop topic filt n k = (True, n, k)"
          using True eq gt gf lt ew by (subst match_loop.simps) simp
        then show ?thesis using matched eq by (simp add: dt df match_rest.simps(3))
      next
        case False
        then have c: "\<not> (if n = length topic - 1 then match_end_wildcards filt k else False)"
          using lt ew by auto
        then have "match_loop topic filt n k = match_loop topic filt (n + 1) (k + 1)"
          using True eq gt gf by (subst match_loop.simps) (simp add: Let_def)
        then show ?thesis
          using rec [OF c] False eq by (auto simp: dt df match_rest.simps(3))
      qed
    next
      case ne: False
      then have ng: "get_at topic n \<noteq> get_at filt k" by (simp add: gt gf)
      let ?step = "match_wildcards topic filt n k"
      show ?thesis
      proof (cases "f = PLUS \<and> ?v")
        case False
        then have st: "?step = (if f = HASH \<and> fs = [] \<and> ?v
            then \<lparr>ms_stop = True, ms_matched = True, ms_name_index = n, ms_filter_index = k\<rparr>
            else \<lparr>ms_stop = True, ms_matched = False, ms_name_index = n, ms_filter_index = k\<rparr>)"
          using lf(1) unfolding match_wildcards_def gf Let_def by auto
        have "match_loop topic filt n k = (f = HASH \<and> fs = [] \<and> ?v, n, k)"
          using True ng by (subst match_loop.simps) (simp add: st)
        then show ?thesis using False ne True by (auto simp: dt df match_rest.simps(3))
      next
        case plus: True
        show ?thesis
        proof (cases "after_level (t # ts)")
          case None
          then have le: "level_end topic n = (False, length topic)"
            using True level_end_spec [of topic n] dt by simp
          then have st: "?step = \<lparr>ms_stop = False, ms_matched = False,
              ms_name_index = length topic - 1, ms_filter_index = k\<rparr>"
            using plus unfolding match_wildcards_def gf Let_def by auto
          have "match_loop topic filt n k = match_loop topic filt (length topic) (k + 1)"
          proof -
            have "Suc (length topic - Suc 0) = length topic" using True by (cases topic) auto
            then show ?thesis using True ng by (subst match_loop.simps) (simp add: st)
          qed
          also have "\<dots> = (False, length topic, k + 1)" by (simp add: match_loop.simps)
          finally show ?thesis
            using None plus ne kf by (auto simp: dt df match_rest.simps(3))
        next
          case (Some ts')
          let ?m = "length topic - length ts' - 1"
          have ml: "length ts' < length topic" using after_level_length [OF Some] True
            by (auto simp: t_def)
          have le: "level_end topic n = (True, ?m)"
            using level_end_spec [of topic n] dt Some by simp
          have dm: "drop (?m + 1) topic = ts'"
          proof -
            have "drop (length (t # ts) - length ts') (drop n topic) = ts'"
              using after_level_suffix [OF Some] dt by simp
            moreover have "length (t # ts) - length ts' + n = ?m + 1"
              using after_level_length [OF Some] True ml unfolding t_def by (simp only: length_drop list.size) linarith
            ultimately show ?thesis by (simp add: add.commute)
          qed
          have nf: "k < length filt - 1 \<and> get_at filt (k + 1) = Some SLASH
              \<longleftrightarrow> (\<exists>fs'. fs = SLASH # fs')"
            using lf(2) gk by (cases fs) auto
          show ?thesis
          proof (cases "\<exists>fs'. fs = SLASH # fs'")
            case no: False
            then have st: "?step = \<lparr>ms_stop = True, ms_matched = False, ms_name_index = ?m,
                ms_filter_index = k\<rparr>"
              using plus le unfolding match_wildcards_def gf Let_def nf by auto
            have "match_loop topic filt n k = (False, ?m, k)"
              using True ng by (subst match_loop.simps) (simp add: st)
            then show ?thesis using no plus ne True Some
              by (auto simp: dt df match_rest.simps(3) split: list.split)
          next
            case yes: True
            then obtain fs' where fs: "fs = SLASH # fs'" by blast
            have st: "?step = \<lparr>ms_stop = False, ms_matched = False, ms_name_index = ?m,
                ms_filter_index = k + 1\<rparr>"
              using plus le yes unfolding match_wildcards_def gf Let_def nf by auto
            have kl: "k + 1 < length filt" using fs kf True by auto
            have "(case match_loop topic filt (?m + 1) (k + 1 + 1) of
                (m, a, b) \<Rightarrow> m \<or> (a = length topic \<and> b = length filt))
              = match_rest (get_at filt (k + 1) = Some SLASH) (drop (k + 1 + 1) filt)
                  (drop (?m + 1) topic)"
              using "1.IH"(2) [OF True ng refl] st kl ml by simp
            moreover have "drop (k + 1 + 1) filt = fs'"
              using fs by (metis add.commute drop_drop dS(2) drop0 drop_Suc_Cons One_nat_def)
            moreover have "match_loop topic filt n k = match_loop topic filt (?m + 1) (k + 1 + 1)"
              using True ng by (subst match_loop.simps) (simp add: st)
            ultimately show ?thesis
              using plus ne Some fs gk dm by (simp add: dt df match_rest.simps(3))
          qed
        qed
      qed
    qed
  qed
qed

lemma match_filter_rest: "match_filter topic filt = match_rest True filt topic"
  using match_loop_rest [of 0 topic 0 filt] by (simp add: match_filter_def)

section \<open>The matcher on levels\<close>

fun levels :: "bytes \<Rightarrow> bytes list" where
  "levels [] = [[]]"
| "levels (c # cs) = (if c = SLASH then [] # levels cs
     else (c # hd (levels cs)) # tl (levels cs))"

lemma levels_not_Nil [simp]: "levels cs \<noteq> []"
  by (cases cs) auto

lemma hd_tl_levels: "hd (levels cs) # tl (levels cs) = levels cs"
  by simp

lemma levels_eq_Nil_level: "levels cs = [[]] \<longleftrightarrow> cs = []"
  by (cases cs) auto

lemma levels_single: "levels cs = [[c]] \<longleftrightarrow> cs = [c] \<and> c \<noteq> SLASH"
  by (cases cs; cases "tl cs") (auto simp: levels_eq_Nil_level)

lemma single_empty: "hd (levels cs) = [] \<Longrightarrow> tl (levels cs) = [] \<Longrightarrow> cs = []"
  by (cases cs) (auto split: if_splits)

lemma tl_levels: "tl (levels cs) = (case after_level cs of None \<Rightarrow> [] | Some ds \<Rightarrow> levels ds)"
  by (induction cs) auto

lemma hd_levels_Nil: "hd (levels cs) = [] \<longleftrightarrow> cs = [] \<or> (\<exists>ds. cs = SLASH # ds)"
  by (cases cs) auto

text \<open>How the matcher treats the levels: \<open>jumped\<close> says that the level before was passed by a
  \<open>+\<close>, in which case the rules for the end of the topic do not apply any more.\<close>

fun match_levels :: "bool \<Rightarrow> bytes list \<Rightarrow> bytes list \<Rightarrow> bool" where
  "match_levels jumped [] ts = (ts = [])"
| "match_levels jumped (f # fs) [] = (\<not> jumped \<and> f = [HASH] \<and> fs = [])"
| "match_levels jumped (f # fs) (t # ts) =
     (if t = [] \<and> ts = [] then
        (if jumped then f = [] \<and> fs = []
         else f = [PLUS] \<and> fs = [] \<or> f = [HASH] \<and> fs = [] \<or> f = [] \<and> fs \<in> {[], [[HASH]]})
      else if f = [PLUS] then match_levels True fs ts
      else if f = [HASH] \<and> fs = [] then True
      else f = t \<and> match_levels False fs ts)"

definition no_wildcards :: "bytes \<Rightarrow> bool" where
  "no_wildcards topic \<longleftrightarrow> PLUS \<notin> set topic \<and> HASH \<notin> set topic"

text \<open>Inside a level the two strings go on together; \<open>rest_levels\<close> is what is left to match
  when the current level has been compared so far.\<close>

definition rest_levels :: "bytes \<Rightarrow> bytes \<Rightarrow> bool" where
  "rest_levels fs ts \<longleftrightarrow> hd (levels fs) = hd (levels ts) \<and>
     match_levels False (tl (levels fs)) (tl (levels ts))"

lemma levels_slash_hash: "levels cs = [[], [HASH]] \<longleftrightarrow> cs = [SLASH, HASH]"
  by (cases cs) (auto simp: levels_single)

lemma match_levels_end:
  "match_levels False (levels fs) [[]] \<longleftrightarrow> fs \<in> {[], [PLUS], [HASH], [SLASH, HASH]}"
proof -
  have "match_levels False (levels fs) [[]] \<longleftrightarrow>
      levels fs \<in> {[[]], [[PLUS]], [[HASH]], [[], [HASH]]}"
    by (cases "levels fs") auto
  then show ?thesis by (simp add: levels_eq_Nil_level levels_single levels_slash_hash)
qed

lemma match_levels_no_topic: "match_levels False fs [] \<longleftrightarrow> fs = [] \<or> fs = [[HASH]]"
  by (cases fs) auto

lemma rest_levels_end: "rest_levels fs [] \<longleftrightarrow> fs = [] \<or> fs = [SLASH, HASH]"
  by (cases fs) (auto simp: rest_levels_def match_levels_no_topic levels_single)

lemma match_levels_nonempty:
  "ts \<noteq> [] \<Longrightarrow> match_levels j (f # fs) (levels ts) =
     (if f = [PLUS] then match_levels True fs (tl (levels ts))
      else if f = [HASH] \<and> fs = [] then True
      else f = hd (levels ts) \<and> match_levels False fs (tl (levels ts)))"
  using levels_eq_Nil_level [of ts] by (cases "levels ts") auto

lemma set_hd_levels: "set (hd (levels ts)) \<subseteq> set ts"
  by (induction ts) auto

lemma no_wildcards_after: "no_wildcards ts \<Longrightarrow> after_level ts = Some ts' \<Longrightarrow> no_wildcards ts'"
  by (induction ts) (auto simp: no_wildcards_def split: if_splits)

lemma match_rest_levels:
  "no_wildcards ts \<Longrightarrow> ts \<noteq> [] \<Longrightarrow>
   match_rest True fs ts = match_levels j (levels fs) (levels ts) \<and>
   match_rest False fs ts = rest_levels fs ts"
proof (induction fs arbitrary: ts j rule: length_induct)
  case (1 fs)
  obtain t ts' where ts: "ts = t # ts'" using "1.prems"(2) by (cases ts) auto
  have tw: "t \<noteq> PLUS" "t \<noteq> HASH" and nw: "no_wildcards ts'"
    using "1.prems"(1) by (auto simp: ts no_wildcards_def)
  have nolev: "hd (levels ts) \<noteq> x" if "PLUS \<in> set x \<or> HASH \<in> set x" for x
    using "1.prems"(1) that set_hd_levels [of ts] by (auto simp: no_wildcards_def)
  show ?case
  proof (cases fs)
    case Nil
    then show ?thesis
      using levels_eq_Nil_level [of ts] levels_not_Nil [of ts] "1.prems"(2) ts
      by (cases "levels ts") (auto simp: rest_levels_def simp del: levels.simps(2) levels_not_Nil)
  next
    case (Cons f fs')
    have IH: "match_rest True gs us = match_levels k (levels gs) (levels us)"
      "match_rest False gs us = rest_levels gs us"
      if "length gs < length fs" "no_wildcards us" "us \<noteq> []" for gs us k
      using "1.IH" that by blast+
    show ?thesis
    proof (cases "t = f")
      case True
      have r1: "match_levels j (levels fs) (levels ts) =
          (if f = SLASH then match_levels False (levels fs') (levels ts') else rest_levels fs' ts')"
        using tw True by (auto simp: Cons match_levels_nonempty ts rest_levels_def)
      have r2: "rest_levels fs ts =
          (if f = SLASH then match_levels False (levels fs') (levels ts') else rest_levels fs' ts')"
        using True by (auto simp: Cons ts rest_levels_def)
      have l: "match_rest v fs ts = (if f = SLASH then match_levels False (levels fs') (levels ts')
          else rest_levels fs' ts')" for v
      proof (cases "ts' = []")
        case e: True
        then show ?thesis
          using True match_levels_end [of fs'] rest_levels_end [of fs'] tw
          by (auto simp: Cons ts match_rest.simps(3))
      next
        case False
        then show ?thesis
          using IH(1) [of fs' ts' False] IH(2) [of fs' ts'] nw True by (auto simp: Cons ts match_rest.simps(3))
      qed
      show ?thesis using r1 r2 l by simp
    next
      case ne: False
      have r2: "\<not> rest_levels fs ts" using ne by (auto simp: Cons ts rest_levels_def)
      have l2: "\<not> match_rest False fs ts" using ne by (simp add: Cons ts match_rest.simps(3))
      have "match_rest True fs ts = match_levels j (levels fs) (levels ts)"
      proof (cases "f = PLUS \<and> hd (levels fs') = []")
        case plus: True
        then have lf: "levels fs = [PLUS] # tl (levels fs')" by (simp add: Cons)
        have "match_levels j (levels fs) (levels ts)
            = match_levels True (tl (levels fs')) (tl (levels ts))"
          by (simp add: lf match_levels_nonempty ts)
        also have "\<dots> = match_rest True fs ts"
        proof (cases "after_level ts")
          case None
          then show ?thesis
            using ne plus by (cases "tl (levels fs')")
              (auto simp: Cons ts match_rest.simps(3) tl_levels hd_levels_Nil split: option.splits if_splits)
        next
          case (Some us)
          have us: "tl (levels ts) = levels us" by (simp add: tl_levels Some)
          have nwu: "no_wildcards us" using no_wildcards_after "1.prems"(1) Some by blast
          consider "fs' = []" | gs where "fs' = SLASH # gs" using plus by (auto simp: hd_levels_Nil)
          then show ?thesis
          proof cases
            case 1
            then show ?thesis
              using ne plus Some unfolding us by (simp add: Cons ts match_rest.simps(3))
          next
            case 2
            have "match_rest True fs ts = match_rest True gs us"
              using ne plus Some by (simp add: Cons 2 ts match_rest.simps(3))
            moreover have "match_rest True gs us = match_levels True (levels gs) (levels us)"
            proof (cases "us = []")
              case True
              then show ?thesis
                using levels_eq_Nil_level [of gs] by (cases "levels gs") auto
            next
              case False
              then show ?thesis using IH(1) [of gs us True] nwu by (simp add: Cons 2)
            qed
            ultimately show ?thesis unfolding us by (simp add: 2)
          qed
        qed
        finally show ?thesis ..
      next
        case nplus: False
        show ?thesis
        proof (cases "f = PLUS")
          case True
          then have x: "hd (levels fs') \<noteq> []" using nplus by simp
          then have "\<not> match_levels j (levels fs) (levels ts)"
            using True nolev [of "f # hd (levels fs')"]
            by (auto simp: Cons match_levels_nonempty ts)
          moreover have "\<not> match_rest True fs ts"
            using ne True x by (auto simp: Cons ts match_rest.simps(3) split: option.split list.split)
          ultimately show ?thesis by simp
        next
          case False
          show ?thesis
          proof (cases "f = HASH")
            case True
            then show ?thesis
              using ne nolev [of "f # hd (levels fs')"] single_empty [of fs']
              by (auto simp: Cons match_levels_nonempty ts match_rest.simps(3))
          next
            case lit: False
            have "\<not> match_levels j (levels fs) (levels ts)"
              using ne False lit by (auto simp: Cons match_levels_nonempty ts)
            then show ?thesis using ne False lit by (simp add: Cons ts match_rest.simps(3))
          qed
        qed
      qed
      with r2 l2 show ?thesis by simp
    qed
  qed
qed

section \<open>The matcher against the rules of MQTT\<close>

text \<open>MQTT 5.0, 4.7.1: \<open>#\<close> as the last level stands for its parent and everything below,
  \<open>+\<close> for exactly one level, every other level for itself.\<close>

fun mqtt_match :: "bytes list \<Rightarrow> bytes list \<Rightarrow> bool" where
  "mqtt_match [] ts = (ts = [])"
| "mqtt_match (f # fs) ts =
     (if f = [HASH] \<and> fs = [] then True
      else case ts of [] \<Rightarrow> False | t # ts' \<Rightarrow> (f = [PLUS] \<or> f = t) \<and> mqtt_match fs ts')"

text \<open>The topics a filter covers by the rules and the matcher misses: a \<open>+\<close> took the last
  level and the filter goes on with \<open>/#\<close>; or a \<open>+\<close> took the level before a last empty one,
  for which the filter has a \<open>+\<close>, a \<open>#\<close>, or an empty level and a \<open>#\<close>.\<close>

definition missed_here :: "bytes list \<Rightarrow> bytes list \<Rightarrow> bool" where
  "missed_here fs ts \<longleftrightarrow> fs = [[HASH]] \<and> ts = [] \<or>
     fs \<in> {[[PLUS]], [[HASH]], [[], [HASH]]} \<and> ts = [[]]"

fun missed :: "bytes list \<Rightarrow> bytes list \<Rightarrow> bool" where
  "missed (f # fs) (t # ts) \<longleftrightarrow> f = [PLUS] \<and> missed_here fs ts \<or> missed fs ts"
| "missed _ _ = False"

lemma match_levels_mqtt:
  "match_levels jumped fs ts \<longleftrightarrow>
     mqtt_match fs ts \<and> \<not> missed fs ts \<and> \<not> (jumped \<and> missed_here fs ts)"
proof (induction jumped fs ts rule: match_levels.induct)
  case (3 jumped f fs t ts)
  show ?case
  proof (cases "t = [] \<and> ts = []")
    case True
    then show ?thesis
      by (cases fs; cases "tl fs") (auto simp: missed_here_def)
  next
    case False
    then show ?thesis using 3 by (auto simp: missed_here_def)
  qed
qed (auto simp: missed_here_def)

text \<open>C19. Topic matching against the rules of MQTT: for a topic name and a filter of legal
  length, the name without wildcard characters, the answer is true exactly when the two are
  equal, or the filter covers the name level by level, does not begin with a wildcard while
  the name begins with \<open>$\<close>, and the pair is none of the missed ones. In particular nothing
  is delivered that a filter does not cover.\<close>

theorem topic_matches_iff:
  assumes "topic \<noteq> []" "filt \<noteq> []" "length topic < 65536" "length filt < 65536"
    and "no_wildcards topic"
  shows "topic_matches topic filt = Inr (topic = filt \<or>
    mqtt_match (levels filt) (levels topic) \<and> \<not> missed (levels filt) (levels topic) \<and>
    \<not> (hd topic = DOLLAR \<and> hd filt \<in> {PLUS, HASH}))"
proof -
  have u: "try_u16 (length topic) \<noteq> None" "try_u16 (length filt) \<noteq> None"
    using assms(3,4) by (simp_all add: try_u16_def)
  have g: "get_at topic 0 = Some (hd topic)" "get_at filt 0 = Some (hd filt)"
    using assms(1,2) by (auto split: list.split)
  have "match_filter topic filt = match_levels False (levels filt) (levels topic)"
    using match_rest_levels [OF assms(5,1), of filt False] by (simp add: match_filter_rest)
  then show ?thesis
    using assms(1,2) u g by (auto simp: topic_matches_def match_levels_mqtt)
qed

theorem topic_matches_iff_witness:
  "topic_matches [115, SLASH, 120] [115, SLASH, PLUS] = Inr True"
  by (subst topic_matches_iff) (simp_all add: no_wildcards_def missed_here_def)

text \<open>The divergence is wider than a trailing \<open>+\<close>: \<open>+/#\<close> covers \<open>a\<close>, the parent level, and
  \<open>a/\<close>, and the matcher answers false for both, while \<open>a/#\<close> matches both, \<open>a/+\<close> matches
  \<open>a/\<close>, and \<open>+/+\<close> does not.\<close>

theorem plus_hash_misses:
  "topic_matches [97] [PLUS, SLASH, HASH] = Inr False \<and>
    topic_matches [97, SLASH] [PLUS, SLASH, HASH] = Inr False \<and>
    topic_matches [97, SLASH] [PLUS, SLASH, PLUS] = Inr False \<and>
    mqtt_match (levels [PLUS, SLASH, HASH]) (levels [97]) \<and>
    mqtt_match (levels [PLUS, SLASH, HASH]) (levels [97, SLASH]) \<and>
    topic_matches [97] [97, SLASH, HASH] = Inr True \<and>
    topic_matches [97, SLASH] [97, SLASH, HASH] = Inr True \<and>
    topic_matches [97, SLASH] [97, SLASH, PLUS] = Inr True"
  by (simp_all add: topic_matches_def match_filter_rest match_rest.simps(3) try_u16_def)

text \<open>The reason codes taken straight out of a list acknowledgement are those the
  deserializer returns: on a list acknowledgement that it accepts, with exactly the claimed
  bytes and a legal length, \<open>status_codes\<close> answers the same codes.\<close>

theorem status_codes_agree:
  assumes "deserialize_sub_unsub_ack p = Inr a"
    and "length (pi_remaining_data p) = unat (pi_remaining_length p)"
    and "pi_remaining_length p < REMAINING_LENGTH_INVALID"
  shows "status_codes p (pi_packet_type p) = Inr (ai_reason_codes a)"
proof -
  let ?sec = "ai_properties a"
  obtain i where b: "4 \<le> pi_remaining_length p" "ack_section ?sec"
    "packet_body p = Some (be16 i @ property_block ?sec @ ai_reason_codes a)"
    using assms(1) by (auto simp: deserialize_sub_unsub_ack_ok)
  then have d: "pi_remaining_data p = be16 i @ property_block ?sec @ ai_reason_codes a"
    using assms(2) by (simp add: packet_body_def slice_eq_Some)
  have n: "unat (word_of_nat (length ?sec) :: u32) = length ?sec"
    using b(2) by (intro unat_u32_of_nat) (simp add: ack_section_def)
  have dec: "decode_variable_length (property_block ?sec @ ai_reason_codes a)
      = Inr (word_of_nat (length ?sec))"
    using b(2) by (auto simp: decode_variable_length_ok n property_block_def ack_section_def)
  have w: "unat (variable_length_encoded_size (word_of_nat (length ?sec))) + length ?sec
      = length (property_block ?sec)"
    using b(2) n by (simp add: unat_encoded_size property_block_def ack_section_def)
  have "\<not> (pi_remaining_length p < 4 \<or> pi_remaining_length p \<ge> REMAINING_LENGTH_INVALID)"
    using b(1) assms(3) by (simp add: not_less not_le)
  then show ?thesis
    using w by (simp add: status_codes_def d slice_from_def dec n Let_def)
qed

theorem status_codes_agree_witness:
  "status_codes \<lparr>pi_packet_type = SUBACK, pi_remaining_length = 5,
      pi_remaining_data = [0, 7, 0, 1, 0x87]\<rparr> SUBACK = Inr [1, 0x87]"
proof -
  have "be16 7 = [0, 7]" "property_block [] = [0]"
    by (simp_all add: be16_def property_block_def vl_encode_small)
  then show ?thesis
    using status_codes_agree [of "\<lparr>pi_packet_type = SUBACK, pi_remaining_length = 5,
      pi_remaining_data = [0, 7, 0, 1, 0x87]\<rparr>"
      "\<lparr>ai_packet_id = Some 7, ai_reason_codes = [1, 0x87], ai_properties = []\<rparr>"]
    by (simp add: deserialize_sub_unsub_ack_ok packet_body_def slice_def)
qed

end
