(* ===== verification/Connack.thy ===== *)
theory Connack
  imports Ack
begin

text \<open>
  The CONNACK (src/crates/rusty_rtos_mqtt-core/src/connack.rs): the one packet that sets the
  limits of the connection. Its properties are read by a table of seventeen identifiers with
  a flag each against repetition; the lemmas relate that table to a list of properties.
\<close>

abbreviation (input) CONNACK_MINIMUM_SIZE :: u32 where "CONNACK_MINIMUM_SIZE \<equiv> 3"
abbreviation (input) SESSION_PRESENT_MASK :: byte where "SESSION_PRESENT_MASK \<equiv> 0x01"

text \<open>The property identifiers, \<open>mod property\<close>.\<close>

abbreviation (input) SESSION_EXPIRY :: byte where "SESSION_EXPIRY \<equiv> 0x11"
abbreviation (input) ASSIGNED_CLIENT_ID :: byte where "ASSIGNED_CLIENT_ID \<equiv> 0x12"
abbreviation (input) SERVER_KEEP_ALIVE :: byte where "SERVER_KEEP_ALIVE \<equiv> 0x13"
abbreviation (input) AUTH_METHOD :: byte where "AUTH_METHOD \<equiv> 0x15"
abbreviation (input) AUTH_DATA :: byte where "AUTH_DATA \<equiv> 0x16"
abbreviation (input) RESPONSE_INFO :: byte where "RESPONSE_INFO \<equiv> 0x1A"
abbreviation (input) SERVER_REFERENCE :: byte where "SERVER_REFERENCE \<equiv> 0x1C"
abbreviation (input) REASON_STRING :: byte where "REASON_STRING \<equiv> 0x1F"
abbreviation (input) RECEIVE_MAX :: byte where "RECEIVE_MAX \<equiv> 0x21"
abbreviation (input) TOPIC_ALIAS_MAX :: byte where "TOPIC_ALIAS_MAX \<equiv> 0x22"
abbreviation (input) MAX_QOS :: byte where "MAX_QOS \<equiv> 0x24"
abbreviation (input) RETAIN_AVAILABLE :: byte where "RETAIN_AVAILABLE \<equiv> 0x25"
abbreviation (input) USER_PROPERTY :: byte where "USER_PROPERTY \<equiv> 0x26"
abbreviation (input) MAX_PACKET_SIZE :: byte where "MAX_PACKET_SIZE \<equiv> 0x27"
abbreviation (input) WILDCARD_AVAILABLE :: byte where "WILDCARD_AVAILABLE \<equiv> 0x28"
abbreviation (input) SUBSCRIPTION_ID_AVAILABLE :: byte where "SUBSCRIPTION_ID_AVAILABLE \<equiv> 0x29"
abbreviation (input) SHARED_SUB_AVAILABLE :: byte where "SHARED_SUB_AVAILABLE \<equiv> 0x2A"

text \<open>The bit positions, \<open>mod field\<close>.\<close>

abbreviation (input) F_SUBSCRIPTION_ID :: nat where "F_SUBSCRIPTION_ID \<equiv> 1"
abbreviation (input) F_SESSION_EXPIRY_INTERVAL :: nat where "F_SESSION_EXPIRY_INTERVAL \<equiv> 2"
abbreviation (input) F_RECEIVE_MAXIMUM :: nat where "F_RECEIVE_MAXIMUM \<equiv> 3"
abbreviation (input) F_MAX_PACKET_SIZE :: nat where "F_MAX_PACKET_SIZE \<equiv> 4"
abbreviation (input) F_TOPIC_ALIAS_MAX :: nat where "F_TOPIC_ALIAS_MAX \<equiv> 5"
abbreviation (input) F_REQUEST_RESPONSE_INFO :: nat where "F_REQUEST_RESPONSE_INFO \<equiv> 6"
abbreviation (input) F_REQUEST_PROBLEM_INFO :: nat where "F_REQUEST_PROBLEM_INFO \<equiv> 7"
abbreviation (input) F_AUTHENTICATION_METHOD :: nat where "F_AUTHENTICATION_METHOD \<equiv> 9"
abbreviation (input) F_AUTHENTICATION_DATA :: nat where "F_AUTHENTICATION_DATA \<equiv> 10"
abbreviation (input) F_PAYLOAD_FORMAT_INDICATOR :: nat where "F_PAYLOAD_FORMAT_INDICATOR \<equiv> 11"
abbreviation (input) F_MESSAGE_EXPIRY_INTERVAL :: nat where "F_MESSAGE_EXPIRY_INTERVAL \<equiv> 12"
abbreviation (input) F_TOPIC_ALIAS :: nat where "F_TOPIC_ALIAS \<equiv> 13"
abbreviation (input) F_RESPONSE_TOPIC :: nat where "F_RESPONSE_TOPIC \<equiv> 14"
abbreviation (input) F_CORRELATION_DATA :: nat where "F_CORRELATION_DATA \<equiv> 15"
abbreviation (input) F_CONTENT_TYPE :: nat where "F_CONTENT_TYPE \<equiv> 16"
abbreviation (input) F_REASON_STRING :: nat where "F_REASON_STRING \<equiv> 17"
abbreviation (input) F_WILL_DELAY :: nat where "F_WILL_DELAY \<equiv> 18"
abbreviation (input) F_ASSIGNED_CLIENT_ID :: nat where "F_ASSIGNED_CLIENT_ID \<equiv> 19"
abbreviation (input) F_SERVER_KEEP_ALIVE :: nat where "F_SERVER_KEEP_ALIVE \<equiv> 20"
abbreviation (input) F_RESPONSE_INFORMATION :: nat where "F_RESPONSE_INFORMATION \<equiv> 21"
abbreviation (input) F_SERVER_REFERENCE :: nat where "F_SERVER_REFERENCE \<equiv> 22"
abbreviation (input) F_MAX_QOS :: nat where "F_MAX_QOS \<equiv> 23"
abbreviation (input) F_RETAIN_AVAILABLE :: nat where "F_RETAIN_AVAILABLE \<equiv> 24"
abbreviation (input) F_WILDCARD_SUBSCRIPTION_AVAILABLE :: nat where "F_WILDCARD_SUBSCRIPTION_AVAILABLE \<equiv> 25"
abbreviation (input) F_SUBSCRIPTION_ID_AVAILABLE :: nat where "F_SUBSCRIPTION_ID_AVAILABLE \<equiv> 26"
abbreviation (input) F_SHARED_SUBSCRIPTION_AVAILABLE :: nat where "F_SHARED_SUBSCRIPTION_AVAILABLE \<equiv> 27"
abbreviation (input) F_USER_PROP :: nat where "F_USER_PROP \<equiv> 28"

record client_settings =
  cs_max_packet_size :: u32
  cs_request_response_info :: bool

record server_settings =
  ss_session_expiry :: u32
  ss_receive_max :: u16
  ss_max_qos :: byte
  ss_retain_available :: byte
  ss_max_packet_size :: u32
  ss_topic_alias_max :: u16
  ss_wildcard_available :: byte
  ss_subscription_id_available :: byte
  ss_shared_available :: byte
  ss_keep_alive :: u16

definition default_server :: server_settings where
  "default_server = \<lparr>ss_session_expiry = 0, ss_receive_max = 0, ss_max_qos = 0,
     ss_retain_available = 0, ss_max_packet_size = 0, ss_topic_alias_max = 0,
     ss_wildcard_available = 0, ss_subscription_id_available = 0, ss_shared_available = 0,
     ss_keep_alive = 0\<rparr>"

record conn_ack =
  ca_session_present :: bool
  ca_reason_code :: byte
  ca_server :: server_settings
  ca_fields_present :: u32
  ca_properties :: bytes

definition refused :: "conn_ack \<Rightarrow> bool" where
  "refused c \<longleftrightarrow> ca_reason_code c \<noteq> 0"

datatype connack_error = Connack_BadParameter | Connack_BadResponse

fun connack_of_ack :: "ack_error \<Rightarrow> connack_error" where
  "connack_of_ack Ack_BadParameter = Connack_BadParameter"
| "connack_of_ack Ack_BadResponse = Connack_BadResponse"

definition connack_reason_name :: "byte \<Rightarrow> string" where
  "connack_reason_name reason_code =
     (if reason_code = 0x00 then ''Connection accepted.''
      else if reason_code = 0x80 then ''Connection refused: Unspecified error''
      else if reason_code = 0x81 then ''Connection refused: Malformed Packet.''
      else if reason_code = 0x82 then ''Connection refused: Protocol Error.''
      else if reason_code = 0x83 then ''Connection refused: Implementation specific error.''
      else if reason_code = 0x84 then ''Connection refused: Unsupported Protocol Version.''
      else if reason_code = 0x85 then ''Connection refused: Client Identifier not valid.''
      else if reason_code = 0x86 then ''Connection refused: Bad User Name or Password.''
      else if reason_code = 0x87 then ''Connection refused: Not authorized.''
      else if reason_code = 0x88 then ''Connection refused: Server unavailable.''
      else if reason_code = 0x89 then ''Connection refused: Server busy.''
      else if reason_code = 0x8A then ''Connection refused: Banned.''
      else if reason_code = 0x8C then ''Connection refused: Bad authentication method.''
      else if reason_code = 0x90 then ''Connection refused: Topic Name invalid.''
      else if reason_code = 0x95 then ''Connection refused: Packet too large .''
      else if reason_code = 0x97 then ''Connection refused: Quota exceeded.''
      else if reason_code = 0x99 then ''Connection refused: Payload format invalid.''
      else if reason_code = 0x9A then ''Connection refused: Retain not supported.''
      else if reason_code = 0x9B then ''Connection refused: QoS not supported.''
      else if reason_code = 0x9C then ''Connection refused: Use another server.''
      else if reason_code = 0x9D then ''Connection refused: Server moved.''
      else if reason_code = 0x9F then ''Connection refused: Connection rate exceeded.''
      else ''Invalid reason code received.'')"

definition connack_reason_code_valid :: "byte \<Rightarrow> bool" where
  "connack_reason_code_valid reason_code \<longleftrightarrow> reason_code \<in>
     {0x00, 0x80, 0x81, 0x82, 0x83, 0x84, 0x85, 0x86, 0x87, 0x88, 0x89, 0x8A, 0x8C, 0x90,
      0x95, 0x97, 0x99, 0x9A, 0x9B, 0x9C, 0x9D, 0x9F}"

record connack_seen =
  sn_session_expiry :: bool
  sn_receive_max :: bool
  sn_max_qos :: bool
  sn_retain :: bool
  sn_max_packet :: bool
  sn_client_id :: bool
  sn_topic_alias :: bool
  sn_reason_string :: bool
  sn_wildcard :: bool
  sn_sub_id :: bool
  sn_shared_sub :: bool
  sn_keep_alive :: bool
  sn_response_info :: bool
  sn_server_ref :: bool
  sn_auth_method :: bool
  sn_auth_data :: bool

definition default_seen :: connack_seen where
  "default_seen = \<lparr>sn_session_expiry = False, sn_receive_max = False, sn_max_qos = False,
     sn_retain = False, sn_max_packet = False, sn_client_id = False, sn_topic_alias = False,
     sn_reason_string = False, sn_wildcard = False, sn_sub_id = False, sn_shared_sub = False,
     sn_keep_alive = False, sn_response_info = False, sn_server_ref = False,
     sn_auth_method = False, sn_auth_data = False\<rparr>"

section \<open>The property walk\<close>

type_synonym connack_state = "conn_ack \<times> connack_seen"

text \<open>\<open>connack.fields_present |= 1 << bit\<close>, and an update of the server's settings.\<close>

definition mark :: "nat \<Rightarrow> conn_ack \<Rightarrow> conn_ack" where
  "mark b c = c\<lparr>ca_fields_present := ca_fields_present c OR push_bit b 1\<rparr>"

definition on_server :: "(server_settings \<Rightarrow> server_settings) \<Rightarrow> conn_ack \<Rightarrow> conn_ack" where
  "on_server f c = c\<lparr>ca_server := f (ca_server c)\<rparr>"

text \<open>\<open>boolean\<close> reads a byte and refuses one above 1.\<close>

definition arm_boolean :: "property_reader \<Rightarrow> bool \<Rightarrow> (bool \<Rightarrow> byte \<Rightarrow> connack_error + connack_state) \<Rightarrow>
    property_reader \<times> (connack_error + connack_state)" where
  "arm_boolean r seen k =
     arm_u8 Connack_BadResponse r seen (\<lambda>u v. if v > 1 then Inl Connack_BadResponse else k u v)"

definition connack_property :: "client_settings \<Rightarrow> connack_state \<Rightarrow> property_reader \<Rightarrow> byte \<Rightarrow>
    property_reader \<times> (connack_error + connack_state)" where
  "connack_property client st r pid =
     (case st of (c, seen) \<Rightarrow>
      if pid = SESSION_EXPIRY then
        arm_u32 Connack_BadResponse r (sn_session_expiry seen) (\<lambda>u v.
          Inr (mark F_SESSION_EXPIRY_INTERVAL (on_server (ss_session_expiry_update (\<lambda>_. v)) c),
               seen\<lparr>sn_session_expiry := u\<rparr>))
      else if pid = RECEIVE_MAX then
        arm_u16 Connack_BadResponse r (sn_receive_max seen) (\<lambda>u v.
          if v = 0 then Inl Connack_BadResponse
          else Inr (mark F_RECEIVE_MAXIMUM (on_server (ss_receive_max_update (\<lambda>_. v)) c),
                    seen\<lparr>sn_receive_max := u\<rparr>))
      else if pid = MAX_QOS then
        arm_boolean r (sn_max_qos seen) (\<lambda>u v.
          Inr (mark F_MAX_QOS (on_server (ss_max_qos_update (\<lambda>_. v)) c), seen\<lparr>sn_max_qos := u\<rparr>))
      else if pid = RETAIN_AVAILABLE then
        arm_boolean r (sn_retain seen) (\<lambda>u v.
          Inr (mark F_RETAIN_AVAILABLE (on_server (ss_retain_available_update (\<lambda>_. v)) c),
               seen\<lparr>sn_retain := u\<rparr>))
      else if pid = MAX_PACKET_SIZE then
        arm_u32 Connack_BadResponse r (sn_max_packet seen) (\<lambda>u v.
          if v = 0 then Inl Connack_BadResponse
          else Inr (mark F_MAX_PACKET_SIZE (on_server (ss_max_packet_size_update (\<lambda>_. v)) c),
                    seen\<lparr>sn_max_packet := u\<rparr>))
      else if pid = ASSIGNED_CLIENT_ID then
        arm_utf8 Connack_BadResponse r (sn_client_id seen) (\<lambda>u _.
          Inr (mark F_ASSIGNED_CLIENT_ID c, seen\<lparr>sn_client_id := u\<rparr>))
      else if pid = TOPIC_ALIAS_MAX then
        arm_u16 Connack_BadResponse r (sn_topic_alias seen) (\<lambda>u v.
          Inr (mark F_TOPIC_ALIAS_MAX (on_server (ss_topic_alias_max_update (\<lambda>_. v)) c),
               seen\<lparr>sn_topic_alias := u\<rparr>))
      else if pid = REASON_STRING then
        arm_utf8 Connack_BadResponse r (sn_reason_string seen) (\<lambda>u _.
          Inr (mark F_REASON_STRING c, seen\<lparr>sn_reason_string := u\<rparr>))
      else if pid = USER_PROPERTY then
        arm_user Connack_BadResponse r (\<lambda>_. Inr (mark F_USER_PROP c, seen))
      else if pid = WILDCARD_AVAILABLE then
        arm_boolean r (sn_wildcard seen) (\<lambda>u v.
          Inr (mark F_WILDCARD_SUBSCRIPTION_AVAILABLE
                 (on_server (ss_wildcard_available_update (\<lambda>_. v)) c), seen\<lparr>sn_wildcard := u\<rparr>))
      else if pid = SUBSCRIPTION_ID_AVAILABLE then
        arm_boolean r (sn_sub_id seen) (\<lambda>u v.
          Inr (mark F_SUBSCRIPTION_ID_AVAILABLE
                 (on_server (ss_subscription_id_available_update (\<lambda>_. v)) c), seen\<lparr>sn_sub_id := u\<rparr>))
      else if pid = SHARED_SUB_AVAILABLE then
        arm_boolean r (sn_shared_sub seen) (\<lambda>u v.
          Inr (mark F_SHARED_SUBSCRIPTION_AVAILABLE
                 (on_server (ss_shared_available_update (\<lambda>_. v)) c), seen\<lparr>sn_shared_sub := u\<rparr>))
      else if pid = SERVER_KEEP_ALIVE then
        arm_u16 Connack_BadResponse r (sn_keep_alive seen) (\<lambda>u v.
          Inr (mark F_SERVER_KEEP_ALIVE (on_server (ss_keep_alive_update (\<lambda>_. v)) c),
               seen\<lparr>sn_keep_alive := u\<rparr>))
      else if pid = RESPONSE_INFO then
        arm_utf8 Connack_BadResponse r (sn_response_info seen) (\<lambda>u _.
          if \<not> cs_request_response_info client then Inl Connack_BadResponse
          else Inr (mark F_RESPONSE_INFORMATION c, seen\<lparr>sn_response_info := u\<rparr>))
      else if pid = SERVER_REFERENCE then
        arm_utf8 Connack_BadResponse r (sn_server_ref seen) (\<lambda>u _.
          Inr (mark F_SERVER_REFERENCE c, seen\<lparr>sn_server_ref := u\<rparr>))
      else if pid = AUTH_METHOD then
        arm_utf8 Connack_BadResponse r (sn_auth_method seen) (\<lambda>u _.
          Inr (mark F_AUTHENTICATION_METHOD c, seen\<lparr>sn_auth_method := u\<rparr>))
      else if pid = AUTH_DATA then
        arm_utf8 Connack_BadResponse r (sn_auth_data seen) (\<lambda>u _.
          Inr (mark F_AUTHENTICATION_DATA c, seen\<lparr>sn_auth_data := u\<rparr>))
      else (r, Inl Connack_BadResponse))"

definition walk_connack_properties ::
    "conn_ack \<Rightarrow> u32 \<Rightarrow> client_settings \<Rightarrow> connack_error + conn_ack" where
  "walk_connack_properties connack property_length client =
     (case section_loop (connack_property client) Connack_BadResponse (connack, default_seen)
             (reader_new (ca_properties connack) property_length) of
        (_, Inl e) \<Rightarrow> Inl e
      | (_, Inr (connack', _)) \<Rightarrow> Inr connack')"

section \<open>The packet\<close>

definition deserialize_connack ::
    "packet_info \<Rightarrow> client_settings \<Rightarrow> connack_error + conn_ack" where
  "deserialize_connack packet client =
     (if pi_packet_type packet \<noteq> CONNACK then Inl Connack_BadParameter
      else if cs_max_packet_size client = 0 then Inl Connack_BadParameter
      else let packet_size = total_packet_size (pi_remaining_length packet) in
      if packet_size > cs_max_packet_size client then Inl Connack_BadResponse
      else if pi_remaining_length packet < CONNACK_MINIMUM_SIZE then Inl Connack_BadResponse
      else rbind (ok_or Connack_BadResponse (get_at (pi_remaining_data packet) 0)) (\<lambda>flags.
        rbind (ok_or Connack_BadResponse (get_at (pi_remaining_data packet) 1)) (\<lambda>reason_code.
          if flags OR SESSION_PRESENT_MASK \<noteq> SESSION_PRESENT_MASK then Inl Connack_BadResponse
          else let session_present = (flags AND SESSION_PRESENT_MASK = SESSION_PRESENT_MASK) in
          if session_present \<and> reason_code \<noteq> 0 then Inl Connack_BadResponse
          else if \<not> connack_reason_code_valid reason_code then Inl Connack_BadResponse
          else rbind (map_err connack_of_ack (bounded (pi_remaining_data packet) 2
                        (sat_sub (pi_remaining_length packet) 2))) (\<lambda>after_header.
            rbind (map_err (\<lambda>_. Connack_BadResponse) (decode_variable_length after_header))
              (\<lambda>property_length.
                let encoded = variable_length_encoded_size property_length in
                if pi_remaining_length packet \<noteq> sat_add (sat_add property_length encoded) 2
                then Inl Connack_BadResponse
                else rbind (map_err connack_of_ack
                              (bounded after_header (unat encoded) property_length))
                  (\<lambda>properties. walk_connack_properties
                     \<lparr>ca_session_present = session_present, ca_reason_code = reason_code,
                       ca_server = default_server, ca_fields_present = 0,
                       ca_properties = properties\<rparr> property_length client))))))"

section \<open>The table as a specification\<close>

text \<open>Which property may stand in a CONNACK, with which value.\<close>

fun connack_prop_ok :: "client_settings \<Rightarrow> byte \<times> prop_value \<Rightarrow> bool" where
  "connack_prop_ok client (pid, PV_u8 b) =
     (pid \<in> {MAX_QOS, RETAIN_AVAILABLE, WILDCARD_AVAILABLE, SUBSCRIPTION_ID_AVAILABLE,
             SHARED_SUB_AVAILABLE} \<and> \<not> b > 1)"
| "connack_prop_ok client (pid, PV_u16 w) =
     (pid = RECEIVE_MAX \<and> w \<noteq> 0 \<or> pid = TOPIC_ALIAS_MAX \<or> pid = SERVER_KEEP_ALIVE)"
| "connack_prop_ok client (pid, PV_u32 d) =
     (pid = SESSION_EXPIRY \<or> pid = MAX_PACKET_SIZE \<and> d \<noteq> 0)"
| "connack_prop_ok client (pid, PV_utf8 x) =
     (pid \<in> {ASSIGNED_CLIENT_ID, REASON_STRING, SERVER_REFERENCE, AUTH_METHOD, AUTH_DATA} \<or>
      pid = RESPONSE_INFO \<and> cs_request_response_info client)"
| "connack_prop_ok client (pid, PV_user x y) = (pid = USER_PROPERTY)"
| "connack_prop_ok client (pid, PV_var d) = False"

text \<open>What the client learns from it.\<close>

fun learn :: "byte \<times> prop_value \<Rightarrow> server_settings \<Rightarrow> server_settings" where
  "learn (pid, PV_u8 b) srv =
     (if pid = MAX_QOS then srv\<lparr>ss_max_qos := b\<rparr>
      else if pid = RETAIN_AVAILABLE then srv\<lparr>ss_retain_available := b\<rparr>
      else if pid = WILDCARD_AVAILABLE then srv\<lparr>ss_wildcard_available := b\<rparr>
      else if pid = SUBSCRIPTION_ID_AVAILABLE then srv\<lparr>ss_subscription_id_available := b\<rparr>
      else srv\<lparr>ss_shared_available := b\<rparr>)"
| "learn (pid, PV_u16 w) srv =
     (if pid = RECEIVE_MAX then srv\<lparr>ss_receive_max := w\<rparr>
      else if pid = TOPIC_ALIAS_MAX then srv\<lparr>ss_topic_alias_max := w\<rparr>
      else srv\<lparr>ss_keep_alive := w\<rparr>)"
| "learn (pid, PV_u32 d) srv =
     (if pid = SESSION_EXPIRY then srv\<lparr>ss_session_expiry := d\<rparr>
      else srv\<lparr>ss_max_packet_size := d\<rparr>)"
| "learn _ srv = srv"

definition connack_field :: "byte \<Rightarrow> nat" where
  "connack_field pid =
    (if pid = SESSION_EXPIRY then F_SESSION_EXPIRY_INTERVAL else
     if pid = RECEIVE_MAX then F_RECEIVE_MAXIMUM else
     if pid = MAX_QOS then F_MAX_QOS else
     if pid = RETAIN_AVAILABLE then F_RETAIN_AVAILABLE else
     if pid = MAX_PACKET_SIZE then F_MAX_PACKET_SIZE else
     if pid = ASSIGNED_CLIENT_ID then F_ASSIGNED_CLIENT_ID else
     if pid = TOPIC_ALIAS_MAX then F_TOPIC_ALIAS_MAX else
     if pid = REASON_STRING then F_REASON_STRING else
     if pid = WILDCARD_AVAILABLE then F_WILDCARD_SUBSCRIPTION_AVAILABLE else
     if pid = SUBSCRIPTION_ID_AVAILABLE then F_SUBSCRIPTION_ID_AVAILABLE else
     if pid = SHARED_SUB_AVAILABLE then F_SHARED_SUBSCRIPTION_AVAILABLE else
     if pid = SERVER_KEEP_ALIVE then F_SERVER_KEEP_ALIVE else
     if pid = RESPONSE_INFO then F_RESPONSE_INFORMATION else
     if pid = SERVER_REFERENCE then F_SERVER_REFERENCE else
     if pid = AUTH_METHOD then F_AUTHENTICATION_METHOD else
     if pid = AUTH_DATA then F_AUTHENTICATION_DATA else F_USER_PROP)"

definition seen_of :: "connack_seen \<Rightarrow> byte \<Rightarrow> bool" where
  "seen_of seen pid =
    (if pid = SESSION_EXPIRY then sn_session_expiry seen else
     if pid = RECEIVE_MAX then sn_receive_max seen else
     if pid = MAX_QOS then sn_max_qos seen else
     if pid = RETAIN_AVAILABLE then sn_retain seen else
     if pid = MAX_PACKET_SIZE then sn_max_packet seen else
     if pid = ASSIGNED_CLIENT_ID then sn_client_id seen else
     if pid = TOPIC_ALIAS_MAX then sn_topic_alias seen else
     if pid = REASON_STRING then sn_reason_string seen else
     if pid = WILDCARD_AVAILABLE then sn_wildcard seen else
     if pid = SUBSCRIPTION_ID_AVAILABLE then sn_sub_id seen else
     if pid = SHARED_SUB_AVAILABLE then sn_shared_sub seen else
     if pid = SERVER_KEEP_ALIVE then sn_keep_alive seen else
     if pid = RESPONSE_INFO then sn_response_info seen else
     if pid = SERVER_REFERENCE then sn_server_ref seen else
     if pid = AUTH_METHOD then sn_auth_method seen else
     if pid = AUTH_DATA then sn_auth_data seen else False)"

definition see :: "byte \<Rightarrow> connack_seen \<Rightarrow> connack_seen" where
  "see pid seen =
    (if pid = SESSION_EXPIRY then seen\<lparr>sn_session_expiry := True\<rparr> else
     if pid = RECEIVE_MAX then seen\<lparr>sn_receive_max := True\<rparr> else
     if pid = MAX_QOS then seen\<lparr>sn_max_qos := True\<rparr> else
     if pid = RETAIN_AVAILABLE then seen\<lparr>sn_retain := True\<rparr> else
     if pid = MAX_PACKET_SIZE then seen\<lparr>sn_max_packet := True\<rparr> else
     if pid = ASSIGNED_CLIENT_ID then seen\<lparr>sn_client_id := True\<rparr> else
     if pid = TOPIC_ALIAS_MAX then seen\<lparr>sn_topic_alias := True\<rparr> else
     if pid = REASON_STRING then seen\<lparr>sn_reason_string := True\<rparr> else
     if pid = WILDCARD_AVAILABLE then seen\<lparr>sn_wildcard := True\<rparr> else
     if pid = SUBSCRIPTION_ID_AVAILABLE then seen\<lparr>sn_sub_id := True\<rparr> else
     if pid = SHARED_SUB_AVAILABLE then seen\<lparr>sn_shared_sub := True\<rparr> else
     if pid = SERVER_KEEP_ALIVE then seen\<lparr>sn_keep_alive := True\<rparr> else
     if pid = RESPONSE_INFO then seen\<lparr>sn_response_info := True\<rparr> else
     if pid = SERVER_REFERENCE then seen\<lparr>sn_server_ref := True\<rparr> else
     if pid = AUTH_METHOD then seen\<lparr>sn_auth_method := True\<rparr> else
     if pid = AUTH_DATA then seen\<lparr>sn_auth_data := True\<rparr> else seen)"

definition connack_table :: "client_settings \<Rightarrow> connack_state \<Rightarrow> byte \<Rightarrow> prop_value \<Rightarrow>
    connack_state option" where
  "connack_table client st pid v =
     (if connack_prop_ok client (pid, v) \<and> \<not> seen_of (snd st) pid
      then Some (mark (connack_field pid) (on_server (learn (pid, v)) (fst st)), see pid (snd st))
      else None)"

lemma on_server_id [simp]: "on_server (\<lambda>x. x) c = c"
  by (simp add: on_server_def)

lemma on_server_learn: "on_server (learn pv) c = c\<lparr>ca_server := learn pv (ca_server c)\<rparr>"
  by (simp add: on_server_def)

interpretation connack_walk: section_table "connack_property client" "connack_table client" for client
proof unfold_locales
  fix st :: connack_state and r pid
  obtain c seen where st: "st = (c, seen)" by (cases st)
  show "reads_as r (connack_property client st r pid) (connack_table client st pid)"
    unfolding connack_property_def st prod.case arm_boolean_def
    by (intro reads_as_cases)
      (simp_all add: connack_table_def connack_field_def seen_of_def see_def on_server_learn
        on_server_def mark_def to_opt_if)
qed

section \<open>A whole section\<close>

definition connack_ids :: "(byte \<times> prop_value) list \<Rightarrow> byte list" where
  "connack_ids ps = filter (\<lambda>pid. pid \<noteq> USER_PROPERTY) (map fst ps)"

definition connack_props_ok :: "client_settings \<Rightarrow> (byte \<times> prop_value) list \<Rightarrow> bool" where
  "connack_props_ok client ps \<longleftrightarrow> list_all (connack_prop_ok client) ps \<and> distinct (connack_ids ps)"

definition connack_after :: "conn_ack \<Rightarrow> (byte \<times> prop_value) list \<Rightarrow> conn_ack" where
  "connack_after c ps = fold (\<lambda>p c. mark (connack_field (fst p)) (on_server (learn p) c)) ps c"

lemma seen_of_see:
  "connack_prop_ok client (pid, v) \<Longrightarrow>
   seen_of (see pid seen) q \<longleftrightarrow> seen_of seen q \<or> pid \<noteq> USER_PROPERTY \<and> q = pid"
  by (cases v) (auto simp: seen_of_def see_def)

lemma seen_of_user [simp]: "\<not> seen_of seen USER_PROPERTY"
  by (simp add: seen_of_def)

lemma connack_table_all:
  "apply_all (connack_table client) (c, seen) ps = Some (c', seen') \<Longrightarrow>
     connack_props_ok client ps \<and> (\<forall>pid \<in> set (connack_ids ps). \<not> seen_of seen pid) \<and>
     c' = connack_after c ps"
  "connack_props_ok client ps \<Longrightarrow> (\<forall>pid \<in> set (connack_ids ps). \<not> seen_of seen pid) \<Longrightarrow>
     \<exists>seen'. apply_all (connack_table client) (c, seen) ps = Some (connack_after c ps, seen')"
proof (induction ps arbitrary: c seen)
  case Nil
  {
    case 1
    then show ?case by (simp add: connack_props_ok_def connack_ids_def connack_after_def)
  next
    case 2
    then show ?case by (simp add: connack_after_def)
  }
next
  case (Cons p ps)
  obtain pid v where p: "p = (pid, v)" by (cases p)
  {
    case 1
    let ?c = "mark (connack_field pid) (on_server (learn (pid, v)) c)"
    from 1 have ok: "connack_prop_ok client (pid, v)" "\<not> seen_of seen pid"
      and r: "apply_all (connack_table client) (?c, see pid seen) ps = Some (c', seen')"
      by (auto simp: p connack_table_def [of client _ pid v] split: if_splits)
    show ?case
      using Cons.IH(1) [OF r] ok seen_of_see [OF ok(1), of seen]
      by (auto simp: p connack_props_ok_def connack_ids_def connack_after_def)
  next
    case 2
    let ?c = "mark (connack_field pid) (on_server (learn (pid, v)) c)"
    from 2 have ok: "connack_prop_ok client (pid, v)" "\<not> seen_of seen pid"
      by (cases "pid = USER_PROPERTY"; simp add: p connack_props_ok_def connack_ids_def)+
    have "connack_props_ok client ps" "\<forall>q \<in> set (connack_ids ps). \<not> seen_of (see pid seen) q"
      using 2 seen_of_see [OF ok(1), of seen]
      by (auto simp: p connack_props_ok_def connack_ids_def split: if_splits)
    from Cons.IH(2) [OF this, of ?c] show ?case
      using ok by (simp add: p connack_table_def [of client _ pid v] connack_after_def)
  }
qed

lemma seen_of_default [simp]: "\<not> seen_of default_seen pid"
  by (simp add: seen_of_def default_seen_def)

lemma walk_connack_ok:
  assumes "length (ca_properties c) = unat n"
  shows "walk_connack_properties c n client = Inr c' \<longleftrightarrow>
    (\<exists>ps. connack_props_ok client ps \<and> (\<forall>(pid, v) \<in> set ps. pv_ok v) \<and>
       ca_properties c = section_bytes ps \<and> c' = connack_after c ps)"
proof -
  let ?loop = "section_loop (connack_property client) Connack_BadResponse (c, default_seen)
    (reader_new (ca_properties c) n)"
  have "walk_connack_properties c n client = Inr c' \<longleftrightarrow> (\<exists>seen' r'. ?loop = (r', Inr (c', seen')))"
    by (auto simp: walk_connack_properties_def split: prod.splits sum.splits)
  also have "\<dots> \<longleftrightarrow> (\<exists>seen' ps. (\<forall>(pid, v) \<in> set ps. pv_ok v) \<and> ca_properties c = section_bytes ps \<and>
      apply_all (connack_table client) (c, default_seen) ps = Some (c', seen'))"
    unfolding connack_walk.section_ok [OF assms] by blast
  also have "\<dots> \<longleftrightarrow> (\<exists>ps. connack_props_ok client ps \<and> (\<forall>(pid, v) \<in> set ps. pv_ok v) \<and>
       ca_properties c = section_bytes ps \<and> c' = connack_after c ps)"
    using connack_table_all [where client = client and c = c and seen = default_seen]
      seen_of_default by blast
  finally show ?thesis .
qed

lemma connack_after_fixed [simp]:
  "ca_session_present (connack_after c ps) = ca_session_present c"
  "ca_reason_code (connack_after c ps) = ca_reason_code c"
  "ca_properties (connack_after c ps) = ca_properties c"
  by (induction ps arbitrary: c) (auto simp: connack_after_def mark_def on_server_def)

lemma connack_after_server:
  "ca_server (connack_after c ps) = fold learn ps (ca_server c)"
  by (induction ps arbitrary: c) (auto simp: connack_after_def mark_def on_server_def)

lemma connack_after_fields:
  "b < 32 \<Longrightarrow> bit (ca_fields_present (connack_after c ps)) b \<longleftrightarrow>
     bit (ca_fields_present c) b \<or> (\<exists>p \<in> set ps. connack_field (fst p) = b)"
  by (induction ps arbitrary: c) (auto simp: connack_after_def mark_def on_server_def bit_simps)

lemma connack_flags:
  "(flags :: byte) OR 1 = 1 \<longleftrightarrow> flags = 0 \<or> flags = 1" "(flags :: byte) OR 1 = 1 \<Longrightarrow> flags AND 1 = 1 \<longleftrightarrow> flags = 1"
proof -
  have "flags OR 1 = 1 \<Longrightarrow> flags = of_bool (bit flags 0)"
  proof (rule bit_word_eqI)
    fix n assume a: "flags OR 1 = 1" "n < LENGTH(8)"
    then have "bit (flags OR 1) n = bit (1 :: byte) n" by simp
    then show "bit flags n = bit (of_bool (bit flags 0) :: byte) n"
      by (cases "n = 0") (auto simp: bit_simps)
  qed
  then show "flags OR 1 = 1 \<longleftrightarrow> flags = 0 \<or> flags = 1" "flags OR 1 = 1 \<Longrightarrow> flags AND 1 = 1 \<longleftrightarrow> flags = 1"
    by (cases "bit flags 0"; auto)+
qed

text \<open>The two fixed bytes and the property section behind them, as the code takes them
  apart.\<close>

definition connack_head :: "bool \<Rightarrow> byte \<Rightarrow> bytes \<Rightarrow> conn_ack" where
  "connack_head present code properties =
     \<lparr>ca_session_present = present, ca_reason_code = code, ca_server = default_server,
      ca_fields_present = 0, ca_properties = properties\<rparr>"

lemma connack_body:
  "(\<exists>n. (decode_variable_length after = Inr n \<and>
      slice after (unat (variable_length_encoded_size n))
        (unat (variable_length_encoded_size n) + unat n) = Some sec) \<and>
      rem = sat_add (sat_add n (variable_length_encoded_size n)) 2 \<and> P n) \<longleftrightarrow>
   length sec < 268435456 \<and> after = property_block sec \<and> P (word_of_nat (length sec))"
  if "unat rem = length after + 2"
proof -
  have "rem = sat_add (sat_add n (variable_length_encoded_size n)) 2 \<longleftrightarrow>
      length after = length (property_block sec)"
    if "length sec < 268435456" "n = word_of_nat (length sec)" for n
    using that length_vl_encode_le_4 [of "length sec"] \<open>unat rem = _\<close>
    by (auto simp: word_unat_eq_iff unat_simps unat_u32_of_nat length_property_block
        simp del: of_nat_add)
  then show ?thesis unfolding property_block_read by auto
qed

lemma connack_first:
  "(\<exists>present code sec. (present \<longrightarrow> code = 0) \<and> V code \<and> L sec \<and>
      Some (flags # c # after) = Some ((if present then 1 else 0) # code # B sec) \<and> W present code sec) \<longleftrightarrow>
   flags OR 1 = 1 \<and> (flags AND 1 = 1 \<longrightarrow> c = 0) \<and> V c \<and>
     (\<exists>sec. L sec \<and> after = B sec \<and> W (flags AND 1 = 1) c sec)" for flags :: byte
  by (cases "flags = 0"; cases "flags = 1") (auto simp: connack_flags(1))

lemma connack_tail:
  "rbind (map_err h (decode_variable_length after)) (\<lambda>k.
      if rem \<noteq> sat_add (sat_add k (variable_length_encoded_size k)) 2 then Inl Connack_BadResponse
      else rbind (map_err connack_of_ack (bounded after (unat (variable_length_encoded_size k)) k))
        (\<lambda>sec. W sec k)) = Inr c \<longleftrightarrow>
   (\<exists>sec n. (decode_variable_length after = Inr n \<and>
      slice after (unat (variable_length_encoded_size n))
        (unat (variable_length_encoded_size n) + unat n) = Some sec) \<and>
      rem = sat_add (sat_add n (variable_length_encoded_size n)) 2 \<and> W sec n = Inr c)"
  by (cases "decode_variable_length after") (auto simp: bounded_def rbind_eq_Inr map_err_eq_Inr ok_or_eq_Inr)

lemma deserialize_connack_ok:
  assumes "pi_packet_type p = CONNACK"
  shows "deserialize_connack p client = Inr c \<longleftrightarrow>
    cs_max_packet_size client \<noteq> 0 \<and>
    total_packet_size (pi_remaining_length p) \<le> cs_max_packet_size client \<and>
    (\<exists>present code sec. (present \<longrightarrow> code = 0) \<and> connack_reason_code_valid code \<and>
      length sec < 268435456 \<and>
      packet_body p = Some ((if present then 1 else 0) # code # property_block sec) \<and>
      walk_connack_properties (connack_head present code sec) (word_of_nat (length sec)) client
        = Inr c)"
proof (cases "3 \<le> unat (pi_remaining_length p) \<and> unat (pi_remaining_length p) \<le> length (pi_remaining_data p)")
  case False
  let ?n = "unat (pi_remaining_length p)" and ?d = "pi_remaining_data p"
  have n3: "pi_remaining_length p < 3 \<longleftrightarrow> ?n < 3" by (simp add: word_less_nat_alt)
  have "deserialize_connack p client \<noteq> Inr c"
  proof (cases "?n < 3")
    case True
    then show ?thesis using assms unfolding deserialize_connack_def Let_def n3 by simp
  next
    case False
    with \<open>\<not> (3 \<le> ?n \<and> ?n \<le> length ?d)\<close> have "length ?d < ?n" "3 \<le> ?n" by simp_all
    then have "bounded ?d 2 (sat_sub (pi_remaining_length p) 2) = Inl Ack_BadResponse"
      by (simp add: bounded_def slice_def unat_simps)
    then show ?thesis unfolding deserialize_connack_def Let_def by (simp add: rbind_eq_Inr)
  qed
  moreover have "packet_body p \<noteq> Some (a # b # property_block sec)" for a b sec
  proof
    assume "packet_body p = Some (a # b # property_block sec)"
    then have b: "?n \<le> length ?d" "take ?n ?d = a # b # property_block sec"
      by (auto simp: packet_body_def slice_eq_Some)
    have "0 < length (property_block sec)" by simp
    moreover have "?n = 2 + length (property_block sec)"
      using arg_cong [OF b(2), of length] b(1) by simp
    ultimately have "3 \<le> ?n" by linarith
    with b(1) False show False by simp
  qed
  ultimately show ?thesis by blast
next
  case True
  let ?n = "unat (pi_remaining_length p)" and ?d = "pi_remaining_data p"
  let ?after = "take (?n - 2) (drop 2 ?d)"
  have n: "3 \<le> ?n" "?n \<le> length ?d" using True by simp_all
  have n3: "\<not> pi_remaining_length p < 3" "unat (sat_sub (pi_remaining_length p) 2) = ?n - 2"
    using True by (simp_all add: word_less_nat_alt unat_simps)
  have after: "?n = length ?after + 2" using True by (auto simp: min_def)
  have len: "0 < length ?d" "1 < length ?d" using True by linarith+
  have body: "packet_body p = Some (?d ! 0 # ?d ! 1 # ?after)"
  proof -
    obtain a b rest where d: "?d = a # b # rest"
      using len by (cases "?d" rule: remdups_adj.cases) auto
    obtain k where "?n = Suc (Suc k)" using n(1) by (metis add_2_eq_Suc le_add_diff_inverse numeral_3_eq_3 numeral_2_eq_2 Suc_leD)
    then show ?thesis using True by (simp add: packet_body_def slice_eq_Some d)
  qed
  have "deserialize_connack p client = Inr c \<longleftrightarrow> cs_max_packet_size client \<noteq> 0 \<and>
    total_packet_size (pi_remaining_length p) \<le> cs_max_packet_size client \<and>
    (?d ! 0) OR 1 = 1 \<and> ((?d ! 0) AND 1 = 1 \<longrightarrow> ?d ! 1 = 0) \<and> connack_reason_code_valid (?d ! 1) \<and>
    (\<exists>sec n. (decode_variable_length ?after = Inr n \<and>
      slice ?after (unat (variable_length_encoded_size n))
        (unat (variable_length_encoded_size n) + unat n) = Some sec) \<and>
      pi_remaining_length p = sat_add (sat_add n (variable_length_encoded_size n)) 2 \<and>
      walk_connack_properties (connack_head ((?d ! 0) AND 1 = 1) (?d ! 1) sec) n client = Inr c)"
  proof -
    have g: "get_at ?d 0 = Some (?d ! 0)" "get_at ?d 1 = Some (?d ! 1)"
      using len by (simp_all add: get_at_def)
    have b: "bounded ?d 2 (sat_sub (pi_remaining_length p) 2) = Inr ?after"
    proof -
      have "2 + (?n - 2) = ?n" using n by simp
      then show ?thesis unfolding bounded_eq_Inr n3(2) using n by simp
    qed
    have t: "\<not> pi_packet_type p \<noteq> CONNACK" using assms by simp
    note d = deserialize_connack_def Let_def if_not_P [OF n3(1)] if_not_P [OF t] g ok_or_simps
      rbind_simps b map_err_simps connack_head_def [symmetric]
    show ?thesis unfolding d guard_eq_Inr connack_tail not_less not_not de_Morgan_conj by blast
  qed
  also have "\<dots> \<longleftrightarrow> cs_max_packet_size client \<noteq> 0 \<and>
    total_packet_size (pi_remaining_length p) \<le> cs_max_packet_size client \<and>
    (?d ! 0) OR 1 = 1 \<and> ((?d ! 0) AND 1 = 1 \<longrightarrow> ?d ! 1 = 0) \<and> connack_reason_code_valid (?d ! 1) \<and>
    (\<exists>sec. length sec < 268435456 \<and> ?after = property_block sec \<and>
      walk_connack_properties (connack_head ((?d ! 0) AND 1 = 1) (?d ! 1) sec)
        (word_of_nat (length sec)) client = Inr c)"
    unfolding connack_body [OF after] ..
  finally show ?thesis
    unfolding body connack_first by blast
qed

lemma conn_ack_eq_iff:
  "c = c' \<longleftrightarrow> ca_session_present c = ca_session_present c' \<and>
     ca_reason_code c = ca_reason_code c' \<and> ca_server c = ca_server c' \<and>
     ca_fields_present c = ca_fields_present c' \<and> ca_properties c = ca_properties c'"
  for c c' :: conn_ack
  by (auto intro: conn_ack.equality)

lemma connack_after_marks:
  "ca_fields_present (connack_after c ps) =
     fold (\<lambda>(pid, v) f. f OR push_bit (connack_field pid) 1) ps (ca_fields_present c)"
  by (induction ps arbitrary: c) (auto simp: connack_after_def mark_def on_server_def)

text \<open>C20. A CONNACK is accepted exactly when it fits the client's maximum and its claimed
  bytes are there and are: the flags, 0 or, with reason code 0 only, 1; one of the 22 reason
  codes; and a length-prefixed section that fills the rest, an encoded list of properties
  each allowed in a CONNACK with its value and none but user properties repeated. Then the
  settings are those of the list, each absent one zero, and a bit is set exactly for the
  properties of the list. A refusal by the broker is accepted like a success.\<close>

theorem connack_accepts_iff:
  assumes "pi_packet_type p = CONNACK"
  shows "deserialize_connack p client = Inr c \<longleftrightarrow>
    cs_max_packet_size client \<noteq> 0 \<and>
    total_packet_size (pi_remaining_length p) \<le> cs_max_packet_size client \<and>
    connack_reason_code_valid (ca_reason_code c) \<and>
    (ca_session_present c \<longrightarrow> ca_reason_code c = 0) \<and>
    length (ca_properties c) < 268435456 \<and>
    packet_body p = Some ((if ca_session_present c then 1 else 0) # ca_reason_code c
      # property_block (ca_properties c)) \<and>
    (\<exists>ps. connack_props_ok client ps \<and> (\<forall>(pid, v) \<in> set ps. pv_ok v) \<and>
      ca_properties c = section_bytes ps \<and> ca_server c = fold learn ps default_server \<and>
      ca_fields_present c = fold (\<lambda>(pid, v) f. f OR push_bit (connack_field pid) 1) ps 0)"
proof -
  have walk: "walk_connack_properties (connack_head present code sec) (word_of_nat (length sec))
      client = Inr c \<longleftrightarrow>
    (\<exists>ps. connack_props_ok client ps \<and> (\<forall>(pid, v) \<in> set ps. pv_ok v) \<and>
       sec = section_bytes ps \<and> c = connack_after (connack_head present code sec) ps)"
    if "length sec < 268435456" for present code sec
    using that by (subst walk_connack_ok) (simp_all add: connack_head_def unat_u32_of_nat)
  have c: "c = connack_after (connack_head present code sec) ps \<longleftrightarrow>
      ca_session_present c = present \<and> ca_reason_code c = code \<and> ca_properties c = sec \<and>
      ca_server c = fold learn ps default_server \<and>
      ca_fields_present c = fold (\<lambda>(pid, v) f. f OR push_bit (connack_field pid) 1) ps 0"
    for present code sec ps
    unfolding conn_ack_eq_iff
    by (auto simp: connack_head_def connack_after_server connack_after_marks)
  define Q where "Q ps \<longleftrightarrow> connack_props_ok client ps \<and> (\<forall>(pid, v) \<in> set ps. pv_ok v) \<and>
      ca_properties c = section_bytes ps \<and> ca_server c = fold learn ps default_server \<and>
      ca_fields_present c = fold (\<lambda>(pid, v) f. f OR push_bit (connack_field pid) 1) ps 0" for ps
  have w: "walk_connack_properties (connack_head present code sec) (word_of_nat (length sec))
      client = Inr c \<longleftrightarrow> ca_session_present c = present \<and> ca_reason_code c = code \<and>
      ca_properties c = sec \<and> (\<exists>ps. Q ps)"
    if "length sec < 268435456" for present code sec
    unfolding walk [OF that] c Q_def by (rule iffI; elim exE conjE; intro exI conjI; simp)
  have "(\<exists>present code sec. (present \<longrightarrow> code = 0) \<and> connack_reason_code_valid code \<and>
      length sec < 268435456 \<and>
      packet_body p = Some ((if present then 1 else 0) # code # property_block sec) \<and>
      walk_connack_properties (connack_head present code sec) (word_of_nat (length sec)) client
        = Inr c) \<longleftrightarrow>
    connack_reason_code_valid (ca_reason_code c) \<and>
    (ca_session_present c \<longrightarrow> ca_reason_code c = 0) \<and>
    length (ca_properties c) < 268435456 \<and>
    packet_body p = Some ((if ca_session_present c then 1 else 0) # ca_reason_code c
      # property_block (ca_properties c)) \<and> (\<exists>ps. Q ps)"
    by (simp only: w cong: conj_cong) auto
  then show ?thesis
    unfolding deserialize_connack_ok [OF assms] Q_def [symmetric] by simp
qed

theorem connack_accepts_iff_witness:
  "deserialize_connack
     \<lparr>pi_packet_type = CONNACK, pi_remaining_length = 8,
      pi_remaining_data = [1, 0, 5, 0x21, 0, 10, 0x24, 1, 0xFF]\<rparr>
     \<lparr>cs_max_packet_size = 1024, cs_request_response_info = False\<rparr> =
   Inr \<lparr>ca_session_present = True, ca_reason_code = 0,
        ca_server = default_server\<lparr>ss_receive_max := 10, ss_max_qos := 1\<rparr>,
        ca_fields_present = 0x800008, ca_properties = [0x21, 0, 10, 0x24, 1]\<rparr>"
proof -
  have "\<exists>ps. connack_props_ok \<lparr>cs_max_packet_size = 1024, cs_request_response_info = False\<rparr> ps \<and>
      (\<forall>(pid, v) \<in> set ps. pv_ok v) \<and> [0x21, 0, 10, 0x24, 1] = section_bytes ps \<and>
      default_server\<lparr>ss_receive_max := 10, ss_max_qos := 1\<rparr> = fold learn ps default_server \<and>
      (0x800008 :: u32) = fold (\<lambda>(pid, v) f. f OR push_bit (connack_field pid) 1) ps 0"
    by (intro exI [of _ "[(0x21, PV_u16 10), (0x24, PV_u8 1)]"])
      (simp add: connack_props_ok_def connack_ids_def connack_field_def be16_def)
  then show ?thesis
    by (subst connack_accepts_iff)
      (simp_all add: packet_body_def slice_def connack_reason_code_valid_def
        property_block_def total_packet_size_def variable_length_encoded_size_def sat_add_def
        vl_encode_small)
qed

end
