(* ===== verification/Records.thy ===== *)
theory Records
  imports Prelude
begin

text \<open>
  The QoS publish state machine (src/crates/rusty_rtos_mqtt-core/src/state.rs): the
  transition tables, the two arrays of in-flight records, and the operations on them. The
  abstract view of an array is its log, the occupied records from first to last
  (\<open>occupied\<close>): the lemmas show that compaction keeps it, that adding appends to it and
  that the PUBREC move takes a record to its end, and the invariant of the two arrays under
  every sequence of operations.
\<close>

section \<open>The data\<close>

abbreviation (input) PACKET_ID_INVALID :: u16 where "PACKET_ID_INVALID \<equiv> 0"

datatype qos = AtMostOnce | AtLeastOnce | ExactlyOnce

datatype publish_state =
    PS_Null | PublishSend | PubAckSend | PubRecSend | PubRelSend | PubCompSend
  | PubAckPending | PubRecPending | PubRelPending | PubCompPending | PublishDone

datatype ack_type = PubAck | PubRec | PubRel | PubComp

datatype operation = Op_Send | Op_Receive

record pub_record =
  r_packet_id :: u16
  r_qos :: qos
  r_state :: publish_state

definition empty_record :: pub_record where
  "empty_record = \<lparr>r_packet_id = PACKET_ID_INVALID, r_qos = AtMostOnce, r_state = PS_Null\<rparr>"

definition is_empty :: "pub_record \<Rightarrow> bool" where
  "is_empty r \<longleftrightarrow> r_packet_id r = PACKET_ID_INVALID"

datatype state_error =
  S_BadParameter | S_NoMemory | S_StateCollision | S_IllegalState | S_BadResponse

section \<open>The transition tables\<close>

definition validate_transition_publish ::
    "publish_state \<Rightarrow> publish_state \<Rightarrow> operation \<Rightarrow> qos \<Rightarrow> bool" where
  "validate_transition_publish current new op qos =
     (case current of
        PS_Null \<Rightarrow> op = Op_Receive \<and> (new = PubAckSend \<or> new = PubRecSend)
      | PublishSend \<Rightarrow> (case qos of
            AtLeastOnce \<Rightarrow> new = PubAckPending
          | ExactlyOnce \<Rightarrow> new = PubRecPending
          | AtMostOnce \<Rightarrow> False)
      | PubAckPending \<Rightarrow> new = PubAckPending
      | PubRecPending \<Rightarrow> new = PubRecPending
      | _ \<Rightarrow> False)"

definition validate_transition_ack :: "publish_state \<Rightarrow> publish_state \<Rightarrow> bool" where
  "validate_transition_ack current new =
     (case current of
        PubAckSend \<Rightarrow> new = PublishDone
      | PubAckPending \<Rightarrow> new = PublishDone
      | PubRecSend \<Rightarrow> new = PubRelPending
      | PubRelPending \<Rightarrow> new = PubCompSend \<or> new = PubRelPending
      | PubCompSend \<Rightarrow> new = PublishDone \<or> new = PubCompSend
      | PubRecPending \<Rightarrow> new = PubRelSend
      | PubRelSend \<Rightarrow> new = PubCompPending
      | PubCompPending \<Rightarrow> new = PublishDone \<or> new = PubCompPending
      | _ \<Rightarrow> False)"

definition is_publish_outgoing :: "ack_type \<Rightarrow> operation \<Rightarrow> bool" where
  "is_publish_outgoing ack op =
     (case ack of
        PubRel \<Rightarrow> op = Op_Send
      | _ \<Rightarrow> op = Op_Receive)"

definition calculate_state_publish :: "operation \<Rightarrow> qos \<Rightarrow> publish_state" where
  "calculate_state_publish op qos =
     (case qos of
        AtMostOnce \<Rightarrow> PublishDone
      | AtLeastOnce \<Rightarrow> (case op of Op_Send \<Rightarrow> PubAckPending | Op_Receive \<Rightarrow> PubAckSend)
      | ExactlyOnce \<Rightarrow> (case op of Op_Send \<Rightarrow> PubRecPending | Op_Receive \<Rightarrow> PubRecSend))"

definition calculate_state_ack :: "ack_type \<Rightarrow> operation \<Rightarrow> qos \<Rightarrow> publish_state" where
  "calculate_state_ack ack op qos =
     (let (qos_valid, state) = (case ack of
            PubAck \<Rightarrow> (qos = AtLeastOnce, PublishDone)
          | PubRec \<Rightarrow> (qos = ExactlyOnce,
              case op of Op_Send \<Rightarrow> PubRelPending | Op_Receive \<Rightarrow> PubRelSend)
          | PubRel \<Rightarrow> (qos = ExactlyOnce,
              case op of Op_Send \<Rightarrow> PubCompPending | Op_Receive \<Rightarrow> PubCompSend)
          | PubComp \<Rightarrow> (qos = ExactlyOnce, PublishDone))
      in if qos_valid then state else PS_Null)"

section \<open>One array\<close>

function compact_loop :: "pub_record list \<Rightarrow> nat option \<Rightarrow> nat \<Rightarrow> pub_record list" where
  "compact_loop records hole index =
     (if index < length records then
        let record = records ! index in
        if is_empty record then
          compact_loop records (if hole = None then Some index else hole) (index + 1)
        else (case hole of
            None \<Rightarrow> compact_loop records None (index + 1)
          | Some at \<Rightarrow> compact_loop (records[at := record, index := empty_record])
                         (Some (at + 1)) (index + 1))
      else records)"
  by pat_completeness auto
termination
  by (relation "measure (\<lambda>(records, hole, index). length records - index)") auto

declare compact_loop.simps [simp del]

definition compact :: "pub_record list \<Rightarrow> pub_record list" where
  "compact records = compact_loop records None 0"

text \<open>\<open>for index in (0..count).rev()\<close>: the first argument is how many indices are left.\<close>

fun add_scan :: "nat \<Rightarrow> pub_record list \<Rightarrow> u16 \<Rightarrow> nat \<Rightarrow> bool \<Rightarrow> state_error + nat" where
  "add_scan 0 records packet_id available valid_entry_found = Inr available"
| "add_scan (Suc index) records packet_id available valid_entry_found =
     (case get_at records index of
        None \<Rightarrow> add_scan index records packet_id available valid_entry_found
      | Some record \<Rightarrow>
          if is_empty record then
            add_scan index records packet_id
              (if \<not> valid_entry_found then index else available) valid_entry_found
          else if r_packet_id record = packet_id then Inl S_StateCollision
          else add_scan index records packet_id available True)"

text \<open>The array afterwards and the result: on an error it may still have been compacted.\<close>

definition add_record :: "pub_record list \<Rightarrow> u16 \<Rightarrow> qos \<Rightarrow> publish_state \<Rightarrow>
    pub_record list \<times> (state_error + unit)" where
  "add_record records packet_id qos state =
     (let count = length records;
          records' = (if records \<noteq> [] \<and> \<not> is_empty (last records) then compact records
                      else records)
      in case add_scan count records' packet_id count False of
           Inl e \<Rightarrow> (records', Inl e)
         | Inr available \<Rightarrow>
             if available < length records'
             then (records'[available :=
                     \<lparr>r_packet_id = packet_id, r_qos = qos, r_state = state\<rparr>], Inr ())
             else (records', Inl S_NoMemory))"

fun find_in_record :: "pub_record list \<Rightarrow> u16 \<Rightarrow> (nat \<times> qos \<times> publish_state) option" where
  "find_in_record [] packet_id = None"
| "find_in_record (r # rs) packet_id =
     (if r_packet_id r = packet_id then Some (0, r_qos r, r_state r)
      else case find_in_record rs packet_id of
             None \<Rightarrow> None
           | Some (index, qos, state) \<Rightarrow> Some (Suc index, qos, state))"

definition update_record ::
    "pub_record list \<Rightarrow> nat \<Rightarrow> publish_state \<Rightarrow> bool \<Rightarrow> pub_record list" where
  "update_record records index new delete =
     (if index < length records then
        if delete then records[index := empty_record]
        else records[index := (records ! index)\<lparr>r_state := new\<rparr>]
      else records)"

text \<open>The cursor afterwards and the packet id found, or the invalid one.\<close>

function state_select :: "pub_record list \<Rightarrow> publish_state list \<Rightarrow> nat \<Rightarrow> nat \<times> u16" where
  "state_select records wanted cursor =
     (if cursor < length records then
        if r_state (records ! cursor) \<in> set wanted
        then (cursor + 1, r_packet_id (records ! cursor))
        else state_select records wanted (cursor + 1)
      else (cursor, PACKET_ID_INVALID))"
  by pat_completeness auto
termination
  by (relation "measure (\<lambda>(records, wanted, cursor). length records - cursor)") auto

declare state_select.simps [simp del]

section \<open>The two arrays\<close>

record publish_records =
  pr_outgoing :: "pub_record list"
  pr_incoming :: "pub_record list"

definition records_new :: "pub_record list \<Rightarrow> pub_record list \<Rightarrow> publish_records" where
  "records_new outgoing incoming =
     \<lparr>pr_outgoing = replicate (length outgoing) empty_record,
      pr_incoming = replicate (length incoming) empty_record\<rparr>"

definition reserve ::
    "publish_records \<Rightarrow> u16 \<Rightarrow> qos \<Rightarrow> publish_records \<times> (state_error + unit)" where
  "reserve s packet_id qos =
     (if qos = AtMostOnce then (s, Inr ())
      else if packet_id = PACKET_ID_INVALID then (s, Inl S_BadParameter)
      else let (outgoing, res) = add_record (pr_outgoing s) packet_id qos PublishSend
           in (s\<lparr>pr_outgoing := outgoing\<rparr>, res))"

definition update_publish :: "publish_records \<Rightarrow> u16 \<Rightarrow> operation \<Rightarrow> qos \<Rightarrow>
    publish_records \<times> (state_error + publish_state)" where
  "update_publish s packet_id op qos =
     (if qos = AtMostOnce then (s, Inr PublishDone)
      else if packet_id = PACKET_ID_INVALID then (s, Inl S_BadParameter)
      else
        let located =
              (if op = Op_Send then
                 (case find_in_record (pr_outgoing s) packet_id of
                    None \<Rightarrow> Inl S_BadParameter
                  | Some (index, found_qos, state) \<Rightarrow>
                      if found_qos \<noteq> qos then Inl S_BadParameter else Inr (index, state))
               else Inr (0, PS_Null))
        in case located of
             Inl e \<Rightarrow> (s, Inl e)
           | Inr (record_index, current) \<Rightarrow>
               let new = calculate_state_publish op qos in
               if \<not> validate_transition_publish current new op qos then (s, Inl S_IllegalState)
               else (case op of
                   Op_Receive \<Rightarrow>
                     (case add_record (pr_incoming s) packet_id qos new of
                        (incoming, Inl e) \<Rightarrow> (s\<lparr>pr_incoming := incoming\<rparr>, Inl e)
                      | (incoming, Inr _) \<Rightarrow> (s\<lparr>pr_incoming := incoming\<rparr>, Inr new))
                 | Op_Send \<Rightarrow>
                     (if current \<noteq> new
                      then (s\<lparr>pr_outgoing := update_record (pr_outgoing s) record_index new False\<rparr>,
                            Inr new)
                      else (s, Inr new))))"

text \<open>\<open>update_ack\<close> on the array the acknowledgement belongs to, and on the pair.\<close>

definition update_ack_records :: "pub_record list \<Rightarrow> u16 \<Rightarrow> ack_type \<Rightarrow> operation \<Rightarrow>
    pub_record list \<times> (state_error + publish_state)" where
  "update_ack_records records packet_id ack op =
     (case find_in_record records packet_id of
        None \<Rightarrow> (records, Inl S_BadResponse)
      | Some (index, qos, current) \<Rightarrow>
          let new = calculate_state_ack ack op qos in
          if \<not> validate_transition_ack current new then (records, Inl S_IllegalState)
          else if current \<noteq> new then
            let should_delete = (new = PublishDone \<or> new = PubRelSend);
                records1 = update_record records index new should_delete
            in if new = PubRelSend then
                 (case add_record records1 packet_id ExactlyOnce PubRelSend of
                    (records2, Inl e) \<Rightarrow> (records2, Inl e)
                  | (records2, Inr _) \<Rightarrow> (records2, Inr new))
               else (records1, Inr new)
          else (records, Inr new))"

definition update_ack :: "publish_records \<Rightarrow> u16 \<Rightarrow> ack_type \<Rightarrow> operation \<Rightarrow>
    publish_records \<times> (state_error + publish_state)" where
  "update_ack s packet_id ack op =
     (if packet_id = PACKET_ID_INVALID then (s, Inl S_BadParameter)
      else if is_publish_outgoing ack op then
        (case update_ack_records (pr_outgoing s) packet_id ack op of
           (records, res) \<Rightarrow> (s\<lparr>pr_outgoing := records\<rparr>, res))
      else
        (case update_ack_records (pr_incoming s) packet_id ack op of
           (records, res) \<Rightarrow> (s\<lparr>pr_incoming := records\<rparr>, res)))"

definition remove_record :: "publish_records \<Rightarrow> u16 \<Rightarrow> publish_records \<times> (state_error + unit)" where
  "remove_record s packet_id =
     (if packet_id = PACKET_ID_INVALID then (s, Inl S_BadParameter)
      else case find_in_record (pr_outgoing s) packet_id of
        None \<Rightarrow> (s, Inl S_BadParameter)
      | Some (index, qos, current) \<Rightarrow>
          if current = PS_Null then (s, Inl S_BadParameter)
          else if qos = AtMostOnce then (s, Inl S_BadParameter)
          else (s\<lparr>pr_outgoing := update_record (pr_outgoing s) index PS_Null True\<rparr>, Inr ()))"

definition publish_to_resend :: "publish_records \<Rightarrow> nat \<Rightarrow> nat \<times> u16 option" where
  "publish_to_resend s cursor =
     (let (cursor', packet_id) =
            state_select (pr_outgoing s) [PublishSend, PubAckPending, PubRecPending] cursor
      in (cursor', if packet_id = PACKET_ID_INVALID then None else Some packet_id))"

definition pubrel_to_resend :: "publish_records \<Rightarrow> nat \<Rightarrow> nat \<times> u16 option" where
  "pubrel_to_resend s cursor =
     (let (cursor', packet_id) =
            state_select (pr_outgoing s) [PubCompPending, PubRelSend] cursor
      in (cursor', if packet_id = PACKET_ID_INVALID then None else Some packet_id))"

definition clear_outgoing :: "publish_records \<Rightarrow> publish_records" where
  "clear_outgoing s = s\<lparr>pr_outgoing := replicate (length (pr_outgoing s)) empty_record\<rparr>"

definition clear_incoming :: "publish_records \<Rightarrow> publish_records" where
  "clear_incoming s = s\<lparr>pr_incoming := replicate (length (pr_incoming s)) empty_record\<rparr>"

definition cap :: "publish_records \<Rightarrow> nat \<Rightarrow> nat \<Rightarrow> publish_records" where
  "cap s outgoing incoming =
     (let s1 = (if outgoing < length (pr_outgoing s)
                then s\<lparr>pr_outgoing := take outgoing (pr_outgoing s)\<rparr> else s)
      in if incoming < length (pr_incoming s1)
         then s1\<lparr>pr_incoming := take incoming (pr_incoming s1)\<rparr> else s1)"

section \<open>The log of an array\<close>

definition occupied :: "pub_record list \<Rightarrow> pub_record list" where
  "occupied rs = filter (\<lambda>r. \<not> is_empty r) rs"

lemma occupied_simps [simp]:
  "occupied [] = []"
  "occupied (r # rs) = (if is_empty r then occupied rs else r # occupied rs)"
  "occupied (xs @ ys) = occupied xs @ occupied ys"
  by (simp_all add: occupied_def)

lemma is_empty_empty_record [simp]: "is_empty empty_record"
  by (simp add: is_empty_def empty_record_def)

lemma is_empty_simps [simp]:
  "is_empty \<lparr>r_packet_id = i, r_qos = q, r_state = st\<rparr> \<longleftrightarrow> i = 0"
  "is_empty (r\<lparr>r_state := st\<rparr>) = is_empty r"
  by (simp_all add: is_empty_def)

lemma occupied_none: "list_all is_empty rs \<Longrightarrow> occupied rs = []"
  by (induction rs) auto

lemma occupied_all: "list_all (\<lambda>r. \<not> is_empty r) rs \<Longrightarrow> occupied rs = rs"
  by (induction rs) auto

lemma occupied_replicate [simp]: "occupied (replicate n empty_record) = []"
  by (induction n) auto

lemma set_occupied: "set (occupied rs) = {r \<in> set rs. \<not> is_empty r}"
  by (auto simp: occupied_def)

lemma length_occupied_le: "length (occupied rs) \<le> length rs"
  by (simp add: occupied_def)

definition empties_ok :: "pub_record list \<Rightarrow> bool" where
  "empties_ok rs \<longleftrightarrow> (\<forall>r \<in> set rs. is_empty r \<longrightarrow> r = empty_record)"

text \<open>Compaction slides the log to the front and changes nothing else.\<close>

lemma compact_loop_spec:
  "list_all (\<lambda>r. \<not> is_empty r) as \<Longrightarrow> list_all is_empty bs \<Longrightarrow>
   \<exists>es. compact_loop (as @ bs @ cs) (if bs = [] then None else Some (length as))
          (length as + length bs) = as @ occupied cs @ es \<and>
        list_all is_empty es \<and> length es = length bs + length cs - length (occupied cs) \<and>
        set es \<subseteq> insert empty_record (set bs \<union> set cs)"
proof (induction cs arbitrary: as bs)
  case Nil
  then show ?case by (intro exI [of _ bs]) (auto simp: compact_loop.simps)
next
  case (Cons c cs)
  have n: "(as @ bs @ c # cs) ! (length as + length bs) = c" by (simp add: nth_append)
  show ?case
  proof (cases "is_empty c")
    case True
    have "compact_loop (as @ bs @ c # cs) (if bs = [] then None else Some (length as))
        (length as + length bs)
      = compact_loop (as @ (bs @ [c]) @ cs) (if bs @ [c] = [] then None else Some (length as))
        (length as + length (bs @ [c]))"
      using True by (subst compact_loop.simps) (simp add: n Let_def)
    moreover have "list_all is_empty (bs @ [c])" using Cons.prems(2) True by simp
    ultimately obtain es where "compact_loop (as @ bs @ c # cs)
        (if bs = [] then None else Some (length as)) (length as + length bs)
        = as @ occupied cs @ es" "list_all is_empty es"
      "length es = length (bs @ [c]) + length cs - length (occupied cs)"
      "set es \<subseteq> insert empty_record (set (bs @ [c]) \<union> set cs)"
      using Cons.IH [OF Cons.prems(1), of "bs @ [c]"] by metis
    then show ?thesis using True by (intro exI [of _ es]) auto
  next
    case False
    show ?thesis
    proof (cases bs)
      case Nil
      have "compact_loop (as @ c # cs) None (length as)
          = compact_loop ((as @ [c]) @ [] @ cs) None (length (as @ [c]))"
        using False n Nil by (subst compact_loop.simps) (simp add: Let_def)
      moreover have "list_all (\<lambda>r. \<not> is_empty r) (as @ [c])" using Cons.prems(1) False by simp
      ultimately show ?thesis
        using Cons.IH [of "as @ [c]" "[]"] False Nil length_occupied_le [of cs]
        by (auto simp: Suc_diff_le)
    next
      case bs: (Cons b bs')
      let ?bs = "bs' @ [empty_record]"
      have "(as @ bs @ c # cs)[length as := c, length as + length bs := empty_record]
          = (as @ [c]) @ ?bs @ cs"
        by (simp add: bs list_update_append)
      then have "compact_loop (as @ bs @ c # cs) (Some (length as)) (length as + length bs)
          = compact_loop ((as @ [c]) @ ?bs @ cs) (if ?bs = [] then None else Some (length (as @ [c])))
              (length (as @ [c]) + length ?bs)"
        using False n bs by (subst compact_loop.simps) (simp add: Let_def)
      moreover have "list_all (\<lambda>r. \<not> is_empty r) (as @ [c])" "list_all is_empty ?bs"
        using Cons.prems False bs by simp_all
      ultimately obtain es where "compact_loop (as @ bs @ c # cs) (Some (length as))
          (length as + length bs) = (as @ [c]) @ occupied cs @ es" "list_all is_empty es"
        "length es = length ?bs + length cs - length (occupied cs)"
        "set es \<subseteq> insert empty_record (set ?bs \<union> set cs)"
        using Cons.IH [of "as @ [c]" ?bs] by metis
      then show ?thesis
        using False bs length_occupied_le [of cs] by (intro exI [of _ es]) auto
    qed
  qed
qed

lemma compact_spec:
  obtains es where "compact rs = occupied rs @ es" "list_all is_empty es"
    "length (compact rs) = length rs" "set es \<subseteq> insert empty_record (set rs)"
proof -
  obtain es where "compact rs = occupied rs @ es" "list_all is_empty es"
    "length es = length rs - length (occupied rs)" "set es \<subseteq> insert empty_record (set rs)"
    using compact_loop_spec [of "[]" "[]" rs] by (auto simp: compact_def)
  with length_occupied_le [of rs] show ?thesis by (intro that) simp_all
qed

lemma occupied_compact [simp]: "occupied (compact rs) = occupied rs"
proof -
  obtain es where "compact rs = occupied rs @ es" "list_all is_empty es" by (rule compact_spec)
  then show ?thesis by (simp add: occupied_none occupied_all) (simp add: occupied_def)
qed

lemma length_compact [simp]: "length (compact rs) = length rs"
  by (rule compact_spec [of rs]) simp

lemma empties_ok_compact: "empties_ok rs \<Longrightarrow> empties_ok (compact rs)"
proof -
  assume e: "empties_ok rs"
  obtain es where c: "compact rs = occupied rs @ es" "set es \<subseteq> insert empty_record (set rs)"
    by (rule compact_spec)
  show ?thesis using e c(2) unfolding c(1) empties_ok_def by (auto simp: set_occupied)
qed

lemma get_at_append1: "i < length xs \<Longrightarrow> get_at (xs @ ys) i = get_at xs i"
  by (simp add: get_at_def nth_append)

text \<open>The scan looks at a prefix of the array only.\<close>

lemma add_scan_snoc:
  "add_scan (Suc (length xs)) (xs @ y # ys) i av f =
     (if is_empty y then add_scan (length xs) (xs @ y # ys) i (if \<not> f then length xs else av) f
      else if r_packet_id y = i then Inl S_StateCollision
      else add_scan (length xs) (xs @ y # ys) i av True)"
  by (simp add: get_at_def)

lemma add_scan_found:
  "add_scan (length xs) (xs @ ys) i av True =
     (if \<exists>r \<in> set (occupied xs). r_packet_id r = i then Inl S_StateCollision else Inr av)"
proof (induction xs arbitrary: ys rule: rev_induct)
  case (snoc x xs)
  then show ?case using add_scan_snoc [of xs x ys i av True] by auto
qed simp

lemma add_scan_spec:
  "list_all is_empty es \<Longrightarrow> xs = [] \<or> \<not> is_empty (last xs) \<Longrightarrow>
   add_scan (length (xs @ es)) (xs @ es @ ys) i av False =
     (if \<exists>r \<in> set (occupied xs). r_packet_id r = i then Inl S_StateCollision
      else Inr (if es = [] then av else length xs))"
proof (induction es arbitrary: ys av rule: rev_induct)
  case Nil
  show ?case
  proof (cases xs rule: rev_cases)
    case (snoc xs' x)
    with Nil show ?thesis
      using add_scan_snoc [of xs' x ys i av False] add_scan_found [of xs' "x # ys" i]
      by auto
  qed simp
next
  case (snoc e es)
  then show ?case
    using add_scan_snoc [of "xs @ es" e ys i av False]
      snoc.IH [of "e # ys" "length (xs @ es)"] by simp
qed

lemma trailing_empties:
  obtains xs es where "rs = xs @ es" "list_all is_empty es" "xs = [] \<or> \<not> is_empty (last xs)"
proof -
  have "rs = rev (dropWhile is_empty (rev rs)) @ rev (takeWhile is_empty (rev rs))"
    by (metis rev_append rev_rev_ident takeWhile_dropWhile_id)
  moreover have "list_all is_empty (rev (takeWhile is_empty (rev rs)))"
    by (auto simp: list_all_iff dest: set_takeWhileD)
  moreover have "rev (dropWhile is_empty (rev rs)) = [] \<or>
      \<not> is_empty (last (rev (dropWhile is_empty (rev rs))))"
    using hd_dropWhile [of is_empty "rev rs"] by (auto simp: last_rev)
  ultimately show ?thesis by (rule that)
qed

text \<open>What adding does to the log: it is refused for a packet id that is there and for a
  full array, and otherwise it appends.\<close>

definition log_add :: "nat \<Rightarrow> pub_record list \<Rightarrow> pub_record \<Rightarrow>
    pub_record list \<times> (state_error + unit)" where
  "log_add capacity log r =
     (if r_packet_id r \<in> r_packet_id ` set log then (log, Inl S_StateCollision)
      else if capacity \<le> length log then (log, Inl S_NoMemory)
      else (log @ [r], Inr ()))"

lemma add_record_spec:
  assumes i: "i \<noteq> 0" and add: "add_record rs i q st = (rs', res)"
  shows "length rs' = length rs"
    and "(occupied rs', res)
      = log_add (length rs) (occupied rs) \<lparr>r_packet_id = i, r_qos = q, r_state = st\<rparr>"
    and "empties_ok rs \<Longrightarrow> empties_ok rs'"
proof -
  let ?r = "\<lparr>r_packet_id = i, r_qos = q, r_state = st\<rparr>"
  define rs1 where "rs1 = (if rs \<noteq> [] \<and> \<not> is_empty (last rs) then compact rs else rs)"
  have l1: "length rs1 = length rs" and o1: "occupied rs1 = occupied rs"
    and e1: "empties_ok rs \<Longrightarrow> empties_ok rs1"
    by (auto simp: rs1_def empties_ok_compact)
  obtain xs es where x: "rs1 = xs @ es" "list_all is_empty es" "xs = [] \<or> \<not> is_empty (last xs)"
    and full: "es = [] \<Longrightarrow> occupied xs = xs"
  proof (cases "rs \<noteq> [] \<and> \<not> is_empty (last rs)")
    case True
    obtain es where "compact rs = occupied rs @ es" "list_all is_empty es" by (rule compact_spec)
    moreover have "occupied rs = [] \<or> \<not> is_empty (last (occupied rs))"
      using last_in_set [of "occupied rs"] by (auto simp: set_occupied)
    moreover have "occupied (occupied rs) = occupied rs" by (simp add: occupied_def)
    ultimately show thesis using True by (intro that) (simp_all add: rs1_def)
  next
    case False
    obtain xs es where y: "rs = xs @ es" "list_all is_empty es" "xs = [] \<or> \<not> is_empty (last xs)"
      by (rule trailing_empties)
    moreover have "occupied xs = xs" if "es = []" using y(1,3) that False by (cases "xs = []") auto
    moreover have "rs1 = rs" using False by (auto simp: rs1_def)
    ultimately show thesis by (intro that [of xs es]) simp_all
  qed
  have ox: "occupied rs = occupied xs" using o1 x by (simp add: occupied_none)
  have scan: "add_scan (length rs) rs1 i (length rs) False =
     (if i \<in> r_packet_id ` set (occupied rs) then Inl S_StateCollision else Inr (length xs))"
    using add_scan_spec [OF x(2,3), of "[]" i "length rs"] l1 x(1) ox by auto
  have ll: "length rs \<le> length (occupied rs) \<longleftrightarrow> es = []"
    using l1 x(1) ox full length_occupied_le [of xs] by (cases es) auto
  have upd: "(xs @ es)[length xs := ?r] = xs @ ?r # tl es" if "es \<noteq> []"
    using that by (cases es) (simp_all add: list_update_append)
  have lx: "length xs < length rs \<longleftrightarrow> es \<noteq> []" using l1 x(1) by (cases es) auto
  have tl: "occupied (tl es) = []" using x(2) by (cases es) (auto intro: occupied_none)
  have eq: "add_record rs i q st =
      (if i \<in> r_packet_id ` set (occupied rs) then (rs1, Inl S_StateCollision)
       else if es = [] then (rs1, Inl S_NoMemory) else (xs @ ?r # tl es, Inr ()))"
    using scan x(1) upd l1 lx
    by (auto simp: add_record_def Let_def rs1_def [symmetric] split: if_splits)
  show "length rs' = length rs"
    using add l1 x(1) unfolding eq by (cases es) (auto split: if_splits)
  show "(occupied rs', res) = log_add (length rs) (occupied rs) ?r"
    using add o1 ox tl i ll unfolding eq log_add_def by (auto split: if_splits)
  show "empties_ok rs'" if "empties_ok rs"
    using add e1 [OF that] i x(1) unfolding eq empties_ok_def
    by (cases es) (auto split: if_splits)
qed

section \<open>Finding, updating and selecting in a log\<close>

lemma find_in_record_Some:
  "find_in_record rs i = Some (k, q, st) \<Longrightarrow>
   k < length rs \<and> rs ! k = \<lparr>r_packet_id = i, r_qos = q, r_state = st\<rparr> \<and>
   i \<notin> r_packet_id ` set (take k rs)"
proof (induction rs arbitrary: k)
  case (Cons r rs)
  show ?case
  proof (cases "r_packet_id r = i")
    case True
    with Cons.prems show ?thesis by (cases r) auto
  next
    case False
    with Cons.prems obtain k' where "find_in_record rs i = Some (k', q, st)" "k = Suc k'"
      by (auto split: option.splits)
    with Cons.IH False show ?thesis by auto
  qed
qed simp

lemma find_in_record_None:
  "find_in_record rs i = None \<longleftrightarrow> i \<notin> r_packet_id ` set rs"
  by (induction rs) (auto split: option.splits)

text \<open>In the log, where a packet id stands at most once, an update is a map and a deletion
  a filter.\<close>

definition log_set :: "u16 \<Rightarrow> publish_state \<Rightarrow> pub_record list \<Rightarrow> pub_record list" where
  "log_set i st log = map (\<lambda>r. if r_packet_id r = i then r\<lparr>r_state := st\<rparr> else r) log"

definition log_del :: "u16 \<Rightarrow> pub_record list \<Rightarrow> pub_record list" where
  "log_del i log = filter (\<lambda>r. r_packet_id r \<noteq> i) log"

definition log_find :: "u16 \<Rightarrow> pub_record list \<Rightarrow> (qos \<times> publish_state) option" where
  "log_find i log = (case find (\<lambda>r. r_packet_id r = i) log of
      None \<Rightarrow> None | Some r \<Rightarrow> Some (r_qos r, r_state r))"

definition distinct_ids :: "pub_record list \<Rightarrow> bool" where
  "distinct_ids log \<longleftrightarrow> distinct (map r_packet_id log)"

lemma occupied_Cons_nonzero: "i \<noteq> 0 \<Longrightarrow> r_packet_id r = i \<Longrightarrow> occupied (r # rs) = r # occupied rs"
  by (simp add: is_empty_def)

lemma log_find_occupied:
  "i \<noteq> 0 \<Longrightarrow> log_find i (occupied rs) = map_option snd (find_in_record rs i)"
  by (induction rs) (auto simp: log_find_def is_empty_def split: option.splits)

lemma log_set_other: "i \<notin> r_packet_id ` set log \<Longrightarrow> log_set i st log = log"
  by (induction log) (auto simp: log_set_def)

lemma log_del_other: "i \<notin> r_packet_id ` set log \<Longrightarrow> log_del i log = log"
  by (induction log) (auto simp: log_del_def)

lemma update_record_log:
  assumes i: "i \<noteq> 0" and d: "distinct_ids (occupied rs)"
    and f: "find_in_record rs i = Some (k, q, st)"
  shows "occupied (update_record rs k new del)
    = (if del then log_del i (occupied rs) else log_set i new (occupied rs))"
    and "length (update_record rs k new del) = length rs"
    and "empties_ok rs \<Longrightarrow> empties_ok (update_record rs k new del)"
proof -
  let ?r = "\<lparr>r_packet_id = i, r_qos = q, r_state = st\<rparr>"
  have k: "k < length rs" "rs ! k = ?r" "i \<notin> r_packet_id ` set (take k rs)"
    using find_in_record_Some [OF f] by auto
  then have rs: "rs = take k rs @ ?r # drop (Suc k) rs" by (metis id_take_nth_drop)
  define xs ys where "xs = take k rs" and "ys = drop (Suc k) rs"
  have rs': "rs = xs @ ?r # ys" and lx: "length xs = k" using rs k(1) by (simp_all add: xs_def ys_def)
  have nx: "i \<notin> r_packet_id ` set (occupied xs)" using k(3) by (auto simp: xs_def set_occupied)
  have ny: "i \<notin> r_packet_id ` set (occupied ys)"
    using d i by (auto simp: rs' distinct_ids_def)
  have u: "update_record rs k new del
      = xs @ (if del then empty_record else ?r\<lparr>r_state := new\<rparr>) # ys"
    by (simp add: rs' lx [symmetric] update_record_def list_update_append)
  have "log_set i new (occupied rs) = occupied xs @ ?r\<lparr>r_state := new\<rparr> # occupied ys"
    using i log_set_other [OF nx, of new] log_set_other [OF ny, of new]
    by (simp add: rs' log_set_def)
  moreover have "log_del i (occupied rs) = occupied xs @ occupied ys"
    using i log_del_other [OF nx] log_del_other [OF ny] by (simp add: rs' log_del_def)
  ultimately show "occupied (update_record rs k new del)
      = (if del then log_del i (occupied rs) else log_set i new (occupied rs))"
    using i by (simp add: u)
  show "length (update_record rs k new del) = length rs" unfolding u by (simp add: rs')
  show "empties_ok (update_record rs k new del)" if "empties_ok rs"
    using that i unfolding u by (auto simp: rs' empties_ok_def)
qed

definition selected :: "publish_state list \<Rightarrow> pub_record list \<Rightarrow> u16 list" where
  "selected wanted rs =
     map r_packet_id (filter (\<lambda>r. r_state r \<in> set wanted) (occupied rs))"

text \<open>Each call finds the next of the selected ids, and leaves the rest for the next call.\<close>

lemma state_select_log:
  assumes "empties_ok rs" "PS_Null \<notin> set wanted"
  shows "snd (state_select rs wanted c) =
      (case selected wanted (drop c rs) of [] \<Rightarrow> 0 | i # _ \<Rightarrow> i) \<and>
    selected wanted (drop (fst (state_select rs wanted c)) rs) = tl (selected wanted (drop c rs))"
  using assms
proof (induction rs wanted c rule: state_select.induct)
  case (1 rs wanted c)
  show ?case
  proof (cases "c < length rs")
    case True
    then have d: "drop c rs = rs ! c # drop (Suc c) rs" by (simp add: Cons_nth_drop_Suc)
    have ne: "is_empty (rs ! c) \<Longrightarrow> r_state (rs ! c) \<notin> set wanted"
      using "1.prems" True by (auto simp: empties_ok_def empty_record_def)
    show ?thesis
    proof (cases "r_state (rs ! c) \<in> set wanted")
      case w: True
      with \<open>c < length rs\<close> have "state_select rs wanted c = (Suc c, r_packet_id (rs ! c))"
        by (subst state_select.simps) simp
      with w ne show ?thesis by (auto simp: d selected_def)
    next
      case False
      with \<open>c < length rs\<close> have s: "state_select rs wanted c = state_select rs wanted (Suc c)"
        by (subst state_select.simps) simp
      have "selected wanted (drop c rs) = selected wanted (drop (Suc c) rs)"
        using False by (simp add: d selected_def)
      then show ?thesis
        using "1.IH" [OF \<open>c < length rs\<close> False "1.prems"] unfolding s by simp
    qed
  qed (simp add: state_select.simps selected_def)
qed

lemma selected_pos:
  "i \<in> set (selected wanted rs) \<Longrightarrow> i \<noteq> 0"
  by (auto simp: selected_def set_occupied is_empty_def)

section \<open>The contract of an ordered log\<close>

definition array_ok :: "pub_record list \<Rightarrow> bool" where
  "array_ok rs \<longleftrightarrow> empties_ok rs \<and> distinct_ids (occupied rs)"

definition add_to :: "pub_record list \<Rightarrow> pub_record \<Rightarrow> pub_record list \<times> (state_error + unit)" where
  "add_to rs r = add_record rs (r_packet_id r) (r_qos r) (r_state r)"

definition delete_id :: "pub_record list \<Rightarrow> u16 \<Rightarrow> pub_record list" where
  "delete_id rs i = (case find_in_record rs i of
      None \<Rightarrow> rs | Some (k, _, _) \<Rightarrow> update_record rs k PS_Null True)"

definition set_id :: "pub_record list \<Rightarrow> u16 \<Rightarrow> publish_state \<Rightarrow> pub_record list" where
  "set_id rs i st = (case find_in_record rs i of
      None \<Rightarrow> rs | Some (k, _, _) \<Rightarrow> update_record rs k st False)"

locale ordered_log =
  fixes content :: "'s \<Rightarrow> pub_record list"
    and room :: "'s \<Rightarrow> nat"
    and ok :: "'s \<Rightarrow> bool"
    and add :: "'s \<Rightarrow> pub_record \<Rightarrow> 's \<times> (state_error + unit)"
    and del :: "'s \<Rightarrow> u16 \<Rightarrow> 's"
    and put :: "'s \<Rightarrow> u16 \<Rightarrow> publish_state \<Rightarrow> 's"
  assumes add_law: "ok s \<Longrightarrow> r_packet_id r \<noteq> 0 \<Longrightarrow> add s r = (s', res) \<Longrightarrow>
      (content s', res) = log_add (room s) (content s) r \<and> room s' = room s \<and> ok s'"
    and del_law: "ok s \<Longrightarrow> i \<noteq> 0 \<Longrightarrow>
      content (del s i) = log_del i (content s) \<and> room (del s i) = room s \<and> ok (del s i)"
    and put_law: "ok s \<Longrightarrow> i \<noteq> 0 \<Longrightarrow>
      content (put s i st) = log_set i st (content s) \<and> room (put s i st) = room s \<and> ok (put s i st)"
    and content_room: "ok s \<Longrightarrow> length (content s) \<le> room s"
    and content_distinct: "ok s \<Longrightarrow> distinct_ids (content s)"
begin

text \<open>Taking a record out and adding one with its id back succeeds always, and puts it at
  the end; that is the PUBREC move.\<close>

lemma move_to_end:
  assumes "ok s" "r_packet_id r \<noteq> 0" "r_packet_id r \<in> r_packet_id ` set (content s)"
    and "add (del s (r_packet_id r)) r = (s', res)"
  shows "res = Inr ()" "content s' = log_del (r_packet_id r) (content s) @ [r]"
    "room s' = room s" "ok s'"
proof -
  let ?d = "del s (r_packet_id r)"
  have d: "content ?d = log_del (r_packet_id r) (content s)" "room ?d = room s" "ok ?d"
    using del_law assms(1,2) by auto
  obtain x where "x \<in> set (content s)" "r_packet_id x = r_packet_id r" using assms(3) by auto
  then have "length (log_del (r_packet_id r) (content s)) < length (content s)"
    unfolding log_del_def by (intro length_filter_less [of x]) auto
  then have "length (log_del (r_packet_id r) (content s)) < room s"
    using content_room [OF assms(1)] by linarith
  moreover have "r_packet_id r \<notin> r_packet_id ` set (log_del (r_packet_id r) (content s))"
    by (auto simp: log_del_def)
  ultimately have "log_add (room ?d) (content ?d) r = (content ?d @ [r], Inr ())"
    using d by (simp add: log_add_def)
  then show "res = Inr ()" "content s' = log_del (r_packet_id r) (content s) @ [r]"
    "room s' = room s" "ok s'"
    using add_law [OF d(3) assms(2,4)] d by auto
qed

lemma add_again_collides:
  assumes "ok s" "r_packet_id r \<noteq> 0" "add s r = (s', Inr ())" "r_packet_id r' = r_packet_id r"
  shows "snd (add s' r') = Inl S_StateCollision \<and> content (fst (add s' r')) = content s'"
proof -
  obtain s'' res where a: "add s' r' = (s'', res)" by (cases "add s' r'")
  have "ok s'" "r_packet_id r \<in> r_packet_id ` set (content s')"
    using add_law [OF assms(1-3)] by (auto simp: log_add_def split: if_splits)
  with add_law [OF \<open>ok s'\<close> _ a] assms(2,4) a show ?thesis by (simp add: log_add_def)
qed

end

lemma distinct_ids_del: "distinct_ids log \<Longrightarrow> distinct_ids (log_del i log)"
  by (auto simp: distinct_ids_def log_del_def distinct_map intro: inj_on_subset)

lemma map_id_log_set [simp]: "map r_packet_id (log_set i st log) = map r_packet_id log"
  by (induction log) (auto simp: log_set_def)

lemma distinct_ids_set [simp]: "distinct_ids (log_set i st log) = distinct_ids log"
  by (simp add: distinct_ids_def)

lemma distinct_ids_add:
  "distinct_ids log \<Longrightarrow> distinct_ids (fst (log_add n log r))"
  by (auto simp: log_add_def distinct_ids_def)

lemma find_None_occupied:
  "i \<noteq> 0 \<Longrightarrow> find_in_record rs i = None \<Longrightarrow> i \<notin> r_packet_id ` set (occupied rs)"
  by (auto simp: find_in_record_None set_occupied)

interpretation log: ordered_log occupied length array_ok add_to delete_id set_id
proof unfold_locales
  fix rs :: "pub_record list" and r rs' res
  assume ok: "array_ok rs" and i: "r_packet_id r \<noteq> 0" and add: "add_to rs r = (rs', res)"
  obtain pid q st where r: "r = \<lparr>r_packet_id = pid, r_qos = q, r_state = st\<rparr>" by (cases r)
  have spec: "length rs' = length rs" "(occupied rs', res) = log_add (length rs) (occupied rs) r"
    "empties_ok rs'"
    using add_record_spec [of pid rs q st rs' res] ok i add
    by (simp_all add: r add_to_def array_ok_def)
  have "distinct_ids (occupied rs')"
    using distinct_ids_add [of "occupied rs" "length rs" r] ok spec(2) [symmetric]
    by (simp add: array_ok_def)
  with spec show "(occupied rs', res) = log_add (length rs) (occupied rs) r \<and>
      length rs' = length rs \<and> array_ok rs'"
    by (simp add: array_ok_def)
next
  fix rs :: "pub_record list" and i :: u16
  assume "array_ok rs" "i \<noteq> 0"
  then show "occupied (delete_id rs i) = log_del i (occupied rs) \<and>
      length (delete_id rs i) = length rs \<and> array_ok (delete_id rs i)"
    using update_record_log [of i rs _ _ _ PS_Null True]
    by (auto simp: delete_id_def array_ok_def distinct_ids_del log_del_other find_None_occupied
        split: option.split)
next
  fix rs :: "pub_record list" and i :: u16 and st
  assume "array_ok rs" "i \<noteq> 0"
  then show "occupied (set_id rs i st) = log_set i st (occupied rs) \<and>
      length (set_id rs i st) = length rs \<and> array_ok (set_id rs i st)"
    using update_record_log [of i rs _ _ _ st False]
    by (auto simp: set_id_def array_ok_def log_set_other find_None_occupied
        split: option.split)
qed (auto simp: array_ok_def length_occupied_le)

section \<open>The operations on the logs\<close>

text \<open>The two logs of a session and the room each has: the specification of the state
  machine, with no array, no holes and no compaction.\<close>

record session_log =
  sl_out :: "pub_record list"
  sl_in :: "pub_record list"
  sl_out_room :: nat
  sl_in_room :: nat

definition abs_records :: "publish_records \<Rightarrow> session_log" where
  "abs_records s = \<lparr>sl_out = occupied (pr_outgoing s), sl_in = occupied (pr_incoming s),
     sl_out_room = length (pr_outgoing s), sl_in_room = length (pr_incoming s)\<rparr>"

text \<open>The states an outgoing and an incoming record can be in.\<close>

definition outgoing_ok :: "pub_record \<Rightarrow> bool" where
  "outgoing_ok r \<longleftrightarrow> (r_qos r, r_state r) \<in>
     {(AtLeastOnce, PublishSend), (AtLeastOnce, PubAckPending), (ExactlyOnce, PublishSend),
      (ExactlyOnce, PubRecPending), (ExactlyOnce, PubRelSend), (ExactlyOnce, PubCompPending)}"

definition incoming_ok :: "pub_record \<Rightarrow> bool" where
  "incoming_ok r \<longleftrightarrow> (r_qos r, r_state r) \<in>
     {(AtLeastOnce, PubAckSend), (ExactlyOnce, PubRecSend), (ExactlyOnce, PubRelPending),
      (ExactlyOnce, PubCompSend)}"

definition records_inv :: "publish_records \<Rightarrow> bool" where
  "records_inv s \<longleftrightarrow> array_ok (pr_outgoing s) \<and> array_ok (pr_incoming s) \<and>
     list_all outgoing_ok (occupied (pr_outgoing s)) \<and>
     list_all incoming_ok (occupied (pr_incoming s))"

definition spec_reserve :: "session_log \<Rightarrow> u16 \<Rightarrow> qos \<Rightarrow> session_log \<times> (state_error + unit)" where
  "spec_reserve a i q =
     (if q = AtMostOnce then (a, Inr ())
      else if i = 0 then (a, Inl S_BadParameter)
      else case log_add (sl_out_room a) (sl_out a)
                  \<lparr>r_packet_id = i, r_qos = q, r_state = PublishSend\<rparr> of
             (log, res) \<Rightarrow> (a\<lparr>sl_out := log\<rparr>, res))"

definition spec_send_publish ::
    "session_log \<Rightarrow> u16 \<Rightarrow> qos \<Rightarrow> session_log \<times> (state_error + publish_state)" where
  "spec_send_publish a i q =
     (if q = AtMostOnce then (a, Inr PublishDone)
      else if i = 0 then (a, Inl S_BadParameter)
      else case log_find i (sl_out a) of
             None \<Rightarrow> (a, Inl S_BadParameter)
           | Some (q', st) \<Rightarrow>
               if q' \<noteq> q then (a, Inl S_BadParameter)
               else let new = (if q = AtLeastOnce then PubAckPending else PubRecPending)
                    in if st = PublishSend \<or> st = new
                       then (a\<lparr>sl_out := log_set i new (sl_out a)\<rparr>, Inr new)
                       else (a, Inl S_IllegalState))"

definition spec_receive_publish ::
    "session_log \<Rightarrow> u16 \<Rightarrow> qos \<Rightarrow> session_log \<times> (state_error + publish_state)" where
  "spec_receive_publish a i q =
     (if q = AtMostOnce then (a, Inr PublishDone)
      else if i = 0 then (a, Inl S_BadParameter)
      else let new = (if q = AtLeastOnce then PubAckSend else PubRecSend)
           in case log_add (sl_in_room a) (sl_in a)
                     \<lparr>r_packet_id = i, r_qos = q, r_state = new\<rparr> of
                (log, Inl e) \<Rightarrow> (a\<lparr>sl_in := log\<rparr>, Inl e)
              | (log, Inr _) \<Rightarrow> (a\<lparr>sl_in := log\<rparr>, Inr new))"

text \<open>The acknowledgements a record is waiting for, with the state each leads to.\<close>

definition ack_next :: "ack_type \<Rightarrow> operation \<Rightarrow> qos \<Rightarrow> publish_state \<Rightarrow> publish_state option" where
  "ack_next ack op q st = (case (ack, op, q, st) of
      (PubAck, Op_Receive, AtLeastOnce, PubAckPending) \<Rightarrow> Some PublishDone
    | (PubRec, Op_Receive, ExactlyOnce, PubRecPending) \<Rightarrow> Some PubRelSend
    | (PubRel, Op_Send, ExactlyOnce, PubRelSend) \<Rightarrow> Some PubCompPending
    | (PubRel, Op_Send, ExactlyOnce, PubCompPending) \<Rightarrow> Some PubCompPending
    | (PubComp, Op_Receive, ExactlyOnce, PubCompPending) \<Rightarrow> Some PublishDone
    | (PubAck, Op_Send, AtLeastOnce, PubAckSend) \<Rightarrow> Some PublishDone
    | (PubRec, Op_Send, ExactlyOnce, PubRecSend) \<Rightarrow> Some PubRelPending
    | (PubRec, Op_Send, ExactlyOnce, PubRelPending) \<Rightarrow> Some PubRelPending
    | (PubRel, Op_Receive, ExactlyOnce, PubRelPending) \<Rightarrow> Some PubCompSend
    | (PubRel, Op_Receive, ExactlyOnce, PubCompSend) \<Rightarrow> Some PubCompSend
    | (PubComp, Op_Send, ExactlyOnce, PubCompSend) \<Rightarrow> Some PublishDone
    | _ \<Rightarrow> None)"

definition log_ack :: "pub_record list \<Rightarrow> u16 \<Rightarrow> ack_type \<Rightarrow> operation \<Rightarrow>
    pub_record list \<times> (state_error + publish_state)" where
  "log_ack log i ack op =
     (case log_find i log of
        None \<Rightarrow> (log, Inl S_BadResponse)
      | Some (q, st) \<Rightarrow> (case ack_next ack op q st of
            None \<Rightarrow> (log, Inl S_IllegalState)
          | Some PublishDone \<Rightarrow> (log_del i log, Inr PublishDone)
          | Some PubRelSend \<Rightarrow>
              (log_del i log @ [\<lparr>r_packet_id = i, r_qos = ExactlyOnce, r_state = PubRelSend\<rparr>],
               Inr PubRelSend)
          | Some new \<Rightarrow> (log_set i new log, Inr new)))"

definition spec_ack :: "session_log \<Rightarrow> u16 \<Rightarrow> ack_type \<Rightarrow> operation \<Rightarrow>
    session_log \<times> (state_error + publish_state)" where
  "spec_ack a i ack op =
     (if i = 0 then (a, Inl S_BadParameter)
      else if is_publish_outgoing ack op
      then (case log_ack (sl_out a) i ack op of (log, res) \<Rightarrow> (a\<lparr>sl_out := log\<rparr>, res))
      else (case log_ack (sl_in a) i ack op of (log, res) \<Rightarrow> (a\<lparr>sl_in := log\<rparr>, res)))"

definition spec_remove :: "session_log \<Rightarrow> u16 \<Rightarrow> session_log \<times> (state_error + unit)" where
  "spec_remove a i =
     (if i = 0 \<or> log_find i (sl_out a) = None then (a, Inl S_BadParameter)
      else (a\<lparr>sl_out := log_del i (sl_out a)\<rparr>, Inr ()))"

lemma ack_next_table:
  "outgoing_ok r \<Longrightarrow> is_publish_outgoing ack op \<Longrightarrow>
   ack_next ack op (r_qos r) (r_state r) =
     (let new = calculate_state_ack ack op (r_qos r)
      in if validate_transition_ack (r_state r) new then Some new else None)"
  "incoming_ok r \<Longrightarrow> \<not> is_publish_outgoing ack op \<Longrightarrow>
   ack_next ack op (r_qos r) (r_state r) =
     (let new = calculate_state_ack ack op (r_qos r)
      in if validate_transition_ack (r_state r) new then Some new else None)"
  by (cases ack; cases op;
      auto simp: outgoing_ok_def incoming_ok_def is_publish_outgoing_def ack_next_def
        calculate_state_ack_def validate_transition_ack_def)+

lemma ack_next_self: "ack_next ack op q st = Some st \<Longrightarrow> st \<noteq> PublishDone \<and> st \<noteq> PubRelSend"
  by (cases ack; cases op; cases q; cases st; simp add: ack_next_def)

lemma log_find_mem:
  "log_find i log = Some (q, st) \<Longrightarrow>
   \<lparr>r_packet_id = i, r_qos = q, r_state = st\<rparr> \<in> set log"
  by (induction log) (auto simp: log_find_def split: if_splits)

lemma log_find_None: "log_find i log = None \<longleftrightarrow> i \<notin> r_packet_id ` set log"
  by (induction log) (auto simp: log_find_def)

lemma log_find_snoc [simp]:
  "i \<notin> r_packet_id ` set log \<Longrightarrow>
   log_find i (log @ [\<lparr>r_packet_id = i, r_qos = q, r_state = st\<rparr>]) = Some (q, st)"
  by (induction log) (auto simp: log_find_def)

lemma log_set_snoc [simp]:
  "i \<notin> r_packet_id ` set log \<Longrightarrow>
   log_set i st' (log @ [\<lparr>r_packet_id = i, r_qos = q, r_state = st\<rparr>]) =
     log @ [\<lparr>r_packet_id = i, r_qos = q, r_state = st'\<rparr>]"
  using log_set_other [of i log st'] by (simp add: log_set_def)

lemma log_del_snoc [simp]:
  "i \<notin> r_packet_id ` set log \<Longrightarrow>
   log_del i (log @ [\<lparr>r_packet_id = i, r_qos = q, r_state = st\<rparr>]) = log"
  using log_del_other [of i log] by (simp add: log_del_def)

lemma log_set_same:
  "distinct_ids log \<Longrightarrow> log_find i log = Some (q, st) \<Longrightarrow> log_set i st log = log"
proof (induction log)
  case (Cons r log)
  show ?case
  proof (cases "r_packet_id r = i")
    case True
    then have "i \<notin> r_packet_id ` set log" using Cons.prems(1) by (auto simp: distinct_ids_def)
    with True Cons.prems(2) show ?thesis
      using log_set_other [of i log st] by (auto simp: log_set_def log_find_def)
  next
    case False
    with Cons show ?thesis by (auto simp: log_set_def log_find_def distinct_ids_def)
  qed
qed (simp add: log_set_def)

lemma delete_id_update:
  "find_in_record rs i = Some (k, q, st) \<Longrightarrow> update_record rs k new True = delete_id rs i"
  by (simp add: delete_id_def update_record_def)

lemma set_id_update:
  "find_in_record rs i = Some (k, q, st) \<Longrightarrow> update_record rs k new False = set_id rs i new"
  by (simp add: set_id_def)

lemma update_ack_records_log:
  assumes ok: "array_ok rs" and i: "i \<noteq> 0"
    and table: "\<And>r. r \<in> set (occupied rs) \<Longrightarrow> ack_next ack op (r_qos r) (r_state r) =
       (let new = calculate_state_ack ack op (r_qos r)
        in if validate_transition_ack (r_state r) new then Some new else None)"
    and upd: "update_ack_records rs i ack op = (rs', res)"
  shows "(occupied rs', res) = log_ack (occupied rs) i ack op \<and> length rs' = length rs \<and> array_ok rs'"
proof (cases "find_in_record rs i")
  case None
  then show ?thesis
    using upd ok log_find_occupied [OF i, of rs] by (auto simp: update_ack_records_def log_ack_def)
next
  case (Some p)
  obtain k q st where f: "find_in_record rs i = Some (k, q, st)" using Some by (cases p) auto
  have lf: "log_find i (occupied rs) = Some (q, st)" using f i by (simp add: log_find_occupied)
  note mem = log_find_mem [OF lf]
  define new where "new = calculate_state_ack ack op q"
  have nx: "ack_next ack op q st = (if validate_transition_ack st new then Some new else None)"
    using table [OF mem] by (simp add: new_def Let_def)
  have del: "occupied (delete_id rs i) = log_del i (occupied rs)"
    "length (delete_id rs i) = length rs" "array_ok (delete_id rs i)"
    using log.del_law [OF ok i] by auto
  have put: "occupied (set_id rs i new) = log_set i new (occupied rs)"
    "length (set_id rs i new) = length rs" "array_ok (set_id rs i new)"
    using log.put_law [OF ok i] by auto
  show ?thesis
  proof (cases "validate_transition_ack st new")
    case False
    then show ?thesis
      using upd ok lf nx by (auto simp: update_ack_records_def log_ack_def f new_def Let_def)
  next
    case valid: True
    consider (self) "st = new" | (fin) "st \<noteq> new" "new = PublishDone"
      | (move) "st \<noteq> new" "new = PubRelSend"
      | (set) "st \<noteq> new" "new \<noteq> PublishDone" "new \<noteq> PubRelSend" by blast
    then show ?thesis
    proof cases
      case self
      then have "(rs', res) = (rs, Inr new)"
        using upd valid by (simp add: update_ack_records_def f new_def Let_def)
      moreover have "log_ack (occupied rs) i ack op = (log_set i st (occupied rs), Inr st)"
        using nx valid self ack_next_self [of ack op q st] lf
        by (auto simp: log_ack_def split: publish_state.split)
      moreover have "log_set i st (occupied rs) = occupied rs"
        using ok lf log_set_same by (auto simp: array_ok_def)
      ultimately show ?thesis using ok self by simp
    next
      case fin
      then show ?thesis
        using upd valid nx lf del
        by (auto simp: update_ack_records_def log_ack_def f new_def [symmetric] Let_def
            delete_id_update [OF f])
    next
      case move
      let ?r = "\<lparr>r_packet_id = i, r_qos = ExactlyOnce, r_state = PubRelSend\<rparr>"
      obtain rs2 res2 where a: "add_to (delete_id rs i) ?r = (rs2, res2)"
        by (cases "add_to (delete_id rs i) ?r")
      have "i \<in> r_packet_id ` set (occupied rs)" using mem by force
      then have m: "res2 = Inr ()" "occupied rs2 = log_del i (occupied rs) @ [?r]"
        "length rs2 = length rs" "array_ok rs2"
        using log.move_to_end [OF ok, of ?r rs2 res2] a i by auto
      have "(rs', res) = (rs2, Inr PubRelSend)"
        using upd valid move a m(1)
        by (auto simp: update_ack_records_def f new_def [symmetric] Let_def
            delete_id_update [OF f] add_to_def)
      then show ?thesis using m nx valid move lf by (auto simp: log_ack_def)
    next
      case set
      then have "(rs', res) = (set_id rs i new, Inr new)"
        using upd valid
        by (auto simp: update_ack_records_def f new_def [symmetric] Let_def set_id_update [OF f])
      moreover have "log_ack (occupied rs) i ack op = (log_set i new (occupied rs), Inr new)"
        using set nx valid lf by (auto simp: log_ack_def split: publish_state.split)
      ultimately show ?thesis using put by simp
    qed
  qed
qed

section \<open>Every operation keeps the invariant and does what the log says\<close>

lemma log_add_ok:
  "list_all P log \<Longrightarrow> P r \<Longrightarrow> list_all P (fst (log_add n log r))"
  by (auto simp: log_add_def)

lemma log_del_ok: "list_all P log \<Longrightarrow> list_all P (log_del i log)"
  by (auto simp: log_del_def list_all_iff)

lemma log_set_ok:
  "list_all P log \<Longrightarrow> (\<And>r. P r \<Longrightarrow> r_packet_id r = i \<Longrightarrow> r \<in> set log \<Longrightarrow> P (r\<lparr>r_state := st\<rparr>)) \<Longrightarrow>
   list_all P (log_set i st log)"
  by (auto simp: log_set_def list_all_iff)

lemma distinct_same:
  "distinct_ids log \<Longrightarrow> r \<in> set log \<Longrightarrow> r' \<in> set log \<Longrightarrow> r_packet_id r = r_packet_id r' \<Longrightarrow> r = r'"
  by (auto simp: distinct_ids_def distinct_map inj_on_def)

lemma ack_next_keeps:
  "outgoing_ok r \<Longrightarrow> is_publish_outgoing ack op \<Longrightarrow>
   ack_next ack op (r_qos r) (r_state r) = Some new \<Longrightarrow> new \<noteq> PublishDone \<Longrightarrow>
   outgoing_ok (r\<lparr>r_state := new\<rparr>)"
  "incoming_ok r \<Longrightarrow> \<not> is_publish_outgoing ack op \<Longrightarrow>
   ack_next ack op (r_qos r) (r_state r) = Some new \<Longrightarrow> new \<noteq> PublishDone \<Longrightarrow>
   incoming_ok (r\<lparr>r_state := new\<rparr>) \<and> new \<noteq> PubRelSend"
  by (cases ack; cases op;
      auto simp: outgoing_ok_def incoming_ok_def is_publish_outgoing_def ack_next_def)+

lemma log_ack_outgoing:
  assumes "distinct_ids log" "list_all outgoing_ok log" "is_publish_outgoing ack op"
  shows "list_all outgoing_ok (fst (log_ack log i ack op))"
proof (cases "log_find i log")
  case (Some p)
  then obtain q st where f: "log_find i log = Some (q, st)" by (cases p) auto
  note mem = log_find_mem [OF f]
  have set: "list_all outgoing_ok (log_set i new log)"
    if "ack_next ack op q st = Some new" "new \<noteq> PublishDone" for new
  proof (rule log_set_ok [OF assms(2)])
    fix r assume "outgoing_ok r" "r_packet_id r = i" "r \<in> set log"
    then have "r = \<lparr>r_packet_id = i, r_qos = q, r_state = st\<rparr>"
      using distinct_same [OF assms(1) _ mem] by simp
    with \<open>outgoing_ok r\<close> that assms(3) show "outgoing_ok (r\<lparr>r_state := new\<rparr>)"
      using ack_next_keeps(1) [of r ack op new] by simp
  qed
  show ?thesis
    using assms(2) set log_del_ok [OF assms(2)]
    by (auto simp: log_ack_def f outgoing_ok_def split: option.split publish_state.split)
qed (simp add: log_ack_def assms)

lemma log_ack_incoming:
  assumes "distinct_ids log" "list_all incoming_ok log" "\<not> is_publish_outgoing ack op"
  shows "list_all incoming_ok (fst (log_ack log i ack op))"
proof (cases "log_find i log")
  case (Some p)
  then obtain q st where f: "log_find i log = Some (q, st)" by (cases p) auto
  note mem = log_find_mem [OF f]
  have inc: "incoming_ok \<lparr>r_packet_id = i, r_qos = q, r_state = st\<rparr>"
    using mem assms(2) by (auto simp: list_all_iff)
  have set: "list_all incoming_ok (log_set i new log)"
    if "ack_next ack op q st = Some new" "new \<noteq> PublishDone" for new
  proof (rule log_set_ok [OF assms(2)])
    fix r assume "incoming_ok r" "r_packet_id r = i" "r \<in> set log"
    then have "r = \<lparr>r_packet_id = i, r_qos = q, r_state = st\<rparr>"
      using distinct_same [OF assms(1) _ mem] by simp
    with \<open>incoming_ok r\<close> that assms(3) show "incoming_ok (r\<lparr>r_state := new\<rparr>)"
      using ack_next_keeps(2) [of r ack op new] by simp
  qed
  have "ack_next ack op q st \<noteq> Some PubRelSend"
    using ack_next_keeps(2) [OF inc assms(3), of PubRelSend] by auto
  then show ?thesis
    using assms(2) set log_del_ok [OF assms(2)]
    by (auto simp: log_ack_def f split: option.split publish_state.split)
qed (simp add: log_ack_def assms)

lemma reserve_refines:
  assumes inv: "records_inv s" and r: "reserve s i q = (s', res)"
  shows "records_inv s'" "(abs_records s', res) = spec_reserve (abs_records s) i q"
proof -
  have "records_inv s' \<and> (abs_records s', res) = spec_reserve (abs_records s) i q"
  proof (cases "q = AtMostOnce \<or> i = 0")
    case True
    then show ?thesis using inv r by (auto simp: reserve_def spec_reserve_def)
  next
    case False
    let ?r = "\<lparr>r_packet_id = i, r_qos = q, r_state = PublishSend\<rparr>"
    obtain rs where a: "add_to (pr_outgoing s) ?r = (rs, res)" and s': "s' = s\<lparr>pr_outgoing := rs\<rparr>"
      using r False by (auto simp: reserve_def add_to_def split: prod.splits)
    have l: "(occupied rs, res) = log_add (length (pr_outgoing s)) (occupied (pr_outgoing s)) ?r"
      "length rs = length (pr_outgoing s)" "array_ok rs"
      using log.add_law [OF _ _ a] inv False by (auto simp: records_inv_def)
    have "outgoing_ok ?r" using False by (cases q) (auto simp: outgoing_ok_def)
    then have "list_all outgoing_ok (occupied rs)"
      using log_add_ok [of outgoing_ok "occupied (pr_outgoing s)" ?r "length (pr_outgoing s)"]
        l(1) [symmetric] inv by (simp add: records_inv_def)
    then show ?thesis
      using l inv False by (simp add: s' records_inv_def abs_records_def spec_reserve_def
          l(1) [symmetric])
  qed
  then show "records_inv s'" "(abs_records s', res) = spec_reserve (abs_records s) i q" by auto
qed

lemma receive_publish_refines:
  assumes inv: "records_inv s" and r: "update_publish s i Op_Receive q = (s', res)"
  shows "records_inv s'" "(abs_records s', res) = spec_receive_publish (abs_records s) i q"
proof -
  have "records_inv s' \<and> (abs_records s', res) = spec_receive_publish (abs_records s) i q"
  proof (cases "q = AtMostOnce \<or> i = 0")
    case True
    then show ?thesis using inv r by (auto simp: update_publish_def spec_receive_publish_def)
  next
    case False
    define new where "new = (if q = AtLeastOnce then PubAckSend else PubRecSend)"
    let ?r = "\<lparr>r_packet_id = i, r_qos = q, r_state = new\<rparr>"
    have c: "calculate_state_publish Op_Receive q = new"
      "validate_transition_publish PS_Null new Op_Receive q" "incoming_ok ?r"
      using False by (cases q; simp add: new_def calculate_state_publish_def
          validate_transition_publish_def incoming_ok_def)+
    obtain rs res' where a: "add_to (pr_incoming s) ?r = (rs, res')"
      by (cases "add_to (pr_incoming s) ?r")
    have s': "s' = s\<lparr>pr_incoming := rs\<rparr>" and res: "res = rbind res' (\<lambda>_. Inr new)"
      using r False a c by (auto simp: update_publish_def add_to_def split: sum.splits)
    have l: "(occupied rs, res') = log_add (length (pr_incoming s)) (occupied (pr_incoming s)) ?r"
      "length rs = length (pr_incoming s)" "array_ok rs"
      using log.add_law [OF _ _ a] inv False by (auto simp: records_inv_def)
    have "list_all incoming_ok (occupied rs)"
      using log_add_ok [of incoming_ok "occupied (pr_incoming s)" ?r "length (pr_incoming s)"]
        l(1) [symmetric] inv c(3) by (simp add: records_inv_def)
    then show ?thesis
      using l inv False by (simp add: s' res records_inv_def abs_records_def
          spec_receive_publish_def new_def [symmetric] l(1) [symmetric] split: sum.split)
  qed
  then show "records_inv s'" "(abs_records s', res) = spec_receive_publish (abs_records s) i q"
    by auto
qed

lemma send_publish_refines:
  assumes inv: "records_inv s" and r: "update_publish s i Op_Send q = (s', res)"
  shows "records_inv s'" "(abs_records s', res) = spec_send_publish (abs_records s) i q"
proof -
  have "records_inv s' \<and> (abs_records s', res) = spec_send_publish (abs_records s) i q"
  proof (cases "q = AtMostOnce \<or> i = 0 \<or> find_in_record (pr_outgoing s) i = None")
    case True
    then show ?thesis
      using inv r log_find_occupied [of i "pr_outgoing s"]
      by (auto simp: update_publish_def spec_send_publish_def abs_records_def)
  next
    case False
    then obtain k q' st where f: "find_in_record (pr_outgoing s) i = Some (k, q', st)" and i: "i \<noteq> 0"
      by auto
    have lf: "log_find i (occupied (pr_outgoing s)) = Some (q', st)"
      using f i by (simp add: log_find_occupied)
    note mem = log_find_mem [OF lf]
    have ok: "array_ok (pr_outgoing s)" "outgoing_ok \<lparr>r_packet_id = i, r_qos = q', r_state = st\<rparr>"
      using inv mem by (auto simp: records_inv_def list_all_iff)
    define new where "new = (if q = AtLeastOnce then PubAckPending else PubRecPending)"
    have c: "calculate_state_publish Op_Send q = new"
      using False by (cases q) (auto simp: new_def calculate_state_publish_def)
    have v: "q = q' \<Longrightarrow> validate_transition_publish st new Op_Send q \<longleftrightarrow> st = PublishSend \<or> st = new"
      using ok(2) False by (auto simp: new_def outgoing_ok_def validate_transition_publish_def)
    have put: "occupied (set_id (pr_outgoing s) i new) = log_set i new (occupied (pr_outgoing s))"
      "length (set_id (pr_outgoing s) i new) = length (pr_outgoing s)"
      "array_ok (set_id (pr_outgoing s) i new)"
      using log.put_law [OF ok(1) i] by auto
    show ?thesis
    proof (cases "q = q' \<and> (st = PublishSend \<or> st = new)")
      case no: False
      then have "(s', res) = (s, Inl (if q = q' then S_IllegalState else S_BadParameter))"
        using r False f v c by (auto simp: update_publish_def Let_def)
      then show ?thesis
        using no inv False lf by (auto simp: spec_send_publish_def abs_records_def new_def Let_def)
    next
      case yes: True
      have "(s', res) = (s\<lparr>pr_outgoing := set_id (pr_outgoing s) i new\<rparr>, Inr new)"
      proof (cases "st = new")
        case True
        then have "set_id (pr_outgoing s) i new = pr_outgoing s"
          using find_in_record_Some [OF f]
          by (auto simp: set_id_def f update_record_def list_update_same_conv)
        moreover have "(s', res) = (s, Inr new)"
          using True yes r False f v c by (auto simp: update_publish_def Let_def)
        ultimately show ?thesis by simp
      next
        case False2: False
        then show ?thesis
          using yes r False f v c
          by (auto simp: update_publish_def Let_def set_id_update [OF f])
      qed
      moreover have "list_all outgoing_ok (log_set i new (occupied (pr_outgoing s)))"
      proof (rule log_set_ok)
        show "list_all outgoing_ok (occupied (pr_outgoing s))" using inv by (simp add: records_inv_def)
        fix x assume "outgoing_ok x" "r_packet_id x = i" "x \<in> set (occupied (pr_outgoing s))"
        then have "x = \<lparr>r_packet_id = i, r_qos = q', r_state = st\<rparr>"
          using distinct_same [OF _ _ mem] ok(1) by (simp add: array_ok_def)
        then show "outgoing_ok (x\<lparr>r_state := new\<rparr>)"
          using yes False by (cases q) (auto simp: outgoing_ok_def new_def)
      qed
      ultimately show ?thesis
        using put inv lf False yes
        by (auto simp: records_inv_def abs_records_def spec_send_publish_def new_def Let_def)
    qed
  qed
  then show "records_inv s'" "(abs_records s', res) = spec_send_publish (abs_records s) i q"
    by auto
qed

lemma ack_refines:
  assumes inv: "records_inv s" and r: "update_ack s i ack op = (s', res)"
  shows "records_inv s'" "(abs_records s', res) = spec_ack (abs_records s) i ack op"
proof -
  have "records_inv s' \<and> (abs_records s', res) = spec_ack (abs_records s) i ack op"
  proof (cases "i = 0")
    case True
    then show ?thesis using inv r by (auto simp: update_ack_def spec_ack_def)
  next
    case i: False
    show ?thesis
    proof (cases "is_publish_outgoing ack op")
      case out: True
      obtain rs where u: "update_ack_records (pr_outgoing s) i ack op = (rs, res)"
        and s': "s' = s\<lparr>pr_outgoing := rs\<rparr>"
        using r i out by (auto simp: update_ack_def split: prod.splits)
      have l: "(occupied rs, res) = log_ack (occupied (pr_outgoing s)) i ack op"
        "length rs = length (pr_outgoing s)" "array_ok rs"
        using update_ack_records_log [OF _ i _ u] inv ack_next_table(1) out
        by (auto simp: records_inv_def list_all_iff)
      have "list_all outgoing_ok (occupied rs)"
        using log_ack_outgoing [of "occupied (pr_outgoing s)" ack op i] inv out l(1) [symmetric]
        by (simp add: records_inv_def array_ok_def)
      then show ?thesis
        using l inv i out by (simp add: s' records_inv_def abs_records_def spec_ack_def l(1) [symmetric])
    next
      case inc: False
      obtain rs where u: "update_ack_records (pr_incoming s) i ack op = (rs, res)"
        and s': "s' = s\<lparr>pr_incoming := rs\<rparr>"
        using r i inc by (auto simp: update_ack_def split: prod.splits)
      have l: "(occupied rs, res) = log_ack (occupied (pr_incoming s)) i ack op"
        "length rs = length (pr_incoming s)" "array_ok rs"
        using update_ack_records_log [OF _ i _ u] inv ack_next_table(2) inc
        by (auto simp: records_inv_def list_all_iff)
      have "list_all incoming_ok (occupied rs)"
        using log_ack_incoming [of "occupied (pr_incoming s)" ack op i] inv inc l(1) [symmetric]
        by (simp add: records_inv_def array_ok_def)
      then show ?thesis
        using l inv i inc by (simp add: s' records_inv_def abs_records_def spec_ack_def l(1) [symmetric])
    qed
  qed
  then show "records_inv s'" "(abs_records s', res) = spec_ack (abs_records s) i ack op" by auto
qed

lemma remove_refines:
  assumes inv: "records_inv s" and r: "remove_record s i = (s', res)"
  shows "records_inv s'" "(abs_records s', res) = spec_remove (abs_records s) i"
proof -
  have "records_inv s' \<and> (abs_records s', res) = spec_remove (abs_records s) i"
  proof (cases "i = 0 \<or> find_in_record (pr_outgoing s) i = None")
    case True
    then have "(s', res) = (s, Inl S_BadParameter)"
      using r by (cases "i = 0") (simp_all add: remove_record_def)
    with True show ?thesis
      using inv log_find_occupied [of i "pr_outgoing s"]
      by (auto simp: spec_remove_def abs_records_def)
  next
    case False
    then obtain k q st where f: "find_in_record (pr_outgoing s) i = Some (k, q, st)" and i: "i \<noteq> 0"
      by auto
    have lf: "log_find i (occupied (pr_outgoing s)) = Some (q, st)"
      using f i by (simp add: log_find_occupied)
    have ok: "array_ok (pr_outgoing s)" "st \<noteq> PS_Null" "q \<noteq> AtMostOnce"
      using inv log_find_mem [OF lf] by (auto simp: records_inv_def list_all_iff outgoing_ok_def)
    have "(s', res) = (s\<lparr>pr_outgoing := delete_id (pr_outgoing s) i\<rparr>, Inr ())"
      using r i f ok by (simp add: remove_record_def delete_id_update [OF f])
    then show ?thesis
      using log.del_law [OF ok(1) i] inv i lf
      by (auto simp: records_inv_def abs_records_def spec_remove_def log_del_ok)
  qed
  then show "records_inv s'" "(abs_records s', res) = spec_remove (abs_records s) i" by auto
qed

section \<open>Sessions\<close>

text \<open>The operations as one alphabet, and the states a session reaches from fresh arrays.\<close>

datatype state_op =
    O_Reserve u16 qos
  | O_Publish u16 operation qos
  | O_Ack u16 ack_type operation
  | O_Remove u16
  | O_ClearOutgoing
  | O_ClearIncoming
  | O_Cap nat nat

fun run_op :: "publish_records \<Rightarrow> state_op \<Rightarrow> publish_records \<times> (state_error + publish_state)" where
  "run_op s (O_Reserve i q) = (case reserve s i q of
      (s', Inl e) \<Rightarrow> (s', Inl e) | (s', Inr _) \<Rightarrow> (s', Inr PublishSend))"
| "run_op s (O_Publish i op q) = update_publish s i op q"
| "run_op s (O_Ack i ack op) = update_ack s i ack op"
| "run_op s (O_Remove i) = (case remove_record s i of
      (s', Inl e) \<Rightarrow> (s', Inl e) | (s', Inr _) \<Rightarrow> (s', Inr PublishDone))"
| "run_op s O_ClearOutgoing = (clear_outgoing s, Inr PublishDone)"
| "run_op s O_ClearIncoming = (clear_incoming s, Inr PublishDone)"
| "run_op s (O_Cap n m) = (cap s n m, Inr PublishDone)"

inductive session_reach :: "publish_records \<Rightarrow> bool" where
  fresh: "session_reach (records_new outgoing incoming)"
| step: "session_reach s \<Longrightarrow> session_reach (fst (run_op s op))"

lemma array_ok_take: "array_ok rs \<Longrightarrow> array_ok (take n rs)"
proof -
  assume ok: "array_ok rs"
  have "occupied rs = occupied (take n rs) @ occupied (drop n rs)"
    by (metis append_take_drop_id occupied_simps(3))
  with ok show ?thesis
    by (auto simp: array_ok_def distinct_ids_def empties_ok_def dest: in_set_takeD)
qed

lemma list_all_occupied_take: "list_all P (occupied rs) \<Longrightarrow> list_all P (occupied (take n rs))"
  by (auto simp: list_all_iff set_occupied dest: in_set_takeD)

lemma array_ok_replicate [simp]: "array_ok (replicate n empty_record)"
  by (auto simp: array_ok_def empties_ok_def distinct_ids_def)

lemma run_op_inv: "records_inv s \<Longrightarrow> records_inv (fst (run_op s op))"
proof (cases op)
  case (O_Publish i dir q)
  assume "records_inv s"
  then show ?thesis
    using send_publish_refines(1) receive_publish_refines(1) O_Publish
    by (cases dir) (metis prod.collapse run_op.simps(2))+
next
  case (O_Ack i ack dir)
  assume "records_inv s"
  then show ?thesis
    using ack_refines(1) O_Ack by (metis prod.collapse run_op.simps(3))
next
  case O_ClearOutgoing
  assume "records_inv s"
  then show ?thesis by (simp add: O_ClearOutgoing clear_outgoing_def records_inv_def)
next
  case O_ClearIncoming
  assume "records_inv s"
  then show ?thesis by (simp add: O_ClearIncoming clear_incoming_def records_inv_def)
next
  case (O_Cap n m)
  assume "records_inv s"
  then show ?thesis
    by (simp add: O_Cap cap_def records_inv_def array_ok_take list_all_occupied_take Let_def)
qed (auto split: prod.split sum.split dest: reserve_refines(1) remove_refines(1))

text \<open>C3. From two fresh arrays, under any sequence of reservations, publishes,
  acknowledgements in both directions, removals, clean sessions and caps, every array keeps
  its empty slots zeroed, no packet id stands twice in it, and every record is at a point of
  the handshake of its own QoS and direction.\<close>

theorem session_invariant:
  assumes "session_reach s"
  shows "array_ok (pr_outgoing s) \<and>
    array_ok (pr_incoming s) \<and>
    list_all outgoing_ok (occupied (pr_outgoing s)) \<and>
    list_all incoming_ok (occupied (pr_incoming s))"
proof (intro conjI)
  from assms have "records_inv s"
  proof (induction rule: session_reach.induct)
    case (fresh outgoing incoming)
    show ?case by (simp add: records_new_def records_inv_def)
  next
    case (step s op)
    then show ?case using run_op_inv by blast
  qed
  then show "array_ok (pr_outgoing s)" "array_ok (pr_incoming s)"
    "list_all outgoing_ok (occupied (pr_outgoing s))"
    "list_all incoming_ok (occupied (pr_incoming s))"
    by (simp_all add: records_inv_def)
qed

theorem session_invariant_witness:
  "list_all outgoing_ok (occupied (pr_outgoing
     (fst (run_op (records_new [empty_record] []) (O_Reserve 7 AtLeastOnce)))))"
  using session_invariant [OF session_reach.step [OF session_reach.fresh]] by blast

text \<open>C2. The arrays refine the logs: on a state that satisfies the invariant, each of the
  five operations gives the answer its specification gives on the two lists of occupied
  records, and leaves those lists as the specification does. The specification appends,
  filters and maps lists; it has no holes, no compaction, no indices and no order of search,
  and its acknowledgement cannot fail for lack of room.\<close>

theorem records_refine_logs:
  assumes "records_inv s"
  shows "map_prod abs_records (\<lambda>x. x) (reserve s i q) = spec_reserve (abs_records s) i q \<and>
    map_prod abs_records (\<lambda>x. x) (update_publish s i Op_Send q)
      = spec_send_publish (abs_records s) i q \<and>
    map_prod abs_records (\<lambda>x. x) (update_publish s i Op_Receive q)
      = spec_receive_publish (abs_records s) i q \<and>
    map_prod abs_records (\<lambda>x. x) (update_ack s i ack op) = spec_ack (abs_records s) i ack op \<and>
    map_prod abs_records (\<lambda>x. x) (remove_record s i) = spec_remove (abs_records s) i"
  using reserve_refines(2) [OF assms prod.collapse [symmetric], of i q]
    send_publish_refines(2) [OF assms prod.collapse [symmetric], of i q]
    receive_publish_refines(2) [OF assms prod.collapse [symmetric], of i q]
    ack_refines(2) [OF assms prod.collapse [symmetric], of i ack op]
    remove_refines(2) [OF assms prod.collapse [symmetric], of i]
  by (simp_all add: map_prod_def split_def)

theorem records_refine_logs_witness:
  "map_prod abs_records (\<lambda>x. x) (update_ack (records_new [empty_record] []) 7 PubAck Op_Receive)
    = spec_ack (abs_records (records_new [empty_record] [])) 7 PubAck Op_Receive"
proof -
  have "records_inv (records_new [empty_record] [])"
    by (simp add: records_new_def records_inv_def array_ok_def empties_ok_def distinct_ids_def)
  from records_refine_logs [OF this, of 7 _ PubAck Op_Receive] show ?thesis by blast
qed

text \<open>The PUBREC move: when a PUBREC arrives for an outgoing publish that waits for one,
  the answer is the PUBREL that is owed, never a full array or a collision; the record leaves
  its place and stands at the end of the log, the others keep their order. So PUBRELs are
  resent in the order their PUBRECs arrived.\<close>

theorem pubrec_moves_to_end:
  assumes "records_inv s" "i \<noteq> 0"
    and "\<lparr>r_packet_id = i, r_qos = ExactlyOnce, r_state = PubRecPending\<rparr> \<in> set (pr_outgoing s)"
  shows "snd (update_ack s i PubRec Op_Receive) = Inr PubRelSend \<and>
    occupied (pr_outgoing (fst (update_ack s i PubRec Op_Receive)))
      = filter (\<lambda>r. r_packet_id r \<noteq> i) (occupied (pr_outgoing s))
        @ [\<lparr>r_packet_id = i, r_qos = ExactlyOnce, r_state = PubRelSend\<rparr>] \<and>
    pr_incoming (fst (update_ack s i PubRec Op_Receive)) = pr_incoming s"
proof (intro conjI)
  let ?r = "\<lparr>r_packet_id = i, r_qos = ExactlyOnce, r_state = PubRecPending\<rparr>"
  have mem: "?r \<in> set (occupied (pr_outgoing s))" using assms by (simp add: set_occupied)
  then obtain q st where f: "log_find i (occupied (pr_outgoing s)) = Some (q, st)"
    using log_find_None [of i "occupied (pr_outgoing s)"]
    by (cases "log_find i (occupied (pr_outgoing s))") (use mem in force)+
  then have "\<lparr>r_packet_id = i, r_qos = q, r_state = st\<rparr> = ?r"
    using distinct_same [OF _ log_find_mem [OF f] mem] assms(1)
    by (simp add: records_inv_def array_ok_def)
  with f have f: "log_find i (sl_out (abs_records s)) = Some (ExactlyOnce, PubRecPending)"
    by (simp add: abs_records_def)
  obtain s' res where u: "update_ack s i PubRec Op_Receive = (s', res)"
    by (cases "update_ack s i PubRec Op_Receive")
  have "(abs_records s', res) = spec_ack (abs_records s) i PubRec Op_Receive"
    by (rule ack_refines(2) [OF assms(1) u])
  then have "res = Inr PubRelSend" "abs_records s' = (abs_records s)\<lparr>sl_out :=
      log_del i (occupied (pr_outgoing s))
      @ [\<lparr>r_packet_id = i, r_qos = ExactlyOnce, r_state = PubRelSend\<rparr>]\<rparr>"
    using assms(2) f
    by (simp_all add: spec_ack_def is_publish_outgoing_def log_ack_def ack_next_def abs_records_def)
  moreover have "pr_incoming s' = pr_incoming s"
    using u assms(2) by (auto simp: update_ack_def is_publish_outgoing_def split: prod.splits)
  ultimately show "snd (update_ack s i PubRec Op_Receive) = Inr PubRelSend"
    "occupied (pr_outgoing (fst (update_ack s i PubRec Op_Receive)))
      = filter (\<lambda>r. r_packet_id r \<noteq> i) (occupied (pr_outgoing s))
        @ [\<lparr>r_packet_id = i, r_qos = ExactlyOnce, r_state = PubRelSend\<rparr>]"
    "pr_incoming (fst (update_ack s i PubRec Op_Receive)) = pr_incoming s"
    by (auto simp: u abs_records_def log_del_def)
qed

theorem pubrec_moves_to_end_witness:
  "snd (update_ack \<lparr>pr_outgoing =
      [\<lparr>r_packet_id = 7, r_qos = ExactlyOnce, r_state = PubRecPending\<rparr>,
       \<lparr>r_packet_id = 8, r_qos = AtLeastOnce, r_state = PublishSend\<rparr>], pr_incoming = []\<rparr>
      7 PubRec Op_Receive) = Inr PubRelSend"
  by (rule pubrec_moves_to_end [THEN conjunct1])
    (simp_all add: records_inv_def array_ok_def empties_ok_def distinct_ids_def outgoing_ok_def)

fun run_ops :: "publish_records \<Rightarrow> state_op list \<Rightarrow>
    publish_records \<times> (state_error + publish_state) list" where
  "run_ops s [] = (s, [])"
| "run_ops s (op # ops) = (case run_op s op of
      (s1, res) \<Rightarrow> (case run_ops s1 ops of (s2, out) \<Rightarrow> (s2, res # out)))"

fun spec_op :: "session_log \<Rightarrow> state_op \<Rightarrow> session_log \<times> (state_error + publish_state)" where
  "spec_op a (O_Reserve i q) = (case spec_reserve a i q of
      (a', Inl e) \<Rightarrow> (a', Inl e) | (a', Inr _) \<Rightarrow> (a', Inr PublishSend))"
| "spec_op a (O_Publish i Op_Send q) = spec_send_publish a i q"
| "spec_op a (O_Publish i Op_Receive q) = spec_receive_publish a i q"
| "spec_op a (O_Ack i ack op) = spec_ack a i ack op"
| "spec_op a (O_Remove i) = (case spec_remove a i of
      (a', Inl e) \<Rightarrow> (a', Inl e) | (a', Inr _) \<Rightarrow> (a', Inr PublishDone))"
| "spec_op a _ = (a, Inr PublishDone)"

fun log_op :: "state_op \<Rightarrow> bool" where
  "log_op O_ClearOutgoing = False" | "log_op O_ClearIncoming = False"
| "log_op (O_Cap n m) = False" | "log_op _ = True"

lemma run_op_refines:
  assumes "records_inv s" "run_op s op = (s', res)" "log_op op"
  shows "(abs_records s', res) = spec_op (abs_records s) op"
proof (cases op)
  case (O_Reserve i q)
  obtain s1 r1 where "reserve s i q = (s1, r1)" by (cases "reserve s i q")
  then show ?thesis
    using reserve_refines(2) [OF assms(1), of i q s1 r1] assms(2) O_Reserve
    by (cases r1) (auto split: prod.split)
next
  case (O_Publish i dir q)
  then show ?thesis
    using assms send_publish_refines(2) receive_publish_refines(2) by (cases dir) auto
next
  case (O_Remove i)
  obtain s1 r1 where "remove_record s i = (s1, r1)" by (cases "remove_record s i")
  then show ?thesis
    using remove_refines(2) [OF assms(1), of i s1 r1] assms(2) O_Remove
    by (cases r1) (auto split: prod.split)
qed (use assms ack_refines(2) in auto)

fun spec_ops :: "session_log \<Rightarrow> state_op list \<Rightarrow>
    session_log \<times> (state_error + publish_state) list" where
  "spec_ops a [] = (a, [])"
| "spec_ops a (op # ops) = (case spec_op a op of
      (a1, res) \<Rightarrow> (case spec_ops a1 ops of (a2, out) \<Rightarrow> (a2, res # out)))"

lemma run_ops_refines:
  "records_inv s \<Longrightarrow> list_all log_op ops \<Longrightarrow>
   spec_ops (abs_records s) ops = (abs_records (fst (run_ops s ops)), snd (run_ops s ops))"
proof (induction ops arbitrary: s)
  case (Cons op ops)
  obtain s1 res where r: "run_op s op = (s1, res)" by (cases "run_op s op")
  have "spec_op (abs_records s) op = (abs_records s1, res)"
    using run_op_refines [OF Cons.prems(1) r] Cons.prems(2) by simp
  moreover have "records_inv s1" using run_op_inv [OF Cons.prems(1), of op] r by simp
  ultimately show ?case using Cons.IH [of s1] Cons.prems(2) r by (simp add: split_def)
qed simp

text \<open>C40. The handshakes complete: for a packet id that is not in flight, in arrays with
  room, the packets of an outgoing QoS 1, an outgoing QoS 2, an incoming QoS 1 and an
  incoming QoS 2 exchange, in order, are all accepted with the states of the protocol, and
  the last one leaves both logs as they were before the first.\<close>

theorem handshakes_complete:
  assumes "records_inv s" "i \<noteq> 0"
    and "i \<notin> r_packet_id ` set (occupied (pr_outgoing s))"
    and "i \<notin> r_packet_id ` set (occupied (pr_incoming s))"
    and "length (occupied (pr_outgoing s)) < length (pr_outgoing s)"
    and "length (occupied (pr_incoming s)) < length (pr_incoming s)"
  shows "map_prod abs_records (\<lambda>x. x) (run_ops s [O_Reserve i AtLeastOnce,
        O_Publish i Op_Send AtLeastOnce, O_Ack i PubAck Op_Receive])
      = (abs_records s, [Inr PublishSend, Inr PubAckPending, Inr PublishDone]) \<and>
    map_prod abs_records (\<lambda>x. x) (run_ops s [O_Reserve i ExactlyOnce,
        O_Publish i Op_Send ExactlyOnce, O_Ack i PubRec Op_Receive, O_Ack i PubRel Op_Send,
        O_Ack i PubComp Op_Receive])
      = (abs_records s, [Inr PublishSend, Inr PubRecPending, Inr PubRelSend,
          Inr PubCompPending, Inr PublishDone]) \<and>
    map_prod abs_records (\<lambda>x. x) (run_ops s [O_Publish i Op_Receive AtLeastOnce,
        O_Ack i PubAck Op_Send])
      = (abs_records s, [Inr PubAckSend, Inr PublishDone]) \<and>
    map_prod abs_records (\<lambda>x. x) (run_ops s [O_Publish i Op_Receive ExactlyOnce,
        O_Ack i PubRec Op_Send, O_Ack i PubRel Op_Receive, O_Ack i PubComp Op_Send])
      = (abs_records s, [Inr PubRecSend, Inr PubRelPending, Inr PubCompSend, Inr PublishDone])"
proof (intro conjI)
  have n: "i \<notin> r_packet_id ` set (sl_out (abs_records s))" "\<not> sl_out_room (abs_records s) \<le> length (sl_out (abs_records s))"
    "i \<notin> r_packet_id ` set (sl_in (abs_records s))" "\<not> sl_in_room (abs_records s) \<le> length (sl_in (abs_records s))"
    using assms by (simp_all add: abs_records_def)
  have run: "map_prod abs_records (\<lambda>x. x) (run_ops s ops) = spec_ops (abs_records s) ops"
    if "list_all log_op ops" for ops
    using run_ops_refines [OF assms(1) that] by (simp add: map_prod_def split_def)
  note defs = spec_reserve_def spec_send_publish_def spec_receive_publish_def spec_ack_def
    log_add_def log_ack_def ack_next_def is_publish_outgoing_def assms(2) n
  show "map_prod abs_records (\<lambda>x. x) (run_ops s [O_Reserve i AtLeastOnce,
        O_Publish i Op_Send AtLeastOnce, O_Ack i PubAck Op_Receive])
      = (abs_records s, [Inr PublishSend, Inr PubAckPending, Inr PublishDone])"
    by (subst run) (simp_all add: defs)
  show "map_prod abs_records (\<lambda>x. x) (run_ops s [O_Reserve i ExactlyOnce,
        O_Publish i Op_Send ExactlyOnce, O_Ack i PubRec Op_Receive, O_Ack i PubRel Op_Send,
        O_Ack i PubComp Op_Receive])
      = (abs_records s, [Inr PublishSend, Inr PubRecPending, Inr PubRelSend,
          Inr PubCompPending, Inr PublishDone])"
    by (subst run) (simp_all add: defs)
  show "map_prod abs_records (\<lambda>x. x) (run_ops s [O_Publish i Op_Receive AtLeastOnce,
        O_Ack i PubAck Op_Send])
      = (abs_records s, [Inr PubAckSend, Inr PublishDone])"
    by (subst run) (simp_all add: defs)
  show "map_prod abs_records (\<lambda>x. x) (run_ops s [O_Publish i Op_Receive ExactlyOnce,
        O_Ack i PubRec Op_Send, O_Ack i PubRel Op_Receive, O_Ack i PubComp Op_Send])
      = (abs_records s, [Inr PubRecSend, Inr PubRelPending, Inr PubCompSend, Inr PublishDone])"
    by (subst run) (simp_all add: defs)
qed

theorem handshakes_complete_witness:
  "map_prod abs_records (\<lambda>x. x) (run_ops (records_new [empty_record] [empty_record])
      [O_Reserve 7 AtLeastOnce, O_Publish 7 Op_Send AtLeastOnce, O_Ack 7 PubAck Op_Receive])
    = (abs_records (records_new [empty_record] [empty_record]),
       [Inr PublishSend, Inr PubAckPending, Inr PublishDone])"
  by (rule handshakes_complete [THEN conjunct1])
    (simp_all add: records_new_def records_inv_def array_ok_def empties_ok_def distinct_ids_def)

text \<open>The loop of a resuming session over the cursor function, with a bound on the calls.\<close>

fun resend_walk :: "nat \<Rightarrow> publish_records \<Rightarrow> nat \<Rightarrow> u16 list option" where
  "resend_walk 0 s cursor = None"
| "resend_walk (Suc fuel) s cursor =
     (case publish_to_resend s cursor of
        (cursor', None) \<Rightarrow> Some []
      | (cursor', Some i) \<Rightarrow> map_option ((#) i) (resend_walk fuel s cursor'))"

lemma resend_walk_selected:
  assumes e: "empties_ok (pr_outgoing s)"
  shows "length (selected [PublishSend, PubAckPending, PubRecPending] (drop c (pr_outgoing s))) < n
    \<Longrightarrow> resend_walk n s c
      = Some (selected [PublishSend, PubAckPending, PubRecPending] (drop c (pr_outgoing s)))"
proof (induction n arbitrary: c)
  case (Suc n)
  let ?w = "[PublishSend, PubAckPending, PubRecPending]"
  obtain c' i where st: "state_select (pr_outgoing s) ?w c = (c', i)"
    by (cases "state_select (pr_outgoing s) ?w c")
  have sel: "i = (case selected ?w (drop c (pr_outgoing s)) of [] \<Rightarrow> 0 | i # _ \<Rightarrow> i)"
    "selected ?w (drop c' (pr_outgoing s)) = tl (selected ?w (drop c (pr_outgoing s)))"
    using state_select_log [OF e, of ?w c] st by auto
  show ?case
  proof (cases "selected ?w (drop c (pr_outgoing s))")
    case Nil
    then show ?thesis using sel st by (simp add: publish_to_resend_def)
  next
    case (Cons j js)
    then have "j \<noteq> 0" using selected_pos [of j ?w "drop c (pr_outgoing s)"] by simp
    then show ?thesis
      using Suc.IH [of c'] Suc.prems sel st Cons by (simp add: publish_to_resend_def)
  qed
qed simp

text \<open>Resending visits every owed publish exactly once, in order: calling the cursor
  function from the beginning until it answers none takes one call more than there are
  outgoing records owing a PUBLISH, and yields their packet ids in log order.\<close>

theorem resend_visits_all:
  assumes "records_inv s" and "length (pr_outgoing s) < n"
  shows "resend_walk n s 0 = Some (map r_packet_id
    (filter (\<lambda>r. r_state r \<in> {PublishSend, PubAckPending, PubRecPending})
      (occupied (pr_outgoing s))))"
proof -
  have "length (selected [PublishSend, PubAckPending, PubRecPending] (pr_outgoing s)) < n"
    using assms(2) length_occupied_le [of "pr_outgoing s"]
      length_filter_le [of _ "occupied (pr_outgoing s)"]
    unfolding selected_def by (simp only: length_map) (meson le_less_trans)
  then show ?thesis
    using resend_walk_selected [of s 0 n] assms(1)
    by (simp add: records_inv_def array_ok_def selected_def)
qed

theorem resend_visits_all_witness:
  "resend_walk 3 \<lparr>pr_outgoing =
      [\<lparr>r_packet_id = 7, r_qos = ExactlyOnce, r_state = PubRelSend\<rparr>,
       \<lparr>r_packet_id = 8, r_qos = AtLeastOnce, r_state = PublishSend\<rparr>], pr_incoming = []\<rparr> 0
    = Some [8]"
  by (subst resend_visits_all)
    (simp_all add: records_inv_def array_ok_def empties_ok_def distinct_ids_def outgoing_ok_def)

end
