(* ===== verification/Tables.thy ===== *)
theory Tables
  imports Property
begin

text \<open>
  What the property tables of the crate have in common: each takes a property if it is allowed
  with its value and, unless it may repeat, was not seen before. The locale states that
  contract of a table and derives from it, once, which lists of properties a table takes;
  with the locale of the loop this says which sections a walk accepts.
\<close>

definition once_ids :: "(byte \<Rightarrow> bool) \<Rightarrow> (byte \<times> prop_value) list \<Rightarrow> byte list" where
  "once_ids once ps = filter once (map fst ps)"

lemma once_ids_simps [simp]:
  "once_ids once [] = []"
  "once_ids once ((pid, v) # ps) = (if once pid then pid # once_ids once ps else once_ids once ps)"
  by (simp_all add: once_ids_def)

definition table_takes ::
    "(byte \<times> prop_value \<Rightarrow> bool) \<Rightarrow> (byte \<Rightarrow> bool) \<Rightarrow> (byte \<times> prop_value) list \<Rightarrow> bool" where
  "table_takes ok once ps \<longleftrightarrow> list_all ok ps \<and> distinct (once_ids once ps)"

text \<open>The sections a table accepts: shorter than 2^28, and the encoding of such a list.\<close>

definition table_section ::
    "(byte \<times> prop_value \<Rightarrow> bool) \<Rightarrow> (byte \<Rightarrow> bool) \<Rightarrow> bytes \<Rightarrow> bool" where
  "table_section ok once sec \<longleftrightarrow> length sec < 268435456 \<and>
     (\<exists>ps. table_takes ok once ps \<and> list_all (\<lambda>(_, v). pv_ok v) ps \<and> sec = section_bytes ps)"

lemma table_takes_Nil [simp]: "table_takes ok once []"
  by (simp add: table_takes_def)

lemma table_section_Nil [simp]: "table_section ok once []"
  by (auto simp: table_section_def intro!: exI [of _ "[]"])

locale once_table =
  fixes ap :: "'s \<Rightarrow> byte \<Rightarrow> prop_value \<Rightarrow> 's option"
    and ok :: "byte \<times> prop_value \<Rightarrow> bool"
    and once :: "byte \<Rightarrow> bool"
    and seen :: "'s \<Rightarrow> byte \<Rightarrow> bool"
  assumes takes: "(\<exists>s'. ap s pid v = Some s') \<longleftrightarrow> ok (pid, v) \<and> \<not> (once pid \<and> seen s pid)"
    and sees: "ap s pid v = Some s' \<Longrightarrow> seen s' q \<longleftrightarrow> seen s q \<or> once pid \<and> q = pid"
begin

lemma apply_all_takes:
  "(\<exists>s'. apply_all ap s ps = Some s') \<longleftrightarrow>
     table_takes ok once ps \<and> list_all (\<lambda>pid. \<not> seen s pid) (once_ids once ps)"
proof (induction ps arbitrary: s)
  case Nil
  show ?case by simp
next
  case (Cons p ps)
  obtain pid v where p: "p = (pid, v)" by (cases p)
  have "(\<exists>s'. apply_all ap s (p # ps) = Some s') \<longleftrightarrow>
      (\<exists>s1. ap s pid v = Some s1 \<and> (\<exists>s'. apply_all ap s1 ps = Some s'))"
    by (auto simp: p bind_eq_Some_conv)
  also have "\<dots> \<longleftrightarrow> (\<exists>s1. ap s pid v = Some s1 \<and> table_takes ok once ps \<and>
      list_all (\<lambda>q. \<not> (seen s q \<or> once pid \<and> q = pid)) (once_ids once ps))"
    unfolding Cons.IH using sees [of s pid v] by (auto simp: list_all_iff)
  also have "\<dots> \<longleftrightarrow> ok (pid, v) \<and> \<not> (once pid \<and> seen s pid) \<and> table_takes ok once ps \<and>
      list_all (\<lambda>q. \<not> (seen s q \<or> once pid \<and> q = pid)) (once_ids once ps)"
    using takes [of s pid v] by blast
  also have "\<dots> \<longleftrightarrow> table_takes ok once (p # ps) \<and>
      list_all (\<lambda>q. \<not> seen s q) (once_ids once (p # ps))"
    by (auto simp: p table_takes_def list_all_iff once_ids_def)
  finally show ?case .
qed

lemma apply_all_fresh:
  "\<forall>pid. once pid \<longrightarrow> \<not> seen s pid \<Longrightarrow>
   (\<exists>s'. apply_all ap s ps = Some s') \<longleftrightarrow> table_takes ok once ps"
  unfolding apply_all_takes by (auto simp: list_all_iff once_ids_def)

end

text \<open>A loop whose body is such a table: the sections it accepts.\<close>

locale walked_table = section_table body ap + once_table ap ok once seen
  for body :: "'s \<Rightarrow> property_reader \<Rightarrow> byte \<Rightarrow> property_reader \<times> ('e + 's)"
    and ap ok once seen
begin

lemma walk_ok:
  assumes "length bs = unat n" and "\<forall>pid. once pid \<longrightarrow> \<not> seen s pid"
  shows "(\<exists>r' s'. section_loop body err s (reader_new bs n) = (r', Inr s') \<and> P s') \<longleftrightarrow>
    (\<exists>ps. table_takes ok once ps \<and> list_all (\<lambda>(_, v). pv_ok v) ps \<and> bs = section_bytes ps \<and>
       P (the (apply_all ap s ps)))"
proof -
  have "(\<exists>r' s'. section_loop body err s (reader_new bs n) = (r', Inr s') \<and> P s') \<longleftrightarrow>
    (\<exists>s'. (\<exists>r'. section_loop body err s (reader_new bs n) = (r', Inr s')) \<and> P s')" by blast
  also have "\<dots> \<longleftrightarrow> (\<exists>ps. list_all (\<lambda>(_, v). pv_ok v) ps \<and> bs = section_bytes ps \<and>
      (\<exists>s'. apply_all ap s ps = Some s' \<and> P s'))"
    unfolding section_ok [OF assms(1)] list_all_iff by blast
  also have "\<dots> \<longleftrightarrow> (\<exists>ps. list_all (\<lambda>(_, v). pv_ok v) ps \<and> bs = section_bytes ps \<and>
      (\<exists>s'. apply_all ap s ps = Some s') \<and> P (the (apply_all ap s ps)))" by force
  also have "\<dots> \<longleftrightarrow> (\<exists>ps. table_takes ok once ps \<and> list_all (\<lambda>(_, v). pv_ok v) ps \<and>
       bs = section_bytes ps \<and> P (the (apply_all ap s ps)))"
    unfolding apply_all_fresh [OF assms(2)] by blast
  finally show ?thesis .
qed

end

text \<open>A body that must be filled exactly by a property section: the length is decoded, compared
  with what is left after \<open>k\<close> bytes, and the section is sliced out. The variables stand for the
  rest of the function.\<close>

lemma exact_block_tail:
  "rbind (map_err h (decode_variable_length after)) (\<lambda>n.
      if rem \<noteq> sat_add (sat_add n (variable_length_encoded_size n)) k then Inl e
      else rbind (map_err g (ok_or e' (slice after (unat (variable_length_encoded_size n))
             (unat (variable_length_encoded_size n) + unat n)))) (\<lambda>sec. W sec n)) = Inr c \<longleftrightarrow>
   (\<exists>sec. length sec < 268435456 \<and> after = property_block sec \<and>
      W sec (word_of_nat (length sec)) = Inr c)"
  if "unat rem = length after + unat k" "unat k < 65536"
proof -
  have eq: "rem = sat_add (sat_add n (variable_length_encoded_size n)) k \<longleftrightarrow>
      length after = length (property_block sec)"
    if "length sec < 268435456" "n = word_of_nat (length sec)" for n sec
    using that length_vl_encode_le_4 [of "length sec"] \<open>unat rem = _\<close> \<open>unat k < _\<close>
    by (auto simp: word_unat_eq_iff unat_simps unat_u32_of_nat length_property_block
        simp del: of_nat_add)
  have fill: "(decode_variable_length after = Inr n \<and>
      slice after (unat (variable_length_encoded_size n))
        (unat (variable_length_encoded_size n) + unat n) = Some sec) \<and>
      rem = sat_add (sat_add n (variable_length_encoded_size n)) k \<longleftrightarrow>
     length sec < 268435456 \<and> n = word_of_nat (length sec) \<and> after = property_block sec" for n sec
  proof (cases "length sec < 268435456 \<and> n = word_of_nat (length sec)")
    case True
    then show ?thesis unfolding property_block_read using eq [of sec n] by auto
  next
    case False
    then show ?thesis unfolding property_block_read by blast
  qed
  have "rbind (map_err h (decode_variable_length after)) (\<lambda>n.
      if rem \<noteq> sat_add (sat_add n (variable_length_encoded_size n)) k then Inl e
      else rbind (map_err g (ok_or e' (slice after (unat (variable_length_encoded_size n))
             (unat (variable_length_encoded_size n) + unat n)))) (\<lambda>sec. W sec n)) = Inr c \<longleftrightarrow>
    (\<exists>sec n. ((decode_variable_length after = Inr n \<and>
      slice after (unat (variable_length_encoded_size n))
        (unat (variable_length_encoded_size n) + unat n) = Some sec) \<and>
      rem = sat_add (sat_add n (variable_length_encoded_size n)) k) \<and> W sec n = Inr c)"
    by (cases "decode_variable_length after") (auto simp: rbind_eq_Inr map_err_eq_Inr ok_or_eq_Inr)
  then show ?thesis unfolding fill by auto
qed

end
