(* ===== verification/Publish.thy ===== *)
theory Publish
  imports Ack Records Tables
begin

text \<open>
  Reading an incoming PUBLISH (src/crates/rusty_rtos_mqtt-core/src/publish.rs): the flags in
  the type byte, the floors on the remaining length, the eight properties, and the layout of
  the body with the packet identifier that only QoS 1 and 2 carry.
\<close>

abbreviation (input) P_PAYLOAD_FORMAT :: byte where "P_PAYLOAD_FORMAT \<equiv> 0x01"
abbreviation (input) P_MESSAGE_EXPIRY :: byte where "P_MESSAGE_EXPIRY \<equiv> 0x02"
abbreviation (input) P_CONTENT_TYPE :: byte where "P_CONTENT_TYPE \<equiv> 0x03"
abbreviation (input) P_RESPONSE_TOPIC :: byte where "P_RESPONSE_TOPIC \<equiv> 0x08"
abbreviation (input) P_CORRELATION_DATA :: byte where "P_CORRELATION_DATA \<equiv> 0x09"
abbreviation (input) P_SUBSCRIPTION_ID :: byte where "P_SUBSCRIPTION_ID \<equiv> 0x0B"
abbreviation (input) P_TOPIC_ALIAS :: byte where "P_TOPIC_ALIAS \<equiv> 0x23"
abbreviation (input) P_USER_PROPERTY :: byte where "P_USER_PROPERTY \<equiv> 0x26"

text \<open>\<open>mod flag\<close>.\<close>

abbreviation (input) FLAG_RETAIN :: nat where "FLAG_RETAIN \<equiv> 0"
abbreviation (input) FLAG_QOS1 :: nat where "FLAG_QOS1 \<equiv> 1"
abbreviation (input) FLAG_QOS2 :: nat where "FLAG_QOS2 \<equiv> 2"
abbreviation (input) FLAG_DUP :: nat where "FLAG_DUP \<equiv> 3"

record publish_in =
  pu_qos :: qos
  pu_dup :: bool
  pu_retain :: bool
  pu_packet_id :: "u16 option"
  pu_topic_name :: bytes
  pu_properties :: bytes
  pu_payload :: bytes

datatype publish_error = Publish_BadParameter | Publish_BadResponse

fun publish_of_ack :: "ack_error \<Rightarrow> publish_error" where
  "publish_of_ack Ack_BadParameter = Publish_BadParameter"
| "publish_of_ack Ack_BadResponse = Publish_BadResponse"

definition process_publish_flags :: "byte \<Rightarrow> publish_error + qos \<times> bool \<times> bool" where
  "process_publish_flags flags =
     rbind (if flags AND push_bit FLAG_QOS2 1 \<noteq> 0 then
              if flags AND push_bit FLAG_QOS1 1 \<noteq> 0 then Inl Publish_BadResponse
              else Inr ExactlyOnce
            else if flags AND push_bit FLAG_QOS1 1 \<noteq> 0 then Inr AtLeastOnce
            else Inr AtMostOnce)
       (\<lambda>qos. Inr (qos, flags AND push_bit FLAG_DUP 1 \<noteq> 0, flags AND push_bit FLAG_RETAIN 1 \<noteq> 0))"

definition check_remaining_length :: "u32 \<Rightarrow> qos \<Rightarrow> u32 \<Rightarrow> publish_error + unit" where
  "check_remaining_length remaining_length qos qos0_minimum =
     (let minimum = (if qos = AtMostOnce then qos0_minimum else sat_add qos0_minimum 2)
      in if remaining_length < minimum then Inl Publish_BadResponse else Inr ())"

section \<open>The property walk\<close>

record publish_seen =
  sp_payload_format :: bool
  sp_topic_alias_seen :: bool
  sp_response_topic :: bool
  sp_correlation_data :: bool
  sp_message_expiry :: bool
  sp_content_type :: bool
  sp_topic_alias_value :: u16

definition publish_fresh :: publish_seen where
  "publish_fresh = \<lparr>sp_payload_format = False, sp_topic_alias_seen = False,
     sp_response_topic = False, sp_correlation_data = False, sp_message_expiry = False,
     sp_content_type = False, sp_topic_alias_value = 0\<rparr>"

definition publish_property :: "publish_seen \<Rightarrow> property_reader \<Rightarrow> byte \<Rightarrow>
    property_reader \<times> (publish_error + publish_seen)" where
  "publish_property s r pid =
     (if pid = P_PAYLOAD_FORMAT then
        arm_u8 Publish_BadResponse r (sp_payload_format s) (\<lambda>u v.
          if v > 1 then Inl Publish_BadResponse else Inr (s\<lparr>sp_payload_format := u\<rparr>))
      else if pid = P_TOPIC_ALIAS then
        arm_u16 Publish_BadResponse r (sp_topic_alias_seen s) (\<lambda>u v.
          if v = 0 then Inl Publish_BadResponse
          else Inr (s\<lparr>sp_topic_alias_seen := u, sp_topic_alias_value := v\<rparr>))
      else if pid = P_RESPONSE_TOPIC then
        arm_utf8 Publish_BadResponse r (sp_response_topic s) (\<lambda>u _. Inr (s\<lparr>sp_response_topic := u\<rparr>))
      else if pid = P_CORRELATION_DATA then
        arm_utf8 Publish_BadResponse r (sp_correlation_data s)
          (\<lambda>u _. Inr (s\<lparr>sp_correlation_data := u\<rparr>))
      else if pid = P_MESSAGE_EXPIRY then
        arm_u32 Publish_BadResponse r (sp_message_expiry s) (\<lambda>u _. Inr (s\<lparr>sp_message_expiry := u\<rparr>))
      else if pid = P_CONTENT_TYPE then
        arm_utf8 Publish_BadResponse r (sp_content_type s) (\<lambda>u _. Inr (s\<lparr>sp_content_type := u\<rparr>))
      else if pid = P_SUBSCRIPTION_ID then arm_var Publish_BadResponse r (\<lambda>_. Inr s)
      else if pid = P_USER_PROPERTY then arm_user Publish_BadResponse r (\<lambda>_. Inr s)
      else (r, Inl Publish_BadResponse))"

definition walk_publish_properties :: "bytes \<Rightarrow> u32 \<Rightarrow> u16 \<Rightarrow> publish_error + unit" where
  "walk_publish_properties properties property_length topic_alias_max =
     (case section_loop publish_property Publish_BadResponse publish_fresh
             (reader_new properties property_length) of
        (_, Inl e) \<Rightarrow> Inl e
      | (_, Inr s) \<Rightarrow>
          if sp_topic_alias_seen s \<and> topic_alias_max < sp_topic_alias_value s
          then Inl Publish_BadResponse else Inr ())"

section \<open>The packet\<close>

definition read_publish_properties ::
    "packet_info \<Rightarrow> nat \<Rightarrow> qos \<Rightarrow> u16 \<Rightarrow> u16 \<Rightarrow> publish_error + bytes \<times> u32" where
  "read_publish_properties packet at qos topic_name_length topic_alias_max =
     (let topic_cost = sat_add (ucast topic_name_length) 2 in
      if pi_remaining_length packet < topic_cost then Inl Publish_BadParameter
      else let left = sat_sub (pi_remaining_length packet) topic_cost;
               qos_cost = (if qos = AtMostOnce then 0 else 2) in
      if left < qos_cost then Inl Publish_BadParameter
      else let left = sat_sub left qos_cost in
        rbind (map_err publish_of_ack (bounded (pi_remaining_data packet) at left)) (\<lambda>sec.
        rbind (map_err (\<lambda>_. Publish_BadResponse) (decode_variable_length sec)) (\<lambda>property_length.
          let encoded = variable_length_encoded_size property_length in
          rbind (check_remaining_length (pi_remaining_length packet) qos
                   (sat_add (sat_add (sat_add (ucast topic_name_length) 2) property_length) encoded))
            (\<lambda>_.
          rbind (map_err publish_of_ack (bounded sec (unat encoded) property_length)) (\<lambda>properties.
          rbind (walk_publish_properties properties property_length topic_alias_max) (\<lambda>_.
            Inr (properties, property_length)))))))"

definition read_publish_id :: "bytes \<Rightarrow> nat \<Rightarrow> qos \<Rightarrow> publish_error + u16 option" where
  "read_publish_id remaining_data after_topic qos =
     (if qos = AtMostOnce then Inr None
      else rbind (ok_or Publish_BadResponse (slice remaining_data after_topic (after_topic + 2)))
        (\<lambda>bs. rbind (ok_or Publish_BadResponse (from_be16 bs)) (\<lambda>i.
          if i = 0 then Inl Publish_BadResponse else Inr (Some i))))"

text \<open>\<open>deserialize_publish\<close> from the first floor on.\<close>

definition publish_body ::
    "packet_info \<Rightarrow> u16 \<Rightarrow> qos \<Rightarrow> bool \<Rightarrow> bool \<Rightarrow> publish_error + publish_in" where
  "publish_body packet topic_alias_max qos dup retain =
     rbind (check_remaining_length (pi_remaining_length packet) qos 4) (\<lambda>_.
     rbind (ok_or Publish_BadResponse (slice (pi_remaining_data packet) 0 2)) (\<lambda>length_bytes.
     rbind (ok_or Publish_BadResponse (from_be16 length_bytes)) (\<lambda>topic_name_length.
     rbind (check_remaining_length (pi_remaining_length packet) qos
              (sat_add (ucast topic_name_length) 3)) (\<lambda>_.
     rbind (map_err publish_of_ack
              (bounded (pi_remaining_data packet) 2 (ucast topic_name_length))) (\<lambda>topic_name.
     let after_topic = unat topic_name_length + 2 in
     rbind (read_publish_id (pi_remaining_data packet) after_topic qos) (\<lambda>packet_id.
     let qos_bytes = (if qos = AtMostOnce then 0 else 2 :: nat);
         after_id = after_topic + qos_bytes in
     rbind (read_publish_properties packet after_id qos topic_name_length topic_alias_max)
       (\<lambda>(properties, property_length).
     let encoded = variable_length_encoded_size property_length;
         consumed = sat_add (sat_add (sat_add (sat_add (ucast topic_name_length) 2)
                      property_length) encoded) (word_of_nat qos_bytes);
         payload_length = sat_sub (pi_remaining_length packet) consumed;
         payload_at = after_id + unat encoded + unat property_length in
     rbind (map_err publish_of_ack
              (bounded (pi_remaining_data packet) payload_at payload_length)) (\<lambda>payload.
     Inr \<lparr>pu_qos = qos, pu_dup = dup, pu_retain = retain, pu_packet_id = packet_id,
          pu_topic_name = topic_name, pu_properties = properties,
          pu_payload = payload\<rparr>))))))))"

definition deserialize_publish :: "packet_info \<Rightarrow> u32 \<Rightarrow> u16 \<Rightarrow> publish_error + publish_in" where
  "deserialize_publish packet max_packet_size topic_alias_max =
     (if pi_packet_type packet AND 0xF0 \<noteq> PUBLISH then Inl Publish_BadParameter
      else if pi_remaining_length packet \<ge> REMAINING_LENGTH_INVALID then Inl Publish_BadParameter
      else if total_packet_size (pi_remaining_length packet) > max_packet_size
      then Inl Publish_BadResponse
      else rbind (process_publish_flags (pi_packet_type packet AND 0x0F)) (\<lambda>(qos, dup, retain).
        publish_body packet topic_alias_max qos dup retain))"

section \<open>The table as a specification\<close>

fun publish_prop_ok :: "byte \<times> prop_value \<Rightarrow> bool" where
  "publish_prop_ok (pid, PV_u8 b) = (pid = P_PAYLOAD_FORMAT \<and> \<not> b > 1)"
| "publish_prop_ok (pid, PV_u16 w) = (pid = P_TOPIC_ALIAS \<and> w \<noteq> 0)"
| "publish_prop_ok (pid, PV_u32 d) = (pid = P_MESSAGE_EXPIRY)"
| "publish_prop_ok (pid, PV_utf8 x) =
     (pid \<in> {P_RESPONSE_TOPIC, P_CORRELATION_DATA, P_CONTENT_TYPE})"
| "publish_prop_ok (pid, PV_user x y) = (pid = P_USER_PROPERTY)"
| "publish_prop_ok (pid, PV_var d) = (pid = P_SUBSCRIPTION_ID)"

abbreviation publish_once :: "byte \<Rightarrow> bool" where
  "publish_once pid \<equiv> pid \<noteq> P_USER_PROPERTY \<and> pid \<noteq> P_SUBSCRIPTION_ID"

definition publish_seen_of :: "publish_seen \<Rightarrow> byte \<Rightarrow> bool" where
  "publish_seen_of s pid =
     (if pid = P_PAYLOAD_FORMAT then sp_payload_format s
      else if pid = P_TOPIC_ALIAS then sp_topic_alias_seen s
      else if pid = P_RESPONSE_TOPIC then sp_response_topic s
      else if pid = P_CORRELATION_DATA then sp_correlation_data s
      else if pid = P_MESSAGE_EXPIRY then sp_message_expiry s
      else if pid = P_CONTENT_TYPE then sp_content_type s else False)"

fun publish_see :: "byte \<times> prop_value \<Rightarrow> publish_seen \<Rightarrow> publish_seen" where
  "publish_see (pid, PV_u16 w) s = s\<lparr>sp_topic_alias_seen := True, sp_topic_alias_value := w\<rparr>"
| "publish_see (pid, v) s =
     (if pid = P_PAYLOAD_FORMAT then s\<lparr>sp_payload_format := True\<rparr>
      else if pid = P_RESPONSE_TOPIC then s\<lparr>sp_response_topic := True\<rparr>
      else if pid = P_CORRELATION_DATA then s\<lparr>sp_correlation_data := True\<rparr>
      else if pid = P_MESSAGE_EXPIRY then s\<lparr>sp_message_expiry := True\<rparr>
      else if pid = P_CONTENT_TYPE then s\<lparr>sp_content_type := True\<rparr> else s)"

definition publish_table :: "publish_seen \<Rightarrow> byte \<Rightarrow> prop_value \<Rightarrow> publish_seen option" where
  "publish_table s pid v =
     (if publish_prop_ok (pid, v) \<and> \<not> (publish_once pid \<and> publish_seen_of s pid)
      then Some (publish_see (pid, v) s) else None)"

interpretation publish_walk:
  walked_table publish_property publish_table publish_prop_ok publish_once publish_seen_of
proof unfold_locales
  show "reads_as r (publish_property s r pid) (publish_table s pid)" for s r pid
    unfolding publish_property_def
    by (intro reads_as_cases) (simp_all add: publish_table_def publish_seen_of_def to_opt_if)
  show "(\<exists>s'. publish_table s pid v = Some s') \<longleftrightarrow>
      publish_prop_ok (pid, v) \<and> \<not> (publish_once pid \<and> publish_seen_of s pid)" for s pid v
    by (simp add: publish_table_def)
  show "publish_table s pid v = Some s' \<Longrightarrow>
      publish_seen_of s' q \<longleftrightarrow> publish_seen_of s q \<or> publish_once pid \<and> q = pid" for s pid v s' q
    by (cases v) (auto simp: publish_table_def publish_seen_of_def split: if_splits)
qed

text \<open>No alias above the one the client announced.\<close>

definition aliases_ok :: "u16 \<Rightarrow> (byte \<times> prop_value) list \<Rightarrow> bool" where
  "aliases_ok topic_alias_max ps \<longleftrightarrow>
     list_all (\<lambda>(_, v). case v of PV_u16 w \<Rightarrow> w \<le> topic_alias_max | _ \<Rightarrow> True) ps"

definition publish_section :: "u16 \<Rightarrow> bytes \<Rightarrow> bool" where
  "publish_section topic_alias_max sec \<longleftrightarrow> length sec < 268435456 \<and>
     (\<exists>ps. table_takes publish_prop_ok publish_once ps \<and> list_all (\<lambda>(_, v). pv_ok v) ps \<and>
        sec = section_bytes ps \<and> aliases_ok topic_alias_max ps)"

definition alias_bad :: "u16 \<Rightarrow> publish_seen \<Rightarrow> bool" where
  "alias_bad am s \<longleftrightarrow> sp_topic_alias_seen s \<and> am < sp_topic_alias_value s"

lemma publish_table_alias:
  "publish_table s pid v = Some s1 \<Longrightarrow>
   alias_bad am s1 \<longleftrightarrow> alias_bad am s \<or> \<not> aliases_ok am [(pid, v)]"
  by (cases v) (auto simp: publish_table_def alias_bad_def aliases_ok_def publish_seen_of_def
      split: if_splits)

lemma publish_all_alias:
  "apply_all publish_table s ps = Some s' \<Longrightarrow>
   alias_bad am s' \<longleftrightarrow> alias_bad am s \<or> \<not> aliases_ok am ps"
proof (induction ps arbitrary: s)
  case Nil
  then show ?case by (simp add: aliases_ok_def)
next
  case (Cons p ps)
  obtain pid v where p: "p = (pid, v)" by (cases p)
  from Cons.prems obtain s1 where s1: "publish_table s pid v = Some s1"
    "apply_all publish_table s1 ps = Some s'" by (auto simp: p bind_eq_Some_conv)
  from Cons.IH [OF s1(2)] publish_table_alias [OF s1(1), of am] show ?case
    by (auto simp: p aliases_ok_def)
qed

lemma publish_fresh_unseen: "\<forall>pid. publish_once pid \<longrightarrow> \<not> publish_seen_of publish_fresh pid"
  by (simp add: publish_seen_of_def publish_fresh_def)

lemma walk_publish_properties_ok:
  assumes "length properties = unat n" and "length properties < 268435456"
  shows "walk_publish_properties properties n am = Inr () \<longleftrightarrow> publish_section am properties"
proof -
  have "walk_publish_properties properties n am = Inr () \<longleftrightarrow>
    (\<exists>r' s'. section_loop publish_property Publish_BadResponse publish_fresh
       (reader_new properties n) = (r', Inr s') \<and> \<not> alias_bad am s')"
  proof -
    obtain r1 res where l: "section_loop publish_property Publish_BadResponse publish_fresh
      (reader_new properties n) = (r1, res)" by (cases "section_loop publish_property
        Publish_BadResponse publish_fresh (reader_new properties n)")
    then show ?thesis
      by (cases res) (simp_all add: walk_publish_properties_def alias_bad_def)
  qed
  also have "\<dots> \<longleftrightarrow> (\<exists>ps. table_takes publish_prop_ok publish_once ps \<and>
      list_all (\<lambda>(_, v). pv_ok v) ps \<and> properties = section_bytes ps \<and>
      \<not> alias_bad am (the (apply_all publish_table publish_fresh ps)))"
    by (rule publish_walk.walk_ok [OF assms(1) publish_fresh_unseen, where P = "\<lambda>s. \<not> alias_bad am s"])
  also have "\<dots> \<longleftrightarrow> (\<exists>ps. table_takes publish_prop_ok publish_once ps \<and>
      list_all (\<lambda>(_, v). pv_ok v) ps \<and> properties = section_bytes ps \<and> aliases_ok am ps)"
  proof -
    have "\<not> alias_bad am (the (apply_all publish_table publish_fresh ps)) \<longleftrightarrow> aliases_ok am ps"
      if "table_takes publish_prop_ok publish_once ps" for ps
    proof -
      have "\<exists>s'. apply_all publish_table publish_fresh ps = Some s'"
        unfolding publish_walk.apply_all_fresh [OF publish_fresh_unseen] by (rule that)
      then obtain s' where s': "apply_all publish_table publish_fresh ps = Some s'" ..
      show ?thesis using publish_all_alias [OF s', of am] s'
        by (simp add: alias_bad_def publish_fresh_def)
    qed
    then show ?thesis by (intro ex_cong1) blast
  qed
  finally show ?thesis using assms(2) by (simp add: publish_section_def)
qed

lemma check_remaining_length_ok:
  "check_remaining_length rl q m = Inr () \<longleftrightarrow>
     (if q = AtMostOnce then m \<le> rl else sat_add m 2 \<le> rl)"
  by (auto simp: check_remaining_length_def Let_def not_less not_le)

lemma publish_properties_tail:
  fixes C :: "u32 \<Rightarrow> publish_error + unit" and W :: "bytes \<Rightarrow> u32 \<Rightarrow> publish_error + unit"
  shows "rbind (map_err h (decode_variable_length sec)) (\<lambda>k. rbind (C k) (\<lambda>_.
     rbind (map_err publish_of_ack (bounded sec (unat (variable_length_encoded_size k)) k))
       (\<lambda>props. rbind (W props k) (\<lambda>_. Inr (props, k))))) = Inr (props, pl) \<longleftrightarrow>
   (decode_variable_length sec = Inr pl \<and>
     slice sec (unat (variable_length_encoded_size pl))
       (unat (variable_length_encoded_size pl) + unat pl) = Some props) \<and>
   C pl = Inr () \<and> W props pl = Inr ()"
  by (auto simp: bounded_def rbind_eq_Inr map_err_eq_Inr ok_or_eq_Inr)

definition id_cost :: "qos \<Rightarrow> nat" where
  "id_cost q = (if q = AtMostOnce then 0 else 2)"

lemma read_publish_properties_ok:
  assumes at: "at = unat tn + 2 + id_cost q"
    and n: "n = unat (pi_remaining_length p)" and d: "d = pi_remaining_data p"
  shows "read_publish_properties p at q tn am = Inr (props, pl) \<longleftrightarrow>
    at \<le> n \<and> n \<le> length d \<and> publish_section am props \<and> pl = word_of_nat (length props) \<and>
    (\<exists>payload. take (n - at) (drop at d) = property_block props @ payload)"
proof -
  have tn: "unat tn < 65536" by simp
  have cost: "unat (sat_add (ucast tn) (2 :: u32)) = unat tn + 2"
    by (simp add: unat_simps)
  have c1: "pi_remaining_length p < sat_add (ucast tn) 2 \<longleftrightarrow> n < unat tn + 2"
    by (simp add: word_less_nat_alt cost n)
  have c2: "sat_sub (pi_remaining_length p) (sat_add (ucast tn) 2) < (if q = AtMostOnce then 0 else 2)
      \<longleftrightarrow> n - (unat tn + 2) < id_cost q"
    by (simp add: word_less_nat_alt unat_sat_sub cost n id_cost_def)
  let ?left = "sat_sub (sat_sub (pi_remaining_length p) (sat_add (ucast tn) 2))
    (if q = AtMostOnce then 0 else 2)"
  have left: "unat ?left = n - at"
    by (simp add: unat_sat_sub cost n at id_cost_def)
  show ?thesis
  proof (cases "at \<le> n \<and> n \<le> length d")
    case False
    have "read_publish_properties p at q tn am \<noteq> Inr (props, pl)"
    proof (cases "at \<le> n")
      case True
      then have "bounded (pi_remaining_data p) at ?left = Inl Ack_BadResponse"
        using False by (simp add: bounded_def slice_def left d)
      then show ?thesis unfolding read_publish_properties_def Let_def by simp
    next
      case False
      then have "n < unat tn + 2 \<or> n - (unat tn + 2) < id_cost q" using at by linarith
      then show ?thesis unfolding read_publish_properties_def Let_def c1 c2 by auto
    qed
    then show ?thesis using False by blast
  next
    case True
    let ?sec = "take (n - at) (drop at d)"
    have b: "bounded (pi_remaining_data p) at ?left = Inr ?sec"
      using True by (simp add: bounded_def slice_def left d)
    have nc: "\<not> n < unat tn + 2" "\<not> n - (unat tn + 2) < id_cost q"
      using conjunct1 [OF True] at by linarith+
    have floor: "check_remaining_length (pi_remaining_length p) q (sat_add (sat_add (sat_add
        (ucast tn) 2) (word_of_nat (length props))) (variable_length_encoded_size
        (word_of_nat (length props)))) = Inr ()"
      if "length props < 268435456" "?sec = property_block props @ payload" for payload
    proof -
      let ?len = "length (vl_encode (length props))"
      have pl: "unat (word_of_nat (length props) :: u32) = length props"
        "?len \<le> 4"
        using that(1) by (simp_all add: unat_u32_of_nat length_vl_encode_le_4)
      have "length ?sec = n - at" using True by (auto simp: min_def)
      then have "length (property_block props) \<le> n - at" using that(2) by simp
      then have l: "unat tn + 2 + id_cost q + ?len + length props \<le> n"
        using conjunct1 [OF True] unfolding length_property_block at by linarith
      then show ?thesis
        using tn pl that(1)
        by (simp add: check_remaining_length_ok word_le_nat_alt unat_simps n id_cost_def
            del: of_nat_add split: if_splits)
    qed
    have "read_publish_properties p at q tn am = Inr (props, pl) \<longleftrightarrow>
      (decode_variable_length ?sec = Inr pl \<and>
       slice ?sec (unat (variable_length_encoded_size pl))
         (unat (variable_length_encoded_size pl) + unat pl) = Some props) \<and>
      check_remaining_length (pi_remaining_length p) q (sat_add (sat_add (sat_add
        (ucast tn) 2) pl) (variable_length_encoded_size pl)) = Inr () \<and>
      walk_publish_properties props pl am = Inr ()"
      unfolding read_publish_properties_def Let_def c1 c2 if_not_P [OF nc(1)] if_not_P [OF nc(2)]
        b map_err_simps rbind_simps publish_properties_tail ..
    also have "\<dots> \<longleftrightarrow> length props < 268435456 \<and> pl = word_of_nat (length props) \<and>
      (\<exists>payload. ?sec = property_block props @ payload) \<and>
      walk_publish_properties props (word_of_nat (length props)) am = Inr ()"
      unfolding property_block_read using floor by blast
    also have "\<dots> \<longleftrightarrow> publish_section am props \<and> pl = word_of_nat (length props) \<and>
      (\<exists>payload. ?sec = property_block props @ payload)"
    proof -
      have "walk_publish_properties props (word_of_nat (length props)) am = Inr () \<longleftrightarrow>
          publish_section am props" if "length props < 268435456"
        using that by (intro walk_publish_properties_ok) (simp_all add: unat_u32_of_nat)
      moreover have "publish_section am props \<Longrightarrow> length props < 268435456"
        by (simp add: publish_section_def)
      ultimately show ?thesis by blast
    qed
    finally show ?thesis using True by blast
  qed
qed

section \<open>The layout of an accepted PUBLISH\<close>

text \<open>The first byte of a PUBLISH, from its four inputs.\<close>

definition publish_type_byte :: "qos \<Rightarrow> bool \<Rightarrow> bool \<Rightarrow> byte" where
  "publish_type_byte q dup retain =
     0x30 OR (if dup then 8 else 0)
     OR (case q of AtMostOnce \<Rightarrow> 0 | AtLeastOnce \<Rightarrow> 2 | ExactlyOnce \<Rightarrow> 4)
     OR (if retain then 1 else 0)"

lemma byte_eq_bits:
  "(a :: byte) = b \<longleftrightarrow> bit a 0 = bit b 0 \<and> bit a 1 = bit b 1 \<and> bit a 2 = bit b 2 \<and>
     bit a 3 = bit b 3 \<and> bit a 4 = bit b 4 \<and> bit a 5 = bit b 5 \<and> bit a 6 = bit b 6 \<and>
     bit a 7 = bit b 7"
proof
  assume h: "bit a 0 = bit b 0 \<and> bit a 1 = bit b 1 \<and> bit a 2 = bit b 2 \<and>
     bit a 3 = bit b 3 \<and> bit a 4 = bit b 4 \<and> bit a 5 = bit b 5 \<and> bit a 6 = bit b 6 \<and>
     bit a 7 = bit b 7"
  show "a = b"
  proof (rule bit_word_eqI)
    fix n assume "n < LENGTH(8)"
    then have "n \<in> {0, 1, 2, 3, 4, 5, 6, 7}" by auto
    with h show "bit a n = bit b n" by auto
  qed
qed simp

lemma and_bit_iff: "(b :: byte) AND push_bit k 1 \<noteq> 0 \<longleftrightarrow> bit b k"
  using and_exp_eq_0_iff_not_bit [of b k] by (simp add: push_bit_eq_mult)

lemma flags_ok:
  "t AND 0xF0 = PUBLISH \<and> process_publish_flags (t AND 0x0F) = Inr (q, dup, retain) \<longleftrightarrow>
   t = publish_type_byte q dup retain"
proof -
  have "process_publish_flags (t AND 0x0F) = Inr (q, dup, retain) \<longleftrightarrow>
    \<not> (bit t 2 \<and> bit t 1) \<and> q = (if bit t 2 then ExactlyOnce else if bit t 1 then AtLeastOnce else AtMostOnce)
    \<and> dup = bit t 3 \<and> retain = bit t 0"
    unfolding process_publish_flags_def and_bit_iff by (auto simp: bit_simps)
  then show ?thesis
    unfolding byte_eq_bits publish_type_byte_def by (cases q) (auto simp: bit_simps)
qed
definition id_bytes :: "u16 option \<Rightarrow> bytes" where
  "id_bytes packet_id = (case packet_id of None \<Rightarrow> [] | Some i \<Rightarrow> be16 i)"

definition id_ok :: "qos \<Rightarrow> u16 option \<Rightarrow> bool" where
  "id_ok q packet_id \<longleftrightarrow> (packet_id = None) = (q = AtMostOnce) \<and> packet_id \<noteq> Some 0"

lemma length_id_bytes [simp]: "id_ok q packet_id \<Longrightarrow> length (id_bytes packet_id) = id_cost q"
  by (auto simp: id_ok_def id_bytes_def id_cost_def split: option.splits)

lemma read_publish_id_ok:
  "read_publish_id d a q = Inr packet_id \<longleftrightarrow>
     id_ok q packet_id \<and> take (id_cost q) (drop a d) = id_bytes packet_id"
proof (cases "q = AtMostOnce")
  case True
  then show ?thesis
    by (auto simp: read_publish_id_def id_ok_def id_cost_def id_bytes_def)
next
  case False
  have len: "a + 2 \<le> length d" if "take 2 (drop a d) = be16 i" for i
    using arg_cong [OF that, of length] by (auto simp: min_def split: if_splits)
  then show ?thesis using False
    by (auto simp: read_publish_id_def id_ok_def id_cost_def id_bytes_def result_simps
        split: option.splits)
qed

lemma check_floor_ok:
  "unat m < 4294967294 \<Longrightarrow>
   check_remaining_length rl q m = Inr () \<longleftrightarrow> unat m + id_cost q \<le> unat rl"
  by (simp add: check_remaining_length_ok id_cost_def word_le_nat_alt unat_simps)

lemma publish_payload_ok:
  fixes tn :: u16
  assumes "length props < 268435456" and "n < 268435456"
    and n: "n = unat rl" and "at = unat tn + 2 + id_cost q"
    and sec: "take (n - at) (drop at d) = property_block props @ payload"
    and "at \<le> n" "n \<le> length d"
  shows "bounded d (at + unat (variable_length_encoded_size (word_of_nat (length props)))
           + unat (word_of_nat (length props) :: u32))
        (sat_sub rl (sat_add (sat_add (sat_add (sat_add (ucast tn) 2) (word_of_nat (length props)))
           (variable_length_encoded_size (word_of_nat (length props))))
           (word_of_nat (id_cost q)))) = Inr payload"
proof -
  let ?b = "length (property_block props)"
  have pl: "unat (word_of_nat (length props) :: u32) = length props"
    "unat (variable_length_encoded_size (word_of_nat (length props)))
      = length (vl_encode (length props))" "length (vl_encode (length props)) \<le> 4"
    using assms(1) by (simp_all add: unat_u32_of_nat unat_encoded_size length_vl_encode_le_4)
  have "length (take (n - at) (drop at d)) = n - at" using assms(6,7) by (auto simp: min_def)
  then have len: "n - at = ?b + length payload" using sec by simp
  have tn: "unat tn < 65536" by (rule unat_lt16)
  have idc: "unat (word_of_nat (id_cost q) :: u32) = id_cost q" "id_cost q \<le> 2"
    by (simp_all add: id_cost_def)
  have "unat (sat_add (sat_add (sat_add (sat_add (ucast tn) 2) (word_of_nat (length props)))
           (variable_length_encoded_size (word_of_nat (length props))))
           (word_of_nat (id_cost q) :: u32)) = unat tn + 2 + length props
             + length (vl_encode (length props)) + id_cost q"
  proof -
    define m where "m = unat tn"
    have "m < 65536" using tn by (simp only: m_def)
    then show ?thesis
      unfolding unat_sat_add pl idc unat_widen m_def [symmetric]
      using pl(3) idc(2) assms(1) by (simp add: min_def)
  qed
  then have w: "unat (sat_sub rl (sat_add (sat_add (sat_add (sat_add (ucast tn) 2)
      (word_of_nat (length props))) (variable_length_encoded_size (word_of_nat (length props))))
           (word_of_nat (id_cost q)))) = length payload"
    unfolding unat_sat_sub using len n assms(4,6) by (simp add: length_property_block)
  have "drop ?b (take (n - at) (drop at d)) = payload" using sec by simp
  then have "take (length payload) (drop (at + ?b) d) = payload"
    using len by (simp add: drop_take add.commute)
  then show ?thesis
    using len assms(6,7) unfolding bounded_eq_Inr w pl
    by (simp add: length_property_block add.assoc add.commute add.left_commute)
qed

lemma take_split:
  "a + b \<le> n \<Longrightarrow> take n d = take a d @ take b (drop a d) @ take (n - (a + b)) (drop (a + b) d)"
proof -
  assume "a + b \<le> n"
  then have n: "n = a + (b + (n - (a + b)))" by simp
  show ?thesis by (subst n) (simp add: take_add drop_drop add.commute)
qed

text \<open>The body of a PUBLISH as its four fields.\<close>

definition publish_layout :: "publish_in \<Rightarrow> bytes" where
  "publish_layout i = mqtt_string (pu_topic_name i) @ id_bytes (pu_packet_id i)
     @ property_block (pu_properties i) @ pu_payload i"

definition publish_fields_ok :: "u16 \<Rightarrow> publish_in \<Rightarrow> bool" where
  "publish_fields_ok am i \<longleftrightarrow> id_ok (pu_qos i) (pu_packet_id i) \<and>
     length (pu_topic_name i) < 65536 \<and> publish_section am (pu_properties i)"

lemma publish_body_okD:
  assumes n: "n = unat (pi_remaining_length p)" and d: "d = pi_remaining_data p"
    and "n < 268435456" and "publish_body p am q dup retain = Inr i"
  shows "pu_qos i = q \<and> pu_dup i = dup \<and> pu_retain i = retain \<and> 4 + id_cost q \<le> n \<and>
    publish_fields_ok am i \<and> n \<le> length d \<and> take n d = publish_layout i"
proof -
  from assms(4) obtain tn topic packet_id props pl payload where
    f: "check_remaining_length (pi_remaining_length p) q 4 = Inr ()"
      "slice d 0 2 = Some (be16 tn)"
      "bounded d 2 (ucast tn) = Inr topic"
      "read_publish_id d (unat tn + 2) q = Inr packet_id"
      "read_publish_properties p (unat tn + 2 + id_cost q) q tn am = Inr (props, pl)"
      "bounded d (unat tn + 2 + id_cost q + unat (variable_length_encoded_size pl) + unat pl)
         (sat_sub (pi_remaining_length p) (sat_add (sat_add (sat_add (sat_add (ucast tn) 2) pl)
           (variable_length_encoded_size pl)) (word_of_nat (id_cost q)))) = Inr payload"
    and i: "i = \<lparr>pu_qos = q, pu_dup = dup, pu_retain = retain, pu_packet_id = packet_id,
          pu_topic_name = topic, pu_properties = props, pu_payload = payload\<rparr>"
    unfolding publish_body_def Let_def rbind_eq_Inr map_err_eq_Inr ok_or_eq_Inr from_be16_eq_Some
      d [symmetric] id_cost_def [symmetric] split_paired_Ex prod.case
      ex_unit sum.inject
    by (elim exE conjE, hypsubst) blast
  let ?at = "unat tn + 2 + id_cost q"
  obtain payload' where r: "?at \<le> n" "n \<le> length d" "publish_section am props"
    "pl = word_of_nat (length props)" "take (n - ?at) (drop ?at d) = property_block props @ payload'"
    using f(5) read_publish_properties_ok [OF refl n d] by blast
  have "length props < 268435456" using r(3) by (simp add: publish_section_def)
  from publish_payload_ok [OF this assms(3) n refl r(5,1,2)] have "payload' = payload"
    using f(6) unfolding r(4) by simp
  have ids: "id_ok q packet_id" "take (id_cost q) (drop (unat tn + 2) d) = id_bytes packet_id"
    using f(4) by (simp_all add: read_publish_id_ok)
  have topic: "2 + unat tn \<le> length d" "topic = take (unat tn) (drop 2 d)" "take 2 d = be16 tn"
    using f(2,3) by (simp_all add: bounded_eq_Inr slice_eq_Some)
  then have len: "length topic = unat tn" by simp
  have "take n d = take 2 d @ take (unat tn) (drop 2 d) @ take (n - (2 + unat tn)) (drop (2 + unat tn) d)"
    using r(1) by (intro take_split) simp
  also have "take (n - (2 + unat tn)) (drop (2 + unat tn) d) =
      take 0 (drop (2 + unat tn) d) @ take (id_cost q) (drop 0 (drop (2 + unat tn) d)) @
      take (n - (2 + unat tn) - (0 + id_cost q)) (drop (0 + id_cost q) (drop (2 + unat tn) d))"
    using r(1) by (intro take_split) simp
  also have "\<dots> = id_bytes packet_id @ property_block props @ payload"
    using ids(2) r(5) \<open>payload' = payload\<close>
    by (simp add: add.commute add.left_commute diff_diff_left drop_drop)
  finally have "take n d = publish_layout i"
    using topic len by (simp add: publish_layout_def i mqtt_string_def)
  moreover have "4 + id_cost q \<le> n"
    using f(1) by (simp add: check_floor_ok n)
  moreover have "length topic < 65536" unfolding len by simp
  ultimately show ?thesis using ids(1) r(2,3) by (simp add: i publish_fields_ok_def)
qed

lemma publish_body_okI:
  assumes n: "n = unat (pi_remaining_length p)" and d: "d = pi_remaining_data p"
    and "n < 268435456" and q: "4 + id_cost (pu_qos i) \<le> n" and fields: "publish_fields_ok am i"
    and lay: "n \<le> length d" "take n d = publish_layout i"
  shows "publish_body p am (pu_qos i) (pu_dup i) (pu_retain i) = Inr i"
proof -
  let ?q = "pu_qos i" and ?topic = "pu_topic_name i" and ?props = "pu_properties i"
  define tn :: u16 where "tn = word_of_nat (length ?topic)"
  have tn: "unat tn = length ?topic" and props: "length ?props < 268435456"
    and ids: "id_ok ?q (pu_packet_id i)"
    using fields
    by (simp_all add: tn_def publish_fields_ok_def publish_section_def unat_u16_of_nat)
  have idl: "length (id_bytes (pu_packet_id i)) = id_cost ?q" using ids by simp
  let ?rest = "drop n d"
  have all: "d = be16 tn @ ?topic @ id_bytes (pu_packet_id i) @ property_block ?props
      @ pu_payload i @ ?rest"
    using lay(2) append_take_drop_id [of n d]
    by (simp add: publish_layout_def mqtt_string_def tn_def)
  have nlen: "n = 2 + length ?topic + id_cost ?q + length (property_block ?props)
      + length (pu_payload i)"
    using arg_cong [OF lay(2), of length] lay(1) idl by (simp add: publish_layout_def)
  let ?at = "unat tn + 2 + id_cost ?q"
  have at: "?at \<le> n" "drop ?at d = property_block ?props @ pu_payload i @ ?rest"
    using nlen tn idl by (simp, subst all, simp)
  have sec: "take (n - ?at) (drop ?at d) = property_block ?props @ pu_payload i"
    unfolding at(2) using nlen tn by simp
  have s1: "slice d 0 2 = Some (be16 tn)"
    by (subst all) (simp add: slice_def)
  have s2: "bounded d 2 (ucast tn) = Inr ?topic"
    by (subst all) (simp add: bounded_def slice_def tn)
  have s3: "read_publish_id d (unat tn + 2) ?q = Inr (pu_packet_id i)"
    unfolding read_publish_id_ok using ids idl tn by (subst all) simp
  have s4: "read_publish_properties p ?at ?q tn am = Inr (?props, word_of_nat (length ?props))"
    using read_publish_properties_ok [OF refl n d] at(1) lay(1) sec fields
    by (auto simp: publish_fields_ok_def)
  have s5: "bounded d (?at + unat (variable_length_encoded_size (word_of_nat (length ?props)))
           + unat (word_of_nat (length ?props) :: u32))
        (sat_sub (pi_remaining_length p) (sat_add (sat_add (sat_add (sat_add (ucast tn) 2)
           (word_of_nat (length ?props)))
           (variable_length_encoded_size (word_of_nat (length ?props))))
           (word_of_nat (id_cost ?q)))) = Inr (pu_payload i)"
    by (rule publish_payload_ok [OF props assms(3) n refl sec at(1) lay(1)])
  have c1: "check_remaining_length (pi_remaining_length p) ?q 4 = Inr ()"
    using q by (simp add: check_floor_ok n)
  have c2: "check_remaining_length (pi_remaining_length p) ?q (sat_add (ucast tn) 3) = Inr ()"
  proof -
    have u: "unat (sat_add (ucast tn) (3 :: u32)) = unat tn + 3" by (simp add: unat_simps)
    have tl: "unat tn < 65536" by (rule unat_lt16)
    have "0 < length (property_block ?props)" by simp
    then have "unat tn + 3 + id_cost ?q \<le> n" using nlen tn by linarith
    then have "unat (sat_add (ucast tn) (3 :: u32)) + id_cost ?q \<le> unat (pi_remaining_length p)"
      by (simp only: u n)
    moreover have "unat (sat_add (ucast tn) (3 :: u32)) < 4294967294" unfolding u using tl by linarith
    ultimately show ?thesis by (simp only: check_floor_ok)
  qed
  note e = publish_body_def Let_def id_cost_def [symmetric] d [symmetric] rbind_simps ok_or_simps
    map_err_simps c1 s1 from_be16_be16 c2 s2 s3 s4 prod.case
  show ?thesis unfolding e using s5 by simp
qed

lemma deserialize_publish_ok:
  "deserialize_publish p mx am = Inr i \<longleftrightarrow>
     pi_packet_type p = publish_type_byte (pu_qos i) (pu_dup i) (pu_retain i) \<and>
     pi_remaining_length p < REMAINING_LENGTH_INVALID \<and>
     total_packet_size (pi_remaining_length p) \<le> mx \<and>
     4 + id_cost (pu_qos i) \<le> unat (pi_remaining_length p) \<and>
     publish_fields_ok am i \<and>
     packet_body p = Some (mqtt_string (pu_topic_name i) @ id_bytes (pu_packet_id i)
       @ property_block (pu_properties i) @ pu_payload i)"
proof -
  let ?t = "pi_packet_type p" and ?n = "unat (pi_remaining_length p)" and ?d = "pi_remaining_data p"
  have n: "pi_remaining_length p < REMAINING_LENGTH_INVALID \<longleftrightarrow> ?n < 268435456"
    by (simp add: word_less_nat_alt)
  have body: "publish_body p am q dup retain = Inr i \<longleftrightarrow>
      pu_qos i = q \<and> pu_dup i = dup \<and> pu_retain i = retain \<and> 4 + id_cost q \<le> ?n \<and>
      publish_fields_ok am i \<and> ?n \<le> length ?d \<and> take ?n ?d = publish_layout i"
    if "?n < 268435456" for q dup retain
    by (rule iffI, erule publish_body_okD [OF refl refl that], elim conjE, hypsubst,
        rule publish_body_okI [OF refl refl that]; assumption)
  have "deserialize_publish p mx am = Inr i \<longleftrightarrow> ?n < 268435456 \<and>
      total_packet_size (pi_remaining_length p) \<le> mx \<and>
      (\<exists>q dup retain. (?t AND 0xF0 = PUBLISH \<and>
         process_publish_flags (?t AND 0x0F) = Inr (q, dup, retain)) \<and>
       publish_body p am q dup retain = Inr i)"
    unfolding deserialize_publish_def guard_eq_Inr not_le not_less not_not n rbind_eq_Inr
      split_paired_Ex prod.case by (rule iffI; elim exE conjE; intro exI conjI; assumption)
  also have "\<dots> \<longleftrightarrow> ?n < 268435456 \<and> total_packet_size (pi_remaining_length p) \<le> mx \<and>
      ?t = publish_type_byte (pu_qos i) (pu_dup i) (pu_retain i) \<and> 4 + id_cost (pu_qos i) \<le> ?n \<and>
      publish_fields_ok am i \<and> ?n \<le> length ?d \<and> take ?n ?d = publish_layout i"
    unfolding flags_ok by (simp only: body cong: conj_cong) auto
  finally show ?thesis
    unfolding n by (auto simp: packet_body_def slice_eq_Some publish_layout_def)
qed

text \<open>C21. A PUBLISH is accepted exactly when its first byte is 3 in the high nibble with DUP, QoS
  0, 1 or 2 and RETAIN in the low one, the packet is within MQTT's limit and the client's, and
  its claimed bytes are there and are: a topic name behind its length, a packet identifier
  other than zero exactly at QoS 1 and 2, a length-prefixed section of permitted properties
  (none but user properties and subscription identifiers repeated, no alias of zero or above
  the announced maximum), and the payload, which is whatever is left. The fields answered are
  those of that layout. On top of the layout the first floor refuses one packet it would
  allow: no topic, no properties and no payload.\<close>

theorem deserialize_publish_iff:
  "deserialize_publish p mx am = Inr i \<longleftrightarrow>
     pi_packet_type p = publish_type_byte (pu_qos i) (pu_dup i) (pu_retain i) \<and>
     pi_remaining_length p < REMAINING_LENGTH_INVALID \<and>
     total_packet_size (pi_remaining_length p) \<le> mx \<and>
     4 + id_cost (pu_qos i) \<le> unat (pi_remaining_length p) \<and>
     publish_fields_ok am i \<and>
     packet_body p = Some (mqtt_string (pu_topic_name i) @ id_bytes (pu_packet_id i)
       @ property_block (pu_properties i) @ pu_payload i)"
  by (rule deserialize_publish_ok)

end
