(* ===== verification/Walks.thy ===== *)
theory Walks
  imports Tables
begin

text \<open>
  Walks that write through the caller's references while they go: a refusal leaves what the
  properties before it wrote. The loop here hands the state back with an error too; forgetting
  it gives the loop of Property, whose contract then says what such a walk accepts.
\<close>

function walk_loop ::
    "('s \<Rightarrow> property_reader \<Rightarrow> byte \<Rightarrow> 's \<times> property_reader \<times> ('e + unit)) \<Rightarrow> 'e \<Rightarrow>
     's \<Rightarrow> property_reader \<Rightarrow> 's \<times> property_reader \<times> ('e + unit)" where
  "walk_loop body err s r =
     (if rd_remaining r > 0 then
        (case property_id r of
           (r1, Inl _) \<Rightarrow> (s, r1, Inl err)
         | (r1, Inr pid) \<Rightarrow> (case body s r1 pid of
               (s', r2, Inl e) \<Rightarrow> (s', r2, Inl e)
             | (s', r2, Inr _) \<Rightarrow>
                 if rd_remaining r2 \<le> rd_remaining r1 then walk_loop body err s' r2
                 else (s', r2, Inr ())))
      else (s, r, Inr ()))"
  by pat_completeness auto
termination
  by (relation "measure (\<lambda>(body, err, s, r). unat (rd_remaining r))")
    (auto dest: property_id_less)

declare walk_loop.simps [simp del]

text \<open>An arm whose value is stored before it is judged: its continuation answers the new state
  and the verdict; a failed read leaves the state \<open>s\<close>.\<close>

definition keep :: "'s \<Rightarrow> property_reader \<times> ('e + 's \<times> ('e + unit)) \<Rightarrow>
    's \<times> property_reader \<times> ('e + unit)" where
  "keep s m = (case m of
      (r, Inl e) \<Rightarrow> (s, r, Inl e) | (r, Inr (s', res)) \<Rightarrow> (s', r, res))"

definition forget :: "'s \<times> property_reader \<times> ('e + unit) \<Rightarrow> property_reader \<times> ('e + 's)" where
  "forget m = (case m of (s, r, Inl e) \<Rightarrow> (r, Inl e) | (s, r, Inr _) \<Rightarrow> (r, Inr s))"

definition settle :: "'e + 's \<times> ('e + unit) \<Rightarrow> 'e + 's" where
  "settle x = (case x of Inl e \<Rightarrow> Inl e | Inr (_, Inl e) \<Rightarrow> Inl e | Inr (s, Inr _) \<Rightarrow> Inr s)"

lemma forget_simps [simp]:
  "forget (s, r, Inl e) = (r, Inl e)" "forget (s, r, Inr u) = (r, Inr s)"
  by (simp_all add: forget_def)

lemma settle_simps [simp]:
  "settle (Inl e) = Inl e" "settle (Inr (s, Inl e)) = Inl e" "settle (Inr (s, Inr u)) = Inr s"
  by (simp_all add: settle_def)

lemma forget_if: "forget (if b then x else y) = (if b then forget x else forget y)"
  by simp

lemma settle_if [simp]: "settle (if b then x else y) = (if b then settle x else settle y)"
  by simp

lemma settle_Inr_if [simp]:
  "settle (Inr (s, if b then x else y)) = (if b then settle (Inr (s, x)) else settle (Inr (s, y)))"
  by simp

lemma forget_keep:
  "forget (keep s (arm_u8 err r used k8)) = arm_u8 err r used (\<lambda>u v. settle (k8 u v))"
  "forget (keep s (arm_u16 err r used k16)) = arm_u16 err r used (\<lambda>u v. settle (k16 u v))"
  "forget (keep s (arm_u32 err r used k32)) = arm_u32 err r used (\<lambda>u v. settle (k32 u v))"
  "forget (keep s (arm_utf8 err r used ks)) = arm_utf8 err r used (\<lambda>u v. settle (ks u v))"
  "forget (keep s (arm_user err r ku)) = arm_user err r (\<lambda>v. settle (ku v))"
  "forget (keep s (arm_var err r kv)) = arm_var err r (\<lambda>v. settle (kv v))"
  by (simp_all add: arm_defs keep_def forget_def settle_def split: prod.split sum.split)

lemma walk_forget:
  "forget (walk_loop body err s r) = section_loop (\<lambda>s r pid. forget (body s r pid)) err s r"
proof (induction body err s r rule: walk_loop.induct)
  case (1 body err s r)
  obtain r1 x where pid: "property_id r = (r1, x)" by (cases "property_id r")
  show ?case
  proof (cases "rd_remaining r > 0 \<and> \<not> isl x")
    case True
    then obtain pid where x: "x = Inr pid" by (cases x) auto
    obtain s' r2 y where b: "body s r1 pid = (s', r2, y)" by (cases "body s r1 pid")
    show ?thesis
      using 1 True pid x b
      by (cases y; subst walk_loop.simps, subst section_loop.simps) auto
  next
    case False
    then show ?thesis
      using pid by (cases x; subst walk_loop.simps, subst section_loop.simps) auto
  qed
qed

text \<open>What every arm keeps, the walk keeps, whether it ends well or not.\<close>

lemma walk_keeps:
  assumes "\<And>s r pid. P s \<Longrightarrow> P (fst (body s r pid))" "P s"
  shows "P (fst (walk_loop body err s r))"
  using assms
proof (induction body err s r rule: walk_loop.induct)
  case (1 body err s r)
  have "P s'" if "body s r1 pid = (s', rest)" for r1 pid s' rest
    using 1(2) [OF 1(3), of r1 pid] that by simp
  then show ?case
    using 1 by (subst walk_loop.simps) (auto split: prod.splits sum.splits if_splits)
qed

named_theorems arm_keeps "what an arm keeps"

lemma keeps_cond [arm_keeps]:
  "(b \<Longrightarrow> P (fst x)) \<Longrightarrow> (\<not> b \<Longrightarrow> P (fst y)) \<Longrightarrow> P (fst (if b then x else y))"
  by simp

lemma keeps_refuse [arm_keeps]: "P s \<Longrightarrow> P (fst (s, r, res))"
  by simp

lemma keeps_arms [arm_keeps]:
  "P s \<Longrightarrow> (\<And>u v s' res. k8 u v = Inr (s', res) \<Longrightarrow> P s') \<Longrightarrow> P (fst (keep s (arm_u8 err r used k8)))"
  "P s \<Longrightarrow> (\<And>u v s' res. k16 u v = Inr (s', res) \<Longrightarrow> P s') \<Longrightarrow> P (fst (keep s (arm_u16 err r used k16)))"
  "P s \<Longrightarrow> (\<And>u v s' res. k32 u v = Inr (s', res) \<Longrightarrow> P s') \<Longrightarrow> P (fst (keep s (arm_u32 err r used k32)))"
  "P s \<Longrightarrow> (\<And>u v s' res. ks u v = Inr (s', res) \<Longrightarrow> P s') \<Longrightarrow> P (fst (keep s (arm_utf8 err r used ks)))"
  "P s \<Longrightarrow> (\<And>v s' res. ku v = Inr (s', res) \<Longrightarrow> P s') \<Longrightarrow> P (fst (keep s (arm_user err r ku)))"
  "P s \<Longrightarrow> (\<And>v s' res. kv v = Inr (s', res) \<Longrightarrow> P s') \<Longrightarrow> P (fst (keep s (arm_var err r kv)))"
  by (auto simp: arm_defs keep_def split: prod.splits sum.splits)

text \<open>A table whose walk writes as it goes.\<close>

locale writing_table =
  table: walked_table "\<lambda>s r pid. forget (body s r pid)" ap ok once seen
  for body :: "'s \<Rightarrow> property_reader \<Rightarrow> byte \<Rightarrow> 's \<times> property_reader \<times> ('e + unit)"
    and ap ok once seen
begin

lemma writes_ok:
  assumes "length bs = unat n" and "\<forall>pid. once pid \<longrightarrow> \<not> seen s pid"
  shows "(\<exists>r'. walk_loop body err s (reader_new bs n) = (s', r', Inr ())) \<longleftrightarrow>
    (\<exists>ps. table_takes ok once ps \<and> list_all (\<lambda>(_, v). pv_ok v) ps \<and> bs = section_bytes ps \<and>
       apply_all ap s ps = Some s')"
proof -
  have "walk_loop body err s (reader_new bs n) = (s', r', Inr ()) \<longleftrightarrow>
      section_loop (\<lambda>s r pid. forget (body s r pid)) err s (reader_new bs n) = (r', Inr s')" for r'
    unfolding walk_forget [symmetric]
    by (cases "walk_loop body err s (reader_new bs n)") (auto simp: forget_def split: sum.splits)
  then have "(\<exists>r'. walk_loop body err s (reader_new bs n) = (s', r', Inr ())) \<longleftrightarrow>
    (\<exists>r' t. section_loop (\<lambda>s r pid. forget (body s r pid)) err s (reader_new bs n) = (r', Inr t)
       \<and> t = s')" by simp
  also have "\<dots> \<longleftrightarrow> (\<exists>ps. table_takes ok once ps \<and> list_all (\<lambda>(_, v). pv_ok v) ps \<and>
      bs = section_bytes ps \<and> the (apply_all ap s ps) = s')"
    by (rule table.walk_ok [OF assms, where P = "\<lambda>t. t = s'"])
  also have "\<dots> \<longleftrightarrow> (\<exists>ps. table_takes ok once ps \<and> list_all (\<lambda>(_, v). pv_ok v) ps \<and>
      bs = section_bytes ps \<and> apply_all ap s ps = Some s')"
  proof -
    have "the (apply_all ap s ps) = s' \<longleftrightarrow> apply_all ap s ps = Some s'"
      if "table_takes ok once ps" for ps
    proof -
      from table.apply_all_fresh [OF assms(2)] that
      obtain t where "apply_all ap s ps = Some t" by blast
      then show ?thesis by simp
    qed
    then show ?thesis by (intro ex_cong1) blast
  qed
  finally show ?thesis .
qed

end

text \<open>A property in a list that holds it at most once.\<close>

lemma once_ids_distinct_map_of:
  assumes "distinct (once_ids once ((pid, v) # ps))" "once pid"
  shows "map_of ps pid = None"
  using assms by (auto simp: once_ids_def map_of_eq_None_iff)

end
