(* ===== verification/Writer.thy ===== *)
theory Writer
  imports Header Records
begin

text \<open>
  The fixed headers of outgoing packets (src/crates/rusty_rtos_mqtt-core/src/writer.rs). A
  writer takes the destination and returns it with what was written and the count, 0 when it
  gave up. The lemmas show that a writer that has room leaves exactly the concatenation of its
  fields at the front of the destination and touches nothing behind it.
\<close>

abbreviation (input) VERSION_5 :: byte where "VERSION_5 \<equiv> 5"

definition PINGREQ :: bytes where
  "PINGREQ = [PINGREQ_TYPE, 0]"

abbreviation (input) CLEAN_BIT :: nat where "CLEAN_BIT \<equiv> 1"
abbreviation (input) WILL_BIT :: nat where "WILL_BIT \<equiv> 2"
abbreviation (input) WILL_QOS1_BIT :: nat where "WILL_QOS1_BIT \<equiv> 3"
abbreviation (input) WILL_QOS2_BIT :: nat where "WILL_QOS2_BIT \<equiv> 4"
abbreviation (input) WILL_RETAIN_BIT :: nat where "WILL_RETAIN_BIT \<equiv> 5"
abbreviation (input) PASSWORD_BIT :: nat where "PASSWORD_BIT \<equiv> 6"
abbreviation (input) USERNAME_BIT :: nat where "USERNAME_BIT \<equiv> 7"

record connect_info =
  ci_clean_session :: bool
  ci_keep_alive_seconds :: u16
  ci_username :: "bytes option"
  ci_password :: "bytes option"

record will_info =
  wi_qos :: qos
  wi_retain :: bool

definition put :: "bytes \<Rightarrow> nat \<Rightarrow> byte \<Rightarrow> bytes \<times> bool" where
  "put destination at v =
     (if at < length destination then (destination[at := v], True) else (destination, False))"

definition put_u16 :: "bytes \<Rightarrow> nat \<Rightarrow> u16 \<Rightarrow> bytes \<times> bool" where
  "put_u16 destination at v = (case put_slice destination at (be16 v) of
      None \<Rightarrow> (destination, False) | Some d \<Rightarrow> (d, True))"

text \<open>\<open>get_mut(at..at + n)\<close> and \<open>copy_from_slice\<close>.\<close>

definition put_bytes :: "bytes \<Rightarrow> nat \<Rightarrow> bytes \<Rightarrow> bytes \<times> bool" where
  "put_bytes destination at bs = (case put_slice destination at bs of
      None \<Rightarrow> (destination, False) | Some d \<Rightarrow> (d, True))"

text \<open>\<open>encode_variable_length\<close> into the tail of the destination, and the comparison of its
  count with the number of bytes the length needs.\<close>

definition put_length :: "bytes \<Rightarrow> nat \<Rightarrow> u32 \<Rightarrow> bytes \<times> bool" where
  "put_length destination at len =
     (if at \<le> length destination then
        case encode_variable_length (drop at destination) len of
          (tail, n) \<Rightarrow> (take at destination @ tail,
                        n = unat (variable_length_encoded_size len))
      else (destination, False))"

text \<open>A step of a writer: the rest only runs if it fitted, and otherwise the answer is 0.\<close>

definition wrote :: "bytes \<times> bool \<Rightarrow> (bytes \<Rightarrow> bytes \<times> nat) \<Rightarrow> bytes \<times> nat" where
  "wrote p rest = (case p of (d, ok) \<Rightarrow> if ok then rest d else (d, 0))"

definition serialize_ack_fixed ::
    "bytes \<Rightarrow> byte \<Rightarrow> u16 \<Rightarrow> u32 \<Rightarrow> byte \<Rightarrow> bytes \<times> nat" where
  "serialize_ack_fixed destination packet_type packet_id remaining_length reason_code =
     (let length_bytes = unat (variable_length_encoded_size remaining_length);
          total = 1 + length_bytes + 2 + 1
      in if length destination < total then (destination, 0)
         else wrote (put destination 0 packet_type) (\<lambda>d.
           wrote (put_length d 1 remaining_length) (\<lambda>d.
             let at = 1 + length_bytes in
             wrote (put_u16 d at packet_id) (\<lambda>d.
               wrote (put d (at + 2) reason_code) (\<lambda>d. (d, total))))))"

definition connect_flags :: "connect_info \<Rightarrow> will_info option \<Rightarrow> byte" where
  "connect_flags connect will =
     (let flags = 0;
          flags = (if ci_clean_session connect then flags OR push_bit CLEAN_BIT 1 else flags);
          flags = (if ci_username connect \<noteq> None then flags OR push_bit USERNAME_BIT 1 else flags);
          flags = (if ci_password connect \<noteq> None then flags OR push_bit PASSWORD_BIT 1 else flags)
      in case will of
           None \<Rightarrow> flags
         | Some w \<Rightarrow>
             let flags = flags OR push_bit WILL_BIT 1;
                 flags = (case wi_qos w of
                     AtLeastOnce \<Rightarrow> flags OR push_bit WILL_QOS1_BIT 1
                   | ExactlyOnce \<Rightarrow> flags OR push_bit WILL_QOS2_BIT 1
                   | AtMostOnce \<Rightarrow> flags)
             in if wi_retain w then flags OR push_bit WILL_RETAIN_BIT 1 else flags)"

definition serialize_connect_fixed_header ::
    "bytes \<Rightarrow> connect_info \<Rightarrow> will_info option \<Rightarrow> u32 \<Rightarrow> bytes \<times> nat" where
  "serialize_connect_fixed_header destination connect will remaining_length =
     (let length_bytes = unat (variable_length_encoded_size remaining_length);
          total = 1 + length_bytes + 6 + 1 + 1 + 2
      in if length destination < total then (destination, 0)
         else wrote (put destination 0 CONNECT) (\<lambda>d.
           wrote (put_length d 1 remaining_length) (\<lambda>d.
             let at = 1 + length_bytes in
             wrote (put_u16 d at 4) (\<lambda>d.
               let at = at + 2 in
               wrote (put_bytes d at [0x4D, 0x51, 0x54, 0x54]) (\<lambda>d.
                 let at = at + 4 in
                 wrote (put d at VERSION_5) (\<lambda>d.
                   let at = at + 1 in
                   wrote (put d at (connect_flags connect will)) (\<lambda>d.
                     let at = at + 1 in
                     wrote (put_u16 d at (ci_keep_alive_seconds connect)) (\<lambda>d. (d, total)))))))))"

definition serialize_id_header :: "bytes \<Rightarrow> byte \<Rightarrow> u32 \<Rightarrow> u16 \<Rightarrow> bytes \<times> nat" where
  "serialize_id_header destination packet_type remaining_length packet_id =
     (let length_bytes = unat (variable_length_encoded_size remaining_length);
          total = 1 + length_bytes + 2
      in if length destination < total then (destination, 0)
         else wrote (put destination 0 packet_type) (\<lambda>d.
           wrote (put_length d 1 remaining_length) (\<lambda>d.
             wrote (put_u16 d (1 + length_bytes) packet_id) (\<lambda>d. (d, total)))))"

definition serialize_subscribe_header :: "bytes \<Rightarrow> u32 \<Rightarrow> u16 \<Rightarrow> bytes \<times> nat" where
  "serialize_subscribe_header destination remaining_length packet_id =
     serialize_id_header destination SUBSCRIBE remaining_length packet_id"

definition serialize_unsubscribe_header :: "bytes \<Rightarrow> u32 \<Rightarrow> u16 \<Rightarrow> bytes \<times> nat" where
  "serialize_unsubscribe_header destination remaining_length packet_id =
     serialize_id_header destination UNSUBSCRIBE remaining_length packet_id"

definition serialize_disconnect_fixed :: "bytes \<Rightarrow> byte option \<Rightarrow> u32 \<Rightarrow> bytes \<times> nat" where
  "serialize_disconnect_fixed destination reason_code remaining_length =
     (let length_bytes = unat (variable_length_encoded_size remaining_length);
          total = 1 + length_bytes + (if reason_code \<noteq> None then 1 else 0)
      in if length destination < total then (destination, 0)
         else wrote (put destination 0 DISCONNECT) (\<lambda>d.
           wrote (put_length d 1 remaining_length) (\<lambda>d.
             case reason_code of
               None \<Rightarrow> (d, total)
             | Some reason \<Rightarrow> wrote (put d (1 + length_bytes) reason) (\<lambda>d. (d, total)))))"

section \<open>What a step writes\<close>

lemma wrote_simps [simp]: "wrote (d, True) k = k d" "wrote (d, False) k = (d, 0)"
  by (simp_all add: wrote_def)

text \<open>The steps, on a destination whose front has already been written: \<open>written d xs\<close> is the
  destination \<open>d\<close> with \<open>xs\<close> at its front.\<close>

definition written :: "bytes \<Rightarrow> bytes \<Rightarrow> bytes" where
  "written d xs = splice d 0 xs"

lemma written_Nil [simp]: "written d [] = d"
  by (simp add: written_def)

lemma length_written [simp]: "length xs \<le> length d \<Longrightarrow> length (written d xs) = length d"
  by (simp add: written_def)

lemma written_take: "length xs \<le> length d \<Longrightarrow> take (length xs) (written d xs) = xs"
  using take_splice [of 0 xs d] by (simp add: written_def)

lemma splice_written:
  "length xs + length ys \<le> length d \<Longrightarrow> splice (written d xs) (length xs) ys = written d (xs @ ys)"
  using splice_append [of 0 xs ys d] by (simp add: written_def)

lemma put_written:
  "n = length xs \<Longrightarrow> length xs < length d \<Longrightarrow>
   put (written d xs) n v = (written d (xs @ [v]), True)"
  using splice_written [of xs "[v]" d] by (simp add: put_def splice_update)

lemma put_u16_written:
  "n = length xs \<Longrightarrow> length xs + 2 \<le> length d \<Longrightarrow>
   put_u16 (written d xs) n v = (written d (xs @ be16 v), True)"
  using splice_written [of xs "be16 v" d] by (simp add: put_u16_def put_slice_def)

lemma put_bytes_written:
  "n = length xs \<Longrightarrow> length xs + length ys \<le> length d \<Longrightarrow>
   put_bytes (written d xs) n ys = (written d (xs @ ys), True)"
  using splice_written [of xs ys d] by (simp add: put_bytes_def put_slice_def)

lemma put_length_written:
  assumes "n = length xs" "unat len \<le> 268435455"
    "length xs + unat (variable_length_encoded_size len) \<le> length d"
  shows "put_length (written d xs) n len = (written d (xs @ vl_encode (unat len)), True)"
proof -
  have e: "unat (variable_length_encoded_size len) = length (vl_encode (unat len))"
    using assms(2) by (simp add: unat_encoded_size)
  then have "encode_variable_length (drop n (written d xs)) len =
      (splice (drop n (written d xs)) 0 (vl_encode (unat len)), length (vl_encode (unat len)))"
    using assms by (simp add: encode_variable_length_eq)
  moreover have "take n (written d xs) @ splice (drop n (written d xs)) 0 (vl_encode (unat len))
      = written d (xs @ vl_encode (unat len))"
    using splice_drop [of n "written d xs" 0 "vl_encode (unat len)"]
      splice_written [of xs "vl_encode (unat len)" d] assms e by simp
  ultimately show ?thesis using assms e by (simp add: put_length_def)
qed

lemma put_length_refuses:
  assumes "n = length xs" "268435456 \<le> unat len" "length xs + 5 \<le> length d"
  shows "snd (put_length (written d xs) n len) = False"
proof -
  have v: "length (vl_encode (unat len)) = 5"
  proof -
    have "unat len div 128 < 268435456"
      by (rule less_mult_imp_div_less, rule less_trans [OF unat_lt32]) simp
    moreover have "2097152 \<le> unat len div 128" using assms(2) by (simp add: less_eq_div_iff_mult_less_eq)
    ultimately show ?thesis using assms(2) by (simp add: vl_encode_step length_vl_encode)
  qed
  have "unat (variable_length_encoded_size len) = 4"
    using assms(2) by (simp add: variable_length_encoded_size_def word_less_nat_alt)
  then show ?thesis
    using assms v encode_loop_spec [of 0 len "drop n (written d xs)"]
    by (simp add: put_length_def encode_variable_length_def split: prod.split)
qed

lemmas writes = put_written put_u16_written put_bytes_written put_length_written

text \<open>The first step, on the bare destination.\<close>

lemma put_first: "d \<noteq> [] \<Longrightarrow> put d 0 v = (written d [v], True)"
  using put_written [of 0 "[]" d v] by simp

section \<open>What the headers are\<close>

lemma serialize_ack_fixed_eq:
  assumes "rl \<le> MAX_REMAINING_LENGTH"
  shows "serialize_ack_fixed d t i rl rc =
    (let bs = t # vl_encode (unat rl) @ be16 i @ [rc]
     in if length d < length bs then (d, 0) else (written d bs, length bs))"
proof -
  have e: "unat (variable_length_encoded_size rl) = length (vl_encode (unat rl))" and m: "unat rl \<le> 268435455"
    using assms by (simp_all add: unat_encoded_size word_le_nat_alt)
  show ?thesis
    by (cases "d = []") (auto simp: serialize_ack_fixed_def e m put_first writes Let_def not_less)
qed

lemma serialize_id_header_eq:
  assumes "rl \<le> MAX_REMAINING_LENGTH"
  shows "serialize_id_header d t rl i =
    (let bs = t # vl_encode (unat rl) @ be16 i
     in if length d < length bs then (d, 0) else (written d bs, length bs))"
proof -
  have e: "unat (variable_length_encoded_size rl) = length (vl_encode (unat rl))" and m: "unat rl \<le> 268435455"
    using assms by (simp_all add: unat_encoded_size word_le_nat_alt)
  show ?thesis
    by (cases "d = []") (auto simp: serialize_id_header_def e m put_first writes Let_def not_less)
qed

lemma serialize_disconnect_fixed_eq:
  assumes "rl \<le> MAX_REMAINING_LENGTH"
  shows "serialize_disconnect_fixed d rc rl =
    (let bs = DISCONNECT # vl_encode (unat rl) @ (case rc of None \<Rightarrow> [] | Some c \<Rightarrow> [c])
     in if length d < length bs then (d, 0) else (written d bs, length bs))"
proof -
  have e: "unat (variable_length_encoded_size rl) = length (vl_encode (unat rl))" and m: "unat rl \<le> 268435455"
    using assms by (simp_all add: unat_encoded_size word_le_nat_alt)
  show ?thesis
    by (cases rc; cases "d = []") (auto simp: serialize_disconnect_fixed_def e m put_first writes Let_def not_less)
qed

lemma serialize_connect_fixed_header_eq:
  assumes "rl \<le> MAX_REMAINING_LENGTH"
  shows "serialize_connect_fixed_header d c w rl =
    (let bs = CONNECT # vl_encode (unat rl) @ [0, 4, 0x4D, 0x51, 0x54, 0x54, VERSION_5,
       connect_flags c w] @ be16 (ci_keep_alive_seconds c)
     in if length d < length bs then (d, 0) else (written d bs, length bs))"
proof -
  have e: "unat (variable_length_encoded_size rl) = length (vl_encode (unat rl))" and m: "unat rl \<le> 268435455"
    using assms by (simp_all add: unat_encoded_size word_le_nat_alt)
  have b: "be16 4 = [0, 4]" by (simp add: be16_def)
  show ?thesis
    by (cases "d = []") (auto simp: serialize_connect_fixed_header_def e m put_first writes Let_def b not_less)
qed

text \<open>The six decisions in the flags byte of a CONNECT: each bit is set exactly for its
  decision, the reserved bit is clear, and the byte determines them, so no two combinations
  share a byte and the broker reads back what was asked for.\<close>

theorem connect_flags_bits:
  "\<not> bit (connect_flags c w) 0 \<and>
    (bit (connect_flags c w) 1 \<longleftrightarrow> ci_clean_session c) \<and>
    (bit (connect_flags c w) 2 \<longleftrightarrow> w \<noteq> None) \<and>
    (bit (connect_flags c w) 3 \<longleftrightarrow> (\<exists>wi. w = Some wi \<and> wi_qos wi = AtLeastOnce)) \<and>
    (bit (connect_flags c w) 4 \<longleftrightarrow> (\<exists>wi. w = Some wi \<and> wi_qos wi = ExactlyOnce)) \<and>
    (bit (connect_flags c w) 5 \<longleftrightarrow> (\<exists>wi. w = Some wi \<and> wi_retain wi)) \<and>
    (bit (connect_flags c w) 6 \<longleftrightarrow> ci_password c \<noteq> None) \<and>
    (bit (connect_flags c w) 7 \<longleftrightarrow> ci_username c \<noteq> None)"
  by (simp_all add: connect_flags_def bit_simps Let_def split: option.split qos.split)

text \<open>The five header writers, for a length MQTT allows: a destination that is too short
  is left alone and answered with 0, and otherwise the count is the number of bytes of the
  header, the header is at the front of the destination and the rest of it is untouched.\<close>

theorem headers_written:
  assumes "rl \<le> MAX_REMAINING_LENGTH"
  shows "serialize_ack_fixed d t i rl rc =
      (let bs = t # vl_encode (unat rl) @ be16 i @ [rc]
       in if length d < length bs then (d, 0) else (bs @ drop (length bs) d, length bs)) \<and>
    serialize_subscribe_header d rl i =
      (let bs = 0x82 # vl_encode (unat rl) @ be16 i
       in if length d < length bs then (d, 0) else (bs @ drop (length bs) d, length bs)) \<and>
    serialize_unsubscribe_header d rl i =
      (let bs = 0xA2 # vl_encode (unat rl) @ be16 i
       in if length d < length bs then (d, 0) else (bs @ drop (length bs) d, length bs)) \<and>
    serialize_disconnect_fixed d reason rl =
      (let bs = 0xE0 # vl_encode (unat rl) @ (case reason of None \<Rightarrow> [] | Some c \<Rightarrow> [c])
       in if length d < length bs then (d, 0) else (bs @ drop (length bs) d, length bs)) \<and>
    serialize_connect_fixed_header d c w rl =
      (let bs = 0x10 # vl_encode (unat rl) @ [0, 4, 0x4D, 0x51, 0x54, 0x54, 5,
         connect_flags c w] @ be16 (ci_keep_alive_seconds c)
       in if length d < length bs then (d, 0) else (bs @ drop (length bs) d, length bs))"
  using serialize_ack_fixed_eq [OF assms, of d t i rc] serialize_id_header_eq [OF assms, of d _ i]
    serialize_disconnect_fixed_eq [OF assms, of d reason]
    serialize_connect_fixed_header_eq [OF assms, of d c w]
  unfolding Let_def written_def splice_0 serialize_subscribe_header_def
    serialize_unsubscribe_header_def by auto

theorem headers_written_witness:
  "serialize_subscribe_header [9, 9, 9, 9, 9] 7 3 = ([0x82, 7, 0, 3, 9], 4)"
proof -
  have "be16 3 = [0, 3]" "vl_encode 7 = [7]" by (simp_all add: be16_def vl_encode_small)
  then show ?thesis
    using headers_written [of 7 "[9, 9, 9, 9, 9]" _ 3] by (simp add: word_le_nat_alt)
qed

text \<open>A length past the maximum is never written: the list, CONNECT and acknowledgement
  headers answer 0 for it, whatever the destination.\<close>

theorem oversized_header_refused:
  assumes "MAX_REMAINING_LENGTH < rl"
  shows "snd (serialize_ack_fixed d t i rl rc) = 0 \<and>
    snd (serialize_id_header d t rl i) = 0 \<and>
    snd (serialize_connect_fixed_header d c w rl) = 0"
proof (intro conjI)
  have big: "268435456 \<le> unat rl" using assms by (simp add: word_less_nat_alt)
  have four: "unat (variable_length_encoded_size rl) = 4"
    using big by (simp add: variable_length_encoded_size_def word_less_nat_alt)
  have p: "snd (wrote (put_length (written d [v]) 1 rl) k) = 0" if "6 \<le> length d" for d v k
    using put_length_refuses [of 1 "[v]" rl d] big that
    by (cases "put_length (written d [v]) 1 rl") simp
  have q: "snd (if length d < n then (d, 0) else wrote (put d 0 v)
      (\<lambda>d. wrote (put_length d 1 rl) k)) = 0" if "6 \<le> n" for n d v k
    using that p [of d v k] put_first [of d v] by (cases "length d < n"; cases "d = []") simp_all
  show "snd (serialize_ack_fixed d t i rl rc) = 0"
    unfolding serialize_ack_fixed_def Let_def four by (rule q) simp
  show "snd (serialize_id_header d t rl i) = 0"
    unfolding serialize_id_header_def Let_def four by (rule q) simp
  show "snd (serialize_connect_fixed_header d c w rl) = 0"
    unfolding serialize_connect_fixed_header_def Let_def four by (rule q) simp
qed

theorem oversized_header_refused_witness:
  "snd (serialize_id_header [1, 2, 3, 4, 5, 6, 7, 8] 0x82 268435456 3) = 0"
  using oversized_header_refused [of 268435456] by (simp add: word_less_nat_alt)

end
