(* ===== verification/Buffers.thy ===== *)
theory Buffers
  imports Writer Property
begin

text \<open>
  The private helpers the serializers of connect.rs, disconnect.rs, outbound.rs and
  outpublish.rs share: appending a copied run, a variable length, a length-prefixed string
  and a property section at an index of the destination, with the error for a missing slot as
  a parameter. Each answers the destination with the next index, so a step of a serializer is
  a call and the rest of the function. The lemmas say what each leaves at the front of a
  destination with room for it.
\<close>

section \<open>The steps\<close>

text \<open>The question mark of a function that also changes the destination.\<close>

definition wstep :: "bytes \<times> ('e + 'a) \<Rightarrow> (bytes \<Rightarrow> 'a \<Rightarrow> bytes \<times> ('e + 'b)) \<Rightarrow> bytes \<times> ('e + 'b)" where
  "wstep m k = (case m of (d, Inl e) \<Rightarrow> (d, Inl e) | (d, Inr a) \<Rightarrow> k d a)"

lemma wstep_simps [simp]:
  "wstep (d, Inl e) k = (d, Inl e)"
  "wstep (d, Inr a) k = k d a"
  by (simp_all add: wstep_def)

definition copy_at :: "'e \<Rightarrow> bytes \<Rightarrow> nat \<Rightarrow> bytes \<Rightarrow> bytes \<times> ('e + nat)" where
  "copy_at no_memory destination at bs =
     (case put_slice destination at bs of
        None \<Rightarrow> (destination, Inl no_memory)
      | Some d \<Rightarrow> (d, Inr (at + length bs)))"

definition put_length_at :: "'e \<Rightarrow> bytes \<Rightarrow> nat \<Rightarrow> u32 \<Rightarrow> bytes \<times> ('e + nat)" where
  "put_length_at no_memory destination at len =
     (if length destination < at then (destination, Inl no_memory)
      else case encode_variable_length (drop at destination) len of
        (rest, encoded) \<Rightarrow>
          let d = take at destination @ rest in
          if encoded = 0 then (d, Inl no_memory) else (d, Inr (at + encoded)))"

definition put_string_at :: "'e \<Rightarrow> 'e \<Rightarrow> bytes \<Rightarrow> nat \<Rightarrow> bytes \<Rightarrow> bytes \<times> ('e + nat)" where
  "put_string_at bad_parameter no_memory destination at v =
     (case try_u16 (length v) of
        None \<Rightarrow> (destination, Inl bad_parameter)
      | Some len \<Rightarrow>
          if length destination < at then (destination, Inl no_memory)
          else case encode_string (drop at destination) (Some v) len of
            (rest, n) \<Rightarrow>
              let d = take at destination @ rest in
              if n = 0 then (d, Inl no_memory) else (d, Inr (at + n)))"

definition put_section_at :: "'e \<Rightarrow> bytes \<Rightarrow> nat \<Rightarrow> bytes \<Rightarrow> u32 \<Rightarrow> bytes \<times> ('e + nat)" where
  "put_section_at no_memory destination at sec len =
     wstep (put_length_at no_memory destination at len) (\<lambda>d body_at.
       if sec = [] then (d, Inr body_at) else copy_at no_memory d body_at sec)"

section \<open>What a step leaves at the front\<close>

named_theorems fills "what each step appends to the written front"

lemma copy_at_fills [fills]:
  "n = length xs \<Longrightarrow> length xs + length ys \<le> length d \<Longrightarrow>
   copy_at e (written d xs) n ys = (written d (xs @ ys), Inr (length xs + length ys))"
  using splice_written [of xs ys d] by (simp add: copy_at_def put_slice_def)

lemma put_length_at_fills [fills]:
  assumes "n = length xs" "unat len < 268435456" "length xs + length (vl_encode (unat len)) \<le> length d"
  shows "put_length_at e (written d xs) n len =
    (written d (xs @ vl_encode (unat len)), Inr (length xs + length (vl_encode (unat len))))"
proof -
  have w: "put_length (written d xs) n len = (written d (xs @ vl_encode (unat len)), True)"
    using assms by (intro put_length_written) (simp_all add: unat_encoded_size)
  have v: "vl_encode (unat len) \<noteq> []" by (metis length_greater_0_conv length_vl_encode_pos)
  show ?thesis
    using w assms(2,3) v unfolding assms(1)
    by (auto simp: put_length_at_def put_length_def encode_variable_length_eq unat_encoded_size
        split: if_splits)
qed

lemma put_string_at_fills [fills]:
  assumes "n = length xs" "length v < 65536" "length xs + length v + 2 \<le> length d"
  shows "put_string_at b e (written d xs) n v =
    (written d (xs @ mqtt_string v), Inr (length xs + length v + 2))"
proof -
  have t: "try_u16 (length v) = Some (word_of_nat (length v))" using assms(2) by (simp add: try_u16_def)
  have "encode_string (drop n (written d xs)) (Some v) (word_of_nat (length v)) =
      (splice (drop n (written d xs)) 0 (mqtt_string v), length v + 2)"
    using assms by (simp add: encode_string_Some unat_u16_of_nat)
  moreover have "take n (written d xs) @ splice (drop n (written d xs)) 0 (mqtt_string v)
      = written d (xs @ mqtt_string v)"
    using splice_drop [of n "written d xs" 0 "mqtt_string v"]
      splice_written [of xs "mqtt_string v" d] assms by simp
  ultimately show ?thesis using assms by (simp add: put_string_at_def t)
qed

lemma put_section_at_fills [fills]:
  assumes "n = length xs" "length sec < 268435456" "len = word_of_nat (length sec)"
    "length xs + length (property_block sec) \<le> length d"
  shows "put_section_at e (written d xs) n sec len =
    (written d (xs @ property_block sec), Inr (length xs + length (property_block sec)))"
proof -
  have u: "unat len = length sec" using assms(2,3) by (simp add: unat_u32_of_nat)
  have "put_length_at e (written d xs) n len =
    (written d (xs @ vl_encode (length sec)), Inr (length xs + length (vl_encode (length sec))))"
    using put_length_at_fills [of n xs len d e] assms(1,2,4) u by (simp add: length_property_block)
  moreover have "copy_at e (written d (xs @ vl_encode (length sec)))
      (length xs + length (vl_encode (length sec))) sec =
    (written d (xs @ property_block sec), Inr (length xs + length (property_block sec)))"
    using copy_at_fills [of _ "xs @ vl_encode (length sec)" sec d e] assms(4)
    by (simp add: property_block_def)
  ultimately show ?thesis by (simp add: put_section_at_def property_block_def)
qed

section \<open>Composing steps\<close>

text \<open>\<open>appends d m ys\<close>: on the destination \<open>d\<close>, whatever its front, the step \<open>m\<close> appends \<open>ys\<close> to
  it when there is room.\<close>

definition appends :: "bytes \<Rightarrow> (bytes \<Rightarrow> nat \<Rightarrow> bytes \<times> ('e + nat)) \<Rightarrow> bytes \<Rightarrow> bool" where
  "appends d m ys \<longleftrightarrow> (\<forall>xs. length xs + length ys \<le> length d \<longrightarrow>
     m (written d xs) (length xs) = (written d (xs @ ys), Inr (length xs + length ys)))"

named_theorems appends_intros "what each step appends"

lemma appendsD:
  "appends d m ys \<Longrightarrow> n = length xs \<Longrightarrow> length xs + length ys \<le> length d \<Longrightarrow>
   m (written d xs) n = (written d (xs @ ys), Inr (length xs + length ys))"
  by (simp add: appends_def)

lemma appends_done [appends_intros]: "appends d (\<lambda>d at. (d, Inr at)) []"
  by (simp add: appends_def)

lemma appends_wstep [appends_intros]:
  "appends d m ys \<Longrightarrow> appends d m' zs \<Longrightarrow> appends d (\<lambda>d at. wstep (m d at) m') (ys @ zs)"
  unfolding appends_def by (metis (no_types, lifting) add.assoc add_leD1 append.assoc length_append wstep_simps(2))

lemma appends_case_option [appends_intros]:
  "(\<And>v. x = Some v \<Longrightarrow> appends d (m v) (f v)) \<Longrightarrow>
   appends d (\<lambda>d at. case x of None \<Rightarrow> (d, Inr at) | Some v \<Rightarrow> m v d at)
     (case x of None \<Rightarrow> [] | Some v \<Rightarrow> f v)"
  by (cases x) (simp_all add: appends_done)

lemma appends_if [appends_intros]:
  "(b \<Longrightarrow> appends d m ys) \<Longrightarrow> (\<not> b \<Longrightarrow> appends d m' zs) \<Longrightarrow>
   appends d (\<lambda>d at. if b then m d at else m' d at) (if b then ys else zs)"
  by simp

lemma appends_copy [appends_intros]: "appends d (\<lambda>d at. copy_at e d at ys) ys"
  by (simp add: appends_def fills)

lemma appends_length [appends_intros]:
  "unat len < 268435456 \<Longrightarrow> appends d (\<lambda>d at. put_length_at e d at len) (vl_encode (unat len))"
  by (simp add: appends_def fills)

lemma appends_string [appends_intros]:
  "length v < 65536 \<Longrightarrow> appends d (\<lambda>d at. put_string_at b e d at v) (mqtt_string v)"
  unfolding appends_def length_mqtt_string add.assoc [symmetric] by (blast intro: put_string_at_fills)

lemma appends_section [appends_intros]:
  "length sec < 268435456 \<Longrightarrow> len = word_of_nat (length sec) \<Longrightarrow>
   appends d (\<lambda>d at. put_section_at e d at sec len) (property_block sec)"
  unfolding appends_def by (blast intro: put_section_at_fills)

section \<open>Reading a written packet\<close>

text \<open>A packet as every serializer lays it down, and its header read back.\<close>

lemma header_of_written:
  assumes "incoming_packet_valid t" "length body < 268435456"
    and "bs = t # vl_encode (length body) @ body" "length bs \<le> length d"
  shows "process_incoming_packet_type_and_length (written d bs) (length bs) =
    Inr \<lparr>h_packet_type = t, h_remaining_length = word_of_nat (length body),
         h_header_length = length (vl_encode (length body)) + 1\<rparr>"
    and "drop (length (vl_encode (length body)) + 1) (written d bs) = body @ drop (length bs) d"
proof -
  have "take (length bs) (written d bs) = bs" using assms(4) by (rule written_take)
  moreover have "vl_scan 4 (vl_encode (length body) @ body)
      = Vl_Done (length body) (length (vl_encode (length body)))"
    using assms(2) by (intro vl_scan_encode) simp_all
  ultimately show "process_incoming_packet_type_and_length (written d bs) (length bs) =
    Inr \<lparr>h_packet_type = t, h_remaining_length = word_of_nat (length body),
         h_header_length = length (vl_encode (length body)) + 1\<rparr>"
    using assms(1) by (simp add: process_incoming_unfold assms(3))
  show "drop (length (vl_encode (length body)) + 1) (written d bs) = body @ drop (length bs) d"
    by (simp add: written_def splice_0 assms(3))
qed

end
