(* ===== verification/Outpublish.thy ===== *)
theory Outpublish
  imports Publish Buffers
begin

text \<open>
  The outgoing PUBLISH (src/crates/rusty_rtos_mqtt-core/src/outpublish.rs): the size with its
  budget, the three serializers (whole packet, header, header without topic), and the patch of
  the DUP flag for a resend.
\<close>

record outgoing_publish =
  og_qos :: qos
  og_dup :: bool
  og_retain :: bool
  og_topic_name :: bytes
  og_payload :: bytes
  og_properties :: bytes

record publish_size =
  pz_remaining_length :: u32
  pz_packet_size :: u32

datatype outgoing_error = Outgoing_BadParameter | Outgoing_NoMemory

definition publish_packet_size :: "outgoing_publish \<Rightarrow> u32 \<Rightarrow> outgoing_error + publish_size" where
  "publish_packet_size publish max_packet_size =
     rbind (ok_or Outgoing_BadParameter (try_u32 (length (og_properties publish)))) (\<lambda>property_length.
     if property_length > MAX_REMAINING_LENGTH then Inl Outgoing_BadParameter
     else if length (og_topic_name publish) > 65535 then Inl Outgoing_BadParameter
     else rbind (ok_or Outgoing_BadParameter (try_u32 (length (og_payload publish)))) (\<lambda>payload_length.
     if payload_length \<ge> REMAINING_LENGTH_INVALID then Inl Outgoing_BadParameter
     else rbind (ok_or Outgoing_BadParameter (try_u32 (length (og_topic_name publish)))) (\<lambda>topic_length.
     let packet_size = sat_add topic_length 2;
         packet_size = (if og_qos publish \<noteq> AtMostOnce then sat_add packet_size 2 else packet_size);
         packet_size = sat_add packet_size (variable_length_encoded_size property_length);
         budget = sat_sub MAX_REMAINING_LENGTH packet_size
     in if property_length > budget then Inl Outgoing_BadParameter
     else let packet_size = sat_add packet_size property_length;
              budget = sat_sub budget property_length
     in if payload_length > budget then Inl Outgoing_BadParameter
     else let remaining_length = sat_add packet_size payload_length;
              packet_size = sat_add (sat_add remaining_length
                (variable_length_encoded_size remaining_length)) 1
     in if packet_size > max_packet_size then Inl Outgoing_BadParameter
     else Inr \<lparr>pz_remaining_length = remaining_length, pz_packet_size = packet_size\<rparr>)))"

definition publish_flags :: "outgoing_publish \<Rightarrow> byte" where
  "publish_flags publish =
     (let flags = PUBLISH;
          flags = (case og_qos publish of
             AtMostOnce \<Rightarrow> flags
           | AtLeastOnce \<Rightarrow> flags OR push_bit FLAG_QOS1 1
           | ExactlyOnce \<Rightarrow> flags OR push_bit FLAG_QOS2 1);
          flags = (if og_retain publish then flags OR push_bit FLAG_RETAIN 1 else flags)
      in if og_dup publish then flags OR push_bit FLAG_DUP 1 else flags)"

definition outgoing_put_string :: "bytes \<Rightarrow> nat \<Rightarrow> bytes \<Rightarrow> bytes \<times> (outgoing_error + nat)" where
  "outgoing_put_string = put_string_at Outgoing_BadParameter Outgoing_NoMemory"

definition outgoing_put_section :: "bytes \<Rightarrow> nat \<Rightarrow> bytes \<Rightarrow> bytes \<times> (outgoing_error + nat)" where
  "outgoing_put_section destination at sec =
     (case try_u32 (length sec) of
        None \<Rightarrow> (destination, Inl Outgoing_BadParameter)
      | Some len \<Rightarrow> put_section_at Outgoing_NoMemory destination at sec len)"

text \<open>\<open>*destination.first_mut().ok_or(NoMemory)? = flags\<close>.\<close>

definition put_type :: "bytes \<Rightarrow> byte \<Rightarrow> bytes \<times> (outgoing_error + nat)" where
  "put_type destination flags = (case put destination 0 flags of
      (d, True) \<Rightarrow> (d, Inr 1) | (d, False) \<Rightarrow> (d, Inl Outgoing_NoMemory))"

definition serialize_common ::
    "bytes \<Rightarrow> outgoing_publish \<Rightarrow> u16 \<Rightarrow> u32 \<Rightarrow> bool \<Rightarrow> bytes \<times> (outgoing_error + nat)" where
  "serialize_common destination publish packet_id remaining_length with_payload =
     wstep (put_type destination (publish_flags publish)) (\<lambda>d at.
     wstep (put_length_at Outgoing_NoMemory d at remaining_length) (\<lambda>d at.
     wstep (outgoing_put_string d at (og_topic_name publish)) (\<lambda>d at.
     wstep (if og_qos publish \<noteq> AtMostOnce
            then copy_at Outgoing_NoMemory d at (be16 packet_id) else (d, Inr at)) (\<lambda>d at.
     wstep (outgoing_put_section d at (og_properties publish)) (\<lambda>d at.
     if with_payload \<and> og_payload publish \<noteq> []
     then copy_at Outgoing_NoMemory d at (og_payload publish) else (d, Inr at))))))"

definition validate_strict :: "outgoing_publish \<Rightarrow> u16 \<Rightarrow> u32 \<Rightarrow> outgoing_error + unit" where
  "validate_strict publish packet_id remaining_length =
     (if og_topic_name publish = [] then Inl Outgoing_BadParameter
      else if length (og_topic_name publish) > 65535 then Inl Outgoing_BadParameter
      else if og_qos publish \<noteq> AtMostOnce \<and> packet_id = 0 then Inl Outgoing_BadParameter
      else if og_dup publish \<and> og_qos publish = AtMostOnce then Inl Outgoing_BadParameter
      else if remaining_length \<ge> REMAINING_LENGTH_INVALID then Inl Outgoing_BadParameter
      else Inr ())"

definition serialize_publish ::
    "bytes \<Rightarrow> outgoing_publish \<Rightarrow> u16 \<Rightarrow> u32 \<Rightarrow> bytes \<times> (outgoing_error + nat)" where
  "serialize_publish destination publish packet_id remaining_length =
     (case validate_strict publish packet_id remaining_length of
        Inl e \<Rightarrow> (destination, Inl e)
      | Inr _ \<Rightarrow>
          if length (og_properties publish) > 268435455
          then (destination, Inl Outgoing_BadParameter)
          else let packet_size = sat_add (sat_add remaining_length
                     (variable_length_encoded_size remaining_length)) 1
          in if length destination < unat packet_size then (destination, Inl Outgoing_NoMemory)
             else serialize_common destination publish packet_id remaining_length True)"

definition serialize_publish_header ::
    "bytes \<Rightarrow> outgoing_publish \<Rightarrow> u16 \<Rightarrow> u32 \<Rightarrow> bytes \<times> (outgoing_error + nat)" where
  "serialize_publish_header destination publish packet_id remaining_length =
     (case validate_strict publish packet_id remaining_length of
        Inl e \<Rightarrow> (destination, Inl e)
      | Inr _ \<Rightarrow> (case try_u32 (length (og_payload publish)) of
          None \<Rightarrow> (destination, Inl Outgoing_BadParameter)
        | Some payload_length \<Rightarrow>
            if remaining_length < payload_length then (destination, Inl Outgoing_BadParameter)
            else let header_size = sat_sub (sat_add (sat_add remaining_length
                       (variable_length_encoded_size remaining_length)) 1) payload_length
            in if length destination < unat header_size
               then (destination, Inl Outgoing_NoMemory)
               else wstep (serialize_common destination publish packet_id remaining_length False)
                      (\<lambda>d _. (d, Inr (unat header_size)))))"

definition serialize_publish_header_without_topic ::
    "bytes \<Rightarrow> outgoing_publish \<Rightarrow> u32 \<Rightarrow> bytes \<times> (outgoing_error + nat)" where
  "serialize_publish_header_without_topic destination publish remaining_length =
     (if remaining_length \<ge> REMAINING_LENGTH_INVALID
      then (destination, Inl Outgoing_BadParameter)
      else let header_length = 1 + unat (variable_length_encoded_size remaining_length) + 2
      in if length destination < header_length then (destination, Inl Outgoing_NoMemory)
      else wstep (put_type destination (publish_flags publish)) (\<lambda>d at.
        wstep (put_length_at Outgoing_NoMemory d at remaining_length) (\<lambda>d at.
        wstep (copy_at Outgoing_NoMemory d at (be16 (case try_u16 (length (og_topic_name publish)) of
                 None \<Rightarrow> - 1 | Some n \<Rightarrow> n))) (\<lambda>d _.
        (d, Inr header_length)))))"

definition update_duplicate_flag :: "byte \<Rightarrow> bool \<Rightarrow> byte \<times> (outgoing_error + unit)" where
  "update_duplicate_flag header set_dup =
     (if header AND 0xF0 \<noteq> PUBLISH then (header, Inl Outgoing_BadParameter)
      else if set_dup then (header OR push_bit FLAG_DUP 1, Inr ())
      else (header AND NOT (push_bit FLAG_DUP 1), Inr ()))"

section \<open>What the serializers append\<close>

definition publish_head :: "outgoing_publish \<Rightarrow> u16 \<Rightarrow> bytes" where
  "publish_head publish packet_id = mqtt_string (og_topic_name publish) @
     (if og_qos publish \<noteq> AtMostOnce then be16 packet_id else []) @
     property_block (og_properties publish)"

definition publish_content :: "outgoing_publish \<Rightarrow> u16 \<Rightarrow> bytes" where
  "publish_content publish packet_id = publish_head publish packet_id @ og_payload publish"

lemma publish_flags_type:
  "publish_flags g = publish_type_byte (og_qos g) (og_dup g) (og_retain g)"
  unfolding byte_eq_bits publish_flags_def publish_type_byte_def Let_def
  by (cases "og_qos g") (auto simp: bit_simps)

lemma outgoing_put_section_appends [appends_intros]:
  "length sec < 268435456 \<Longrightarrow> appends d (\<lambda>d at. outgoing_put_section d at sec) (property_block sec)"
proof -
  assume a: "length sec < 268435456"
  then have t: "try_u32 (length sec) = Some (word_of_nat (length sec))" by (simp add: try_u32_def)
  show ?thesis unfolding outgoing_put_section_def t option.case using a
    by (intro appends_section refl)
qed

lemma outgoing_put_string_appends [appends_intros]:
  "length v < 65536 \<Longrightarrow> appends d (\<lambda>d at. outgoing_put_string d at v) (mqtt_string v)"
  unfolding outgoing_put_string_def by (rule appends_string)

definition og_fits :: "outgoing_publish \<Rightarrow> bool" where
  "og_fits g \<longleftrightarrow> length (og_topic_name g) < 65536 \<and> length (og_properties g) < 268435456"

lemma serialize_common_ok:
  assumes "og_fits g" "unat rl < 268435456"
    and "bs = publish_flags g # vl_encode (unat rl) @ publish_head g i @
      (if with then og_payload g else [])" and "length bs \<le> length d"
  shows "serialize_common d g i rl with = (written d bs, Inr (length bs))"
proof -
  have first: "put_type d (publish_flags g) = (written d [publish_flags g], Inr 1)"
    using assms(3,4) put_first [of d "publish_flags g"] by (cases "d = []") (simp_all add: put_type_def)
  have "appends d (\<lambda>d at.
     wstep (put_length_at Outgoing_NoMemory d at rl) (\<lambda>d at.
     wstep (outgoing_put_string d at (og_topic_name g)) (\<lambda>d at.
     wstep (if og_qos g \<noteq> AtMostOnce
            then copy_at Outgoing_NoMemory d at (be16 i) else (d, Inr at)) (\<lambda>d at.
     wstep (outgoing_put_section d at (og_properties g)) (\<lambda>d at.
     if with \<and> og_payload g \<noteq> []
     then copy_at Outgoing_NoMemory d at (og_payload g) else (d, Inr at))))))
    (vl_encode (unat rl) @ mqtt_string (og_topic_name g) @
      (if og_qos g \<noteq> AtMostOnce then be16 i else []) @ property_block (og_properties g) @
      (if with \<and> og_payload g \<noteq> [] then og_payload g else []))"
    using assms(1,2) by (intro appends_intros) (simp_all add: og_fits_def)
  from appendsD [OF this, of 1 "[publish_flags g]"] assms(3,4) show ?thesis
    unfolding serialize_common_def first wstep_simps
    by (cases "with \<and> og_payload g \<noteq> []") (auto simp: publish_head_def)
qed

section \<open>The size\<close>

definition publish_length :: "outgoing_publish \<Rightarrow> nat" where
  "publish_length g = 2 + length (og_topic_name g) + id_cost (og_qos g)
     + length (property_block (og_properties g)) + length (og_payload g)"

lemma length_publish_content: "length (publish_content g i) = publish_length g"
  by (simp add: publish_content_def publish_head_def publish_length_def id_cost_def)

lemma publish_packet_size_ok:
  "publish_packet_size g mx = Inr sz \<longleftrightarrow>
     og_fits g \<and> publish_length g < 268435456 \<and>
     1 + length (vl_encode (publish_length g)) + publish_length g \<le> unat mx \<and>
     pz_remaining_length sz = word_of_nat (publish_length g) \<and>
     pz_packet_size sz = word_of_nat (1 + length (vl_encode (publish_length g)) + publish_length g)"
proof (cases "og_fits g \<and> length (og_payload g) < 268435456")
  case False
  have "publish_packet_size g mx \<noteq> Inr sz"
  proof
    assume "publish_packet_size g mx = Inr sz"
    then obtain pl ql where "unat pl = length (og_properties g)" "\<not> pl > MAX_REMAINING_LENGTH"
      "\<not> length (og_topic_name g) > 65535" "unat ql = length (og_payload g)"
      "\<not> ql \<ge> REMAINING_LENGTH_INVALID"
      unfolding publish_packet_size_def rbind_eq_Inr ok_or_eq_Inr try_u32_eq_Some guard_eq_Inr by metis
    then show False using False by (auto simp: og_fits_def word_less_nat_alt word_le_nat_alt)
  qed
  moreover have "\<not> (og_fits g \<and> publish_length g < 268435456)"
    using False by (auto simp: publish_length_def)
  ultimately show ?thesis by blast
next
  case True
  then have len: "length (og_topic_name g) < 65536" "length (og_properties g) < 268435456"
    "length (og_payload g) < 268435456" by (simp_all add: og_fits_def)
  let ?tn = "word_of_nat (length (og_topic_name g)) :: u32"
  let ?pl = "word_of_nat (length (og_properties g)) :: u32"
  let ?ql = "word_of_nat (length (og_payload g)) :: u32"
  let ?enc = "variable_length_encoded_size ?pl"
  have u: "unat ?tn = length (og_topic_name g)" "unat ?pl = length (og_properties g)"
    "unat ?ql = length (og_payload g)" "unat ?enc = length (vl_encode (length (og_properties g)))"
    "length (vl_encode (length (og_properties g))) \<le> 4"
    using len by (simp_all add: unat_u32_of_nat unat_encoded_size length_vl_encode_le_4)
  have t: "try_u32 (length (og_topic_name g)) = Some ?tn" "try_u32 (length (og_properties g)) = Some ?pl"
    "try_u32 (length (og_payload g)) = Some ?ql" using len by (simp_all add: try_u32_def)
  have g: "\<not> ?pl > MAX_REMAINING_LENGTH" "\<not> length (og_topic_name g) > 65535"
    "\<not> ?ql \<ge> REMAINING_LENGTH_INVALID"
    using len u by (simp_all add: word_less_nat_alt word_le_nat_alt)
  define base where "base = sat_add (if og_qos g \<noteq> AtMostOnce then sat_add (sat_add ?tn 2) 2
      else sat_add ?tn 2) ?enc"
  have base: "unat base = 2 + length (og_topic_name g) + id_cost (og_qos g)
      + length (vl_encode (length (og_properties g)))" "unat base < 70000"
    using len(1) u(1,4,5) by (auto simp: base_def unat_sat_add id_cost_def min_def)
  have total: "publish_length g = unat base + length (og_properties g) + length (og_payload g)"
    by (simp add: publish_length_def base length_property_block)
  define rl where "rl = sat_add (sat_add base ?pl) ?ql"
  have rl: "unat rl = publish_length g"
    unfolding rl_def unat_sat_add u total using base(2) len by (simp add: min_def)
  have c: "(\<not> ?pl > sat_sub MAX_REMAINING_LENGTH base \<and>
      \<not> ?ql > sat_sub (sat_sub MAX_REMAINING_LENGTH base) ?pl) \<longleftrightarrow> publish_length g < 268435456"
    unfolding word_less_nat_alt unat_sat_sub u total using base(2) by auto
  have size: "sat_add (sat_add rl (variable_length_encoded_size rl)) 1
      = word_of_nat (1 + length (vl_encode (publish_length g)) + publish_length g)"
    "unat (sat_add (sat_add rl (variable_length_encoded_size rl)) 1)
      = 1 + length (vl_encode (publish_length g)) + publish_length g" if "publish_length g < 268435456"
  proof -
    show a: "unat (sat_add (sat_add rl (variable_length_encoded_size rl)) 1)
      = 1 + length (vl_encode (publish_length g)) + publish_length g"
      using length_vl_encode_le_4 [OF that] that
      by (simp add: unat_sat_add unat_encoded_size rl min_def)
    show "sat_add (sat_add rl (variable_length_encoded_size rl)) 1
      = word_of_nat (1 + length (vl_encode (publish_length g)) + publish_length g)"
      using a by (rule word_of_unat)
  qed
  have "publish_packet_size g mx = Inr sz \<longleftrightarrow>
      (\<not> ?pl > sat_sub MAX_REMAINING_LENGTH base \<and>
       \<not> ?ql > sat_sub (sat_sub MAX_REMAINING_LENGTH base) ?pl) \<and>
      \<not> sat_add (sat_add rl (variable_length_encoded_size rl)) 1 > mx \<and>
      \<lparr>pz_remaining_length = rl, pz_packet_size =
        sat_add (sat_add rl (variable_length_encoded_size rl)) 1\<rparr> = sz"
    unfolding publish_packet_size_def t ok_or_simps rbind_simps Let_def if_not_P [OF g(1)]
      if_not_P [OF g(2)] if_not_P [OF g(3)] guard_eq_Inr base_def [symmetric] rl_def [symmetric]
      sum.inject conj_assoc ..
  also have "\<dots> \<longleftrightarrow> publish_length g < 268435456 \<and>
     1 + length (vl_encode (publish_length g)) + publish_length g \<le> unat mx \<and>
     pz_remaining_length sz = word_of_nat (publish_length g) \<and>
     pz_packet_size sz = word_of_nat (1 + length (vl_encode (publish_length g)) + publish_length g)"
  proof (cases "publish_length g < 268435456")
    case True
    have "rl = word_of_nat (publish_length g)" using rl by (rule word_of_unat)
    moreover have "\<not> sat_add (sat_add rl (variable_length_encoded_size rl)) 1 > mx \<longleftrightarrow>
        1 + length (vl_encode (publish_length g)) + publish_length g \<le> unat mx"
      unfolding word_less_nat_alt size(2) [OF True] not_less ..
    moreover have "\<lparr>pz_remaining_length = a, pz_packet_size = b\<rparr> = sz \<longleftrightarrow>
        pz_remaining_length sz = a \<and> pz_packet_size sz = b" for a b
      by (auto intro: publish_size.equality)
    ultimately show ?thesis using True unfolding c size(1) [OF True] by (simp del: of_nat_add)
  next
    case False
    then show ?thesis unfolding c by simp
  qed
  finally show ?thesis using True by blast
qed

section \<open>The packet\<close>

lemma validate_strict_ok:
  "validate_strict g i rl = Inr () \<longleftrightarrow> og_topic_name g \<noteq> [] \<and> length (og_topic_name g) < 65536 \<and>
     (og_qos g = AtMostOnce \<or> i \<noteq> 0) \<and> (\<not> og_dup g \<or> og_qos g \<noteq> AtMostOnce) \<and>
     unat rl < 268435456"
  by (auto simp: validate_strict_def guard_eq_Inr word_le_nat_alt)

definition publish_packet :: "outgoing_publish \<Rightarrow> u16 \<Rightarrow> bytes" where
  "publish_packet g i = publish_flags g # vl_encode (publish_length g) @ publish_content g i"

lemma serialize_publish_ok:
  assumes "og_fits g" "unat rl = publish_length g" "validate_strict g i rl = Inr ()"
  shows "serialize_publish d g i rl =
    (if length d < length (publish_packet g i) then (d, Inl Outgoing_NoMemory)
     else (written d (publish_packet g i), Inr (length (publish_packet g i))))"
proof -
  have small: "unat rl < 268435456" using assms(3) by (simp add: validate_strict_ok)
  have size: "unat (sat_add (sat_add rl (variable_length_encoded_size rl)) 1)
      = length (publish_packet g i)"
    using small length_vl_encode_le_4 [OF small]
    by (simp add: unat_sat_add unat_encoded_size assms(2) publish_packet_def
        length_publish_content min_def)
  have p: "\<not> length (og_properties g) > 268435455" using assms(1) by (simp add: og_fits_def)
  show ?thesis
  proof (cases "length d < length (publish_packet g i)")
    case True
    then show ?thesis
      unfolding serialize_publish_def assms(3) sum.case if_not_P [OF p] Let_def size by simp
  next
    case False
    have "publish_packet g i = publish_flags g # vl_encode (unat rl) @ publish_head g i @
      (if True then og_payload g else [])"
      by (simp add: publish_packet_def publish_content_def assms(2))
    from serialize_common_ok [OF assms(1) small this] False show ?thesis
      unfolding serialize_publish_def assms(3) sum.case if_not_P [OF p] Let_def size by simp
  qed
qed

lemma serialize_publish_header_ok:
  assumes "og_fits g" "unat rl = publish_length g" "validate_strict g i rl = Inr ()"
    and hdr: "hdr = publish_flags g # vl_encode (publish_length g) @ publish_head g i"
  shows "serialize_publish_header d g i rl =
    (if length d < length hdr then (d, Inl Outgoing_NoMemory)
     else (written d hdr, Inr (length hdr)))"
proof -
  have small: "unat rl < 268435456" using assms(3) by (simp add: validate_strict_ok)
  let ?ql = "word_of_nat (length (og_payload g)) :: u32"
  have len: "publish_length g = length (publish_head g i) + length (og_payload g)"
    unfolding length_publish_content [symmetric, of g i] publish_content_def by simp
  have q: "length (og_payload g) < 4294967296" using small assms(2) len by linarith
  have t: "try_u32 (length (og_payload g)) = Some ?ql" and u: "unat ?ql = length (og_payload g)"
    using q by (simp_all add: try_u32_def unat_u32_of_nat)
  have g: "\<not> rl < ?ql" using assms(2) len u by (simp add: word_less_nat_alt)
  have "unat (sat_add (sat_add rl (variable_length_encoded_size rl)) 1)
      = 1 + length (vl_encode (publish_length g)) + publish_length g"
    using small length_vl_encode_le_4 [OF small]
    by (simp add: unat_sat_add unat_encoded_size assms(2) min_def)
  then have size: "unat (sat_sub (sat_add (sat_add rl (variable_length_encoded_size rl)) 1) ?ql)
      = length hdr"
    unfolding unat_sat_sub u by (simp add: hdr len)
  show ?thesis
  proof (cases "length d < length hdr")
    case True
    then show ?thesis
      unfolding serialize_publish_header_def assms(3) sum.case t option.case if_not_P [OF g]
        Let_def size by simp
  next
    case False
    have "hdr = publish_flags g # vl_encode (unat rl) @ publish_head g i @
      (if False then og_payload g else [])" by (simp add: hdr assms(2))
    from serialize_common_ok [OF assms(1) small this] False show ?thesis
      unfolding serialize_publish_header_def assms(3) sum.case t option.case if_not_P [OF g]
        Let_def size by simp
  qed
qed

lemma serialize_without_topic_ok:
  assumes "length (og_topic_name g) < 65536" "unat rl < 268435456"
    and bs: "bs = publish_flags g # vl_encode (unat rl) @ be16 (word_of_nat (length (og_topic_name g)))"
  shows "serialize_publish_header_without_topic d g rl =
    (if length d < length bs then (d, Inl Outgoing_NoMemory) else (written d bs, Inr (length bs)))"
proof -
  have g: "\<not> rl \<ge> REMAINING_LENGTH_INVALID" using assms(2) by (simp add: word_le_nat_alt)
  have size: "1 + unat (variable_length_encoded_size rl) + 2 = length bs"
    using assms(2) by (simp add: bs unat_encoded_size)
  have t: "try_u16 (length (og_topic_name g)) = Some (word_of_nat (length (og_topic_name g)))"
    using assms(1) by (simp add: try_u16_def)
  show ?thesis
  proof (cases "length d < length bs")
    case True
    then show ?thesis
      unfolding serialize_publish_header_without_topic_def if_not_P [OF g] Let_def size by simp
  next
    case False
    have first: "put_type d (publish_flags g) = (written d [publish_flags g], Inr 1)"
      using False put_first [of d "publish_flags g"] by (cases "d = []") (simp_all add: put_type_def bs)
    let ?x = "be16 (word_of_nat (length (og_topic_name g)))"
    have "appends d (\<lambda>d at. wstep (put_length_at Outgoing_NoMemory d at rl)
        (\<lambda>d at. copy_at Outgoing_NoMemory d at ?x)) (vl_encode (unat rl) @ ?x)"
      using assms(2) by (intro appends_intros)
    from appendsD [OF this, of 1 "[publish_flags g]"] False
    have e: "wstep (put_length_at Outgoing_NoMemory (written d [publish_flags g]) 1 rl)
        (\<lambda>d at. copy_at Outgoing_NoMemory d at ?x) = (written d bs, Inr (length bs))"
      by (simp add: bs)
    have assoc: "wstep (wstep m k) k' = wstep m (\<lambda>d a. wstep (k d a) k')"
      for m :: "bytes \<times> (outgoing_error + nat)" and k :: "bytes \<Rightarrow> nat \<Rightarrow> bytes \<times> (outgoing_error + nat)"
        and k' :: "bytes \<Rightarrow> nat \<Rightarrow> bytes \<times> (outgoing_error + nat)"
      by (auto simp: wstep_def split: prod.split sum.split)
    show ?thesis
      unfolding serialize_publish_header_without_topic_def if_not_P [OF g] Let_def size
        if_not_P [OF False] first wstep_simps t option.case assoc [symmetric] e ..
  qed
qed

text \<open>The budget of the calculator changes no answer: a size is refused exactly when the topic
  is past 65,535 bytes, the properties past 268,435,455, the sum of the fields as a natural
  number past 268,435,455, or the packet past the client's maximum; otherwise the two sizes are
  that sum and the sum with its header.\<close>

theorem publish_packet_size_iff:
  "publish_packet_size g mx = Inr sz \<longleftrightarrow>
     length (og_topic_name g) < 65536 \<and> length (og_properties g) < 268435456 \<and>
     (let n = 2 + length (og_topic_name g) + (if og_qos g = AtMostOnce then 0 else 2)
        + length (vl_encode (length (og_properties g))) + length (og_properties g)
        + length (og_payload g)
      in n < 268435456 \<and> 1 + length (vl_encode n) + n \<le> unat mx \<and>
         pz_remaining_length sz = word_of_nat n \<and>
         pz_packet_size sz = word_of_nat (1 + length (vl_encode n) + n))"
proof -
  have "2 + length (og_topic_name g) + (if og_qos g = AtMostOnce then 0 else 2)
        + length (vl_encode (length (og_properties g))) + length (og_properties g)
        + length (og_payload g) = publish_length g"
    by (simp add: publish_length_def id_cost_def length_property_block)
  then show ?thesis unfolding publish_packet_size_ok og_fits_def Let_def by simp
qed

lemma publish_sized:
  assumes "publish_packet_size g mx = Inr sz"
  shows "og_fits g" "unat (pz_remaining_length sz) = publish_length g"
    "publish_length g < 268435456" "unat (pz_packet_size sz) = length (publish_packet g i)"
    "length (publish_packet g i) \<le> unat mx"
proof -
  note a = assms [unfolded publish_packet_size_ok]
  show "og_fits g" and small: "publish_length g < 268435456" using a by simp_all
  show "unat (pz_remaining_length sz) = publish_length g"
    using a small by (simp add: unat_u32_of_nat)
  have len: "length (publish_packet g i) = 1 + length (vl_encode (publish_length g)) + publish_length g"
    by (simp add: publish_packet_def length_publish_content)
  show "length (publish_packet g i) \<le> unat mx" using a len by simp
  have "1 + length (vl_encode (publish_length g)) + publish_length g < 4294967296"
    using small length_vl_encode_le_4 [OF small] by linarith
  then show "unat (pz_packet_size sz) = length (publish_packet g i)"
    using a unat_u32_of_nat len by metis
qed

text \<open>The three serializers agree: for a size the calculator accepted and a publish the strict
  two accept, the packet, the header and the header without its topic are what is before the
  end, before the payload and before the topic of one and the same sequence of bytes, and each
  answers the number of bytes it wrote or, without room for them, \<open>NoMemory\<close> with the
  destination untouched.\<close>

theorem publish_serializers_agree:
  assumes "publish_packet_size g mx = Inr sz"
    and "validate_strict g i (pz_remaining_length sz) = Inr ()"
  shows "\<exists>topic_at payload_at.
    (let bs = publish_flags g # vl_encode (publish_length g) @ be16 (word_of_nat (length (og_topic_name g)))
           @ og_topic_name g @ (if og_qos g = AtMostOnce then [] else be16 i)
           @ property_block (og_properties g) @ og_payload g;
         writes = (\<lambda>n. if length d < n then (d, Inl Outgoing_NoMemory)
                       else (take n bs @ drop n d, Inr n))
     in drop topic_at (take (topic_at + length (og_topic_name g)) bs) = og_topic_name g \<and>
        drop payload_at bs = og_payload g \<and>
        serialize_publish d g i (pz_remaining_length sz) = writes (unat (pz_packet_size sz)) \<and>
        serialize_publish_header d g i (pz_remaining_length sz) = writes payload_at \<and>
        serialize_publish_header_without_topic d g (pz_remaining_length sz) = writes topic_at)"
proof -
  note sz = publish_sized [OF assms(1)]
  let ?t = "publish_flags g # vl_encode (publish_length g) @ be16 (word_of_nat (length (og_topic_name g)))"
  let ?h = "publish_flags g # vl_encode (publish_length g) @ publish_head g i"
  let ?bs = "?t @ og_topic_name g @ (if og_qos g = AtMostOnce then [] else be16 i)
           @ property_block (og_properties g) @ og_payload g"
  have bs: "?bs = publish_packet g i" "publish_packet g i = ?h @ og_payload g"
    by (simp_all add: publish_packet_def publish_content_def publish_head_def mqtt_string_def)
  have tn: "length (og_topic_name g) < 65536" using sz(1) by (simp add: og_fits_def)
  have small: "unat (pz_remaining_length sz) < 268435456" using sz(2,3) by simp
  have 1: "serialize_publish d g i (pz_remaining_length sz) =
      (if length d < length ?bs then (d, Inl Outgoing_NoMemory)
       else (take (length ?bs) ?bs @ drop (length ?bs) d, Inr (length ?bs)))"
    unfolding bs(1) using serialize_publish_ok [OF sz(1,2) assms(2), of d]
    by (simp add: written_def splice_0)
  have 2: "serialize_publish_header d g i (pz_remaining_length sz) =
      (if length d < length ?h then (d, Inl Outgoing_NoMemory)
       else (take (length ?h) ?bs @ drop (length ?h) d, Inr (length ?h)))"
    unfolding bs using serialize_publish_header_ok [OF sz(1,2) assms(2) refl, of d]
    by (simp add: written_def splice_0)
  have 3: "serialize_publish_header_without_topic d g (pz_remaining_length sz) =
      (if length d < length ?t then (d, Inl Outgoing_NoMemory)
       else (take (length ?t) ?bs @ drop (length ?t) d, Inr (length ?t)))"
    using serialize_without_topic_ok [OF tn small refl, of d] unfolding sz(2)
    by (simp add: written_def splice_0)
  have 4: "drop (length ?t) (take (length ?t + length (og_topic_name g)) ?bs) = og_topic_name g"
    by simp
  have 5: "drop (length ?h) ?bs = og_payload g" unfolding bs by simp
  have 6: "unat (pz_packet_size sz) = length ?bs" unfolding bs(1) by (rule sz(4))
  show ?thesis
    unfolding Let_def 6 using 1 2 3 4 5
    by (intro exI [of _ "length ?t"] exI [of _ "length ?h"]) (simp only: append_Cons append_assoc)
qed

lemma id_bytes_of: "(if q \<noteq> AtMostOnce then be16 i else []) =
    id_bytes (if q = AtMostOnce then None else Some i)"
  by (simp add: id_bytes_def)

lemma valid_publish_type: "incoming_packet_valid (publish_type_byte q dup retain)"
  by (cases q; cases dup; cases retain)
    (simp_all add: publish_type_byte_def incoming_packet_valid_def VALID_def type_bit_def)

text \<open>The body of a sized PUBLISH, in front of anything, read by the client's reader.\<close>

lemma deserialize_publish_content:
  assumes "publish_packet_size g mx = Inr sz"
    and "validate_strict g i (pz_remaining_length sz) = Inr ()"
    and "publish_section am (og_properties g)"
  shows "deserialize_publish
      \<lparr>pi_packet_type = publish_flags g, pi_remaining_length = pz_remaining_length sz,
       pi_remaining_data = publish_content g i @ rest\<rparr> mx am =
    Inr \<lparr>pu_qos = og_qos g, pu_dup = og_dup g, pu_retain = og_retain g,
         pu_packet_id = (if og_qos g = AtMostOnce then None else Some i),
         pu_topic_name = og_topic_name g, pu_properties = og_properties g,
         pu_payload = og_payload g\<rparr>"
proof -
  note sz = publish_sized [OF assms(1)]
  let ?rl = "pz_remaining_length sz"
  let ?i = "\<lparr>pu_qos = og_qos g, pu_dup = og_dup g, pu_retain = og_retain g,
         pu_packet_id = (if og_qos g = AtMostOnce then None else Some i),
         pu_topic_name = og_topic_name g, pu_properties = og_properties g,
         pu_payload = og_payload g\<rparr>"
  let ?p = "\<lparr>pi_packet_type = publish_flags g, pi_remaining_length = ?rl,
       pi_remaining_data = publish_content g i @ rest\<rparr>"
  have "unat ?rl = length (publish_content g i)" by (simp only: sz(2) length_publish_content)
  then have "packet_body ?p = Some (publish_content g i)"
    by (simp add: packet_body_def slice_eq_Some)
  then have body: "packet_body ?p = Some (mqtt_string (pu_topic_name ?i) @ id_bytes (pu_packet_id ?i)
       @ property_block (pu_properties ?i) @ pu_payload ?i)"
    by (simp add: publish_content_def publish_head_def id_bytes_of)
  have strict: "og_topic_name g \<noteq> []" "og_qos g = AtMostOnce \<or> i \<noteq> 0"
    using assms(2) by (simp_all add: validate_strict_ok)
  have "unat (total_packet_size ?rl) = length (publish_packet g i)"
    using length_vl_encode_le_4 [OF sz(3)] sz(2,3)
    by (simp add: total_packet_size_def unat_sat_add unat_encoded_size publish_packet_def
        length_publish_content min_def)
  then have total: "total_packet_size ?rl \<le> mx" using sz(5) [of i] by (simp add: word_le_nat_alt)
  have "0 < length (og_topic_name g)" "0 < length (property_block (og_properties g))"
    using strict(1) by simp_all
  then have floor: "4 + id_cost (og_qos g) \<le> unat ?rl" unfolding sz(2) publish_length_def by linarith
  have rem: "?rl < REMAINING_LENGTH_INVALID" using sz(2,3) by (simp add: word_less_nat_alt)
  have fields: "publish_fields_ok am ?i"
    using assms(3) strict(2) sz(1) by (auto simp: publish_fields_ok_def id_ok_def og_fits_def)
  show ?thesis
    unfolding deserialize_publish_ok body using total floor rem fields
    by (simp add: publish_flags_type)
qed

text \<open>C22. A PUBLISH written here and read back, header first and then the body, is the one that
  was written, with the same QoS, flags, identifier, topic, properties and payload, when its
  property section is one a PUBLISH may carry and its alias within the reader's maximum.\<close>

theorem publish_roundtrip:
  assumes "publish_packet_size g mx = Inr sz"
    and "validate_strict g i (pz_remaining_length sz) = Inr ()"
    and "unat (pz_packet_size sz) \<le> length d"
    and "publish_section am (og_properties g)"
  shows "\<exists>d' n h. serialize_publish d g i (pz_remaining_length sz) = (d', Inr n) \<and>
    process_incoming_packet_type_and_length d' n = Inr h \<and>
    deserialize_publish
      \<lparr>pi_packet_type = h_packet_type h, pi_remaining_length = h_remaining_length h,
       pi_remaining_data = drop (h_header_length h) d'\<rparr> mx am =
    Inr \<lparr>pu_qos = og_qos g, pu_dup = og_dup g, pu_retain = og_retain g,
         pu_packet_id = (if og_qos g = AtMostOnce then None else Some i),
         pu_topic_name = og_topic_name g, pu_properties = og_properties g,
         pu_payload = og_payload g\<rparr>"
proof -
  note sz = publish_sized [OF assms(1)]
  let ?bs = "publish_packet g i" and ?rl = "pz_remaining_length sz"
  let ?h = "\<lparr>h_packet_type = publish_flags g, h_remaining_length = ?rl,
     h_header_length = length (vl_encode (publish_length g)) + 1\<rparr>"
  have room: "length ?bs \<le> length d" using assms(3) sz(4) [of i] by simp
  have w: "serialize_publish d g i ?rl = (written d ?bs, Inr (length ?bs))"
    using serialize_publish_ok [OF sz(1,2) assms(2), of d] room by simp
  have valid: "incoming_packet_valid (publish_flags g)"
    unfolding publish_flags_type by (rule valid_publish_type)
  have bs: "?bs = publish_flags g # vl_encode (length (publish_content g i)) @ publish_content g i"
    by (simp add: publish_packet_def length_publish_content)
  have rl: "?rl = word_of_nat (length (publish_content g i))"
    using sz(2) unfolding length_publish_content by (rule word_of_unat)
  have hd: "process_incoming_packet_type_and_length (written d ?bs) (length ?bs) = Inr ?h"
    "drop (h_header_length ?h) (written d ?bs) = publish_content g i @ drop (length ?bs) d"
    using header_of_written [OF valid _ bs room] sz(3) rl
    by (simp_all add: length_publish_content)
  show ?thesis
    using w hd deserialize_publish_content [OF assms(1,2,4)]
    by (intro exI [of _ "written d ?bs"] exI [of _ "length ?bs"] exI [of _ ?h]) simp
qed

text \<open>A publish for the witnesses: QoS 1, topic \<open>AB\<close>, no properties, payload \<open>1 2 3\<close>.\<close>

abbreviation sample_publish :: outgoing_publish where
  "sample_publish \<equiv> \<lparr>og_qos = AtLeastOnce, og_dup = False, og_retain = True,
     og_topic_name = [65, 66], og_payload = [1, 2, 3], og_properties = []\<rparr>"

lemma sample_publish_sized:
  "publish_packet_size sample_publish 100
     = Inr \<lparr>pz_remaining_length = 10, pz_packet_size = 12\<rparr>"
  "validate_strict sample_publish 7 10 = Inr ()"
  "publish_section 0 (og_properties sample_publish)"
  by (simp_all add: publish_packet_size_ok og_fits_def publish_length_def id_cost_def
      property_block_def vl_encode_small validate_strict_ok publish_section_def)
    (intro exI [of _ "[]"], simp add: aliases_ok_def)

theorem publish_roundtrip_witness:
  "\<exists>d' n h. serialize_publish (replicate 20 0) sample_publish 7 10 = (d', Inr n) \<and>
    process_incoming_packet_type_and_length d' n = Inr h \<and>
    deserialize_publish
      \<lparr>pi_packet_type = h_packet_type h, pi_remaining_length = h_remaining_length h,
       pi_remaining_data = drop (h_header_length h) d'\<rparr> 100 0 =
    Inr \<lparr>pu_qos = AtLeastOnce, pu_dup = False, pu_retain = True, pu_packet_id = Some 7,
         pu_topic_name = [65, 66], pu_properties = [], pu_payload = [1, 2, 3]\<rparr>"
  using publish_roundtrip [OF sample_publish_sized(1), of 7 "replicate 20 0" 0]
    sample_publish_sized(2,3) by simp

theorem publish_serializers_agree_witness:
  "\<exists>topic_at payload_at.
    (let bs = [0x33, 10, 0, 2, 65, 66, 0, 7, 0, 1, 2, 3];
         writes = (\<lambda>n. if (20 :: nat) < n then (replicate 20 0, Inl Outgoing_NoMemory)
                       else (take n bs @ drop n (replicate 20 0), Inr n))
     in drop topic_at (take (topic_at + 2) bs) = [65, 66] \<and>
        drop payload_at bs = [1, 2, 3] \<and>
        serialize_publish (replicate 20 0) sample_publish 7 10 = writes 12 \<and>
        serialize_publish_header (replicate 20 0) sample_publish 7 10 = writes payload_at \<and>
        serialize_publish_header_without_topic (replicate 20 0) sample_publish 10 = writes topic_at)"
proof -
  have "be16 2 = [0, 2]" "be16 7 = [0, 7]" "publish_flags sample_publish = 0x33"
    "publish_length sample_publish = 10"
    by (simp_all add: be16_def publish_flags_def publish_length_def id_cost_def property_block_def
        vl_encode_small)
  then show ?thesis
    using publish_serializers_agree [OF sample_publish_sized(1), of 7 "replicate 20 0"]
      sample_publish_sized(2) by (simp add: Let_def vl_encode_small property_block_def)
qed

text \<open>The patch for a resend changes the DUP flag and nothing else: on the first byte of a
  PUBLISH with QoS 0, 1 or 2 it answers the byte of the same QoS and RETAIN with DUP as asked,
  and a byte whose high nibble is not 3 is refused and kept.\<close>

theorem update_duplicate_flag_iff:
  "update_duplicate_flag (publish_type_byte q dup retain) set_dup
     = (publish_type_byte q set_dup retain, Inr ()) \<and>
   (update_duplicate_flag header set_dup = (header, Inl Outgoing_BadParameter)) =
     (header AND 0xF0 \<noteq> PUBLISH)"
proof (intro conjI)
  have "publish_type_byte q dup retain AND 0xF0 = PUBLISH"
    unfolding byte_eq_bits publish_type_byte_def by (cases q) (simp_all add: bit_simps)
  then show "update_duplicate_flag (publish_type_byte q dup retain) set_dup
     = (publish_type_byte q set_dup retain, Inr ())"
    unfolding update_duplicate_flag_def
    by (cases q; cases set_dup) (simp_all add: byte_eq_bits publish_type_byte_def bit_simps)
qed (simp add: update_duplicate_flag_def)

end
