(* ===== verification/Validate.thy ===== *)
theory Validate
  imports Walks Outpublish
begin

text \<open>
  validate.rs: the six validators of an outgoing property section, and the check of a PUBLISH's
  own fields. The validators of CONNECT and PUBLISH write through their caller's reference while
  they walk; their state is kept on every path.
\<close>

section \<open>Data\<close>

datatype validate_error = Validate_BadParameter | Validate_BadResponse

record connect_validation =
  cv_request_problem_info :: bool
  cv_max_packet_size :: "u32 option"

text \<open>The identifiers (\<open>mod id\<close>).\<close>

abbreviation (input) ID_PAYLOAD_FORMAT :: byte where "ID_PAYLOAD_FORMAT \<equiv> 0x01"
abbreviation (input) ID_MESSAGE_EXPIRY :: byte where "ID_MESSAGE_EXPIRY \<equiv> 0x02"
abbreviation (input) ID_CONTENT_TYPE :: byte where "ID_CONTENT_TYPE \<equiv> 0x03"
abbreviation (input) ID_RESPONSE_TOPIC :: byte where "ID_RESPONSE_TOPIC \<equiv> 0x08"
abbreviation (input) ID_CORRELATION_DATA :: byte where "ID_CORRELATION_DATA \<equiv> 0x09"
abbreviation (input) ID_SUBSCRIPTION_ID :: byte where "ID_SUBSCRIPTION_ID \<equiv> 0x0B"
abbreviation (input) ID_SESSION_EXPIRY :: byte where "ID_SESSION_EXPIRY \<equiv> 0x11"
abbreviation (input) ID_AUTH_METHOD :: byte where "ID_AUTH_METHOD \<equiv> 0x15"
abbreviation (input) ID_AUTH_DATA :: byte where "ID_AUTH_DATA \<equiv> 0x16"
abbreviation (input) ID_REQUEST_PROBLEM :: byte where "ID_REQUEST_PROBLEM \<equiv> 0x17"
abbreviation (input) ID_WILL_DELAY :: byte where "ID_WILL_DELAY \<equiv> 0x18"
abbreviation (input) ID_REQUEST_RESPONSE :: byte where "ID_REQUEST_RESPONSE \<equiv> 0x19"
abbreviation (input) ID_REASON_STRING :: byte where "ID_REASON_STRING \<equiv> 0x1F"
abbreviation (input) ID_RECEIVE_MAX :: byte where "ID_RECEIVE_MAX \<equiv> 0x21"
abbreviation (input) ID_TOPIC_ALIAS_MAX :: byte where "ID_TOPIC_ALIAS_MAX \<equiv> 0x22"
abbreviation (input) ID_TOPIC_ALIAS :: byte where "ID_TOPIC_ALIAS \<equiv> 0x23"
abbreviation (input) ID_USER_PROPERTY :: byte where "ID_USER_PROPERTY \<equiv> 0x26"
abbreviation (input) ID_MAX_PACKET_SIZE :: byte where "ID_MAX_PACKET_SIZE \<equiv> 0x27"

definition reader_over :: "bytes \<Rightarrow> validate_error + property_reader" where
  "reader_over properties =
     rbind (ok_or Validate_BadParameter (try_u32 (length properties))) (\<lambda>len.
       if len \<ge> REMAINING_LENGTH_INVALID then Inl Validate_BadParameter
       else Inr (reader_new properties len))"

definition check_once :: "bool \<Rightarrow> validate_error + bool" where
  "check_once seen = (if seen then Inl Validate_BadResponse else Inr True)"

section \<open>CONNECT\<close>

record connect_seen =
  cs_session_expiry :: bool
  cs_receive_max :: bool
  cs_max_packet :: bool
  cs_topic_alias_max :: bool
  cs_request_response :: bool
  cs_request_problem :: bool
  cs_auth_method :: bool
  cs_auth_data :: bool

definition connect_unseen :: connect_seen where
  "connect_unseen = \<lparr>cs_session_expiry = False, cs_receive_max = False, cs_max_packet = False,
     cs_topic_alias_max = False, cs_request_response = False, cs_request_problem = False,
     cs_auth_method = False, cs_auth_data = False\<rparr>"

text \<open>\<open>check_once(flag)?\<close> in front of the rest of an arm.\<close>

definition once_then :: "bool \<Rightarrow> 's \<Rightarrow> property_reader \<Rightarrow>
    's \<times> property_reader \<times> (validate_error + unit) \<Rightarrow> 's \<times> property_reader \<times> (validate_error + unit)" where
  "once_then seen s r rest = (case check_once seen of Inl e \<Rightarrow> (s, r, Inl e) | Inr _ \<Rightarrow> rest)"

definition validate_connect_property :: "connect_validation \<times> connect_seen \<Rightarrow> property_reader \<Rightarrow> byte \<Rightarrow>
    (connect_validation \<times> connect_seen) \<times> property_reader \<times> (validate_error + unit)" where
  "validate_connect_property st r pid =
     (case st of (found, seen) \<Rightarrow>
      if pid = ID_SESSION_EXPIRY then
        once_then (cs_session_expiry seen) st r (keep st (arm_u32 Validate_BadResponse r False
          (\<lambda>_ _. Inr ((found, seen\<lparr>cs_session_expiry := True\<rparr>), Inr ()))))
      else if pid = ID_RECEIVE_MAX then
        once_then (cs_receive_max seen) st r (keep st (arm_u16 Validate_BadResponse r False
          (\<lambda>_ v. Inr ((found, seen\<lparr>cs_receive_max := True\<rparr>),
             if v = 0 then Inl Validate_BadResponse else Inr ()))))
      else if pid = ID_MAX_PACKET_SIZE then
        once_then (cs_max_packet seen) st r (keep st (arm_u32 Validate_BadResponse r False
          (\<lambda>_ v. if v = 0 then Inr (st, Inl Validate_BadResponse)
                 else Inr ((found\<lparr>cv_max_packet_size := Some v\<rparr>,
                        seen\<lparr>cs_max_packet := True\<rparr>), Inr ()))))
      else if pid = ID_TOPIC_ALIAS_MAX then
        once_then (cs_topic_alias_max seen) st r (keep st (arm_u16 Validate_BadResponse r False
          (\<lambda>_ _. Inr ((found, seen\<lparr>cs_topic_alias_max := True\<rparr>), Inr ()))))
      else if pid = ID_REQUEST_RESPONSE then
        once_then (cs_request_response seen) st r (keep st (arm_u8 Validate_BadResponse r False
          (\<lambda>_ v. Inr ((found, seen\<lparr>cs_request_response := True\<rparr>),
             if v > 1 then Inl Validate_BadResponse else Inr ()))))
      else if pid = ID_REQUEST_PROBLEM then
        once_then (cs_request_problem seen) st r (keep st (arm_u8 Validate_BadResponse r False
          (\<lambda>_ v. if v > 1 then Inr (st, Inl Validate_BadResponse)
                 else Inr ((found\<lparr>cv_request_problem_info := (v = 1)\<rparr>,
                        seen\<lparr>cs_request_problem := True\<rparr>), Inr ()))))
      else if pid = ID_AUTH_METHOD then
        once_then (cs_auth_method seen) st r (keep st (arm_utf8 Validate_BadResponse r False
          (\<lambda>_ _. Inr ((found, seen\<lparr>cs_auth_method := True\<rparr>), Inr ()))))
      else if pid = ID_AUTH_DATA then
        once_then (cs_auth_data seen) st r (keep st (arm_utf8 Validate_BadResponse r False
          (\<lambda>_ _. Inr ((found, seen\<lparr>cs_auth_data := True\<rparr>), Inr ()))))
      else if pid = ID_USER_PROPERTY then
        keep st (arm_user Validate_BadResponse r (\<lambda>_. Inr (st, Inr ())))
      else (st, r, Inl Validate_BadResponse))"

definition validate_connect_properties ::
    "bytes \<Rightarrow> connect_validation \<Rightarrow> connect_validation \<times> (validate_error + unit)" where
  "validate_connect_properties properties found =
     (case reader_over properties of
        Inl e \<Rightarrow> (found, Inl e)
      | Inr reader \<Rightarrow>
          (case walk_loop validate_connect_property Validate_BadResponse
                  (found\<lparr>cv_request_problem_info := False\<rparr>, connect_unseen) reader of
             ((found, _), _, Inl e) \<Rightarrow> (found, Inl e)
           | ((found, seen), _, Inr _) \<Rightarrow>
               (found, if cs_auth_data seen \<and> \<not> cs_auth_method seen
                       then Inl Validate_BadParameter else Inr ())))"

section \<open>The will\<close>

record will_seen =
  ws_will_delay :: bool
  ws_payload_format :: bool
  ws_message_expiry :: bool
  ws_content_type :: bool
  ws_response_topic :: bool
  ws_correlation_data :: bool

definition will_unseen :: will_seen where
  "will_unseen = \<lparr>ws_will_delay = False, ws_payload_format = False, ws_message_expiry = False,
     ws_content_type = False, ws_response_topic = False, ws_correlation_data = False\<rparr>"

definition once_or :: "bool \<Rightarrow> property_reader \<Rightarrow> property_reader \<times> (validate_error + 's) \<Rightarrow>
    property_reader \<times> (validate_error + 's)" where
  "once_or seen r rest = (case check_once seen of Inl e \<Rightarrow> (r, Inl e) | Inr _ \<Rightarrow> rest)"

definition will_property :: "will_seen \<Rightarrow> property_reader \<Rightarrow> byte \<Rightarrow>
    property_reader \<times> (validate_error + will_seen)" where
  "will_property seen r pid =
     (if pid = ID_WILL_DELAY then
        once_or (ws_will_delay seen) r (arm_u32 Validate_BadResponse r False
          (\<lambda>_ _. Inr (seen\<lparr>ws_will_delay := True\<rparr>)))
      else if pid = ID_PAYLOAD_FORMAT then
        once_or (ws_payload_format seen) r (arm_u8 Validate_BadResponse r False
          (\<lambda>_ v. if v > 1 then Inl Validate_BadResponse
                 else Inr (seen\<lparr>ws_payload_format := True\<rparr>)))
      else if pid = ID_MESSAGE_EXPIRY then
        once_or (ws_message_expiry seen) r (arm_u32 Validate_BadResponse r False
          (\<lambda>_ _. Inr (seen\<lparr>ws_message_expiry := True\<rparr>)))
      else if pid = ID_CONTENT_TYPE then
        once_or (ws_content_type seen) r (arm_utf8 Validate_BadResponse r False
          (\<lambda>_ _. Inr (seen\<lparr>ws_content_type := True\<rparr>)))
      else if pid = ID_RESPONSE_TOPIC then
        once_or (ws_response_topic seen) r (arm_utf8 Validate_BadResponse r False
          (\<lambda>_ _. Inr (seen\<lparr>ws_response_topic := True\<rparr>)))
      else if pid = ID_CORRELATION_DATA then
        once_or (ws_correlation_data seen) r (arm_utf8 Validate_BadResponse r False
          (\<lambda>_ _. Inr (seen\<lparr>ws_correlation_data := True\<rparr>)))
      else if pid = ID_USER_PROPERTY then
        arm_user Validate_BadResponse r (\<lambda>_. Inr seen)
      else (r, Inl Validate_BadResponse))"

definition validate_will_properties :: "bytes \<Rightarrow> validate_error + unit" where
  "validate_will_properties properties =
     rbind (reader_over properties) (\<lambda>reader.
       rbind (snd (section_loop will_property Validate_BadResponse will_unseen reader)) (\<lambda>_. Inr ()))"

section \<open>SUBSCRIBE, PUBLISH, the acknowledgements and UNSUBSCRIBE\<close>

definition subscribe_property :: "bool \<Rightarrow> bool \<Rightarrow> property_reader \<Rightarrow> byte \<Rightarrow>
    property_reader \<times> (validate_error + bool)" where
  "subscribe_property subscription_id_available subscription_id r pid =
     (if pid = ID_SUBSCRIPTION_ID then
        (if subscription_id then (r, Inl Validate_BadParameter)
         else arm_var Validate_BadResponse r (\<lambda>v.
           if \<not> subscription_id_available then Inl Validate_BadParameter
           else if v = 0 then Inl Validate_BadParameter else Inr True))
      else if pid = ID_USER_PROPERTY then
        arm_user Validate_BadResponse r (\<lambda>_. Inr subscription_id)
      else (r, Inl Validate_BadParameter))"

definition validate_subscribe_properties :: "bool \<Rightarrow> bytes \<Rightarrow> validate_error + unit" where
  "validate_subscribe_properties subscription_id_available properties =
     rbind (reader_over properties) (\<lambda>reader.
       rbind (snd (section_loop (subscribe_property subscription_id_available)
         Validate_BadResponse False reader)) (\<lambda>_. Inr ()))"

text \<open>The state: the caller's \<open>topic_alias\<close> and the flag \<open>alias_used\<close>.\<close>

definition validate_publish_property :: "u16 \<Rightarrow> u16 option \<times> bool \<Rightarrow> property_reader \<Rightarrow> byte \<Rightarrow>
    (u16 option \<times> bool) \<times> property_reader \<times> (validate_error + unit)" where
  "validate_publish_property server_topic_alias_max st r pid =
     (case st of (topic_alias, alias_used) \<Rightarrow>
      if pid = ID_PAYLOAD_FORMAT then
        keep st (arm_u8 Validate_BadResponse r False (\<lambda>_ _. Inr (st, Inr ())))
      else if pid = ID_MESSAGE_EXPIRY then
        keep st (arm_u32 Validate_BadResponse r False (\<lambda>_ _. Inr (st, Inr ())))
      else if pid \<in> {ID_CONTENT_TYPE, ID_RESPONSE_TOPIC, ID_CORRELATION_DATA} then
        keep st (arm_utf8 Validate_BadResponse r False (\<lambda>_ _. Inr (st, Inr ())))
      else if pid = ID_TOPIC_ALIAS then
        keep st (arm_u16 Validate_BadResponse r alias_used (\<lambda>alias_used v.
          Inr ((Some v, alias_used),
            if server_topic_alias_max < v then Inl Validate_BadParameter else Inr ())))
      else if pid = ID_USER_PROPERTY then
        keep st (arm_user Validate_BadResponse r (\<lambda>_. Inr (st, Inr ())))
      else (st, r, Inl Validate_BadParameter))"

definition validate_publish_properties ::
    "u16 \<Rightarrow> bytes \<Rightarrow> u16 option \<Rightarrow> u16 option \<times> (validate_error + unit)" where
  "validate_publish_properties server_topic_alias_max properties topic_alias =
     (case reader_over properties of
        Inl e \<Rightarrow> (topic_alias, Inl e)
      | Inr reader \<Rightarrow>
          (case walk_loop (validate_publish_property server_topic_alias_max) Validate_BadResponse
                  (topic_alias, False) reader of
             ((topic_alias, _), _, res) \<Rightarrow> (topic_alias, res)))"

definition publish_ack_property :: "bool \<Rightarrow> property_reader \<Rightarrow> byte \<Rightarrow>
    property_reader \<times> (validate_error + bool)" where
  "publish_ack_property reason_string r pid =
     (if pid = ID_REASON_STRING then
        arm_utf8 Validate_BadResponse r reason_string (\<lambda>used _. Inr used)
      else if pid = ID_USER_PROPERTY then
        arm_user Validate_BadResponse r (\<lambda>_. Inr reason_string)
      else (r, Inl Validate_BadParameter))"

definition validate_publish_ack_properties :: "bytes \<Rightarrow> validate_error + unit" where
  "validate_publish_ack_properties properties =
     rbind (reader_over properties) (\<lambda>reader.
       rbind (snd (section_loop publish_ack_property Validate_BadResponse False reader)) (\<lambda>_. Inr ()))"

definition unsubscribe_property :: "unit \<Rightarrow> property_reader \<Rightarrow> byte \<Rightarrow>
    property_reader \<times> (validate_error + unit)" where
  "unsubscribe_property st r pid =
     (if pid = ID_USER_PROPERTY then arm_user Validate_BadResponse r (\<lambda>_. Inr ())
      else (r, Inl Validate_BadParameter))"

definition validate_unsubscribe_properties :: "bytes \<Rightarrow> validate_error + unit" where
  "validate_unsubscribe_properties properties =
     rbind (reader_over properties) (\<lambda>reader.
       snd (section_loop unsubscribe_property Validate_BadResponse () reader))"

section \<open>The fields of a PUBLISH\<close>

definition validate_publish_params ::
    "outgoing_publish \<Rightarrow> byte \<Rightarrow> byte \<Rightarrow> u16 \<Rightarrow> u32 \<Rightarrow> validate_error + unit" where
  "validate_publish_params publish retain_available max_qos topic_alias max_packet_size =
     (if og_retain publish \<and> retain_available = 0 then Inl Validate_BadParameter
      else if og_qos publish \<noteq> AtMostOnce \<and> max_qos = 0 then Inl Validate_BadParameter
      else if topic_alias = 0 \<and> og_topic_name publish = [] then Inl Validate_BadParameter
      else if try_u16 (length (og_topic_name publish)) = None then Inl Validate_BadParameter
      else if max_packet_size = 0 then Inl Validate_BadParameter
      else Inr ())"

section \<open>The tables as specifications\<close>

lemma once_then_simp [simp]:
  "once_then seen s r rest = (if seen then (s, r, Inl Validate_BadResponse) else rest)"
  by (simp add: once_then_def check_once_def)

lemma once_or_simp [simp]:
  "once_or seen r rest = (if seen then (r, Inl Validate_BadResponse) else rest)"
  by (simp add: once_or_def check_once_def)

fun connect_prop_ok :: "byte \<times> prop_value \<Rightarrow> bool" where
  "connect_prop_ok (pid, PV_u32 v) = (pid = ID_SESSION_EXPIRY \<or> pid = ID_MAX_PACKET_SIZE \<and> v \<noteq> 0)"
| "connect_prop_ok (pid, PV_u16 v) = (pid = ID_TOPIC_ALIAS_MAX \<or> pid = ID_RECEIVE_MAX \<and> v \<noteq> 0)"
| "connect_prop_ok (pid, PV_u8 v) = ((pid = ID_REQUEST_RESPONSE \<or> pid = ID_REQUEST_PROBLEM) \<and> \<not> v > 1)"
| "connect_prop_ok (pid, PV_utf8 x) = (pid = ID_AUTH_METHOD \<or> pid = ID_AUTH_DATA)"
| "connect_prop_ok (pid, PV_user x y) = (pid = ID_USER_PROPERTY)"
| "connect_prop_ok (pid, PV_var d) = False"

abbreviation connect_once :: "byte \<Rightarrow> bool" where
  "connect_once pid \<equiv> pid \<noteq> ID_USER_PROPERTY"

definition connect_seen_of :: "connect_validation \<times> connect_seen \<Rightarrow> byte \<Rightarrow> bool" where
  "connect_seen_of st pid = (case st of (_, s) \<Rightarrow>
     if pid = ID_SESSION_EXPIRY then cs_session_expiry s
     else if pid = ID_RECEIVE_MAX then cs_receive_max s
     else if pid = ID_MAX_PACKET_SIZE then cs_max_packet s
     else if pid = ID_TOPIC_ALIAS_MAX then cs_topic_alias_max s
     else if pid = ID_REQUEST_RESPONSE then cs_request_response s
     else if pid = ID_REQUEST_PROBLEM then cs_request_problem s
     else if pid = ID_AUTH_METHOD then cs_auth_method s
     else if pid = ID_AUTH_DATA then cs_auth_data s else False)"

fun connect_note :: "byte \<times> prop_value \<Rightarrow> connect_validation \<times> connect_seen \<Rightarrow>
    connect_validation \<times> connect_seen" where
  "connect_note (pid, v) (f, s) =
     (if pid = ID_SESSION_EXPIRY then (f, s\<lparr>cs_session_expiry := True\<rparr>)
      else if pid = ID_RECEIVE_MAX then (f, s\<lparr>cs_receive_max := True\<rparr>)
      else if pid = ID_MAX_PACKET_SIZE then
        (f\<lparr>cv_max_packet_size := (case v of PV_u32 n \<Rightarrow> Some n | _ \<Rightarrow> None)\<rparr>, s\<lparr>cs_max_packet := True\<rparr>)
      else if pid = ID_TOPIC_ALIAS_MAX then (f, s\<lparr>cs_topic_alias_max := True\<rparr>)
      else if pid = ID_REQUEST_RESPONSE then (f, s\<lparr>cs_request_response := True\<rparr>)
      else if pid = ID_REQUEST_PROBLEM then
        (f\<lparr>cv_request_problem_info := (v = PV_u8 1)\<rparr>, s\<lparr>cs_request_problem := True\<rparr>)
      else if pid = ID_AUTH_METHOD then (f, s\<lparr>cs_auth_method := True\<rparr>)
      else if pid = ID_AUTH_DATA then (f, s\<lparr>cs_auth_data := True\<rparr>) else (f, s))"

definition connect_ap :: "connect_validation \<times> connect_seen \<Rightarrow> byte \<Rightarrow> prop_value \<Rightarrow>
    (connect_validation \<times> connect_seen) option" where
  "connect_ap st pid v =
     (if connect_prop_ok (pid, v) \<and> \<not> (connect_once pid \<and> connect_seen_of st pid)
      then Some (connect_note (pid, v) st) else None)"

interpretation connect_walk:
  writing_table validate_connect_property connect_ap connect_prop_ok connect_once connect_seen_of
proof unfold_locales
  show "reads_as r (forget (validate_connect_property st r pid)) (connect_ap st pid)" for st r pid
    unfolding validate_connect_property_def
    by (cases st; simp only: prod.case once_then_simp forget_if forget_keep forget_simps,
        intro reads_as_cases)
      (simp_all add: connect_ap_def connect_seen_of_def to_opt_if)
  show "(\<exists>s'. connect_ap s pid v = Some s') \<longleftrightarrow>
      connect_prop_ok (pid, v) \<and> \<not> (connect_once pid \<and> connect_seen_of s pid)" for s pid v
    by (simp add: connect_ap_def)
  show "connect_ap s pid v = Some s' \<Longrightarrow>
      connect_seen_of s' q \<longleftrightarrow> connect_seen_of s q \<or> connect_once pid \<and> q = pid" for s pid v s' q
    by (cases s; cases v) (auto simp: connect_ap_def connect_seen_of_def split: if_splits)
qed

fun will_prop_ok :: "byte \<times> prop_value \<Rightarrow> bool" where
  "will_prop_ok (pid, PV_u32 v) = (pid = ID_WILL_DELAY \<or> pid = ID_MESSAGE_EXPIRY)"
| "will_prop_ok (pid, PV_u8 v) = (pid = ID_PAYLOAD_FORMAT \<and> \<not> v > 1)"
| "will_prop_ok (pid, PV_utf8 x) =
     (pid = ID_CONTENT_TYPE \<or> pid = ID_RESPONSE_TOPIC \<or> pid = ID_CORRELATION_DATA)"
| "will_prop_ok (pid, PV_user x y) = (pid = ID_USER_PROPERTY)"
| "will_prop_ok (pid, _) = False"

definition will_seen_of :: "will_seen \<Rightarrow> byte \<Rightarrow> bool" where
  "will_seen_of s pid =
     (if pid = ID_WILL_DELAY then ws_will_delay s
      else if pid = ID_PAYLOAD_FORMAT then ws_payload_format s
      else if pid = ID_MESSAGE_EXPIRY then ws_message_expiry s
      else if pid = ID_CONTENT_TYPE then ws_content_type s
      else if pid = ID_RESPONSE_TOPIC then ws_response_topic s
      else if pid = ID_CORRELATION_DATA then ws_correlation_data s else False)"

definition will_ap :: "will_seen \<Rightarrow> byte \<Rightarrow> prop_value \<Rightarrow> will_seen option" where
  "will_ap s pid v =
     (if will_prop_ok (pid, v) \<and> \<not> (connect_once pid \<and> will_seen_of s pid) then
        Some (if pid = ID_WILL_DELAY then s\<lparr>ws_will_delay := True\<rparr>
              else if pid = ID_PAYLOAD_FORMAT then s\<lparr>ws_payload_format := True\<rparr>
              else if pid = ID_MESSAGE_EXPIRY then s\<lparr>ws_message_expiry := True\<rparr>
              else if pid = ID_CONTENT_TYPE then s\<lparr>ws_content_type := True\<rparr>
              else if pid = ID_RESPONSE_TOPIC then s\<lparr>ws_response_topic := True\<rparr>
              else if pid = ID_CORRELATION_DATA then s\<lparr>ws_correlation_data := True\<rparr> else s)
      else None)"

interpretation will_walk: walked_table will_property will_ap will_prop_ok connect_once will_seen_of
proof unfold_locales
  show "reads_as r (will_property s r pid) (will_ap s pid)" for s r pid
    unfolding will_property_def once_or_simp
    by (intro reads_as_cases) (simp_all add: will_ap_def will_seen_of_def to_opt_if)
  show "(\<exists>s'. will_ap s pid v = Some s') \<longleftrightarrow>
      will_prop_ok (pid, v) \<and> \<not> (connect_once pid \<and> will_seen_of s pid)" for s pid v
    by (simp add: will_ap_def)
  show "will_ap s pid v = Some s' \<Longrightarrow>
      will_seen_of s' q \<longleftrightarrow> will_seen_of s q \<or> connect_once pid \<and> q = pid" for s pid v s' q
    by (cases v) (auto simp: will_ap_def will_seen_of_def split: if_splits)
qed

fun subscribe_prop_ok :: "bool \<Rightarrow> byte \<times> prop_value \<Rightarrow> bool" where
  "subscribe_prop_ok available (pid, PV_var v) = (pid = ID_SUBSCRIPTION_ID \<and> available \<and> v \<noteq> 0)"
| "subscribe_prop_ok available (pid, PV_user x y) = (pid = ID_USER_PROPERTY)"
| "subscribe_prop_ok available (pid, _) = False"

definition subscribe_ap :: "bool \<Rightarrow> bool \<Rightarrow> byte \<Rightarrow> prop_value \<Rightarrow> bool option" where
  "subscribe_ap available s pid v =
     (if subscribe_prop_ok available (pid, v) \<and> \<not> (pid = ID_SUBSCRIPTION_ID \<and> s)
      then Some (s \<or> pid = ID_SUBSCRIPTION_ID) else None)"

interpretation subscribe_walk:
  walked_table "subscribe_property available" "subscribe_ap available" "subscribe_prop_ok available"
    "\<lambda>pid. pid = ID_SUBSCRIPTION_ID" "\<lambda>s pid. pid = ID_SUBSCRIPTION_ID \<and> s" for available
proof unfold_locales
  show "reads_as r (subscribe_property available s r pid) (subscribe_ap available s pid)" for s r pid
    unfolding subscribe_property_def
    by (intro reads_as_cases) (simp_all add: subscribe_ap_def to_opt_if)
qed (auto simp: subscribe_ap_def split: if_splits)

fun outgoing_publish_prop_ok :: "u16 \<Rightarrow> byte \<times> prop_value \<Rightarrow> bool" where
  "outgoing_publish_prop_ok mx (pid, PV_u8 v) = (pid = ID_PAYLOAD_FORMAT)"
| "outgoing_publish_prop_ok mx (pid, PV_u32 v) = (pid = ID_MESSAGE_EXPIRY)"
| "outgoing_publish_prop_ok mx (pid, PV_utf8 x) =
     (pid = ID_CONTENT_TYPE \<or> pid = ID_RESPONSE_TOPIC \<or> pid = ID_CORRELATION_DATA)"
| "outgoing_publish_prop_ok mx (pid, PV_u16 v) = (pid = ID_TOPIC_ALIAS \<and> v \<le> mx)"
| "outgoing_publish_prop_ok mx (pid, PV_user x y) = (pid = ID_USER_PROPERTY)"
| "outgoing_publish_prop_ok mx (pid, PV_var v) = False"

definition validate_publish_ap :: "u16 \<Rightarrow> u16 option \<times> bool \<Rightarrow> byte \<Rightarrow> prop_value \<Rightarrow>
    (u16 option \<times> bool) option" where
  "validate_publish_ap mx st pid v =
     (if outgoing_publish_prop_ok mx (pid, v) \<and> \<not> (pid = ID_TOPIC_ALIAS \<and> snd st)
      then Some (case v of PV_u16 a \<Rightarrow> (Some a, True) | _ \<Rightarrow> st) else None)"

interpretation validate_publish_walk:
  writing_table "validate_publish_property mx" "validate_publish_ap mx" "outgoing_publish_prop_ok mx"
    "\<lambda>pid. pid = ID_TOPIC_ALIAS" "\<lambda>st pid. pid = ID_TOPIC_ALIAS \<and> snd st" for mx
proof unfold_locales
  show "reads_as r (forget (validate_publish_property mx st r pid)) (validate_publish_ap mx st pid)"
    for st r pid
    unfolding validate_publish_property_def
    by (cases st; simp only: prod.case forget_if forget_keep forget_simps,
        intro reads_as_cases)
      (auto simp: validate_publish_ap_def to_opt_if not_less)
  show "(\<exists>s'. validate_publish_ap mx s pid v = Some s') \<longleftrightarrow>
      outgoing_publish_prop_ok mx (pid, v) \<and> \<not> (pid = ID_TOPIC_ALIAS \<and> pid = ID_TOPIC_ALIAS \<and> snd s)"
    for s pid v by (simp add: validate_publish_ap_def)
  show "validate_publish_ap mx s pid v = Some s' \<Longrightarrow>
      (q = ID_TOPIC_ALIAS \<and> snd s') \<longleftrightarrow> (q = ID_TOPIC_ALIAS \<and> snd s) \<or> pid = ID_TOPIC_ALIAS \<and> q = pid"
    for s pid v s' q
    by (cases v) (auto simp: validate_publish_ap_def split: if_splits)
qed

definition publish_ack_ap :: "bool \<Rightarrow> byte \<Rightarrow> prop_value \<Rightarrow> bool option" where
  "publish_ack_ap s pid v =
     (if ack_prop_ok (pid, v) \<and> \<not> (pid = ID_REASON_STRING \<and> s)
      then Some (s \<or> pid = ID_REASON_STRING) else None)"

interpretation publish_ack_walk:
  walked_table publish_ack_property publish_ack_ap ack_prop_ok
    "\<lambda>pid. pid = ID_REASON_STRING" "\<lambda>s pid. pid = ID_REASON_STRING \<and> s"
proof unfold_locales
  show "reads_as r (publish_ack_property s r pid) (publish_ack_ap s pid)" for s r pid
    unfolding publish_ack_property_def
    by (intro reads_as_cases) (simp_all add: publish_ack_ap_def to_opt_if)
qed (auto simp: publish_ack_ap_def split: if_splits)

fun unsubscribe_prop_ok :: "byte \<times> prop_value \<Rightarrow> bool" where
  "unsubscribe_prop_ok (pid, PV_user x y) = (pid = ID_USER_PROPERTY)"
| "unsubscribe_prop_ok (pid, _) = False"

definition unsubscribe_ap :: "unit \<Rightarrow> byte \<Rightarrow> prop_value \<Rightarrow> unit option" where
  "unsubscribe_ap s pid v = (if unsubscribe_prop_ok (pid, v) then Some () else None)"

interpretation unsubscribe_walk:
  walked_table unsubscribe_property unsubscribe_ap unsubscribe_prop_ok "\<lambda>pid. False" "\<lambda>s pid. False"
proof unfold_locales
  show "reads_as r (unsubscribe_property s r pid) (unsubscribe_ap s pid)" for s r pid
    unfolding unsubscribe_property_def
    by (intro reads_as_cases) (simp_all add: unsubscribe_ap_def to_opt_if)
qed (auto simp: unsubscribe_ap_def split: if_splits)

section \<open>What each validator accepts\<close>

lemma reader_over_ok:
  "reader_over ps = Inr r \<longleftrightarrow> length ps < 268435456 \<and> r = reader_new ps (word_of_nat (length ps))"
  by (auto simp: reader_over_def try_u32_def unat_u32_of_nat word_le_nat_alt not_le rbind_eq_Inr
      split: if_splits)

lemma validates:
  fixes body :: "'s \<Rightarrow> property_reader \<Rightarrow> byte \<Rightarrow> property_reader \<times> (validate_error + 's)"
  assumes "\<And>bs n. length bs = unat n \<Longrightarrow>
      (\<exists>r' s'. section_loop body err s (reader_new bs n) = (r', Inr s') \<and> True) \<longleftrightarrow>
      (\<exists>ps. table_takes ok once ps \<and> list_all (\<lambda>(_, v). pv_ok v) ps \<and> bs = section_bytes ps \<and> True)"
  shows "rbind (reader_over sec) (\<lambda>r. rbind (snd (section_loop body err s r)) (\<lambda>_. Inr ())) = Inr () \<longleftrightarrow>
    table_section ok once sec"
proof (cases "length sec < 268435456")
  case True
  then have u: "length sec = unat (word_of_nat (length sec) :: u32)" by (simp add: unat_u32_of_nat)
  have "rbind (snd x) (\<lambda>_. Inr ()) = Inr () \<longleftrightarrow> (\<exists>r' s'. x = (r', Inr s') \<and> True)"
    for x :: "property_reader \<times> (validate_error + 's)" by (cases x; cases "snd x") auto
  moreover have "reader_over sec = Inr (reader_new sec (word_of_nat (length sec)))"
    using True by (simp add: reader_over_ok)
  ultimately show ?thesis using assms [OF u] True by (simp add: table_section_def)
next
  case False
  then have "reader_over sec \<noteq> Inr r" for r by (simp add: reader_over_ok)
  then show ?thesis using False by (simp add: table_section_def rbind_eq_Inr)
qed

lemma validate_will_ok:
  "validate_will_properties sec = Inr () \<longleftrightarrow> table_section will_prop_ok connect_once sec"
  unfolding validate_will_properties_def
  by (intro validates will_walk.walk_ok [where P = "\<lambda>_. True"])
    (simp_all add: will_unseen_def will_seen_of_def)

lemma validate_subscribe_ok:
  "validate_subscribe_properties available sec = Inr () \<longleftrightarrow>
     table_section (subscribe_prop_ok available) (\<lambda>pid. pid = ID_SUBSCRIPTION_ID) sec"
  unfolding validate_subscribe_properties_def
  by (intro validates subscribe_walk.walk_ok [where P = "\<lambda>_. True"]) simp_all

lemma validate_publish_ack_ok:
  "validate_publish_ack_properties sec = Inr () \<longleftrightarrow>
     table_section ack_prop_ok (\<lambda>pid. pid = ID_REASON_STRING) sec"
  unfolding validate_publish_ack_properties_def
  by (intro validates publish_ack_walk.walk_ok [where P = "\<lambda>_. True"]) simp_all

lemma validate_unsubscribe_ok:
  "validate_unsubscribe_properties sec = Inr () \<longleftrightarrow> table_section unsubscribe_prop_ok (\<lambda>_. False) sec"
proof -
  have "validate_unsubscribe_properties sec = rbind (reader_over sec) (\<lambda>r.
      rbind (snd (section_loop unsubscribe_property Validate_BadResponse () r)) (\<lambda>_. Inr ()))"
    by (simp add: validate_unsubscribe_properties_def rbind_def split: sum.split)
  then show ?thesis
    by (simp only:) (intro validates unsubscribe_walk.walk_ok [where P = "\<lambda>_. True"]; simp)
qed

definition connect_auth_ok :: "(byte \<times> prop_value) list \<Rightarrow> bool" where
  "connect_auth_ok ps \<longleftrightarrow>
     (ID_AUTH_DATA \<in> fst ` set ps \<longrightarrow> ID_AUTH_METHOD \<in> fst ` set ps)"

definition connect_learned :: "(byte \<times> prop_value) list \<Rightarrow> connect_validation \<Rightarrow> connect_validation" where
  "connect_learned ps f = f\<lparr>
     cv_request_problem_info := (case map_of ps ID_REQUEST_PROBLEM of
        None \<Rightarrow> cv_request_problem_info f | Some v \<Rightarrow> v = PV_u8 1),
     cv_max_packet_size := (case map_of ps ID_MAX_PACKET_SIZE of
        None \<Rightarrow> cv_max_packet_size f | Some v \<Rightarrow> (case v of PV_u32 n \<Rightarrow> Some n | _ \<Rightarrow> None))\<rparr>"

lemma connect_ap_all:
  "apply_all connect_ap st ps = Some st' \<Longrightarrow>
     fst st' = connect_learned ps (fst st) \<and>
     (connect_once pid \<longrightarrow> connect_seen_of st' pid = (connect_seen_of st pid \<or> pid \<in> fst ` set ps))"
proof (induction ps arbitrary: st)
  case Nil
  then show ?case by (simp add: connect_learned_def)
next
  case (Cons p ps)
  obtain q v where p: "p = (q, v)" by (cases p)
  obtain f s where st: "st = (f, s)" by (cases st)
  obtain st1 where st1: "connect_ap st q v = Some st1" "apply_all connect_ap st1 ps = Some st'"
    using Cons.prems by (auto simp: p bind_eq_Some_conv)
  have fresh: "list_all (\<lambda>pid. \<not> connect_seen_of st1 pid) (once_ids connect_once ps)"
    using connect_walk.table.apply_all_takes [of st1 ps] st1(2) by blast
  have seen: "connect_seen_of st1 pid \<longleftrightarrow> connect_seen_of st pid \<or> connect_once q \<and> pid = q" for pid
    by (rule connect_walk.table.sees [OF st1(1)])
  have gone: "map_of ps q = None" if "connect_once q"
    using fresh seen [of q] that by (auto simp: list_all_iff once_ids_def map_of_eq_None_iff)
  have noted: "st1 = connect_note (q, v) st"
    using st1(1) by (simp add: connect_ap_def split: if_splits)
  have "connect_learned ps (fst st1) = connect_learned (p # ps) (fst st)"
    using gone
    by (intro connect_validation.equality) (auto simp: noted st p connect_learned_def split: option.split)
  then show ?case using Cons.IH [OF st1(2)] seen [of pid] by (auto simp: p)
qed

lemma validate_connect_ok:
  "validate_connect_properties sec f = (f', Inr ()) \<longleftrightarrow> length sec < 268435456 \<and>
    (\<exists>ps. table_takes connect_prop_ok connect_once ps \<and> list_all (\<lambda>(_, v). pv_ok v) ps \<and>
       sec = section_bytes ps \<and> connect_auth_ok ps \<and>
       f' = connect_learned ps (f\<lparr>cv_request_problem_info := False\<rparr>))"
proof (cases "length sec < 268435456")
  case False
  have "isl (reader_over sec)"
    using False reader_over_ok [of sec] by (cases "reader_over sec") auto
  then show ?thesis using False by (auto simp: validate_connect_properties_def split: sum.split)
next
  case True
  let ?n = "word_of_nat (length sec) :: u32" and ?f = "f\<lparr>cv_request_problem_info := False\<rparr>"
  let ?loop = "walk_loop validate_connect_property Validate_BadResponse (?f, connect_unseen) (reader_new sec ?n)"
  have n: "length sec = unat ?n" using True by (simp add: unat_u32_of_nat)
  have r: "reader_over sec = Inr (reader_new sec ?n)" using True by (simp add: reader_over_ok)
  have unseen: "\<forall>pid. connect_once pid \<longrightarrow> \<not> connect_seen_of (?f, connect_unseen) pid"
    by (simp add: connect_seen_of_def connect_unseen_def)
  have "validate_connect_properties sec f = (f', Inr ()) \<longleftrightarrow>
    (\<exists>s'. (\<exists>r'. ?loop = ((f', s'), r', Inr ())) \<and> \<not> (cs_auth_data s' \<and> \<not> cs_auth_method s'))"
    by (auto simp: validate_connect_properties_def r split: prod.splits sum.splits if_splits)
  also have "\<dots> \<longleftrightarrow> (\<exists>ps s'. table_takes connect_prop_ok connect_once ps \<and>
      list_all (\<lambda>(_, v). pv_ok v) ps \<and> sec = section_bytes ps \<and>
      apply_all connect_ap (?f, connect_unseen) ps = Some (f', s') \<and>
      \<not> (cs_auth_data s' \<and> \<not> cs_auth_method s'))"
    unfolding connect_walk.writes_ok [OF n unseen] by blast
  also have "\<dots> \<longleftrightarrow> (\<exists>ps. table_takes connect_prop_ok connect_once ps \<and>
      list_all (\<lambda>(_, v). pv_ok v) ps \<and> sec = section_bytes ps \<and> connect_auth_ok ps \<and>
      f' = connect_learned ps ?f)"
  proof (rule ex_cong1)
    fix ps
    show "(\<exists>s'. table_takes connect_prop_ok connect_once ps \<and>
        list_all (\<lambda>(_, v). pv_ok v) ps \<and> sec = section_bytes ps \<and>
        apply_all connect_ap (?f, connect_unseen) ps = Some (f', s') \<and>
        \<not> (cs_auth_data s' \<and> \<not> cs_auth_method s')) \<longleftrightarrow>
      (table_takes connect_prop_ok connect_once ps \<and> list_all (\<lambda>(_, v). pv_ok v) ps \<and>
        sec = section_bytes ps \<and> connect_auth_ok ps \<and> f' = connect_learned ps ?f)"
    proof (cases "table_takes connect_prop_ok connect_once ps")
      case True
      then obtain f1 s1 where st: "apply_all connect_ap (?f, connect_unseen) ps = Some (f1, s1)"
        using connect_walk.table.apply_all_fresh [OF unseen] by fast
      have "f1 = connect_learned ps ?f" using connect_ap_all [OF st] by simp
      moreover have "cs_auth_data s1 \<longleftrightarrow> ID_AUTH_DATA \<in> fst ` set ps"
        "cs_auth_method s1 \<longleftrightarrow> ID_AUTH_METHOD \<in> fst ` set ps"
        using connect_ap_all [OF st, of ID_AUTH_DATA] connect_ap_all [OF st, of ID_AUTH_METHOD]
        by (simp_all add: connect_seen_of_def connect_unseen_def)
      ultimately show ?thesis using True st by (auto simp: connect_auth_ok_def)
    qed simp
  qed
  finally show ?thesis using True by simp
qed

text \<open>C36. A CONNECT's property section is accepted exactly when it is shorter than 2^28 bytes and the
  encoding of permitted properties, none but user properties repeated, with the receive maximum
  and the maximum packet size not zero, the two request flags 0 or 1, and authentication data
  only beside an authentication method. What the caller then finds is what the section says:
  problem information exactly when it was asked for with a 1, and the announced maximum packet
  size, or the value from before when none was announced.\<close>

theorem validate_connect_iff:
  "validate_connect_properties sec f = (f', Inr ()) \<longleftrightarrow> length sec < 268435456 \<and>
    (\<exists>ps. table_takes connect_prop_ok connect_once ps \<and> list_all (\<lambda>(_, v). pv_ok v) ps \<and>
       sec = section_bytes ps \<and> connect_auth_ok ps \<and>
       f' = \<lparr>cv_request_problem_info = (map_of ps ID_REQUEST_PROBLEM = Some (PV_u8 1)),
             cv_max_packet_size = (case map_of ps ID_MAX_PACKET_SIZE of
                None \<Rightarrow> cv_max_packet_size f
              | Some v \<Rightarrow> (case v of PV_u32 n \<Rightarrow> Some n | _ \<Rightarrow> None))\<rparr>)"
proof -
  have "connect_learned ps (f\<lparr>cv_request_problem_info := False\<rparr>) =
      \<lparr>cv_request_problem_info = (map_of ps ID_REQUEST_PROBLEM = Some (PV_u8 1)),
       cv_max_packet_size = (case map_of ps ID_MAX_PACKET_SIZE of
          None \<Rightarrow> cv_max_packet_size f
        | Some v \<Rightarrow> (case v of PV_u32 n \<Rightarrow> Some n | _ \<Rightarrow> None))\<rparr>" for ps
    by (auto simp: connect_learned_def intro!: connect_validation.equality split: option.split)
  then show ?thesis unfolding validate_connect_ok by simp
qed

lemma distinct_replicate_le: "distinct (replicate n x) \<longleftrightarrow> n \<le> 1"
  by (induction n) auto

lemma distinct_repeat: "distinct (filter (\<lambda>y. y = x) xs) \<longleftrightarrow> length (filter (\<lambda>y. y = x) xs) \<le> 1"
proof -
  have "filter (\<lambda>y. y = x) xs = replicate (length (filter (\<lambda>y. y = x) xs)) x"
    by (intro replicate_length_same [symmetric]) simp
  then show ?thesis by (metis distinct_replicate_le)
qed

lemma ack_section_table: "ack_section sec \<longleftrightarrow> table_section ack_prop_ok (\<lambda>pid. pid = ID_REASON_STRING) sec"
proof -
  have "length (filter (\<lambda>(pid, _). pid = REASON_STRING_ID) ps) =
      length (filter (\<lambda>pid. pid = REASON_STRING_ID) (map fst ps))" for ps :: "(byte \<times> prop_value) list"
    by (induction ps) auto
  then have "ack_props_ok ps \<longleftrightarrow>
      table_takes ack_prop_ok (\<lambda>pid. pid = ID_REASON_STRING) ps \<and> list_all (\<lambda>(_, v). pv_ok v) ps" for ps
    by (auto simp: ack_props_ok_def table_takes_def once_ids_def distinct_repeat)
  then show ?thesis by (auto simp: ack_section_def table_section_def)
qed

text \<open>The outgoing and the incoming table of an acknowledgement's properties are one: the
  validator accepts exactly the sections the acknowledgement reader accepts. The validators
  of the will, of SUBSCRIBE and of UNSUBSCRIBE accept exactly the sections of their tables, each
  property within its value range and none but user properties repeated.\<close>

theorem section_validators_iff:
  "(validate_publish_ack_properties sec = Inr () \<longleftrightarrow> ack_section sec) \<and>
   (validate_will_properties sec = Inr () \<longleftrightarrow> table_section will_prop_ok connect_once sec) \<and>
   (validate_subscribe_properties available sec = Inr () \<longleftrightarrow>
      table_section (subscribe_prop_ok available) (\<lambda>pid. pid = ID_SUBSCRIPTION_ID) sec) \<and>
   (validate_unsubscribe_properties sec = Inr () \<longleftrightarrow>
      table_section unsubscribe_prop_ok (\<lambda>_. False) sec)"
proof (intro conjI)
  show "validate_publish_ack_properties sec = Inr () \<longleftrightarrow> ack_section sec"
    unfolding validate_publish_ack_ok by (simp only: ack_section_table)
qed (rule validate_will_ok validate_subscribe_ok validate_unsubscribe_ok)+

definition alias_learned :: "(byte \<times> prop_value) list \<Rightarrow> u16 option \<Rightarrow> u16 option" where
  "alias_learned ps ta = (case map_of ps ID_TOPIC_ALIAS of
      None \<Rightarrow> ta | Some v \<Rightarrow> (case v of PV_u16 a \<Rightarrow> Some a | _ \<Rightarrow> None))"

lemma validate_publish_ap_all:
  "apply_all (validate_publish_ap mx) st ps = Some st' \<Longrightarrow> fst st' = alias_learned ps (fst st)"
proof (induction ps arbitrary: st)
  case Nil
  then show ?case by (simp add: alias_learned_def)
next
  case (Cons p ps)
  obtain q v where p: "p = (q, v)" by (cases p)
  obtain st1 where st1: "validate_publish_ap mx st q v = Some st1"
    "apply_all (validate_publish_ap mx) st1 ps = Some st'"
    using Cons.prems by (auto simp: p bind_eq_Some_conv)
  have fresh: "list_all (\<lambda>pid. \<not> (pid = ID_TOPIC_ALIAS \<and> snd st1)) (once_ids (\<lambda>pid. pid = ID_TOPIC_ALIAS) ps)"
    using validate_publish_walk.table.apply_all_takes [of mx st1 ps] st1(2) by blast
  have "map_of ps ID_TOPIC_ALIAS = None" if "snd st1"
    using fresh that by (auto simp: list_all_iff once_ids_def map_of_eq_None_iff)
  then have "alias_learned ps (fst st1) = alias_learned (p # ps) (fst st)"
    using st1(1) by (cases v) (auto simp: p alias_learned_def validate_publish_ap_def split: if_splits)
  then show ?case using Cons.IH [OF st1(2)] by simp
qed

lemma validate_publish_ok:
  "validate_publish_properties mx sec ta = (ta', Inr ()) \<longleftrightarrow> length sec < 268435456 \<and>
    (\<exists>ps. table_takes (outgoing_publish_prop_ok mx) (\<lambda>pid. pid = ID_TOPIC_ALIAS) ps \<and>
       list_all (\<lambda>(_, v). pv_ok v) ps \<and> sec = section_bytes ps \<and> ta' = alias_learned ps ta)"
proof (cases "length sec < 268435456")
  case False
  have "isl (reader_over sec)"
    using False reader_over_ok [of sec] by (cases "reader_over sec") auto
  then show ?thesis using False by (auto simp: validate_publish_properties_def split: sum.split)
next
  case True
  let ?n = "word_of_nat (length sec) :: u32"
  let ?loop = "walk_loop (validate_publish_property mx) Validate_BadResponse (ta, False) (reader_new sec ?n)"
  have n: "length sec = unat ?n" using True by (simp add: unat_u32_of_nat)
  have r: "reader_over sec = Inr (reader_new sec ?n)" using True by (simp add: reader_over_ok)
  have "validate_publish_properties mx sec ta = (ta', Inr ()) \<longleftrightarrow>
    (\<exists>s'. \<exists>r'. ?loop = ((ta', s'), r', Inr ()))"
    by (auto simp: validate_publish_properties_def r split: prod.splits)
  also have "\<dots> \<longleftrightarrow> (\<exists>ps s'. table_takes (outgoing_publish_prop_ok mx) (\<lambda>pid. pid = ID_TOPIC_ALIAS) ps \<and>
      list_all (\<lambda>(_, v). pv_ok v) ps \<and> sec = section_bytes ps \<and>
      apply_all (validate_publish_ap mx) (ta, False) ps = Some (ta', s'))"
    by (subst validate_publish_walk.writes_ok [OF n]) auto
  also have "\<dots> \<longleftrightarrow> (\<exists>ps. table_takes (outgoing_publish_prop_ok mx) (\<lambda>pid. pid = ID_TOPIC_ALIAS) ps \<and>
      list_all (\<lambda>(_, v). pv_ok v) ps \<and> sec = section_bytes ps \<and> ta' = alias_learned ps ta)"
  proof (rule ex_cong1)
    fix ps
    have "\<exists>st. apply_all (validate_publish_ap mx) (ta, False) ps = Some st"
      if "table_takes (outgoing_publish_prop_ok mx) (\<lambda>pid. pid = ID_TOPIC_ALIAS) ps"
      using that by (subst validate_publish_walk.table.apply_all_fresh) simp_all
    then show "(\<exists>s'. table_takes (outgoing_publish_prop_ok mx) (\<lambda>pid. pid = ID_TOPIC_ALIAS) ps \<and>
        list_all (\<lambda>(_, v). pv_ok v) ps \<and> sec = section_bytes ps \<and>
        apply_all (validate_publish_ap mx) (ta, False) ps = Some (ta', s')) \<longleftrightarrow>
      (table_takes (outgoing_publish_prop_ok mx) (\<lambda>pid. pid = ID_TOPIC_ALIAS) ps \<and>
        list_all (\<lambda>(_, v). pv_ok v) ps \<and> sec = section_bytes ps \<and> ta' = alias_learned ps ta)"
      using validate_publish_ap_all [of mx "(ta, False)" ps] by fastforce
  qed
  finally show ?thesis using True by simp
qed

text \<open>A PUBLISH's property section is accepted exactly when it is shorter than 2^28 bytes and
  the encoding of permitted properties, at most one of them a topic alias and that within the
  server's maximum; the alias the caller finds is that of the section, or the one from before.
  Nothing else is checked: the format indicator may have any value, the alias may be zero, and
  any other property may repeat, which the reader of an incoming PUBLISH refuses.\<close>

theorem validate_publish_iff:
  "validate_publish_properties mx sec ta = (ta', Inr ()) \<longleftrightarrow> length sec < 268435456 \<and>
    (\<exists>ps. table_takes (outgoing_publish_prop_ok mx) (\<lambda>pid. pid = ID_TOPIC_ALIAS) ps \<and>
       list_all (\<lambda>(_, v). pv_ok v) ps \<and> sec = section_bytes ps \<and>
       ta' = (case map_of ps ID_TOPIC_ALIAS of
          None \<Rightarrow> ta | Some v \<Rightarrow> (case v of PV_u16 a \<Rightarrow> Some a | _ \<Rightarrow> None)))"
  unfolding validate_publish_ok alias_learned_def ..

text \<open>What the client may publish under the broker's limits. As in the code, a QoS above the
  broker's maximum is only refused when that maximum is 0.\<close>

lemma validate_publish_params_iff:
  "validate_publish_params g ra mq ta mx = Inr () \<longleftrightarrow>
     (og_retain g \<longrightarrow> ra \<noteq> 0) \<and> (og_qos g = AtMostOnce \<or> mq \<noteq> 0) \<and>
     (og_topic_name g = [] \<longrightarrow> ta \<noteq> 0) \<and> length (og_topic_name g) < 65536 \<and> mx \<noteq> 0"
  by (auto simp: validate_publish_params_def try_u16_def)

end
