(* ===== verification/Context.thy ===== *)
theory Context
  imports Validate
begin

text \<open>
  context.rs: the limits a session runs under, their initial values, and the walk that fills the
  client's half from the property section of a CONNECT about to be sent.
\<close>

section \<open>Data\<close>

abbreviation (input) MAX_PACKET_SIZE :: u32 where "MAX_PACKET_SIZE \<equiv> 268435460"

datatype context_error = Context_BadParameter | Context_BadResponse

record client_limits =
  lc_receive_max :: u16
  lc_max_packet_size :: u32
  lc_topic_alias_max :: u16
  lc_request_response_info :: bool
  lc_request_problem_info :: bool

record server_limits =
  ls_receive_max :: u16
  ls_max_qos :: byte
  ls_retain_available :: byte
  ls_max_packet_size :: u32
  ls_topic_alias_max :: u16
  ls_wildcard_available :: byte
  ls_subscription_id_available :: byte
  ls_shared_available :: byte
  ls_keep_alive :: u16

record connection_properties =
  cp_session_expiry :: u32
  cp_client :: client_limits
  cp_server :: server_limits

definition connection_properties_new :: connection_properties where
  "connection_properties_new = \<lparr>
     cp_session_expiry = 0,
     cp_client = \<lparr>lc_receive_max = - 1, lc_max_packet_size = MAX_PACKET_SIZE,
       lc_topic_alias_max = 0, lc_request_response_info = False,
       lc_request_problem_info = True\<rparr>,
     cp_server = \<lparr>ls_receive_max = - 1, ls_max_qos = 2, ls_retain_available = 1,
       ls_max_packet_size = MAX_PACKET_SIZE, ls_topic_alias_max = 0,
       ls_wildcard_available = 1, ls_subscription_id_available = 1,
       ls_shared_available = 1, ls_keep_alive = - 1\<rparr>\<rparr>"

section \<open>The walk\<close>

record context_seen =
  xs_session_expiry :: bool
  xs_receive_max :: bool
  xs_max_packet :: bool
  xs_topic_alias_max :: bool

definition context_unseen :: context_seen where
  "context_unseen = \<lparr>xs_session_expiry = False, xs_receive_max = False,
     xs_max_packet = False, xs_topic_alias_max = False\<rparr>"

definition set_receive_max :: "u16 \<Rightarrow> connection_properties \<Rightarrow> connection_properties" where
  "set_receive_max v c = c\<lparr>cp_client := (cp_client c)\<lparr>lc_receive_max := v\<rparr>\<rparr>"

definition set_max_packet_size :: "u32 \<Rightarrow> connection_properties \<Rightarrow> connection_properties" where
  "set_max_packet_size v c = c\<lparr>cp_client := (cp_client c)\<lparr>lc_max_packet_size := v\<rparr>\<rparr>"

definition set_topic_alias_max :: "u16 \<Rightarrow> connection_properties \<Rightarrow> connection_properties" where
  "set_topic_alias_max v c = c\<lparr>cp_client := (cp_client c)\<lparr>lc_topic_alias_max := v\<rparr>\<rparr>"

definition context_property :: "connection_properties \<times> context_seen \<Rightarrow> property_reader \<Rightarrow> byte \<Rightarrow>
    (connection_properties \<times> context_seen) \<times> property_reader \<times> (context_error + unit)" where
  "context_property st r pid =
     (case st of (c, seen) \<Rightarrow>
      if pid = ID_SESSION_EXPIRY then
        keep st (arm_u32 Context_BadResponse r (xs_session_expiry seen) (\<lambda>used v.
          Inr ((c\<lparr>cp_session_expiry := v\<rparr>, seen\<lparr>xs_session_expiry := used\<rparr>), Inr ())))
      else if pid = ID_RECEIVE_MAX then
        keep st (arm_u16 Context_BadResponse r (xs_receive_max seen) (\<lambda>used v.
          Inr ((set_receive_max v c, seen\<lparr>xs_receive_max := used\<rparr>), Inr ())))
      else if pid = ID_MAX_PACKET_SIZE then
        keep st (arm_u32 Context_BadResponse r (xs_max_packet seen) (\<lambda>used v.
          Inr ((set_max_packet_size v c, seen\<lparr>xs_max_packet := used\<rparr>), Inr ())))
      else if pid = ID_TOPIC_ALIAS_MAX then
        keep st (arm_u16 Context_BadResponse r (xs_topic_alias_max seen) (\<lambda>used v.
          Inr ((set_topic_alias_max v c, seen\<lparr>xs_topic_alias_max := used\<rparr>), Inr ())))
      else if pid \<in> {ID_REQUEST_PROBLEM, ID_REQUEST_RESPONSE} then
        keep st (arm_u8 Context_BadResponse r False (\<lambda>_ _. Inr (st, Inr ())))
      else if pid \<in> {ID_AUTH_DATA, ID_AUTH_METHOD} then
        keep st (arm_utf8 Context_BadResponse r False (\<lambda>_ _. Inr (st, Inr ())))
      else if pid = ID_USER_PROPERTY then
        keep st (arm_user Context_BadResponse r (\<lambda>_. Inr (st, Inr ())))
      else (st, r, Inl Context_BadParameter))"

definition update_with_connect_props ::
    "bytes \<Rightarrow> connection_properties \<Rightarrow> connection_properties \<times> (context_error + unit)" where
  "update_with_connect_props properties c =
     (case try_u32 (length properties) of
        None \<Rightarrow> (c, Inl Context_BadParameter)
      | Some len \<Rightarrow>
          if len \<ge> REMAINING_LENGTH_INVALID then (c, Inl Context_BadParameter)
          else case walk_loop context_property Context_BadResponse (c, context_unseen)
                      (reader_new properties len) of
            ((c, _), _, res) \<Rightarrow> (c, res))"

section \<open>The table as a specification\<close>

fun context_prop_ok :: "byte \<times> prop_value \<Rightarrow> bool" where
  "context_prop_ok (pid, PV_u32 v) = (pid = ID_SESSION_EXPIRY \<or> pid = ID_MAX_PACKET_SIZE)"
| "context_prop_ok (pid, PV_u16 v) = (pid = ID_TOPIC_ALIAS_MAX \<or> pid = ID_RECEIVE_MAX)"
| "context_prop_ok (pid, PV_u8 v) = (pid = ID_REQUEST_RESPONSE \<or> pid = ID_REQUEST_PROBLEM)"
| "context_prop_ok (pid, PV_utf8 x) = (pid = ID_AUTH_METHOD \<or> pid = ID_AUTH_DATA)"
| "context_prop_ok (pid, PV_user x y) = (pid = ID_USER_PROPERTY)"
| "context_prop_ok (pid, PV_var d) = False"

abbreviation context_once :: "byte \<Rightarrow> bool" where
  "context_once pid \<equiv> pid = ID_SESSION_EXPIRY \<or> pid = ID_RECEIVE_MAX \<or>
     pid = ID_MAX_PACKET_SIZE \<or> pid = ID_TOPIC_ALIAS_MAX"

definition context_seen_of :: "connection_properties \<times> context_seen \<Rightarrow> byte \<Rightarrow> bool" where
  "context_seen_of st pid =
     (if pid = ID_SESSION_EXPIRY then xs_session_expiry (snd st)
      else if pid = ID_RECEIVE_MAX then xs_receive_max (snd st)
      else if pid = ID_MAX_PACKET_SIZE then xs_max_packet (snd st)
      else if pid = ID_TOPIC_ALIAS_MAX then xs_topic_alias_max (snd st) else False)"

fun context_note :: "byte \<times> prop_value \<Rightarrow> connection_properties \<times> context_seen \<Rightarrow>
    connection_properties \<times> context_seen" where
  "context_note (pid, PV_u32 v) (c, s) =
     (if pid = ID_SESSION_EXPIRY then (c\<lparr>cp_session_expiry := v\<rparr>, s\<lparr>xs_session_expiry := True\<rparr>)
      else (set_max_packet_size v c, s\<lparr>xs_max_packet := True\<rparr>))"
| "context_note (pid, PV_u16 v) (c, s) =
     (if pid = ID_RECEIVE_MAX then (set_receive_max v c, s\<lparr>xs_receive_max := True\<rparr>)
      else (set_topic_alias_max v c, s\<lparr>xs_topic_alias_max := True\<rparr>))"
| "context_note _ st = st"

definition context_ap :: "connection_properties \<times> context_seen \<Rightarrow> byte \<Rightarrow> prop_value \<Rightarrow>
    (connection_properties \<times> context_seen) option" where
  "context_ap st pid v =
     (if context_prop_ok (pid, v) \<and> \<not> (context_once pid \<and> context_seen_of st pid)
      then Some (context_note (pid, v) st) else None)"

interpretation context_walk:
  writing_table context_property context_ap context_prop_ok context_once context_seen_of
proof unfold_locales
  show "reads_as r (forget (context_property st r pid)) (context_ap st pid)" for st r pid
    unfolding context_property_def
    by (cases st; simp only: prod.case forget_if forget_keep forget_simps, intro reads_as_cases)
      (auto simp: context_ap_def context_seen_of_def to_opt_if)
  show "(\<exists>s'. context_ap s pid v = Some s') \<longleftrightarrow>
      context_prop_ok (pid, v) \<and> \<not> (context_once pid \<and> context_seen_of s pid)" for s pid v
    by (simp add: context_ap_def)
  show "context_ap s pid v = Some s' \<Longrightarrow>
      context_seen_of s' q \<longleftrightarrow> context_seen_of s q \<or> context_once pid \<and> q = pid" for s pid v s' q
    by (cases s; cases v) (auto simp: context_ap_def context_seen_of_def split: if_splits)
qed

section \<open>What the walk leaves\<close>

definition filled :: "(byte \<times> prop_value) list \<Rightarrow> connection_properties \<Rightarrow> connection_properties" where
  "filled ps c = c\<lparr>
     cp_session_expiry := (case map_of ps ID_SESSION_EXPIRY of
        Some (PV_u32 v) \<Rightarrow> v | _ \<Rightarrow> cp_session_expiry c),
     cp_client := (cp_client c)\<lparr>
       lc_receive_max := (case map_of ps ID_RECEIVE_MAX of
          Some (PV_u16 v) \<Rightarrow> v | _ \<Rightarrow> lc_receive_max (cp_client c)),
       lc_max_packet_size := (case map_of ps ID_MAX_PACKET_SIZE of
          Some (PV_u32 v) \<Rightarrow> v | _ \<Rightarrow> lc_max_packet_size (cp_client c)),
       lc_topic_alias_max := (case map_of ps ID_TOPIC_ALIAS_MAX of
          Some (PV_u16 v) \<Rightarrow> v | _ \<Rightarrow> lc_topic_alias_max (cp_client c))\<rparr>\<rparr>"

lemma context_ap_all:
  "apply_all context_ap st ps = Some st' \<Longrightarrow> fst st' = filled ps (fst st)"
proof (induction ps arbitrary: st)
  case Nil
  then show ?case by (simp add: filled_def)
next
  case (Cons p ps)
  obtain q v where p: "p = (q, v)" by (cases p)
  obtain c s where st: "st = (c, s)" by (cases st)
  obtain st1 where st1: "context_ap st q v = Some st1" "apply_all context_ap st1 ps = Some st'"
    using Cons.prems by (auto simp: p bind_eq_Some_conv)
  have fresh: "list_all (\<lambda>pid. \<not> context_seen_of st1 pid) (once_ids context_once ps)"
    using context_walk.table.apply_all_takes [of st1 ps] st1(2) by blast
  have gone: "map_of ps q = None" if "context_once q"
  proof -
    have "context_seen_of st1 q" using context_walk.table.sees [OF st1(1), of q] that by simp
    then show ?thesis using fresh that by (auto simp: list_all_iff once_ids_def map_of_eq_None_iff)
  qed
  have noted: "context_prop_ok (q, v)" "st1 = context_note (q, v) st"
    using st1(1) by (simp_all add: context_ap_def split: if_splits)
  have "filled ps (fst st1) = filled (p # ps) (fst st)"
    using gone noted(1)
    by (intro connection_properties.equality client_limits.equality; cases v)
      (auto simp: noted(2) st p filled_def set_receive_max_def set_max_packet_size_def
         set_topic_alias_max_def split: option.split prop_value.split)
  then show ?case using Cons.IH [OF st1(2)] by simp
qed

lemma update_with_connect_props_ok:
  "update_with_connect_props sec c = (c', Inr ()) \<longleftrightarrow> length sec < 268435456 \<and>
    (\<exists>ps. table_takes context_prop_ok context_once ps \<and> list_all (\<lambda>(_, v). pv_ok v) ps \<and>
       sec = section_bytes ps \<and> c' = filled ps c)"
proof (cases "length sec < 268435456")
  case False
  then show ?thesis
    by (auto simp: update_with_connect_props_def try_u32_def word_le_nat_alt unat_u32_of_nat
        split: option.split)
next
  case True
  let ?n = "word_of_nat (length sec) :: u32"
  let ?loop = "walk_loop context_property Context_BadResponse (c, context_unseen) (reader_new sec ?n)"
  have n: "length sec = unat ?n" using True by (simp add: unat_u32_of_nat)
  have unseen: "\<forall>pid. context_once pid \<longrightarrow> \<not> context_seen_of (c, context_unseen) pid"
    by (simp add: context_seen_of_def context_unseen_def)
  have "try_u32 (length sec) = Some ?n" "\<not> ?n \<ge> REMAINING_LENGTH_INVALID"
    using True by (simp_all add: try_u32_def word_le_nat_alt unat_u32_of_nat)
  then have "update_with_connect_props sec c = (c', Inr ()) \<longleftrightarrow> (\<exists>s' r'. ?loop = ((c', s'), r', Inr ()))"
    by (auto simp: update_with_connect_props_def split: prod.splits)
  also have "\<dots> \<longleftrightarrow> (\<exists>ps s'. table_takes context_prop_ok context_once ps \<and>
      list_all (\<lambda>(_, v). pv_ok v) ps \<and> sec = section_bytes ps \<and>
      apply_all context_ap (c, context_unseen) ps = Some (c', s'))"
    unfolding context_walk.writes_ok [OF n unseen] by blast
  also have "\<dots> \<longleftrightarrow> (\<exists>ps. table_takes context_prop_ok context_once ps \<and>
      list_all (\<lambda>(_, v). pv_ok v) ps \<and> sec = section_bytes ps \<and> c' = filled ps c)"
  proof (rule ex_cong1)
    fix ps
    show "(\<exists>s'. table_takes context_prop_ok context_once ps \<and>
        list_all (\<lambda>(_, v). pv_ok v) ps \<and> sec = section_bytes ps \<and>
        apply_all context_ap (c, context_unseen) ps = Some (c', s')) \<longleftrightarrow>
      (table_takes context_prop_ok context_once ps \<and> list_all (\<lambda>(_, v). pv_ok v) ps \<and>
        sec = section_bytes ps \<and> c' = filled ps c)"
      using context_ap_all [of "(c, context_unseen)" ps]
        context_walk.table.apply_all_fresh [OF unseen, of ps] by fastforce
  qed
  finally show ?thesis using True by simp
qed

lemma update_keeps_server:
  "cp_server (fst (update_with_connect_props sec c)) = cp_server c \<and>
   lc_request_problem_info (cp_client (fst (update_with_connect_props sec c))) =
     lc_request_problem_info (cp_client c)"
proof -
  define P where "P = (\<lambda>st :: connection_properties \<times> context_seen. cp_server (fst st) = cp_server c \<and>
    lc_request_problem_info (cp_client (fst st)) = lc_request_problem_info (cp_client c))"
  have "P (fst (context_property st r pid))" if st: "P st" for st r pid
  proof -
    obtain d s where d: "st = (d, s)" by (cases st)
    have "P (d\<lparr>cp_session_expiry := v\<rparr>, s1)" "P (set_receive_max w d, s1)"
      "P (set_max_packet_size v d, s1)" "P (set_topic_alias_max w d, s1)" for v w s1
      using st by (simp_all add: d P_def set_receive_max_def set_max_packet_size_def set_topic_alias_max_def)
    then show ?thesis
      using st unfolding context_property_def d prod.case by (intro arm_keeps [where P = P]) auto
  qed
  from walk_keeps [of P, OF this, where s = "(c, context_unseen)"]
  have loop: "P (fst (walk_loop context_property e (c, context_unseen) r))" for e r
    by (simp add: P_def)
  show ?thesis
  proof (cases "try_u32 (length sec)")
    case None
    then show ?thesis by (simp add: update_with_connect_props_def)
  next
    case (Some n)
    obtain d s r' res where w: "walk_loop context_property Context_BadResponse (c, context_unseen)
        (reader_new sec n) = ((d, s), r', res)"
      by (metis prod.exhaust)
    have "P (d, s)" using loop [of Context_BadResponse "reader_new sec n"] by (simp add: w)
    then show ?thesis by (simp add: update_with_connect_props_def Some w P_def)
  qed
qed

lemma connect_props_fill:
  assumes "table_takes connect_prop_ok connect_once ps"
  shows "table_takes context_prop_ok context_once ps"
proof -
  have "context_prop_ok p" if "connect_prop_ok p" for p
    using that by (cases p; cases "snd p") auto
  then have "list_all context_prop_ok ps"
    using assms by (auto simp: table_takes_def list_all_iff)
  moreover have "once_ids context_once ps = filter context_once (once_ids connect_once ps)"
    unfolding once_ids_def filter_filter by (rule filter_cong) auto
  ultimately show ?thesis using assms by (simp add: table_takes_def)
qed

lemma map_of_ok: "list_all ok ps \<Longrightarrow> map_of ps pid = Some v \<Longrightarrow> ok (pid, v)"
  by (auto simp: list_all_iff dest: map_of_SomeD)

text \<open>C37. The walk that fills the context checks nothing, and behind the validator it need not:
  on a section the validator accepted it succeeds. The section is then a list of properties, each
  limit at most once in it, and the context that comes out is the one that went in with exactly
  these values: the session expiry, the receive maximum, the maximum packet size and the topic
  alias maximum are what the list says, and what they were before where it does not say;
  nothing else changes. The maximum packet size is the one the validator announced to its
  caller; it and the receive maximum are not zero when they were not zero before.\<close>

theorem validated_connect_fills_context:
  assumes "validate_connect_properties sec f = (f', Inr ())" and "cv_max_packet_size f = None"
    and "lc_receive_max (cp_client c) \<noteq> 0" and "lc_max_packet_size (cp_client c) \<noteq> 0"
  shows "\<exists>ps c'. sec = section_bytes ps \<and> table_takes connect_prop_ok connect_once ps \<and>
    list_all (\<lambda>(_, v). pv_ok v) ps \<and> update_with_connect_props sec c = (c', Inr ()) \<and>
    c' = c\<lparr>
      cp_session_expiry := (case map_of ps ID_SESSION_EXPIRY of Some (PV_u32 v) \<Rightarrow> v | _ \<Rightarrow> cp_session_expiry c),
      cp_client := (cp_client c)\<lparr>
        lc_receive_max := (case map_of ps ID_RECEIVE_MAX of Some (PV_u16 v) \<Rightarrow> v | _ \<Rightarrow> lc_receive_max (cp_client c)),
        lc_max_packet_size :=
          (case map_of ps ID_MAX_PACKET_SIZE of Some (PV_u32 v) \<Rightarrow> v | _ \<Rightarrow> lc_max_packet_size (cp_client c)),
        lc_topic_alias_max :=
          (case map_of ps ID_TOPIC_ALIAS_MAX of Some (PV_u16 v) \<Rightarrow> v | _ \<Rightarrow> lc_topic_alias_max (cp_client c))\<rparr>\<rparr> \<and>
    lc_max_packet_size (cp_client c') = (case cv_max_packet_size f' of
       None \<Rightarrow> lc_max_packet_size (cp_client c) | Some n \<Rightarrow> n) \<and>
    lc_max_packet_size (cp_client c') \<noteq> 0 \<and> lc_receive_max (cp_client c') \<noteq> 0 \<and>
    cp_server c' = cp_server c \<and>
    lc_request_problem_info (cp_client c') = lc_request_problem_info (cp_client c)"
proof -
  from assms(1) obtain ps where ps: "length sec < 268435456"
    "table_takes connect_prop_ok connect_once ps" "list_all (\<lambda>(_, v). pv_ok v) ps"
    "sec = section_bytes ps" "f' = connect_learned ps (f\<lparr>cv_request_problem_info := False\<rparr>)"
    unfolding validate_connect_ok by blast
  let ?c = "filled ps c"
  have up: "update_with_connect_props sec c = (?c, Inr ())"
    unfolding update_with_connect_props_ok using ps connect_props_fill [OF ps(2)] by blast
  have ok: "connect_prop_ok (pid, v)" if "map_of ps pid = Some v" for pid v
  proof -
    have "list_all connect_prop_ok ps" using ps(2) by (simp add: table_takes_def)
    from map_of_ok [OF this that] show ?thesis .
  qed
  have "lc_receive_max (cp_client ?c) \<noteq> 0"
    using ok [of ID_RECEIVE_MAX] assms(3) by (auto simp: filled_def split: option.split prop_value.split)
  moreover have "lc_max_packet_size (cp_client ?c) \<noteq> 0"
    using ok [of ID_MAX_PACKET_SIZE] assms(4) by (auto simp: filled_def split: option.split prop_value.split)
  moreover have "lc_max_packet_size (cp_client ?c) = (case cv_max_packet_size f' of
       None \<Rightarrow> lc_max_packet_size (cp_client c) | Some n \<Rightarrow> n)"
    using ok [of ID_MAX_PACKET_SIZE] assms(2)
    by (auto simp: ps(5) connect_learned_def filled_def split: option.split prop_value.split)
  moreover have "cp_server ?c = cp_server c"
      "lc_request_problem_info (cp_client ?c) = lc_request_problem_info (cp_client c)"
    by (simp_all add: filled_def)
  moreover have "?c = c\<lparr>
      cp_session_expiry := (case map_of ps ID_SESSION_EXPIRY of Some (PV_u32 v) \<Rightarrow> v | _ \<Rightarrow> cp_session_expiry c),
      cp_client := (cp_client c)\<lparr>
        lc_receive_max := (case map_of ps ID_RECEIVE_MAX of Some (PV_u16 v) \<Rightarrow> v | _ \<Rightarrow> lc_receive_max (cp_client c)),
        lc_max_packet_size :=
          (case map_of ps ID_MAX_PACKET_SIZE of Some (PV_u32 v) \<Rightarrow> v | _ \<Rightarrow> lc_max_packet_size (cp_client c)),
        lc_topic_alias_max :=
          (case map_of ps ID_TOPIC_ALIAS_MAX of Some (PV_u16 v) \<Rightarrow> v | _ \<Rightarrow> lc_topic_alias_max (cp_client c))\<rparr>\<rparr>"
    by (rule filled_def)
  ultimately show ?thesis using up ps(2-4) by blast
qed

theorem validated_connect_fills_context_witness:
  "\<exists>ps. [0x27, 0, 0, 1, 0, 0x21, 0, 9] = section_bytes ps \<and>
    lc_max_packet_size (cp_client (fst (update_with_connect_props
     [0x27, 0, 0, 1, 0, 0x21, 0, 9] connection_properties_new))) = 256"
proof -
  let ?ps = "[(ID_MAX_PACKET_SIZE, PV_u32 256), (ID_RECEIVE_MAX, PV_u16 9)]"
  let ?f = "\<lparr>cv_request_problem_info = True, cv_max_packet_size = None\<rparr>"
  have sec: "[0x27, 0, 0, 1, 0, 0x21, 0, 9] = section_bytes ?ps" by (simp add: be32_def be16_def)
  have "validate_connect_properties [0x27, 0, 0, 1, 0, 0x21, 0, 9] ?f =
      (\<lparr>cv_request_problem_info = False, cv_max_packet_size = Some 256\<rparr>, Inr ())"
    unfolding validate_connect_ok
    by (intro conjI exI [of _ ?ps] sec)
      (simp_all add: table_takes_def connect_auth_ok_def connect_learned_def)
  from validated_connect_fills_context [OF this, of connection_properties_new]
  show ?thesis by (auto simp: connection_properties_new_def)
qed

end
