(* ===== verification/Size.thy ===== *)
theory Size
  imports Header
begin

text \<open>
  How big an outgoing packet will be (src/crates/rusty_rtos_mqtt-core/src/size.rs): the
  calculators of the acknowledgement and the two list packets. Their arithmetic saturates at
  the width of the machine word; the lemmas show that it never has to, so that what is
  accepted is decided over the natural numbers.
\<close>

abbreviation (input) PINGREQ_PACKET_SIZE :: u32 where "PINGREQ_PACKET_SIZE \<equiv> 2"

record packet_size =
  ps_remaining_length :: u32
  ps_packet_size :: u32

datatype size_error = Size_BadParameter

datatype list_packet = LP_Subscribe | LP_Unsubscribe

definition ack_packet_size :: "u32 \<Rightarrow> nat \<Rightarrow> size_error + packet_size" where
  "ack_packet_size max_packet_size property_length =
     (if max_packet_size = 0 then Inl Size_BadParameter
      else case try_u32 property_length of
        None \<Rightarrow> Inl Size_BadParameter
      | Some property_length \<Rightarrow>
          if property_length > MAX_REMAINING_LENGTH then Inl Size_BadParameter
          else
            let remaining_length =
                  sat_add (sat_add 3 (variable_length_encoded_size property_length)) property_length
            in if remaining_length > MAX_REMAINING_LENGTH then Inl Size_BadParameter
               else let packet_size =
                 sat_add (sat_add remaining_length 1) (variable_length_encoded_size remaining_length)
               in if packet_size > max_packet_size then Inl Size_BadParameter
                  else Inr \<lparr>ps_remaining_length = remaining_length, ps_packet_size = packet_size\<rparr>)"

text \<open>The loop over the lengths; the iterator's emptiness is the flag \<open>any\<close>.\<close>

fun list_size_loop :: "list_packet \<Rightarrow> u32 \<Rightarrow> bool \<Rightarrow> nat list \<Rightarrow> size_error + (u32 \<times> bool)" where
  "list_size_loop kind remaining_length any [] = Inr (remaining_length, any)"
| "list_size_loop kind remaining_length any (len # lens) =
     (if try_u16 len = None then Inl Size_BadParameter
      else
        let len32 = (case try_u32 len of None \<Rightarrow> - 1 | Some n \<Rightarrow> n);
            remaining_length = sat_add (sat_add remaining_length len32) 2
        in if remaining_length \<ge> REMAINING_LENGTH_INVALID then Inl Size_BadParameter
           else list_size_loop kind
                  (if kind = LP_Subscribe then sat_add remaining_length 1 else remaining_length)
                  True lens)"

definition list_packet_size ::
    "list_packet \<Rightarrow> nat list \<Rightarrow> u32 \<Rightarrow> u32 \<Rightarrow> size_error + packet_size" where
  "list_packet_size kind topic_filter_lengths property_length max_packet_size =
     (if max_packet_size = 0 then Inl Size_BadParameter
      else if property_length > MAX_REMAINING_LENGTH then Inl Size_BadParameter
      else rbind (list_size_loop kind
          (sat_add (sat_add 2 property_length) (variable_length_encoded_size property_length))
          False topic_filter_lengths)
        (\<lambda>(remaining_length, any).
          if \<not> any then Inl Size_BadParameter
          else if remaining_length > MAX_REMAINING_LENGTH then Inl Size_BadParameter
          else let packet_size =
            sat_add (sat_add remaining_length 1) (variable_length_encoded_size remaining_length)
          in if packet_size > max_packet_size then Inl Size_BadParameter
             else Inr \<lparr>ps_remaining_length = remaining_length, ps_packet_size = packet_size\<rparr>))"

definition subscribe_packet_size :: "nat list \<Rightarrow> u32 \<Rightarrow> u32 \<Rightarrow> size_error + packet_size" where
  "subscribe_packet_size = list_packet_size LP_Subscribe"

definition unsubscribe_packet_size :: "nat list \<Rightarrow> u32 \<Rightarrow> u32 \<Rightarrow> size_error + packet_size" where
  "unsubscribe_packet_size = list_packet_size LP_Unsubscribe"

section \<open>The sizes over the natural numbers\<close>

text \<open>A body of \<open>n\<close> bytes as a packet: one type byte and the encoded length before it.\<close>

definition full_size :: "nat \<Rightarrow> nat" where
  "full_size n = n + 1 + length (vl_encode n)"

definition per_filter :: "list_packet \<Rightarrow> nat \<Rightarrow> nat" where
  "per_filter kind n = n + 2 + (if kind = LP_Subscribe then 1 else 0)"

definition list_body :: "list_packet \<Rightarrow> nat list \<Rightarrow> nat \<Rightarrow> nat" where
  "list_body kind lens pl = 2 + pl + length (vl_encode pl) + sum_list (map (per_filter kind) lens)"

definition sized :: "nat \<Rightarrow> u32 \<Rightarrow> packet_size \<Rightarrow> bool" where
  "sized n mx ps \<longleftrightarrow> n \<le> 268435455 \<and> full_size n \<le> unat mx \<and>
     unat (ps_remaining_length ps) = n \<and> unat (ps_packet_size ps) = full_size n"

lemma final_size:
  assumes "unat rl = n \<or> 268435455 < n \<and> 268435455 < unat rl"
  shows "(if rl > MAX_REMAINING_LENGTH then Inl Size_BadParameter
     else let p = sat_add (sat_add rl 1) (variable_length_encoded_size rl)
          in if p > mx then Inl Size_BadParameter
             else Inr \<lparr>ps_remaining_length = rl, ps_packet_size = p\<rparr>) = Inr ps \<longleftrightarrow> sized n mx ps"
proof (cases "n \<le> 268435455")
  case True
  then have u: "unat rl = n" using assms by auto
  then have e: "unat (variable_length_encoded_size rl) = length (vl_encode n)"
    using True by (simp add: unat_encoded_size)
  have "length (vl_encode n) \<le> 4" using True by (simp add: length_vl_encode)
  then have p: "unat (sat_add (sat_add rl 1) (variable_length_encoded_size rl)) = full_size n"
    using True u e by (simp add: unat_simps full_size_def)
  have r: "\<not> rl > MAX_REMAINING_LENGTH" using True u by (simp add: word_less_nat_alt)
  show ?thesis
    unfolding if_not_P [OF r] Let_def sized_def
    using True u p by (cases ps) (auto simp: word_less_nat_alt word_unat_eq_iff not_less)
next
  case False
  then have "rl > MAX_REMAINING_LENGTH" using assms by (auto simp: word_less_nat_alt)
  then show ?thesis using False by (simp add: sized_def)
qed

text \<open>The loop adds up, and a sum that would have saturated has been refused before.\<close>

lemma list_size_loop_sum:
  "list_size_loop kind rl any lens = Inr (rl', any') \<Longrightarrow> unat rl < 300000000 \<Longrightarrow>
   list_all (\<lambda>n. n < 65536) lens \<and> unat rl' = unat rl + sum_list (map (per_filter kind) lens) \<and>
   any' = (any \<or> lens \<noteq> [])"
proof (induction lens arbitrary: rl any)
  case (Cons len lens)
  let ?rl1 = "sat_add (sat_add rl (word_of_nat len)) 2"
  have len: "len < 65536" using Cons.prems(1) by (auto simp: try_u16_def split: if_splits)
  then have t: "try_u16 len \<noteq> None" "try_u32 len = Some (word_of_nat len)"
    by (simp_all add: try_u16_def try_u32_def)
  have u1: "unat ?rl1 = unat rl + len + 2"
    using len Cons.prems(2) by (simp add: unat_simps unat_u32_of_nat)
  have lim: "unat ?rl1 < 268435456"
    using Cons.prems(1) t by (auto simp: Let_def word_le_nat_alt split: if_splits)
  let ?rl2 = "if kind = LP_Subscribe then sat_add ?rl1 1 else ?rl1"
  have u2: "unat ?rl2 = unat rl + per_filter kind len"
    using u1 lim by (simp add: unat_simps per_filter_def)
  have "list_size_loop kind ?rl2 True lens = Inr (rl', any')"
    using Cons.prems(1) t lim by (auto simp: Let_def word_le_nat_alt split: if_splits)
  moreover have "unat ?rl2 < 300000000" using u1 u2 lim by (auto simp: per_filter_def)
  ultimately show ?case
    using Cons.IH [of ?rl2 True] len u2 by simp
qed auto

lemma list_size_loop_ok:
  "list_all (\<lambda>n. n < 65536) lens \<Longrightarrow>
   unat rl + sum_list (map (per_filter kind) lens) \<le> 268435455 \<Longrightarrow>
   \<exists>rl'. list_size_loop kind rl any lens = Inr (rl', any \<or> lens \<noteq> [])"
proof (induction lens arbitrary: rl any)
  case (Cons len lens)
  let ?rl1 = "sat_add (sat_add rl (word_of_nat len)) 2"
  have len: "len < 65536" using Cons.prems by simp
  then have t: "try_u16 len \<noteq> None" "try_u32 len = Some (word_of_nat len)"
    by (simp_all add: try_u16_def try_u32_def)
  have s: "unat rl + per_filter kind len + sum_list (map (per_filter kind) lens) \<le> 268435455"
    using Cons.prems by simp
  have u1: "unat ?rl1 = unat rl + len + 2"
    using len s by (simp add: unat_simps unat_u32_of_nat per_filter_def)
  let ?rl2 = "if kind = LP_Subscribe then sat_add ?rl1 1 else ?rl1"
  have u2: "unat ?rl2 = unat rl + per_filter kind len"
    using u1 s by (simp add: unat_simps per_filter_def)
  have "\<not> ?rl1 \<ge> REMAINING_LENGTH_INVALID"
    using u1 s by (simp add: word_le_nat_alt per_filter_def)
  then show ?case
    using Cons.IH [of ?rl2 True] Cons.prems(1) t s u2 by (simp add: Let_def)
qed simp

lemma list_packet_size_ok:
  "list_packet_size kind lens pl mx = Inr ps \<longleftrightarrow>
     mx \<noteq> 0 \<and> lens \<noteq> [] \<and> list_all (\<lambda>n. n < 65536) lens \<and> pl \<le> MAX_REMAINING_LENGTH \<and>
     sized (list_body kind lens (unat pl)) mx ps"
proof (cases "mx = 0 \<or> pl > MAX_REMAINING_LENGTH")
  case True
  then show ?thesis by (auto simp: list_packet_size_def)
next
  case False
  let ?rl0 = "sat_add (sat_add 2 pl) (variable_length_encoded_size pl)"
  have pl: "unat pl \<le> 268435455" using False by (simp add: not_less word_le_nat_alt)
  have e: "unat (variable_length_encoded_size pl) = length (vl_encode (unat pl))"
    using pl by (simp add: unat_encoded_size)
  have "length (vl_encode (unat pl)) \<le> 4" using pl by (simp add: length_vl_encode)
  then have r0: "unat ?rl0 = 2 + unat pl + length (vl_encode (unat pl))"
    using pl e by (simp add: unat_simps)
  have "list_packet_size kind lens pl mx = rbind (list_size_loop kind ?rl0 False lens)
      (\<lambda>(rl, any). if \<not> any then Inl Size_BadParameter
        else if rl > MAX_REMAINING_LENGTH then Inl Size_BadParameter
        else let p = sat_add (sat_add rl 1) (variable_length_encoded_size rl)
          in if p > mx then Inl Size_BadParameter
             else Inr \<lparr>ps_remaining_length = rl, ps_packet_size = p\<rparr>)"
    using False by (simp add: list_packet_size_def)
  note unfold = this
  show ?thesis
  proof (cases "list_size_loop kind ?rl0 False lens")
    case (Inl err)
    then have "\<not> (list_all (\<lambda>n. n < 65536) lens \<and> list_body kind lens (unat pl) \<le> 268435455)"
      using list_size_loop_ok [of lens ?rl0 kind False] r0 by (auto simp: list_body_def)
    then show ?thesis using Inl by (auto simp: unfold sized_def)
  next
    case (Inr p)
    obtain rl any where l: "list_size_loop kind ?rl0 False lens = Inr (rl, any)"
      using Inr by (cases p) simp
    have sum: "list_all (\<lambda>n. n < 65536) lens" "any = (lens \<noteq> [])"
      "unat rl = list_body kind lens (unat pl)"
      using list_size_loop_sum [OF l] r0 pl \<open>length (vl_encode (unat pl)) \<le> 4\<close>
      by (simp_all add: list_body_def)
    show ?thesis
      unfolding unfold l rbind_simps prod.case
      using sum(1,2) False final_size [of rl "list_body kind lens (unat pl)" mx ps] sum(3)
      by (simp add: not_less)
  qed
qed

text \<open>The size calculators never saturate and never refuse for it: a list packet is
  accepted exactly when there is a filter, every filter length fits two bytes, and the body
  (packet id, property section with its length, and for each filter its length prefix, its
  bytes and in a SUBSCRIBE its options) is within MQTT's limit and with its header within the
  maximum packet size, all as natural numbers; the two sizes are those numbers. The check
  inside the loop and the saturating additions change no answer.\<close>

theorem list_packet_size_iff:
  "list_packet_size kind lens pl mx = Inr ps \<longleftrightarrow>
     mx \<noteq> 0 \<and> lens \<noteq> [] \<and> list_all (\<lambda>n. n < 65536) lens \<and> unat pl \<le> 268435455 \<and>
     (let body = 2 + unat pl + length (vl_encode (unat pl))
                 + sum_list (map (\<lambda>n. n + 2 + (if kind = LP_Subscribe then 1 else 0)) lens)
      in body \<le> 268435455 \<and> body + 1 + length (vl_encode body) \<le> unat mx \<and>
         unat (ps_remaining_length ps) = body \<and>
         unat (ps_packet_size ps) = body + 1 + length (vl_encode body))"
proof -
  have b: "2 + unat pl + length (vl_encode (unat pl))
      + sum_list (map (\<lambda>n. n + 2 + (if kind = LP_Subscribe then 1 else 0)) lens)
    = list_body kind lens (unat pl)"
    by (simp add: list_body_def per_filter_def [abs_def])
  show ?thesis
    unfolding list_packet_size_ok b Let_def sized_def full_size_def list_all_iff word_le_nat_alt
    by simp
qed

lemma ack_packet_size_ok:
  "ack_packet_size mx pl = Inr ps \<longleftrightarrow>
     mx \<noteq> 0 \<and> pl \<le> 268435455 \<and> sized (3 + length (vl_encode pl) + pl) mx ps"
proof (cases "mx = 0 \<or> 268435455 < pl")
  case True
  then show ?thesis
    by (auto simp: ack_packet_size_def try_u32_def word_less_nat_alt unat_u32_of_nat
        split: option.split)
next
  case False
  let ?rl = "sat_add (sat_add 3 (variable_length_encoded_size (word_of_nat pl))) (word_of_nat pl)"
  have t: "try_u32 pl = Some (word_of_nat pl)" and u: "unat (word_of_nat pl :: u32) = pl"
    using False by (simp_all add: try_u32_def unat_u32_of_nat)
  have e: "unat (variable_length_encoded_size (word_of_nat pl)) = length (vl_encode pl)"
    using False u by (simp add: unat_encoded_size)
  have "length (vl_encode pl) \<le> 4" using False by (simp add: length_vl_encode)
  then have r: "unat ?rl = 3 + length (vl_encode pl) + pl"
    using False u e by (simp add: unat_simps)
  have n: "\<not> (word_of_nat pl :: u32) > MAX_REMAINING_LENGTH"
    using False u by (simp add: word_less_nat_alt)
  have "ack_packet_size mx pl = (if ?rl > MAX_REMAINING_LENGTH then Inl Size_BadParameter
     else let p = sat_add (sat_add ?rl 1) (variable_length_encoded_size ?rl)
          in if p > mx then Inl Size_BadParameter
             else Inr \<lparr>ps_remaining_length = ?rl, ps_packet_size = p\<rparr>)"
    using False by (simp add: ack_packet_size_def t n Let_def)
  then show ?thesis using final_size [of ?rl "3 + length (vl_encode pl) + pl" mx ps] r False by simp
qed

end
