(* ===== verification/Outbound.thy ===== *)
theory Outbound
  imports Ack Buffers Size
begin

text \<open>
  outbound.rs: SUBSCRIBE and UNSUBSCRIBE, the publish acknowledgements a client sends and
  PINGREQ. As in the other serializers the destination is passed in and returned.
\<close>

section \<open>Data\<close>

text \<open>The bits of the options byte (\<open>mod option\<close>).\<close>

abbreviation (input) OPTION_QOS1 :: nat where "OPTION_QOS1 \<equiv> 0"
abbreviation (input) OPTION_QOS2 :: nat where "OPTION_QOS2 \<equiv> 1"
abbreviation (input) NO_LOCAL :: nat where "NO_LOCAL \<equiv> 2"
abbreviation (input) RETAIN_AS_PUBLISHED :: nat where "RETAIN_AS_PUBLISHED \<equiv> 3"
abbreviation (input) RETAIN_HANDLING1 :: nat where "RETAIN_HANDLING1 \<equiv> 4"
abbreviation (input) RETAIN_HANDLING2 :: nat where "RETAIN_HANDLING2 \<equiv> 5"

abbreviation (input) SIMPLE_ACK_REMAINING_LENGTH :: byte where "SIMPLE_ACK_REMAINING_LENGTH \<equiv> 2"
abbreviation (input) PUBLISH_ACK_PACKET_SIZE :: nat where "PUBLISH_ACK_PACKET_SIZE \<equiv> 4"

datatype retain_handling = OnSubscribe | OnSubscribeIfNew | Never

record subscription =
  sb_topic_filter :: bytes
  sb_qos :: qos
  sb_no_local :: bool
  sb_retain_as_published :: bool
  sb_retain_handling :: retain_handling

datatype outbound_error = Outbound_BadParameter | Outbound_NoMemory

section \<open>SUBSCRIBE and UNSUBSCRIBE\<close>

fun validate_filters :: "subscription list \<Rightarrow> outbound_error + unit" where
  "validate_filters [] = Inr ()"
| "validate_filters (subscription # subscriptions) =
     (if sb_topic_filter subscription = [] then Inl Outbound_BadParameter
      else if length (sb_topic_filter subscription) > 65535 then Inl Outbound_BadParameter
      else validate_filters subscriptions)"

definition validate_list ::
    "subscription list \<Rightarrow> u16 \<Rightarrow> u32 \<Rightarrow> bytes \<Rightarrow> outbound_error + nat" where
  "validate_list subscriptions packet_id remaining_length destination =
     (if subscriptions = [] then Inl Outbound_BadParameter
      else if packet_id = 0 then Inl Outbound_BadParameter
      else if remaining_length \<ge> REMAINING_LENGTH_INVALID then Inl Outbound_BadParameter
      else let packet_size = unat (sat_add (sat_add remaining_length
                 (variable_length_encoded_size remaining_length)) 1)
      in if length destination < packet_size then Inl Outbound_NoMemory
      else rbind (validate_filters subscriptions) (\<lambda>_. Inr packet_size))"

definition subscription_options :: "subscription \<Rightarrow> byte" where
  "subscription_options subscription =
     (let options = (case sb_qos subscription of
            AtMostOnce \<Rightarrow> 0
          | AtLeastOnce \<Rightarrow> 0 OR push_bit OPTION_QOS1 1
          | ExactlyOnce \<Rightarrow> 0 OR push_bit OPTION_QOS2 1);
          options = (if sb_no_local subscription then options OR push_bit NO_LOCAL 1 else options);
          options = (if sb_retain_as_published subscription
                     then options OR push_bit RETAIN_AS_PUBLISHED 1 else options)
      in case sb_retain_handling subscription of
           OnSubscribe \<Rightarrow> options
         | OnSubscribeIfNew \<Rightarrow> options OR push_bit RETAIN_HANDLING1 1
         | Never \<Rightarrow> options OR push_bit RETAIN_HANDLING2 1)"

definition outbound_section_length :: "bytes \<Rightarrow> outbound_error + u32" where
  "outbound_section_length properties =
     rbind (ok_or Outbound_BadParameter (try_u32 (length properties))) (\<lambda>len.
       if len \<ge> REMAINING_LENGTH_INVALID then Inl Outbound_BadParameter else Inr len)"

definition outbound_put_section ::
    "bytes \<Rightarrow> nat \<Rightarrow> bytes \<Rightarrow> u32 \<Rightarrow> bytes \<times> (outbound_error + nat)" where
  "outbound_put_section = put_section_at Outbound_NoMemory"

definition outbound_put_string :: "bytes \<Rightarrow> nat \<Rightarrow> bytes \<Rightarrow> bytes \<times> (outbound_error + nat)" where
  "outbound_put_string = put_string_at Outbound_BadParameter Outbound_NoMemory"

text \<open>The two loops over the subscriptions.\<close>

fun put_subscriptions :: "subscription list \<Rightarrow> bytes \<Rightarrow> nat \<Rightarrow> bytes \<times> (outbound_error + nat)" where
  "put_subscriptions [] destination at = (destination, Inr at)"
| "put_subscriptions (subscription # subscriptions) destination at =
     wstep (outbound_put_string destination at (sb_topic_filter subscription)) (\<lambda>d at.
     wstep (copy_at Outbound_NoMemory d at [subscription_options subscription])
       (put_subscriptions subscriptions))"

fun put_filters :: "subscription list \<Rightarrow> bytes \<Rightarrow> nat \<Rightarrow> bytes \<times> (outbound_error + nat)" where
  "put_filters [] destination at = (destination, Inr at)"
| "put_filters (subscription # subscriptions) destination at =
     wstep (outbound_put_string destination at (sb_topic_filter subscription))
       (put_filters subscriptions)"

definition serialize_subscribe ::
    "bytes \<Rightarrow> subscription list \<Rightarrow> bytes \<Rightarrow> u16 \<Rightarrow> u32 \<Rightarrow> bytes \<times> (outbound_error + nat)" where
  "serialize_subscribe destination subscriptions properties packet_id remaining_length =
     (case outbound_section_length properties of
        Inl e \<Rightarrow> (destination, Inl e)
      | Inr property_length \<Rightarrow>
     (case validate_list subscriptions packet_id remaining_length destination of
        Inl e \<Rightarrow> (destination, Inl e)
      | Inr packet_size \<Rightarrow>
     (case serialize_subscribe_header destination remaining_length packet_id of
        (d, at) \<Rightarrow>
          if at = 0 then (d, Inl Outbound_NoMemory)
          else wstep (outbound_put_section d at properties property_length) (\<lambda>d at.
            wstep (put_subscriptions subscriptions d at) (\<lambda>d _. (d, Inr packet_size))))))"

definition serialize_unsubscribe ::
    "bytes \<Rightarrow> subscription list \<Rightarrow> bytes \<Rightarrow> u16 \<Rightarrow> u32 \<Rightarrow> bytes \<times> (outbound_error + nat)" where
  "serialize_unsubscribe destination subscriptions properties packet_id remaining_length =
     (case outbound_section_length properties of
        Inl e \<Rightarrow> (destination, Inl e)
      | Inr property_length \<Rightarrow>
     (case validate_list subscriptions packet_id remaining_length destination of
        Inl e \<Rightarrow> (destination, Inl e)
      | Inr packet_size \<Rightarrow>
     (case serialize_unsubscribe_header destination remaining_length packet_id of
        (d, at) \<Rightarrow>
          if at = 0 then (d, Inl Outbound_NoMemory)
          else wstep (outbound_put_section d at properties property_length) (\<lambda>d at.
            wstep (put_filters subscriptions d at) (\<lambda>d _. (d, Inr packet_size))))))"

section \<open>Acknowledgements and PINGREQ\<close>

definition ack_reason_code_allowed :: "byte \<Rightarrow> byte \<Rightarrow> bool" where
  "ack_reason_code_allowed packet_type reason_code =
     (if packet_type \<in> {PUBACK, PUBREC}
      then reason_code \<in> {0x00, 0x10, 0x80, 0x83, 0x87, 0x90, 0x91, 0x97, 0x99}
      else if packet_type \<in> {PUBREL, PUBCOMP} then reason_code \<in> {0x00, 0x92}
      else False)"

text \<open>From the store of the packet type on: the three shapes.\<close>

definition put_ack ::
    "bytes \<Rightarrow> byte \<Rightarrow> u16 \<Rightarrow> byte option \<Rightarrow> bytes \<Rightarrow> u32 \<Rightarrow> bytes \<times> (outbound_error + nat)" where
  "put_ack destination packet_type packet_id reason_code properties property_length =
     wstep (copy_at Outbound_NoMemory destination 0 [packet_type]) (\<lambda>d at.
     case reason_code of
       None \<Rightarrow>
         wstep (copy_at Outbound_NoMemory d 1 (SIMPLE_ACK_REMAINING_LENGTH # be16 packet_id))
           (\<lambda>d _. (d, Inr 4))
     | Some code \<Rightarrow>
         if length d < PUBLISH_ACK_PACKET_SIZE + 2 then (d, Inl Outbound_BadParameter)
         else if properties = [] then
           wstep (copy_at Outbound_NoMemory d 1
                    ((SIMPLE_ACK_REMAINING_LENGTH + 2) # be16 packet_id @ [code, 0]))
             (\<lambda>d _. (d, Inr 6))
         else let remaining_length = sat_add (sat_add 3 (variable_length_encoded_size property_length))
                    property_length
         in if remaining_length > MAX_REMAINING_LENGTH then (d, Inl Outbound_BadParameter)
         else let packet_size = unat (sat_add (sat_add remaining_length
                    (variable_length_encoded_size remaining_length)) 1)
         in if length d < packet_size then (d, Inl Outbound_BadParameter)
         else wstep (put_length_at Outbound_NoMemory d 1 remaining_length) (\<lambda>d at.
           wstep (copy_at Outbound_NoMemory d at (be16 packet_id @ [code])) (\<lambda>d at.
           wstep (outbound_put_section d at properties property_length) (\<lambda>d _.
             (d, Inr packet_size)))))"

definition serialize_ack ::
    "bytes \<Rightarrow> byte \<Rightarrow> u16 \<Rightarrow> byte option \<Rightarrow> bytes \<Rightarrow> bytes \<times> (outbound_error + nat)" where
  "serialize_ack destination packet_type packet_id reason_code properties =
     (if length destination < PUBLISH_ACK_PACKET_SIZE then (destination, Inl Outbound_NoMemory)
      else if packet_id = 0 then (destination, Inl Outbound_BadParameter)
      else if reason_code = None \<and> properties \<noteq> [] then (destination, Inl Outbound_BadParameter)
      else if (case reason_code of
             Some code \<Rightarrow> \<not> ack_reason_code_allowed packet_type code
           | None \<Rightarrow> packet_type \<notin> {PUBACK, PUBREC, PUBREL, PUBCOMP})
      then (destination, Inl Outbound_BadParameter)
      else case outbound_section_length properties of
        Inl e \<Rightarrow> (destination, Inl e)
      | Inr property_length \<Rightarrow>
          put_ack destination packet_type packet_id reason_code properties property_length)"

definition serialize_pingreq :: "bytes \<Rightarrow> bytes \<times> (outbound_error + nat)" where
  "serialize_pingreq destination = copy_at Outbound_NoMemory destination 0 PINGREQ"

section \<open>What is written\<close>

lemma outbound_section_length_ok:
  "outbound_section_length ps = Inr len \<longleftrightarrow>
     length ps < 268435456 \<and> len = word_of_nat (length ps)"
  by (auto simp: outbound_section_length_def try_u32_def unat_u32_of_nat word_le_nat_alt
      not_le rbind_eq_Inr split: if_splits)

lemma validate_filters_ok:
  "validate_filters ss = Inr () \<longleftrightarrow>
     list_all (\<lambda>s. sb_topic_filter s \<noteq> [] \<and> length (sb_topic_filter s) < 65536) ss"
  by (induction ss) auto

definition subscribe_payload :: "subscription list \<Rightarrow> bytes" where
  "subscribe_payload ss = concat (map (\<lambda>s. mqtt_string (sb_topic_filter s) @ [subscription_options s]) ss)"

definition unsubscribe_payload :: "subscription list \<Rightarrow> bytes" where
  "unsubscribe_payload ss = concat (map (\<lambda>s. mqtt_string (sb_topic_filter s)) ss)"

lemma put_subscriptions_appends:
  "list_all (\<lambda>s. length (sb_topic_filter s) < 65536) ss \<Longrightarrow>
   appends d (put_subscriptions ss) (subscribe_payload ss)"
proof (induction ss)
  case Nil
  then show ?case by (simp add: appends_def subscribe_payload_def)
next
  case (Cons s ss)
  have "appends d (\<lambda>d at. wstep (outbound_put_string d at (sb_topic_filter s)) (\<lambda>d at.
     wstep (copy_at Outbound_NoMemory d at [subscription_options s]) (put_subscriptions ss)))
     (mqtt_string (sb_topic_filter s) @ [subscription_options s] @ subscribe_payload ss)"
    unfolding outbound_put_string_def using Cons by (intro appends_intros) simp_all
  then show ?case by (simp add: subscribe_payload_def fun_eq_iff appends_def)
qed

lemma put_filters_appends:
  "list_all (\<lambda>s. length (sb_topic_filter s) < 65536) ss \<Longrightarrow>
   appends d (put_filters ss) (unsubscribe_payload ss)"
proof (induction ss)
  case Nil
  then show ?case by (simp add: appends_def unsubscribe_payload_def)
next
  case (Cons s ss)
  have "appends d (\<lambda>d at. wstep (outbound_put_string d at (sb_topic_filter s)) (put_filters ss))
     (mqtt_string (sb_topic_filter s) @ unsubscribe_payload ss)"
    unfolding outbound_put_string_def using Cons by (intro appends_intros) simp_all
  then show ?case by (simp add: unsubscribe_payload_def fun_eq_iff appends_def)
qed

lemma total_size:
  "unat rl < 268435456 \<Longrightarrow>
   unat (sat_add (sat_add rl (variable_length_encoded_size rl)) 1) = full_size (unat rl)"
  using length_vl_encode_le_4 [of "unat rl"]
  by (simp add: unat_sat_add unat_encoded_size full_size_def min_def)

lemma list_size_of_body:
  fixes i :: u16
  assumes "list_packet_size kind (map (\<lambda>s. length (sb_topic_filter s)) ss) pl mx = Inr ps"
    and "unat pl = length props"
  defines "body \<equiv> be16 i @ property_block props @
    (if kind = LP_Subscribe then subscribe_payload ss else unsubscribe_payload ss)"
  shows "ss \<noteq> []" "list_all (\<lambda>s. length (sb_topic_filter s) < 65536) ss"
    "length props < 268435456" "unat (ps_remaining_length ps) = length body"
    "length body < 268435456" "unat (ps_packet_size ps) = full_size (length body)"
proof -
  note ok = assms(1) [unfolded list_packet_size_ok sized_def]
  show "ss \<noteq> []" "list_all (\<lambda>s. length (sb_topic_filter s) < 65536) ss" "length props < 268435456"
    using ok assms(2) by (simp_all add: list_all_iff word_le_nat_alt)
  have "length body = list_body kind (map (\<lambda>s. length (sb_topic_filter s)) ss) (unat pl)"
    using assms(2)
    by (simp add: body_def list_body_def length_property_block subscribe_payload_def unsubscribe_payload_def
        length_concat per_filter_def o_def add.commute)
  then show "unat (ps_remaining_length ps) = length body" "length body < 268435456"
    "unat (ps_packet_size ps) = full_size (length body)"
    using ok by simp_all
qed

text \<open>The common tail of the two serializers, for a loop that appends the payload.\<close>

lemma list_tail:
  assumes "appends d loop pay" "length props < 268435456" "unat rl < 268435456"
    and "length (be16 i @ property_block props @ pay) = unat rl" "full_size (unat rl) \<le> length d"
  shows "(case serialize_id_header d t rl i of (d, at) \<Rightarrow>
       if at = 0 then (d, Inl Outbound_NoMemory)
       else wstep (outbound_put_section d at props (word_of_nat (length props))) (\<lambda>d at.
         wstep (loop d at) (\<lambda>d _. (d, Inr n)))) =
     (written d (t # vl_encode (unat rl) @ be16 i @ property_block props @ pay), Inr n)"
proof -
  let ?h = "t # vl_encode (unat rl) @ be16 i"
  have "rl \<le> MAX_REMAINING_LENGTH" using assms(3) by (simp add: word_le_nat_alt)
  then have h: "serialize_id_header d t rl i = (written d ?h, length ?h)"
    using assms(4,5) by (simp add: serialize_id_header_eq full_size_def Let_def)
  have "appends d (\<lambda>d at. wstep (outbound_put_section d at props (word_of_nat (length props))) loop)
      (property_block props @ pay)"
    unfolding outbound_put_section_def using assms(1,2) by (intro appends_intros) simp_all
  then have "wstep (outbound_put_section (written d ?h) (length ?h) props (word_of_nat (length props))) loop
      = (written d (?h @ property_block props @ pay), Inr (length ?h + length (property_block props @ pay)))"
    using assms(4,5) by (intro appendsD) (simp_all add: full_size_def)
  then show ?thesis
    unfolding h by (auto simp: wstep_def split: prod.splits sum.splits)
qed

lemma list_packets_ok:
  assumes "list_packet_size kind (map (\<lambda>s. length (sb_topic_filter s)) ss) pl mx = Inr ps"
    and "unat pl = length props"
    and "i \<noteq> 0" "list_all (\<lambda>s. sb_topic_filter s \<noteq> []) ss"
  defines "body \<equiv> be16 i @ property_block props @
    (if kind = LP_Subscribe then subscribe_payload ss else unsubscribe_payload ss)"
  defines "bs \<equiv> (if kind = LP_Subscribe then SUBSCRIBE else UNSUBSCRIBE) # vl_encode (length body) @ body"
  shows "(if kind = LP_Subscribe then serialize_subscribe else serialize_unsubscribe)
      d ss props i (ps_remaining_length ps) =
    (if length d < length bs then (d, Inl Outbound_NoMemory)
     else (written d bs, Inr (length bs)))"
proof -
  note sz = list_size_of_body(1,2,3) [OF assms(1,2)]
    list_size_of_body(4,5,6) [OF assms(1,2), of i, folded body_def]
  have len: "length bs = full_size (length body)" by (simp add: bs_def full_size_def)
  define n where "n = length bs"
  have sec: "outbound_section_length props = Inr (word_of_nat (length props))"
    using sz(3) by (simp add: outbound_section_length_ok)
  have "validate_filters ss = Inr ()"
    using sz(2) assms(4) by (simp add: validate_filters_ok list_all_iff)
  then have val: "validate_list ss i (ps_remaining_length ps) d =
      (if length d < n then Inl Outbound_NoMemory else Inr n)"
    using sz(1,4,5) assms(3) unfolding validate_list_def
    by (simp add: total_size len n_def word_le_nat_alt)
  have "(if kind = LP_Subscribe then serialize_subscribe else serialize_unsubscribe)
      d ss props i (ps_remaining_length ps) = (written d bs, Inr n)" if room: "\<not> length d < n"
  proof -
    have rl: "unat (ps_remaining_length ps) < 268435456"
      "full_size (unat (ps_remaining_length ps)) \<le> length d"
      using sz(4,5) room len by (simp_all add: n_def)
    note tail = list_tail [OF _ sz(3) rl(1) _ rl(2), where i = i and n = n]
    show ?thesis
      using room sz(4) tail [OF put_subscriptions_appends [OF sz(2)]] tail [OF put_filters_appends [OF sz(2)]]
      by (simp add: serialize_subscribe_def serialize_subscribe_header_def serialize_unsubscribe_def
          serialize_unsubscribe_header_def sec val body_def bs_def)
  qed
  moreover have "(if kind = LP_Subscribe then serialize_subscribe else serialize_unsubscribe)
      d ss props i (ps_remaining_length ps) = (d, Inl Outbound_NoMemory)" if "length d < n"
    using that by (simp add: serialize_subscribe_def serialize_unsubscribe_def sec val)
  ultimately show ?thesis unfolding n_def by (cases "length d < length bs") simp_all
qed

text \<open>SUBSCRIBE and UNSUBSCRIBE: for the remaining length the size calculator answered, an id
  other than zero and filters that are not empty, a destination shorter than the packet is
  left alone with \<open>NoMemory\<close>, and otherwise its front is the packet: type, length, id, property
  section and each filter with its length, in a SUBSCRIBE followed by its options byte. The
  answer is the number of bytes written, which is the computed packet size.\<close>

theorem list_packets_written:
  assumes "list_packet_size kind (map (\<lambda>s. length (sb_topic_filter s)) ss) pl mx = Inr ps"
    and "unat pl = length props" and "i \<noteq> 0" and "list_all (\<lambda>s. sb_topic_filter s \<noteq> []) ss"
  shows "(if kind = LP_Subscribe then serialize_subscribe else serialize_unsubscribe)
      d ss props i (ps_remaining_length ps) =
    (let body = be16 i @ property_block props @ concat (map (\<lambda>s. mqtt_string (sb_topic_filter s) @
           (if kind = LP_Subscribe then [subscription_options s] else [])) ss);
         bs = (if kind = LP_Subscribe then SUBSCRIBE else UNSUBSCRIBE) # vl_encode (length body) @ body
     in if length d < unat (ps_packet_size ps) then (d, Inl Outbound_NoMemory)
        else (bs @ drop (unat (ps_packet_size ps)) d, Inr (unat (ps_packet_size ps))))"
proof -
  define body where "body = be16 i @ property_block props @
    (if kind = LP_Subscribe then subscribe_payload ss else unsubscribe_payload ss)"
  have pay: "concat (map (\<lambda>s. mqtt_string (sb_topic_filter s) @
      (if kind = LP_Subscribe then [subscription_options s] else [])) ss) =
    (if kind = LP_Subscribe then subscribe_payload ss else unsubscribe_payload ss)"
    by (simp add: subscribe_payload_def unsubscribe_payload_def)
  have n: "unat (ps_packet_size ps) = length body + 1 + length (vl_encode (length body))"
    using list_size_of_body(6) [OF assms(1,2), of i] by (simp add: body_def full_size_def)
  show ?thesis
    using list_packets_ok [OF assms, of d]
    unfolding n pay Let_def body_def [symmetric]
    by (simp add: written_def splice_0 add.commute)
qed

section \<open>What an acknowledgement is\<close>

definition ack_body :: "u16 \<Rightarrow> byte option \<Rightarrow> bytes \<Rightarrow> bytes" where
  "ack_body i rc ps = be16 i @ (case rc of None \<Rightarrow> [] | Some c \<Rightarrow> c # property_block ps)"

definition ack_asked :: "byte \<Rightarrow> u16 \<Rightarrow> byte option \<Rightarrow> bytes \<Rightarrow> bool" where
  "ack_asked t i rc ps \<longleftrightarrow> i \<noteq> 0 \<and>
     (case rc of None \<Rightarrow> ps = [] \<and> t \<in> {PUBACK, PUBREC, PUBREL, PUBCOMP}
      | Some c \<Rightarrow> ack_reason_code_allowed t c) \<and>
     length (ack_body i rc ps) < 268435456"

lemma written_first: "d \<noteq> [] \<Longrightarrow> copy_at e d 0 [t] = (written d [t], Inr 1)"
  using copy_at_fills [of 0 "[]" "[t]" d e] by (cases d) simp_all

text \<open>The third shape, from the check of the remaining length on.\<close>

lemma put_ack_properties:
  fixes t c :: byte and i :: u16
  assumes "ps \<noteq> []" "length ps < 268435456" "6 \<le> length d"
  defines "bs \<equiv> t # vl_encode (length (ack_body i (Some c) ps)) @ ack_body i (Some c) ps"
  shows "put_ack d t i (Some c) ps (word_of_nat (length ps)) =
    (if length (ack_body i (Some c) ps) < 268435456 \<and> length bs \<le> length d
     then (written d bs, Inr (length bs)) else (written d [t], Inl Outbound_BadParameter))"
proof -
  let ?pl = "word_of_nat (length ps) :: u32"
  let ?rl = "sat_add (sat_add 3 (variable_length_encoded_size ?pl)) ?pl"
  define n where "n = length (ack_body i (Some c) ps)"
  have pl: "unat ?pl = length ps" using assms(2) by (simp add: unat_u32_of_nat)
  have le4: "length (vl_encode (length ps)) \<le> 4" using assms(2) by (rule length_vl_encode_le_4)
  have n: "n = 3 + length (vl_encode (length ps)) + length ps"
    by (simp add: n_def ack_body_def length_property_block)
  have rl: "unat ?rl = n"
    using assms(2) le4 pl by (simp add: n unat_sat_add unat_encoded_size min_def)
  have d: "d \<noteq> []" "length (written d [t]) = length d" using assms(3) by auto
  have big: "?rl > MAX_REMAINING_LENGTH \<longleftrightarrow> \<not> n < 268435456"
    using rl by (simp add: word_less_nat_alt not_less) linarith
  show ?thesis
  proof (cases "n < 268435456 \<and> length bs \<le> length d")
    case False
    have "length bs = full_size n" by (simp add: bs_def full_size_def n_def)
    then show ?thesis
      using False assms(1,3) big rl total_size [of ?rl] d
      by (auto simp: put_ack_def written_first Let_def n_def [symmetric])
  next
    case True
    have size: "unat (sat_add (sat_add ?rl (variable_length_encoded_size ?rl)) 1) = length bs"
      using True rl by (simp add: total_size bs_def full_size_def n_def)
    have "appends d (\<lambda>d at. wstep (put_length_at Outbound_NoMemory d at ?rl) (\<lambda>d at.
        wstep (copy_at Outbound_NoMemory d at (be16 i @ [c])) (\<lambda>d at.
        outbound_put_section d at ps ?pl)))
      (vl_encode (unat ?rl) @ (be16 i @ [c]) @ property_block ps)"
      unfolding outbound_put_section_def using True rl assms(2) by (intro appends_intros) simp_all
    from appendsD [OF this, of 1 "[t]"]
    have "wstep (put_length_at Outbound_NoMemory (written d [t]) 1 ?rl) (\<lambda>d at.
        wstep (copy_at Outbound_NoMemory d at (be16 i @ [c])) (\<lambda>d at.
        outbound_put_section d at ps ?pl)) = (written d bs, Inr (length bs))"
      using True by (simp add: rl bs_def n_def ack_body_def)
    then show ?thesis
      using True assms(1,3) big size d
      by (auto simp: put_ack_def written_first Let_def n_def [symmetric] wstep_def
          split: prod.splits sum.splits)
  qed
qed

lemma serialize_ack_ok:
  "serialize_ack d t i rc ps = (d', Inr n) \<longleftrightarrow> ack_asked t i rc ps \<and>
    (let bs = t # vl_encode (length (ack_body i rc ps)) @ ack_body i rc ps
     in n = length bs \<and> n \<le> length d \<and> d' = written d bs)"
proof (cases "length d < 4 \<or> i = 0 \<or> rc = None \<and> ps \<noteq> [] \<or> \<not> length ps < 268435456")
  case True
  have "length d < length (t # vl_encode (length (ack_body i rc ps)) @ ack_body i rc ps)"
    if "length d < 4"
  proof -
    have "2 \<le> length (ack_body i rc ps)" by (simp add: ack_body_def)
    then show ?thesis
      using that length_vl_encode_pos [of "length (ack_body i rc ps)"]
      unfolding length_Cons length_append by linarith
  qed
  moreover have "\<not> ack_asked t i rc ps" if "rc = None \<and> ps \<noteq> [] \<or> \<not> length ps < 268435456 \<or> i = 0"
    using that by (auto simp: ack_asked_def ack_body_def length_property_block split: option.splits)
  moreover have "outbound_section_length ps \<noteq> Inr len" if "\<not> length ps < 268435456" for len
    using that by (simp add: outbound_section_length_ok)
  ultimately show ?thesis
    using True by (auto simp: serialize_ack_def Let_def split: sum.splits option.splits)
next
  case False
  then have sec: "outbound_section_length ps = Inr (word_of_nat (length ps))"
    by (simp add: outbound_section_length_ok)
  have d: "d \<noteq> []" using False by auto
  show ?thesis
  proof (cases rc)
    case None
    have "copy_at Outbound_NoMemory (written d [t]) 1 (2 # be16 i) =
        (written d (t # 2 # be16 i), Inr 4)"
      using copy_at_fills [of 1 "[t]" "2 # be16 i" d Outbound_NoMemory] False by simp
    then show ?thesis
      using False None sec d
      by (auto simp: serialize_ack_def put_ack_def written_first ack_asked_def ack_body_def Let_def
          vl_encode_small)
  next
    case (Some c)
    show ?thesis
    proof (cases "ps = []")
      case True
      have "copy_at Outbound_NoMemory (written d [t]) 1 (4 # be16 i @ [c, 0]) =
          (written d (t # 4 # be16 i @ [c, 0]), Inr 6)" if "\<not> length d < 6"
        using copy_at_fills [of 1 "[t]" "4 # be16 i @ [c, 0]" d Outbound_NoMemory] that by simp
      then show ?thesis
        using False Some True sec d
        by (auto simp: serialize_ack_def put_ack_def written_first ack_asked_def ack_body_def Let_def
          vl_encode_small property_block_def)
    next
      case ps: False
      show ?thesis
      proof (cases "length d < 6")
        case True
        have "length d < length (t # vl_encode (length (ack_body i rc ps)) @ ack_body i rc ps)"
        proof -
          have "0 < length ps" using ps by simp
          moreover have "length (ack_body i rc ps) = 3 + (length (vl_encode (length ps)) + length ps)"
            by (simp add: ack_body_def Some length_property_block)
          ultimately have "5 \<le> length (ack_body i rc ps)"
            using length_vl_encode_pos [of "length ps"] by linarith
          then show ?thesis
            using True length_vl_encode_pos [of "length (ack_body i rc ps)"]
            unfolding length_Cons length_append by linarith
        qed
        then show ?thesis
          using False Some True ps sec d
          by (auto simp: serialize_ack_def put_ack_def written_first Let_def)
      next
        case room: False
        show ?thesis
          using False Some ps sec put_ack_properties [OF ps, of d t i c] room
          by (auto simp: serialize_ack_def ack_asked_def Let_def not_less)
      qed
    qed
  qed
qed

lemma ack_type_valid: "t \<in> {PUBACK, PUBREC, PUBREL, PUBCOMP} \<Longrightarrow> incoming_packet_valid t"
  by (auto simp: incoming_packet_valid_def VALID_def type_bit_def)

lemma ack_asked_type: "ack_asked t i rc ps \<Longrightarrow> t \<in> {PUBACK, PUBREC, PUBREL, PUBCOMP}"
  by (auto simp: ack_asked_def ack_reason_code_allowed_def split: option.splits if_splits)

lemma ack_code_allowed_ok: "ack_reason_code_allowed t c \<Longrightarrow> ack_code_ok c"
  by (auto simp: ack_reason_code_allowed_def ack_code_ok_def split: if_splits)

text \<open>An acknowledgement is written exactly when its id is not zero, its reason code is one
  the packet type may carry (without a code, there are no properties and the type is one of
  the four), the body is within MQTT's limit and the packet fits the destination; then the
  packet is at the front of the destination, the rest of it untouched, and the answer is the
  number of bytes. The short forms are the protocol's: without a code the body is the id
  alone, and with a code and no properties the section is the single byte zero.\<close>

theorem serialize_ack_iff:
  "serialize_ack d t i rc ps = (d', Inr n) \<longleftrightarrow> i \<noteq> 0 \<and>
    (case rc of None \<Rightarrow> ps = [] \<and> t \<in> {PUBACK, PUBREC, PUBREL, PUBCOMP}
     | Some c \<Rightarrow> ack_reason_code_allowed t c) \<and>
    (let body = be16 i @ (case rc of None \<Rightarrow> [] | Some c \<Rightarrow> c # property_block ps);
         bs = t # vl_encode (length body) @ body
     in length body < 268435456 \<and> n = length bs \<and> n \<le> length d \<and> d' = bs @ drop n d)"
  unfolding serialize_ack_ok ack_asked_def ack_body_def [symmetric] Let_def written_def splice_0
  by (auto simp del: length_append length_Cons)

text \<open>The three layouts read back, wherever they were written.\<close>

lemma ack_layout_read:
  assumes t: "t \<in> {PUBACK, PUBREC, PUBREL, PUBCOMP}" and i: "i \<noteq> 0"
    and c: "\<And>c. rc = Some c \<Longrightarrow> ack_code_ok c" "rc = None \<Longrightarrow> ps = []"
    and lim: "length (ack_body i rc ps) < 268435456"
    and bs: "bs = t # vl_encode (length (ack_body i rc ps)) @ ack_body i rc ps" "length bs \<le> length d"
    and l: "ack_section ps" "length bs \<le> unat (al_max_packet_size l)" "rc = None \<or> al_request_problem_info l"
  shows "\<exists>h. process_incoming_packet_type_and_length (written d bs) (length bs) = Inr h \<and> h_packet_type h = t \<and>
    deserialize_ack \<lparr>pi_packet_type = h_packet_type h, pi_remaining_length = h_remaining_length h,
      pi_remaining_data = drop (h_header_length h) (written d bs)\<rparr> l =
    Inr \<lparr>ai_packet_id = Some i, ai_reason_codes = (case rc of None \<Rightarrow> [] | Some c \<Rightarrow> [c]),
         ai_properties = ps\<rparr>"
proof -
  let ?body = "ack_body i rc ps"
  let ?p = "\<lparr>pi_packet_type = t, pi_remaining_length = word_of_nat (length ?body),
      pi_remaining_data = ?body @ drop (length bs) d\<rparr>"
  note hd = header_of_written [OF ack_type_valid [OF t] lim bs]
  have u: "unat (word_of_nat (length ?body) :: u32) = length ?body"
    using lim by (intro unat_u32_of_nat) linarith
  have body: "packet_body ?p = Some ?body" using u by (simp add: packet_body_def slice_eq_Some)
  have "unat (total_packet_size (word_of_nat (length ?body))) = length bs"
    unfolding total_packet_size_def bs(1) using total_size [of "word_of_nat (length ?body)"] lim
    by (simp only: u full_size_def length_Cons length_append)
  then have fits: "total_packet_size (word_of_nat (length ?body)) \<le> al_max_packet_size l"
    "al_max_packet_size l \<noteq> 0"
    using l(2) bs(1) by (auto simp: word_le_nat_alt)
  have "pi_packet_type ?p \<in> {PUBACK, PUBREC, PUBREL, PUBCOMP}" using t by simp
  from pub_ack_ok [OF this, of l]
  have "deserialize_ack ?p l = Inr \<lparr>ai_packet_id = Some i,
      ai_reason_codes = (case rc of None \<Rightarrow> [] | Some c \<Rightarrow> [c]), ai_properties = ps\<rparr>"
    unfolding body using fits i c l by (cases rc) (simp_all add: ack_body_def)
  then show ?thesis
    using hd by (intro exI [of _ "\<lparr>h_packet_type = t, h_remaining_length = word_of_nat (length ?body),
       h_header_length = length (vl_encode (length ?body)) + 1\<rparr>"]) simp
qed

text \<open>C35. What the client acknowledges with, a peer of the same code understands: an
  acknowledgement that was written is read back, through the fixed header reader and
  the acknowledgement reader, with its type, id, reason code and properties, when the reader
  allows its size and problem information and the section holds permitted properties. The
  writer's per-type reason codes are all within the reader's table of ten.\<close>

theorem ack_roundtrip:
  assumes "serialize_ack d t i rc ps = (d', Inr n)" and "ack_section ps"
    and "n \<le> unat (al_max_packet_size l)" and "rc = None \<or> al_request_problem_info l"
  shows "\<exists>h. process_incoming_packet_type_and_length d' n = Inr h \<and> h_packet_type h = t \<and>
    deserialize_ack \<lparr>pi_packet_type = h_packet_type h, pi_remaining_length = h_remaining_length h,
      pi_remaining_data = drop (h_header_length h) d'\<rparr> l =
    Inr \<lparr>ai_packet_id = Some i, ai_reason_codes = (case rc of None \<Rightarrow> [] | Some c \<Rightarrow> [c]),
         ai_properties = ps\<rparr>"
proof -
  let ?body = "ack_body i rc ps"
  let ?bs = "t # vl_encode (length ?body) @ ?body"
  from assms(1) have w: "ack_asked t i rc ps" "n = length ?bs" "length ?bs \<le> length d"
    "d' = written d ?bs"
    by (auto simp only: serialize_ack_ok Let_def)
  have "i \<noteq> 0" and "rc = Some c \<Longrightarrow> ack_code_ok c" "rc = None \<Longrightarrow> ps = []"
    and "length ?body < 268435456" for c
    using w(1) ack_code_allowed_ok by (auto simp: ack_asked_def)
  from ack_layout_read [OF ack_asked_type [OF w(1)] this refl w(3) assms(2) _ assms(4)] assms(3)
  show ?thesis unfolding w(2,4) by simp
qed

section \<open>The properties on concrete inputs\<close>

theorem list_packets_written_witness:
  "serialize_subscribe [0, 0, 0, 0, 0, 0, 0, 0, 0, 0, 0, 0]
     [\<lparr>sb_topic_filter = [65, 66], sb_qos = ExactlyOnce, sb_no_local = True,
       sb_retain_as_published = False, sb_retain_handling = Never\<rparr>] [] 9 8 =
   ([0x82, 8, 0, 9, 0, 0, 2, 65, 66, 0x26, 0, 0], Inr 10)"
proof -
  let ?s = "\<lparr>sb_topic_filter = [65, 66], sb_qos = ExactlyOnce, sb_no_local = True,
       sb_retain_as_published = False, sb_retain_handling = Never\<rparr>"
  have "list_packet_size LP_Subscribe (map (\<lambda>s. length (sb_topic_filter s)) [?s]) 0 100
      = Inr \<lparr>ps_remaining_length = 8, ps_packet_size = 10\<rparr>"
    by (simp add: list_packet_size_ok sized_def list_body_def per_filter_def full_size_def vl_encode_small)
  from list_packets_written [OF this, of "[]" 9 "[0, 0, 0, 0, 0, 0, 0, 0, 0, 0, 0, 0]"] show ?thesis
    by (simp add: Let_def property_block_def vl_encode_small subscription_options_def be16_def
        mqtt_string_def push_bit_eq_mult)
qed

theorem ack_roundtrip_witness:
  "\<exists>d' n h. serialize_ack [9, 9, 9, 9, 9, 9, 9] PUBACK 7 (Some 0x10) [] = (d', Inr n) \<and>
    process_incoming_packet_type_and_length d' n = Inr h \<and> h_packet_type h = PUBACK \<and>
    deserialize_ack \<lparr>pi_packet_type = h_packet_type h, pi_remaining_length = h_remaining_length h,
      pi_remaining_data = drop (h_header_length h) d'\<rparr>
      \<lparr>al_max_packet_size = 100, al_request_problem_info = True\<rparr> =
    Inr \<lparr>ai_packet_id = Some 7, ai_reason_codes = [0x10], ai_properties = []\<rparr>"
proof -
  have "\<exists>d'. serialize_ack [9, 9, 9, 9, 9, 9, 9] PUBACK 7 (Some 0x10) [] = (d', Inr 6)"
    by (simp add: serialize_ack_ok ack_asked_def ack_body_def ack_reason_code_allowed_def Let_def
        property_block_def vl_encode_small)
  then obtain d' where w: "serialize_ack [9, 9, 9, 9, 9, 9, 9] PUBACK 7 (Some 0x10) [] = (d', Inr 6)"
    by blast
  from ack_roundtrip [OF this, of "\<lparr>al_max_packet_size = 100, al_request_problem_info = True\<rparr>"] w
  show ?thesis by (intro exI [of _ d'] exI [of _ 6]) auto
qed

end
