(* ===== verification/Io.thy ===== *)
theory Io
  imports Header
begin

text \<open>
  Code that runs against a transport, a clock, a store and an application. An operation takes a
  state to its state afterwards with a value or an error, or does not return (\<open>None\<close>): a loop
  that waits for a clock or a transport may wait for ever. Sequencing is the question mark of
  the source; \<open>wlp\<close> is the weakest condition under which an operation, if it returns, ends as
  asked, and \<open>returns\<close> says that it does.
\<close>

type_synonym ('s, 'e, 'a) io = "'s \<Rightarrow> ('s \<times> ('e + 'a)) option"

definition io_return :: "'a \<Rightarrow> ('s, 'e, 'a) io" where
  "io_return a = (\<lambda>s. Some (s, Inr a))"

definition io_fail :: "'e \<Rightarrow> ('s, 'e, 'a) io" where
  "io_fail e = (\<lambda>s. Some (s, Inl e))"

text \<open>A value or error that is computed without touching the state, and its question mark.\<close>

definition io_lift :: "'e + 'a \<Rightarrow> ('s, 'e, 'a) io" where
  "io_lift x = (\<lambda>s. Some (s, x))"

definition io_get :: "('s \<Rightarrow> 'a) \<Rightarrow> ('s, 'e, 'a) io" where
  "io_get f = (\<lambda>s. Some (s, Inr (f s)))"

definition io_modify :: "('s \<Rightarrow> 's) \<Rightarrow> ('s, 'e, unit) io" where
  "io_modify f = (\<lambda>s. Some (f s, Inr ()))"

definition io_bind :: "('s, 'e, 'a) io \<Rightarrow> ('a \<Rightarrow> ('s, 'e, 'b) io) \<Rightarrow> ('s, 'e, 'b) io" where
  "io_bind m k = (\<lambda>s. Option.bind (m s) (\<lambda>(s', r). case r of
      Inl e \<Rightarrow> Some (s', Inl e) | Inr a \<Rightarrow> k a s'))"

text \<open>The outcome as a value: how a caller looks at an error instead of passing it on.\<close>

definition io_try :: "('s, 'e, 'a) io \<Rightarrow> ('s, 'e', 'e + 'a) io" where
  "io_try m = (\<lambda>s. map_option (\<lambda>(s', r). (s', Inr r)) (m s))"

definition io_map_err :: "('e \<Rightarrow> 'e') \<Rightarrow> ('s, 'e, 'a) io \<Rightarrow> ('s, 'e', 'a) io" where
  "io_map_err g m = (\<lambda>s. map_option (\<lambda>(s', r). (s', map_err g r)) (m s))"

text \<open>States are a context beside a world. A call into the world, a look at the context and a
  change of it.\<close>

definition in_world :: "('w, 'e, 'a) io \<Rightarrow> ('c \<times> 'w, 'e, 'a) io" where
  "in_world m = (\<lambda>(c, w). map_option (\<lambda>(w', r). ((c, w'), r)) (m w))"

definition world_call :: "('w \<Rightarrow> 'w \<times> 'a) \<Rightarrow> ('c \<times> 'w, 'e, 'a) io" where
  "world_call f = (\<lambda>(c, w). case f w of (w', a) \<Rightarrow> Some ((c, w'), Inr a))"

definition ctx :: "('c \<Rightarrow> 'a) \<Rightarrow> ('c \<times> 'w, 'e, 'a) io" where
  "ctx f = io_get (\<lambda>(c, w). f c)"

definition upd :: "('c \<Rightarrow> 'c) \<Rightarrow> ('c \<times> 'w, 'e, unit) io" where
  "upd f = io_modify (\<lambda>(c, w). (f c, w))"

text \<open>An update of the context that answers a value or an error.\<close>

definition upd_try :: "('c \<Rightarrow> 'c \<times> ('e + 'a)) \<Rightarrow> ('c \<times> 'w, 'e, 'a) io" where
  "upd_try f = (\<lambda>(c, w). case f c of (c', r) \<Rightarrow> Some ((c', w), r))"

lemmas io_defs = io_return_def io_fail_def io_lift_def io_get_def io_modify_def io_bind_def
  io_try_def io_map_err_def in_world_def world_call_def ctx_def upd_def upd_try_def

section \<open>Monotonicity, for loops that may not return\<close>

abbreviation mono_io :: "(('a \<Rightarrow> 'b option) \<Rightarrow> 'c option) \<Rightarrow> bool" where
  "mono_io \<equiv> monotone (fun_ord option_ord) option_ord"

lemma io_bind_mono [partial_function_mono]:
  assumes "\<And>s. mono_io (\<lambda>f. m f s)" "\<And>a s. mono_io (\<lambda>f. k a f s)"
  shows "mono_io (\<lambda>f. io_bind (m f) (\<lambda>a. k a f) s)"
  unfolding io_bind_def
proof (rule bind_mono)
  show "mono_io (\<lambda>f. m f s)" by (rule assms(1))
  show "mono_io (\<lambda>f. case p of (s', r) \<Rightarrow> (case r of Inl e \<Rightarrow> Some (s', Inl e) | Inr a \<Rightarrow> k a f s'))" for p
    by (cases p; cases "snd p") (auto intro: assms(2) option.const_mono)
qed

section \<open>What an operation does when it returns\<close>

definition wlp :: "('s, 'e, 'a) io \<Rightarrow> ('s \<Rightarrow> 'e + 'a \<Rightarrow> bool) \<Rightarrow> 's \<Rightarrow> bool" where
  "wlp m Q s \<longleftrightarrow> (case m s of None \<Rightarrow> True | Some (s', r) \<Rightarrow> Q s' r)"

definition returns :: "('s, 'e, 'a) io \<Rightarrow> 's \<Rightarrow> bool" where
  "returns m s \<longleftrightarrow> m s \<noteq> None"

named_theorems wlp_simps "the weakest condition of each combinator"

lemma wlp_basic [wlp_simps]:
  "wlp (io_return a) Q s \<longleftrightarrow> Q s (Inr a)"
  "wlp (io_fail e) Q s \<longleftrightarrow> Q s (Inl e)"
  "wlp (io_lift x) Q s \<longleftrightarrow> Q s x"
  "wlp (io_get f) Q' s \<longleftrightarrow> Q' s (Inr (f s))"
  "wlp (io_modify g) R s \<longleftrightarrow> R (g s) (Inr ())"
  by (simp_all add: wlp_def io_defs)

lemma wlp_bind [wlp_simps]:
  "wlp (io_bind m k) Q s \<longleftrightarrow>
     wlp m (\<lambda>s' r. case r of Inl e \<Rightarrow> Q s' (Inl e) | Inr a \<Rightarrow> wlp (k a) Q s') s"
  by (auto simp: wlp_def io_bind_def split: option.split prod.split sum.split)

lemma wlp_try [wlp_simps]: "wlp (io_try m) Q s \<longleftrightarrow> wlp m (\<lambda>s' r. Q s' (Inr r)) s"
  by (simp add: wlp_def io_try_def split: option.split prod.split)

lemma wlp_map_err [wlp_simps]:
  "wlp (io_map_err g m) Q s \<longleftrightarrow> wlp m (\<lambda>s' r. Q s' (map_err g r)) s"
  by (simp add: wlp_def io_map_err_def split: option.split prod.split)

lemma wlp_context [wlp_simps]:
  "wlp (in_world m) Q (c, w) \<longleftrightarrow> wlp m (\<lambda>w' r. Q (c, w') r) w"
  "wlp (world_call f) Q1 (c, w) \<longleftrightarrow> (case f w of (w', a) \<Rightarrow> Q1 (c, w') (Inr a))"
  "wlp (ctx g) Q2 (c, w) \<longleftrightarrow> Q2 (c, w) (Inr (g c))"
  "wlp (upd h) Q3 (c, w) \<longleftrightarrow> Q3 (h c, w) (Inr ())"
  "wlp (upd_try u) Q4 (c, w) \<longleftrightarrow> (case u c of (c', r) \<Rightarrow> Q4 (c', w) r)"
  by (auto simp: wlp_def io_defs split: option.split prod.split)

lemma wlp_if [wlp_simps]: "wlp (if b then m else m') Q s \<longleftrightarrow> (if b then wlp m Q s else wlp m' Q s)"
  by simp

lemma wlp_conseq: "wlp m Q s \<Longrightarrow> (\<And>s' r. Q s' r \<Longrightarrow> R s' r) \<Longrightarrow> wlp m R s"
  by (auto simp: wlp_def split: option.split)

text \<open>What the first does, and from there what the second does.\<close>

lemma wlp_bindI:
  assumes "wlp m P s" "\<And>s' a. P s' (Inr a) \<Longrightarrow> wlp (k a) Q s'" "\<And>s' e. P s' (Inl e) \<Longrightarrow> Q s' (Inl e)"
  shows "wlp (io_bind m k) Q s"
  unfolding wlp_bind by (rule wlp_conseq [OF assms(1)]) (auto split: sum.split intro: assms(2,3))

lemma wlp_world_call: "f w = (w', a) \<Longrightarrow> wlp (k a) Q (c, w') \<Longrightarrow> wlp (io_bind (world_call f) k) Q (c, w)"
  by (simp add: wlp_simps)

lemma wlp_ctx: "wlp (k (f c)) Q (c, w) \<Longrightarrow> wlp (io_bind (ctx f) k) Q (c, w)"
  by (simp add: wlp_simps)

lemma wlp_upd: "wlp (k ()) Q (f c, w) \<Longrightarrow> wlp (io_bind (upd f) k) Q (c, w)"
  by (simp add: wlp_simps)

lemma wlp_lift:
  "(\<And>a. x = Inr a \<Longrightarrow> wlp (k a) Q s) \<Longrightarrow> (\<And>e. x = Inl e \<Longrightarrow> Q s (Inl e)) \<Longrightarrow> wlp (io_bind (io_lift x) k) Q s"
  by (cases x) (simp_all add: wlp_simps)

lemma wlp_True [simp]: "wlp m (\<lambda>_ _. True) s"
  by (simp add: wlp_def split: option.split)

lemma wlpI: "(\<And>s' r. m s = Some (s', r) \<Longrightarrow> Q s' r) \<Longrightarrow> wlp m Q s"
  by (auto simp: wlp_def split: option.split)

lemma wlpD: "wlp m Q s \<Longrightarrow> m s = Some (s', r) \<Longrightarrow> Q s' r"
  by (simp add: wlp_def)

lemma wlp_conj: "wlp m Q s \<Longrightarrow> wlp m R s \<Longrightarrow> wlp m (\<lambda>s' r. Q s' r \<and> R s' r) s"
  by (auto simp: wlp_def split: option.split)

section \<open>That an operation returns\<close>

named_theorems returns_simps "when each combinator returns"

lemma returns_basic [returns_simps]:
  "returns (io_return a) s" "returns (io_fail e) s" "returns (io_lift x) s"
  "returns (io_get f) s" "returns (io_modify g) s"
  by (simp_all add: returns_def io_defs)

lemma returns_bind [returns_simps]:
  "returns (io_bind m k) s \<longleftrightarrow>
     returns m s \<and> wlp m (\<lambda>s' r. case r of Inl e \<Rightarrow> True | Inr a \<Rightarrow> returns (k a) s') s"
  by (auto simp: returns_def wlp_def io_bind_def split: option.splits prod.splits sum.splits)

lemma returns_wrapped [returns_simps]:
  "returns (io_try m) s \<longleftrightarrow> returns m s"
  "returns (io_map_err g m) s \<longleftrightarrow> returns m s"
  by (simp_all add: returns_def io_try_def io_map_err_def)

lemma returns_context [returns_simps]:
  "returns (in_world m') (c, w) \<longleftrightarrow> returns m' w"
  "returns (world_call f) (c, w)" "returns (ctx g) (c, w)" "returns (upd h) (c, w)"
  "returns (upd_try u) (c, w)"
  by (simp_all add: returns_def io_defs split: prod.split)

lemma returns_if [returns_simps]:
  "returns (if b then m else m') s \<longleftrightarrow> (if b then returns m s else returns m' s)"
  by simp

lemma returns_bindI:
  "returns m s \<Longrightarrow> (\<And>a s'. m s = Some (s', Inr a) \<Longrightarrow> returns (k a) s') \<Longrightarrow> returns (io_bind m k) s"
  by (auto simp: returns_def io_bind_def split: sum.split)

lemma returnsE: "returns m s \<Longrightarrow> (\<And>s' r. m s = Some (s', r) \<Longrightarrow> P) \<Longrightarrow> P"
  by (auto simp: returns_def)

section \<open>Loops\<close>

text \<open>A loop whose body ends with a result (\<open>Inl\<close>) or goes round again with a new value of what
  it counts (\<open>Inr\<close>). It may go round for ever.\<close>

partial_function (option) rounds ::
    "('x \<Rightarrow> ('s, 'r, 'x) io) \<Rightarrow> 'x \<Rightarrow> 's \<Rightarrow> ('s \<times> ('e + 'r)) option" where
  "rounds body x s = Option.bind (body x s) (\<lambda>(s', r). case r of
      Inl a \<Rightarrow> Some (s', Inr a) | Inr x' \<Rightarrow> rounds body x' s')"

lemma rounds_induct [consumes 1, case_names round]:
  assumes "rounds body x s = Some y"
    and "\<And>f body x s y. (\<And>x s b y. f x s b = Some y \<Longrightarrow> P x s b y) \<Longrightarrow>
      Option.bind (body x s) (\<lambda>(s', r). case r of Inl a \<Rightarrow> Some (s', Inr a) | Inr x' \<Rightarrow> f body x' s') = Some y
      \<Longrightarrow> P body x s y"
  shows "P body x s y"
  by (rule rounds.raw_induct [of P "((body, x), s)" y, unfolded prod.case]) (fact assms)+

text \<open>What a body keeps, the loop keeps.\<close>

lemma wlp_rounds:
  fixes Q :: "'s \<Rightarrow> 'e + 'r \<Rightarrow> bool"
  assumes step: "\<And>x s. I x s \<Longrightarrow>
      wlp (body x) (\<lambda>s' r. case r of Inl a \<Rightarrow> Q s' (Inr a) | Inr x' \<Rightarrow> I x' s') s"
    and start: "I x s"
  shows "wlp (rounds body x) Q s"
proof (rule wlpI)
  fix s' and r :: "'e + 'r"
  assume "rounds body x s = Some (s', r)"
  then have "body = body \<longrightarrow> I x s \<longrightarrow> Q (fst (s', r)) (snd (s', r))"
  proof (induction rule: rounds_induct [where P = "\<lambda>b x s y. b = body \<longrightarrow> I x s \<longrightarrow> Q (fst y) (snd y)"])
    case (round f b x s y)
    show ?case
    proof (intro impI)
      assume b: "b = body" and i: "I x s"
      from round.hyps obtain t q where run: "body x s = Some (t, q)"
        "(case q of Inl a \<Rightarrow> Some (t, Inr a) | Inr x' \<Rightarrow> f body x' t) = Some y"
        unfolding b by (auto simp: bind_eq_Some_conv)
      have w: "case q of Inl a \<Rightarrow> Q t (Inr a) | Inr x' \<Rightarrow> I x' t"
        using wlpD [OF step [OF i] run(1)] .
      show "Q (fst y) (snd y)"
      proof (cases q)
        case (Inl a)
        then show ?thesis using run(2) w by auto
      next
        case (Inr x')
        then show ?thesis using run(2) w round.IH [of body x' t y] by auto
      qed
    qed
  qed
  then show "Q s' r" using start by simp
qed

text \<open>A loop ends when every turn of it does and comes down an order that is well founded.\<close>

lemma returns_rounds:
  assumes "wf R"
    and step: "\<And>x s. I x s \<Longrightarrow> returns (body x) s \<and>
      wlp (body x) (\<lambda>s' r. case r of Inl a \<Rightarrow> True | Inr x' \<Rightarrow> I x' s' \<and> ((x', s'), (x, s)) \<in> R) s"
    and start: "I x s"
  shows "returns (rounds body x) s"
  using start
proof (induction "(x, s)" arbitrary: x s rule: wf_induct_rule [OF assms(1)])
  case 1
  from step [OF 1(2)] obtain t q where run: "body x s = Some (t, q)"
    by (auto elim: returnsE)
  have w: "case q of Inl a \<Rightarrow> True | Inr x' \<Rightarrow> I x' t \<and> ((x', t), (x, s)) \<in> R"
    using wlpD [OF conjunct2 [OF step [OF 1(2)]] run] .
  show ?case
  proof (cases q)
    case (Inl a)
    then show ?thesis by (simp add: returns_def rounds.simps [of body x s] run)
  next
    case (Inr x')
    then show ?thesis using w 1(1) [of x' t]
      by (simp add: returns_def rounds.simps [of body x s] run)
  qed
qed

text \<open>One that keeps going round never does.\<close>

lemma rounds_forever:
  assumes "\<And>x s. I x s \<Longrightarrow> wlp (body x) (\<lambda>s' r. case r of Inl a \<Rightarrow> False | Inr x' \<Rightarrow> I x' s') s"
    and "I x s"
  shows "rounds body x s = None"
proof -
  have "wlp (rounds body x) (\<lambda>_ _. False) s"
    using assms by (rule wlp_rounds)
  then show ?thesis by (auto simp: wlp_def split: option.splits)
qed

end
