(* ===== verification/Reader.thy ===== *)
theory Reader
  imports Io Property
begin

text \<open>
  reader.rs: the transport, a parameter of everything that sends or receives, and the fixed
  header read from it a byte at a time. A transport is what its implementation makes of a
  world of its own; \<open>recv\<close> gets the buffer to fill and hands it back.
\<close>

section \<open>The transport\<close>

datatype received = Received_Byte byte | Received_Nothing | Received_Failed

datatype recv = Recv_Bytes nat | Recv_Nothing | Recv_Failed

datatype sent = Sent_Bytes nat | Sent_Nothing | Sent_Failed

record 'w transport =
  tr_recv :: "bytes \<Rightarrow> 'w \<Rightarrow> 'w \<times> bytes \<times> recv"
  tr_recv_one :: "'w \<Rightarrow> 'w \<times> received"
  tr_send :: "bytes \<Rightarrow> 'w \<Rightarrow> 'w \<times> sent"
  tr_writev :: "bytes list \<Rightarrow> 'w \<Rightarrow> 'w \<times> sent"

text \<open>The provided methods: what a transport does that implements \<open>recv\<close> and \<open>send\<close> only.\<close>

definition recv_one_default :: "(bytes \<Rightarrow> 'w \<Rightarrow> 'w \<times> bytes \<times> recv) \<Rightarrow> 'w \<Rightarrow> 'w \<times> received" where
  "recv_one_default recv w =
     (case recv [0] w of
        (w', byte, Recv_Bytes n) \<Rightarrow>
          if n = 0 then (w', Received_Nothing)
          else (case byte of b # _ \<Rightarrow> (w', Received_Byte b) | [] \<Rightarrow> (w', Received_Nothing))
      | (w', byte, Recv_Nothing) \<Rightarrow> (w', Received_Nothing)
      | (w', byte, Recv_Failed) \<Rightarrow> (w', Received_Failed))"

definition writev_default :: "(bytes \<Rightarrow> 'w \<Rightarrow> 'w \<times> sent) \<Rightarrow> bytes list \<Rightarrow> 'w \<Rightarrow> 'w \<times> sent" where
  "writev_default send parts w =
     (case parts of first # _ \<Rightarrow> send first w | [] \<Rightarrow> (w, Sent_Nothing))"

section \<open>The header\<close>

record incoming_header =
  ih_packet_type :: byte
  ih_remaining_length :: u32
  ih_header_length :: nat

datatype read_error = Read_NoDataAvailable | Read_RecvFailed | Read_BadResponse

partial_function (option) read_length_loop ::
    "'w transport \<Rightarrow> u32 \<Rightarrow> u32 \<Rightarrow> nat \<Rightarrow> 'w \<Rightarrow> ('w \<times> (read_error + u32 \<times> nat)) option" where
  "read_length_loop transport remaining_length multiplier bytes_decoded w =
     (if multiplier > 2097152 then Some (w, Inl Read_BadResponse)
      else case tr_recv_one transport w of
        (w', Received_Byte byte) \<Rightarrow>
          (let remaining_length =
                 sat_add remaining_length (sat_mul (ucast (byte AND 0x7F)) multiplier);
               multiplier = sat_mul multiplier 128;
               bytes_decoded = bytes_decoded + 1
           in if byte AND 0x80 = 0 then Some (w', Inr (remaining_length, bytes_decoded))
              else read_length_loop transport remaining_length multiplier bytes_decoded w')
      | (w', _) \<Rightarrow> Some (w', Inl Read_BadResponse))"

definition read_remaining_length :: "'w transport \<Rightarrow> ('w, read_error, u32 \<times> nat) io" where
  "read_remaining_length transport =
     io_bind (read_length_loop transport 0 1 0) (\<lambda>(remaining_length, bytes_decoded).
       if remaining_length \<ge> REMAINING_LENGTH_INVALID then io_fail Read_BadResponse
       else if bytes_decoded \<noteq> unat (variable_length_encoded_size remaining_length)
       then io_fail Read_BadResponse
       else io_return (remaining_length, bytes_decoded))"

definition read_packet_type :: "'w transport \<Rightarrow> ('w, read_error, byte) io" where
  "read_packet_type transport = (\<lambda>w. case tr_recv_one transport w of
     (w', Received_Byte byte) \<Rightarrow> Some (w', Inr byte)
   | (w', Received_Nothing) \<Rightarrow> Some (w', Inl Read_NoDataAvailable)
   | (w', Received_Failed) \<Rightarrow> Some (w', Inl Read_RecvFailed))"

definition read_header :: "'w transport \<Rightarrow> ('w, read_error, incoming_header) io" where
  "read_header transport =
     io_bind (read_packet_type transport) (\<lambda>packet_type.
       if \<not> incoming_packet_valid packet_type then io_fail Read_BadResponse
       else io_bind (read_remaining_length transport) (\<lambda>(remaining_length, bytes_decoded).
         io_return \<lparr>ih_packet_type = packet_type, ih_remaining_length = remaining_length,
                    ih_header_length = bytes_decoded + 1\<rparr>))"

section \<open>It returns, whatever the transport does\<close>

lemma read_length_loop_returns:
  "k \<le> 4 \<Longrightarrow> read_length_loop tr rl (word_of_nat (128 ^ k)) n w \<noteq> None"
proof (induction "4 - k" arbitrary: k rl n w)
  case 0
  then have "k = 4" by simp
  then show ?case by (subst read_length_loop.simps) simp
next
  case (Suc j)
  then have k: "k < 4" "j = 4 - Suc k" by auto
  have m: "sat_mul (word_of_nat (128 ^ k)) 128 = (word_of_nat (128 ^ Suc k) :: u32)"
    by (rule saturating_digit(4) [OF k(1), of 0]) simp
  show ?case
    using Suc.hyps(1) [OF k(2)] k(1)
    by (subst read_length_loop.simps)
      (simp only: m Let_def split: prod.split received.split if_split, auto)
qed

lemma read_header_returns: "read_header tr w \<noteq> None"
proof -
  have loop: "returns (read_length_loop tr 0 1 0) w'" for w'
    using read_length_loop_returns [of 0 tr 0 0 w'] by (simp add: returns_def)
  have rem: "returns (read_remaining_length tr) w'" for w'
    unfolding read_remaining_length_def
    by (intro returns_bindI loop) (simp add: returns_simps split: prod.split)
  have "returns (read_packet_type tr) w"
    by (simp add: returns_def read_packet_type_def split: prod.split received.split)
  then have "returns (read_header tr) w"
    unfolding read_header_def
    by (rule returns_bindI)
      (auto simp: returns_basic split: prod.split intro!: returns_bindI rem)
  then show ?thesis by (simp add: returns_def)
qed

section \<open>A transport that delivers a stream\<close>

text \<open>\<open>queued w\<close> are the bytes that have arrived and were not read.\<close>

definition delivers :: "'w transport \<Rightarrow> ('w \<Rightarrow> bytes) \<Rightarrow> bool" where
  "delivers tr queued \<longleftrightarrow> (\<forall>w. case tr_recv_one tr w of (w', r) \<Rightarrow>
     queued w' = drop 1 (queued w) \<and>
     r = (case queued w of [] \<Rightarrow> Received_Nothing | b # _ \<Rightarrow> Received_Byte b))"

fun read_outcome :: "nat \<Rightarrow> nat \<Rightarrow> vl_result \<Rightarrow> read_error + (u32 \<times> nat)" where
  "read_outcome acc k (Vl_Done v n) = Inr (word_of_nat (acc + 128 ^ k * v), k + n)"
| "read_outcome acc k Vl_Truncated = Inl Read_BadResponse"
| "read_outcome acc k Vl_TooLong = Inl Read_BadResponse"

fun vl_used :: "nat \<Rightarrow> bytes \<Rightarrow> nat" where
  "vl_used 0 bs = 0"
| "vl_used (Suc k) [] = 0"
| "vl_used (Suc k) (b # bs) = (if unat b < 128 then 1 else Suc (vl_used k bs))"

lemma read_length_loop_scan:
  assumes "delivers tr queued"
  shows "k \<le> 4 \<Longrightarrow> acc < 128 ^ k \<Longrightarrow>
    \<exists>w'. read_length_loop tr (word_of_nat acc) (word_of_nat (128 ^ k)) k w =
      Some (w', read_outcome acc k (vl_scan (4 - k) (queued w))) \<and>
      queued w' = drop (vl_used (4 - k) (queued w)) (queued w)"
proof (induction "4 - k" arbitrary: k acc w)
  case 0
  then have "k = 4" by simp
  then show ?case by (subst read_length_loop.simps) simp
next
  case (Suc j)
  then have k: "k < 4" and jk: "4 - k = Suc j" "j = 4 - Suc k" by auto
  note dig = saturating_digit [OF k Suc.prems(2)]
  obtain w1 r where one: "tr_recv_one tr w = (w1, r)" by (cases "tr_recv_one tr w")
  have "case tr_recv_one tr w of (w', r) \<Rightarrow> queued w' = drop 1 (queued w) \<and>
      r = (case queued w of [] \<Rightarrow> Received_Nothing | b # _ \<Rightarrow> Received_Byte b)"
    using assms unfolding delivers_def by (rule spec)
  then have r: "r = (case queued w of [] \<Rightarrow> Received_Nothing | b # _ \<Rightarrow> Received_Byte b)"
    "queued w1 = drop 1 (queued w)"
    by (simp_all only: one prod.case)
  show ?case
  proof (cases "queued w")
    case Nil
    then show ?thesis
      using r by (subst read_length_loop.simps) (simp only: if_not_P [OF dig(1)] one jk, simp)
  next
    case (Cons b bs)
    have b128: "unat b mod 128 = (if unat b < 128 then unat b else unat b - 128)"
      using unat_lt8 [of b] by (cases "unat b < 128") (simp_all add: le_mod_geq del: unat_lt8)
    have step: "read_length_loop tr (word_of_nat acc) (word_of_nat (128 ^ k)) k w =
      (if unat b < 128 then Some (w1, Inr (word_of_nat (acc + 128 ^ k * (unat b mod 128)), k + 1))
       else read_length_loop tr (word_of_nat (acc + 128 ^ k * (unat b mod 128)))
              (word_of_nat (128 ^ Suc k)) (k + 1) w1)"
      by (subst read_length_loop.simps)
        (simp only: if_not_P [OF dig(1)] one r(1) Cons list.case prod.case received.case Let_def
          dig(2) dig(4) byte_high_bit)
    show ?thesis
    proof (cases "unat b < 128")
      case True
      then show ?thesis using Cons r(2) by (simp add: step b128 jk(1) del: of_nat_add of_nat_mult of_nat_power)
    next
      case False
      have acc': "acc + 128 ^ k * (unat b - 128) < 128 ^ Suc k"
        using Suc.prems(2) by (rule digit_bound)
      obtain w' where w': "read_length_loop tr (word_of_nat (acc + 128 ^ k * (unat b - 128)))
          (word_of_nat (128 ^ Suc k)) (Suc k) w1 =
          Some (w', read_outcome (acc + 128 ^ k * (unat b - 128)) (Suc k) (vl_scan j bs))"
        "queued w' = drop (vl_used j bs) bs"
      proof -
        have "\<exists>w'. read_length_loop tr (word_of_nat (acc + 128 ^ k * (unat b - 128)))
            (word_of_nat (128 ^ Suc k)) (Suc k) w1 =
          Some (w', read_outcome (acc + 128 ^ k * (unat b - 128)) (Suc k) (vl_scan (4 - Suc k) (queued w1))) \<and>
          queued w' = drop (vl_used (4 - Suc k) (queued w1)) (queued w1)"
          using k by (intro Suc.hyps(1) [OF jk(2) _ acc']) simp
        then show thesis using that r(2) unfolding Cons jk(2) [symmetric] by (auto simp only: drop_Suc_Cons drop_0 One_nat_def)
      qed
      have out: "read_outcome (acc + 128 ^ k * (unat b - 128)) (Suc k) (vl_scan j bs)
          = read_outcome acc k (vl_scan (Suc j) (b # bs))"
        using False
        by (cases "vl_scan j bs")
          (simp_all only: read_outcome.simps vl_scan.simps if_False vl_result.case add_Suc
            add_Suc_right digit_value)
      have "read_length_loop tr (word_of_nat acc) (word_of_nat (128 ^ k)) k w =
          Some (w', read_outcome acc k (vl_scan (Suc j) (b # bs)))"
        by (simp only: step b128 if_not_P [OF False] Suc_eq_plus1 [symmetric] w'(1) out)
      moreover have "queued w' = drop (vl_used (Suc j) (b # bs)) (b # bs)"
        by (simp only: w'(2) vl_used.simps if_not_P [OF False] drop_Suc_Cons)
      ultimately show ?thesis unfolding jk(1) Cons by blast
    qed
  qed
qed

lemma vl_scan_used: "vl_scan k bs = Vl_Done v n \<Longrightarrow> vl_used k bs = n"
  by (induction k bs arbitrary: v n rule: vl_scan.induct) (auto split: if_splits vl_result.splits)

lemma read_remaining_length_scan:
  assumes "delivers tr queued"
  shows "\<exists>w'. read_remaining_length tr w = Some (w', case vl_scan 4 (queued w) of
      Vl_Done v n \<Rightarrow> if n \<noteq> length (vl_encode v) then Inl Read_BadResponse else Inr (word_of_nat v, n)
    | _ \<Rightarrow> Inl Read_BadResponse) \<and>
    queued w' = drop (vl_used 4 (queued w)) (queued w)"
proof -
  obtain w' where loop: "read_length_loop tr 0 1 0 w = Some (w', read_outcome 0 0 (vl_scan 4 (queued w)))"
    "queued w' = drop (vl_used 4 (queued w)) (queued w)"
    using read_length_loop_scan [OF assms, of 0 0 w] by auto
  have "read_remaining_length tr w = Some (w', case vl_scan 4 (queued w) of
      Vl_Done v n \<Rightarrow> if n \<noteq> length (vl_encode v) then Inl Read_BadResponse else Inr (word_of_nat v, n)
    | _ \<Rightarrow> Inl Read_BadResponse)"
  proof (cases "vl_scan 4 (queued w)")
    case (Vl_Done v n)
    have v: "v < 268435456" using Vl_Done by (rule vl_scan_4_less)
    then have u: "unat (word_of_nat v :: u32) = v" by (intro unat_u32_of_nat) linarith
    have "\<not> (word_of_nat v :: u32) \<ge> REMAINING_LENGTH_INVALID"
      using v by (simp add: word_le_nat_alt u)
    moreover have "unat (variable_length_encoded_size (word_of_nat v)) = length (vl_encode v)"
      using v u by (simp add: unat_encoded_size)
    ultimately show ?thesis
      using loop(1) Vl_Done by (simp add: read_remaining_length_def io_bind_def io_fail_def io_return_def)
  qed (use loop(1) in \<open>simp_all add: read_remaining_length_def io_bind_def\<close>)
  then show ?thesis using loop(2) by blast
qed

text \<open>C38. The two readers of a fixed header. On a transport that delivers a stream of bytes, the
  reader that pulls them one at a time always returns, and what it answers is what the
  buffered reader answers on the bytes that have arrived: the same header, with exactly its
  bytes taken from the stream; no data, with nothing taken; a bad response for a bad header.
  They part in one place: a header that is not complete yet is a bad response here, where
  the buffered reader asks for more bytes.\<close>

theorem header_readers_agree:
  assumes "delivers tr queued"
  shows "\<exists>w' r. read_header tr w = Some (w', r) \<and>
    (case process_incoming_packet_type_and_length (queued w) (length (queued w)) of
       Inr h \<Rightarrow> r = Inr \<lparr>ih_packet_type = h_packet_type h, ih_remaining_length = h_remaining_length h,
                     ih_header_length = h_header_length h\<rparr> \<and>
                queued w' = drop (h_header_length h) (queued w)
     | Inl H_NoDataAvailable \<Rightarrow> r = Inl Read_NoDataAvailable \<and> queued w' = queued w
     | Inl H_NeedMoreBytes \<Rightarrow> r = Inl Read_BadResponse
     | Inl H_BadResponse \<Rightarrow> r = Inl Read_BadResponse)"
proof (cases "queued w")
  case Nil
  obtain w1 r1 where one: "tr_recv_one tr w = (w1, r1)" by (cases "tr_recv_one tr w")
  have "case tr_recv_one tr w of (w', r) \<Rightarrow> queued w' = drop 1 (queued w) \<and>
      r = (case queued w of [] \<Rightarrow> Received_Nothing | b # _ \<Rightarrow> Received_Byte b)"
    using assms unfolding delivers_def by (rule spec)
  then show ?thesis
    using Nil one
    by (simp add: read_header_def read_packet_type_def io_bind_def process_incoming_packet_type_and_length_def)
next
  case (Cons t bs)
  obtain w1 r1 where one: "tr_recv_one tr w = (w1, r1)" by (cases "tr_recv_one tr w")
  have "case tr_recv_one tr w of (w', r) \<Rightarrow> queued w' = drop 1 (queued w) \<and>
      r = (case queued w of [] \<Rightarrow> Received_Nothing | b # _ \<Rightarrow> Received_Byte b)"
    using assms unfolding delivers_def by (rule spec)
  then have q: "r1 = Received_Byte t" "queued w1 = bs" using Cons one by simp_all
  have ty: "read_packet_type tr w = Some (w1, Inr t)" by (simp add: read_packet_type_def one q)
  obtain w2 where rem: "read_remaining_length tr w1 = Some (w2, case vl_scan 4 bs of
      Vl_Done v n \<Rightarrow> if n \<noteq> length (vl_encode v) then Inl Read_BadResponse else Inr (word_of_nat v, n)
    | _ \<Rightarrow> Inl Read_BadResponse)" "queued w2 = drop (vl_used 4 bs) bs"
    using read_remaining_length_scan [OF assms, of w1] unfolding q by blast
  show ?thesis
  proof (cases "incoming_packet_valid t")
    case False
    then show ?thesis
      by (simp add: read_header_def io_bind_def ty io_fail_def Cons process_incoming_unfold)
  next
    case True
    then show ?thesis
      using rem vl_scan_used [of 4 bs]
      by (cases "vl_scan 4 bs")
        (simp_all add: read_header_def io_bind_def ty io_return_def Cons process_incoming_unfold
          split: if_splits)
  qed
qed

text \<open>A transport over a list of bytes, one that implements \<open>recv\<close> and \<open>send\<close> only.\<close>

definition list_recv :: "bytes \<Rightarrow> bytes \<Rightarrow> bytes \<times> bytes \<times> recv" where
  "list_recv into w = (let n = min (length into) (length w) in
     (drop n w, take n w @ drop n into, if n = 0 then Recv_Nothing else Recv_Bytes n))"

definition list_transport :: "bytes transport" where
  "list_transport = \<lparr>tr_recv = list_recv, tr_recv_one = recv_one_default list_recv,
     tr_send = (\<lambda>bs w. (w, Sent_Bytes (length bs))),
     tr_writev = writev_default (\<lambda>bs w. (w, Sent_Bytes (length bs)))\<rparr>"

lemma list_transport_delivers: "delivers list_transport (\<lambda>w. w)"
  by (auto simp: delivers_def list_transport_def recv_one_default_def list_recv_def Let_def
      split: list.split)

theorem header_readers_agree_witness:
  "\<exists>w'. read_header list_transport [0x40, 2, 0, 7] = Some (w', Inr \<lparr>ih_packet_type = 0x40,
     ih_remaining_length = 2, ih_header_length = 2\<rparr>) \<and> w' = [0, 7]"
proof -
  have "process_incoming_packet_type_and_length [0x40, 2, 0, 7] (length [0x40, 2, 0, 7 :: byte]) =
      Inr \<lparr>h_packet_type = 0x40, h_remaining_length = 2, h_header_length = 2\<rparr>"
  proof -
    have "vl_scan (Suc 3) [2, 0, 7] = Vl_Done 2 1" by (simp only: vl_scan.simps) simp
    moreover have "Suc 3 = 4" by simp
    ultimately have "vl_scan 4 [2, 0, 7] = Vl_Done 2 1" by metis
    then show ?thesis
      by (simp add: process_incoming_unfold incoming_packet_valid_def VALID_def type_bit_def
          vl_encode_small)
  qed
  then show ?thesis
    using header_readers_agree [OF list_transport_delivers, of "[0x40, 2, 0, 7]"]
    by (simp only: sum.case) simp
qed

end
