(* ===== verification/Connect.thy ===== *)
theory Connect
  imports Buffers Size
begin

text \<open>
  The CONNECT (src/crates/rusty_rtos_mqtt-core/src/connect.rs): its size and the serializer of
  the whole packet, with the will between the client identifier and the credentials.
\<close>

abbreviation (input) CONNECT_HEADER_SIZE :: u32 where "CONNECT_HEADER_SIZE \<equiv> 10"
abbreviation (input) MAX_FIELD :: nat where "MAX_FIELD \<equiv> 65535"

record last_will =
  wl_info :: will_info
  wl_topic_name :: bytes
  wl_payload :: bytes
  wl_properties :: bytes

record connect =
  cn_info :: connect_info
  cn_client_identifier :: bytes
  cn_properties :: bytes
  cn_will :: "last_will option"

record connect_size =
  cz_remaining_length :: u32
  cz_packet_size :: u32

datatype connect_error = Connect_BadParameter | Connect_NoMemory

definition within_remaining_length :: "u32 \<Rightarrow> bool" where
  "within_remaining_length len \<longleftrightarrow> len \<le> MAX_REMAINING_LENGTH"

definition connect_section_length :: "bytes \<Rightarrow> connect_error + u32" where
  "connect_section_length properties =
     rbind (ok_or Connect_BadParameter (try_u32 (length properties))) (\<lambda>len.
       if len > MAX_REMAINING_LENGTH then Inl Connect_BadParameter else Inr len)"

definition field :: "nat \<Rightarrow> u32" where
  "field len = sat_add (case try_u32 len of None \<Rightarrow> - 1 | Some n \<Rightarrow> n) 2"

text \<open>\<open>is_some_and(|x| x.len() > MAX_FIELD)\<close>.\<close>

definition too_long :: "bytes option \<Rightarrow> bool" where
  "too_long x \<longleftrightarrow> (case x of None \<Rightarrow> False | Some v \<Rightarrow> length v > MAX_FIELD)"

definition connect_packet_size :: "connect \<Rightarrow> connect_error + connect_size" where
  "connect_packet_size c =
     (if get_at (cn_client_identifier c) 0 = Some 0 then Inl Connect_BadParameter
      else if length (cn_client_identifier c) > MAX_FIELD then Inl Connect_BadParameter
      else if too_long (ci_username (cn_info c)) then Inl Connect_BadParameter
      else if too_long (ci_password (cn_info c)) then Inl Connect_BadParameter
      else if (case cn_will c of None \<Rightarrow> False | Some w \<Rightarrow>
          length (wl_payload w) > MAX_FIELD \<or> length (wl_topic_name w) > MAX_FIELD)
      then Inl Connect_BadParameter
      else rbind (connect_section_length (cn_properties c)) (\<lambda>property_length.
        rbind (case cn_will c of None \<Rightarrow> Inr 0
               | Some w \<Rightarrow> connect_section_length (wl_properties w)) (\<lambda>will_property_length.
        let len = sat_add (sat_add (sat_add CONNECT_HEADER_SIZE property_length)
                    (variable_length_encoded_size property_length))
                    (field (length (cn_client_identifier c)));
            len = (case cn_will c of None \<Rightarrow> len | Some w \<Rightarrow>
                    sat_add (sat_add (sat_add (sat_add len will_property_length)
                      (variable_length_encoded_size will_property_length))
                      (field (length (wl_topic_name w))))
                      (field (length (wl_payload w))));
            len = (case ci_username (cn_info c) of None \<Rightarrow> len
                   | Some u \<Rightarrow> sat_add len (field (length u)));
            len = (case ci_password (cn_info c) of None \<Rightarrow> len
                   | Some p \<Rightarrow> sat_add len (field (length p)))
        in if \<not> within_remaining_length len then Inl Connect_BadParameter
           else Inr \<lparr>cz_remaining_length = len,
                     cz_packet_size = sat_add (sat_add len (variable_length_encoded_size len)) 1\<rparr>)))"

definition connect_put_section :: "bytes \<Rightarrow> nat \<Rightarrow> bytes \<Rightarrow> bytes \<times> (connect_error + nat)" where
  "connect_put_section destination at sec =
     (case connect_section_length sec of
        Inl e \<Rightarrow> (destination, Inl e)
      | Inr len \<Rightarrow> put_section_at Connect_NoMemory destination at sec len)"

definition connect_put_string :: "bytes \<Rightarrow> nat \<Rightarrow> bytes \<Rightarrow> bytes \<times> (connect_error + nat)" where
  "connect_put_string = put_string_at Connect_BadParameter Connect_NoMemory"

definition serialize_connect :: "bytes \<Rightarrow> connect \<Rightarrow> u32 \<Rightarrow> bytes \<times> (connect_error + nat)" where
  "serialize_connect destination c remaining_length =
     (if length (cn_client_identifier c) > MAX_FIELD \<or> too_long (ci_username (cn_info c)) \<or>
         too_long (ci_password (cn_info c)) \<or>
         (case cn_will c of None \<Rightarrow> False | Some w \<Rightarrow> length (wl_topic_name w) > MAX_FIELD)
      then (destination, Inl Connect_BadParameter)
      else let packet_size = sat_add (sat_add remaining_length
                 (variable_length_encoded_size remaining_length)) 1
      in if length destination < unat packet_size then (destination, Inl Connect_NoMemory)
      else case serialize_connect_fixed_header destination (cn_info c)
                  (map_option wl_info (cn_will c)) remaining_length of
        (d, at) \<Rightarrow>
          if at = 0 then (d, Inl Connect_NoMemory)
          else wstep (connect_put_section d at (cn_properties c)) (\<lambda>d at.
            wstep (connect_put_string d at (cn_client_identifier c)) (\<lambda>d at.
            wstep (case cn_will c of None \<Rightarrow> (d, Inr at) | Some w \<Rightarrow>
                wstep (connect_put_section d at (wl_properties w)) (\<lambda>d at.
                wstep (connect_put_string d at (wl_topic_name w)) (\<lambda>d at.
                connect_put_string d at (wl_payload w)))) (\<lambda>d at.
            wstep (case ci_username (cn_info c) of None \<Rightarrow> (d, Inr at)
                   | Some u \<Rightarrow> connect_put_string d at u) (\<lambda>d at.
            (case ci_password (cn_info c) of None \<Rightarrow> (d, Inr at)
             | Some p \<Rightarrow> connect_put_string d at p))))))"

section \<open>What the serializer appends\<close>

definition connect_payload :: "connect \<Rightarrow> bytes" where
  "connect_payload c = property_block (cn_properties c) @ mqtt_string (cn_client_identifier c) @
     (case cn_will c of None \<Rightarrow> [] | Some w \<Rightarrow> property_block (wl_properties w) @
        mqtt_string (wl_topic_name w) @ mqtt_string (wl_payload w)) @
     (case ci_username (cn_info c) of None \<Rightarrow> [] | Some u \<Rightarrow> mqtt_string u) @
     (case ci_password (cn_info c) of None \<Rightarrow> [] | Some p \<Rightarrow> mqtt_string p)"

definition connect_body :: "connect \<Rightarrow> bytes" where
  "connect_body c = [0, 4, 0x4D, 0x51, 0x54, 0x54, VERSION_5,
       connect_flags (cn_info c) (map_option wl_info (cn_will c))]
     @ be16 (ci_keep_alive_seconds (cn_info c)) @ connect_payload c"

definition connect_fits :: "connect \<Rightarrow> bool" where
  "connect_fits c \<longleftrightarrow> length (cn_client_identifier c) < 65536 \<and>
     length (cn_properties c) < 268435456 \<and>
     (case ci_username (cn_info c) of None \<Rightarrow> True | Some u \<Rightarrow> length u < 65536) \<and>
     (case ci_password (cn_info c) of None \<Rightarrow> True | Some p \<Rightarrow> length p < 65536) \<and>
     (case cn_will c of None \<Rightarrow> True | Some w \<Rightarrow> length (wl_topic_name w) < 65536 \<and>
        length (wl_payload w) < 65536 \<and> length (wl_properties w) < 268435456)"

lemma connect_section_length_ok:
  "connect_section_length sec = Inr len \<longleftrightarrow>
     length sec < 268435456 \<and> len = word_of_nat (length sec)"
proof -
  have "unat len = length sec \<and> unat len < 268435456 \<longleftrightarrow>
      length sec < 268435456 \<and> len = word_of_nat (length sec)"
    by (auto simp: unat_u32_of_nat intro: word_of_unat)
  then show ?thesis
    by (auto simp: connect_section_length_def rbind_eq_Inr ok_or_eq_Inr try_u32_eq_Some
        guard_eq_Inr word_less_nat_alt)
qed

lemma appends_connect_section [appends_intros]:
  "length sec < 268435456 \<Longrightarrow> appends d (\<lambda>d at. connect_put_section d at sec) (property_block sec)"
proof -
  assume a: "length sec < 268435456"
  then have l: "connect_section_length sec = Inr (word_of_nat (length sec))"
    by (simp add: connect_section_length_ok)
  show ?thesis unfolding connect_put_section_def l sum.case using a by (intro appends_section refl)
qed

lemma appends_connect_string [appends_intros]:
  "length v < 65536 \<Longrightarrow> appends d (\<lambda>d at. connect_put_string d at v) (mqtt_string v)"
  unfolding connect_put_string_def by (rule appends_string)

lemma appends_connect_payload:
  "connect_fits c \<Longrightarrow> appends d (\<lambda>d at.
     wstep (connect_put_section d at (cn_properties c)) (\<lambda>d at.
       wstep (connect_put_string d at (cn_client_identifier c)) (\<lambda>d at.
       wstep (case cn_will c of None \<Rightarrow> (d, Inr at) | Some w \<Rightarrow>
           wstep (connect_put_section d at (wl_properties w)) (\<lambda>d at.
           wstep (connect_put_string d at (wl_topic_name w)) (\<lambda>d at.
           connect_put_string d at (wl_payload w)))) (\<lambda>d at.
       wstep (case ci_username (cn_info c) of None \<Rightarrow> (d, Inr at)
              | Some u \<Rightarrow> connect_put_string d at u) (\<lambda>d at.
       (case ci_password (cn_info c) of None \<Rightarrow> (d, Inr at)
        | Some p \<Rightarrow> connect_put_string d at p)))))) (connect_payload c)"
  unfolding connect_payload_def
  by (intro appends_intros) (simp_all add: connect_fits_def)

text \<open>The length of the body, as the calculator adds it up.\<close>

lemma unat_field: "n < 65536 \<Longrightarrow> unat (field n) = n + 2"
  by (simp add: field_def try_u32_def unat_sat_add unat_u32_of_nat)

definition connect_length :: "connect \<Rightarrow> u32" where
  "connect_length c =
     (let len = sat_add (sat_add (sat_add CONNECT_HEADER_SIZE (word_of_nat (length (cn_properties c))))
                    (variable_length_encoded_size (word_of_nat (length (cn_properties c)))))
                    (field (length (cn_client_identifier c)));
          len = (case cn_will c of None \<Rightarrow> len | Some w \<Rightarrow>
                    sat_add (sat_add (sat_add (sat_add len (word_of_nat (length (wl_properties w))))
                      (variable_length_encoded_size (word_of_nat (length (wl_properties w)))))
                      (field (length (wl_topic_name w))))
                      (field (length (wl_payload w))));
          len = (case ci_username (cn_info c) of None \<Rightarrow> len
                   | Some u \<Rightarrow> sat_add len (field (length u)));
          len = (case ci_password (cn_info c) of None \<Rightarrow> len
                   | Some p \<Rightarrow> sat_add len (field (length p)))
      in len)"

lemma unat_connect_length:
  assumes "connect_fits c"
  shows "unat (connect_length c) = length (connect_body c)"
proof -
  have sec: "unat (word_of_nat (length sec) :: u32) = length sec"
    "unat (variable_length_encoded_size (word_of_nat (length sec))) = length (vl_encode (length sec))"
    "length (vl_encode (length sec)) \<le> 4" if "length sec < 268435456" for sec
    using that by (simp_all add: unat_u32_of_nat unat_encoded_size length_vl_encode_le_4)
  have pr: "length (cn_properties c) < 268435456" and ci: "length (cn_client_identifier c) < 65536"
    using assms by (simp_all add: connect_fits_def)
  have w: "length (wl_topic_name w) < 65536" "length (wl_payload w) < 65536"
    "length (wl_properties w) < 268435456" if "cn_will c = Some w" for w
    using assms that by (simp_all add: connect_fits_def)
  have u: "length u < 65536" if "ci_username (cn_info c) = Some u" for u
    using assms that by (simp add: connect_fits_def)
  have p: "length p < 65536" if "ci_password (cn_info c) = Some p" for p
    using assms that by (simp add: connect_fits_def)
  define base where "base = 10 + length (property_block (cn_properties c))
    + length (mqtt_string (cn_client_identifier c))"
  define wlen where "wlen = (case cn_will c of None \<Rightarrow> 0 | Some w \<Rightarrow>
    length (property_block (wl_properties w)) + length (mqtt_string (wl_topic_name w))
      + length (mqtt_string (wl_payload w)))"
  define ulen where "ulen = (case ci_username (cn_info c) of None \<Rightarrow> 0 | Some u \<Rightarrow> length u + 2)"
  define plen where "plen = (case ci_password (cn_info c) of None \<Rightarrow> 0 | Some p \<Rightarrow> length p + 2)"
  have body: "length (connect_body c) = base + wlen + ulen + plen"
    unfolding connect_body_def connect_payload_def base_def wlen_def ulen_def plen_def
    by (simp split: option.split)
  define L1 where "L1 = sat_add (sat_add (sat_add CONNECT_HEADER_SIZE
       (word_of_nat (length (cn_properties c))))
       (variable_length_encoded_size (word_of_nat (length (cn_properties c)))))
       (field (length (cn_client_identifier c)))"
  define L2 where "L2 = (case cn_will c of None \<Rightarrow> L1 | Some w \<Rightarrow>
       sat_add (sat_add (sat_add (sat_add L1 (word_of_nat (length (wl_properties w))))
         (variable_length_encoded_size (word_of_nat (length (wl_properties w)))))
         (field (length (wl_topic_name w)))) (field (length (wl_payload w))))"
  define L3 where "L3 = (case ci_username (cn_info c) of None \<Rightarrow> L2
       | Some u \<Rightarrow> sat_add L2 (field (length u)))"
  have l1: "unat L1 = base" "base < 268600000"
    unfolding L1_def unat_sat_add sec(1,2) [OF pr] unat_field [OF ci] base_def
    using pr ci sec(3) [OF pr] by (simp_all add: length_property_block min_def)
  have l2: "unat L2 = base + wlen" "wlen < 268600000"
  proof -
    have "unat L2 = base + wlen \<and> wlen < 268600000"
    proof (cases "cn_will c")
      case None
      then show ?thesis using l1 by (simp add: wlen_def L2_def)
    next
      case (Some w)
      note s = sec [OF w(3) [OF Some]]
      show ?thesis
        unfolding L2_def wlen_def Some option.case unat_sat_add s(1,2) l1(1)
          unat_field [OF w(1) [OF Some]] unat_field [OF w(2) [OF Some]] length_property_block
          length_mqtt_string
        using s(3) w [OF Some] l1(2) by (simp add: min_def)
    qed
    then show "unat L2 = base + wlen" "wlen < 268600000" by simp_all
  qed
  have l3: "unat L3 = base + wlen + ulen" "ulen < 65538"
    using l1(2) l2(2) u
    by (auto simp: L3_def ulen_def unat_sat_add l2(1) unat_field min_def split: option.split)
  have "unat (case ci_password (cn_info c) of None \<Rightarrow> L3 | Some p \<Rightarrow> sat_add L3 (field (length p)))
      = base + wlen + ulen + plen"
    using l1(2) l2(2) l3 p by (auto simp: plen_def unat_sat_add unat_field min_def split: option.split)
  then have "unat (connect_length c) = base + wlen + ulen + plen"
    unfolding connect_length_def Let_def L3_def L2_def L1_def .
  then show ?thesis by (simp add: body)
qed

lemma connect_guards:
  "connect_fits c \<longleftrightarrow> \<not> length (cn_client_identifier c) > MAX_FIELD \<and>
     \<not> too_long (ci_username (cn_info c)) \<and> \<not> too_long (ci_password (cn_info c)) \<and>
     \<not> (case cn_will c of None \<Rightarrow> False | Some w \<Rightarrow>
          length (wl_payload w) > MAX_FIELD \<or> length (wl_topic_name w) > MAX_FIELD) \<and>
     length (cn_properties c) < 268435456 \<and>
     (case cn_will c of None \<Rightarrow> True | Some w \<Rightarrow> length (wl_properties w) < 268435456)"
proof -
  have l: "\<not> MAX_FIELD < n \<longleftrightarrow> n < 65536" for n :: nat by linarith
  show ?thesis unfolding connect_fits_def too_long_def
    by (cases "cn_will c"; cases "ci_username (cn_info c)"; cases "ci_password (cn_info c)")
      (auto simp: l not_le not_less)
qed

lemma connect_packet_size_ok:
  "connect_packet_size c = Inr sz \<longleftrightarrow>
     get_at (cn_client_identifier c) 0 \<noteq> Some 0 \<and> connect_fits c \<and>
     length (connect_body c) < 268435456 \<and>
     cz_remaining_length sz = word_of_nat (length (connect_body c)) \<and>
     cz_packet_size sz = word_of_nat (1 + length (vl_encode (length (connect_body c)))
       + length (connect_body c))"
proof -
  have sz: "x = sz \<longleftrightarrow> cz_remaining_length sz = cz_remaining_length x \<and>
      cz_packet_size sz = cz_packet_size x" for x :: connect_size
    by (auto intro: connect_size.equality)
  have split: "rbind (connect_section_length (cn_properties c)) (\<lambda>pl.
        rbind (case cn_will c of None \<Rightarrow> Inr 0
               | Some w \<Rightarrow> connect_section_length (wl_properties w)) (\<lambda>wl. K pl wl)) = Inr sz \<longleftrightarrow>
    length (cn_properties c) < 268435456 \<and>
     (case cn_will c of None \<Rightarrow> True | Some w \<Rightarrow> length (wl_properties w) < 268435456) \<and>
     K (word_of_nat (length (cn_properties c))) (case cn_will c of None \<Rightarrow> 0
        | Some w \<Rightarrow> word_of_nat (length (wl_properties w))) = Inr sz" for K
    by (cases "cn_will c") (auto simp: rbind_eq_Inr connect_section_length_ok)
  have final: "within_remaining_length (connect_length c) \<and>
      \<lparr>cz_remaining_length = connect_length c, cz_packet_size = sat_add (sat_add
        (connect_length c) (variable_length_encoded_size (connect_length c))) 1\<rparr> = sz \<longleftrightarrow>
    length (connect_body c) < 268435456 \<and>
     cz_remaining_length sz = word_of_nat (length (connect_body c)) \<and>
     cz_packet_size sz = word_of_nat (1 + length (vl_encode (length (connect_body c)))
       + length (connect_body c))" if "connect_fits c"
  proof -
    note u = unat_connect_length [OF that]
    have w: "connect_length c = word_of_nat (length (connect_body c))" using u by (rule word_of_unat)
    have "sat_add (sat_add (connect_length c) (variable_length_encoded_size (connect_length c))) 1
      = word_of_nat (1 + length (vl_encode (length (connect_body c))) + length (connect_body c))"
      if small: "length (connect_body c) < 268435456"
    proof (rule word_of_unat)
      show "unat (sat_add (sat_add (connect_length c) (variable_length_encoded_size (connect_length c))) 1)
        = 1 + length (vl_encode (length (connect_body c))) + length (connect_body c)"
        using length_vl_encode_le_4 [OF small] small
        by (simp add: unat_sat_add unat_encoded_size u min_def)
    qed
    moreover have "within_remaining_length (connect_length c) \<longleftrightarrow> length (connect_body c) < 268435456"
      by (auto simp: within_remaining_length_def word_le_nat_alt u)
    ultimately show ?thesis using w by (auto simp: sz)
  qed
  have "connect_packet_size c = Inr sz \<longleftrightarrow> get_at (cn_client_identifier c) 0 \<noteq> Some 0 \<and>
    connect_fits c \<and> within_remaining_length (connect_length c) \<and>
      \<lparr>cz_remaining_length = connect_length c, cz_packet_size = sat_add (sat_add
        (connect_length c) (variable_length_encoded_size (connect_length c))) 1\<rparr> = sz"
    unfolding connect_packet_size_def guard_eq_Inr split Let_def connect_guards
      connect_length_def not_not sum.inject
    by (cases "cn_will c") (simp_all only: option.case, blast+)
  then show ?thesis using final by blast
qed

lemma serialize_connect_ok:
  assumes "connect_fits c" and rl: "unat rl = length (connect_body c)"
    and small: "length (connect_body c) < 268435456"
  shows "serialize_connect d c rl =
    (let bs = CONNECT # vl_encode (length (connect_body c)) @ connect_body c
     in if length d < length bs then (d, Inl Connect_NoMemory) else (written d bs, Inr (length bs)))"
proof -
  let ?body = "connect_body c"
  let ?flags = "connect_flags (cn_info c) (map_option wl_info (cn_will c))"
  let ?hd = "CONNECT # vl_encode (unat rl) @ [0, 4, 0x4D, 0x51, 0x54, 0x54, VERSION_5, ?flags]
    @ be16 (ci_keep_alive_seconds (cn_info c))"
  let ?bs = "CONNECT # vl_encode (length ?body) @ ?body"
  have bs: "?bs = ?hd @ connect_payload c" by (simp add: connect_body_def rl)
  have g: "\<not> (length (cn_client_identifier c) > MAX_FIELD \<or> too_long (ci_username (cn_info c)) \<or>
         too_long (ci_password (cn_info c)) \<or>
         (case cn_will c of None \<Rightarrow> False | Some w \<Rightarrow> length (wl_topic_name w) > MAX_FIELD))"
    using assms(1) unfolding connect_guards by (auto split: option.splits)
  have size: "unat (sat_add (sat_add rl (variable_length_encoded_size rl)) 1) = length ?bs"
    using length_vl_encode_le_4 [OF small] small
    by (simp add: unat_sat_add unat_encoded_size rl min_def)
  show ?thesis
  proof (cases "length d < length ?bs")
    case True
    then show ?thesis unfolding serialize_connect_def if_not_P [OF g] Let_def size by simp
  next
    case False
    have "rl \<le> MAX_REMAINING_LENGTH" using rl small by (simp add: word_le_nat_alt)
    moreover have "\<not> length d < length ?hd" using False unfolding bs length_append by linarith
    ultimately have fixed: "serialize_connect_fixed_header d (cn_info c)
        (map_option wl_info (cn_will c)) rl = (written d ?hd, length ?hd)"
      using serialize_connect_fixed_header_eq [of rl d "cn_info c" "map_option wl_info (cn_will c)"]
      unfolding Let_def by (simp only: if_False append_Cons append_assoc)
    have room: "length ?hd + length (connect_payload c) \<le> length d"
      using False unfolding bs length_append by linarith
    have ne: "\<not> length ?hd = 0" by simp
    show ?thesis
      unfolding serialize_connect_def if_not_P [OF g] Let_def size if_not_P [OF False] fixed
        prod.case if_not_P [OF ne]
        appendsD [OF appends_connect_payload [OF assms(1)] refl room]
      unfolding bs length_append ..
  qed
qed

text \<open>The size of a CONNECT is refused exactly when its client identifier begins with NUL, a
  length-prefixed field is past 65,535 bytes, a property section past 268,435,455, or the body
  as natural numbers is; otherwise the two sizes are those of the packet. The saturating
  additions change no answer.\<close>

theorem connect_packet_size_iff:
  "connect_packet_size c = Inr sz \<longleftrightarrow>
     get_at (cn_client_identifier c) 0 \<noteq> Some 0 \<and> connect_fits c \<and>
     length (connect_body c) < 268435456 \<and>
     cz_remaining_length sz = word_of_nat (length (connect_body c)) \<and>
     cz_packet_size sz = word_of_nat (1 + length (vl_encode (length (connect_body c)))
       + length (connect_body c))"
  by (rule connect_packet_size_ok)

text \<open>C30. For a size the calculator accepted, the serializer leaves a destination shorter than
  the packet size alone with \<open>NoMemory\<close>, and otherwise puts the whole packet at its front and
  answers the packet size: protocol name, version, flags and keep alive, the properties, the
  client identifier, the will's properties before its topic and its payload, the user name and
  the password, each field behind its length.\<close>

theorem connect_written:
  assumes "connect_packet_size c = Inr sz"
  shows "serialize_connect d c (cz_remaining_length sz) =
    (let bs = CONNECT # vl_encode (length (connect_body c)) @ connect_body c
     in if length d < unat (cz_packet_size sz) then (d, Inl Connect_NoMemory)
        else (bs @ drop (length bs) d, Inr (unat (cz_packet_size sz))))"
proof -
  from assms have sz: "connect_fits c" "length (connect_body c) < 268435456"
    "cz_remaining_length sz = word_of_nat (length (connect_body c))"
    "cz_packet_size sz = word_of_nat (1 + length (vl_encode (length (connect_body c)))
       + length (connect_body c))"
    by (simp_all only: connect_packet_size_ok)
  have p: "unat (cz_packet_size sz) = 1 + length (vl_encode (length (connect_body c)))
       + length (connect_body c)"
    unfolding sz(4) using sz(2) length_vl_encode_le_4 [OF sz(2)] by (intro unat_u32_of_nat) linarith
  have "unat (cz_remaining_length sz) = length (connect_body c)"
    unfolding sz(3) using sz(2) by (intro unat_u32_of_nat) linarith
  from serialize_connect_ok [OF sz(1) this sz(2), of d] show ?thesis
    unfolding p Let_def by (simp add: written_def splice_0)
qed

theorem connect_written_witness:
  "snd (serialize_connect (replicate 17 0)
     \<lparr>cn_info = \<lparr>ci_clean_session = True, ci_keep_alive_seconds = 60, ci_username = None,
        ci_password = None\<rparr>,
      cn_client_identifier = [65, 66], cn_properties = [], cn_will = None\<rparr> 15) = Inr 17"
  (is "snd (serialize_connect _ ?c _) = _")
proof -
  have body: "length (connect_body ?c) = 15" "connect_fits ?c"
    by (simp_all add: connect_body_def connect_payload_def property_block_def vl_encode_small
        connect_fits_def)
  then have "connect_packet_size ?c = Inr \<lparr>cz_remaining_length = 15, cz_packet_size = 17\<rparr>"
    by (simp add: connect_packet_size_ok vl_encode_small)
  from connect_written [OF this, of "replicate 17 0"] show ?thesis by (simp add: Let_def)
qed

end
