(* ===== verification/Disconnect.thy ===== *)
theory Disconnect
  imports Ack Tables Buffers
begin

text \<open>
  The DISCONNECT in both directions (src/crates/rusty_rtos_mqtt-core/src/disconnect.rs): the
  reason code table, whose answer depends on the direction, the two property tables, the
  reader, the size calculator and the serializer.
\<close>

abbreviation (input) D_SESSION_EXPIRY :: byte where "D_SESSION_EXPIRY \<equiv> 0x11"
abbreviation (input) D_SERVER_REFERENCE :: byte where "D_SERVER_REFERENCE \<equiv> 0x1C"
abbreviation (input) D_REASON_STRING :: byte where "D_REASON_STRING \<equiv> 0x1F"
abbreviation (input) D_USER_PROPERTY :: byte where "D_USER_PROPERTY \<equiv> 0x26"
abbreviation (input) MALFORMED_PACKET :: byte where "MALFORMED_PACKET \<equiv> 0x81"

record disconnect_in =
  dc_reason_code :: "byte option"
  dc_properties :: bytes

record disconnect_size =
  ds_remaining_length :: u32
  ds_packet_size :: u32

datatype disconnect_error =
  Disconnect_BadParameter | Disconnect_BadResponse | Disconnect_NoMemory

fun disconnect_of_ack :: "ack_error \<Rightarrow> disconnect_error" where
  "disconnect_of_ack Ack_BadParameter = Disconnect_BadParameter"
| "disconnect_of_ack Ack_BadResponse = Disconnect_BadResponse"

definition reason_code_allowed :: "byte \<Rightarrow> bool \<Rightarrow> bool" where
  "reason_code_allowed reason_code incoming =
     (if reason_code = 0x04 then \<not> incoming
      else if reason_code \<in> {0x00, 0x80, 0x81, 0x82, 0x83, 0x90, 0x93, 0x94, 0x95, 0x96, 0x97,
        0x98, 0x99} then True
      else if reason_code \<in> {0x87, 0x89, 0x8B, 0x8C, 0x8D, 0x8E, 0x8F, 0x9A, 0x9B, 0x9C, 0x9D,
        0x9E, 0xA0, 0xA1, 0xA2} then incoming
      else False)"

section \<open>Reading\<close>

text \<open>The state of the incoming walk: \<open>reason_string\<close> and \<open>server_reference\<close>.\<close>

definition incoming_property :: "bool \<times> bool \<Rightarrow> property_reader \<Rightarrow> byte \<Rightarrow>
    property_reader \<times> (disconnect_error + bool \<times> bool)" where
  "incoming_property st r pid =
     (case st of (reason_string, server_reference) \<Rightarrow>
      if pid = D_REASON_STRING then
        arm_utf8 Disconnect_BadResponse r reason_string (\<lambda>u _. Inr (u, server_reference))
      else if pid = D_SERVER_REFERENCE then
        arm_utf8 Disconnect_BadResponse r server_reference (\<lambda>u _. Inr (reason_string, u))
      else if pid = D_USER_PROPERTY then
        arm_user Disconnect_BadResponse r (\<lambda>_. Inr (reason_string, server_reference))
      else (r, Inl Disconnect_BadResponse))"

definition walk_incoming_properties :: "bytes \<Rightarrow> u32 \<Rightarrow> disconnect_error + unit" where
  "walk_incoming_properties properties property_length =
     (case section_loop incoming_property Disconnect_BadResponse (False, False)
             (reader_new properties property_length) of
        (_, Inl e) \<Rightarrow> Inl e
      | (_, Inr _) \<Rightarrow> Inr ())"

definition deserialize_disconnect ::
    "packet_info \<Rightarrow> u32 \<Rightarrow> disconnect_error + disconnect_in" where
  "deserialize_disconnect packet max_packet_size =
     (if max_packet_size = 0 then Inl Disconnect_BadParameter
      else if pi_remaining_length packet \<ge> REMAINING_LENGTH_INVALID
      then Inl Disconnect_BadResponse
      else if total_packet_size (pi_remaining_length packet) > max_packet_size
      then Inl Disconnect_BadResponse
      else if pi_remaining_length packet = 0
      then Inr \<lparr>dc_reason_code = None, dc_properties = []\<rparr>
      else rbind (ok_or Disconnect_BadResponse (get_at (pi_remaining_data packet) 0))
        (\<lambda>reason_code.
        if \<not> reason_code_allowed reason_code True then Inl Disconnect_BadResponse
        else if pi_remaining_length packet = 1
        then Inr \<lparr>dc_reason_code = Some reason_code, dc_properties = []\<rparr>
        else rbind (map_err disconnect_of_ack (bounded (pi_remaining_data packet) 1
                      (sat_sub (pi_remaining_length packet) 1))) (\<lambda>after_reason.
          rbind (map_err (\<lambda>_. Disconnect_BadResponse) (decode_variable_length after_reason))
            (\<lambda>property_length.
            let encoded = variable_length_encoded_size property_length in
            if pi_remaining_length packet \<noteq> sat_add (sat_add property_length encoded) 1
            then Inl Disconnect_BadResponse
            else rbind (map_err disconnect_of_ack
                          (bounded after_reason (unat encoded) property_length)) (\<lambda>properties.
              rbind (walk_incoming_properties properties property_length) (\<lambda>_.
                Inr \<lparr>dc_reason_code = Some reason_code, dc_properties = properties\<rparr>))))))"

section \<open>Writing\<close>

text \<open>The outgoing walk: \<open>used\<close> is fresh for every property, so the loop has no state.\<close>

definition outgoing_property :: "u32 \<Rightarrow> unit \<Rightarrow> property_reader \<Rightarrow> byte \<Rightarrow>
    property_reader \<times> (disconnect_error + unit)" where
  "outgoing_property connect_session_expiry st r pid =
     (if pid = D_SESSION_EXPIRY then
        arm_u32 Disconnect_BadResponse r False (\<lambda>_ session_expiry.
          if connect_session_expiry = 0 \<and> session_expiry \<noteq> 0
          then Inl Disconnect_BadParameter else Inr ())
      else if pid = D_REASON_STRING then
        arm_utf8 Disconnect_BadResponse r False (\<lambda>_ _. Inr ())
      else if pid = D_USER_PROPERTY then arm_user Disconnect_BadResponse r (\<lambda>_. Inr ())
      else (r, Inl Disconnect_BadParameter))"

definition validate_outgoing_properties :: "u32 \<Rightarrow> bytes \<Rightarrow> disconnect_error + unit" where
  "validate_outgoing_properties connect_session_expiry properties =
     rbind (ok_or Disconnect_BadParameter (try_u32 (length properties))) (\<lambda>property_length.
       snd (section_loop (outgoing_property connect_session_expiry) Disconnect_BadResponse ()
              (reader_new properties property_length)))"

definition disconnect_packet_size ::
    "byte option \<Rightarrow> u32 \<Rightarrow> u32 \<Rightarrow> disconnect_error + disconnect_size" where
  "disconnect_packet_size reason_code property_length max_packet_size =
     (if reason_code = None \<and> property_length \<noteq> 0 then Inl Disconnect_BadParameter
      else if max_packet_size = 0 then Inl Disconnect_BadParameter
      else rbind (case reason_code of
          None \<Rightarrow> Inr 0
        | Some code \<Rightarrow> if \<not> reason_code_allowed code False then Inl Disconnect_BadParameter
                       else Inr 1) (\<lambda>len.
        if property_length \<ge> REMAINING_LENGTH_INVALID then Inl Disconnect_BadParameter
        else let encoded = variable_length_encoded_size property_length in
        if sat_add (sat_add property_length encoded) len \<ge> REMAINING_LENGTH_INVALID
        then Inl Disconnect_BadParameter
        else let remaining_length = sat_add (sat_add len encoded) property_length;
                 packet_size = total_packet_size remaining_length in
        if packet_size > max_packet_size then Inl Disconnect_BadParameter
        else Inr \<lparr>ds_remaining_length = remaining_length, ds_packet_size = packet_size\<rparr>))"

definition serialize_disconnect ::
    "bytes \<Rightarrow> byte option \<Rightarrow> bytes \<Rightarrow> u32 \<Rightarrow> bytes \<times> (disconnect_error + nat)" where
  "serialize_disconnect destination reason_code properties remaining_length =
     (case try_u32 (length properties) of
        None \<Rightarrow> (destination, Inl Disconnect_BadParameter)
      | Some property_length \<Rightarrow>
          if property_length \<ge> REMAINING_LENGTH_INVALID
          then (destination, Inl Disconnect_BadParameter)
          else if reason_code = None \<and> property_length \<noteq> 0
          then (destination, Inl Disconnect_BadParameter)
          else if remaining_length \<ge> REMAINING_LENGTH_INVALID
          then (destination, Inl Disconnect_BadParameter)
          else if length destination < unat (total_packet_size remaining_length)
          then (destination, Inl Disconnect_NoMemory)
          else case serialize_disconnect_fixed destination reason_code remaining_length of
            (d, at) \<Rightarrow>
              if at = 0 then (d, Inl Disconnect_NoMemory)
              else wstep (put_length_at Disconnect_NoMemory d at property_length) (\<lambda>d at.
                if property_length \<noteq> 0 then copy_at Disconnect_NoMemory d at properties
                else (d, Inr at)))"

section \<open>The tables as specifications\<close>

fun incoming_prop_ok :: "byte \<times> prop_value \<Rightarrow> bool" where
  "incoming_prop_ok (pid, PV_utf8 x) = (pid \<in> {D_REASON_STRING, D_SERVER_REFERENCE})"
| "incoming_prop_ok (pid, PV_user x y) = (pid = D_USER_PROPERTY)"
| "incoming_prop_ok _ = False"

abbreviation incoming_once :: "byte \<Rightarrow> bool" where
  "incoming_once pid \<equiv> pid \<noteq> D_USER_PROPERTY"

definition incoming_seen :: "bool \<times> bool \<Rightarrow> byte \<Rightarrow> bool" where
  "incoming_seen st pid = (if pid = D_REASON_STRING then fst st
     else if pid = D_SERVER_REFERENCE then snd st else False)"

definition incoming_table :: "bool \<times> bool \<Rightarrow> byte \<Rightarrow> prop_value \<Rightarrow> (bool \<times> bool) option" where
  "incoming_table st pid v =
     (if incoming_prop_ok (pid, v) \<and> \<not> (incoming_once pid \<and> incoming_seen st pid)
      then Some (if pid = D_REASON_STRING then (True, snd st)
                 else if pid = D_SERVER_REFERENCE then (fst st, True) else st)
      else None)"

interpretation incoming_walk:
  walked_table incoming_property incoming_table incoming_prop_ok incoming_once incoming_seen
proof unfold_locales
  show "reads_as r (incoming_property s r pid) (incoming_table s pid)" for s r pid
    unfolding incoming_property_def split_def
    by (intro reads_as_cases) (simp_all add: incoming_table_def incoming_seen_def)
  show "(\<exists>s'. incoming_table s pid v = Some s') \<longleftrightarrow>
      incoming_prop_ok (pid, v) \<and> \<not> (incoming_once pid \<and> incoming_seen s pid)" for s pid v
    by (simp add: incoming_table_def)
  show "incoming_table s pid v = Some s' \<Longrightarrow>
      incoming_seen s' q \<longleftrightarrow> incoming_seen s q \<or> incoming_once pid \<and> q = pid" for s pid v s' q
    by (cases v) (auto simp: incoming_table_def incoming_seen_def split: if_splits)
qed

text \<open>The outgoing table: it repeats what it likes, and takes an expiry that is not zero only from
  a session that announced one.\<close>

fun outgoing_prop_ok :: "u32 \<Rightarrow> byte \<times> prop_value \<Rightarrow> bool" where
  "outgoing_prop_ok se (pid, PV_u32 v) = (pid = D_SESSION_EXPIRY \<and> \<not> (se = 0 \<and> v \<noteq> 0))"
| "outgoing_prop_ok se (pid, PV_utf8 x) = (pid = D_REASON_STRING)"
| "outgoing_prop_ok se (pid, PV_user x y) = (pid = D_USER_PROPERTY)"
| "outgoing_prop_ok se (pid, _) = False"

definition outgoing_table :: "u32 \<Rightarrow> unit \<Rightarrow> byte \<Rightarrow> prop_value \<Rightarrow> unit option" where
  "outgoing_table se s pid v = (if outgoing_prop_ok se (pid, v) then Some () else None)"

interpretation outgoing_walk:
  walked_table "outgoing_property se" "outgoing_table se" "outgoing_prop_ok se" "\<lambda>pid. False" "\<lambda>s pid. False" for se
proof unfold_locales
  show "reads_as r (outgoing_property se s r pid) (outgoing_table se s pid)" for s r pid
    unfolding outgoing_property_def
    by (intro reads_as_cases) (simp_all add: outgoing_table_def to_opt_if)
qed (auto simp: outgoing_table_def split: if_splits)

lemma validate_outgoing_ok:
  "validate_outgoing_properties se sec = Inr () \<longleftrightarrow> length sec < 4294967296 \<and>
    (\<exists>ps. table_takes (outgoing_prop_ok se) (\<lambda>_. False) ps \<and> list_all (\<lambda>(_, v). pv_ok v) ps \<and> sec = section_bytes ps)"
proof (cases "length sec < 4294967296")
  case True
  let ?n = "word_of_nat (length sec) :: u32"
  have n: "length sec = unat ?n" "try_u32 (length sec) = Some ?n"
    using True by (simp_all add: unat_of_nat take_bit_nat_eq_self try_u32_def)
  have "validate_outgoing_properties se sec = Inr () \<longleftrightarrow>
    (\<exists>r' s'. section_loop (outgoing_property se) Disconnect_BadResponse () (reader_new sec ?n) = (r', Inr s') \<and> True)"
    by (cases "section_loop (outgoing_property se) Disconnect_BadResponse () (reader_new sec ?n)")
      (simp add: validate_outgoing_properties_def n(2))
  also have "\<dots> \<longleftrightarrow> (\<exists>ps. table_takes (outgoing_prop_ok se) (\<lambda>_. False) ps \<and>
      list_all (\<lambda>(_, v). pv_ok v) ps \<and> sec = section_bytes ps \<and> True)"
    by (rule outgoing_walk.walk_ok [OF n(1), where P = "\<lambda>_. True"]) simp
  finally show ?thesis using True by simp
qed (simp add: validate_outgoing_properties_def try_u32_def)

section \<open>The layout of an accepted DISCONNECT\<close>

definition incoming_section :: "bytes \<Rightarrow> bool" where
  "incoming_section sec \<longleftrightarrow> table_section incoming_prop_ok incoming_once sec"

lemma incoming_section_Nil [simp]: "incoming_section []"
  by (simp add: incoming_section_def)

lemma walk_incoming_properties_ok:
  assumes "length properties = unat n" and "length properties < 268435456"
  shows "walk_incoming_properties properties n = Inr () \<longleftrightarrow> incoming_section properties"
proof -
  have "walk_incoming_properties properties n = Inr () \<longleftrightarrow>
    (\<exists>r' s'. section_loop incoming_property Disconnect_BadResponse (False, False)
       (reader_new properties n) = (r', Inr s') \<and> True)"
    by (auto simp: walk_incoming_properties_def split: prod.splits sum.splits)
  also have "\<dots> \<longleftrightarrow> (\<exists>ps. table_takes incoming_prop_ok incoming_once ps \<and>
      list_all (\<lambda>(_, v). pv_ok v) ps \<and> properties = section_bytes ps \<and> True)"
    by (rule incoming_walk.walk_ok [OF assms(1), where P = "\<lambda>_. True"]) (simp add: incoming_seen_def)
  finally show ?thesis using assms(2) by (simp add: incoming_section_def table_section_def)
qed

lemma first_and_rest:
  "1 \<le> n \<Longrightarrow> n \<le> length d \<Longrightarrow> take n d = d ! 0 # take (n - 1) (drop 1 d)"
  by (cases d; cases n) auto

lemma deserialize_disconnect_ok:
  "deserialize_disconnect p mx = Inr dc \<longleftrightarrow>
     mx \<noteq> 0 \<and> pi_remaining_length p < REMAINING_LENGTH_INVALID \<and>
     total_packet_size (pi_remaining_length p) \<le> mx \<and>
     (packet_body p = Some [] \<and> dc_reason_code dc = None \<and> dc_properties dc = [] \<or>
      (\<exists>c. dc_reason_code dc = Some c \<and> reason_code_allowed c True \<and>
         (packet_body p = Some [c] \<and> dc_properties dc = [] \<or>
          packet_body p = Some (c # property_block (dc_properties dc)) \<and>
            incoming_section (dc_properties dc))))"
proof -
  let ?n = "unat (pi_remaining_length p)" and ?d = "pi_remaining_data p"
  let ?pre = "mx \<noteq> 0 \<and> pi_remaining_length p < REMAINING_LENGTH_INVALID \<and>
     total_packet_size (pi_remaining_length p) \<le> mx"
  have dc: "x = dc \<longleftrightarrow> dc_reason_code dc = dc_reason_code x \<and> dc_properties dc = dc_properties x"
    for x :: disconnect_in by (auto intro: disconnect_in.equality)
  consider (none) "?n = 0" | (short) "0 < ?n" "length ?d < ?n" | (one) "?n = 1" "1 \<le> length ?d"
    | (more) "2 \<le> ?n" "?n \<le> length ?d" by linarith
  then show ?thesis
  proof cases
    case none
    then have "pi_remaining_length p = 0" by (simp add: unat_eq_0)
    then show ?thesis unfolding deserialize_disconnect_def
      by (auto simp: guard_eq_Inr not_le not_less packet_body_def slice_def dc)
  next
    case short
    then have nz: "pi_remaining_length p \<noteq> 0" by auto
    have b: "bounded ?d 1 (sat_sub (pi_remaining_length p) 1) = Inl Ack_BadResponse"
      using short by (simp add: bounded_def slice_def unat_sat_sub)
    have e: "get_at ?d 0 = None" if "pi_remaining_length p = 1"
      using that short by (simp add: get_at_def)
    have "deserialize_disconnect p mx \<noteq> Inr dc"
      unfolding deserialize_disconnect_def if_not_P [OF nz] b
      using e by (cases "pi_remaining_length p = 1") (auto simp: guard_eq_Inr rbind_eq_Inr ok_or_eq_Inr)
    then show ?thesis using short by (auto simp: packet_body_def slice_eq_Some)
  next
    case one
    then have n: "pi_remaining_length p = 1" by (simp add: word_unat_eq_iff)
    have "get_at ?d 0 = Some (?d ! 0)" using one(2) by (cases ?d) simp_all
    moreover have "packet_body p = Some [?d ! 0]"
      using first_and_rest [of ?n ?d] one by (simp add: packet_body_def slice_eq_Some)
    ultimately show ?thesis unfolding deserialize_disconnect_def n
      by (auto simp: guard_eq_Inr not_le not_less dc property_block_def)
  next
    case more
    let ?after = "take (?n - 1) (drop 1 ?d)"
    have n: "pi_remaining_length p \<noteq> 0" "pi_remaining_length p \<noteq> 1" using more by auto
    have g: "get_at ?d 0 = Some (?d ! 0)" using more by (auto simp: get_at_def)
    have b: "bounded ?d 1 (sat_sub (pi_remaining_length p) 1) = Inr ?after"
      using more by (auto simp: bounded_eq_Inr unat_sat_sub)
    have body: "packet_body p = Some (?d ! 0 # ?after)"
      using first_and_rest [of ?n ?d] more by (simp add: packet_body_def slice_eq_Some)
    have after: "unat (pi_remaining_length p) = length ?after + unat (1 :: u32)" "?after \<noteq> []"
      using more by auto
    have k: "unat (1 :: u32) < 65536" by simp
    have "deserialize_disconnect p mx = Inr dc \<longleftrightarrow> ?pre \<and> reason_code_allowed (?d ! 0) True \<and>
      (\<exists>sec. length sec < 268435456 \<and> ?after = property_block sec \<and>
        rbind (walk_incoming_properties sec (word_of_nat (length sec)))
          (\<lambda>_. Inr \<lparr>dc_reason_code = Some (?d ! 0), dc_properties = sec\<rparr>) = Inr dc)"
      unfolding deserialize_disconnect_def if_not_P [OF n(1)] if_not_P [OF n(2)] g b ok_or_simps
        rbind_simps map_err_simps bounded_def [of ?after] Let_def
        guard_eq_Inr exact_block_tail [OF after(1) k] not_le not_less not_not by blast
    also have "\<dots> \<longleftrightarrow> ?pre \<and> reason_code_allowed (?d ! 0) True \<and>
      (\<exists>sec. length sec < 268435456 \<and> ?after = property_block sec \<and> incoming_section sec \<and>
        dc_reason_code dc = Some (?d ! 0) \<and> dc_properties dc = sec)"
    proof -
      have "rbind (walk_incoming_properties sec (word_of_nat (length sec)))
          (\<lambda>_. Inr \<lparr>dc_reason_code = Some (?d ! 0), dc_properties = sec\<rparr>) = Inr dc \<longleftrightarrow>
        incoming_section sec \<and> dc_reason_code dc = Some (?d ! 0) \<and> dc_properties dc = sec"
        if "length sec < 268435456" for sec
        using walk_incoming_properties_ok [of sec "word_of_nat (length sec)"] that
        by (auto simp: rbind_eq_Inr dc unat_u32_of_nat ex_unit)
      then show ?thesis by (simp cong: conj_cong)
    qed
    finally show ?thesis
      using after(2) unfolding body by (auto simp: incoming_section_def table_section_def)
  qed
qed

text \<open>C32. A DISCONNECT from the broker is accepted exactly when it is within MQTT's limit and
  the client's and its claimed bytes are there and are: nothing; or a reason code a server may
  send; or such a code and a length-prefixed section, filling the rest, of user properties, at
  most one reason string and at most one server reference.\<close>

theorem deserialize_disconnect_iff:
  "deserialize_disconnect p mx = Inr dc \<longleftrightarrow>
     mx \<noteq> 0 \<and> pi_remaining_length p < REMAINING_LENGTH_INVALID \<and>
     total_packet_size (pi_remaining_length p) \<le> mx \<and>
     (packet_body p = Some [] \<and> dc_reason_code dc = None \<and> dc_properties dc = [] \<or>
      (\<exists>c. dc_reason_code dc = Some c \<and> reason_code_allowed c True \<and>
         (packet_body p = Some [c] \<and> dc_properties dc = [] \<or>
          packet_body p = Some (c # property_block (dc_properties dc)) \<and>
            incoming_section (dc_properties dc))))"
  by (rule deserialize_disconnect_ok)

section \<open>What the serializer writes\<close>

definition disconnect_bytes :: "byte option \<Rightarrow> bytes \<Rightarrow> bytes" where
  "disconnect_bytes reason properties =
     (case reason of None \<Rightarrow> [] | Some c \<Rightarrow> [c]) @ property_block properties"

lemma disconnect_packet_size_ok:
  assumes "disconnect_packet_size rc pl mx = Inr sz" and props: "unat pl = length props"
  shows "unat (ds_remaining_length sz) = length (disconnect_bytes rc props)"
    and "unat (ds_packet_size sz) = 1 + length (vl_encode (length (disconnect_bytes rc props)))
      + length (disconnect_bytes rc props)"
    and "length (disconnect_bytes rc props) < 268435456"
    and "length props < 268435456" "rc = None \<longrightarrow> props = []"
    and "ds_packet_size sz \<le> mx"
    and "rc = Some c \<longrightarrow> reason_code_allowed c False"
proof -
  let ?k = "if rc = None then 0 else 1 :: u32"
  let ?rl = "sat_add (sat_add ?k (variable_length_encoded_size pl)) pl"
  from assms(1) have a: "rc = None \<longrightarrow> pl = 0" "pl < REMAINING_LENGTH_INVALID"
    "sat_add (sat_add pl (variable_length_encoded_size pl)) ?k < REMAINING_LENGTH_INVALID"
    "total_packet_size ?rl \<le> mx"
    "sz = \<lparr>ds_remaining_length = ?rl, ds_packet_size = total_packet_size ?rl\<rparr>"
    "\<forall>c. rc = Some c \<longrightarrow> reason_code_allowed c False"
    by (auto simp: disconnect_packet_size_def rbind_eq_Inr guard_eq_Inr Let_def not_le not_less
        split: option.splits)
  have p: "unat pl < 268435456" using a(2) by (simp add: word_less_nat_alt)
  have e: "unat (variable_length_encoded_size pl) = length (vl_encode (length props))"
    using p by (simp add: unat_encoded_size props)
  have e4: "length (vl_encode (length props)) \<le> 4"
    using p by (simp add: props length_vl_encode_le_4)
  have k: "unat ?k = length (case rc of None \<Rightarrow> [] | Some c \<Rightarrow> [c])" "unat ?k \<le> 1"
    by (simp_all split: option.split)
  have sum: "length (disconnect_bytes rc props) = unat ?k + length (vl_encode (length props))
      + length props"
    unfolding disconnect_bytes_def length_append length_property_block k(1) by simp
  have rl: "unat ?rl = length (disconnect_bytes rc props)"
    unfolding unat_sat_add e props sum using p e4 k(2) by (simp add: props min_def)
  have "unat (sat_add (sat_add pl (variable_length_encoded_size pl)) ?k)
      = length (disconnect_bytes rc props)"
    unfolding unat_sat_add e props sum using p e4 k(2) by (simp add: props min_def)
  then show small: "length (disconnect_bytes rc props) < 268435456"
    using a(3) by (simp add: word_less_nat_alt)
  show "unat (ds_remaining_length sz) = length (disconnect_bytes rc props)"
    using rl by (simp add: a(5))
  show "length props < 268435456" using p props by simp
  show "rc = None \<longrightarrow> props = []" using a(1) props by auto
  show "ds_packet_size sz \<le> mx" using a(4,5) by simp
  show "rc = Some c \<longrightarrow> reason_code_allowed c False" using a(6) by simp
  have "length (vl_encode (length (disconnect_bytes rc props))) \<le> 4"
    using small by (rule length_vl_encode_le_4)
  then show "unat (ds_packet_size sz) = 1 + length (vl_encode (length (disconnect_bytes rc props)))
      + length (disconnect_bytes rc props)"
    using small rl by (simp add: a(5) total_packet_size_def unat_sat_add unat_encoded_size min_def)
qed

lemma serialize_disconnect_ok:
  assumes rl: "unat rl = length (disconnect_bytes rc props)"
    and small: "length (disconnect_bytes rc props) < 268435456"
    and props: "rc = None \<longrightarrow> props = []"
  shows "serialize_disconnect d rc props rl =
    (let bs = DISCONNECT # vl_encode (length (disconnect_bytes rc props)) @ disconnect_bytes rc props
     in if length d < length bs then (d, Inl Disconnect_NoMemory)
        else (written d bs, Inr (length bs)))"
proof -
  let ?body = "disconnect_bytes rc props"
  let ?r = "case rc of None \<Rightarrow> [] | Some c \<Rightarrow> [c]"
  let ?hd = "DISCONNECT # vl_encode (length ?body) @ ?r"
  let ?bs = "DISCONNECT # vl_encode (length ?body) @ ?body"
  let ?pl = "word_of_nat (length props) :: u32"
  have pl: "length props < 268435456"
    using small by (simp add: disconnect_bytes_def length_property_block)
  then have t: "try_u32 (length props) = Some ?pl" and u: "unat ?pl = length props"
    by (simp_all add: try_u32_def unat_u32_of_nat)
  have g: "\<not> ?pl \<ge> REMAINING_LENGTH_INVALID" "\<not> (rc = None \<and> ?pl \<noteq> 0)"
    "\<not> rl \<ge> REMAINING_LENGTH_INVALID"
    using pl u props rl small by (auto simp: word_le_nat_alt)
  have v4: "length (vl_encode (length ?body)) \<le> 4" using small by (rule length_vl_encode_le_4)
  have size: "unat (total_packet_size rl) = length ?bs"
    using rl small v4 by (simp add: total_packet_size_def unat_sat_add unat_encoded_size min_def)
  have bs: "?bs = ?hd @ property_block props" by (simp add: disconnect_bytes_def)
  show ?thesis
  proof (cases "length d < length ?bs")
    case True
    then show ?thesis
      unfolding serialize_disconnect_def t option.case if_not_P [OF g(1)] if_not_P [OF g(2)]
        if_not_P [OF g(3)] size Let_def by simp
  next
    case False
    have fixed: "serialize_disconnect_fixed d rc rl = (written d ?hd, length ?hd)"
      using serialize_disconnect_fixed_eq [of rl d rc] False rl small
      by (simp add: Let_def word_le_nat_alt disconnect_bytes_def)
    have len: "length ?bs = length ?hd + length (vl_encode (length props)) + length props"
      unfolding bs by (simp add: length_property_block)
    have room: "length ?hd + length (vl_encode (unat ?pl)) \<le> length d"
      "length (?hd @ vl_encode (length props)) + length props \<le> length d"
      using False unfolding len u length_append by linarith+
    have e1: "put_length_at Disconnect_NoMemory (written d ?hd) (length ?hd) ?pl =
      (written d (?hd @ vl_encode (length props)), Inr (length (?hd @ vl_encode (length props))))"
      using put_length_at_fills [OF refl _ room(1)] pl unfolding u length_append by simp
    have e2: "(if ?pl \<noteq> 0 then copy_at Disconnect_NoMemory
          (written d (?hd @ vl_encode (length props))) (length (?hd @ vl_encode (length props))) props
        else (written d (?hd @ vl_encode (length props)),
              Inr (length (?hd @ vl_encode (length props)))))
      = (written d ?bs, Inr (length ?bs))"
    proof (cases "props = []")
      case True
      then show ?thesis by (simp add: disconnect_bytes_def property_block_def)
    next
      case nonempty: False
      then have nz: "?pl \<noteq> 0" using u by (metis length_0_conv unat_0)
      from copy_at_fills [OF refl room(2)] nz show ?thesis
        by (simp add: bs property_block_def add.assoc)
    qed
    have ne: "\<not> length ?hd = 0" by simp
    show ?thesis
      unfolding serialize_disconnect_def t option.case if_not_P [OF g(1)] if_not_P [OF g(2)]
        if_not_P [OF g(3)] size Let_def if_not_P [OF False] fixed prod.case if_not_P [OF ne] e1
        wstep_simps e2 ..
  qed
qed

text \<open>The size calculator and the serializer agree: for a size it accepted, the packet size
  is the number of bytes the packet takes; a shorter destination is left alone with
  \<open>NoMemory\<close>, and otherwise the packet is at its front: type, length, the reason code if there
  is one, and the property section behind its length.\<close>

theorem disconnect_written:
  assumes "disconnect_packet_size rc pl mx = Inr sz" and "unat pl = length props"
  shows "serialize_disconnect d rc props (ds_remaining_length sz) =
    (let body = (case rc of None \<Rightarrow> [] | Some c \<Rightarrow> [c]) @ property_block props;
         bs = DISCONNECT # vl_encode (length body) @ body
     in if length d < unat (ds_packet_size sz) then (d, Inl Disconnect_NoMemory)
        else (bs @ drop (length bs) d, Inr (unat (ds_packet_size sz))))"
  using serialize_disconnect_ok [of "ds_remaining_length sz" rc props d]
    disconnect_packet_size_ok [OF assms]
  by (simp add: Let_def written_def splice_0 disconnect_bytes_def)

theorem disconnect_written_witness:
  "serialize_disconnect [9, 9, 9, 9, 9] (Some 0x04) [] 2 = ([0xE0, 2, 4, 0, 9], Inr 4)"
proof -
  have "disconnect_packet_size (Some 0x04) 0 100
      = Inr \<lparr>ds_remaining_length = 2, ds_packet_size = 4\<rparr>"
    by (simp add: disconnect_packet_size_def reason_code_allowed_def sat_add_def
        variable_length_encoded_size_def total_packet_size_def)
  from disconnect_written [OF this, of "[]" "[9, 9, 9, 9, 9]"] show ?thesis
    by (simp add: property_block_def vl_encode_small)
qed

lemma property_block_inj:
  assumes "property_block s = property_block t" "length s < 268435456" "length t < 268435456"
  shows "s = t"
proof -
  have "decode_variable_length (property_block s) = Inr (word_of_nat (length s)) \<and>
      slice (property_block s) (unat (variable_length_encoded_size (word_of_nat (length s))))
        (unat (variable_length_encoded_size (word_of_nat (length s))) + unat (word_of_nat (length s) :: u32)) = Some s"
    unfolding property_block_read using assms(2) by auto
  moreover have "decode_variable_length (property_block s) = Inr (word_of_nat (length t)) \<and>
      slice (property_block s) (unat (variable_length_encoded_size (word_of_nat (length t))))
        (unat (variable_length_encoded_size (word_of_nat (length t))) + unat (word_of_nat (length t) :: u32)) = Some t"
    unfolding property_block_read using assms(1,3) by auto
  ultimately show "s = t" by (metis Inr_inject option.inject)
qed

text \<open>C31. A DISCONNECT written here and read back, header first and then the body behind it: the
  header is a DISCONNECT's and finds the whole packet, and the reader takes the body exactly when
  the reason code is one a server may send too and the properties are a section it may send. What
  it answers is then the reason code and the properties that were written. A packet without a
  reason code is the exception: it comes back with reason 0, since it is written with a body of one
  byte, the length of its empty section, which is where a reader looks for the reason.\<close>

theorem disconnect_roundtrip:
  assumes "disconnect_packet_size rc pl mx = Inr sz" and "unat pl = length props"
    and "unat (ds_packet_size sz) \<le> length d"
  shows "\<exists>d' n h. serialize_disconnect d rc props (ds_remaining_length sz) = (d', Inr n) \<and>
    process_incoming_packet_type_and_length d' n = Inr h \<and> h_packet_type h = DISCONNECT \<and>
    unat (h_remaining_length h) + h_header_length h = n \<and>
    (\<forall>dc. deserialize_disconnect
      \<lparr>pi_packet_type = h_packet_type h, pi_remaining_length = h_remaining_length h,
       pi_remaining_data = drop (h_header_length h) d'\<rparr> mx = Inr dc \<longleftrightarrow>
     (\<forall>c. rc = Some c \<longrightarrow> reason_code_allowed c True) \<and> incoming_section props \<and>
     dc_reason_code dc = Some (case rc of None \<Rightarrow> 0 | Some c \<Rightarrow> c) \<and> dc_properties dc = props)"
proof -
  note sz = disconnect_packet_size_ok [OF assms(1,2)]
  let ?body = "disconnect_bytes rc props"
  let ?bs = "DISCONNECT # vl_encode (length ?body) @ ?body"
  let ?h = "\<lparr>h_packet_type = DISCONNECT, h_remaining_length = word_of_nat (length ?body),
     h_header_length = length (vl_encode (length ?body)) + 1\<rparr>"
  have room: "length ?bs \<le> length d" using assms(3) sz(2) by simp
  have w: "serialize_disconnect d rc props (ds_remaining_length sz)
      = (written d ?bs, Inr (length ?bs))"
    using serialize_disconnect_ok [OF sz(1,3,5), of d] room by (simp add: Let_def)
  have valid: "incoming_packet_valid DISCONNECT"
    by (simp add: incoming_packet_valid_def VALID_def type_bit_def)
  note hd = header_of_written [OF valid sz(3) refl room]
  have rl: "ds_remaining_length sz = word_of_nat (length ?body)"
    using sz(1) by (rule word_of_unat)
  have body: "packet_body \<lparr>pi_packet_type = DISCONNECT, pi_remaining_length = ds_remaining_length sz,
      pi_remaining_data = ?body @ drop (length ?bs) d\<rparr> = Some ?body"
    using sz(1) by (simp add: packet_body_def slice_eq_Some)
  have rem: "ds_remaining_length sz < REMAINING_LENGTH_INVALID"
    using sz(1,3) by (simp add: word_less_nat_alt)
  have total: "total_packet_size (ds_remaining_length sz) \<le> mx"
  proof -
    have "unat (total_packet_size (ds_remaining_length sz)) = unat (ds_packet_size sz)"
      using sz(1,2,3) length_vl_encode_le_4 [OF sz(3)]
      by (simp add: total_packet_size_def unat_sat_add unat_encoded_size min_def)
    then show ?thesis using sz(6) by (simp add: word_le_nat_alt)
  qed
  have mx: "mx \<noteq> 0"
    using assms(1) by (auto simp: disconnect_packet_size_def guard_eq_Inr split: if_splits)
  have inj: "property_block props = property_block sec \<and> incoming_section sec \<longleftrightarrow> incoming_section props \<and> sec = props" for sec
    using property_block_inj [OF _ sz(4), of sec] by (auto simp: incoming_section_def table_section_def)
  have read: "deserialize_disconnect \<lparr>pi_packet_type = DISCONNECT, pi_remaining_length = ds_remaining_length sz,
      pi_remaining_data = ?body @ drop (length ?bs) d\<rparr> mx = Inr dc \<longleftrightarrow>
    (\<forall>c. rc = Some c \<longrightarrow> reason_code_allowed c True) \<and> incoming_section props \<and>
    dc_reason_code dc = Some (case rc of None \<Rightarrow> 0 | Some c \<Rightarrow> c) \<and> dc_properties dc = props" for dc
  proof (cases rc)
    case None
    then have "?body = [0]" "props = []" using sz(5) by (simp_all add: disconnect_bytes_def property_block_def vl_encode_small)
    then show ?thesis
      unfolding deserialize_disconnect_ok body using rem total mx None
      by (auto simp: reason_code_allowed_def property_block_def)
  next
    case (Some c)
    then have "?body = c # property_block props" by (simp add: disconnect_bytes_def)
    then show ?thesis
      unfolding deserialize_disconnect_ok body using rem total mx Some inj [of "dc_properties dc"] by auto
  qed
  have n: "unat (word_of_nat (length ?body) :: u32) = length ?body" using sz(3) by (simp add: unat_u32_of_nat)
  show ?thesis
    using w hd read n unfolding rl
    by (intro exI [of _ "written d ?bs"] exI [of _ "length ?bs"] exI [of _ ?h]) simp
qed

theorem disconnect_roundtrip_witness:
  "\<exists>d' n h. serialize_disconnect [9, 9, 9, 9] None [] 1 = (d', Inr n) \<and>
    process_incoming_packet_type_and_length d' n = Inr h \<and> h_packet_type h = DISCONNECT \<and>
    deserialize_disconnect
      \<lparr>pi_packet_type = h_packet_type h, pi_remaining_length = h_remaining_length h,
       pi_remaining_data = drop (h_header_length h) d'\<rparr> 100 =
    Inr \<lparr>dc_reason_code = Some 0, dc_properties = []\<rparr>"
proof -
  have "disconnect_packet_size None 0 100
      = Inr \<lparr>ds_remaining_length = 1, ds_packet_size = 3\<rparr>"
    by (simp add: disconnect_packet_size_def sat_add_def word_le_nat_alt word_less_nat_alt
        variable_length_encoded_size_def total_packet_size_def)
  from disconnect_roundtrip [OF this, of "[]" "[9, 9, 9, 9]"]
  obtain d' n h where h: "serialize_disconnect [9, 9, 9, 9] None [] 1 = (d', Inr n)"
    "process_incoming_packet_type_and_length d' n = Inr h" "h_packet_type h = DISCONNECT"
    "\<And>dc. deserialize_disconnect \<lparr>pi_packet_type = h_packet_type h, pi_remaining_length = h_remaining_length h,
       pi_remaining_data = drop (h_header_length h) d'\<rparr> 100 = Inr dc \<longleftrightarrow>
     dc_reason_code dc = Some 0 \<and> dc_properties dc = []"
    by auto
  from h(4) have "deserialize_disconnect \<lparr>pi_packet_type = h_packet_type h, pi_remaining_length = h_remaining_length h,
       pi_remaining_data = drop (h_header_length h) d'\<rparr> 100 = Inr \<lparr>dc_reason_code = Some 0, dc_properties = []\<rparr>"
    by simp
  with h(1-3) show ?thesis by blast
qed

end
