(* ===== verification/Client.thy ===== *)
theory Client
  imports Records Context Outbound Reader Connack Connect Disconnect
begin

text \<open>
  client.rs, the part that needs no transport: the context, the packet identifiers, what the
  client refuses before it sends, and the stores and vectors its requests are made of.
\<close>

section \<open>Data\<close>

datatype client_error =
    CE_BadParameter | CE_NotConnected | CE_DisconnectPending | CE_SendFailed
  | CE_PublishStoreFailed | CE_State state_error | CE_RecvFailed | CE_BadResponse
  | CE_ServerRefused | CE_StatusConnected | CE_PublishRetrieveFailed | CE_NoDataAvailable
  | CE_NeedMoreBytes | CE_EventCallbackFailed | CE_KeepAliveTimeout

fun client_of_header :: "header_error \<Rightarrow> client_error" where
  "client_of_header H_NoDataAvailable = CE_NoDataAvailable"
| "client_of_header H_NeedMoreBytes = CE_NeedMoreBytes"
| "client_of_header H_BadResponse = CE_BadResponse"

fun client_of_publish :: "publish_error \<Rightarrow> client_error" where
  "client_of_publish Publish_BadParameter = CE_BadParameter"
| "client_of_publish Publish_BadResponse = CE_BadResponse"

fun client_of_ack :: "ack_error \<Rightarrow> client_error" where
  "client_of_ack Ack_BadParameter = CE_BadParameter"
| "client_of_ack Ack_BadResponse = CE_BadResponse"

fun client_of_disconnect :: "disconnect_error \<Rightarrow> client_error" where
  "client_of_disconnect Disconnect_BadParameter = CE_BadParameter"
| "client_of_disconnect Disconnect_BadResponse = CE_BadResponse"
| "client_of_disconnect Disconnect_NoMemory = CE_SendFailed"

fun client_of_read :: "read_error \<Rightarrow> client_error" where
  "client_of_read Read_NoDataAvailable = CE_NoDataAvailable"
| "client_of_read Read_RecvFailed = CE_RecvFailed"
| "client_of_read Read_BadResponse = CE_BadResponse"

fun client_of_connack :: "connack_error \<Rightarrow> client_error" where
  "client_of_connack Connack_BadParameter = CE_BadParameter"
| "client_of_connack Connack_BadResponse = CE_BadResponse"

definition client_of_connect :: "connect_error \<Rightarrow> client_error" where
  "client_of_connect _ = CE_BadParameter"

definition client_of_validate :: "validate_error \<Rightarrow> client_error" where
  "client_of_validate _ = CE_BadParameter"

datatype connection_status = NotConnected | Connected | DisconnectPending

datatype subscription_type = ST_Subscribe | ST_Unsubscribe

record mqtt_context =
  mc_properties :: connection_properties
  mc_connect_status :: connection_status
  mc_network :: bytes
  mc_next_packet_id :: u16
  mc_records :: "publish_records option"
  mc_ack_properties :: bytes
  mc_ack_used :: nat
  mc_last_packet_tx_time :: u32
  mc_last_packet_rx_time :: u32
  mc_ping_req_send_time :: u32
  mc_waiting_for_ping_resp :: bool
  mc_keep_alive_seconds :: u16
  mc_control_packet_sent :: bool
  mc_index :: nat

section \<open>The context\<close>

definition context_new :: "bytes \<Rightarrow> mqtt_context" where
  "context_new network =
     \<lparr>mc_properties = connection_properties_new, mc_connect_status = NotConnected,
      mc_network = network, mc_next_packet_id = 1, mc_records = None, mc_ack_properties = [],
      mc_ack_used = 0, mc_last_packet_tx_time = 0, mc_last_packet_rx_time = 0,
      mc_ping_req_send_time = 0, mc_waiting_for_ping_resp = False, mc_keep_alive_seconds = 0,
      mc_control_packet_sent = False, mc_index = 0\<rparr>"

definition enable_qos :: "pub_record list \<Rightarrow> pub_record list \<Rightarrow> bytes \<Rightarrow> mqtt_context \<Rightarrow> mqtt_context" where
  "enable_qos outgoing incoming ack_properties c =
     c\<lparr>mc_records := Some (records_new outgoing incoming),
       mc_ack_properties := ack_properties, mc_ack_used := 0\<rparr>"

definition outgoing_records :: "mqtt_context \<Rightarrow> nat" where
  "outgoing_records c = (case mc_records c of None \<Rightarrow> 0 | Some r \<Rightarrow> length (pr_outgoing r))"

definition incoming_records :: "mqtt_context \<Rightarrow> nat" where
  "incoming_records c = (case mc_records c of None \<Rightarrow> 0 | Some r \<Rightarrow> length (pr_incoming r))"

text \<open>A method of \<open>PublishRecords\<close> on the arrays of the context, which are there.\<close>

definition on_records ::
    "(publish_records \<Rightarrow> publish_records \<times> (state_error + 'a)) \<Rightarrow> publish_records \<Rightarrow>
     mqtt_context \<Rightarrow> mqtt_context \<times> (client_error + 'a)" where
  "on_records f r c = (case f r of (r', res) \<Rightarrow> (c\<lparr>mc_records := Some r'\<rparr>, map_err CE_State res))"

definition cancel_callback :: "u16 \<Rightarrow> mqtt_context \<Rightarrow> mqtt_context \<times> (client_error + unit)" where
  "cancel_callback packet_id c =
     (case mc_records c of
        None \<Rightarrow> (c, Inl CE_BadParameter)
      | Some records \<Rightarrow> on_records (\<lambda>r. remove_record r packet_id) records c)"

definition next_packet_id :: "mqtt_context \<Rightarrow> mqtt_context \<times> u16" where
  "next_packet_id c =
     (let i = mc_next_packet_id c
      in (c\<lparr>mc_next_packet_id := (if mc_next_packet_id c = - 1 then 1 else mc_next_packet_id c + 1)\<rparr>, i))"

definition connected :: "mqtt_context \<Rightarrow> client_error + unit" where
  "connected c = (case mc_connect_status c of
      Connected \<Rightarrow> Inr ()
    | NotConnected \<Rightarrow> Inl CE_NotConnected
    | DisconnectPending \<Rightarrow> Inl CE_DisconnectPending)"

section \<open>What a SUBSCRIBE, UNSUBSCRIBE or PUBLISH is checked against\<close>

definition wildcards_forbidden :: "mqtt_context \<Rightarrow> bytes \<Rightarrow> bool" where
  "wildcards_forbidden c topic_filter \<longleftrightarrow>
     ls_wildcard_available (cp_server (mc_properties c)) = 0 \<and>
     (0x23 \<in> set topic_filter \<or> 0x2B \<in> set topic_filter)"

text \<open>\<open>b"$share/"\<close>.\<close>

abbreviation SHARE_PREFIX :: bytes where "SHARE_PREFIX \<equiv> [0x24, 0x73, 0x68, 0x61, 0x72, 0x65, 0x2F]"

fun byte_position :: "byte \<Rightarrow> bytes \<Rightarrow> nat option" where
  "byte_position x [] = None"
| "byte_position x (b # bs) = (if b = x then Some 0 else map_option Suc (byte_position x bs))"

definition validate_shared :: "mqtt_context \<Rightarrow> subscription \<Rightarrow> client_error + unit" where
  "validate_shared c entry =
     (let topic_filter = sb_topic_filter entry in
      if length topic_filter \<le> length SHARE_PREFIX \<or>
         take (length SHARE_PREFIX) topic_filter \<noteq> SHARE_PREFIX then Inr ()
      else case slice_from topic_filter (length SHARE_PREFIX) of
        None \<Rightarrow> Inr ()
      | Some rest \<Rightarrow> (case byte_position 0x2F rest of
          None \<Rightarrow> Inl CE_BadParameter
        | Some fin \<Rightarrow>
            if fin = 0 then Inl CE_BadParameter
            else if sb_no_local entry then Inl CE_BadParameter
            else if ls_shared_available (cp_server (mc_properties c)) = 0 then Inl CE_BadParameter
            else if length SHARE_PREFIX + fin = length topic_filter - 1 then Inl CE_BadParameter
            else (case slice rest 0 fin of
              None \<Rightarrow> Inr ()
            | Some name \<Rightarrow>
                if 0x23 \<in> set name \<or> 0x2B \<in> set name then Inl CE_BadParameter else Inr ())))"

definition validate_one ::
    "mqtt_context \<Rightarrow> subscription_type \<Rightarrow> subscription \<Rightarrow> client_error + unit" where
  "validate_one c which entry =
     (if sb_topic_filter entry = [] then Inl CE_BadParameter
      else if try_u16 (length (sb_topic_filter entry)) = None then Inl CE_BadParameter
      else if which = ST_Unsubscribe then Inr ()
      else if wildcards_forbidden c (sb_topic_filter entry) then Inl CE_BadParameter
      else validate_shared c entry)"

text \<open>Each entry's answer takes the place of the one before.\<close>

fun validate_each :: "mqtt_context \<Rightarrow> subscription_type \<Rightarrow> client_error + unit \<Rightarrow>
    subscription list \<Rightarrow> client_error + unit" where
  "validate_each c which status [] = status"
| "validate_each c which status (entry # entries) =
     validate_each c which (validate_one c which entry) entries"

definition validate_subscriptions :: "mqtt_context \<Rightarrow> subscription list \<Rightarrow> u16 \<Rightarrow>
    subscription_type \<Rightarrow> client_error + unit" where
  "validate_subscriptions c entries packet_id which =
     (if entries = [] \<or> packet_id = 0 then Inl CE_BadParameter
      else if incoming_records c = 0 \<and> list_ex (\<lambda>entry. sb_qos entry \<noteq> AtMostOnce) entries
      then Inl CE_BadParameter
      else validate_each c which (Inr ()) entries)"

definition validate_publish :: "mqtt_context \<Rightarrow> qos \<Rightarrow> u16 \<Rightarrow> nat \<Rightarrow> nat \<Rightarrow> client_error + unit" where
  "validate_publish c qos packet_id topic_length payload_length =
     (if qos \<noteq> AtMostOnce \<and> packet_id = 0 then Inl CE_BadParameter
      else if try_u16 topic_length = None then Inl CE_BadParameter
      else if (case try_u32 payload_length of
                 None \<Rightarrow> True | Some n \<Rightarrow> n \<ge> REMAINING_LENGTH_INVALID) then Inl CE_BadParameter
      else if outgoing_records c = 0 \<and> qos \<noteq> AtMostOnce then Inl CE_BadParameter
      else Inr ())"

section \<open>Vectors and the store's keys\<close>

text \<open>\<open>usize\<close> is unbounded in the model, so the checked sum does not fail.\<close>

definition vector_bytes :: "bytes list \<Rightarrow> nat" where
  "vector_bytes parts = sum_list (map length parts)"

fun copy_parts :: "bytes \<Rightarrow> nat \<Rightarrow> bytes list \<Rightarrow> bytes \<times> nat" where
  "copy_parts destination at [] = (destination, at)"
| "copy_parts destination at (part # parts) =
     (case put_slice destination at part of
        None \<Rightarrow> (destination, 0)
      | Some d \<Rightarrow> copy_parts d (at + length part) parts)"

definition serialize_vector :: "bytes \<Rightarrow> bytes list \<Rightarrow> bytes \<times> nat" where
  "serialize_vector destination parts =
     (if length destination < vector_bytes parts then (destination, 0)
      else copy_parts destination 0 parts)"

definition incoming_key :: "u16 \<Rightarrow> u32" where
  "incoming_key packet_id = ucast packet_id OR push_bit 16 1"

section \<open>Packet identifiers\<close>

text \<open>The identifiers handed out one after the other.\<close>

fun packet_ids :: "nat \<Rightarrow> mqtt_context \<Rightarrow> u16 list" where
  "packet_ids 0 c = []"
| "packet_ids (Suc n) c = (case next_packet_id c of (c', i) \<Rightarrow> i # packet_ids n c')"

lemma next_packet_id_next:
  "mc_next_packet_id c \<noteq> 0 \<Longrightarrow>
   unat (mc_next_packet_id (fst (next_packet_id c))) = unat (mc_next_packet_id c) mod 65535 + 1"
proof -
  assume i: "mc_next_packet_id c \<noteq> 0"
  show ?thesis
  proof (cases "mc_next_packet_id c = - 1")
    case True
    have "unat (- 1 :: u16) = 65535" by (simp add: unat_all_ones)
    then show ?thesis using True by (simp add: next_packet_id_def)
  next
    case False
    then have "unat (mc_next_packet_id c) \<noteq> 65535"
      using word_of_unat [of "mc_next_packet_id c" 65535] by auto
    then have lt: "unat (mc_next_packet_id c) < 65535" using unat_lt16 [of "mc_next_packet_id c"] by linarith
    then have "unat (mc_next_packet_id c + 1) = unat (mc_next_packet_id c) + 1"
      by (simp add: unat_word_ariths)
    then show ?thesis using False lt by (simp add: next_packet_id_def Let_def)
  qed
qed

lemma packet_ids_nth:
  "mc_next_packet_id c \<noteq> 0 \<Longrightarrow> k < n \<Longrightarrow>
   unat (packet_ids n c ! k) = (unat (mc_next_packet_id c) - 1 + k) mod 65535 + 1"
proof (induction n arbitrary: c k)
  case (Suc n)
  let ?i = "mc_next_packet_id c" and ?c = "fst (next_packet_id c)"
  have i: "0 < unat ?i" "unat ?i < 65536" using Suc.prems(1) by (simp_all add: unat_gt_0)
  have ids: "packet_ids (Suc n) c = ?i # packet_ids n ?c"
    by (simp add: next_packet_id_def Let_def)
  have next_id: "unat (mc_next_packet_id ?c) = unat ?i mod 65535 + 1"
    using Suc.prems(1) by (rule next_packet_id_next)
  show ?case
  proof (cases k)
    case 0
    then show ?thesis using i unfolding ids by (simp add: mod_less del: unat_lt16)
  next
    case (Suc k')
    have "mc_next_packet_id ?c \<noteq> 0" using next_id by auto
    from Suc.IH [OF this, of k'] Suc Suc.prems(2)
    have "unat (packet_ids n ?c ! k') = (unat ?i mod 65535 + k') mod 65535 + 1"
      by (simp add: next_id)
    then have "unat (packet_ids (Suc n) c ! k) = (unat ?i mod 65535 + k') mod 65535 + 1"
      by (simp only: ids Suc nth_Cons_Suc)
    also have "(unat ?i mod 65535 + k') mod 65535 = (unat ?i - 1 + k) mod 65535"
      using i Suc by (simp add: mod_add_left_eq)
    finally show ?thesis .
  qed
qed simp

lemma length_packet_ids [simp]: "length (packet_ids n c) = n"
  by (induction n arbitrary: c) (simp_all add: split: prod.split)

text \<open>C39. The identifiers the client hands out, in any number, start from a next identifier that is not zero:
  none of them is zero, and no 65535 in a row repeat one. The wrap goes to 1.\<close>

theorem packet_ids_fresh:
  assumes "mc_next_packet_id c \<noteq> 0" and "n \<le> 65535"
  shows "0 \<notin> set (packet_ids n c) \<and> distinct (packet_ids n c)"
proof -
  note nth = packet_ids_nth [OF assms(1)]
  have "packet_ids n c ! k \<noteq> 0" if "k < n" for k
    using nth [OF that] by auto
  moreover have "packet_ids n c ! j \<noteq> packet_ids n c ! k" if "j < k" "k < n" for j k
  proof
    assume eq: "packet_ids n c ! j = packet_ids n c ! k"
    let ?m = "unat (mc_next_packet_id c) - 1"
    have "j < n" using that by simp
    then have "(?m + k) mod 65535 = (?m + j) mod 65535"
      using nth [where k = j and n = n] nth [where k = k and n = n, OF that(2)] eq by simp
    then have "65535 dvd (?m + k) - (?m + j)"
      using that by (subst (asm) mod_eq_dvd_iff_nat) simp_all
    then have "65535 dvd k - j" by simp
    moreover have "0 < k - j" "k - j < 65535" using that assms(2) by auto
    ultimately show False using nat_dvd_not_less by blast
  qed
  ultimately show ?thesis
    by (auto simp: in_set_conv_nth distinct_conv_nth) (metis linorder_neqE_nat)
qed

theorem packet_ids_fresh_witness:
  "distinct (packet_ids 65535 (context_new [])) \<and> packet_ids 2 (context_new []) = [1, 2]"
proof -
  have "mc_next_packet_id (context_new []) \<noteq> 0" by (simp add: context_new_def)
  from packet_ids_fresh [OF this, of 65535] show ?thesis
    by (simp add: context_new_def next_packet_id_def numeral_2_eq_2)
qed

section \<open>The keys and the vectors\<close>

lemma incoming_key_apart: "incoming_key i \<noteq> ucast (j :: u16)"
proof
  assume "incoming_key i = ucast j"
  then have "bit (incoming_key i) 16 = bit (ucast j :: u32) 16" by simp
  moreover have "\<not> bit j 16" using bit_imp_le_length [of j 16] by auto
  ultimately show False by (simp add: incoming_key_def bit_simps)
qed

lemma copy_parts_ok:
  "length xs + vector_bytes parts \<le> length d \<Longrightarrow>
   copy_parts (written d xs) (length xs) parts =
     (written d (xs @ concat parts), length xs + vector_bytes parts)"
proof (induction parts arbitrary: xs)
  case (Cons p ps)
  have "put_slice (written d xs) (length xs) p = Some (written d (xs @ p))"
    using Cons.prems splice_written [of xs p d] by (simp add: put_slice_def vector_bytes_def)
  then show ?case
    using Cons.IH [of "xs @ p"] Cons.prems by (simp add: vector_bytes_def)
qed (simp add: vector_bytes_def)

lemma serialize_vector_ok:
  "serialize_vector d parts =
     (if length d < length (concat parts) then (d, 0)
      else (written d (concat parts), length (concat parts)))"
  using copy_parts_ok [of "[]" parts d]
  by (simp add: serialize_vector_def vector_bytes_def length_concat not_less)

section \<open>The subscriptions a client may ask for\<close>

lemma byte_position_append:
  "x \<notin> set ys \<Longrightarrow> byte_position x (ys @ x # zs) = Some (length ys)"
  by (induction ys) auto

lemma byte_position_Some:
  "byte_position x bs = Some n \<Longrightarrow> \<exists>ys zs. bs = ys @ x # zs \<and> x \<notin> set ys \<and> n = length ys"
proof (induction bs arbitrary: n)
  case (Cons b bs)
  show ?case
  proof (cases "b = x")
    case True
    then show ?thesis using Cons.prems by (intro exI [of _ "[]"] exI [of _ bs]) auto
  next
    case False
    then obtain m where m: "byte_position x bs = Some m" "n = Suc m" using Cons.prems by auto
    from Cons.IH [OF m(1)] obtain ys zs where "bs = ys @ x # zs" "x \<notin> set ys" "m = length ys" by blast
    then show ?thesis using False m(2) by (intro exI [of _ "b # ys"] exI [of _ zs]) auto
  qed
qed simp

lemma byte_position_None: "byte_position x bs = None \<longleftrightarrow> x \<notin> set bs"
  by (induction bs) auto

definition shared_filter :: "bytes \<Rightarrow> bool" where
  "shared_filter f \<longleftrightarrow> (\<exists>rest. rest \<noteq> [] \<and> f = SHARE_PREFIX @ rest)"

definition shared_ok :: "bytes \<Rightarrow> bool" where
  "shared_ok f \<longleftrightarrow> (\<exists>name rest. f = SHARE_PREFIX @ name @ 0x2F # rest \<and> name \<noteq> [] \<and> rest \<noteq> [] \<and>
     set name \<inter> {0x2F, 0x23, 0x2B} = {})"

lemma shared_filter_code:
  "\<not> (length f \<le> length SHARE_PREFIX \<or> take (length SHARE_PREFIX) f \<noteq> SHARE_PREFIX) \<longleftrightarrow> shared_filter f"
proof
  assume a: "\<not> (length f \<le> length SHARE_PREFIX \<or> take (length SHARE_PREFIX) f \<noteq> SHARE_PREFIX)"
  then have "f = SHARE_PREFIX @ drop (length SHARE_PREFIX) f"
    by (metis append_take_drop_id)
  then show "shared_filter f" using a unfolding shared_filter_def
    by (metis append_Nil2 le_refl)
qed (auto simp: shared_filter_def)

lemma validate_shared_ok:
  "validate_shared c e = Inr () \<longleftrightarrow>
     (shared_filter (sb_topic_filter e) \<longrightarrow> shared_ok (sb_topic_filter e) \<and> \<not> sb_no_local e \<and>
        ls_shared_available (cp_server (mc_properties c)) \<noteq> 0)"
proof (cases "shared_filter (sb_topic_filter e)")
  case False
  then have plain: "length (sb_topic_filter e) \<le> length SHARE_PREFIX \<or>
      take (length SHARE_PREFIX) (sb_topic_filter e) \<noteq> SHARE_PREFIX"
    using shared_filter_code by blast
  show ?thesis unfolding validate_shared_def Let_def if_P [OF plain] by (simp add: False)
next
  case True
  then obtain rest where f: "sb_topic_filter e = SHARE_PREFIX @ rest" "rest \<noteq> []"
    by (auto simp: shared_filter_def)
  have nf: "\<not> (length (sb_topic_filter e) \<le> length SHARE_PREFIX \<or>
      take (length SHARE_PREFIX) (sb_topic_filter e) \<noteq> SHARE_PREFIX)"
    using True shared_filter_code by blast
  have sl: "slice_from (sb_topic_filter e) (length SHARE_PREFIX) = Some rest"
    by (simp add: f slice_from_def)
  have ok: "shared_ok (sb_topic_filter e) \<longleftrightarrow> (\<exists>name tail. rest = name @ 0x2F # tail \<and> name \<noteq> [] \<and>
      tail \<noteq> [] \<and> set name \<inter> {0x2F, 0x23, 0x2B} = {})"
    by (simp add: shared_ok_def f(1))
  show ?thesis
  proof (cases "byte_position 0x2F rest")
    case None
    then have "0x2F \<notin> set rest" by (simp add: byte_position_None)
    then have "\<not> shared_ok (sb_topic_filter e)" unfolding ok by auto
    then show ?thesis
      unfolding validate_shared_def Let_def if_not_P [OF nf] sl option.case None
      by (simp add: True)
  next
    case (Some n)
    then obtain name tail where nt: "rest = name @ 0x2F # tail" "0x2F \<notin> set name" "n = length name"
      using byte_position_Some [OF Some] by blast
    have uniq: "name' = name \<and> tail' = tail" if "rest = name' @ 0x2F # tail'" "0x2F \<notin> set name'" for name' tail'
    proof -
      have "length name' = length name"
        using Some byte_position_append [OF that(2), of tail'] unfolding that(1) nt(3) by simp
      moreover have "name' @ 0x2F # tail' = name @ 0x2F # tail" using that(1) nt(1) by (rule trans [OF sym])
      ultimately show ?thesis by (simp add: append_eq_append_conv)
    qed
    have ok': "shared_ok (sb_topic_filter e) \<longleftrightarrow> name \<noteq> [] \<and> tail \<noteq> [] \<and> 0x23 \<notin> set name \<and> 0x2B \<notin> set name"
    proof
      assume "shared_ok (sb_topic_filter e)"
      then obtain name' tail' where "rest = name' @ 0x2F # tail'" "name' \<noteq> []" "tail' \<noteq> []"
        "set name' \<inter> {0x2F, 0x23, 0x2B} = {}"
        unfolding ok by blast
      moreover from this uniq [of name' tail'] have "name' = name \<and> tail' = tail" by blast
      ultimately show "name \<noteq> [] \<and> tail \<noteq> [] \<and> 0x23 \<notin> set name \<and> 0x2B \<notin> set name" by blast
    next
      assume "name \<noteq> [] \<and> tail \<noteq> [] \<and> 0x23 \<notin> set name \<and> 0x2B \<notin> set name"
      then show "shared_ok (sb_topic_filter e)" unfolding ok using nt(1,2) by blast
    qed
    have name: "slice rest 0 n = Some name" by (simp add: slice_def nt)
    have fin: "length SHARE_PREFIX + n = length (sb_topic_filter e) - 1 \<longleftrightarrow> tail = []"
      by (simp add: f nt)
    show ?thesis
      unfolding validate_shared_def Let_def if_not_P [OF nf] sl option.case Some fin name ok'
      by (simp add: True nt(3))
  qed
qed

lemma validate_each_last:
  "validate_each c which st (es @ [e]) = validate_one c which e"
  by (induction es arbitrary: st) simp_all

text \<open>What the client checks of a SUBSCRIBE or UNSUBSCRIBE list: an identifier that is not zero,
  no QoS above 0 without records to keep it in, and the \<^emph>\<open>last\<close> entry alone: its filter
  is not empty and fits two bytes, and in a SUBSCRIBE it has no wildcard the broker forbids,
  and a shared filter is \<open>$share/\<close> with a name, a slash and a filter, without no-local and
  only where the broker allows it. The entries before the last may be anything.\<close>

theorem validate_subscriptions_iff:
  "validate_subscriptions c (es @ [e]) i which = Inr () \<longleftrightarrow> i \<noteq> 0 \<and>
    (incoming_records c = 0 \<longrightarrow> list_all (\<lambda>s. sb_qos s = AtMostOnce) (es @ [e])) \<and>
    sb_topic_filter e \<noteq> [] \<and> length (sb_topic_filter e) < 65536 \<and>
    (which = ST_Subscribe \<longrightarrow>
       \<not> wildcards_forbidden c (sb_topic_filter e) \<and>
       (shared_filter (sb_topic_filter e) \<longrightarrow> shared_ok (sb_topic_filter e) \<and> \<not> sb_no_local e \<and>
          ls_shared_available (cp_server (mc_properties c)) \<noteq> 0))"
proof -
  have "validate_one c which e = Inr () \<longleftrightarrow>
      sb_topic_filter e \<noteq> [] \<and> length (sb_topic_filter e) < 65536 \<and>
      (which = ST_Subscribe \<longrightarrow> \<not> wildcards_forbidden c (sb_topic_filter e) \<and> validate_shared c e = Inr ())"
    by (cases which) (auto simp: validate_one_def try_u16_def)
  then show ?thesis
    unfolding validate_subscriptions_def validate_each_last validate_shared_ok
    by (auto simp: list_ex_iff list_all_iff)
qed

theorem validate_subscriptions_iff_witness:
  "validate_subscriptions (context_new [])
     ([\<lparr>sb_topic_filter = [], sb_qos = AtMostOnce, sb_no_local = False,
        sb_retain_as_published = False, sb_retain_handling = OnSubscribe\<rparr>] @
      [\<lparr>sb_topic_filter = [0x61], sb_qos = AtMostOnce, sb_no_local = False,
        sb_retain_as_published = False, sb_retain_handling = OnSubscribe\<rparr>]) 1 ST_Subscribe = Inr ()"
  unfolding validate_subscriptions_iff
  by (simp add: wildcards_forbidden_def context_new_def connection_properties_new_def shared_filter_def)

end
