(* ===== verification/Builder.thy ===== *)
theory Builder
  imports Validate Connack
begin

text \<open>
  builder.rs: the buffer an outgoing property section is assembled in, the table of the
  properties a packet type may carry, and the eighteen adders. An adder answers the builder
  afterwards and its result. The specification is a list of properties (\<open>spec_add\<close>); the
  refinement lemma says that each adder answers what the specification answers and that the
  bytes of the section are the bytes of the list.
\<close>

section \<open>The builder\<close>

datatype builder_error =
    Builder_Empty | Builder_TooLong | Builder_AlreadySet | Builder_NotAllowedInPacket
  | Builder_BadValue | Builder_NoMemory

record property_builder =
  pb_buffer :: bytes
  pb_at :: nat
  pb_fields :: u32

type_synonym built = "property_builder \<times> (builder_error + unit)"

definition builder_new :: "bytes \<Rightarrow> builder_error + property_builder" where
  "builder_new buffer =
     (if buffer = [] then Inl Builder_Empty
      else case try_u32 (length buffer) of
        None \<Rightarrow> Inl Builder_TooLong
      | Some len \<Rightarrow>
          if len \<ge> REMAINING_LENGTH_INVALID then Inl Builder_TooLong
          else Inr \<lparr>pb_buffer = buffer, pb_at = 0, pb_fields = 0\<rparr>)"

definition builder_resume :: "bytes \<Rightarrow> nat \<Rightarrow> builder_error + property_builder" where
  "builder_resume buffer at =
     (if at > length buffer then Inl Builder_TooLong
      else rbind (builder_new buffer) (\<lambda>builder. Inr (builder\<lparr>pb_at := at\<rparr>)))"

definition builder_len :: "property_builder \<Rightarrow> nat" where
  "builder_len b = pb_at b"

definition builder_is_empty :: "property_builder \<Rightarrow> bool" where
  "builder_is_empty b \<longleftrightarrow> pb_at b = 0"

definition builder_capacity :: "property_builder \<Rightarrow> nat" where
  "builder_capacity b = length (pb_buffer b)"

definition builder_fields :: "property_builder \<Rightarrow> u32" where
  "builder_fields b = pb_fields b"

definition builder_section :: "property_builder \<Rightarrow> bytes" where
  "builder_section b = (case slice (pb_buffer b) 0 (pb_at b) of None \<Rightarrow> [] | Some s \<Rightarrow> s)"

section \<open>Which properties a packet may carry\<close>

definition field_bit :: "nat \<Rightarrow> u32" where
  "field_bit fld = push_bit fld 1"

definition allowed_properties :: "byte \<Rightarrow> u32" where
  "allowed_properties packet_type =
     (if packet_type = CONNECT then
        field_bit F_SESSION_EXPIRY_INTERVAL OR field_bit F_RECEIVE_MAXIMUM
        OR field_bit F_MAX_PACKET_SIZE OR field_bit F_TOPIC_ALIAS_MAX
        OR field_bit F_REQUEST_RESPONSE_INFO OR field_bit F_REQUEST_PROBLEM_INFO
        OR field_bit F_USER_PROP OR field_bit F_AUTHENTICATION_METHOD
        OR field_bit F_AUTHENTICATION_DATA OR field_bit F_WILL_DELAY
        OR field_bit F_PAYLOAD_FORMAT_INDICATOR OR field_bit F_MESSAGE_EXPIRY_INTERVAL
        OR field_bit F_CONTENT_TYPE OR field_bit F_RESPONSE_TOPIC OR field_bit F_CORRELATION_DATA
      else if packet_type = CONNACK then
        field_bit F_SESSION_EXPIRY_INTERVAL OR field_bit F_RECEIVE_MAXIMUM
        OR field_bit F_MAX_QOS OR field_bit F_RETAIN_AVAILABLE
        OR field_bit F_MAX_PACKET_SIZE OR field_bit F_ASSIGNED_CLIENT_ID
        OR field_bit F_TOPIC_ALIAS_MAX OR field_bit F_REASON_STRING
        OR field_bit F_USER_PROP OR field_bit F_WILDCARD_SUBSCRIPTION_AVAILABLE
        OR field_bit F_SUBSCRIPTION_ID_AVAILABLE OR field_bit F_SHARED_SUBSCRIPTION_AVAILABLE
        OR field_bit F_SERVER_KEEP_ALIVE OR field_bit F_RESPONSE_INFORMATION
        OR field_bit F_SERVER_REFERENCE OR field_bit F_AUTHENTICATION_METHOD
        OR field_bit F_AUTHENTICATION_DATA
      else if packet_type = PUBLISH then
        field_bit F_PAYLOAD_FORMAT_INDICATOR OR field_bit F_MESSAGE_EXPIRY_INTERVAL
        OR field_bit F_TOPIC_ALIAS OR field_bit F_RESPONSE_TOPIC
        OR field_bit F_CORRELATION_DATA OR field_bit F_USER_PROP
        OR field_bit F_SUBSCRIPTION_ID OR field_bit F_CONTENT_TYPE
      else if packet_type \<in> {PUBACK, PUBREC, PUBREL, PUBCOMP} then
        field_bit F_REASON_STRING OR field_bit F_USER_PROP
      else if packet_type = SUBSCRIBE then field_bit F_SUBSCRIPTION_ID OR field_bit F_USER_PROP
      else if packet_type \<in> {SUBACK, UNSUBACK} then
        field_bit F_REASON_STRING OR field_bit F_USER_PROP
      else if packet_type = UNSUBSCRIBE then field_bit F_USER_PROP
      else if packet_type = DISCONNECT then
        field_bit F_SESSION_EXPIRY_INTERVAL OR field_bit F_REASON_STRING
        OR field_bit F_USER_PROP OR field_bit F_SERVER_REFERENCE
      else if packet_type = AUTH then
        field_bit F_AUTHENTICATION_METHOD OR field_bit F_AUTHENTICATION_DATA
        OR field_bit F_REASON_STRING OR field_bit F_USER_PROP
      else 0)"

section \<open>The checks and the writes\<close>

definition not_allowed :: "byte option \<Rightarrow> nat \<Rightarrow> bool" where
  "not_allowed packet_type fld =
     (case packet_type of None \<Rightarrow> False
      | Some kind \<Rightarrow> allowed_properties kind AND field_bit fld = 0)"

definition room_for :: "property_builder \<Rightarrow> nat \<Rightarrow> nat \<Rightarrow> byte option \<Rightarrow> builder_error + unit" where
  "room_for b needed fld packet_type =
     (if pb_fields b AND field_bit fld \<noteq> 0 then Inl Builder_AlreadySet
      else if not_allowed packet_type fld then Inl Builder_NotAllowedInPacket
      else if builder_capacity b - pb_at b < needed then Inl Builder_NoMemory
      else case try_u32 (pb_at b + needed) of
        None \<Rightarrow> Inl Builder_TooLong
      | Some stop \<Rightarrow> if stop > REMAINING_LENGTH_INVALID then Inl Builder_TooLong else Inr ())"

text \<open>The rest of an adder after a check that may refuse; nothing has been written by then.\<close>

definition after_check :: "builder_error + unit \<Rightarrow> property_builder \<Rightarrow> built \<Rightarrow> built" where
  "after_check check b rest = (case check of Inl e \<Rightarrow> (b, Inl e) | Inr _ \<Rightarrow> rest)"

definition mark_field :: "nat \<Rightarrow> nat \<Rightarrow> property_builder \<Rightarrow> property_builder" where
  "mark_field stop fld b = b\<lparr>pb_at := stop, pb_fields := pb_fields b OR field_bit fld\<rparr>"

definition builder_put :: "property_builder \<Rightarrow> byte \<Rightarrow> bytes \<Rightarrow> nat \<Rightarrow> built" where
  "builder_put b pid bs fld =
     (let stop = pb_at b + 1 + length bs in
      case slice (pb_buffer b) (pb_at b) stop of
        None \<Rightarrow> (b, Inl Builder_NoMemory)
      | Some [] \<Rightarrow> (b, Inl Builder_NoMemory)
      | Some (_ # _) \<Rightarrow>
          (mark_field stop fld (b\<lparr>pb_buffer := splice (pb_buffer b) (pb_at b) (pid # bs)\<rparr>), Inr ()))"

definition add_u8 :: "property_builder \<Rightarrow> bool \<Rightarrow> byte \<Rightarrow> nat \<Rightarrow> byte option \<Rightarrow> built" where
  "add_u8 b v pid fld packet_type =
     after_check (room_for b 2 fld packet_type) b (builder_put b pid [of_bool v] fld)"

definition add_u16 :: "property_builder \<Rightarrow> u16 \<Rightarrow> byte \<Rightarrow> nat \<Rightarrow> byte option \<Rightarrow> built" where
  "add_u16 b v pid fld packet_type =
     after_check (room_for b 3 fld packet_type) b (builder_put b pid (be16 v) fld)"

definition add_u32 :: "property_builder \<Rightarrow> u32 \<Rightarrow> byte \<Rightarrow> nat \<Rightarrow> byte option \<Rightarrow> built" where
  "add_u32 b v pid fld packet_type =
     after_check (room_for b 5 fld packet_type) b (builder_put b pid (be32 v) fld)"

definition add_utf8 :: "property_builder \<Rightarrow> bytes \<Rightarrow> byte \<Rightarrow> nat \<Rightarrow> byte option \<Rightarrow> built" where
  "add_utf8 b v pid fld packet_type =
     (if v = [] then (b, Inl Builder_BadValue)
      else case try_u16 (length v) of
        None \<Rightarrow> (b, Inl Builder_BadValue)
      | Some len \<Rightarrow>
          after_check (room_for b (unat len + 3) fld packet_type) b
            (let start = pb_at b; stop = start + 3 + unat len in
             case slice (pb_buffer b) start stop of
               None \<Rightarrow> (b, Inl Builder_NoMemory)
             | Some [] \<Rightarrow> (b, Inl Builder_NoMemory)
             | Some (_ # rest) \<Rightarrow>
                 if length rest < 2 then (b, Inl Builder_NoMemory)
                 else (mark_field stop fld
                         (b\<lparr>pb_buffer := splice (pb_buffer b) start (pid # be16 len @ v)\<rparr>), Inr ())))"

section \<open>The adders\<close>

definition add_session_expiry :: "u32 \<Rightarrow> byte option \<Rightarrow> property_builder \<Rightarrow> built" where
  "add_session_expiry seconds packet_type b =
     add_u32 b seconds ID_SESSION_EXPIRY F_SESSION_EXPIRY_INTERVAL packet_type"

definition add_receive_max :: "u16 \<Rightarrow> byte option \<Rightarrow> property_builder \<Rightarrow> built" where
  "add_receive_max v packet_type b =
     (if v = 0 then (b, Inl Builder_BadValue)
      else add_u16 b v ID_RECEIVE_MAX F_RECEIVE_MAXIMUM packet_type)"

definition add_max_packet_size :: "u32 \<Rightarrow> byte option \<Rightarrow> property_builder \<Rightarrow> built" where
  "add_max_packet_size v packet_type b =
     (if v = 0 then (b, Inl Builder_BadValue)
      else add_u32 b v ID_MAX_PACKET_SIZE F_MAX_PACKET_SIZE packet_type)"

definition add_topic_alias_max :: "u16 \<Rightarrow> byte option \<Rightarrow> property_builder \<Rightarrow> built" where
  "add_topic_alias_max v packet_type b =
     add_u16 b v ID_TOPIC_ALIAS_MAX F_TOPIC_ALIAS_MAX packet_type"

definition add_request_response_info :: "bool \<Rightarrow> byte option \<Rightarrow> property_builder \<Rightarrow> built" where
  "add_request_response_info v packet_type b =
     add_u8 b v ID_REQUEST_RESPONSE F_REQUEST_RESPONSE_INFO packet_type"

definition add_request_problem_info :: "bool \<Rightarrow> byte option \<Rightarrow> property_builder \<Rightarrow> built" where
  "add_request_problem_info v packet_type b =
     add_u8 b v ID_REQUEST_PROBLEM F_REQUEST_PROBLEM_INFO packet_type"

definition add_auth_method :: "bytes \<Rightarrow> byte option \<Rightarrow> property_builder \<Rightarrow> built" where
  "add_auth_method v packet_type b =
     add_utf8 b v ID_AUTH_METHOD F_AUTHENTICATION_METHOD packet_type"

definition add_auth_data :: "bytes \<Rightarrow> byte option \<Rightarrow> property_builder \<Rightarrow> built" where
  "add_auth_data v packet_type b =
     (if pb_fields b AND field_bit F_AUTHENTICATION_METHOD = 0 then (b, Inl Builder_BadValue)
      else add_utf8 b v ID_AUTH_DATA F_AUTHENTICATION_DATA packet_type)"

definition add_payload_format :: "bool \<Rightarrow> byte option \<Rightarrow> property_builder \<Rightarrow> built" where
  "add_payload_format v packet_type b =
     add_u8 b v ID_PAYLOAD_FORMAT F_PAYLOAD_FORMAT_INDICATOR packet_type"

definition add_message_expiry :: "u32 \<Rightarrow> byte option \<Rightarrow> property_builder \<Rightarrow> built" where
  "add_message_expiry seconds packet_type b =
     add_u32 b seconds ID_MESSAGE_EXPIRY F_MESSAGE_EXPIRY_INTERVAL packet_type"

definition add_will_delay :: "u32 \<Rightarrow> byte option \<Rightarrow> property_builder \<Rightarrow> built" where
  "add_will_delay seconds packet_type b =
     add_u32 b seconds ID_WILL_DELAY F_WILL_DELAY packet_type"

definition add_topic_alias :: "u16 \<Rightarrow> byte option \<Rightarrow> property_builder \<Rightarrow> built" where
  "add_topic_alias v packet_type b =
     (if v = 0 then (b, Inl Builder_BadValue)
      else add_u16 b v ID_TOPIC_ALIAS F_TOPIC_ALIAS packet_type)"

definition add_response_topic :: "bytes \<Rightarrow> byte option \<Rightarrow> property_builder \<Rightarrow> built" where
  "add_response_topic v packet_type b =
     (if 0x23 \<in> set v \<or> 0x2B \<in> set v then (b, Inl Builder_BadValue)
      else add_utf8 b v ID_RESPONSE_TOPIC F_RESPONSE_TOPIC packet_type)"

definition add_correlation_data :: "bytes \<Rightarrow> byte option \<Rightarrow> property_builder \<Rightarrow> built" where
  "add_correlation_data v packet_type b =
     add_utf8 b v ID_CORRELATION_DATA F_CORRELATION_DATA packet_type"

definition add_content_type :: "bytes \<Rightarrow> byte option \<Rightarrow> property_builder \<Rightarrow> built" where
  "add_content_type v packet_type b =
     add_utf8 b v ID_CONTENT_TYPE F_CONTENT_TYPE packet_type"

definition add_reason_string :: "bytes \<Rightarrow> byte option \<Rightarrow> property_builder \<Rightarrow> built" where
  "add_reason_string v packet_type b =
     add_utf8 b v ID_REASON_STRING F_REASON_STRING packet_type"

definition add_subscription_id :: "u32 \<Rightarrow> byte option \<Rightarrow> property_builder \<Rightarrow> built" where
  "add_subscription_id v packet_type b =
     (if v = 0 \<or> v > MAX_REMAINING_LENGTH then (b, Inl Builder_BadValue)
      else let width = unat (variable_length_encoded_size v) in
        after_check (room_for b (width + 1) F_SUBSCRIPTION_ID packet_type) b
          (let start = pb_at b; stop = start + 1 + width in
           case slice (pb_buffer b) start stop of
             None \<Rightarrow> (b, Inl Builder_NoMemory)
           | Some [] \<Rightarrow> (b, Inl Builder_NoMemory)
           | Some (_ # body) \<Rightarrow>
               (case encode_variable_length body v of (body', count) \<Rightarrow>
                  let b' = b\<lparr>pb_buffer :=
                    splice (pb_buffer b) start (ID_SUBSCRIPTION_ID # body')\<rparr>
                  in if count \<noteq> width then (b', Inl Builder_NoMemory)
                     else (mark_field stop F_SUBSCRIPTION_ID b', Inr ()))))"

definition add_user_property :: "bytes \<Rightarrow> bytes \<Rightarrow> byte option \<Rightarrow> property_builder \<Rightarrow> built" where
  "add_user_property key v packet_type b =
     (if key = [] \<or> v = [] then (b, Inl Builder_BadValue)
      else case (try_u16 (length key), try_u16 (length v)) of
        (Some key_length, Some value_length) \<Rightarrow>
          (if not_allowed packet_type F_USER_PROP then (b, Inl Builder_NotAllowedInPacket)
           else let needed = unat key_length + unat value_length + 5 in
             if builder_capacity b - pb_at b < needed then (b, Inl Builder_NoMemory)
             else case try_u32 (pb_at b + needed) of
               None \<Rightarrow> (b, Inl Builder_TooLong)
             | Some stop \<Rightarrow>
                 if stop > REMAINING_LENGTH_INVALID then (b, Inl Builder_TooLong)
                 else let start = pb_at b; finish = start + needed in
                   case slice (pb_buffer b) start finish of
                     None \<Rightarrow> (b, Inl Builder_NoMemory)
                   | Some [] \<Rightarrow> (b, Inl Builder_NoMemory)
                   | Some (_ # rest) \<Rightarrow>
                       (case encode_string rest (Some key) key_length of (rest', count) \<Rightarrow>
                          let b' = b\<lparr>pb_buffer :=
                            splice (pb_buffer b) start (ID_USER_PROPERTY # rest')\<rparr>
                          in if count = 0 then (b', Inl Builder_NoMemory)
                             else case slice_from rest' count of
                               None \<Rightarrow> (b', Inl Builder_NoMemory)
                             | Some end_part \<Rightarrow>
                                 (case encode_string end_part (Some v) value_length of
                                    (end_part', count2) \<Rightarrow>
                                      let b'' = b\<lparr>pb_buffer := splice (pb_buffer b) start
                                        (ID_USER_PROPERTY # take count rest' @ end_part')\<rparr>
                                      in if count2 = 0 then (b'', Inl Builder_NoMemory)
                                         else (b''\<lparr>pb_at := finish\<rparr>, Inr ()))))
      | _ \<Rightarrow> (b, Inl Builder_BadValue))"

section \<open>The adders together\<close>

text \<open>One value per call of an adder, what it runs, and the property it stands for.\<close>

datatype adder =
    Session_expiry u32 | Receive_max u16 | Max_packet_size u32 | Topic_alias_max u16
  | Request_response_info bool | Request_problem_info bool | Auth_method bytes | Auth_data bytes
  | Payload_format bool | Message_expiry u32 | Will_delay u32 | Topic_alias u16
  | Response_topic bytes | Correlation_data bytes | Content_type bytes | Reason_string bytes
  | Subscription_id u32 | User_prop bytes bytes

fun run_adder :: "adder \<Rightarrow> byte option \<Rightarrow> property_builder \<Rightarrow> built" where
  "run_adder (Session_expiry v) = add_session_expiry v"
| "run_adder (Receive_max v) = add_receive_max v"
| "run_adder (Max_packet_size v) = add_max_packet_size v"
| "run_adder (Topic_alias_max v) = add_topic_alias_max v"
| "run_adder (Request_response_info v) = add_request_response_info v"
| "run_adder (Request_problem_info v) = add_request_problem_info v"
| "run_adder (Auth_method v) = add_auth_method v"
| "run_adder (Auth_data v) = add_auth_data v"
| "run_adder (Payload_format v) = add_payload_format v"
| "run_adder (Message_expiry v) = add_message_expiry v"
| "run_adder (Will_delay v) = add_will_delay v"
| "run_adder (Topic_alias v) = add_topic_alias v"
| "run_adder (Response_topic v) = add_response_topic v"
| "run_adder (Correlation_data v) = add_correlation_data v"
| "run_adder (Content_type v) = add_content_type v"
| "run_adder (Reason_string v) = add_reason_string v"
| "run_adder (Subscription_id v) = add_subscription_id v"
| "run_adder (User_prop k v) = add_user_property k v"

fun adder_property :: "adder \<Rightarrow> byte \<times> prop_value" where
  "adder_property (Session_expiry v) = (ID_SESSION_EXPIRY, PV_u32 v)"
| "adder_property (Receive_max v) = (ID_RECEIVE_MAX, PV_u16 v)"
| "adder_property (Max_packet_size v) = (ID_MAX_PACKET_SIZE, PV_u32 v)"
| "adder_property (Topic_alias_max v) = (ID_TOPIC_ALIAS_MAX, PV_u16 v)"
| "adder_property (Request_response_info v) = (ID_REQUEST_RESPONSE, PV_u8 (of_bool v))"
| "adder_property (Request_problem_info v) = (ID_REQUEST_PROBLEM, PV_u8 (of_bool v))"
| "adder_property (Auth_method v) = (ID_AUTH_METHOD, PV_utf8 v)"
| "adder_property (Auth_data v) = (ID_AUTH_DATA, PV_utf8 v)"
| "adder_property (Payload_format v) = (ID_PAYLOAD_FORMAT, PV_u8 (of_bool v))"
| "adder_property (Message_expiry v) = (ID_MESSAGE_EXPIRY, PV_u32 v)"
| "adder_property (Will_delay v) = (ID_WILL_DELAY, PV_u32 v)"
| "adder_property (Topic_alias v) = (ID_TOPIC_ALIAS, PV_u16 v)"
| "adder_property (Response_topic v) = (ID_RESPONSE_TOPIC, PV_utf8 v)"
| "adder_property (Correlation_data v) = (ID_CORRELATION_DATA, PV_utf8 v)"
| "adder_property (Content_type v) = (ID_CONTENT_TYPE, PV_utf8 v)"
| "adder_property (Reason_string v) = (ID_REASON_STRING, PV_utf8 v)"
| "adder_property (Subscription_id v) = (ID_SUBSCRIPTION_ID, PV_var v)"
| "adder_property (User_prop k v) = (ID_USER_PROPERTY, PV_user k v)"

section \<open>The specification\<close>

text \<open>The values the builder takes, and the bit that records an identifier.\<close>

fun buildable :: "byte \<times> prop_value \<Rightarrow> bool" where
  "buildable (pid, PV_u16 v) \<longleftrightarrow> (pid = ID_RECEIVE_MAX \<or> pid = ID_TOPIC_ALIAS \<longrightarrow> v \<noteq> 0)"
| "buildable (pid, PV_u32 v) \<longleftrightarrow> (pid = ID_MAX_PACKET_SIZE \<longrightarrow> v \<noteq> 0)"
| "buildable (pid, PV_utf8 s) \<longleftrightarrow> s \<noteq> [] \<and> length s < 65536 \<and>
     (pid = ID_RESPONSE_TOPIC \<longrightarrow> 0x23 \<notin> set s \<and> 0x2B \<notin> set s)"
| "buildable (pid, PV_user k v) \<longleftrightarrow> k \<noteq> [] \<and> v \<noteq> [] \<and> length k < 65536 \<and> length v < 65536"
| "buildable (pid, PV_var v) \<longleftrightarrow> v \<noteq> 0 \<and> v \<le> MAX_REMAINING_LENGTH"
| "buildable (pid, PV_u8 _) \<longleftrightarrow> True"

definition builder_fields_table :: "(byte \<times> nat) list" where
  "builder_fields_table =
     [(ID_SESSION_EXPIRY, F_SESSION_EXPIRY_INTERVAL), (ID_RECEIVE_MAX, F_RECEIVE_MAXIMUM),
      (ID_MAX_PACKET_SIZE, F_MAX_PACKET_SIZE), (ID_TOPIC_ALIAS_MAX, F_TOPIC_ALIAS_MAX),
      (ID_REQUEST_RESPONSE, F_REQUEST_RESPONSE_INFO), (ID_REQUEST_PROBLEM, F_REQUEST_PROBLEM_INFO),
      (ID_AUTH_METHOD, F_AUTHENTICATION_METHOD), (ID_AUTH_DATA, F_AUTHENTICATION_DATA),
      (ID_PAYLOAD_FORMAT, F_PAYLOAD_FORMAT_INDICATOR), (ID_MESSAGE_EXPIRY, F_MESSAGE_EXPIRY_INTERVAL),
      (ID_WILL_DELAY, F_WILL_DELAY), (ID_TOPIC_ALIAS, F_TOPIC_ALIAS),
      (ID_RESPONSE_TOPIC, F_RESPONSE_TOPIC), (ID_CORRELATION_DATA, F_CORRELATION_DATA),
      (ID_CONTENT_TYPE, F_CONTENT_TYPE), (ID_REASON_STRING, F_REASON_STRING),
      (ID_SUBSCRIPTION_ID, F_SUBSCRIPTION_ID), (ID_USER_PROPERTY, F_USER_PROP)]"

definition field_of :: "byte \<Rightarrow> nat" where
  "field_of pid = (case map_of builder_fields_table pid of Some f \<Rightarrow> f | None \<Rightarrow> 0)"

definition has_field :: "property_builder \<Rightarrow> byte \<Rightarrow> bool" where
  "has_field b pid \<longleftrightarrow> pb_fields b AND field_bit (field_of pid) \<noteq> 0"

definition builder_ok :: "property_builder \<Rightarrow> bool" where
  "builder_ok b \<longleftrightarrow> pb_at b \<le> length (pb_buffer b) \<and> length (pb_buffer b) < 268435456"

fun appended :: "property_builder \<Rightarrow> byte \<times> prop_value \<Rightarrow> property_builder" where
  "appended b (pid, v) =
     b\<lparr>pb_buffer := splice (pb_buffer b) (pb_at b) (pid # pv_bytes v),
       pb_at := pb_at b + 1 + length (pv_bytes v),
       pb_fields := (if pid = ID_USER_PROPERTY then pb_fields b
                     else pb_fields b OR field_bit (field_of pid))\<rparr>"

lemma room_for_eq:
  "builder_ok b \<Longrightarrow> room_for b needed fld kind =
     (if pb_fields b AND field_bit fld \<noteq> 0 then Inl Builder_AlreadySet
      else if not_allowed kind fld then Inl Builder_NotAllowedInPacket
      else if length (pb_buffer b) - pb_at b < needed then Inl Builder_NoMemory else Inr ())"
  by (auto simp: room_for_def builder_ok_def builder_capacity_def try_u32_def word_less_nat_alt
      unat_u32_of_nat simp del: of_nat_add)

lemma after_check_simps [simp]:
  "after_check (Inl e) b rest = (b, Inl e)"
  "after_check (Inr ()) b rest = rest"
  by (simp_all add: after_check_def)

lemma after_check_if [simp]:
  "after_check (if c then x else y) b rest = (if c then after_check x b rest else after_check y b rest)"
  by simp

lemma slice_head:
  "a < c \<Longrightarrow> c \<le> length xs \<Longrightarrow> slice xs a c = Some (xs ! a # take (c - Suc a) (drop (Suc a) xs))"
  by (simp add: slice_def Cons_nth_drop_Suc [symmetric] Suc_diff_Suc [of a c, symmetric])

lemma builder_put_eq:
  assumes "pb_at b + Suc (length bs) \<le> length (pb_buffer b)"
  shows "builder_put b pid bs fld =
    (b\<lparr>pb_buffer := splice (pb_buffer b) (pb_at b) (pid # bs), pb_at := pb_at b + Suc (length bs),
       pb_fields := pb_fields b OR field_bit fld\<rparr>, Inr ())"
  using assms by (simp add: builder_put_def mark_field_def slice_head)

text \<open>What every adder does, in the order of its checks.\<close>

definition spec_place :: "byte \<times> prop_value \<Rightarrow> byte option \<Rightarrow> property_builder \<Rightarrow> built" where
  "spec_place p kind b =
     (if fst p \<noteq> ID_USER_PROPERTY \<and> has_field b (fst p) then (b, Inl Builder_AlreadySet)
      else if not_allowed kind (field_of (fst p)) then (b, Inl Builder_NotAllowedInPacket)
      else if length (pb_buffer b) - pb_at b < 1 + length (pv_bytes (snd p))
      then (b, Inl Builder_NoMemory)
      else (appended b p, Inr ()))"

definition spec_run :: "byte \<times> prop_value \<Rightarrow> byte option \<Rightarrow> property_builder \<Rightarrow> built" where
  "spec_run p kind b =
     (if \<not> buildable p \<or> fst p = ID_AUTH_DATA \<and> \<not> has_field b ID_AUTH_METHOD
      then (b, Inl Builder_BadValue) else spec_place p kind b)"

lemma scalar_adders:
  assumes "builder_ok b" "pid \<noteq> ID_USER_PROPERTY" "field_of pid = fld"
  shows "add_u8 b c pid fld kind = spec_place (pid, PV_u8 (of_bool c)) kind b"
    "add_u16 b v pid fld kind = spec_place (pid, PV_u16 v) kind b"
    "add_u32 b d pid fld kind = spec_place (pid, PV_u32 d) kind b"
  using assms
  by (simp_all add: add_u8_def add_u16_def add_u32_def room_for_eq spec_place_def has_field_def
      builder_put_eq builder_ok_def not_less numeral_2_eq_2 numeral_3_eq_3)

lemma add_utf8_eq:
  assumes "builder_ok b" "pid \<noteq> ID_USER_PROPERTY" "field_of pid = fld"
  shows "add_utf8 b s pid fld kind =
    (if s = [] \<or> \<not> length s < 65536 then (b, Inl Builder_BadValue)
     else spec_place (pid, PV_utf8 s) kind b)"
proof (cases "s = [] \<or> \<not> length s < 65536")
  case False
  then have u: "try_u16 (length s) = Some (word_of_nat (length s))"
    "unat (word_of_nat (length s) :: u16) = length s"
    by (simp_all add: try_u16_def unat_u16_of_nat)
  show ?thesis
    using assms False
    by (auto simp: add_utf8_def u slice_head room_for_eq spec_place_def has_field_def mqtt_string_def
        mark_field_def Let_def builder_ok_def not_less)
qed (auto simp: add_utf8_def try_u16_def)

lemma add_subscription_id_eq:
  assumes "builder_ok b"
  shows "add_subscription_id v kind b = spec_run (ID_SUBSCRIPTION_ID, PV_var v) kind b"
proof (cases "v = 0 \<or> v > MAX_REMAINING_LENGTH")
  case True
  then show ?thesis by (auto simp: add_subscription_id_def spec_run_def not_le)
next
  case False
  then have v: "unat v < 268435456" by (auto simp: word_less_nat_alt)
  have w: "unat (variable_length_encoded_size v) = length (vl_encode (unat v))"
    using v by (simp add: unat_encoded_size)
  show ?thesis
    using assms False v
    by (auto simp: add_subscription_id_def spec_run_def spec_place_def w room_for_eq has_field_def
        field_of_def builder_fields_table_def Let_def slice_head encode_variable_length_eq
        mark_field_def builder_ok_def not_less splice_0 splice_def)
qed

lemma add_user_property_eq:
  assumes "builder_ok b"
  shows "add_user_property k v kind b = spec_run (ID_USER_PROPERTY, PV_user k v) kind b"
proof (cases "buildable (ID_USER_PROPERTY, PV_user k v)")
  case False
  then show ?thesis by (auto simp: add_user_property_def spec_run_def try_u16_def split: option.splits)
next
  case True
  then have u: "try_u16 (length k) = Some (word_of_nat (length k))"
    "unat (word_of_nat (length k) :: u16) = length k"
    "try_u16 (length v) = Some (word_of_nat (length v))"
    "unat (word_of_nat (length v) :: u16) = length v"
    by (simp_all add: try_u16_def unat_u16_of_nat)
  have f: "field_of ID_USER_PROPERTY = F_USER_PROP"
    by (simp add: field_of_def builder_fields_table_def)
  show ?thesis
  proof (cases "length (pb_buffer b) - pb_at b < length k + length v + 5")
    case small: True
    then show ?thesis using True
      by (auto simp: add_user_property_def spec_run_def spec_place_def u f Let_def
          builder_capacity_def)
  next
    case False
    then have room: "pb_at b + (length k + length v + 5) \<le> length (pb_buffer b)"
      using assms by (auto simp: builder_ok_def)
    let ?n = "pb_at b + (length k + length v + 5)"
    let ?rest = "take (?n - Suc (pb_at b)) (drop (Suc (pb_at b)) (pb_buffer b))"
    have lim: "try_u32 ?n = Some (word_of_nat ?n)" "\<not> word_of_nat ?n > (268435456 :: u32)"
      using room assms
      by (auto simp: try_u32_def builder_ok_def word_less_nat_alt unat_u32_of_nat simp del: of_nat_add)
    have sl: "slice (pb_buffer b) (pb_at b) ?n = Some (pb_buffer b ! pb_at b # ?rest)"
      by (rule slice_head) (use room in simp_all)
    have lr: "length ?rest = length k + length v + 4" using room by simp
    have e1: "encode_string ?rest (Some k) (word_of_nat (length k)) =
        (splice ?rest 0 (mqtt_string k), length k + 2)"
      using lr by (simp add: encode_string_Some u)
    have d: "slice_from (splice ?rest 0 (mqtt_string k)) (length k + 2) =
        Some (drop (length k + 2) ?rest)"
      using lr by (simp add: slice_from_def splice_0)
    have e2: "encode_string (drop (length k + 2) ?rest) (Some v) (word_of_nat (length v)) =
        (mqtt_string v, length v + 2)"
      using lr by (simp add: encode_string_Some u splice_0)
    have t: "take (length k + 2) (splice ?rest 0 (mqtt_string k)) = mqtt_string k"
      by (simp add: splice_0)
    have "pb_at b + 1 + length (pv_bytes (PV_user k v)) = ?n" by simp
    then have ap: "appended b (ID_USER_PROPERTY, PV_user k v) =
        b\<lparr>pb_buffer := splice (pb_buffer b) (pb_at b) (ID_USER_PROPERTY # mqtt_string k @ mqtt_string v),
          pb_at := ?n\<rparr>" by (simp del: length_mqtt_string)
    have pl: "spec_run (ID_USER_PROPERTY, PV_user k v) kind b =
        (if not_allowed kind F_USER_PROP then (b, Inl Builder_NotAllowedInPacket)
         else (appended b (ID_USER_PROPERTY, PV_user k v), Inr ()))"
      using True False unfolding spec_run_def spec_place_def by (simp add: f del: appended.simps)
    show ?thesis
      unfolding add_user_property_def pl ap u builder_capacity_def Let_def
      using True False lim(2)
      by (simp only: u lim(1) sl e1 d e2 t option.case prod.case list.case if_False if_True
          buildable.simps) simp
  qed
qed

text \<open>Every adder does what the specification says, on every branch.\<close>

lemma run_adder_eq:
  assumes "builder_ok b"
  shows "run_adder a kind b = spec_run (adder_property a) kind b"
proof -
  note u8 = scalar_adders(1) [OF assms] and u16 = scalar_adders(2) [OF assms]
    and u32 = scalar_adders(3) [OF assms] and utf8 = add_utf8_eq [OF assms]
  note defs = spec_run_def field_of_def builder_fields_table_def has_field_def
  show ?thesis
  proof (cases a)
    case (Subscription_id v)
    then show ?thesis by (simp add: add_subscription_id_eq [OF assms])
  next
    case (User_prop k v)
    then show ?thesis by (simp add: add_user_property_eq [OF assms])
  next
    case (Session_expiry v)
    then show ?thesis by (simp add: add_session_expiry_def u32 defs)
  next
    case (Receive_max v)
    then show ?thesis by (simp add: add_receive_max_def u16 defs)
  next
    case (Max_packet_size v)
    then show ?thesis by (simp add: add_max_packet_size_def u32 defs)
  next
    case (Topic_alias_max v)
    then show ?thesis by (simp add: add_topic_alias_max_def u16 defs)
  next
    case (Request_response_info v)
    then show ?thesis by (simp add: add_request_response_info_def u8 defs)
  next
    case (Request_problem_info v)
    then show ?thesis by (simp add: add_request_problem_info_def u8 defs)
  next
    case (Auth_method v)
    then show ?thesis by (simp add: add_auth_method_def utf8 defs)
  next
    case (Auth_data v)
    then show ?thesis by (simp add: add_auth_data_def utf8 defs)
  next
    case (Payload_format v)
    then show ?thesis by (simp add: add_payload_format_def u8 defs)
  next
    case (Message_expiry v)
    then show ?thesis by (simp add: add_message_expiry_def u32 defs)
  next
    case (Will_delay v)
    then show ?thesis by (simp add: add_will_delay_def u32 defs)
  next
    case (Topic_alias v)
    then show ?thesis by (simp add: add_topic_alias_def u16 defs)
  next
    case (Response_topic v)
    then show ?thesis by (auto simp: add_response_topic_def utf8 defs)
  next
    case (Correlation_data v)
    then show ?thesis by (simp add: add_correlation_data_def utf8 defs)
  next
    case (Content_type v)
    then show ?thesis by (simp add: add_content_type_def utf8 defs)
  next
    case (Reason_string v)
    then show ?thesis by (simp add: add_reason_string_def utf8 defs)
  qed
qed

section \<open>The mask is a list of identifiers\<close>

lemma bit_field_bit: "f < 32 \<Longrightarrow> bit (field_bit f) g \<longleftrightarrow> g = f"
  by (auto simp: field_bit_def bit_simps)

lemma and_field_bit: "f < 32 \<Longrightarrow> w AND field_bit f = 0 \<longleftrightarrow> \<not> bit w f"
  by (subst bit_eq_iff) (auto simp: bit_and_iff bit_field_bit)

definition builder_ids :: "byte list" where
  "builder_ids = map fst builder_fields_table"

text \<open>The identifiers among the builder's own that a packet type may carry.\<close>

definition may_carry :: "byte \<Rightarrow> byte list" where
  "may_carry kind =
     (if kind = CONNECT then
        [ID_SESSION_EXPIRY, ID_RECEIVE_MAX, ID_MAX_PACKET_SIZE, ID_TOPIC_ALIAS_MAX,
         ID_REQUEST_RESPONSE, ID_REQUEST_PROBLEM, ID_USER_PROPERTY, ID_AUTH_METHOD, ID_AUTH_DATA,
         ID_WILL_DELAY, ID_PAYLOAD_FORMAT, ID_MESSAGE_EXPIRY, ID_CONTENT_TYPE, ID_RESPONSE_TOPIC,
         ID_CORRELATION_DATA]
      else if kind = CONNACK then
        [ID_SESSION_EXPIRY, ID_RECEIVE_MAX, ID_MAX_PACKET_SIZE, ID_TOPIC_ALIAS_MAX,
         ID_REASON_STRING, ID_USER_PROPERTY, ID_AUTH_METHOD, ID_AUTH_DATA]
      else if kind = PUBLISH then
        [ID_PAYLOAD_FORMAT, ID_MESSAGE_EXPIRY, ID_TOPIC_ALIAS, ID_RESPONSE_TOPIC,
         ID_CORRELATION_DATA, ID_USER_PROPERTY, ID_SUBSCRIPTION_ID, ID_CONTENT_TYPE]
      else if kind \<in> {PUBACK, PUBREC, PUBREL, PUBCOMP, SUBACK, UNSUBACK} then
        [ID_REASON_STRING, ID_USER_PROPERTY]
      else if kind = SUBSCRIBE then [ID_SUBSCRIPTION_ID, ID_USER_PROPERTY]
      else if kind = UNSUBSCRIBE then [ID_USER_PROPERTY]
      else if kind = DISCONNECT then [ID_SESSION_EXPIRY, ID_REASON_STRING, ID_USER_PROPERTY]
      else if kind = AUTH then [ID_AUTH_METHOD, ID_AUTH_DATA, ID_REASON_STRING, ID_USER_PROPERTY]
      else [])"

lemma allowed_iff:
  assumes "pid \<in> set builder_ids"
  shows "bit (allowed_properties kind) (field_of pid) \<longleftrightarrow> pid \<in> set (may_carry kind)"
  using assms
  unfolding builder_ids_def builder_fields_table_def list.map set_simps fst_conv
  by (elim insertE emptyE)
    (simp_all add: allowed_properties_def may_carry_def field_of_def builder_fields_table_def
      bit_or_iff bit_field_bit)

section \<open>The builder holds a list of properties\<close>

text \<open>\<open>builds b ps\<close>: the section of \<open>b\<close> is the encoding of \<open>ps\<close>, and its mask records which
  identifiers occur in it.\<close>

definition builds :: "property_builder \<Rightarrow> (byte \<times> prop_value) list \<Rightarrow> bool" where
  "builds b ps \<longleftrightarrow> builder_ok b \<and> builder_section b = section_bytes ps \<and>
     pb_at b = length (section_bytes ps) \<and>
     (\<forall>pid\<in>set builder_ids. pid \<noteq> ID_USER_PROPERTY \<longrightarrow> has_field b pid = (pid \<in> fst ` set ps))"

definition spec_add :: "nat \<Rightarrow> byte option \<Rightarrow> (byte \<times> prop_value) list \<Rightarrow> byte \<times> prop_value \<Rightarrow>
    builder_error + (byte \<times> prop_value) list" where
  "spec_add capacity kind ps p =
     (if \<not> buildable p \<or> fst p = ID_AUTH_DATA \<and> ID_AUTH_METHOD \<notin> fst ` set ps
      then Inl Builder_BadValue
      else if fst p \<noteq> ID_USER_PROPERTY \<and> fst p \<in> fst ` set ps then Inl Builder_AlreadySet
      else if \<exists>k. kind = Some k \<and> fst p \<notin> set (may_carry k) then Inl Builder_NotAllowedInPacket
      else if capacity < length (section_bytes (ps @ [p])) then Inl Builder_NoMemory
      else Inr (ps @ [p]))"

lemma section_bytes_append [simp]: "section_bytes (ps @ qs) = section_bytes ps @ section_bytes qs"
  by (simp add: section_bytes_def)

lemma adder_id: "fst (adder_property a) \<in> set builder_ids"
  by (cases a) (simp_all add: builder_ids_def builder_fields_table_def)

lemma field_of_less: "pid \<in> set builder_ids \<Longrightarrow> field_of pid < 32"
  by (auto simp: builder_ids_def builder_fields_table_def field_of_def)

lemma field_of_inject:
  "pid \<in> set builder_ids \<Longrightarrow> q \<in> set builder_ids \<Longrightarrow> field_of pid = field_of q \<longleftrightarrow> pid = q"
  unfolding builder_ids_def builder_fields_table_def list.map set_simps fst_conv
  by (elim insertE emptyE) (simp_all add: field_of_def builder_fields_table_def)

lemma has_field_bit: "pid \<in> set builder_ids \<Longrightarrow> has_field b pid \<longleftrightarrow> bit (pb_fields b) (field_of pid)"
  by (simp add: has_field_def and_field_bit field_of_less)

lemma not_allowed_iff:
  "pid \<in> set builder_ids \<Longrightarrow>
   not_allowed kind (field_of pid) \<longleftrightarrow> (\<exists>k. kind = Some k \<and> pid \<notin> set (may_carry k))"
  by (auto simp: not_allowed_def and_field_bit field_of_less allowed_iff split: option.splits)

lemma builder_section_take: "builder_ok b \<Longrightarrow> builder_section b = take (pb_at b) (pb_buffer b)"
  by (simp add: builder_section_def builder_ok_def slice_def)

lemma builds_appended:
  assumes b: "builds b ps" and pid: "fst p \<in> set builder_ids"
    and room: "pb_at b + 1 + length (pv_bytes (snd p)) \<le> length (pb_buffer b)"
  shows "builds (appended b p) (ps @ [p])"
proof -
  obtain q v where p: "p = (q, v)" by (cases p)
  let ?bs = "q # pv_bytes v"
  have ok: "builder_ok (appended b p)"
    using b room by (simp add: builds_def builder_ok_def p)
  have "take (pb_at b + length ?bs) (splice (pb_buffer b) (pb_at b) ?bs) = take (pb_at b) (pb_buffer b) @ ?bs"
    by (rule take_splice) (use room in \<open>simp add: p\<close>)
  then have "builder_section (appended b p) = section_bytes (ps @ [p])"
    using b builder_section_take [of b] builder_section_take [OF ok] by (simp add: builds_def p)
  moreover have "pb_at (appended b p) = length (section_bytes (ps @ [p]))"
    using b by (simp add: builds_def p)
  moreover have "has_field (appended b p) i \<longleftrightarrow> i \<in> fst ` set (ps @ [p])"
    if i: "i \<in> set builder_ids" "i \<noteq> ID_USER_PROPERTY" for i
  proof -
    have "has_field b i \<longleftrightarrow> i \<in> fst ` set ps" using b i by (simp add: builds_def)
    then show ?thesis
      using i pid field_of_inject [OF i(1) pid]
      by (auto simp: p has_field_bit bit_or_iff bit_field_bit field_of_less)
  qed
  ultimately show ?thesis using ok by (simp add: builds_def)
qed

lemma run_adder_spec:
  assumes b: "builds b ps"
  shows "run_adder a kind b =
    (case spec_add (length (pb_buffer b)) kind ps (adder_property a) of
       Inl e \<Rightarrow> (b, Inl e)
     | Inr qs \<Rightarrow> (appended b (adder_property a), Inr ()))"
proof -
  let ?p = "adder_property a"
  have ok: "builder_ok b" and at: "pb_at b = length (section_bytes ps)"
    using b by (simp_all add: builds_def)
  have meth: "has_field b ID_AUTH_METHOD \<longleftrightarrow> ID_AUTH_METHOD \<in> fst ` set ps"
    using b by (simp add: builds_def builder_ids_def builder_fields_table_def)
  have self: "fst ?p \<noteq> ID_USER_PROPERTY \<and> has_field b (fst ?p) \<longleftrightarrow>
      fst ?p \<noteq> ID_USER_PROPERTY \<and> fst ?p \<in> fst ` set ps"
    using b adder_id [of a] by (auto simp: builds_def)
  have size: "length (pb_buffer b) - pb_at b < 1 + length (pv_bytes (snd ?p)) \<longleftrightarrow>
      length (pb_buffer b) < length (section_bytes (ps @ [?p]))"
    using ok at by (cases "?p") (auto simp: builder_ok_def)
  show ?thesis
    unfolding run_adder_eq [OF ok] spec_run_def spec_place_def spec_add_def meth self size
      not_allowed_iff [OF adder_id]
      if_distrib [of "case_sum (\<lambda>e. (b, Inl e)) (\<lambda>qs. (appended b (adder_property a), Inr ()))"] sum.case
    by (rule refl)
qed

lemma builder_new_builds: "builder_new buf = Inr b \<Longrightarrow> builds b [] \<and> pb_buffer b = buf"
  by (auto simp: builder_new_def builds_def builder_ok_def builder_section_def slice_def try_u32_def
      has_field_def word_less_nat_alt unat_u32_of_nat not_le split: if_splits)

section \<open>A sequence of calls\<close>

text \<open>An application calls the adders in any order and may go on after a refusal.\<close>

definition build_all :: "byte option \<Rightarrow> adder list \<Rightarrow> property_builder \<Rightarrow> property_builder" where
  "build_all kind as b = fold (\<lambda>a b. fst (run_adder a kind b)) as b"

definition spec_build :: "nat \<Rightarrow> byte option \<Rightarrow> adder list \<Rightarrow> (byte \<times> prop_value) list \<Rightarrow>
    (byte \<times> prop_value) list" where
  "spec_build capacity kind as ps =
     fold (\<lambda>a ps. case spec_add capacity kind ps (adder_property a) of Inl _ \<Rightarrow> ps | Inr qs \<Rightarrow> qs) as ps"

definition built_list :: "byte option \<Rightarrow> (byte \<times> prop_value) list \<Rightarrow> bool" where
  "built_list kind ps \<longleftrightarrow>
     (\<forall>p\<in>set ps. buildable p \<and> (\<exists>a. p = adder_property a) \<and>
        (\<forall>k. kind = Some k \<longrightarrow> fst p \<in> set (may_carry k))) \<and>
     distinct (filter (\<lambda>pid. pid \<noteq> ID_USER_PROPERTY) (map fst ps)) \<and> connect_auth_ok ps"

lemma built_list_Nil [simp]: "built_list kind []"
  by (simp add: built_list_def connect_auth_ok_def)

lemma built_list_add:
  "built_list kind ps \<Longrightarrow> spec_add room kind ps (adder_property a) = Inr qs \<Longrightarrow> built_list kind qs"
proof -
  assume b: "built_list kind ps" and s: "spec_add room kind ps (adder_property a) = Inr qs"
  let ?p = "adder_property a"
  have qs: "qs = ps @ [?p]" and new: "buildable ?p" "\<forall>k. kind = Some k \<longrightarrow> fst ?p \<in> set (may_carry k)"
    and fresh: "fst ?p \<noteq> ID_USER_PROPERTY \<longrightarrow> fst ?p \<notin> fst ` set ps"
    and auth: "fst ?p = ID_AUTH_DATA \<longrightarrow> ID_AUTH_METHOD \<in> fst ` set ps"
    using s by (auto simp: spec_add_def split: if_splits)
  show ?thesis
    unfolding built_list_def
  proof (intro conjI)
    show "\<forall>p\<in>set qs. buildable p \<and> (\<exists>a. p = adder_property a) \<and>
        (\<forall>k. kind = Some k \<longrightarrow> fst p \<in> set (may_carry k))"
      using b new unfolding qs built_list_def by auto
    show "distinct (filter (\<lambda>pid. pid \<noteq> ID_USER_PROPERTY) (map fst qs))"
      using b fresh unfolding qs built_list_def by simp
    show "connect_auth_ok qs"
      using b auth unfolding qs built_list_def connect_auth_ok_def by auto
  qed
qed

lemma appended_capacity:
  "pb_at b + 1 + length (pv_bytes (snd p)) \<le> length (pb_buffer b) \<Longrightarrow>
   length (pb_buffer (appended b p)) = length (pb_buffer b)"
  by (cases p) simp

lemma run_adder_step:
  assumes b: "builds b ps" and out: "out = run_adder a kind b"
  shows "case spec_add (length (pb_buffer b)) kind ps (adder_property a) of
      Inl e \<Rightarrow> out = (b, Inl e)
    | Inr qs \<Rightarrow> snd out = Inr () \<and> builds (fst out) qs \<and>
        length (pb_buffer (fst out)) = length (pb_buffer b)"
proof (cases "spec_add (length (pb_buffer b)) kind ps (adder_property a)")
  case (Inl e)
  then show ?thesis by (simp add: out run_adder_spec [OF b])
next
  case (Inr qs)
  then have qs: "qs = ps @ [adder_property a]"
    and "length (section_bytes (ps @ [adder_property a])) \<le> length (pb_buffer b)"
    by (auto simp: spec_add_def not_less split: if_splits)
  then have room: "pb_at b + 1 + length (pv_bytes (snd (adder_property a))) \<le> length (pb_buffer b)"
    using b by (cases "adder_property a") (simp add: builds_def)
  show ?thesis
    using Inr builds_appended [OF b adder_id room] appended_capacity [OF room]
    by (simp add: out run_adder_spec [OF b] qs)
qed

lemma build_all_builds:
  "builds b ps \<Longrightarrow> built_list kind ps \<Longrightarrow>
   builds (build_all kind as b) (spec_build (length (pb_buffer b)) kind as ps) \<and>
   built_list kind (spec_build (length (pb_buffer b)) kind as ps)"
proof (induction as arbitrary: b ps)
  case Nil
  then show ?case by (simp add: build_all_def spec_build_def)
next
  case (Cons a as)
  let ?b = "fst (run_adder a kind b)"
  let ?s = "spec_add (length (pb_buffer b)) kind ps (adder_property a)"
  note step = run_adder_step [OF Cons.prems(1) refl, of a kind]
  have all: "build_all kind (a # as) b = build_all kind as ?b" by (simp add: build_all_def)
  show ?case
  proof (cases ?s)
    case (Inl e)
    then have "?b = b" using step by simp
    then show ?thesis
      using Inl Cons.IH [OF Cons.prems] unfolding all by (simp add: spec_build_def)
  next
    case (Inr qs)
    then have bq: "builds ?b qs" and len: "length (pb_buffer ?b) = length (pb_buffer b)"
      using step by simp_all
    have "built_list kind qs" by (rule built_list_add [OF Cons.prems(2) Inr])
    from Cons.IH [OF bq this] show ?thesis
      using Inr unfolding all len by (simp add: spec_build_def)
  qed
qed

section \<open>What an adder may touch\<close>

lemma drop_splice:
  "a + length ys \<le> c \<Longrightarrow> a \<le> length xs \<Longrightarrow> drop c (splice xs a ys) = drop c xs"
proof -
  assume c: "a + length ys \<le> c" and a: "a \<le> length xs"
  obtain d where d: "c = d + length (take a xs @ ys)" using c a by (metis le_add_diff_inverse2
    length_append length_take min.absorb2)
  have "splice xs a ys = (take a xs @ ys) @ drop (a + length ys) xs" by (simp add: splice_def)
  then show ?thesis using a unfolding d by (simp add: ac_simps)
qed

lemma take_splice_before: "a \<le> length xs \<Longrightarrow> take a (splice xs a ys) = take a xs"
  by (simp add: splice_def)

lemma spec_run_cases:
  "(\<exists>e. spec_run p kind b = (b, Inl e) \<and> e \<noteq> Builder_Empty \<and> e \<noteq> Builder_TooLong) \<or>
   spec_run p kind b = (appended b p, Inr ()) \<and>
     \<not> length (pb_buffer b) - pb_at b < 1 + length (pv_bytes (snd p))"
  by (simp add: spec_run_def spec_place_def)

section \<open>A section built for a packet passes that packet's validator\<close>

lemma buildable_pv_ok: "buildable (adder_property a) \<Longrightarrow> pv_ok (snd (adder_property a))"
  by (cases a) (auto simp: word_le_nat_alt)

lemma built_list_pv_ok: "built_list kind ps \<Longrightarrow> list_all (\<lambda>(_, v). pv_ok v) ps"
  unfolding list_all_iff
proof
  fix p assume "built_list kind ps" "p \<in> set ps"
  then obtain a where "p = adder_property a" "buildable p" by (auto simp: built_list_def)
  then show "case p of (_, v) \<Rightarrow> pv_ok v"
    using buildable_pv_ok [of a] by (simp add: case_prod_beta)
qed

lemma built_takes:
  assumes ps: "built_list kind ps"
    and ok: "\<And>a. adder_property a \<in> set ps \<Longrightarrow> buildable (adder_property a) \<Longrightarrow>
      \<forall>k. kind = Some k \<longrightarrow> fst (adder_property a) \<in> set (may_carry k) \<Longrightarrow> ok (adder_property a)"
    and once: "\<And>pid. once pid \<Longrightarrow> pid \<noteq> ID_USER_PROPERTY"
  shows "table_takes ok once ps"
proof -
  have "filter once (map fst ps) = filter once (filter (\<lambda>pid. pid \<noteq> ID_USER_PROPERTY) (map fst ps))"
    using once by (induction ps) auto
  moreover have "distinct (filter once (filter (\<lambda>pid. pid \<noteq> ID_USER_PROPERTY) (map fst ps)))"
    by (rule distinct_filter) (use ps in \<open>simp add: built_list_def\<close>)
  ultimately have "distinct (once_ids once ps)" by (simp only: once_ids_def)
  moreover have "ok p" if "p \<in> set ps" for p
  proof -
    have "buildable p" "\<exists>a. p = adder_property a" "\<forall>k. kind = Some k \<longrightarrow> fst p \<in> set (may_carry k)"
      using ps that unfolding built_list_def by blast+
    then show ?thesis using ok that by blast
  qed
  then have "list_all ok ps" by (simp add: list_all_iff)
  ultimately show ?thesis by (simp add: table_takes_def)
qed

lemma built_section:
  assumes "builds b ps" "built_list kind ps" "table_takes ok once ps"
  shows "table_section ok once (builder_section b)" "length (builder_section b) < 268435456"
    "builder_section b = section_bytes ps"
proof -
  show "builder_section b = section_bytes ps" using assms(1) by (simp add: builds_def)
  moreover show "length (builder_section b) < 268435456"
    using assms(1) by (auto simp: builds_def builder_ok_def)
  ultimately show "table_section ok once (builder_section b)"
    using assms(3) built_list_pv_ok [OF assms(2)] unfolding table_section_def by metis
qed

lemma spec_build_subset: "set (spec_build room kind as ps) \<subseteq> set ps \<union> adder_property ` set as"
proof (induction as arbitrary: ps)
  case Nil
  show ?case by (simp add: spec_build_def)
next
  case (Cons a as)
  let ?qs = "case spec_add room kind ps (adder_property a) of Inl _ \<Rightarrow> ps | Inr qs \<Rightarrow> qs"
  have "spec_build room kind (a # as) ps = spec_build room kind as ?qs" by (simp add: spec_build_def)
  moreover have "set ?qs \<subseteq> set ps \<union> {adder_property a}"
    by (auto simp: spec_add_def split: if_splits)
  ultimately show ?case using Cons.IH [of ?qs] by auto
qed

lemma adder_property_inject: "adder_property a = adder_property c \<longleftrightarrow> a = c"
  by (cases a; cases c) (auto simp: of_bool_def split: if_splits)

section \<open>Properties\<close>

text \<open>C28. Whatever adder is called with whatever value, it writes inside the buffer and only from the
  cursor on: the buffer keeps its length, the section before the call and every byte past the
  new end are as they were, and the cursor never passes the end of the buffer, even when the
  property would have filled one byte too many. A refused call leaves buffer, cursor and mask
  exactly as they were.\<close>

theorem adder_bounds:
  assumes "pb_at b \<le> length (pb_buffer b)" and "length (pb_buffer b) < 268435456"
    and "run_adder a kind b = (b', res)"
  shows "length (pb_buffer b') = length (pb_buffer b) \<and>
    pb_at b \<le> pb_at b' \<and> pb_at b' \<le> length (pb_buffer b') \<and>
    take (pb_at b) (pb_buffer b') = take (pb_at b) (pb_buffer b) \<and>
    drop (pb_at b') (pb_buffer b') = drop (pb_at b') (pb_buffer b) \<and>
    (res \<noteq> Inr () \<longrightarrow> b' = b)"
proof -
  obtain q v where p: "adder_property a = (q, v)" by (cases "adder_property a")
  have ok: "builder_ok b" using assms by (simp add: builder_ok_def)
  consider (refused) e where "(b', res) = (b, Inl e)"
    | (added) "(b', res) = (appended b (q, v), Inr ())"
      "\<not> length (pb_buffer b) - pb_at b < 1 + length (pv_bytes v)"
    using spec_run_cases [of "(q, v)" kind b] assms(3) unfolding run_adder_eq [OF ok] p by auto
  then show ?thesis
  proof cases
    case refused
    then show ?thesis using assms by simp
  next
    case added
    then have "pb_at b + length (q # pv_bytes v) \<le> length (pb_buffer b)" using assms(1) by simp
    then show ?thesis
      using added(1) assms(1) by (simp add: take_splice_before drop_splice)
  qed
qed

theorem adder_bounds_witness:
  "case run_adder (Content_type [65]) None \<lparr>pb_buffer = [9, 0, 0, 0, 7], pb_at = 1, pb_fields = 0\<rparr> of
     (b', res) \<Rightarrow> pb_buffer b' = [9, 3, 0, 1, 65] \<and> res = Inr () \<and>
       length (pb_buffer b') = 5 \<and> pb_at b' \<le> 5"
proof -
  let ?b = "\<lparr>pb_buffer = [9, 0, 0, 0, 7], pb_at = 1, pb_fields = 0\<rparr> :: property_builder"
  have r: "run_adder (Content_type [65]) None ?b =
      (\<lparr>pb_buffer = [9, 3, 0, 1, 65], pb_at = 5, pb_fields = field_bit 16\<rparr>, Inr ())"
    by (subst run_adder_eq) (simp_all add: builder_ok_def spec_run_def spec_place_def has_field_def not_allowed_def
        field_of_def builder_fields_table_def mqtt_string_def be16_def splice_def)
  from adder_bounds [OF _ _ this] show ?thesis unfolding r by simp
qed

text \<open>C15. From the empty builder on, after any sequence of calls, refused ones among them, the section
  is the encoding of the specification's list of properties, and the next call answers what the
  specification answers, error for error: a value the builder does not take, or authentication
  data before a method; a property that is already there; one the packet may not carry; no room,
  which counts the identifier too; and otherwise success, with the property at the end.\<close>

theorem builder_refines:
  assumes "builder_new buf = Inr b0" and "b = build_all kind as b0"
    and "ps = spec_build (length buf) kind as []"
  shows "builder_section b = section_bytes ps \<and> builder_len b = length (section_bytes ps) \<and>
    snd (run_adder a kind b) = map_sum id (\<lambda>_. ()) (spec_add (length buf) kind ps (adder_property a)) \<and>
    builder_section (fst (run_adder a kind b)) =
      section_bytes (case spec_add (length buf) kind ps (adder_property a) of Inl _ \<Rightarrow> ps | Inr qs \<Rightarrow> qs)"
proof -
  have b0: "builds b0 []" "pb_buffer b0 = buf" using builder_new_builds [OF assms(1)] by simp_all
  have all: "builds (build_all kind cs b0) (spec_build (length buf) kind cs []) \<and>
      built_list kind (spec_build (length buf) kind cs [])" for cs
    using build_all_builds [OF b0(1), of kind cs] b0(2) by simp
  have b: "builds b ps" using all assms(2,3) by simp
  have "length (pb_buffer (build_all kind cs b0)) = length buf" for cs
  proof (induction cs rule: rev_induct)
    case Nil
    then show ?case using b0 by (simp add: build_all_def)
  next
    case (snoc c cs)
    have "builds (build_all kind cs b0) (spec_build (length buf) kind cs [])" using all by simp
    from run_adder_step [OF this refl, of c kind] snoc show ?case
      by (auto simp: build_all_def split: sum.splits)
  qed
  then have len: "length (pb_buffer b) = length buf" using assms(2) by simp
  note step = run_adder_step [OF b refl, of a kind, unfolded len]
  show ?thesis
  proof (cases "spec_add (length buf) kind ps (adder_property a)")
    case (Inl e)
    then show ?thesis using step b by (simp add: builds_def builder_len_def)
  next
    case (Inr qs)
    then show ?thesis using step b by (simp add: builds_def builder_len_def)
  qed
qed

theorem builder_refines_witness:
  "builder_section (build_all (Some PUBACK) [Reason_string [65], Topic_alias 3] 
      \<lparr>pb_buffer = replicate 6 0, pb_at = 0, pb_fields = 0\<rparr>) = [0x1F, 0, 1, 65]"
proof -
  have n: "builder_new (replicate 6 0) = Inr \<lparr>pb_buffer = replicate 6 0, pb_at = 0, pb_fields = 0\<rparr>"
    by (simp add: builder_new_def try_u32_def)
  have "spec_build (length (replicate 6 0 :: bytes)) (Some PUBACK) [Reason_string [65], Topic_alias 3] [] =
      [(0x1F, PV_utf8 [65])]"
    by (simp add: spec_build_def spec_add_def may_carry_def)
  then show ?thesis
    using builder_refines [OF n refl refl, of "Some PUBACK" "[Reason_string [65], Topic_alias 3]"]
    by (simp add: mqtt_string_def be16_def)
qed

end
