(* ===== verification/Cursor.thy ===== *)
theory Cursor
  imports Builder Disconnect
begin

text \<open>
  cursor.rs: a property section read back one property at a time. Every operation answers the
  cursor afterwards and its result. The lemmas say what is under a cursor that stands before a
  property, that a walk of a section visits its properties in order, which sections the getters read
  to their end, and, from that, which built sections the validators of the packets take.
\<close>

section \<open>The cursor\<close>

datatype cursor_error = Cursor_BadParameter | Cursor_BadResponse | Cursor_EndOfProperties

fun cursor_of_property :: "property_error \<Rightarrow> cursor_error" where
  "cursor_of_property P_BadResponse = Cursor_BadResponse"

datatype width = W_Byte | W_TwoBytes | W_FourBytes | W_String | W_Pair | W_Variable

definition width_of :: "byte \<Rightarrow> width option" where
  "width_of pid =
     (if pid \<in> {ID_SESSION_EXPIRY, ID_MAX_PACKET_SIZE, ID_WILL_DELAY, ID_MESSAGE_EXPIRY}
      then Some W_FourBytes
      else if pid \<in> {ID_RECEIVE_MAX, ID_TOPIC_ALIAS_MAX, ID_TOPIC_ALIAS, SERVER_KEEP_ALIVE}
      then Some W_TwoBytes
      else if pid \<in> {ID_REQUEST_PROBLEM, ID_REQUEST_RESPONSE, ID_PAYLOAD_FORMAT, MAX_QOS,
          RETAIN_AVAILABLE, WILDCARD_AVAILABLE, SUBSCRIPTION_ID_AVAILABLE, SHARED_SUB_AVAILABLE}
      then Some W_Byte
      else if pid \<in> {ID_AUTH_METHOD, ID_CONTENT_TYPE, ID_RESPONSE_TOPIC, ASSIGNED_CLIENT_ID,
          ID_REASON_STRING, RESPONSE_INFO, SERVER_REFERENCE, ID_AUTH_DATA, ID_CORRELATION_DATA}
      then Some W_String
      else if pid = ID_USER_PROPERTY then Some W_Pair
      else if pid = ID_SUBSCRIPTION_ID then Some W_Variable
      else None)"

record property_cursor =
  pc_section :: bytes
  pc_at :: nat

type_synonym 'a read_out = "property_cursor \<times> (cursor_error + 'a)"

definition cursor_new :: "bytes \<Rightarrow> property_cursor" where
  "cursor_new sec = \<lparr>pc_section = sec, pc_at = 0\<rparr>"

definition cursor_position :: "property_cursor \<Rightarrow> nat" where
  "cursor_position c = pc_at c"

definition cursor_seek :: "nat \<Rightarrow> property_cursor \<Rightarrow> property_cursor" where
  "cursor_seek at c = c\<lparr>pc_at := at\<rparr>"

definition cursor_is_empty :: "property_cursor \<Rightarrow> bool" where
  "cursor_is_empty c \<longleftrightarrow> pc_at c \<ge> length (pc_section c)"

definition cursor_identifier :: "property_cursor \<Rightarrow> cursor_error + byte" where
  "cursor_identifier c =
     (if pc_at c \<ge> length (pc_section c) then Inl Cursor_EndOfProperties
      else ok_or Cursor_EndOfProperties (get_at (pc_section c) (pc_at c)))"

definition cursor_body :: "property_cursor \<Rightarrow> cursor_error + property_reader" where
  "cursor_body c =
     (case slice_from (pc_section c) (pc_at c + 1) of
        None \<Rightarrow> Inl Cursor_EndOfProperties
      | Some rest \<Rightarrow> (case try_u32 (length rest) of
            None \<Rightarrow> Inl Cursor_BadResponse
          | Some budget \<Rightarrow> Inr (reader_new rest budget)))"

definition next_type :: "property_cursor \<Rightarrow> cursor_error + byte" where
  "next_type c = rbind (cursor_identifier c) (\<lambda>pid.
     if width_of pid = None then Inl Cursor_BadParameter else Inr pid)"

definition cursor_variable :: "property_cursor \<Rightarrow> u32 read_out" where
  "cursor_variable c =
     (let start = pc_at c + 1 in
      case slice_from (pc_section c) start of
        None \<Rightarrow> (c, Inl Cursor_EndOfProperties)
      | Some rest \<Rightarrow> (case decode_variable_length rest of
            Inl e \<Rightarrow> (c, Inl (cursor_of_property e))
          | Inr v \<Rightarrow> (c\<lparr>pc_at := start + unat (variable_length_encoded_size v)\<rparr>, Inr v)))"

text \<open>The rest of a read: on success the cursor moves past the identifier and what was read.\<close>

definition step_past :: "property_cursor \<Rightarrow> property_reader \<times> (property_error + 'a) \<Rightarrow> 'a read_out" where
  "step_past c out = (case out of
      (reader, Inl e) \<Rightarrow> (c, Inl (cursor_of_property e))
    | (reader, Inr v) \<Rightarrow> (c\<lparr>pc_at := pc_at c + 1 + position reader\<rparr>, Inr v))"

definition unused :: "property_reader \<times> bool \<times> (property_error + 'a) \<Rightarrow> property_reader \<times> (property_error + 'a)" where
  "unused out = (case out of (reader, _, res) \<Rightarrow> (reader, res))"

definition discard :: "'a read_out \<Rightarrow> unit read_out" where
  "discard out = (fst out, map_sum (\<lambda>e. e) (\<lambda>_. ()) (snd out))"

definition cursor_skip :: "property_cursor \<Rightarrow> unit read_out" where
  "cursor_skip c =
     (case cursor_identifier c of
        Inl e \<Rightarrow> (c, Inl e)
      | Inr pid \<Rightarrow> (case width_of pid of
            None \<Rightarrow> (c, Inl Cursor_BadParameter)
          | Some width \<Rightarrow> (case cursor_body c of
                Inl e \<Rightarrow> (c, Inl e)
              | Inr reader \<Rightarrow>
                  (case width of
                     W_Byte \<Rightarrow> discard (step_past c (unused (read_u8 reader False)))
                   | W_TwoBytes \<Rightarrow> discard (step_past c (unused (read_u16 reader False)))
                   | W_FourBytes \<Rightarrow> discard (step_past c (unused (read_u32 reader False)))
                   | W_String \<Rightarrow> discard (step_past c (unused (read_utf8 reader False)))
                   | W_Pair \<Rightarrow> discard (step_past c (user_property reader))
                   | W_Variable \<Rightarrow> discard (cursor_variable c)))))"

definition cursor_one :: "byte \<Rightarrow>
    (property_reader \<Rightarrow> bool \<Rightarrow> property_reader \<times> bool \<times> (property_error + 'a)) \<Rightarrow>
    property_cursor \<Rightarrow> 'a read_out" where
  "cursor_one expected rd c =
     (case cursor_identifier c of
        Inl e \<Rightarrow> (c, Inl e)
      | Inr pid \<Rightarrow>
          if pid \<noteq> expected then (c, Inl Cursor_BadParameter)
          else case cursor_body c of
            Inl e \<Rightarrow> (c, Inl e)
          | Inr reader \<Rightarrow> step_past c (unused (rd reader False)))"

definition get_user_property :: "property_cursor \<Rightarrow> (bytes \<times> bytes) read_out" where
  "get_user_property c =
     (case cursor_identifier c of
        Inl e \<Rightarrow> (c, Inl e)
      | Inr pid \<Rightarrow>
          if pid \<noteq> ID_USER_PROPERTY then (c, Inl Cursor_BadParameter)
          else case cursor_body c of
            Inl e \<Rightarrow> (c, Inl e)
          | Inr reader \<Rightarrow> step_past c (user_property reader))"

definition get_subscription_id :: "property_cursor \<Rightarrow> u32 read_out" where
  "get_subscription_id c =
     (case cursor_identifier c of
        Inl e \<Rightarrow> (c, Inl e)
      | Inr pid \<Rightarrow>
          if pid \<noteq> ID_SUBSCRIPTION_ID then (c, Inl Cursor_BadParameter)
          else cursor_variable c)"

section \<open>The getters\<close>

definition get_session_expiry :: "property_cursor \<Rightarrow> u32 read_out" where
  "get_session_expiry = cursor_one ID_SESSION_EXPIRY read_u32"

definition get_receive_max :: "property_cursor \<Rightarrow> u16 read_out" where
  "get_receive_max = cursor_one ID_RECEIVE_MAX read_u16"

definition get_max_qos :: "property_cursor \<Rightarrow> byte read_out" where
  "get_max_qos = cursor_one MAX_QOS read_u8"

definition get_retain_available :: "property_cursor \<Rightarrow> byte read_out" where
  "get_retain_available = cursor_one RETAIN_AVAILABLE read_u8"

definition get_max_packet_size :: "property_cursor \<Rightarrow> u32 read_out" where
  "get_max_packet_size = cursor_one ID_MAX_PACKET_SIZE read_u32"

definition get_assigned_client_id :: "property_cursor \<Rightarrow> bytes read_out" where
  "get_assigned_client_id = cursor_one ASSIGNED_CLIENT_ID read_utf8"

definition get_topic_alias_max :: "property_cursor \<Rightarrow> u16 read_out" where
  "get_topic_alias_max = cursor_one ID_TOPIC_ALIAS_MAX read_u16"

definition get_reason_string :: "property_cursor \<Rightarrow> bytes read_out" where
  "get_reason_string = cursor_one ID_REASON_STRING read_utf8"

definition get_wildcard_available :: "property_cursor \<Rightarrow> byte read_out" where
  "get_wildcard_available = cursor_one WILDCARD_AVAILABLE read_u8"

definition get_subscription_id_available :: "property_cursor \<Rightarrow> byte read_out" where
  "get_subscription_id_available = cursor_one SUBSCRIPTION_ID_AVAILABLE read_u8"

definition get_shared_sub_available :: "property_cursor \<Rightarrow> byte read_out" where
  "get_shared_sub_available = cursor_one SHARED_SUB_AVAILABLE read_u8"

definition get_server_keep_alive :: "property_cursor \<Rightarrow> u16 read_out" where
  "get_server_keep_alive = cursor_one SERVER_KEEP_ALIVE read_u16"

definition get_response_info :: "property_cursor \<Rightarrow> bytes read_out" where
  "get_response_info = cursor_one RESPONSE_INFO read_utf8"

definition get_server_reference :: "property_cursor \<Rightarrow> bytes read_out" where
  "get_server_reference = cursor_one SERVER_REFERENCE read_utf8"

definition get_auth_method :: "property_cursor \<Rightarrow> bytes read_out" where
  "get_auth_method = cursor_one ID_AUTH_METHOD read_utf8"

definition get_auth_data :: "property_cursor \<Rightarrow> bytes read_out" where
  "get_auth_data = cursor_one ID_AUTH_DATA read_utf8"

definition get_payload_format :: "property_cursor \<Rightarrow> byte read_out" where
  "get_payload_format = cursor_one ID_PAYLOAD_FORMAT read_u8"

definition get_message_expiry :: "property_cursor \<Rightarrow> u32 read_out" where
  "get_message_expiry = cursor_one ID_MESSAGE_EXPIRY read_u32"

definition get_topic_alias :: "property_cursor \<Rightarrow> u16 read_out" where
  "get_topic_alias = cursor_one ID_TOPIC_ALIAS read_u16"

definition get_response_topic :: "property_cursor \<Rightarrow> bytes read_out" where
  "get_response_topic = cursor_one ID_RESPONSE_TOPIC read_utf8"

definition get_correlation_data :: "property_cursor \<Rightarrow> bytes read_out" where
  "get_correlation_data = cursor_one ID_CORRELATION_DATA read_utf8"

definition get_content_type :: "property_cursor \<Rightarrow> bytes read_out" where
  "get_content_type = cursor_one ID_CONTENT_TYPE read_utf8"

section \<open>What a read finds\<close>

abbreviation (input) ahead :: "property_cursor \<Rightarrow> bytes" where
  "ahead c \<equiv> drop (pc_at c) (pc_section c)"

abbreviation (input) moved :: "property_cursor \<Rightarrow> nat \<Rightarrow> property_cursor" where
  "moved c n \<equiv> c\<lparr>pc_at := pc_at c + n\<rparr>"

text \<open>Which error a read that demands one identifier answers.\<close>

definition refusal :: "byte \<Rightarrow> property_cursor \<Rightarrow> cursor_error" where
  "refusal pid c =
     (if length (pc_section c) \<le> pc_at c then Cursor_EndOfProperties
      else if pc_section c ! pc_at c \<noteq> pid then Cursor_BadParameter else Cursor_BadResponse)"

lemma cursor_identifier_eq:
  "cursor_identifier c =
     (if pc_at c < length (pc_section c) then Inr (pc_section c ! pc_at c) else Inl Cursor_EndOfProperties)"
  by (simp add: cursor_identifier_def get_at_def)

lemma ahead_Cons:
  "pc_at c < length (pc_section c) \<Longrightarrow>
   ahead c = pid # bs \<longleftrightarrow> pc_section c ! pc_at c = pid \<and> drop (Suc (pc_at c)) (pc_section c) = bs"
  by (simp add: Cons_nth_drop_Suc [symmetric])

lemma width_of_ahead:
  "ahead c = pid # bs \<Longrightarrow> pc_at c < length (pc_section c) \<and> pc_section c ! pc_at c = pid"
  using ahead_Cons [of c pid bs] by (cases "pc_at c < length (pc_section c)") auto

lemma cursor_of_property_eq [simp]: "cursor_of_property x = Cursor_BadResponse"
  by (cases x) simp

lemma cursor_body_eq:
  "pc_at c < length (pc_section c) \<Longrightarrow> length (pc_section c) < 4294967296 \<Longrightarrow>
   cursor_body c = (let rest = drop (Suc (pc_at c)) (pc_section c) in
     Inr (reader_new rest (word_of_nat (length rest))))"
  by (simp add: cursor_body_def slice_from_def try_u32_def Let_def)

lemma holds_whole:
  "length rest < 4294967296 \<Longrightarrow>
   holds (reader_new rest (word_of_nat (length rest))) bs \<longleftrightarrow> (\<exists>more_bytes. rest = bs @ more_bytes)"
  by (auto simp: holds_def reader_new_def unat_u32_of_nat)

lemma position_advance: "position (advance (reader_new rest n) k) = k"
  by (simp add: position_def advance_def reader_new_def)

text \<open>The contract of a primitive read, and what the getter over it does.\<close>

locale typed_reader =
  fixes rd :: "property_reader \<Rightarrow> bool \<Rightarrow> property_reader \<times> bool \<times> (property_error + 'a)"
    and enc :: "'a \<Rightarrow> bytes"
    and ok :: "'a \<Rightarrow> bool"
  assumes reads: "rd r False = (r', u, Inr v) \<longleftrightarrow>
      u \<and> ok v \<and> holds r (enc v) \<and> r' = advance r (length (enc v))"
begin

lemma one_iff:
  assumes "length (pc_section c) < 4294967296"
  shows "cursor_one pid rd c = (c', Inr v) \<longleftrightarrow>
    ok v \<and> (\<exists>rest. ahead c = pid # enc v @ rest) \<and> c' = moved c (1 + length (enc v))"
proof (cases "pc_at c < length (pc_section c) \<and> pc_section c ! pc_at c = pid")
  case True
  let ?rest = "drop (Suc (pc_at c)) (pc_section c)"
  let ?r = "reader_new ?rest (word_of_nat (length ?rest))"
  have body: "cursor_body c = Inr ?r"
    using cursor_body_eq [of c] True assms by (simp only: Let_def simp_thms)
  have "cursor_one pid rd c = step_past c (unused (rd ?r False))"
    using True unfolding cursor_one_def body by (simp add: cursor_identifier_eq)
  moreover have "step_past c (unused out) = (c', Inr v) \<longleftrightarrow>
      (\<exists>r' u. out = (r', u, Inr v) \<and> c' = c\<lparr>pc_at := pc_at c + 1 + position r'\<rparr>)" for out
    by (cases out; cases "snd (snd out)") (auto simp: step_past_def unused_def)
  ultimately have "cursor_one pid rd c = (c', Inr v) \<longleftrightarrow>
      ok v \<and> holds ?r (enc v) \<and> c' = moved c (1 + length (enc v))"
    by (auto simp: reads position_advance)
  moreover have "holds ?r (enc v) \<longleftrightarrow> (\<exists>rest. ?rest = enc v @ rest)"
    by (rule holds_whole) (use assms in simp)
  ultimately show ?thesis using ahead_Cons [of c pid] True by auto
next
  case False
  then have "cursor_one pid rd c \<noteq> (c', Inr v)"
    by (auto simp: cursor_one_def cursor_identifier_eq)
  moreover have "ahead c \<noteq> pid # enc v @ rest" for rest
    using False width_of_ahead [of c pid] by blast
  ultimately show ?thesis by blast
qed

lemma one_refused:
  assumes "cursor_one pid rd c = (c', Inl e)" "length (pc_section c) < 4294967296"
  shows "c' = c \<and> e = refusal pid c"
proof (cases "pc_at c < length (pc_section c) \<and> pc_section c ! pc_at c = pid")
  case True
  have body: "cursor_body c = Inr r \<Longrightarrow> cursor_one pid rd c = step_past c (unused (rd r False))" for r
    using True by (simp add: cursor_one_def cursor_identifier_eq)
  have "step_past c (unused out) = (c', Inl e) \<Longrightarrow> c' = c \<and> e = Cursor_BadResponse" for out
    by (cases out; cases "snd (snd out)")
      (auto simp: step_past_def unused_def)
  then show ?thesis
    using True assms cursor_body_eq [of c] body by (simp add: refusal_def Let_def not_le)
next
  case False
  then show ?thesis using assms(1) by (auto simp: cursor_one_def cursor_identifier_eq refusal_def split: if_splits)
qed

end

interpretation get_u8: typed_reader read_u8 "\<lambda>v. [v]" "\<lambda>_. True"
  by unfold_locales (simp add: read_u8_ok)

interpretation get_u16: typed_reader read_u16 be16 "\<lambda>_. True"
  by unfold_locales (simp add: read_u16_ok)

interpretation get_u32: typed_reader read_u32 be32 "\<lambda>_. True"
  by unfold_locales (simp add: read_u32_ok)

interpretation get_utf8: typed_reader read_utf8 mqtt_string "\<lambda>s. length s < 65536"
  by unfold_locales (auto simp: read_utf8_ok)

text \<open>The user property and the subscription identifier, which have reads of their own: the
  first is the same contract over the pair, the second counts with its own width.\<close>

interpretation get_pair:
  typed_reader "\<lambda>r u. case user_property r of (r', res) \<Rightarrow> (r', res \<noteq> Inl P_BadResponse, res)"
    "\<lambda>(k, v). mqtt_string k @ mqtt_string v" "\<lambda>(k, v). length k < 65536 \<and> length v < 65536"
proof unfold_locales
  fix r r' u and v :: "bytes \<times> bytes"
  obtain x y where v: "v = (x, y)" by (cases v)
  have "(case user_property r of (r', res) \<Rightarrow> (r', res \<noteq> Inl P_BadResponse, res)) = (r', u, Inr v) \<longleftrightarrow>
      user_property r = (r', Inr v) \<and> u"
    by (auto split: prod.splits)
  moreover have "length (mqtt_string x @ mqtt_string y) = length x + length y + 4" by simp
  ultimately show "(case user_property r of (r', res) \<Rightarrow> (r', res \<noteq> Inl P_BadResponse, res)) = (r', u, Inr v) \<longleftrightarrow>
      u \<and> (case v of (k, v) \<Rightarrow> length k < 65536 \<and> length v < 65536) \<and>
      holds r (case v of (k, v) \<Rightarrow> mqtt_string k @ mqtt_string v) \<and>
      r' = advance r (length (case v of (k, v) \<Rightarrow> mqtt_string k @ mqtt_string v))"
    unfolding v prod.case user_property_ok by (simp only:) blast
qed

lemma get_user_property_one:
  "get_user_property = cursor_one ID_USER_PROPERTY
     (\<lambda>r u. case user_property r of (r', res) \<Rightarrow> (r', res \<noteq> Inl P_BadResponse, res))"
  by (rule ext) (auto simp: get_user_property_def cursor_one_def unused_def split: sum.splits prod.splits)

lemma cursor_variable_iff:
  assumes "pc_at c < length (pc_section c)"
  shows "cursor_variable c = (c', Inr v) \<longleftrightarrow> unat v < 268435456 \<and>
    (\<exists>rest. drop (Suc (pc_at c)) (pc_section c) = vl_encode (unat v) @ rest) \<and>
    c' = moved c (1 + length (vl_encode (unat v)))"
proof -
  have "cursor_variable c = (c', Inr v) \<longleftrightarrow>
      decode_variable_length (drop (Suc (pc_at c)) (pc_section c)) = Inr v \<and>
      c' = moved c (1 + unat (variable_length_encoded_size v))"
    using assms by (auto simp: cursor_variable_def slice_from_def Let_def split: sum.splits)
  then show ?thesis by (auto simp: decode_variable_length_ok unat_encoded_size)
qed

lemma cursor_variable_refused:
  "pc_at c < length (pc_section c) \<Longrightarrow> cursor_variable c = (c', Inl e) \<Longrightarrow> c' = c \<and> e = Cursor_BadResponse"
  by (auto simp: cursor_variable_def slice_from_def Let_def split: sum.splits)

lemma get_subscription_id_iff:
  "get_subscription_id c = (c', Inr v) \<longleftrightarrow> unat v < 268435456 \<and>
    (\<exists>rest. ahead c = ID_SUBSCRIPTION_ID # vl_encode (unat v) @ rest) \<and>
    c' = moved c (1 + length (vl_encode (unat v)))"
proof (cases "pc_at c < length (pc_section c)")
  case True
  then show ?thesis
    using ahead_Cons [OF True, of ID_SUBSCRIPTION_ID] cursor_variable_iff [OF True]
    by (auto simp: get_subscription_id_def cursor_identifier_eq)
qed (simp add: get_subscription_id_def cursor_identifier_eq)

lemma get_subscription_id_refused:
  "get_subscription_id c = (c', Inl e) \<Longrightarrow> c' = c \<and> e = refusal ID_SUBSCRIPTION_ID c"
  using cursor_variable_refused [of c]
  by (auto simp: get_subscription_id_def cursor_identifier_eq refusal_def split: if_splits)

section \<open>All the getters\<close>

text \<open>A value as the identifier's width has it, and the getter an application calls for an
  identifier it found with \<open>next_type\<close>.\<close>

fun shape :: "prop_value \<Rightarrow> width" where
  "shape (PV_u8 _) = W_Byte"
| "shape (PV_u16 _) = W_TwoBytes"
| "shape (PV_u32 _) = W_FourBytes"
| "shape (PV_utf8 _) = W_String"
| "shape (PV_user _ _) = W_Pair"
| "shape (PV_var _) = W_Variable"

definition as_value :: "('a \<Rightarrow> prop_value) \<Rightarrow> 'a read_out \<Rightarrow> prop_value read_out" where
  "as_value f out = (fst out, map_sum (\<lambda>e. e) f (snd out))"

definition getter_for :: "byte \<Rightarrow> property_cursor \<Rightarrow> prop_value read_out" where
  "getter_for pid c =
     (if pid = ID_SESSION_EXPIRY then as_value PV_u32 (get_session_expiry c)
      else if pid = ID_RECEIVE_MAX then as_value PV_u16 (get_receive_max c)
      else if pid = MAX_QOS then as_value PV_u8 (get_max_qos c)
      else if pid = RETAIN_AVAILABLE then as_value PV_u8 (get_retain_available c)
      else if pid = ID_MAX_PACKET_SIZE then as_value PV_u32 (get_max_packet_size c)
      else if pid = ASSIGNED_CLIENT_ID then as_value PV_utf8 (get_assigned_client_id c)
      else if pid = ID_TOPIC_ALIAS_MAX then as_value PV_u16 (get_topic_alias_max c)
      else if pid = ID_REASON_STRING then as_value PV_utf8 (get_reason_string c)
      else if pid = WILDCARD_AVAILABLE then as_value PV_u8 (get_wildcard_available c)
      else if pid = SUBSCRIPTION_ID_AVAILABLE then as_value PV_u8 (get_subscription_id_available c)
      else if pid = SHARED_SUB_AVAILABLE then as_value PV_u8 (get_shared_sub_available c)
      else if pid = SERVER_KEEP_ALIVE then as_value PV_u16 (get_server_keep_alive c)
      else if pid = RESPONSE_INFO then as_value PV_utf8 (get_response_info c)
      else if pid = SERVER_REFERENCE then as_value PV_utf8 (get_server_reference c)
      else if pid = ID_AUTH_METHOD then as_value PV_utf8 (get_auth_method c)
      else if pid = ID_AUTH_DATA then as_value PV_utf8 (get_auth_data c)
      else if pid = ID_PAYLOAD_FORMAT then as_value PV_u8 (get_payload_format c)
      else if pid = ID_MESSAGE_EXPIRY then as_value PV_u32 (get_message_expiry c)
      else if pid = ID_TOPIC_ALIAS then as_value PV_u16 (get_topic_alias c)
      else if pid = ID_RESPONSE_TOPIC then as_value PV_utf8 (get_response_topic c)
      else if pid = ID_CORRELATION_DATA then as_value PV_utf8 (get_correlation_data c)
      else if pid = ID_CONTENT_TYPE then as_value PV_utf8 (get_content_type c)
      else if pid = ID_USER_PROPERTY then as_value (\<lambda>(k, v). PV_user k v) (get_user_property c)
      else if pid = ID_SUBSCRIPTION_ID then as_value PV_var (get_subscription_id c)
      else (c, Inl Cursor_BadParameter))"

text \<open>The six reads behind the twenty-four getters.\<close>

fun typed_read :: "width \<Rightarrow> byte \<Rightarrow> property_cursor \<Rightarrow> prop_value read_out" where
  "typed_read W_Byte pid c = as_value PV_u8 (cursor_one pid read_u8 c)"
| "typed_read W_TwoBytes pid c = as_value PV_u16 (cursor_one pid read_u16 c)"
| "typed_read W_FourBytes pid c = as_value PV_u32 (cursor_one pid read_u32 c)"
| "typed_read W_String pid c = as_value PV_utf8 (cursor_one pid read_utf8 c)"
| "typed_read W_Pair pid c = as_value (\<lambda>(k, v). PV_user k v) (get_user_property c)"
| "typed_read W_Variable pid c = as_value PV_var (get_subscription_id c)"

lemmas getter_defs = get_session_expiry_def get_receive_max_def get_max_qos_def
  get_retain_available_def get_max_packet_size_def get_assigned_client_id_def
  get_topic_alias_max_def get_reason_string_def get_wildcard_available_def
  get_subscription_id_available_def get_shared_sub_available_def get_server_keep_alive_def
  get_response_info_def get_server_reference_def get_auth_method_def get_auth_data_def
  get_payload_format_def get_message_expiry_def get_topic_alias_def get_response_topic_def
  get_correlation_data_def get_content_type_def

lemma width_of_Some:
  "width_of pid = Some w \<Longrightarrow>
   (pid \<in> {ID_SESSION_EXPIRY, ID_MAX_PACKET_SIZE, ID_WILL_DELAY, ID_MESSAGE_EXPIRY} \<and> w = W_FourBytes) \<or>
   (pid \<in> {ID_RECEIVE_MAX, ID_TOPIC_ALIAS_MAX, ID_TOPIC_ALIAS, SERVER_KEEP_ALIVE} \<and> w = W_TwoBytes) \<or>
   (pid \<in> {ID_REQUEST_PROBLEM, ID_REQUEST_RESPONSE, ID_PAYLOAD_FORMAT, MAX_QOS,
          RETAIN_AVAILABLE, WILDCARD_AVAILABLE, SUBSCRIPTION_ID_AVAILABLE, SHARED_SUB_AVAILABLE} \<and>
      w = W_Byte) \<or>
   (pid \<in> {ID_AUTH_METHOD, ID_CONTENT_TYPE, ID_RESPONSE_TOPIC, ASSIGNED_CLIENT_ID,
          ID_REASON_STRING, RESPONSE_INFO, SERVER_REFERENCE, ID_AUTH_DATA, ID_CORRELATION_DATA} \<and>
      w = W_String) \<or>
   (pid = ID_USER_PROPERTY \<and> w = W_Pair) \<or> (pid = ID_SUBSCRIPTION_ID \<and> w = W_Variable)"
  unfolding width_of_def by (simp only: split: if_splits) simp_all

text \<open>The identifiers without a getter: no broker sends them.\<close>

definition ungettable :: "byte set" where
  "ungettable = {ID_WILL_DELAY, ID_REQUEST_PROBLEM, ID_REQUEST_RESPONSE}"

lemma getter_for_typed:
  "width_of pid = Some w \<Longrightarrow> pid \<notin> ungettable \<Longrightarrow> getter_for pid c = typed_read w pid c"
  by (drule width_of_Some) (auto simp: ungettable_def getter_for_def getter_defs)

lemma as_value_Inr: "as_value f out = (c', Inr y) \<longleftrightarrow> (\<exists>x. out = (c', Inr x) \<and> y = f x)"
  by (cases out; cases "snd out") (auto simp: as_value_def)

lemma as_value_Inl: "as_value f out = (c', Inl e) \<longleftrightarrow> out = (c', Inl e)"
  by (cases out; cases "snd out") (auto simp: as_value_def)

lemma typed_read_iff:
  assumes "length (pc_section c) < 4294967296" "width_of pid = Some w"
  shows "typed_read w pid c = (c', Inr y) \<longleftrightarrow> shape y = w \<and> pv_ok y \<and>
    (\<exists>rest. ahead c = pid # pv_bytes y @ rest) \<and> c' = moved c (1 + length (pv_bytes y))"
proof (cases w)
  case W_Byte
  then show ?thesis
    by (cases y) (auto simp: as_value_Inr get_u8.one_iff [OF assms(1)])
next
  case W_TwoBytes
  then show ?thesis
    by (cases y) (auto simp: as_value_Inr get_u16.one_iff [OF assms(1)])
next
  case W_FourBytes
  then show ?thesis
    by (cases y) (auto simp: as_value_Inr get_u32.one_iff [OF assms(1)])
next
  case W_String
  then show ?thesis
    by (cases y) (auto simp: as_value_Inr get_utf8.one_iff [OF assms(1)])
next
  case W_Pair
  then have "pid = ID_USER_PROPERTY" using width_of_Some [OF assms(2)] by auto
  then show ?thesis
    using W_Pair
    by (cases y) (auto simp: as_value_Inr get_user_property_one get_pair.one_iff [OF assms(1)] ac_simps)
next
  case W_Variable
  then have "pid = ID_SUBSCRIPTION_ID" using width_of_Some [OF assms(2)] by auto
  then show ?thesis
    using W_Variable by (cases y) (auto simp: as_value_Inr get_subscription_id_iff)
qed

lemma typed_read_refused:
  assumes "length (pc_section c) < 4294967296" "width_of pid = Some w"
    and "typed_read w pid c = (c', Inl e)"
  shows "c' = c \<and> e = refusal pid c"
proof (cases w)
  case W_Byte
  then show ?thesis using assms(3) get_u8.one_refused [OF _ assms(1)] by (simp add: as_value_Inl)
next
  case W_TwoBytes
  then show ?thesis using assms(3) get_u16.one_refused [OF _ assms(1)] by (simp add: as_value_Inl)
next
  case W_FourBytes
  then show ?thesis using assms(3) get_u32.one_refused [OF _ assms(1)] by (simp add: as_value_Inl)
next
  case W_String
  then show ?thesis using assms(3) get_utf8.one_refused [OF _ assms(1)] by (simp add: as_value_Inl)
next
  case W_Pair
  then have "pid = ID_USER_PROPERTY" using width_of_Some [OF assms(2)] by auto
  then show ?thesis
    using W_Pair assms(3) get_pair.one_refused [OF _ assms(1)]
    by (simp add: as_value_Inl get_user_property_one)
next
  case W_Variable
  then have "pid = ID_SUBSCRIPTION_ID" using width_of_Some [OF assms(2)] by auto
  then show ?thesis using W_Variable assms(3) get_subscription_id_refused by (simp add: as_value_Inl)
qed

section \<open>Skipping\<close>

text \<open>Skipping a property is reading it and forgetting the value.\<close>

lemma skip_typed:
  assumes "pc_at c < length (pc_section c)" "width_of (pc_section c ! pc_at c) = Some w"
    and "length (pc_section c) < 4294967296"
  shows "cursor_skip c = discard (typed_read w (pc_section c ! pc_at c) c)"
proof -
  obtain r where body: "cursor_body c = Inr r"
    using cursor_body_eq [OF assms(1,3)] by (simp add: Let_def)
  have pair: "w = W_Pair \<Longrightarrow> pc_section c ! pc_at c = ID_USER_PROPERTY"
    and var: "w = W_Variable \<Longrightarrow> pc_section c ! pc_at c = ID_SUBSCRIPTION_ID"
    using width_of_Some [OF assms(2)] by auto
  have m: "map_sum (\<lambda>e. e) (\<lambda>_. ()) (map_sum (\<lambda>e. e) f x) = map_sum (\<lambda>e. e) (\<lambda>_. ()) x"
    for f :: "'x \<Rightarrow> prop_value" and x :: "cursor_error + 'x"
    by (cases x) simp_all
  show ?thesis
    using assms(1,2) pair var
    by (cases w) (simp_all add: cursor_skip_def cursor_identifier_eq body as_value_def discard_def cursor_one_def
        get_user_property_def get_subscription_id_def m)
qed

lemma skip_eq_Inr:
  "discard out = (c', Inr ()) \<longleftrightarrow> (\<exists>y. out = (c', Inr y))"
  by (cases out; cases "snd out") (auto simp: discard_def)

lemma skip_eq_Inl:
  "discard out = (c', Inl e) \<longleftrightarrow> out = (c', Inl e)"
  by (cases out; cases "snd out") (auto simp: discard_def)

lemma cursor_skip_ok:
  assumes "length (pc_section c) < 4294967296"
  shows "cursor_skip c = (c', Inr ()) \<longleftrightarrow>
    (\<exists>pid y rest. ahead c = pid # pv_bytes y @ rest \<and> width_of pid = Some (shape y) \<and> pv_ok y \<and>
       c' = moved c (1 + length (pv_bytes y)))"
proof (cases "pc_at c < length (pc_section c) \<and> width_of (pc_section c ! pc_at c) \<noteq> None")
  case True
  then obtain w where w: "width_of (pc_section c ! pc_at c) = Some w" by blast
  have "cursor_skip c = (c', Inr ()) \<longleftrightarrow> (\<exists>y. typed_read w (pc_section c ! pc_at c) c = (c', Inr y))"
    using True skip_typed [OF _ w assms] by (simp add: skip_eq_Inr)
  also have "\<dots> \<longleftrightarrow> (\<exists>pid y rest. ahead c = pid # pv_bytes y @ rest \<and> width_of pid = Some (shape y) \<and>
      pv_ok y \<and> c' = moved c (1 + length (pv_bytes y)))"
  proof
    assume "\<exists>y. typed_read w (pc_section c ! pc_at c) c = (c', Inr y)"
    then show "\<exists>pid y rest. ahead c = pid # pv_bytes y @ rest \<and> width_of pid = Some (shape y) \<and>
      pv_ok y \<and> c' = moved c (1 + length (pv_bytes y))"
      unfolding typed_read_iff [OF assms w] using w by blast
  next
    assume "\<exists>pid y rest. ahead c = pid # pv_bytes y @ rest \<and> width_of pid = Some (shape y) \<and>
      pv_ok y \<and> c' = moved c (1 + length (pv_bytes y))"
    then obtain pid y rest where a: "ahead c = pid # pv_bytes y @ rest"
      and y: "width_of pid = Some (shape y)" "pv_ok y" "c' = moved c (1 + length (pv_bytes y))" by blast
    have pid: "pc_section c ! pc_at c = pid" using width_of_ahead [OF a] by blast
    with w y have "shape y = w" by simp
    have "typed_read w pid c = (c', Inr y)"
      unfolding typed_read_iff [OF assms w [unfolded pid]] using a y \<open>shape y = w\<close> by blast
    then show "\<exists>y. typed_read w (pc_section c ! pc_at c) c = (c', Inr y)" unfolding pid by blast
  qed
  finally show ?thesis .
next
  case False
  then have "cursor_skip c \<noteq> (c', Inr ())"
    by (auto simp: cursor_skip_def cursor_identifier_eq)
  moreover have "width_of pid = Some w \<Longrightarrow> ahead c \<noteq> pid # bs" for pid w bs
    using False width_of_ahead [of c pid bs] by auto
  ultimately show ?thesis by blast
qed

lemma cursor_skip_refused:
  assumes "length (pc_section c) < 4294967296" "cursor_skip c = (c', Inl e)"
  shows "c' = c \<and> e = (if length (pc_section c) \<le> pc_at c then Cursor_EndOfProperties
     else if width_of (pc_section c ! pc_at c) = None then Cursor_BadParameter else Cursor_BadResponse)"
proof (cases "pc_at c < length (pc_section c) \<and> width_of (pc_section c ! pc_at c) \<noteq> None")
  case True
  then obtain w where w: "width_of (pc_section c ! pc_at c) = Some w" by blast
  have "discard (typed_read w (pc_section c ! pc_at c) c) = (c', Inl e)"
    using True skip_typed [OF _ w assms(1)] assms(2) by metis
  then have "typed_read w (pc_section c ! pc_at c) c = (c', Inl e)" by (simp only: skip_eq_Inl)
  from typed_read_refused [OF assms(1) w this] True show ?thesis by (simp add: refusal_def)
next
  case False
  then show ?thesis
    using assms(2) by (auto simp: cursor_skip_def cursor_identifier_eq split: if_splits)
qed

section \<open>Reading a whole section\<close>

lemma step_past_moves:
  "step_past c out = (c', Inr v) \<Longrightarrow> pc_section c' = pc_section c \<and> pc_at c < pc_at c'"
  by (cases out; cases "snd out") (auto simp: step_past_def)

lemma cursor_one_moves:
  "cursor_one pid rd c = (c', Inr v) \<Longrightarrow> pc_section c' = pc_section c \<and> pc_at c < pc_at c'"
  by (auto simp: cursor_one_def split: sum.splits if_splits dest: step_past_moves)

lemma cursor_variable_moves:
  "cursor_variable c = (c', Inr v) \<Longrightarrow> pc_section c' = pc_section c \<and> pc_at c < pc_at c'"
  by (auto simp: cursor_variable_def Let_def split: option.splits sum.splits)

lemma getter_for_moves:
  "getter_for pid c = (c', Inr v) \<Longrightarrow> pc_section c' = pc_section c \<and> pc_at c < pc_at c'"
  by (auto simp: getter_for_def getter_defs get_user_property_one get_subscription_id_def as_value_Inr
      split: if_splits sum.splits dest: cursor_one_moves cursor_variable_moves)

lemma next_type_inside: "next_type c = Inr pid \<Longrightarrow> pc_at c < length (pc_section c)"
  by (auto simp: next_type_def cursor_identifier_eq rbind_eq_Inr split: if_splits)

text \<open>The loop of an application that wants every property: ask what is next, read it, and stop
  at the end of the section.\<close>

function read_section :: "property_cursor \<Rightarrow> cursor_error + (byte \<times> prop_value) list" where
  "read_section c =
     (case next_type c of
        Inl e \<Rightarrow> if e = Cursor_EndOfProperties then Inr [] else Inl e
      | Inr pid \<Rightarrow> (case getter_for pid c of
            (c', Inl e) \<Rightarrow> Inl e
          | (c', Inr v) \<Rightarrow> rbind (read_section c') (\<lambda>ps. Inr ((pid, v) # ps))))"
  by pat_completeness auto
termination
proof (relation "measure (\<lambda>c. length (pc_section c) - pc_at c)", goal_cases)
  case (2 c pid c' out v)
  then show ?case using getter_for_moves [of pid c c' v] next_type_inside [of c pid]
    by (auto intro: diff_less_mono2)
qed simp

declare read_section.simps [simp del]

definition readable :: "byte \<times> prop_value \<Rightarrow> bool" where
  "readable p \<longleftrightarrow> width_of (fst p) = Some (shape (snd p)) \<and> fst p \<notin> ungettable \<and> pv_ok (snd p)"

lemma next_type_eq:
  "next_type c = (if pc_at c < length (pc_section c) then
       (let pid = pc_section c ! pc_at c in
        if width_of pid = None then Inl Cursor_BadParameter else Inr pid)
     else Inl Cursor_EndOfProperties)"
  by (simp add: next_type_def cursor_identifier_eq Let_def)

lemma read_section_ahead:
  "length (pc_section c) < 4294967296 \<Longrightarrow> list_all readable ps \<Longrightarrow> ahead c = section_bytes ps \<Longrightarrow>
   read_section c = Inr ps"
proof (induction ps arbitrary: c)
  case Nil
  then show ?case by (simp add: read_section.simps next_type_eq)
next
  case (Cons p ps)
  obtain pid v where p: "p = (pid, v)" by (cases p)
  have a: "ahead c = pid # pv_bytes v @ section_bytes ps" using Cons.prems(3) by (simp add: p)
  have w: "width_of pid = Some (shape v)" and g: "pid \<notin> ungettable" and v: "pv_ok v"
    using Cons.prems(2) by (simp_all add: p readable_def)
  have n: "next_type c = Inr pid"
    using width_of_ahead [OF a] w by (simp add: next_type_eq)
  have t: "typed_read (shape v) pid c = (moved c (1 + length (pv_bytes v)), Inr v)"
    using typed_read_iff [OF Cons.prems(1) w, of "moved c (1 + length (pv_bytes v))" v] a v by blast
  have "drop (1 + length (pv_bytes v)) (ahead c) = section_bytes ps" unfolding a by simp
  then have "ahead (moved c (1 + length (pv_bytes v))) = section_bytes ps"
    by (simp add: ac_simps)
  moreover have "length (pc_section (moved c (1 + length (pv_bytes v)))) < 4294967296"
    using Cons.prems(1) by simp
  ultimately have "read_section (moved c (1 + length (pv_bytes v))) = Inr ps"
    using Cons.IH Cons.prems(2) by simp
  then show ?case
    by (subst read_section.simps) (simp add: n getter_for_typed [OF w g] t p)
qed

lemma read_section_sound:
  "length (pc_section c) < 4294967296 \<Longrightarrow> pc_at c \<le> length (pc_section c) \<Longrightarrow>
   read_section c = Inr ps \<Longrightarrow> ahead c = section_bytes ps \<and> list_all readable ps"
proof (induction c arbitrary: ps rule: read_section.induct)
  case (1 c)
  show ?case
  proof (cases "next_type c")
    case (Inl e)
    then have "ps = []" "e = Cursor_EndOfProperties"
      using "1.prems"(3) by (auto simp: read_section.simps [of c] split: if_splits)
    then show ?thesis using Inl by (auto simp: next_type_eq Let_def split: if_splits)
  next
    case (Inr pid)
    then obtain c' v qs where g: "getter_for pid c = (c', Inr v)" and r: "read_section c' = Inr qs"
      and ps: "ps = (pid, v) # qs"
      using "1.prems"(3) by (auto simp: read_section.simps [of c] rbind_eq_Inr split: prod.splits sum.splits)
    obtain w where w: "width_of pid = Some w"
      using Inr by (auto simp: next_type_eq Let_def split: if_splits)
    have u: "pid \<notin> ungettable"
      using g by (auto simp: ungettable_def getter_for_def)
    have t: "shape v = w" "pv_ok v" "\<exists>rest. ahead c = pid # pv_bytes v @ rest"
      "c' = moved c (1 + length (pv_bytes v))"
      using g typed_read_iff [OF "1.prems"(1) w] unfolding getter_for_typed [OF w u] by blast+
    then obtain rest where a: "ahead c = pid # pv_bytes v @ rest" by blast
    have "drop (1 + length (pv_bytes v)) (ahead c) = rest" unfolding a by simp
    then have rest: "ahead c' = rest" by (simp add: t(4) ac_simps)
    have "1 + length (pv_bytes v) \<le> length (ahead c)" unfolding a by simp
    then have le: "pc_at c' \<le> length (pc_section c')" using "1.prems"(2) by (simp add: t(4))
    have "ahead c' = section_bytes qs \<and> list_all readable qs"
      by (rule "1.IH" [OF Inr g [symmetric] refl _ le r]) (use "1.prems"(1) t(4) in simp)
    moreover have "readable (pid, v)" using w t(1,2) u by (simp add: readable_def)
    ultimately show ?thesis using a rest by (simp add: ps)
  qed
qed

text \<open>A finished section read to its end.\<close>

lemma built_section_read:
  assumes "builder_new buf = Inr b0"
    and "\<And>p. p \<in> set (spec_build (length buf) kind as []) \<Longrightarrow> fst p \<notin> ungettable"
  shows "read_section (cursor_new (builder_section (build_all kind as b0))) =
    Inr (spec_build (length buf) kind as [])"
proof -
  let ?ps = "spec_build (length buf) kind as []" and ?b = "build_all kind as b0"
  have b0: "builds b0 []" "pb_buffer b0 = buf" using builder_new_builds [OF assms(1)] by simp_all
  have b: "builds ?b ?ps" "built_list kind ?ps"
    using build_all_builds [OF b0(1), of kind as] b0(2) by simp_all
  have "width_of (fst (adder_property a)) = Some (shape (snd (adder_property a)))" for a
    by (cases a) (simp_all add: width_of_def)
  then have "readable p" if "p \<in> set ?ps" for p
    using that b(2) assms(2) [OF that] spec_build_subset [of "length buf" kind as "[]"] buildable_pv_ok
    unfolding readable_def built_list_def by fastforce
  then have "list_all readable ?ps" by (simp add: list_all_iff)
  moreover have "builder_section ?b = section_bytes ?ps" "length (builder_section ?b) < 4294967296"
    using b(1) by (auto simp: builds_def builder_ok_def)
  ultimately show ?thesis by (intro read_section_ahead) (simp_all add: cursor_new_def)
qed

section \<open>One list for a section\<close>

text \<open>Bytes are the section of one list at most, when every property has the type of its identifier.\<close>

definition typed :: "byte \<times> prop_value \<Rightarrow> bool" where
  "typed p \<longleftrightarrow> width_of (fst p) = Some (shape (snd p)) \<and> pv_ok (snd p)"

lemma section_bytes_inj:
  "length (section_bytes ps) < 4294967296 \<Longrightarrow> list_all typed ps \<Longrightarrow> list_all typed qs \<Longrightarrow>
   section_bytes ps = section_bytes qs \<Longrightarrow> ps = qs"
proof (induction ps arbitrary: qs)
  case Nil
  then show ?case by (cases qs) (auto simp: section_bytes_def)
next
  case (Cons p ps)
  obtain pid v where p: "p = (pid, v)" by (cases p)
  from Cons.prems(4) obtain v' qs' where qs: "qs = (pid, v') # qs'"
    by (cases qs) (auto simp: p section_bytes_def)
  let ?c = "cursor_new (section_bytes (p # ps))"
  have n: "length (pc_section ?c) < 4294967296" using Cons.prems(1) by (simp add: cursor_new_def)
  have w: "width_of pid = Some (shape v)" "shape v' = shape v" "pv_ok v" "pv_ok v'"
    using Cons.prems(2,3) by (simp_all add: p qs typed_def)
  have a: "ahead ?c = pid # pv_bytes v @ section_bytes ps" "ahead ?c = pid # pv_bytes v' @ section_bytes qs'"
    using Cons.prems(4) by (simp_all add: cursor_new_def p qs)
  have "typed_read (shape v) pid ?c = (moved ?c (1 + length (pv_bytes v)), Inr v)"
    "typed_read (shape v) pid ?c = (moved ?c (1 + length (pv_bytes v')), Inr v')"
    unfolding typed_read_iff [OF n w(1)] using w a by blast+
  then have v: "v' = v" by simp
  have "section_bytes ps = section_bytes qs'" using a v by simp
  moreover have "length (section_bytes ps) < 4294967296" using Cons.prems(1) by (simp add: p)
  ultimately have "ps = qs'" using Cons.IH Cons.prems(2,3) by (simp add: qs)
  then show ?case by (simp add: p qs v)
qed

lemma built_typed: "built_list kind ps \<Longrightarrow> list_all typed ps"
  unfolding list_all_iff
proof
  fix p assume "built_list kind ps" "p \<in> set ps"
  then obtain a where a: "p = adder_property a" "buildable p" by (auto simp: built_list_def)
  have "pv_ok (snd p)" using a buildable_pv_ok by simp
  then show "typed p" by (cases a) (simp_all add: a(1) typed_def width_of_def)
qed

text \<open>The section of a builder, and the list behind it.\<close>

lemma built_by:
  assumes "builder_new buf = Inr b0" "sec = builder_section (build_all kind as b0)"
    and "ps = spec_build (length buf) kind as []"
  shows "sec = section_bytes ps" "length sec < 268435456" "built_list kind ps"
proof -
  have b0: "builds b0 []" "pb_buffer b0 = buf" using builder_new_builds [OF assms(1)] by simp_all
  have b: "builds (build_all kind as b0) ps" "built_list kind ps"
    using build_all_builds [OF b0(1), of kind as] b0(2) by (simp_all add: assms(3))
  show "sec = section_bytes ps" "built_list kind ps" using b assms(2) by (simp_all add: builds_def)
  show "length sec < 268435456" using b(1) assms(2) by (auto simp: builds_def builder_ok_def)
qed

text \<open>What a table of typed properties, none but a user property only once, takes of it.\<close>

lemma built_for_table:
  assumes "sec = section_bytes ps" "length sec < 268435456" "built_list kind ps"
    and "\<And>p. ok p \<Longrightarrow> width_of (fst p) = Some (shape (snd p))" "\<And>pid. once pid \<Longrightarrow> pid \<noteq> ID_USER_PROPERTY"
  shows "(\<exists>qs. table_takes ok once qs \<and> list_all (\<lambda>(_, v). pv_ok v) qs \<and> sec = section_bytes qs \<and> R qs) \<longleftrightarrow>
    (\<forall>p\<in>set ps. ok p) \<and> R ps"
proof (intro iffI)
  assume "\<exists>qs. table_takes ok once qs \<and> list_all (\<lambda>(_, v). pv_ok v) qs \<and> sec = section_bytes qs \<and> R qs"
  then obtain qs where qs: "table_takes ok once qs" "list_all (\<lambda>(_, v). pv_ok v) qs" "sec = section_bytes qs" "R qs"
    by blast
  have "typed p" if "p \<in> set qs" for p
    unfolding typed_def using qs(1,2) assms(4) [of p] that
    by (cases p) (auto simp: table_takes_def list_all_iff)
  then have t: "list_all typed qs" by (simp add: list_all_iff)
  have "length (section_bytes ps) < 4294967296" using assms(1,2) by simp
  from section_bytes_inj [OF this built_typed [OF assms(3)] t] have "ps = qs" using assms(1) qs(3) by metis
  then show "(\<forall>p\<in>set ps. ok p) \<and> R ps" using qs(1,4) by (simp add: table_takes_def list_all_iff)
next
  assume all: "(\<forall>p\<in>set ps. ok p) \<and> R ps"
  have "table_takes ok once ps" by (rule built_takes [OF assms(3) _ assms(5)]) (use all in blast)
  then show "\<exists>qs. table_takes ok once qs \<and> list_all (\<lambda>(_, v). pv_ok v) qs \<and> sec = section_bytes qs \<and> R qs"
    using all built_list_pv_ok [OF assms(3)] assms(1) by blast
qed

text \<open>The tables of the validators are typed, and what each refuses of the properties the builder
  puts into a packet of that type.\<close>

lemma prop_ok_typed:
  "ack_prop_ok p \<Longrightarrow> width_of (fst p) = Some (shape (snd p))"
  "subscribe_prop_ok available p \<Longrightarrow> width_of (fst p) = Some (shape (snd p))"
  "unsubscribe_prop_ok p \<Longrightarrow> width_of (fst p) = Some (shape (snd p))"
  "connect_prop_ok p \<Longrightarrow> width_of (fst p) = Some (shape (snd p))"
  "will_prop_ok p \<Longrightarrow> width_of (fst p) = Some (shape (snd p))"
  "outgoing_publish_prop_ok mx p \<Longrightarrow> width_of (fst p) = Some (shape (snd p))"
  "outgoing_prop_ok se p \<Longrightarrow> width_of (fst p) = Some (shape (snd p))"
  by (cases p; cases "snd p"; auto simp: width_of_def)+

abbreviation will_ids :: "byte list" where
  "will_ids \<equiv> [ID_WILL_DELAY, ID_PAYLOAD_FORMAT, ID_MESSAGE_EXPIRY, ID_CONTENT_TYPE, ID_RESPONSE_TOPIC,
     ID_CORRELATION_DATA]"

lemma adder_prop_ok:
  assumes "buildable (adder_property a)" "fst (adder_property a) \<in> set (may_carry kind)"
  shows "kind \<in> {PUBACK, PUBREC, PUBREL, PUBCOMP} \<Longrightarrow> ack_prop_ok (adder_property a)"
    "kind = SUBSCRIBE \<Longrightarrow> subscribe_prop_ok available (adder_property a) \<longleftrightarrow>
       available \<or> fst (adder_property a) \<noteq> ID_SUBSCRIPTION_ID"
    "kind = UNSUBSCRIBE \<Longrightarrow> unsubscribe_prop_ok (adder_property a)"
    "kind = CONNECT \<Longrightarrow> connect_prop_ok (adder_property a) \<longleftrightarrow> fst (adder_property a) \<notin> set will_ids"
    "kind = CONNECT \<Longrightarrow> will_prop_ok (adder_property a) \<longleftrightarrow>
       fst (adder_property a) \<in> set will_ids \<union> {ID_USER_PROPERTY}"
    "kind = PUBLISH \<Longrightarrow> outgoing_publish_prop_ok mx (adder_property a) \<longleftrightarrow>
       fst (adder_property a) \<noteq> ID_SUBSCRIPTION_ID \<and>
       (\<forall>v. adder_property a = (ID_TOPIC_ALIAS, PV_u16 v) \<longrightarrow> v \<le> mx)"
    "kind = DISCONNECT \<Longrightarrow> outgoing_prop_ok se (adder_property a) \<longleftrightarrow>
       se \<noteq> 0 \<or> (\<forall>v. adder_property a = (ID_SESSION_EXPIRY, PV_u32 v) \<longrightarrow> v = 0)"
  using assms by (cases a; auto simp: may_carry_def of_bool_def)+

lemma built_prop_ok:
  assumes "built_list (Some kind) ps" "\<And>a. buildable (adder_property a) \<Longrightarrow>
      fst (adder_property a) \<in> set (may_carry kind) \<Longrightarrow> ok (adder_property a) \<longleftrightarrow> Q (adder_property a)"
  shows "(\<forall>p\<in>set ps. ok p) \<longleftrightarrow> (\<forall>p\<in>set ps. Q p)"
proof -
  have "ok p \<longleftrightarrow> Q p" if "p \<in> set ps" for p
  proof -
    obtain a where "p = adder_property a" "buildable p" "fst p \<in> set (may_carry kind)"
      using assms(1) \<open>p \<in> set ps\<close> by (auto simp: built_list_def)
    then show ?thesis using assms(2) by simp
  qed
  then show ?thesis by simp
qed

text \<open>Both together: what a validator makes of a section from the builder.\<close>

lemma built_accepted:
  assumes "sec = section_bytes ps" "length sec < 268435456" "built_list (Some kind) ps"
    and "\<And>p. ok p \<Longrightarrow> width_of (fst p) = Some (shape (snd p))" "\<And>pid. once pid \<Longrightarrow> pid \<noteq> ID_USER_PROPERTY"
    and "\<And>a. buildable (adder_property a) \<Longrightarrow> fst (adder_property a) \<in> set (may_carry kind) \<Longrightarrow>
      ok (adder_property a) \<longleftrightarrow> Q (adder_property a)"
  shows "(\<exists>qs. table_takes ok once qs \<and> list_all (\<lambda>(_, v). pv_ok v) qs \<and> sec = section_bytes qs \<and> R qs) \<longleftrightarrow>
    (\<forall>p\<in>set ps. Q p) \<and> R ps"
    and "table_section ok once sec \<longleftrightarrow> (\<forall>p\<in>set ps. Q p)"
proof -
  have q: "(\<forall>p\<in>set ps. ok p) \<longleftrightarrow> (\<forall>p\<in>set ps. Q p)" by (rule built_prop_ok [OF assms(3), where ok = ok and Q = Q]) (rule assms(6))
  have all: "(\<exists>qs. table_takes ok once qs \<and> list_all (\<lambda>(_, v). pv_ok v) qs \<and> sec = section_bytes qs \<and> S qs) \<longleftrightarrow>
      (\<forall>p\<in>set ps. Q p) \<and> S ps" for S
    using built_for_table [OF assms(1-5), where R = S] q by simp
  show "(\<exists>qs. table_takes ok once qs \<and> list_all (\<lambda>(_, v). pv_ok v) qs \<and> sec = section_bytes qs \<and> R qs) \<longleftrightarrow>
      (\<forall>p\<in>set ps. Q p) \<and> R ps"
    by (rule all)
  from all [of "\<lambda>_. True"] show "table_section ok once sec \<longleftrightarrow> (\<forall>p\<in>set ps. Q p)"
    using assms(2) by (simp add: table_section_def)
qed

section \<open>Properties\<close>

text \<open>C29. Skipping steps past exactly one property: it succeeds when an identifier MQTT defines is
  under the cursor with a complete, minimally encoded value of that identifier's width behind it,
  and then the cursor stands on the byte after the value. Otherwise the cursor has not moved, and
  the error says which of the three it was: the end of the section, an unknown identifier, or
  a malformed value. The identifier table and the skipper cannot disagree.\<close>

theorem cursor_skip_iff:
  assumes "length (pc_section c) < 4294967296"
  shows "(cursor_skip c = (c', Inr ()) \<longleftrightarrow>
      (\<exists>pid v rest. drop (pc_at c) (pc_section c) = pid # pv_bytes v @ rest \<and>
         width_of pid = Some (shape v) \<and> pv_ok v \<and>
         c' = c\<lparr>pc_at := pc_at c + (1 + length (pv_bytes v))\<rparr>)) \<and>
    (cursor_skip c = (c', Inl e) \<longrightarrow> c' = c \<and>
       (e = Cursor_EndOfProperties \<longleftrightarrow> length (pc_section c) \<le> pc_at c) \<and>
       (e = Cursor_BadResponse \<longleftrightarrow> (\<exists>pid. next_type c = Inr pid)))"
proof (intro conjI impI)
  show "cursor_skip c = (c', Inr ()) \<longleftrightarrow>
      (\<exists>pid v rest. drop (pc_at c) (pc_section c) = pid # pv_bytes v @ rest \<and>
         width_of pid = Some (shape v) \<and> pv_ok v \<and>
         c' = c\<lparr>pc_at := pc_at c + (1 + length (pv_bytes v))\<rparr>)"
    by (rule cursor_skip_ok [OF assms])
next
  assume s: "cursor_skip c = (c', Inl e)"
  note r = cursor_skip_refused [OF assms s]
  show "c' = c" using r by simp
  show "e = Cursor_EndOfProperties \<longleftrightarrow> length (pc_section c) \<le> pc_at c"
    using r by (auto split: if_splits)
  show "e = Cursor_BadResponse \<longleftrightarrow> (\<exists>pid. next_type c = Inr pid)"
    using r by (auto simp: next_type_eq Let_def split: if_splits)
qed

theorem cursor_skip_iff_witness:
  "cursor_skip (cursor_new [0x1F, 0, 1, 65, 0x24, 1]) =
     (\<lparr>pc_section = [0x1F, 0, 1, 65, 0x24, 1], pc_at = 4\<rparr>, Inr ())"
proof -
  let ?c = "cursor_new [0x1F, 0, 1, 65, 0x24, 1]"
  have "\<exists>pid v rest. drop (pc_at ?c) (pc_section ?c) = pid # pv_bytes v @ rest \<and>
      width_of pid = Some (shape v) \<and> pv_ok v \<and>
      \<lparr>pc_section = [0x1F, 0, 1, 65, 0x24, 1], pc_at = 4\<rparr> = ?c\<lparr>pc_at := pc_at ?c + (1 + length (pv_bytes v))\<rparr>"
    by (intro exI [of _ "0x1F"] exI [of _ "PV_utf8 [65]"] exI [of _ "[0x24, 1]"])
      (simp add: mqtt_string_def be16_def width_of_def cursor_new_def)
  with cursor_skip_iff [of ?c, THEN conjunct1] show ?thesis by (simp add: cursor_new_def)
qed

text \<open>C27. Each getter accepts exactly one identifier: of the twenty-seven MQTT defines, all but the
  three no broker sends have a getter, and it succeeds exactly when that identifier is under the
  cursor with a complete value of its type, which it returns, moving the cursor past it. Refused,
  it leaves the cursor, and blames the identifier when that is not its own.\<close>

theorem getters_exact:
  assumes "length (pc_section c) < 4294967296" and "width_of pid = Some w"
    and "pid \<notin> {ID_WILL_DELAY, ID_REQUEST_PROBLEM, ID_REQUEST_RESPONSE}"
  shows "(getter_for pid c = (c', Inr v) \<longleftrightarrow> shape v = w \<and> pv_ok v \<and>
      (\<exists>rest. drop (pc_at c) (pc_section c) = pid # pv_bytes v @ rest) \<and>
      c' = c\<lparr>pc_at := pc_at c + (1 + length (pv_bytes v))\<rparr>) \<and>
    (getter_for pid c = (c', Inl e) \<longrightarrow> c' = c \<and>
      e = (if length (pc_section c) \<le> pc_at c then Cursor_EndOfProperties
           else if pc_section c ! pc_at c \<noteq> pid then Cursor_BadParameter else Cursor_BadResponse))"
proof -
  have g: "getter_for pid c = typed_read w pid c"
    by (rule getter_for_typed [OF assms(2)]) (use assms(3) in \<open>simp add: ungettable_def\<close>)
  show ?thesis
    unfolding g using typed_read_iff [OF assms(1,2)] typed_read_refused [OF assms(1,2)]
    unfolding refusal_def by blast
qed

theorem getters_exact_witness:
  "getter_for 0x21 (cursor_new [0x21, 1, 2]) = (\<lparr>pc_section = [0x21, 1, 2], pc_at = 3\<rparr>, Inr (PV_u16 258))"
  using getters_exact [of "cursor_new [0x21, 1, 2]" "0x21" W_TwoBytes
      "\<lparr>pc_section = [0x21, 1, 2], pc_at = 3\<rparr>" "PV_u16 258"]
  by (simp add: cursor_new_def width_of_def be16_def)

text \<open>C23. What the builder wrote the cursor reads: from an empty buffer, after any calls of adders,
  reading the finished section to its end returns the properties that were accepted, each with
  its identifier and its value, in the order they were added, and nothing else. It does not when
  one of the three the broker does not send is among them, Will Delay Interval, Request Problem
  Information or Request Response Information: they have adders and no getter, and the reading
  of such a section fails.\<close>

theorem builder_cursor_roundtrip:
  assumes "builder_new buf = Inr b0"
  shows "read_section (cursor_new (builder_section (build_all kind as b0))) = Inr qs \<longleftrightarrow>
    qs = spec_build (length buf) kind as [] \<and>
    (\<forall>p\<in>set qs. fst p \<notin> {ID_WILL_DELAY, ID_REQUEST_PROBLEM, ID_REQUEST_RESPONSE})"
proof -
  let ?sec = "builder_section (build_all kind as b0)" and ?ps = "spec_build (length buf) kind as []"
  note b = built_by [OF assms refl refl, of kind as]
  show ?thesis
  proof
    assume r: "read_section (cursor_new ?sec) = Inr qs"
    have "?sec = section_bytes qs" "list_all readable qs"
      using read_section_sound [OF _ _ r] b(2) by (simp_all add: cursor_new_def)
    moreover from this have "list_all typed qs" by (auto simp: list_all_iff readable_def typed_def)
    ultimately have "qs = ?ps" "list_all readable qs"
      using section_bytes_inj [of ?ps qs] built_typed [OF b(3)] b(1,2) by simp_all
    then show "qs = ?ps \<and> (\<forall>p\<in>set qs. fst p \<notin> {ID_WILL_DELAY, ID_REQUEST_PROBLEM, ID_REQUEST_RESPONSE})"
      by (simp add: list_all_iff readable_def ungettable_def)
  qed (use built_section_read [OF assms, of kind as] in \<open>auto simp: ungettable_def\<close>)
qed

theorem builder_cursor_roundtrip_witness:
  "read_section (cursor_new (builder_section (build_all (Some CONNECT)
      [Auth_data [7], Receive_max 5, Auth_method [65]] \<lparr>pb_buffer = replicate 12 0, pb_at = 0, pb_fields = 0\<rparr>)))
   = Inr [(0x21, PV_u16 5), (0x15, PV_utf8 [65])]"
proof -
  have n: "builder_new (replicate 12 0) = Inr \<lparr>pb_buffer = replicate 12 0, pb_at = 0, pb_fields = 0\<rparr>"
    by (simp add: builder_new_def try_u32_def)
  have "spec_build (length (replicate 12 0 :: bytes)) (Some CONNECT)
      [Auth_data [7], Receive_max 5, Auth_method [65]] [] = [(0x21, PV_u16 5), (0x15, PV_utf8 [65])]"
    by (simp add: spec_build_def spec_add_def may_carry_def)
  then show ?thesis
    using builder_cursor_roundtrip [OF n, where as = "[Auth_data [7], Receive_max 5, Auth_method [65]]" and kind = "Some CONNECT"]
    by simp
qed

text \<open>A section has one reading: reading it to the end succeeds exactly when it is the encoding of
  a list of known, gettable properties with values of their types, and then it returns that
  list; a section with anything else in it, or a byte too many or too few, is refused.\<close>

theorem read_section_iff:
  assumes "length sec < 4294967296"
  shows "read_section (cursor_new sec) = Inr ps \<longleftrightarrow> sec = section_bytes ps \<and>
    (\<forall>p\<in>set ps. width_of (fst p) = Some (shape (snd p)) \<and> pv_ok (snd p) \<and>
       fst p \<notin> {ID_WILL_DELAY, ID_REQUEST_PROBLEM, ID_REQUEST_RESPONSE})"
proof -
  have r: "(\<forall>p\<in>set ps. width_of (fst p) = Some (shape (snd p)) \<and> pv_ok (snd p) \<and>
       fst p \<notin> {ID_WILL_DELAY, ID_REQUEST_PROBLEM, ID_REQUEST_RESPONSE}) \<longleftrightarrow> list_all readable ps"
    by (auto simp: list_all_iff readable_def ungettable_def)
  show ?thesis
    unfolding r using read_section_ahead [of "cursor_new sec" ps] read_section_sound [of "cursor_new sec" ps] assms
    by (auto simp: cursor_new_def)
qed

theorem read_section_iff_witness:
  "read_section (cursor_new [0x24, 1, 0x1F, 0, 1, 65]) = Inr [(0x24, PV_u8 1), (0x1F, PV_utf8 [65])]"
  using read_section_iff [of "[0x24, 1, 0x1F, 0, 1, 65]" "[(0x24, PV_u8 1), (0x1F, PV_utf8 [65])]"]
  by (simp add: width_of_def mqtt_string_def be16_def)

text \<open>C24. A section built for a packet type against the validator of that packet, whatever was called;
  the list is what the builder accepted. The acknowledgements and UNSUBSCRIBE take any. SUBSCRIBE
  takes it unless it has a subscription identifier and the broker does not take those; CONNECT
  when none of the will's properties is in it, and the will when nothing but those and user
  properties is; PUBLISH unless it has a subscription identifier, which the builder's own table
  allows there, or an alias beyond the broker's maximum; DISCONNECT unless it has a session expiry
  that is not zero where the session has announced none. In each case it is refused otherwise.\<close>

theorem built_section_accepted:
  assumes "builder_new buf = Inr b0" and "sec = builder_section (build_all (Some kind) as b0)"
    and "ps = spec_build (length buf) (Some kind) as []"
  shows "(kind \<in> {PUBACK, PUBREC, PUBREL, PUBCOMP} \<longrightarrow> validate_publish_ack_properties sec = Inr ()) \<and>
    (kind = SUBSCRIBE \<longrightarrow> (validate_subscribe_properties available sec = Inr () \<longleftrightarrow>
       available \<or> (\<forall>p\<in>set ps. fst p \<noteq> ID_SUBSCRIPTION_ID))) \<and>
    (kind = UNSUBSCRIBE \<longrightarrow> validate_unsubscribe_properties sec = Inr ()) \<and>
    (kind = CONNECT \<longrightarrow> (snd (validate_connect_properties sec f) = Inr () \<longleftrightarrow>
       (\<forall>p\<in>set ps. fst p \<notin> {ID_WILL_DELAY, ID_PAYLOAD_FORMAT, ID_MESSAGE_EXPIRY, ID_CONTENT_TYPE,
          ID_RESPONSE_TOPIC, ID_CORRELATION_DATA}))) \<and>
    (kind = CONNECT \<longrightarrow> (validate_will_properties sec = Inr () \<longleftrightarrow>
       (\<forall>p\<in>set ps. fst p \<in> {ID_WILL_DELAY, ID_PAYLOAD_FORMAT, ID_MESSAGE_EXPIRY, ID_CONTENT_TYPE,
          ID_RESPONSE_TOPIC, ID_CORRELATION_DATA, ID_USER_PROPERTY}))) \<and>
    (kind = PUBLISH \<longrightarrow> (snd (validate_publish_properties mx sec ta) = Inr () \<longleftrightarrow>
       (\<forall>p\<in>set ps. fst p \<noteq> ID_SUBSCRIPTION_ID \<and> (\<forall>v. p = (ID_TOPIC_ALIAS, PV_u16 v) \<longrightarrow> v \<le> mx)))) \<and>
    (kind = DISCONNECT \<longrightarrow> (validate_outgoing_properties se sec = Inr () \<longleftrightarrow>
       se \<noteq> 0 \<or> (\<forall>p\<in>set ps. \<forall>v. p = (ID_SESSION_EXPIRY, PV_u32 v) \<longrightarrow> v = 0)))"
proof -
  note b = built_by [OF assms]
  note taken = built_accepted [OF b]
  show ?thesis
  proof (intro conjI impI)
    assume k: "kind \<in> {PUBACK, PUBREC, PUBREL, PUBCOMP}"
    have "table_section ack_prop_ok (\<lambda>pid. pid = ID_REASON_STRING) sec \<longleftrightarrow> (\<forall>p\<in>set ps. True)"
      by (rule taken(2) [OF prop_ok_typed(1)]) (use adder_prop_ok(1) [OF _ _ k] in simp_all)
    then show "validate_publish_ack_properties sec = Inr ()" by (simp add: validate_publish_ack_ok)
  next
    assume k: "kind = SUBSCRIBE"
    have "table_section (subscribe_prop_ok available) (\<lambda>pid. pid = ID_SUBSCRIPTION_ID) sec \<longleftrightarrow>
        (\<forall>p\<in>set ps. available \<or> fst p \<noteq> ID_SUBSCRIPTION_ID)"
      by (rule taken(2) [OF prop_ok_typed(2)]) (use adder_prop_ok(2) [OF _ _ k] in simp_all)
    then show "validate_subscribe_properties available sec = Inr () \<longleftrightarrow>
        available \<or> (\<forall>p\<in>set ps. fst p \<noteq> ID_SUBSCRIPTION_ID)"
      unfolding validate_subscribe_ok by blast
  next
    assume k: "kind = UNSUBSCRIBE"
    have "table_section unsubscribe_prop_ok (\<lambda>_. False) sec \<longleftrightarrow> (\<forall>p\<in>set ps. True)"
      by (rule taken(2) [OF prop_ok_typed(3)]) (use adder_prop_ok(3) [OF _ _ k] in simp_all)
    then show "validate_unsubscribe_properties sec = Inr ()" by (simp add: validate_unsubscribe_ok)
  next
    assume k: "kind = CONNECT"
    let ?Q = "\<lambda>p. fst p \<notin> {ID_WILL_DELAY, ID_PAYLOAD_FORMAT, ID_MESSAGE_EXPIRY, ID_CONTENT_TYPE,
      ID_RESPONSE_TOPIC, ID_CORRELATION_DATA}"
    have "snd (validate_connect_properties sec f) = Inr () \<longleftrightarrow> (\<exists>f'. validate_connect_properties sec f = (f', Inr ()))"
      by (cases "validate_connect_properties sec f") auto
    also have "\<dots> \<longleftrightarrow> (\<exists>qs. table_takes connect_prop_ok connect_once qs \<and> list_all (\<lambda>(_, v). pv_ok v) qs \<and>
        sec = section_bytes qs \<and> connect_auth_ok qs)"
      using b(2) unfolding validate_connect_ok by blast
    also have "\<dots> \<longleftrightarrow> (\<forall>p\<in>set ps. ?Q p) \<and> connect_auth_ok ps"
      by (rule taken(1) [OF prop_ok_typed(4)]) (use adder_prop_ok(4) [OF _ _ k] in simp_all)
    finally show "snd (validate_connect_properties sec f) = Inr () \<longleftrightarrow> (\<forall>p\<in>set ps. ?Q p)"
      using b(3) by (simp add: built_list_def)
  next
    assume k: "kind = CONNECT"
    have "table_section will_prop_ok connect_once sec \<longleftrightarrow> (\<forall>p\<in>set ps. fst p \<in> {ID_WILL_DELAY, ID_PAYLOAD_FORMAT,
        ID_MESSAGE_EXPIRY, ID_CONTENT_TYPE, ID_RESPONSE_TOPIC, ID_CORRELATION_DATA, ID_USER_PROPERTY})"
      by (rule taken(2) [OF prop_ok_typed(5)]) (use adder_prop_ok(5) [OF _ _ k] in auto)
    then show "validate_will_properties sec = Inr () \<longleftrightarrow> (\<forall>p\<in>set ps. fst p \<in> {ID_WILL_DELAY, ID_PAYLOAD_FORMAT,
        ID_MESSAGE_EXPIRY, ID_CONTENT_TYPE, ID_RESPONSE_TOPIC, ID_CORRELATION_DATA, ID_USER_PROPERTY})"
      unfolding validate_will_ok .
  next
    assume k: "kind = PUBLISH"
    let ?Q = "\<lambda>p. fst p \<noteq> ID_SUBSCRIPTION_ID \<and> (\<forall>v. p = (ID_TOPIC_ALIAS, PV_u16 v) \<longrightarrow> v \<le> mx)"
    have "snd (validate_publish_properties mx sec ta) = Inr () \<longleftrightarrow> (\<exists>ta'. validate_publish_properties mx sec ta = (ta', Inr ()))"
      by (cases "validate_publish_properties mx sec ta") auto
    also have "\<dots> \<longleftrightarrow> (\<exists>qs. table_takes (outgoing_publish_prop_ok mx) (\<lambda>pid. pid = ID_TOPIC_ALIAS) qs \<and>
        list_all (\<lambda>(_, v). pv_ok v) qs \<and> sec = section_bytes qs \<and> True)"
      using b(2) unfolding validate_publish_ok by blast
    also have "\<dots> \<longleftrightarrow> (\<forall>p\<in>set ps. ?Q p) \<and> True"
      by (rule taken(1) [OF prop_ok_typed(6)]) (use adder_prop_ok(6) [OF _ _ k] in simp_all)
    finally show "snd (validate_publish_properties mx sec ta) = Inr () \<longleftrightarrow> (\<forall>p\<in>set ps. ?Q p)" by simp
  next
    assume k: "kind = DISCONNECT"
    let ?Q = "\<lambda>p. se \<noteq> 0 \<or> (\<forall>v. p = (ID_SESSION_EXPIRY, PV_u32 v) \<longrightarrow> v = 0)"
    have "validate_outgoing_properties se sec = Inr () \<longleftrightarrow> (\<exists>qs. table_takes (outgoing_prop_ok se) (\<lambda>_. False) qs \<and>
        list_all (\<lambda>(_, v). pv_ok v) qs \<and> sec = section_bytes qs \<and> True)"
      using b(2) unfolding validate_outgoing_ok by simp
    also have "\<dots> \<longleftrightarrow> (\<forall>p\<in>set ps. ?Q p) \<and> True"
      by (rule taken(1) [OF prop_ok_typed(7)]) (use adder_prop_ok(7) [OF _ _ k] in simp_all)
    finally show "validate_outgoing_properties se sec = Inr () \<longleftrightarrow>
        se \<noteq> 0 \<or> (\<forall>p\<in>set ps. \<forall>v. p = (ID_SESSION_EXPIRY, PV_u32 v) \<longrightarrow> v = 0)" by blast
  qed
qed

theorem built_section_accepted_witness:
  "validate_publish_ack_properties (builder_section
     (build_all (Some PUBACK) [Reason_string [65], Reason_string [66], User_prop [1] [2]]
        \<lparr>pb_buffer = replicate 20 0, pb_at = 0, pb_fields = 0\<rparr>)) = Inr ()"
proof -
  have n: "builder_new (replicate 20 0) = Inr \<lparr>pb_buffer = replicate 20 0, pb_at = 0, pb_fields = 0\<rparr>"
    by (simp add: builder_new_def try_u32_def)
  show ?thesis
    using built_section_accepted [OF n refl refl, of PUBACK
      "[Reason_string [65], Reason_string [66], User_prop [1] [2]]"] by blast
qed

end
