(* ===== verification/Sending.thy ===== *)
theory Sending
  imports Client
begin

text \<open>
  client.rs: the two senders, and the two packets that use them and nothing else. A sender
  offers what is left until the transport has taken it, the transport fails or the time is up;
  its loop is \<open>rounds\<close> over one turn. The transport and the clock work on one world.
\<close>

section \<open>The clock and the senders\<close>

text \<open>\<open>Clock::now_ms\<close>.\<close>

type_synonym 'w clock = "'w \<Rightarrow> 'w \<times> u32"

abbreviation (input) SEND_TIMEOUT_MS :: u32 where "SEND_TIMEOUT_MS \<equiv> 20000"

datatype send_outcome = Outcome_Sent nat | Outcome_Failed

definition elapsed_ms :: "u32 \<Rightarrow> u32 \<Rightarrow> u32" where
  "elapsed_ms later start = later - start"

text \<open>What both senders and \<open>recv_exact\<close> do to the connection when the transport fails.\<close>

definition transport_failed :: "mqtt_context \<Rightarrow> mqtt_context" where
  "transport_failed c = (if mc_connect_status c = Connected
     then c\<lparr>mc_connect_status := DisconnectPending\<rparr> else c)"

text \<open>\<open>self.last_packet_tx_time = clock.now_ms()\<close>.\<close>

definition stamp_tx :: "'w clock \<Rightarrow> (mqtt_context \<times> 'w, 'e, unit) io" where
  "stamp_tx clock = io_bind (world_call clock) (\<lambda>now. upd (mc_last_packet_tx_time_update (\<lambda>_. now)))"

definition send_buffer_turn ::
    "'w transport \<Rightarrow> 'w clock \<Rightarrow> bytes \<Rightarrow> u32 \<Rightarrow> nat \<Rightarrow> (mqtt_context \<times> 'w, send_outcome, nat) io" where
  "send_buffer_turn transport clock buffer start sent =
     (if sent \<ge> length buffer then io_fail (Outcome_Sent sent)
      else case slice_from buffer sent of
        None \<Rightarrow> io_fail Outcome_Failed
      | Some remaining \<Rightarrow>
          io_bind (world_call (tr_send transport remaining)) (\<lambda>answer.
          io_bind (case answer of
              Sent_Bytes count \<Rightarrow>
                io_bind (stamp_tx clock) (\<lambda>_. io_return (sent + min count (length remaining)))
            | Sent_Nothing \<Rightarrow> io_return sent
            | Sent_Failed \<Rightarrow>
                io_bind (upd transport_failed) (\<lambda>_.
                io_bind (world_call clock) (\<lambda>_. io_fail Outcome_Failed))) (\<lambda>sent.
          io_bind (world_call clock) (\<lambda>now.
          if elapsed_ms now start \<ge> SEND_TIMEOUT_MS then io_fail (Outcome_Sent sent)
          else io_return sent))))"

definition send_buffer ::
    "'w transport \<Rightarrow> 'w clock \<Rightarrow> bytes \<Rightarrow> (mqtt_context \<times> 'w, 'e, send_outcome) io" where
  "send_buffer transport clock buffer =
     io_bind (world_call clock) (\<lambda>start.
       rounds (send_buffer_turn transport clock buffer start) 0)"

text \<open>The inner loop of the vector sender: over every vector the call finished.\<close>

function step_over :: "bytes list \<Rightarrow> nat \<Rightarrow> nat \<Rightarrow> nat \<times> nat" where
  "step_over vectors at taken =
     (if at < length vectors then
        (case get_at vectors at of
           None \<Rightarrow> (at, taken)
         | Some part \<Rightarrow>
             if taken < length part then (at, taken)
             else step_over vectors (at + 1) (taken - length part))
      else (at, taken))"
  by auto
termination by (relation "measure (\<lambda>(vectors, at, taken). length vectors - at)") auto

declare step_over.simps [simp del]

text \<open>And inside the one it did not.\<close>

definition advance_inside :: "bytes list \<Rightarrow> nat \<Rightarrow> nat \<Rightarrow> bytes list" where
  "advance_inside vectors at taken =
     (if taken > 0 then
        (case get_at vectors at of
           None \<Rightarrow> vectors
         | Some part \<Rightarrow> (case slice_from part taken of
             None \<Rightarrow> vectors
           | Some rest \<Rightarrow> vectors[at := rest]))
      else vectors)"

definition send_vectors_turn ::
    "'w transport \<Rightarrow> 'w clock \<Rightarrow> nat \<Rightarrow> u32 \<Rightarrow> bytes list \<times> nat \<times> nat \<Rightarrow>
     (mqtt_context \<times> 'w, send_outcome, bytes list \<times> nat \<times> nat) io" where
  "send_vectors_turn transport clock whole start = (\<lambda>(vectors, at, sent).
     if sent \<ge> whole then io_fail (Outcome_Sent sent)
     else case slice_from vectors at of
       None \<Rightarrow> io_fail (Outcome_Sent sent)
     | Some outstanding \<Rightarrow>
         if outstanding = [] then io_fail (Outcome_Sent sent)
         else
         io_bind (world_call (tr_writev transport outstanding)) (\<lambda>answer.
         io_bind (case answer of
             Sent_Bytes count \<Rightarrow>
               (let count = min count (whole - sent)
                in io_bind (stamp_tx clock) (\<lambda>_. io_return (count, sent + count)))
           | Sent_Nothing \<Rightarrow> io_return (0, sent)
           | Sent_Failed \<Rightarrow>
               io_bind (upd transport_failed) (\<lambda>_. io_fail Outcome_Failed)) (\<lambda>(taken, sent).
         case step_over vectors at taken of (at, taken) \<Rightarrow>
           (let vectors = advance_inside vectors at taken
            in if sent < whole then
                 io_bind (world_call clock) (\<lambda>now.
                 if elapsed_ms now start > SEND_TIMEOUT_MS then io_fail (Outcome_Sent sent)
                 else io_return (vectors, at, sent))
               else io_return (vectors, at, sent)))))"

text \<open>The vectors are \<open>&mut\<close>, and what is left of them is used by no caller.\<close>

definition send_vectors ::
    "'w transport \<Rightarrow> 'w clock \<Rightarrow> bytes list \<Rightarrow> (mqtt_context \<times> 'w, 'e, send_outcome) io" where
  "send_vectors transport clock vectors =
     (let whole = sum_list (map length vectors)
      in io_bind (world_call clock) (\<lambda>start.
           rounds (send_vectors_turn transport clock whole start) (vectors, 0, 0)))"

section \<open>PINGREQ and DISCONNECT\<close>

text \<open>\<open>Sent(n) if n == wanted\<close>, and \<open>SendFailed\<close> for anything else.\<close>

definition all_of :: "nat \<Rightarrow> ('s, client_error, send_outcome) io \<Rightarrow> ('s, client_error, unit) io" where
  "all_of wanted send = io_bind send (\<lambda>outcome.
     if outcome = Outcome_Sent wanted then io_return () else io_fail CE_SendFailed)"

text \<open>The check of the connection every request makes.\<close>

definition must_be_connected :: "(mqtt_context \<times> 'w, client_error, unit) io" where
  "must_be_connected = io_bind (ctx connected) io_lift"

definition ping :: "'w transport \<Rightarrow> 'w clock \<Rightarrow> (mqtt_context \<times> 'w, client_error, unit) io" where
  "ping transport clock =
     io_bind must_be_connected (\<lambda>_.
     case serialize_pingreq [0, 0] of (packet, answer) \<Rightarrow>
     io_bind (io_lift (map_err (\<lambda>_. CE_SendFailed) answer)) (\<lambda>written.
     io_bind (io_lift (ok_or CE_SendFailed (slice packet 0 written))) (\<lambda>bytes.
     io_bind (all_of written (send_buffer transport clock bytes)) (\<lambda>_.
     upd (\<lambda>c. c\<lparr>mc_ping_req_send_time := mc_last_packet_tx_time c,
                mc_waiting_for_ping_resp := True\<rparr>)))))"

text \<open>The context as \<open>disconnect\<close> leaves it before it sends.\<close>

definition close_connection :: "mqtt_context \<Rightarrow> mqtt_context" where
  "close_connection c =
     c\<lparr>mc_connect_status := NotConnected, mc_index := 0,
       mc_network := replicate (length (mc_network c)) 0\<rparr>"

definition check_disconnect ::
    "mqtt_context \<Rightarrow> byte option \<Rightarrow> bytes \<Rightarrow> client_error + disconnect_size" where
  "check_disconnect c reason_code properties =
     (if reason_code = None \<and> properties \<noteq> [] then Inl CE_BadParameter
      else rbind (if properties = [] then Inr ()
                  else map_err (\<lambda>_. CE_BadParameter)
                    (validate_outgoing_properties (cp_session_expiry (mc_properties c)) properties)) (\<lambda>_.
      rbind (ok_or CE_BadParameter (try_u32 (length properties))) (\<lambda>property_length.
      rbind (map_err (\<lambda>_. CE_BadParameter)
               (disconnect_packet_size reason_code property_length
                  (ls_max_packet_size (cp_server (mc_properties c))))) (\<lambda>size.
      if mc_connect_status c = NotConnected then Inl CE_NotConnected else Inr size))))"

definition disconnect :: "'w transport \<Rightarrow> 'w clock \<Rightarrow> byte option \<Rightarrow> bytes \<Rightarrow>
    (mqtt_context \<times> 'w, client_error, unit) io" where
  "disconnect transport clock reason_code properties =
     io_bind (io_bind (ctx (\<lambda>c. check_disconnect c reason_code properties)) io_lift) (\<lambda>size.
     io_bind (upd close_connection) (\<lambda>_.
     case serialize_disconnect_fixed (replicate 6 0) reason_code (ds_remaining_length size) of
       (fixed, header) \<Rightarrow>
     if header = 0 then io_fail CE_SendFailed
     else case encode_variable_length (replicate 4 0)
         (case try_u32 (length properties) of Some n \<Rightarrow> n | None \<Rightarrow> 0) of
       (length_field, length_written) \<Rightarrow>
     (let head = take header fixed; prefix = take length_written length_field;
          whole = header + length_written + length properties;
          count = (if properties = [] then 2 else 3)
      in io_bind (io_lift (ok_or CE_SendFailed (slice [head, prefix, properties] 0 count))) (\<lambda>parts.
         all_of whole (send_vectors transport clock parts)))))"

section \<open>A transport that carries what it is given\<close>

text \<open>\<open>wire w\<close> is what has gone out. A transport appends as much of what it is offered as it says
  it took, and some of it when it fails; reading the clock sends nothing.\<close>

definition carries :: "'w transport \<Rightarrow> 'w clock \<Rightarrow> ('w \<Rightarrow> bytes) \<Rightarrow> bool" where
  "carries tr clock wire \<longleftrightarrow>
     (\<forall>w. wire (fst (clock w)) = wire w) \<and>
     (\<forall>bs w. \<exists>n. wire (fst (tr_send tr bs w)) = wire w @ take n bs \<and>
        (case snd (tr_send tr bs w) of Sent_Bytes m \<Rightarrow> n = m | Sent_Nothing \<Rightarrow> n = 0 | Sent_Failed \<Rightarrow> True)) \<and>
     (\<forall>vs w. \<exists>n. wire (fst (tr_writev tr vs w)) = wire w @ take n (concat vs) \<and>
        (case snd (tr_writev tr vs w) of Sent_Bytes m \<Rightarrow> n = m | Sent_Nothing \<Rightarrow> n = 0 | Sent_Failed \<Rightarrow> True))"

lemma carries_clock: "carries tr clock wire \<Longrightarrow> clock w = (w', t) \<Longrightarrow> wire w' = wire w"
  unfolding carries_def by (metis fst_conv)

lemma carries_send:
  assumes "carries tr clock wire" "tr_send tr bs w = (w', r)"
  obtains n where "wire w' = wire w @ take n bs"
    "case r of Sent_Bytes m \<Rightarrow> n = m | Sent_Nothing \<Rightarrow> n = 0 | Sent_Failed \<Rightarrow> True"
  using assms unfolding carries_def by (metis fst_conv snd_conv)

lemma carries_writev:
  assumes "carries tr clock wire" "tr_writev tr vs w = (w', r)"
  obtains n where "wire w' = wire w @ take n (concat vs)"
    "case r of Sent_Bytes m \<Rightarrow> n = m | Sent_Nothing \<Rightarrow> n = 0 | Sent_Failed \<Rightarrow> True"
  using assms unfolding carries_def by (metis fst_conv snd_conv)

text \<open>What a sender has done when it is back: the context is as it was but for the time of the
  last byte and, after a failure, the state of the connection; and what went out is as much of
  the packet as it says, from its start.\<close>

definition stamped :: "mqtt_context \<Rightarrow> mqtt_context \<Rightarrow> bool" where
  "stamped c c' \<longleftrightarrow> (\<exists>t. c' = c\<lparr>mc_last_packet_tx_time := t\<rparr>)"

lemma stamped_refl [simp]: "stamped c c"
  unfolding stamped_def by (rule exI [of _ "mc_last_packet_tx_time c"]) simp

lemma stamped_step: "stamped c c' \<Longrightarrow> stamped c (mc_last_packet_tx_time_update (\<lambda>_. t) c')"
  by (auto simp: stamped_def)

definition send_post :: "'w transport \<Rightarrow> 'w clock \<Rightarrow> ('w \<Rightarrow> bytes) \<Rightarrow> bytes \<Rightarrow>
    mqtt_context \<times> 'w \<Rightarrow> mqtt_context \<times> 'w \<Rightarrow> send_outcome \<Rightarrow> bool" where
  "send_post tr clock wire packet s s' outcome \<longleftrightarrow>
     (\<exists>n c. n \<le> length packet \<and> stamped (fst s) c \<and>
        (carries tr clock wire \<longrightarrow> wire (snd s') = wire (snd s) @ take n packet) \<and>
        (case outcome of
           Outcome_Sent m \<Rightarrow> m = n \<and> fst s' = c
         | Outcome_Failed \<Rightarrow> fst s' = transport_failed c))"

definition going :: "'w transport \<Rightarrow> 'w clock \<Rightarrow> ('w \<Rightarrow> bytes) \<Rightarrow> bytes \<Rightarrow>
    mqtt_context \<times> 'w \<Rightarrow> nat \<Rightarrow> mqtt_context \<times> 'w \<Rightarrow> bool" where
  "going tr clock wire packet s n s' \<longleftrightarrow> n \<le> length packet \<and> stamped (fst s) (fst s') \<and>
     (carries tr clock wire \<longrightarrow> wire (snd s') = wire (snd s) @ take n packet)"

lemma going_done: "going tr clock wire packet s n s' \<Longrightarrow> send_post tr clock wire packet s s' (Outcome_Sent n)"
  unfolding going_def send_post_def by auto

lemma going_stamp:
  assumes "going tr clock wire packet s n (c, w)" "clock w = (w', t)"
  shows "going tr clock wire packet s n (mc_last_packet_tx_time_update (\<lambda>_. t) c, w')"
    and "going tr clock wire packet s n (c, w')"
  using assms carries_clock [of tr clock wire w w' t]
  unfolding going_def by (auto simp: stamped_step)

lemma wlp_stamp_tx:
  assumes "going tr clock wire packet s n s'"
  shows "wlp (stamp_tx clock) (\<lambda>s'' r. going tr clock wire packet s n s'' \<and> r = Inr ()) s'"
proof -
  obtain c w where s: "s' = (c, w)" by (cases s')
  obtain w' t where t: "clock w = (w', t)" by (cases "clock w")
  show ?thesis
    using going_stamp(1) [OF assms [unfolded s] t]
    by (simp add: s t stamp_tx_def wlp_simps)
qed

lemma wlp_read_clock:
  assumes "going tr clock wire packet s n s'"
  shows "wlp (world_call clock) (\<lambda>s'' r. going tr clock wire packet s n s'' \<and> r \<in> range Inr) s'"
proof -
  obtain c w where s: "s' = (c, w)" by (cases s')
  obtain w' t where t: "clock w = (w', t)" by (cases "clock w")
  show ?thesis
    using going_stamp(2) [OF assms [unfolded s] t] by (simp add: s t wlp_simps)
qed

lemma take_more: "take n xs @ take m (drop n xs) = take (n + min m (length xs - n)) xs"
  by (simp add: take_add min_def)

lemma going_more:
  assumes "going tr clock wire packet s n (c, w)"
    and "carries tr clock wire \<Longrightarrow> wire w' = wire w @ take m (drop n packet)"
  shows "going tr clock wire packet s (n + min m (length packet - n)) (c, w')"
  using assms unfolding going_def by (auto simp: take_more)

lemma going_failed:
  assumes "going tr clock wire packet s n (c, w)"
    and "carries tr clock wire \<Longrightarrow> \<exists>m. wire w' = wire w @ take m (drop n packet)"
    and "carries tr clock wire \<Longrightarrow> wire w'' = wire w'"
  shows "send_post tr clock wire packet s (transport_failed c, w'') Outcome_Failed"
proof -
  obtain m where "carries tr clock wire \<longrightarrow> wire w'' = wire w @ take m (drop n packet)"
    using assms(2,3) by metis
  from going_more [of tr clock wire packet s n c w w'' m, OF assms(1)] this
  have "going tr clock wire packet s (n + min m (length packet - n)) (c, w'')" by blast
  then show ?thesis unfolding going_def send_post_def send_outcome.case fst_conv snd_conv by blast
qed

text \<open>The end of a turn, and of an answer.\<close>

definition turn_post where
  "turn_post tr clock wire packet s = (\<lambda>s' r. case r of
      Inl out \<Rightarrow> send_post tr clock wire packet s s' out
    | Inr n \<Rightarrow> going tr clock wire packet s n s')"

lemma turn_post_simps [simp]:
  "turn_post tr clock wire packet s s' (Inl out) = send_post tr clock wire packet s s' out"
  "turn_post tr clock wire packet s s' (Inr n) = going tr clock wire packet s n s'"
  by (simp_all add: turn_post_def)

lemma send_buffer_timeout_wlp:
  assumes "going tr clock wire buffer s n s2"
  shows "wlp (io_bind (world_call clock) (\<lambda>now.
      if elapsed_ms now start \<ge> SEND_TIMEOUT_MS then io_fail (Outcome_Sent n) else io_return n))
    (turn_post tr clock wire buffer s) s2"
proof (rule wlp_bindI [OF wlp_read_clock [OF assms]])
  fix s' and t :: u32
  assume "going tr clock wire buffer s n s' \<and> Inr t \<in> range Inr"
  then have "going tr clock wire buffer s n s'" by blast
  then show "wlp (if elapsed_ms t start \<ge> SEND_TIMEOUT_MS then io_fail (Outcome_Sent n) else io_return n)
      (turn_post tr clock wire buffer s) s'"
    by (simp add: wlp_basic wlp_if going_done)
qed auto

lemma send_buffer_answer_wlp:
  assumes here: "going tr clock wire buffer s sent (c, w)"
    and on_wire: "carries tr clock wire \<Longrightarrow> \<exists>n. wire w1 = wire w @ take n (drop sent buffer) \<and>
      (case answer of Sent_Bytes m \<Rightarrow> n = m | Sent_Nothing \<Rightarrow> n = 0 | Sent_Failed \<Rightarrow> True)"
  shows "wlp (case answer of
      Sent_Bytes count \<Rightarrow>
        io_bind (stamp_tx clock) (\<lambda>_. io_return (sent + min count (length (drop sent buffer))))
    | Sent_Nothing \<Rightarrow> io_return sent
    | Sent_Failed \<Rightarrow>
        io_bind (upd transport_failed) (\<lambda>_.
        io_bind (world_call clock) (\<lambda>_. io_fail Outcome_Failed)))
    (turn_post tr clock wire buffer s) (c, w1)"
proof (cases answer)
  case (Sent_Bytes m)
  have n: "going tr clock wire buffer s (sent + min m (length buffer - sent)) (c, w1)"
  proof (rule going_more [OF here])
    assume "carries tr clock wire"
    from on_wire [OF this] show "wire w1 = wire w @ take m (drop sent buffer)" by (simp add: Sent_Bytes)
  qed
  show ?thesis
    unfolding Sent_Bytes sent.case
    by (rule wlp_bindI [OF wlp_stamp_tx [OF n]]) (simp_all add: wlp_basic)
next
  case Sent_Nothing
  have "going tr clock wire buffer s (sent + min 0 (length buffer - sent)) (c, w1)"
  proof (rule going_more [OF here])
    assume "carries tr clock wire"
    from on_wire [OF this] show "wire w1 = wire w @ take 0 (drop sent buffer)" by (simp add: Sent_Nothing)
  qed
  then show ?thesis by (simp add: Sent_Nothing wlp_basic)
next
  case Sent_Failed
  obtain w2 t where t: "clock w1 = (w2, t)" by (cases "clock w1")
  have "send_post tr clock wire buffer s (transport_failed c, w2) Outcome_Failed"
  proof (rule going_failed [OF here])
    assume w: "carries tr clock wire"
    from on_wire [OF w] show "\<exists>m. wire w1 = wire w @ take m (drop sent buffer)" by blast
    show "wire w2 = wire w1" using carries_clock [OF w t] .
  qed
  then show ?thesis
    unfolding Sent_Failed sent.case
    by (intro wlp_upd wlp_world_call [where f = clock, OF t]) (simp add: wlp_basic)
qed

lemma send_buffer_turn_wlp:
  assumes "going tr clock wire buffer s sent s'"
  shows "wlp (send_buffer_turn tr clock buffer start sent) (turn_post tr clock wire buffer s) s'"
proof (cases "sent < length buffer")
  case False
  then show ?thesis using going_done [OF assms] by (simp add: send_buffer_turn_def wlp_simps)
next
  case True
  obtain c w where s': "s' = (c, w)" by (cases s')
  obtain w1 answer where a: "tr_send tr (drop sent buffer) w = (w1, answer)"
    by (cases "tr_send tr (drop sent buffer) w")
  have on_wire: "\<exists>n. wire w1 = wire w @ take n (drop sent buffer) \<and> (case answer of
      Sent_Bytes m \<Rightarrow> n = m | Sent_Nothing \<Rightarrow> n = 0 | Sent_Failed \<Rightarrow> True)" if "carries tr clock wire"
    using that a by (auto elim: carries_send)
  have rest: "slice_from buffer sent = Some (drop sent buffer)" using True by (simp add: slice_from_def)
  have more: "\<not> length buffer \<le> sent" using True by simp
  show ?thesis
    unfolding send_buffer_turn_def s' if_not_P [OF more] rest option.case
    by (rule wlp_world_call [where f = "tr_send tr (drop sent buffer)", OF a], rule wlp_bindI [OF send_buffer_answer_wlp [OF assms [unfolded s'] on_wire]])
      (auto intro: send_buffer_timeout_wlp)
qed
lemma send_buffer_wlp:
  "wlp (send_buffer tr clock buffer) (\<lambda>s' r. \<exists>out. r = Inr out \<and> send_post tr clock wire buffer s s' out) s"
proof -
  have "going tr clock wire buffer s 0 s" by (simp add: going_def)
  note start = wlp_read_clock [OF this]
  have run: "wlp (rounds (send_buffer_turn tr clock buffer t) 0)
      (\<lambda>s' r. \<exists>out. r = Inr out \<and> send_post tr clock wire buffer s s' out) s1"
    if "going tr clock wire buffer s 0 s1" for t s1
    by (rule wlp_rounds [where I = "\<lambda>n s'. going tr clock wire buffer s n s'", OF _ that],
      rule wlp_conseq [OF send_buffer_turn_wlp], assumption)
      (auto split: sum.split simp: turn_post_def)
  show ?thesis unfolding send_buffer_def by (rule wlp_bindI [OF start]) (auto intro: run)
qed

text \<open>After a call took \<open>taken\<close> bytes, what is left of the vectors is what is left of the packet.\<close>

lemma step_over_rest:
  "step_over vectors at taken = (at', t) \<Longrightarrow> taken \<le> length (concat (drop at vectors)) \<Longrightarrow>
   concat (drop at' (advance_inside vectors at' t)) = drop taken (concat (drop at vectors))"
proof (induction vectors at taken rule: step_over.induct)
  case (1 vectors at taken)
  show ?case
  proof (cases "at < length vectors")
    case False
    then show ?thesis
      using 1(2,3) by (simp add: advance_inside_def step_over.simps [of vectors at taken])
  next
    case True
    define part where "part = vectors ! at"
    have split: "drop at vectors = part # drop (Suc at) vectors"
      using True by (simp add: part_def Cons_nth_drop_Suc)
    have part: "get_at vectors at = Some part" using True by (simp add: get_at_def part_def)
    show ?thesis
    proof (cases "taken < length part")
      case here: True
      then have "at' = at" "t = taken"
        using 1(2) True part by (simp_all add: step_over.simps [of vectors at taken])
      moreover have "drop at (vectors[at := rest]) = rest # drop (Suc at) vectors" for rest
        using True by (simp add: Cons_nth_drop_Suc [symmetric])
      ultimately show ?thesis using here split by (simp add: advance_inside_def part slice_from_def)
    next
      case False
      then have "step_over vectors (at + 1) (taken - length part) = (at', t)"
        using 1(2) True part by (simp add: step_over.simps [of vectors at taken])
      moreover have "taken - length part \<le> length (concat (drop (at + 1) vectors))"
        using 1(3) split False by simp
      ultimately have "concat (drop at' (advance_inside vectors at' t)) =
          drop (taken - length part) (concat (drop (at + 1) vectors))"
        by (rule 1(1) [OF True part False])
      then show ?thesis using False by (simp add: split)
    qed
  qed
qed

definition vectors_going where
  "vectors_going tr clock wire packet s = (\<lambda>(vectors, at, sent) s'.
     going tr clock wire packet s sent s' \<and> concat (drop at vectors) = drop sent packet)"

lemma send_vectors_answer_wlp:
  assumes here: "going tr clock wire packet s sent (c, w)" and part: "concat outstanding = drop sent packet"
    and a: "tr_writev tr outstanding w = (w1, answer)"
  shows "wlp (case answer of
      Sent_Bytes count \<Rightarrow>
        (let count = min count (length packet - sent)
         in io_bind (stamp_tx clock) (\<lambda>_. io_return (count, sent + count)))
    | Sent_Nothing \<Rightarrow> io_return (0, sent)
    | Sent_Failed \<Rightarrow> io_bind (upd transport_failed) (\<lambda>_. io_fail Outcome_Failed))
    (\<lambda>s' r. case r of Inl out \<Rightarrow> send_post tr clock wire packet s s' out
      | Inr (taken, n) \<Rightarrow> going tr clock wire packet s n s' \<and> n = sent + taken \<and> taken \<le> length packet - sent)
    (c, w1)"
proof -
  have on_wire: "\<exists>n. wire w1 = wire w @ take n (drop sent packet) \<and> (case answer of
      Sent_Bytes m \<Rightarrow> n = m | Sent_Nothing \<Rightarrow> n = 0 | Sent_Failed \<Rightarrow> True)" if "carries tr clock wire"
    using carries_writev [OF that a] unfolding part by blast
  show ?thesis
  proof (cases answer)
    case (Sent_Bytes m)
    have n: "going tr clock wire packet s (sent + min m (length packet - sent)) (c, w1)"
    proof (rule going_more [OF here])
      assume "carries tr clock wire"
      from on_wire [OF this] show "wire w1 = wire w @ take m (drop sent packet)" by (simp add: Sent_Bytes)
    qed
    show ?thesis
      unfolding Sent_Bytes sent.case Let_def
      by (rule wlp_bindI [OF wlp_stamp_tx [OF n]]) (simp_all add: wlp_basic)
  next
    case Sent_Nothing
    have "going tr clock wire packet s (sent + min 0 (length packet - sent)) (c, w1)"
    proof (rule going_more [OF here])
      assume "carries tr clock wire"
      from on_wire [OF this] show "wire w1 = wire w @ take 0 (drop sent packet)" by (simp add: Sent_Nothing)
    qed
    then show ?thesis by (simp add: Sent_Nothing wlp_basic)
  next
    case Sent_Failed
    have "send_post tr clock wire packet s (transport_failed c, w1) Outcome_Failed"
    proof (rule going_failed [OF here])
      assume w: "carries tr clock wire"
      from on_wire [OF w] show "\<exists>m. wire w1 = wire w @ take m (drop sent packet)" by blast
    qed simp
    then show ?thesis
      unfolding Sent_Failed sent.case by (intro wlp_upd) (simp add: wlp_basic)
  qed
qed

lemma send_vectors_turn_wlp:
  assumes "vectors_going tr clock wire packet s x s'"
  shows "wlp (send_vectors_turn tr clock (length packet) start x) (\<lambda>s'' r. case r of
      Inl out \<Rightarrow> send_post tr clock wire packet s s'' out
    | Inr x' \<Rightarrow> vectors_going tr clock wire packet s x' s'') s'"
proof -
  obtain vectors at sent where x: "x = (vectors, at, sent)" by (cases x)
  obtain c w where s': "s' = (c, w)" by (cases s')
  have here: "going tr clock wire packet s sent (c, w)" and rest: "concat (drop at vectors) = drop sent packet"
    using assms by (simp_all add: vectors_going_def x s')
  show ?thesis
  proof (cases "sent < length packet \<and> at \<le> length vectors \<and> drop at vectors \<noteq> []")
    case False
    then show ?thesis
      using going_done [OF here]
      by (auto simp: send_vectors_turn_def x s' slice_from_def wlp_simps split: option.split)
  next
    case True
    obtain w1 answer where a: "tr_writev tr (drop at vectors) w = (w1, answer)"
      by (cases "tr_writev tr (drop at vectors) w")
    have next_turn: "wlp (case step_over vectors at taken of (at, taken) \<Rightarrow>
        (let vectors = advance_inside vectors at taken
         in if n < length packet then
              io_bind (world_call clock) (\<lambda>now.
              if elapsed_ms now start > SEND_TIMEOUT_MS then io_fail (Outcome_Sent n)
              else io_return (vectors, at, n))
            else io_return (vectors, at, n)))
      (\<lambda>s'' r. case r of
          Inl out \<Rightarrow> send_post tr clock wire packet s s'' out
        | Inr x' \<Rightarrow> vectors_going tr clock wire packet s x' s'') s2"
      if n: "going tr clock wire packet s n s2" "n = sent + taken" "taken \<le> length packet - sent" for n taken s2
    proof -
      obtain at' t where o: "step_over vectors at taken = (at', t)" by (cases "step_over vectors at taken")
      have "concat (drop at' (advance_inside vectors at' t)) = drop n packet"
        using step_over_rest [OF o] n(2,3) by (simp add: rest add.commute)
      then have going_on: "vectors_going tr clock wire packet s (advance_inside vectors at' t, at', n) s3"
        if "going tr clock wire packet s n s3" for s3
        using that by (simp add: vectors_going_def)
      show ?thesis
      proof (cases "n < length packet")
        case False
        show ?thesis
          unfolding o prod.case Let_def if_not_P [OF False] by (simp add: wlp_basic going_on n(1))
      next
        case more: True
        show ?thesis
          unfolding o prod.case Let_def if_P [OF more]
          by (rule wlp_bindI [OF wlp_read_clock [OF n(1)]])
            (auto simp: wlp_basic going_done going_on)
      qed
    qed
    have sl: "slice_from vectors at = Some (drop at vectors)" using True by (simp add: slice_from_def)
    have more: "\<not> length packet \<le> sent" and some: "drop at vectors \<noteq> []" using True by auto
    show ?thesis
      unfolding send_vectors_turn_def x s' prod.case if_not_P [OF more] sl option.case if_not_P [OF some]
    proof (rule wlp_world_call [where f = "tr_writev tr (drop at vectors)", OF a],
        rule wlp_bindI [OF send_vectors_answer_wlp [OF here rest a]], goal_cases)
      case (1 s2 y)
      then show ?case by (cases y) (simp only: prod.case sum.case, intro next_turn, simp_all)
    qed simp
  qed
qed

lemma send_vectors_wlp:
  "wlp (send_vectors tr clock vectors)
     (\<lambda>s' r. \<exists>out. r = Inr out \<and> send_post tr clock wire (concat vectors) s s' out) s"
proof -
  let ?p = "concat vectors"
  have "going tr clock wire ?p s 0 s" by (simp add: going_def)
  note start = wlp_read_clock [OF this]
  have run: "wlp (rounds (send_vectors_turn tr clock (length ?p) t) (vectors, 0, 0))
      (\<lambda>s' r. \<exists>out. r = Inr out \<and> send_post tr clock wire ?p s s' out) s1"
    if "going tr clock wire ?p s 0 s1" for t s1
  proof (rule wlp_rounds [where I = "vectors_going tr clock wire ?p s"])
    show "vectors_going tr clock wire ?p s (vectors, 0, 0) s1" using that by (simp add: vectors_going_def)
  next
    fix x s'
    assume "vectors_going tr clock wire ?p s x s'"
    then show "wlp (send_vectors_turn tr clock (length ?p) t x) (\<lambda>s'' r. case r of
        Inl a \<Rightarrow> \<exists>out. (Inr a :: 'e + send_outcome) = Inr out \<and> send_post tr clock wire ?p s s'' out
      | Inr x' \<Rightarrow> vectors_going tr clock wire ?p s x' s'') s'"
      by (rule wlp_conseq [OF send_vectors_turn_wlp]) (auto split: sum.split)
  qed
  show ?thesis
    unfolding send_vectors_def Let_def length_concat [symmetric]
    by (rule wlp_bindI [OF start]) (auto intro: run)
qed

section \<open>PINGREQ and DISCONNECT on the wire\<close>

text \<open>A packet sent whole or refused: \<open>SendFailed\<close> leaves the front of it, at most, on the wire.\<close>

definition all_post :: "'w transport \<Rightarrow> 'w clock \<Rightarrow> ('w \<Rightarrow> bytes) \<Rightarrow> bytes \<Rightarrow>
    mqtt_context \<times> 'w \<Rightarrow> mqtt_context \<times> 'w \<Rightarrow> client_error + unit \<Rightarrow> bool" where
  "all_post tr clock wire packet s s' r \<longleftrightarrow> (\<exists>n c. stamped (fst s) c \<and> n \<le> length packet \<and>
     (carries tr clock wire \<longrightarrow> wire (snd s') = wire (snd s) @ take n packet) \<and>
     (case r of
        Inr _ \<Rightarrow> fst s' = c \<and> n = length packet
      | Inl e \<Rightarrow> e = CE_SendFailed \<and> (fst s' = c \<or> fst s' = transport_failed c)))"

lemma all_of_wlp:
  assumes "wlp send (\<lambda>s' r. \<exists>out. r = Inr out \<and> send_post tr clock wire packet s s' out) s"
    and "wanted = length packet"
  shows "wlp (all_of wanted send) (all_post tr clock wire packet s) s"
proof -
  have "all_post tr clock wire packet s s' (Inr ())"
    if "send_post tr clock wire packet s s' (Outcome_Sent (length packet))" for s'
    using that unfolding send_post_def all_post_def by auto
  moreover have "all_post tr clock wire packet s s' (Inl CE_SendFailed)"
    if "send_post tr clock wire packet s s' out" for s' out
    using that unfolding send_post_def all_post_def by (cases out) auto
  ultimately show ?thesis
    unfolding all_of_def assms(2) by (intro wlp_bindI [OF assms(1)]) (auto simp: wlp_basic)
qed

lemmas all_of_buffer = all_of_wlp [OF send_buffer_wlp]
lemmas all_of_vectors = all_of_wlp [OF send_vectors_wlp]

lemma all_postE:
  assumes "all_post tr clock wire packet s s' r"
  obtains (sent) "r = Inr ()" "stamped (fst s) (fst s')"
      "carries tr clock wire \<Longrightarrow> wire (snd s') = wire (snd s) @ packet"
    | (failed) n c where "r = Inl CE_SendFailed" "stamped (fst s) c"
      "fst s' = c \<or> fst s' = transport_failed c" "n \<le> length packet"
      "carries tr clock wire \<Longrightarrow> wire (snd s') = wire (snd s) @ take n packet"
  using assms unfolding all_post_def by (cases r) auto

lemma wlp_check:
  "(\<And>a. f c = Inr a \<Longrightarrow> wlp (k a) Q (c, w)) \<Longrightarrow> (\<And>e. f c = Inl e \<Longrightarrow> Q (c, w) (Inl e)) \<Longrightarrow>
   wlp (io_bind (io_bind (ctx f) io_lift) k) Q (c, w)"
  by (cases "f c") (simp_all add: wlp_simps)

lemma must_be_connected_wlp:
  "(mc_connect_status c = Connected \<Longrightarrow> wlp (k ()) Q (c, w)) \<Longrightarrow>
   (\<And>e. connected c = Inl e \<Longrightarrow> Q (c, w) (Inl e)) \<Longrightarrow>
   wlp (io_bind must_be_connected k) Q (c, w)"
  by (cases "mc_connect_status c") (simp_all add: must_be_connected_def wlp_simps connected_def)

lemma pingreq: "serialize_pingreq [0, 0] = ([0xC0, 0], Inr 2)"
  by (simp add: serialize_pingreq_def copy_at_def put_slice_def splice_def PINGREQ_def)

definition ping_post :: "'w transport \<Rightarrow> 'w clock \<Rightarrow> ('w \<Rightarrow> bytes) \<Rightarrow>
    mqtt_context \<times> 'w \<Rightarrow> mqtt_context \<times> 'w \<Rightarrow> client_error + unit \<Rightarrow> bool" where
  "ping_post tr clock wire s s' r \<longleftrightarrow> (case r of
      Inr _ \<Rightarrow> mc_connect_status (fst s) = Connected \<and>
        (\<exists>t. fst s' = (fst s)\<lparr>mc_last_packet_tx_time := t, mc_ping_req_send_time := t,
           mc_waiting_for_ping_resp := True\<rparr>) \<and>
        (carries tr clock wire \<longrightarrow> wire (snd s') = wire (snd s) @ [0xC0, 0])
    | Inl e \<Rightarrow> (connected (fst s) = Inl e \<and> s' = s) \<or>
        (mc_connect_status (fst s) = Connected \<and> all_post tr clock wire [0xC0, 0] s s' (Inl e)))"

lemma ping_wlp: "wlp (ping tr clock) (ping_post tr clock wire s) s"
proof -
  obtain c w where s: "s = (c, w)" by (cases s)
  have sl: "slice [0xC0, 0 :: byte] 0 2 = Some [0xC0, 0]" by (simp add: slice_def)
  have run: "wlp (io_bind (all_of 2 (send_buffer tr clock [0xC0, 0])) (\<lambda>_.
        upd (\<lambda>c. c\<lparr>mc_ping_req_send_time := mc_last_packet_tx_time c, mc_waiting_for_ping_resp := True\<rparr>)))
      (ping_post tr clock wire (c, w)) (c, w)" if up: "mc_connect_status c = Connected"
  proof (rule wlp_bindI [OF all_of_buffer [where wire = wire]])
    fix s' a
    assume "all_post tr clock wire [0xC0, 0] (c, w) s' (Inr a)"
    then show "wlp (upd (\<lambda>c. c\<lparr>mc_ping_req_send_time := mc_last_packet_tx_time c,
        mc_waiting_for_ping_resp := True\<rparr>)) (ping_post tr clock wire (c, w)) s'"
      by (cases s') (auto simp: wlp_context ping_post_def up stamped_def elim!: all_postE, (rule exI, rule refl)+)
  qed (simp_all add: ping_post_def up)
  show ?thesis
    unfolding s ping_def pingreq prod.case map_err_simps
    by (rule must_be_connected_wlp; (intro wlp_lift)?)
      (auto simp: sl run ping_post_def)
qed

lemma connected_cases: "connected c = Inr u \<longleftrightarrow> mc_connect_status c = Connected"
  by (cases "mc_connect_status c") (simp_all add: connected_def)

lemma disconnect_parts:
  assumes "check_disconnect c reason properties = Inr sz"
  shows "serialize_disconnect_fixed (replicate 6 0) reason (ds_remaining_length sz) =
      (let bs = DISCONNECT # vl_encode (length (disconnect_bytes reason properties)) @
         (case reason of None \<Rightarrow> [] | Some c \<Rightarrow> [c]) in (written (replicate 6 0) bs, length bs))"
    and "encode_variable_length (replicate 4 0)
        (case try_u32 (length properties) of Some n \<Rightarrow> n | None \<Rightarrow> 0) =
      (written (replicate 4 0) (vl_encode (length properties)), length (vl_encode (length properties)))"
    and "length (disconnect_bytes reason properties) < 268435456"
    and "mc_connect_status c \<noteq> NotConnected" "reason = None \<longrightarrow> properties = []"
proof -
  from assms obtain pl where pl: "try_u32 (length properties) = Some pl"
    and sz: "disconnect_packet_size reason pl (ls_max_packet_size (cp_server (mc_properties c))) = Inr sz"
    and up: "mc_connect_status c \<noteq> NotConnected"
    by (auto simp: check_disconnect_def rbind_eq_Inr guard_eq_Inr map_err_eq_Inr ok_or_eq_Inr
        split: if_splits)
  then have l: "unat pl = length properties" by (auto simp: try_u32_eq_Some)
  note ok = disconnect_packet_size_ok [OF sz l]
  have rl: "ds_remaining_length sz \<le> MAX_REMAINING_LENGTH"
    using ok(1,3) by (simp add: word_le_nat_alt)
  have l4: "length (vl_encode (length (disconnect_bytes reason properties))) \<le> 4"
    "length (vl_encode (length properties)) \<le> 4"
    using ok(3,4) by (simp_all add: length_vl_encode_le_4)
  show "serialize_disconnect_fixed (replicate 6 0) reason (ds_remaining_length sz) =
      (let bs = DISCONNECT # vl_encode (length (disconnect_bytes reason properties)) @
         (case reason of None \<Rightarrow> [] | Some c \<Rightarrow> [c]) in (written (replicate 6 0) bs, length bs))"
    using serialize_disconnect_fixed_eq [OF rl, of "replicate 6 0" reason] l4
    by (simp add: ok(1) Let_def split: option.splits)
  show "encode_variable_length (replicate 4 0)
        (case try_u32 (length properties) of Some n \<Rightarrow> n | None \<Rightarrow> 0) =
      (written (replicate 4 0) (vl_encode (length properties)), length (vl_encode (length properties)))"
    using ok(4) l4 by (simp add: pl encode_variable_length_eq l splice_0 written_def not_less)
  show "length (disconnect_bytes reason properties) < 268435456" by (rule ok(3))
  show "mc_connect_status c \<noteq> NotConnected" by (rule up)
  show "reason = None \<longrightarrow> properties = []" by (rule ok(5))
qed

text \<open>The whole packet.\<close>

definition disconnect_packet :: "byte option \<Rightarrow> bytes \<Rightarrow> bytes" where
  "disconnect_packet reason properties =
     DISCONNECT # vl_encode (length (disconnect_bytes reason properties)) @ disconnect_bytes reason properties"

definition disconnect_post :: "'w transport \<Rightarrow> 'w clock \<Rightarrow> ('w \<Rightarrow> bytes) \<Rightarrow> byte option \<Rightarrow> bytes \<Rightarrow>
    mqtt_context \<times> 'w \<Rightarrow> mqtt_context \<times> 'w \<Rightarrow> client_error + unit \<Rightarrow> bool" where
  "disconnect_post tr clock wire reason properties s s' r \<longleftrightarrow>
     (case check_disconnect (fst s) reason properties of
        Inl e \<Rightarrow> r = Inl e \<and> s' = s
      | Inr _ \<Rightarrow> all_post tr clock wire (disconnect_packet reason properties)
          (close_connection (fst s), snd s) s' r)"

lemma disconnect_wlp:
  "wlp (disconnect tr clock reason properties) (disconnect_post tr clock wire reason properties s) s"
proof -
  obtain c w where s: "s = (c, w)" by (cases s)
  show ?thesis
  proof (cases "check_disconnect c reason properties")
    case (Inl e)
    then show ?thesis by (simp add: s disconnect_def wlp_simps disconnect_post_def)
  next
    case (Inr sz)
    note parts = disconnect_parts [OF Inr]
    define head where "head = DISCONNECT # vl_encode (length (disconnect_bytes reason properties)) @
         (case reason of None \<Rightarrow> [] | Some c \<Rightarrow> [c])"
    define prefix where "prefix = vl_encode (length properties)"
    have "length properties < 268435456"
      using parts(3) by (simp add: disconnect_bytes_def property_block_def)
    then have small: "length head \<le> 6" "length prefix \<le> 4"
      using parts(3) length_vl_encode_le_4 [of "length (disconnect_bytes reason properties)"]
        length_vl_encode_le_4 [of "length properties"]
      by (auto simp: head_def prefix_def disconnect_bytes_def split: option.splits)
    have taken: "take (length head) (written (replicate 6 0) head) = head"
      "take (length prefix) (written (replicate 4 0) prefix) = prefix"
      using small by (simp_all add: written_take)
    have whole: "concat (take (if properties = [] then 2 else 3) [head, prefix, properties]) =
        disconnect_packet reason properties"
      by (simp add: disconnect_packet_def head_def prefix_def disconnect_bytes_def property_block_def
          split: option.split)
    have run: "wlp (all_of (length head + length prefix + length properties)
        (send_vectors tr clock (take (if properties = [] then 2 else 3) [head, prefix, properties])))
      (all_post tr clock wire (disconnect_packet reason properties) (close_connection c, w))
      (close_connection c, w)"
      unfolding whole [symmetric] by (rule all_of_vectors) simp
    have sl: "slice [head, prefix, properties] 0 (if properties = [] then 2 else 3) =
        Some (take (if properties = [] then 2 else 3) [head, prefix, properties])"
      by (simp add: slice_def)
    have "length head \<noteq> 0" by (simp add: head_def)
    then have head: "(length head = 0) = False" by simp
    have fine: "all_post tr clock wire (disconnect_packet reason properties) (close_connection c, w) s' r \<Longrightarrow>
        disconnect_post tr clock wire reason properties (c, w) s' r" for s' r
      by (simp add: disconnect_post_def Inr)
    show ?thesis
      unfolding s disconnect_def
    proof (rule wlp_check, goal_cases)
      case (1 a)
      then have a: "a = sz" using Inr by simp
      show ?case
        by (rule wlp_upd)
          (simp only: a parts(1,2) head_def [symmetric] prefix_def [symmetric] Let_def prod.case head
            if_False taken sl ok_or_simps wlp_bind [of "io_lift _"] wlp_basic sum.case
            wlp_conseq [OF run fine])
    qed (simp add: Inr)
  qed
qed

section \<open>A clock that runs\<close>

text \<open>\<open>time w\<close> is the time in milliseconds from some origin, of which the clock shows the lowest 32
  bits. Nothing takes time back, nothing takes more than \<open>2 ^ 28\<close> milliseconds (three days), and
  the clock cannot be read for ever within one millisecond: it has \<open>patience w\<close> readings left.\<close>

definition passes :: "nat \<Rightarrow> ('w \<Rightarrow> nat) \<Rightarrow> ('w \<Rightarrow> nat) \<Rightarrow> 'w \<Rightarrow> 'w \<Rightarrow> bool" where
  "passes k time patience w w' \<longleftrightarrow> time w \<le> time w' \<and> time w' \<le> time w + k * 2 ^ 28 \<and>
     (time w = time w' \<longrightarrow> patience w' \<le> patience w)"

definition ticks :: "nat \<Rightarrow> ('w \<Rightarrow> nat) \<Rightarrow> ('w \<Rightarrow> nat) \<Rightarrow> 'w \<Rightarrow> 'w \<Rightarrow> bool" where
  "ticks k time patience w w' \<longleftrightarrow> time w \<le> time w' \<and> time w' \<le> time w + k * 2 ^ 28 \<and>
     (time w = time w' \<longrightarrow> patience w' < patience w)"

definition clock_runs :: "'w transport \<Rightarrow> 'w clock \<Rightarrow> ('w \<Rightarrow> nat) \<Rightarrow> ('w \<Rightarrow> nat) \<Rightarrow> bool" where
  "clock_runs tr clock time patience \<longleftrightarrow>
     (\<forall>w. ticks 1 time patience w (fst (clock w)) \<and> snd (clock w) = word_of_nat (time (fst (clock w)))) \<and>
     (\<forall>bs w. passes 1 time patience w (fst (tr_send tr bs w))) \<and>
     (\<forall>vs w. passes 1 time patience w (fst (tr_writev tr vs w))) \<and>
     (\<forall>bs w. passes 1 time patience w (fst (tr_recv tr bs w))) \<and>
     (\<forall>w. passes 1 time patience w (fst (tr_recv_one tr w)))"

lemma passes_ticks:
  "passes j time patience w w' \<Longrightarrow> ticks k time patience w' w'' \<Longrightarrow> ticks (j + k) time patience w w''"
  "ticks j time patience w w' \<Longrightarrow> passes k time patience w' w'' \<Longrightarrow> ticks (j + k) time patience w w''"
  "ticks k time patience w w' \<Longrightarrow> passes k time patience w w'"
  "passes j time patience w w' \<Longrightarrow> passes k time patience w' w'' \<Longrightarrow> passes (j + k) time patience w w''"
  unfolding passes_def ticks_def by (auto simp: algebra_simps)

lemma passes_more: "passes j time patience w w' \<Longrightarrow> j \<le> k \<Longrightarrow> passes k time patience w w'"
  and ticks_more: "ticks j time patience w w' \<Longrightarrow> j \<le> k \<Longrightarrow> ticks k time patience w w'"
  unfolding passes_def ticks_def by (auto elim!: order_trans)

lemma elapsed_true:
  assumes "t0 \<le> t" "t - t0 < 2 ^ 32"
  shows "unat (elapsed_ms (word_of_nat t) (word_of_nat t0)) = t - t0"
proof -
  have "elapsed_ms (word_of_nat t) (word_of_nat t0) = word_of_nat (t - t0)"
    using assms(1) by (simp add: elapsed_ms_def of_nat_diff)
  then show ?thesis using assms(2) by (simp add: unat_u32_of_nat)
qed

text \<open>A loop that is over, or has read the clock within its time.\<close>

lemma returns_clocked_rounds:
  fixes body :: "'x \<Rightarrow> ('c \<times> 'w, 'r, 'x) io"
  assumes step: "\<And>x s. returns (body x) s"
    "\<And>x s. wlp (body x) (\<lambda>s' r. case r of Inl _ \<Rightarrow> True | Inr x' \<Rightarrow> over x' \<or>
       (ticks 8 time patience (snd s) (snd s') \<and>
        unat (elapsed_ms (word_of_nat (time (snd s'))) (word_of_nat t0)) \<le> T)) s"
    and over: "\<And>x s. over x \<Longrightarrow> wlp (body x) (\<lambda>s' r. \<exists>e. r = Inl e) s"
    and T: "T < 2 ^ 30"
    and start: "t0 \<le> time (snd s)" "time (snd s) - t0 \<le> T"
  shows "returns (rounds body x) s"
proof (rule returns_rounds)
  let ?R = "measures [\<lambda>(x, s). if over x then 0 else 1, \<lambda>(x, s). T - (time (snd s) - t0), \<lambda>(x, s). patience (snd s)]"
  let ?I = "\<lambda>x s. over x \<or> (t0 \<le> time (snd s) \<and> time (snd s) - t0 \<le> T)"
  show "wf ?R" by (rule wf_measures)
  show "?I x s" using start by blast
  show "returns (body x) s \<and> wlp (body x) (\<lambda>s' r. case r of Inl a \<Rightarrow> True
      | Inr x' \<Rightarrow> ?I x' s' \<and> ((x', s'), x, s) \<in> ?R) s" if i: "?I x s" for x s
  proof (rule conjI [OF step(1)], cases "over x")
    case True
    from over [OF True, of s] show "wlp (body x) (\<lambda>s' r. case r of Inl a \<Rightarrow> True
        | Inr x' \<Rightarrow> ?I x' s' \<and> ((x', s'), x, s) \<in> ?R) s"
      by (rule wlp_conseq) auto
  next
    case False
    then have in_time: "t0 \<le> time (snd s)" "time (snd s) - t0 \<le> T" using i by auto
    have next_ok: "?I x' s' \<and> ((x', s'), x, s) \<in> ?R"
      if "over x' \<or> (ticks 8 time patience (snd s) (snd s') \<and>
        unat (elapsed_ms (word_of_nat (time (snd s'))) (word_of_nat t0)) \<le> T)" for x' s'
    proof (cases "over x'")
      case True
      then show ?thesis using False by simp
    next
      case alive: False
      then have t: "ticks 8 time patience (snd s) (snd s')"
        "unat (elapsed_ms (word_of_nat (time (snd s'))) (word_of_nat t0)) \<le> T" using that by auto
      then have le: "time (snd s) \<le> time (snd s')" "time (snd s') \<le> time (snd s) + 8 * 2 ^ 28"
        "time (snd s) = time (snd s') \<Longrightarrow> patience (snd s') < patience (snd s)"
        by (auto simp: ticks_def)
      have "time (snd s') - t0 < 2 ^ 32" using le in_time T by simp
      then have late: "time (snd s') - t0 \<le> T" using t(2) le(1) in_time(1) by (simp add: elapsed_true)
      then show ?thesis
        using False alive le in_time by (cases "time (snd s) = time (snd s')") auto
    qed
    show "wlp (body x) (\<lambda>s' r. case r of Inl a \<Rightarrow> True
        | Inr x' \<Rightarrow> ?I x' s' \<and> ((x', s'), x, s) \<in> ?R) s"
      by (rule wlp_conseq [OF step(2)]) (auto split: sum.splits dest!: next_ok)
  qed
qed
lemma clock_runsD:
  assumes "clock_runs tr clock time patience"
  shows "clock w = (w', t) \<Longrightarrow> ticks 1 time patience w w' \<and> t = word_of_nat (time w')"
    and "tr_send tr bs w = (w', a) \<Longrightarrow> passes 1 time patience w w'"
    and "tr_writev tr vs w = (w', a) \<Longrightarrow> passes 1 time patience w w'"
    and "tr_recv tr bs w = (w', b) \<Longrightarrow> passes 1 time patience w w'"
    and "tr_recv_one tr w = (w', d) \<Longrightarrow> passes 1 time patience w w'"
  using assms unfolding clock_runs_def by (metis fst_conv snd_conv)+

text \<open>Reading the clock at the end of what passed, and giving up when it is late.\<close>

lemma clocked_end_within:
  assumes k: "k \<le> 7" and runs: "clock_runs tr clock time patience" and before: "passes k time patience w (snd s')"
    and out: "\<And>t. late t \<or> unat (elapsed_ms t (word_of_nat t0)) \<le> T"
  shows "wlp (io_bind (world_call clock) (\<lambda>now. if late now then io_fail e else io_return x))
    (\<lambda>s'' r. case r of Inl _ \<Rightarrow> True | Inr x' \<Rightarrow> over x' \<or>
       (ticks 8 time patience w (snd s'') \<and>
        unat (elapsed_ms (word_of_nat (time (snd s''))) (word_of_nat t0)) \<le> T)) s'"
proof -
  obtain c w1 where s': "s' = (c, w1)" by (cases s')
  obtain w2 t where t: "clock w1 = (w2, t)" by (cases "clock w1")
  have "ticks (k + 1) time patience w w2"
    using passes_ticks(1) [OF before, of 1 w2] clock_runsD(1) [OF runs t] by (simp add: s')
  then have "ticks 8 time patience w w2" using k by (auto intro: ticks_more)
  moreover have "t = word_of_nat (time w2)" using clock_runsD(1) [OF runs t] by blast
  ultimately show ?thesis
    using out [of t] by (auto simp: s' wlp_simps t)
qed

lemma clocked_end:
  assumes runs: "clock_runs tr clock time patience" and before: "passes 2 time patience w (snd s')"
    and out: "\<And>t. late t \<or> unat (elapsed_ms t (word_of_nat t0)) \<le> T"
  shows "wlp (io_bind (world_call clock) (\<lambda>now. if late now then io_fail e else io_return x))
    (\<lambda>s'' r. case r of Inl _ \<Rightarrow> True | Inr x' \<Rightarrow> over x' \<or>
       (ticks 8 time patience w (snd s'') \<and>
        unat (elapsed_ms (word_of_nat (time (snd s''))) (word_of_nat t0)) \<le> T)) s'"
  by (rule clocked_end_within [OF _ runs before out]) simp

lemma stamp_tx_passes:
  assumes runs: "clock_runs tr clock time patience" and before: "passes 1 time patience w (snd s')"
  shows "wlp (stamp_tx clock) (\<lambda>s'' r. (\<exists>u. r = Inr u) \<and> passes 2 time patience w (snd s'')) s'"
proof -
  obtain c w1 where s': "s' = (c, w1)" by (cases s')
  obtain w2 t where t: "clock w1 = (w2, t)" by (cases "clock w1")
  have "passes (1 + 1) time patience w w2"
    using passes_ticks(3,4) before clock_runsD(1) [OF runs t] unfolding s' by fastforce
  then show ?thesis by (simp add: s' stamp_tx_def wlp_simps t numeral_2_eq_2)
qed

lemma returns_stamp_tx: "returns (stamp_tx clock) s"
  by (cases s) (auto simp: stamp_tx_def returns_simps wlp_simps split: prod.split)

lemma returns_world: "returns (world_call f) s" "returns (upd g) s"
  by (cases s; simp add: returns_context)+

lemma send_buffer_turn_returns: "returns (send_buffer_turn tr clock buffer start sent) s"
  unfolding send_buffer_turn_def
  by (auto simp: returns_basic split: option.split sent.split
      intro!: returns_bindI returns_world returns_stamp_tx)

lemma send_vectors_turn_returns: "returns (send_vectors_turn tr clock len start x) s"
  unfolding send_vectors_turn_def
  by (cases x) (auto simp: returns_basic Let_def split: option.split sent.split prod.split
      intro!: returns_bindI returns_world returns_stamp_tx)

lemma send_buffer_turn_ticks:
  assumes runs: "clock_runs tr clock time patience"
  shows "wlp (send_buffer_turn tr clock buffer (word_of_nat t0) sent) (\<lambda>s' r. case r of Inl _ \<Rightarrow> True
    | Inr x' \<Rightarrow> over x' \<or> (ticks 8 time patience (snd s) (snd s') \<and>
        unat (elapsed_ms (word_of_nat (time (snd s'))) (word_of_nat t0)) \<le> 20000)) s"
proof (cases "sent < length buffer")
  case False
  then show ?thesis by (simp add: send_buffer_turn_def wlp_basic)
next
  case True
  obtain c w where s: "s = (c, w)" by (cases s)
  obtain w1 answer where a: "tr_send tr (drop sent buffer) w = (w1, answer)"
    by (cases "tr_send tr (drop sent buffer) w")
  have p1: "passes 1 time patience w (snd (c, w1))" using clock_runsD(2) [OF runs a] by simp
  have rest: "slice_from buffer sent = Some (drop sent buffer)" using True by (simp add: slice_from_def)
  have more: "\<not> length buffer \<le> sent" using True by simp
  have "wlp (case answer of
      Sent_Bytes count \<Rightarrow>
        io_bind (stamp_tx clock) (\<lambda>_. io_return (sent + min count (length (drop sent buffer))))
    | Sent_Nothing \<Rightarrow> io_return sent
    | Sent_Failed \<Rightarrow>
        io_bind (upd transport_failed) (\<lambda>_.
        io_bind (world_call clock) (\<lambda>_. io_fail Outcome_Failed)))
    (\<lambda>s' r. case r of Inl _ \<Rightarrow> True | Inr _ \<Rightarrow> passes 2 time patience w (snd s')) (c, w1)"
  proof (cases answer)
    case (Sent_Bytes m)
    then show ?thesis
      by (simp only: sent.case) (rule wlp_bindI [OF stamp_tx_passes [OF runs p1]], auto simp: wlp_basic)
  next
    case Sent_Nothing
    then show ?thesis using passes_more [OF p1, of 2] by (simp add: wlp_basic)
  next
    case Sent_Failed
    then show ?thesis by (auto simp: wlp_simps split: prod.split)
  qed
  note answered = this
  have late: "20000 \<le> elapsed_ms t start \<or> unat (elapsed_ms t start) \<le> 20000" for t start
    by (cases "20000 \<le> elapsed_ms t start") (simp_all add: word_le_nat_alt not_le)
  show ?thesis
    unfolding send_buffer_turn_def s if_not_P [OF more] rest option.case snd_conv
    by (rule wlp_world_call [where f = "tr_send tr (drop sent buffer)", OF a], rule wlp_bindI [OF answered])
      (auto intro!: clocked_end [OF runs] late)
qed

lemma send_buffer_returns:
  assumes runs: "clock_runs tr clock time patience"
  shows "returns (send_buffer tr clock buffer) s"
proof -
  obtain c w where s: "s = (c, w)" by (cases s)
  obtain w1 t where t: "clock w = (w1, t)" by (cases "clock w")
  have start: "t = word_of_nat (time w1)" using clock_runsD(1) [OF runs t] by blast
  have "returns (rounds (send_buffer_turn tr clock buffer t) 0) (c, w1)"
    unfolding start
    by (rule returns_clocked_rounds [where over = "\<lambda>_. False" and T = 20000 and time = time
          and patience = patience])
      (auto intro: send_buffer_turn_returns send_buffer_turn_ticks [OF runs, where over = "\<lambda>_. False", simplified])
  then show ?thesis by (simp add: send_buffer_def s returns_simps wlp_simps t)
qed

lemma send_vectors_turn_ticks:
  assumes runs: "clock_runs tr clock time patience"
  shows "wlp (send_vectors_turn tr clock len (word_of_nat t0) x) (\<lambda>s' r. case r of Inl _ \<Rightarrow> True
    | Inr x' \<Rightarrow> snd (snd x') \<ge> len \<or> (ticks 8 time patience (snd s) (snd s') \<and>
        unat (elapsed_ms (word_of_nat (time (snd s'))) (word_of_nat t0)) \<le> 20000)) s"
proof -
  obtain vectors at sent where x: "x = (vectors, at, sent)" by (cases x)
  obtain c w where s: "s = (c, w)" by (cases s)
  show ?thesis
  proof (cases "sent < len \<and> at \<le> length vectors \<and> drop at vectors \<noteq> []")
    case False
    then show ?thesis by (auto simp: send_vectors_turn_def x slice_from_def wlp_basic split: option.split)
  next
    case True
    obtain w1 answer where a: "tr_writev tr (drop at vectors) w = (w1, answer)"
      by (cases "tr_writev tr (drop at vectors) w")
    have p1: "passes 1 time patience w (snd (c, w1))" using clock_runsD(3) [OF runs a] by simp
    have answered: "wlp (case answer of
        Sent_Bytes count \<Rightarrow>
          (let count = min count (len - sent)
           in io_bind (stamp_tx clock) (\<lambda>_. io_return (count, sent + count)))
      | Sent_Nothing \<Rightarrow> io_return (0, sent)
      | Sent_Failed \<Rightarrow> io_bind (upd transport_failed) (\<lambda>_. io_fail Outcome_Failed))
      (\<lambda>s' r. case r of Inl _ \<Rightarrow> True | Inr _ \<Rightarrow> passes 2 time patience w (snd s')) (c, w1)"
    proof (cases answer)
      case (Sent_Bytes m)
      then show ?thesis
        by (simp only: sent.case Let_def) (rule wlp_bindI [OF stamp_tx_passes [OF runs p1]], auto simp: wlp_basic)
    next
      case Sent_Nothing
      then show ?thesis using passes_more [OF p1, of 2] by (simp add: wlp_basic)
    next
      case Sent_Failed
      then show ?thesis by (simp add: wlp_simps)
    qed
    have late: "20000 < elapsed_ms t start \<or> unat (elapsed_ms t start) \<le> 20000" for t start
      by (cases "20000 < elapsed_ms t start") (simp_all add: word_less_nat_alt not_less)
    have next_turn: "wlp (case step_over vectors at taken of (at, taken) \<Rightarrow>
        (let vectors = advance_inside vectors at taken
         in if n < len then
              io_bind (world_call clock) (\<lambda>now.
              if elapsed_ms now (word_of_nat t0) > SEND_TIMEOUT_MS then io_fail (Outcome_Sent n)
              else io_return (vectors, at, n))
            else io_return (vectors, at, n)))
      (\<lambda>s' r. case r of Inl _ \<Rightarrow> True
        | Inr x' \<Rightarrow> snd (snd x') \<ge> len \<or> (ticks 8 time patience w (snd s') \<and>
            unat (elapsed_ms (word_of_nat (time (snd s'))) (word_of_nat t0)) \<le> 20000)) s2"
      if "passes 2 time patience w (snd s2)" for taken n s2
    proof (cases "n < len")
      case True
      show ?thesis
        by (cases "step_over vectors at taken")
          (simp only: prod.case Let_def if_P [OF True] clocked_end [OF runs that late])
    qed (cases "step_over vectors at taken", simp add: Let_def wlp_basic)
    have sl: "slice_from vectors at = Some (drop at vectors)" using True by (simp add: slice_from_def)
    have more: "\<not> len \<le> sent" and some: "drop at vectors \<noteq> []" using True by auto
    show ?thesis
      unfolding send_vectors_turn_def x s prod.case if_not_P [OF more] sl option.case if_not_P [OF some] snd_conv
    proof (rule wlp_world_call [where f = "tr_writev tr (drop at vectors)", OF a],
          rule wlp_bindI [OF answered], goal_cases)
      case (1 s2 y)
      then show ?case by (cases y) (simp only: prod.case sum.case next_turn)
    qed simp
  qed
qed

lemma send_vectors_returns:
  assumes runs: "clock_runs tr clock time patience"
  shows "returns (send_vectors tr clock vectors) s"
proof -
  obtain c w where s: "s = (c, w)" by (cases s)
  obtain w1 t where t: "clock w = (w1, t)" by (cases "clock w")
  have start: "t = word_of_nat (time w1)" using clock_runsD(1) [OF runs t] by blast
  let ?len = "sum_list (map length vectors)"
  have over: "wlp (send_vectors_turn tr clock ?len t' x) (\<lambda>s' r. \<exists>e. r = Inl e) s'"
    if "?len \<le> snd (snd x)" for x s' t'
    using that by (cases x) (simp add: send_vectors_turn_def wlp_basic)
  have "returns (rounds (send_vectors_turn tr clock ?len t) (vectors, 0, 0)) (c, w1)"
    unfolding start
    by (rule returns_clocked_rounds [where over = "\<lambda>x. ?len \<le> snd (snd x)" and T = 20000
          and time = time and patience = patience, OF send_vectors_turn_returns
          send_vectors_turn_ticks [OF runs] over])
      simp_all
  then show ?thesis by (simp add: send_vectors_def s returns_simps wlp_simps t)
qed

text \<open>What the note beside the timeout warns of: with a frozen clock and a transport that never
  takes a byte there is no answer.\<close>

lemma send_buffer_frozen:
  assumes "\<And>bs. tr_send tr bs w = (w, Sent_Nothing)" "clock w = (w, t)" "buffer \<noteq> []"
  shows "send_buffer tr clock buffer (c, w) = None"
proof -
  have turn: "wlp (send_buffer_turn tr clock buffer t n)
      (\<lambda>s' r. case r of Inl a \<Rightarrow> False | Inr n' \<Rightarrow> n' = 0 \<and> s' = (c, w)) s" if "n = 0 \<and> s = (c, w)" for n s
    using that assms by (simp add: send_buffer_turn_def wlp_simps slice_from_def elapsed_ms_def)
  have "rounds (send_buffer_turn tr clock buffer t) 0 (c, w) = None"
    by (rule rounds_forever [where I = "\<lambda>n s. n = 0 \<and> s = (c, w)"]) (auto intro: turn)
  then show ?thesis by (simp add: send_buffer_def io_bind_def world_call_def assms(2))
qed

lemma all_of_returns: "returns (all_of n send) s \<longleftrightarrow> returns send s"
  by (auto simp: all_of_def returns_simps wlp_def split: option.splits prod.splits sum.splits)

text \<open>The packet is out, or the answer is \<open>SendFailed\<close> and a front of it is.\<close>

definition on_wire :: "bytes \<Rightarrow> bytes \<Rightarrow> bytes \<Rightarrow> client_error + unit \<Rightarrow> bool" where
  "on_wire before packet after r \<longleftrightarrow> (r = Inr () \<and> after = before @ packet) \<or>
     (r = Inl CE_SendFailed \<and> (\<exists>n. after = before @ take n packet))"

lemma all_post_on_wire:
  "carries tr clock wire \<Longrightarrow> all_post tr clock wire packet s s' r \<Longrightarrow>
   on_wire (wire (snd s)) packet (wire (snd s')) r"
  by (erule all_postE) (auto simp: on_wire_def)

lemma written_full: "length d = length xs \<Longrightarrow> written d xs = xs"
  by (simp add: written_def splice_def)

lemma disconnect_flat:
  assumes "check_disconnect c reason properties = Inr sz"
  shows "serialize_disconnect (replicate (unat (ds_packet_size sz)) 0) reason properties
      (ds_remaining_length sz) =
    (disconnect_packet reason properties, Inr (length (disconnect_packet reason properties)))"
proof -
  from assms obtain pl where pl: "try_u32 (length properties) = Some pl"
    and sz: "disconnect_packet_size reason pl (ls_max_packet_size (cp_server (mc_properties c))) = Inr sz"
    by (auto simp: check_disconnect_def rbind_eq_Inr guard_eq_Inr map_err_eq_Inr ok_or_eq_Inr
        split: if_splits)
  then have l: "unat pl = length properties" by (auto simp: try_u32_eq_Some)
  note ok = disconnect_packet_size_ok [OF sz l]
  have "unat (ds_packet_size sz) = length (disconnect_packet reason properties)"
    by (simp add: ok(2) disconnect_packet_def)
  then show ?thesis
    using serialize_disconnect_ok [OF ok(1,3,5), of "replicate (unat (ds_packet_size sz)) 0"]
    by (simp add: disconnect_packet_def written_full del: replicate_Suc)
qed

lemma ping_returns: "clock_runs tr clock time patience \<Longrightarrow> returns (ping tr clock) s"
  unfolding ping_def must_be_connected_def
  by (cases s) (auto simp: all_of_returns returns_basic returns_context pingreq
      intro!: returns_bindI returns_world send_buffer_returns)

lemma disconnect_returns:
  "clock_runs tr clock time patience \<Longrightarrow> returns (disconnect tr clock reason properties) s"
  unfolding disconnect_def
  by (cases s) (auto simp: all_of_returns returns_basic returns_context Let_def split: prod.split
      intro!: returns_bindI returns_world send_vectors_returns)

section \<open>Properties\<close>

text \<open>Both senders end. On a clock that runs, a sender gives its answer whatever the transport
  does: however often it takes nothing, the loop stops once the clock shows 20 seconds more
  than at its start, over the wrap of the 32 bits too.\<close>

theorem senders_return:
  assumes "clock_runs tr clock time patience"
  shows "send_buffer tr clock buffer s \<noteq> None \<and> send_vectors tr clock vectors s \<noteq> None"
  using send_buffer_returns [OF assms] send_vectors_returns [OF assms] unfolding returns_def by blast

text \<open>A transport that never takes a byte, and a clock that shows one more at every reading.\<close>

definition silent_transport :: "nat transport" where
  "silent_transport = \<lparr>tr_recv = (\<lambda>into w. (w, into, Recv_Nothing)),
     tr_recv_one = (\<lambda>w. (w, Received_Nothing)), tr_send = (\<lambda>bs w. (w, Sent_Nothing)),
     tr_writev = (\<lambda>vs w. (w, Sent_Nothing))\<rparr>"

definition counting_clock :: "nat clock" where
  "counting_clock w = (w + 1, word_of_nat (w + 1))"

lemma counting_clock_runs: "clock_runs silent_transport counting_clock (\<lambda>w. w) (\<lambda>_. 0)"
  by (simp add: clock_runs_def ticks_def passes_def silent_transport_def counting_clock_def)

theorem senders_return_witness:
  "send_buffer silent_transport counting_clock [1, 2] (context_new [], 4294967290) \<noteq> None \<and>
   send_vectors silent_transport counting_clock [[1], [2]] (context_new [], 4294967290) \<noteq> None"
  by (rule senders_return [OF counting_clock_runs])

text \<open>The precondition the timeout is documented with: with a clock that never moves and a
  transport that takes nothing, the sender does not return, for any packet that is not empty.\<close>

theorem frozen_clock_hangs:
  assumes "\<And>bs. tr_send tr bs w = (w, Sent_Nothing)" "clock w = (w, t)" "buffer \<noteq> []"
  shows "send_buffer tr clock buffer (c, w) = None"
  using assms by (rule send_buffer_frozen)

theorem frozen_clock_hangs_witness:
  "send_buffer silent_transport (\<lambda>w. (w, 7)) [0xC0, 0] (context_new [], 0) = None"
  by (rule frozen_clock_hangs [of silent_transport 0 "\<lambda>w. (w, 7)" 7])
    (simp_all add: silent_transport_def)

text \<open>C16. DISCONNECT on the wire. A request that is refused changes nothing and sends nothing.
  One that is not leaves a context that is disconnected, with an empty network buffer, whether
  the packet went out or not; what went out is the packet the flat serializer writes, whole if
  the answer is success, a front of it otherwise.\<close>

theorem disconnect_on_wire:
  assumes "carries tr clock wire"
    and "disconnect tr clock reason properties (c, w) = Some ((c', w'), r)"
  shows "case check_disconnect c reason properties of
      Inl e \<Rightarrow> r = Inl e \<and> c' = c \<and> w' = w
    | Inr sz \<Rightarrow> mc_connect_status c' = NotConnected \<and> mc_index c' = 0 \<and>
        mc_network c' = replicate (length (mc_network c)) 0 \<and>
        on_wire (wire w) (disconnect_packet reason properties) (wire w') r \<and>
        serialize_disconnect (replicate (unat (ds_packet_size sz)) 0) reason properties
            (ds_remaining_length sz) =
          (disconnect_packet reason properties, Inr (length (disconnect_packet reason properties)))"
proof (cases "check_disconnect c reason properties")
  case (Inl e)
  then show ?thesis
    using wlpD [OF disconnect_wlp [where s = "(c, w)" and wire = wire] assms(2)]
    by (simp add: disconnect_post_def)
next
  case (Inr sz)
  let ?p = "disconnect_packet reason properties"
  have post: "all_post tr clock wire ?p (close_connection c, w) (c', w') r"
    using wlpD [OF disconnect_wlp [where s = "(c, w)"] assms(2)] by (simp add: disconnect_post_def Inr)
  have "mc_connect_status c' = NotConnected \<and> mc_index c' = 0 \<and>
      mc_network c' = replicate (length (mc_network c)) 0"
    using post by (rule all_postE) (auto simp: stamped_def close_connection_def transport_failed_def)
  then show ?thesis
    using all_post_on_wire [OF assms(1) post] disconnect_flat [OF Inr] by (simp add: Inr)
qed

text \<open>A transport that takes at most one byte of what it is offered, over what it took and the
  time, which moves on at each reading of the clock.\<close>

definition slow_transport :: "(bytes \<times> nat) transport" where
  "slow_transport = \<lparr>tr_recv = (\<lambda>into w. (w, into, Recv_Nothing)),
     tr_recv_one = (\<lambda>w. (w, Received_Nothing)),
     tr_send = (\<lambda>bs (w, t). ((w @ take 1 bs, t), Sent_Bytes 1)),
     tr_writev = (\<lambda>vs (w, t). ((w @ take 1 (concat vs), t), Sent_Bytes 1))\<rparr>"

definition slow_clock :: "(bytes \<times> nat) clock" where
  "slow_clock = (\<lambda>(w, t). ((w, t + 1), word_of_nat (t + 1)))"

lemma slow_transport_carries: "carries slow_transport slow_clock fst"
  by (auto simp: carries_def slow_transport_def slow_clock_def)

lemma slow_clock_runs: "clock_runs slow_transport slow_clock snd (\<lambda>_. 0)"
  by (auto simp: clock_runs_def ticks_def passes_def slow_transport_def slow_clock_def)

theorem disconnect_on_wire_witness:
  "\<exists>c' w' r. disconnect slow_transport slow_clock None []
      (context_new [1, 2]\<lparr>mc_connect_status := Connected\<rparr>, ([9], 0)) = Some ((c', w'), r) \<and>
    mc_connect_status c' = NotConnected \<and> on_wire [9] [0xE0, 1, 0] (fst w') r"
proof -
  let ?c = "context_new [1, 2]\<lparr>mc_connect_status := Connected\<rparr>"
  obtain c' w' r where run: "disconnect slow_transport slow_clock None [] (?c, ([9], 0)) = Some ((c', w'), r)"
    using disconnect_returns [OF slow_clock_runs] unfolding returns_def by fastforce
  have "check_disconnect ?c None [] = Inr \<lparr>ds_remaining_length = 1, ds_packet_size = 3\<rparr>"
    by (simp add: check_disconnect_def disconnect_packet_size_def context_new_def
        connection_properties_new_def try_u32_def sat_add_def variable_length_encoded_size_def
        total_packet_size_def word_le_nat_alt word_less_nat_alt Let_def)
  moreover have "disconnect_packet None [] = [0xE0, 1, 0]"
    by (simp add: disconnect_packet_def disconnect_bytes_def property_block_def vl_encode_small)
  ultimately show ?thesis
    using disconnect_on_wire [OF slow_transport_carries run] run by (simp add: fst_def)
qed

end
