(* ===== verification/Requests.thy ===== *)
theory Requests
  imports Sending
begin

text \<open>
  client.rs, the requests that gather: SUBSCRIBE and UNSUBSCRIBE, whose filters go out in
  gathers of at most four vectors, and PUBLISH, with the copy for the store that differs from
  the packet on the wire in one bit.
\<close>

section \<open>SUBSCRIBE and UNSUBSCRIBE\<close>

abbreviation (input) MAX_VECTORS :: nat where "MAX_VECTORS \<equiv> 4"

abbreviation (input) SUBSCRIBE_PER_TOPIC :: nat where "SUBSCRIBE_PER_TOPIC \<equiv> 3"

abbreviation (input) UNSUBSCRIBE_PER_TOPIC :: nat where "UNSUBSCRIBE_PER_TOPIC \<equiv> 2"

text \<open>The loop that writes the length fields and the options bytes of the entries one gather
  has room for, and counts the entries.\<close>

function fill_gather :: "bool \<Rightarrow> subscription list \<Rightarrow> nat \<Rightarrow> nat \<Rightarrow> nat \<Rightarrow> nat \<Rightarrow> bytes list \<Rightarrow> bytes \<Rightarrow>
    client_error + (nat \<times> bytes list \<times> bytes)" where
  "fill_gather subscribing entries at room used taken little options =
     (if used \<le> room \<and> at + taken < length entries then
        (case get_at entries (at + taken) of
           None \<Rightarrow> Inr (taken, little, options)
         | Some entry \<Rightarrow>
             (case try_u16 (length (sb_topic_filter entry)) of
                None \<Rightarrow> Inl CE_BadParameter
              | Some filter_length \<Rightarrow>
                  if taken \<ge> length little then Inr (taken, little, options)
                  else fill_gather subscribing entries at room
                    (used + 1 + (if sb_topic_filter entry = [] then 0 else 1)
                       + (if subscribing then 1 else 0))
                    (taken + 1)
                    (little[taken := be16 filter_length])
                    (if subscribing then options[taken := subscription_options entry] else options)))
      else Inr (taken, little, options))"
  by auto
termination
  by (relation "measure (\<lambda>(subscribing, entries, at, room, used, taken, little, options).
        length entries - (at + taken))") auto

declare fill_gather.simps [simp del]

text \<open>The vectors, how many were wanted, and how many bytes they are.\<close>

type_synonym gathered = "bytes list \<times> nat \<times> nat"

definition want_vector :: "bytes \<Rightarrow> nat \<Rightarrow> gathered \<Rightarrow> gathered" where
  "want_vector part n = (\<lambda>(parts, wanted, whole).
     (if length parts < MAX_VECTORS then parts @ [part] else parts, wanted + 1, whole + n))"

text \<open>\<open>for index in 0..taken\<close>.\<close>

fun gather_entries :: "bool \<Rightarrow> subscription list \<Rightarrow> nat \<Rightarrow> bytes list \<Rightarrow> bytes \<Rightarrow> nat list \<Rightarrow>
    gathered \<Rightarrow> gathered" where
  "gather_entries subscribing entries at little options [] g = g"
| "gather_entries subscribing entries at little options (index # indices) g =
     (case get_at entries (at + index) of
        None \<Rightarrow> g
      | Some entry \<Rightarrow>
          (case get_at little index of
             None \<Rightarrow> g
           | Some length_bytes \<Rightarrow>
               let g = want_vector length_bytes 2 g;
                   g = (if sb_topic_filter entry = [] then g
                        else want_vector (sb_topic_filter entry) (length (sb_topic_filter entry)) g);
                   g = (if subscribing then
                          (case get_at options index of
                             None \<Rightarrow> (case g of (parts, wanted, whole) \<Rightarrow> (parts, wanted + 1, whole + 1))
                           | Some byte \<Rightarrow> want_vector [byte] 1 g)
                        else g)
               in gather_entries subscribing entries at little options indices g))"

text \<open>One gather: the vectors, their bytes, and how many entries they hold.\<close>

definition gather :: "bool \<Rightarrow> subscription list \<Rightarrow> bytes list \<Rightarrow> nat \<Rightarrow> nat \<Rightarrow> bool \<Rightarrow>
    client_error + (bytes list \<times> nat \<times> nat)" where
  "gather subscribing entries carried carried_bytes at first =
     (let per_topic = (if subscribing then SUBSCRIBE_PER_TOPIC else UNSUBSCRIBE_PER_TOPIC);
          room = MAX_VECTORS - per_topic
      in rbind (fill_gather subscribing entries at room (if first then length carried else 0) 0
             (replicate MAX_VECTORS [0, 0]) (replicate MAX_VECTORS 0)) (\<lambda>(taken, little, options).
         case gather_entries subscribing entries at little options [0..<taken]
             (if first then (case fold (\<lambda>part. want_vector part 0) carried ([], 0, 0) of
                (parts, wanted, _) \<Rightarrow> (parts, wanted, carried_bytes)) else ([], 0, 0)) of
           (parts, wanted, whole) \<Rightarrow>
             if wanted \<noteq> length parts then Inl CE_SendFailed else Inr (parts, whole, taken)))"

definition send_list_turn :: "'w transport \<Rightarrow> 'w clock \<Rightarrow> bool \<Rightarrow> subscription list \<Rightarrow> bytes list \<Rightarrow> nat \<Rightarrow>
    nat \<times> bool \<Rightarrow> (mqtt_context \<times> 'w, client_error + unit, nat \<times> bool) io" where
  "send_list_turn transport clock subscribing entries carried carried_bytes = (\<lambda>(at, first).
     if \<not> (first \<or> at < length entries) then io_fail (Inr ())
     else case gather subscribing entries carried carried_bytes at first of
       Inl e \<Rightarrow> io_fail (Inl e)
     | Inr (parts, whole, taken) \<Rightarrow>
         io_bind (send_vectors transport clock parts) (\<lambda>outcome.
         if outcome = Outcome_Sent whole then io_return (at + taken, False)
         else io_fail (Inl CE_SendFailed)))"

text \<open>What is checked before the connection is looked at.\<close>

definition check_list :: "mqtt_context \<Rightarrow> subscription list \<Rightarrow> u16 \<Rightarrow> bytes \<Rightarrow> bool \<Rightarrow>
    client_error + (u32 \<times> packet_size)" where
  "check_list c entries packet_id properties subscribing =
     rbind (validate_subscriptions c entries packet_id
              (if subscribing then ST_Subscribe else ST_Unsubscribe)) (\<lambda>_.
     rbind (if properties = [] then Inr ()
            else if subscribing then
              (let available = (ls_subscription_id_available (cp_server (mc_properties c)) \<noteq> 0)
               in map_err client_of_validate (validate_subscribe_properties available properties))
            else map_err client_of_validate (validate_unsubscribe_properties properties)) (\<lambda>_.
     rbind (ok_or CE_BadParameter (try_u32 (length properties))) (\<lambda>property_length.
     let lengths = map (\<lambda>entry. length (sb_topic_filter entry)) entries;
         max = ls_max_packet_size (cp_server (mc_properties c))
     in rbind (map_err (\<lambda>_. CE_BadParameter)
          (if subscribing then subscribe_packet_size lengths property_length max
           else unsubscribe_packet_size lengths property_length max)) (\<lambda>sz.
        Inr (property_length, sz)))))"

definition send_list :: "'w transport \<Rightarrow> 'w clock \<Rightarrow> subscription list \<Rightarrow> u16 \<Rightarrow> bytes \<Rightarrow> bool \<Rightarrow>
    (mqtt_context \<times> 'w, client_error, unit) io" where
  "send_list transport clock entries packet_id properties subscribing =
     io_bind (io_bind (ctx (\<lambda>c. check_list c entries packet_id properties subscribing)) io_lift)
       (\<lambda>(property_length, sz).
     io_bind must_be_connected (\<lambda>_.
     case (if subscribing
           then serialize_subscribe_header (replicate 7 0) (ps_remaining_length sz) packet_id
           else serialize_unsubscribe_header (replicate 7 0) (ps_remaining_length sz) packet_id) of
       (fixed, header) \<Rightarrow>
     if header = 0 then io_fail CE_SendFailed
     else case encode_variable_length (replicate 4 0) property_length of
       (length_field, length_written) \<Rightarrow>
     io_bind (io_lift (ok_or CE_SendFailed (slice fixed 0 header))) (\<lambda>head.
     io_bind (io_lift (ok_or CE_SendFailed (slice length_field 0 length_written))) (\<lambda>prefix.
     let carried = take (if properties = [] then 2 else 3) [head, prefix, properties];
         carried_bytes = header + length_written + (if properties = [] then 0 else length properties)
     in io_bind (rounds (send_list_turn transport clock subscribing entries carried carried_bytes)
          (0, True)) io_lift))))"

definition subscribe :: "'w transport \<Rightarrow> 'w clock \<Rightarrow> subscription list \<Rightarrow> u16 \<Rightarrow> bytes \<Rightarrow>
    (mqtt_context \<times> 'w, client_error, unit) io" where
  "subscribe transport clock entries packet_id properties =
     send_list transport clock entries packet_id properties True"

definition unsubscribe :: "'w transport \<Rightarrow> 'w clock \<Rightarrow> subscription list \<Rightarrow> u16 \<Rightarrow> bytes \<Rightarrow>
    (mqtt_context \<times> 'w, client_error, unit) io" where
  "unsubscribe transport clock entries packet_id properties =
     send_list transport clock entries packet_id properties False"

section \<open>PUBLISH\<close>

text \<open>\<open>Store\<close>: what the application keeps packets for retransmission in.\<close>

record 'w store =
  st_store :: "u32 \<Rightarrow> bytes list \<Rightarrow> 'w \<Rightarrow> 'w \<times> bool"
  st_retrieve :: "u32 \<Rightarrow> 'w \<Rightarrow> 'w \<times> bytes option"
  st_clear :: "u32 \<Rightarrow> 'w \<Rightarrow> 'w"

definition no_store :: "'w store" where
  "no_store = \<lparr>st_store = (\<lambda>_ _ w. (w, False)), st_retrieve = (\<lambda>_ w. (w, None)), st_clear = (\<lambda>_ w. w)\<rparr>"

abbreviation (input) PUBLISH_MAX_VECTORS :: nat where "PUBLISH_MAX_VECTORS \<equiv> 6"

text \<open>What is checked before the connection is looked at: the header, in its buffer.\<close>

definition check_publish :: "mqtt_context \<Rightarrow> outgoing_publish \<Rightarrow> u16 \<Rightarrow> client_error + (bytes \<times> nat)" where
  "check_publish c g packet_id =
     rbind (Client.validate_publish c (og_qos g) packet_id (length (og_topic_name g)) (length (og_payload g))) (\<lambda>_.
     rbind (if og_properties g = [] then Inr None
            else case validate_publish_properties (ls_topic_alias_max (cp_server (mc_properties c)))
                        (og_properties g) None of
              (topic_alias, answer) \<Rightarrow>
                rbind (map_err client_of_validate answer) (\<lambda>_. Inr topic_alias)) (\<lambda>topic_alias.
     let server = cp_server (mc_properties c)
     in rbind (map_err client_of_validate
          (validate_publish_params g (ls_retain_available server) (ls_max_qos server)
             (case topic_alias of None \<Rightarrow> 0 | Some a \<Rightarrow> a) (ls_max_packet_size server))) (\<lambda>_.
        rbind (map_err (\<lambda>_. CE_BadParameter) (publish_packet_size g (ls_max_packet_size server))) (\<lambda>sz.
        case serialize_publish_header_without_topic (replicate 7 0) g (pz_remaining_length sz) of
          (header, answer) \<Rightarrow>
            rbind (map_err (\<lambda>_. CE_BadParameter) answer) (\<lambda>header_size. Inr (header, header_size))))))"

text \<open>The record of a QoS above 0. A collision is no error for a packet the caller re-delivers.\<close>

definition reserve_record :: "outgoing_publish \<Rightarrow> u16 \<Rightarrow> mqtt_context \<Rightarrow> mqtt_context \<times> (client_error + unit)" where
  "reserve_record g packet_id c =
     (if og_qos g = AtMostOnce then (c, Inr ())
      else case mc_records c of
        None \<Rightarrow> (c, Inr ())
      | Some records \<Rightarrow>
          (case reserve records packet_id (og_qos g) of
             (records', answer) \<Rightarrow>
               (c\<lparr>mc_records := Some records'\<rparr>,
                case answer of
                  Inr _ \<Rightarrow> Inr ()
                | Inl e \<Rightarrow> if e = S_StateCollision \<and> og_dup g then Inr () else Inl (CE_State e))))"

text \<open>The header for the store, with the flag of a duplicate.\<close>

definition duplicate_header :: "outgoing_publish \<Rightarrow> bytes \<Rightarrow> client_error + bytes" where
  "duplicate_header g header =
     (if og_dup g then Inr header
      else case header of
        [] \<Rightarrow> Inr header
      | byte # rest \<Rightarrow>
          (case update_duplicate_flag byte True of
             (byte, answer) \<Rightarrow> rbind (map_err (\<lambda>_. CE_BadParameter) answer) (\<lambda>_. Inr (byte # rest))))"

definition push_part :: "bytes \<Rightarrow> bytes list \<times> nat \<Rightarrow> bytes list \<times> nat" where
  "push_part part = (\<lambda>(parts, whole).
     if length parts < PUBLISH_MAX_VECTORS then (parts @ [part], whole + length part) else (parts, whole))"

definition publish_vectors :: "outgoing_publish \<Rightarrow> u16 \<Rightarrow> bytes \<Rightarrow> bytes \<Rightarrow> bytes list \<times> nat" where
  "publish_vectors g packet_id head prefix =
     (let p = push_part (og_topic_name g) (push_part head ([], 0));
          p = (if og_qos g \<noteq> AtMostOnce then push_part (be16 packet_id) p else p);
          p = push_part prefix p;
          p = (if og_properties g \<noteq> [] then push_part (og_properties g) p else p)
      in if og_payload g \<noteq> [] then push_part (og_payload g) p else p)"

definition store_copy :: "'w store option \<Rightarrow> outgoing_publish \<Rightarrow> u16 \<Rightarrow> bytes list \<Rightarrow>
    (mqtt_context \<times> 'w, client_error, unit) io" where
  "store_copy store g packet_id copy =
     (if og_qos g = AtMostOnce then io_return ()
      else case store of
        None \<Rightarrow> io_return ()
      | Some keeper \<Rightarrow>
          io_bind (world_call (st_store keeper (ucast packet_id) copy)) (\<lambda>kept.
          if kept then io_return () else io_fail CE_PublishStoreFailed))"

definition publish_sent :: "outgoing_publish \<Rightarrow> u16 \<Rightarrow> mqtt_context \<Rightarrow> mqtt_context \<times> (client_error + unit)" where
  "publish_sent g packet_id c =
     (if og_qos g = AtMostOnce then (c, Inr ())
      else case mc_records c of
        None \<Rightarrow> (c, Inr ())
      | Some records \<Rightarrow>
          (case on_records (\<lambda>r. update_publish r packet_id Op_Send (og_qos g)) records c of
             (c', answer) \<Rightarrow> (c', rbind answer (\<lambda>_. Inr ()))))"

definition publish :: "'w transport \<Rightarrow> 'w clock \<Rightarrow> 'w store option \<Rightarrow> outgoing_publish \<Rightarrow> u16 \<Rightarrow>
    (mqtt_context \<times> 'w, client_error, unit) io" where
  "publish transport clock store g packet_id =
     io_bind (io_bind (ctx (\<lambda>c. check_publish c g packet_id)) io_lift) (\<lambda>(header, header_size).
     io_bind must_be_connected (\<lambda>_.
     io_bind (upd_try (reserve_record g packet_id)) (\<lambda>_.
     io_bind (io_lift (ok_or CE_BadParameter (try_u32 (length (og_properties g))))) (\<lambda>property_length.
     case encode_variable_length (replicate 4 0) property_length of (length_field, length_written) \<Rightarrow>
     io_bind (io_lift (duplicate_header g header)) (\<lambda>dup_header.
     io_bind (io_lift (ok_or CE_SendFailed (slice header 0 header_size))) (\<lambda>head.
     io_bind (io_lift (ok_or CE_SendFailed (slice dup_header 0 header_size))) (\<lambda>dup_head.
     io_bind (io_lift (ok_or CE_SendFailed (slice length_field 0 length_written))) (\<lambda>prefix.
     case publish_vectors g packet_id head prefix of (parts, whole) \<Rightarrow>
     io_bind (store_copy store g packet_id (parts[0 := dup_head])) (\<lambda>_.
     io_bind (all_of whole (send_vectors transport clock parts)) (\<lambda>_.
     upd_try (publish_sent g packet_id)))))))))))"

section \<open>What a gather holds\<close>

definition entry_vectors :: "bool \<Rightarrow> subscription \<Rightarrow> bytes list" where
  "entry_vectors subscribing s = be16 (word_of_nat (length (sb_topic_filter s))) #
     (if sb_topic_filter s = [] then [] else [sb_topic_filter s]) @
     (if subscribing then [[subscription_options s]] else [])"

definition list_payload :: "bool \<Rightarrow> subscription list \<Rightarrow> bytes" where
  "list_payload subscribing ss = (if subscribing then subscribe_payload ss else unsubscribe_payload ss)"

lemma list_payload_simps [simp]:
  "list_payload subscribing [] = []"
  "list_payload subscribing (s # ss) = concat (entry_vectors subscribing s) @ list_payload subscribing ss"
  "list_payload subscribing (ss @ ts) = list_payload subscribing ss @ list_payload subscribing ts"
  by (simp_all add: list_payload_def subscribe_payload_def unsubscribe_payload_def entry_vectors_def
      mqtt_string_def)

lemma concat_entry_vectors:
  "concat (concat (map (entry_vectors subscribing) ss)) = list_payload subscribing ss"
  by (induction ss) simp_all

text \<open>Where the filling loop stands: \<open>here\<close> are the entries it has taken.\<close>

definition filled :: "bool \<Rightarrow> subscription list \<Rightarrow> nat \<Rightarrow> nat \<Rightarrow> nat \<Rightarrow> nat \<Rightarrow> bytes list \<Rightarrow> bytes \<Rightarrow> bool" where
  "filled subscribing entries at used0 used taken little options \<longleftrightarrow>
     (let here = take taken (drop at entries) in
      length little = MAX_VECTORS \<and> length options = MAX_VECTORS \<and> at + taken \<le> length entries \<and>
      taken \<le> used \<and> used \<le> MAX_VECTORS \<and>
      used = used0 + length (concat (map (entry_vectors subscribing) here)) \<and>
      take taken little = map (\<lambda>s. be16 (word_of_nat (length (sb_topic_filter s)))) here \<and>
      (subscribing \<longrightarrow> take taken options = map subscription_options here))"

lemma take_update: "n < length xs \<Longrightarrow> take (Suc n) (xs[n := x]) = take n xs @ [x]"
  by (simp add: take_Suc_conv_app_nth)

lemma filled_step:
  assumes "filled subscribing entries at used0 used taken little options"
    and "used \<le> MAX_VECTORS - (if subscribing then SUBSCRIBE_PER_TOPIC else UNSUBSCRIBE_PER_TOPIC)"
    and "at + taken < length entries"
  defines "entry \<equiv> entries ! (at + taken)"
  shows "filled subscribing entries at used0
      (used + 1 + (if sb_topic_filter entry = [] then 0 else 1) + (if subscribing then 1 else 0))
      (taken + 1) (little[taken := be16 (word_of_nat (length (sb_topic_filter entry)))])
      (if subscribing then options[taken := subscription_options entry] else options)"
proof -
  have here: "take (Suc taken) (drop at entries) = take taken (drop at entries) @ [entry]"
    using assms(3) by (simp add: take_Suc_conv_app_nth entry_def)
  have "taken \<le> used" using assms(1) unfolding filled_def Let_def by blast
  then have "taken < MAX_VECTORS" using assms(2) by (cases subscribing) simp_all
  then show ?thesis
    using assms(1,2,3)
    by (auto simp: filled_def Let_def here take_update entry_vectors_def split: if_splits)
qed

lemma fill_gather_ok:
  assumes "list_all (\<lambda>s. length (sb_topic_filter s) < 65536) entries"
    and room: "room = MAX_VECTORS - (if subscribing then SUBSCRIBE_PER_TOPIC else UNSUBSCRIBE_PER_TOPIC)"
  shows "filled subscribing entries at used0 used taken little options \<Longrightarrow>
    \<exists>taken' used' little' options'.
      fill_gather subscribing entries at room used taken little options = Inr (taken', little', options') \<and>
      filled subscribing entries at used0 used' taken' little' options' \<and> taken \<le> taken' \<and>
      (used \<le> room \<and> at + taken < length entries \<longrightarrow> taken < taken')"
proof (induction "length entries - (at + taken)" arbitrary: used taken little options rule: less_induct)
  case less
  show ?case
  proof (cases "used \<le> room \<and> at + taken < length entries")
    case False
    then show ?thesis using less.prems by (subst fill_gather.simps) auto
  next
    case True
    define entry where "entry = entries ! (at + taken)"
    have e: "get_at entries (at + taken) = Some entry" using True by (simp add: get_at_def entry_def)
    have "length (sb_topic_filter entry) < 65536"
      using assms(1) True unfolding entry_def list_all_iff by (simp add: nth_mem)
    then have l: "try_u16 (length (sb_topic_filter entry)) = Some (word_of_nat (length (sb_topic_filter entry)))"
      by (simp add: try_u16_def)
    have t: "taken < length little"
    proof -
      have "taken \<le> used" "length little = MAX_VECTORS"
        using less.prems unfolding filled_def Let_def by blast+
      then show ?thesis using True room by (cases subscribing) simp_all
    qed
    have step: "filled subscribing entries at used0
        (used + 1 + (if sb_topic_filter entry = [] then 0 else 1) + (if subscribing then 1 else 0))
        (taken + 1) (little[taken := be16 (word_of_nat (length (sb_topic_filter entry)))])
        (if subscribing then options[taken := subscription_options entry] else options)"
      unfolding entry_def by (rule filled_step [OF less.prems]) (use True room in auto)
    have "length entries - (at + (taken + 1)) < length entries - (at + taken)" using True by linarith
    from less.hyps [OF this step] obtain taken' used' little' options' where
      "fill_gather subscribing entries at room
        (used + 1 + (if sb_topic_filter entry = [] then 0 else 1) + (if subscribing then 1 else 0))
        (taken + 1) (little[taken := be16 (word_of_nat (length (sb_topic_filter entry)))])
        (if subscribing then options[taken := subscription_options entry] else options) =
       Inr (taken', little', options')"
      "filled subscribing entries at used0 used' taken' little' options'" "taken + 1 \<le> taken'"
      by blast
    moreover have "fill_gather subscribing entries at room used taken little options =
      fill_gather subscribing entries at room
        (used + 1 + (if sb_topic_filter entry = [] then 0 else 1) + (if subscribing then 1 else 0))
        (taken + 1) (little[taken := be16 (word_of_nat (length (sb_topic_filter entry)))])
        (if subscribing then options[taken := subscription_options entry] else options)"
      using True t by (subst fill_gather.simps) (simp only: e l option.case if_True not_le [symmetric] if_False simp_thms)
    ultimately show ?thesis by auto
  qed
qed

lemma gather_entries_ok:
  assumes f: "filled subscribing entries at used0 used taken little options"
  shows "length parts + length (concat (map (entry_vectors subscribing) (drop j (take taken (drop at entries))))) \<le> MAX_VECTORS
    \<Longrightarrow> j \<le> taken \<Longrightarrow>
    gather_entries subscribing entries at little options [j..<taken] (parts, wanted, whole) =
      (let vs = concat (map (entry_vectors subscribing) (drop j (take taken (drop at entries))))
       in (parts @ vs, wanted + length vs, whole + length (concat vs)))"
proof (induction "taken - j" arbitrary: j parts wanted whole)
  case 0
  then show ?case by simp
next
  case (Suc n)
  then have j: "j < taken" and n: "n = taken - Suc j" by auto
  have at: "at + j < length entries" and t4: "taken \<le> MAX_VECTORS" and l4: "length little = MAX_VECTORS" "length options = MAX_VECTORS"
    using f j by (auto simp: filled_def Let_def)
  define entry where "entry = entries ! (at + j)"
  have here: "drop j (take taken (drop at entries)) = entry # drop (Suc j) (take taken (drop at entries))"
    using at j by (subst Cons_nth_drop_Suc [symmetric]) (simp_all add: entry_def)
  have at2: "at + taken \<le> length entries" using f unfolding filled_def Let_def by blast
  then have jl: "j < length (take taken (drop at entries))" using j by simp
  have nth: "take taken (drop at entries) ! j = entry" using j at by (simp add: entry_def)
  have maps: "take taken little = map (\<lambda>s. be16 (word_of_nat (length (sb_topic_filter s)))) (take taken (drop at entries))"
    "subscribing \<Longrightarrow> take taken options = map subscription_options (take taken (drop at entries))"
    using f unfolding filled_def Let_def by blast+
  have "take taken little ! j = be16 (word_of_nat (length (sb_topic_filter entry)))"
    unfolding maps(1) nth_map [OF jl] nth ..
  then have g: "get_at little j = Some (be16 (word_of_nat (length (sb_topic_filter entry))))"
    using j t4 l4 by (simp add: get_at_def)
  have o: "subscribing \<Longrightarrow> get_at options j = Some (subscription_options entry)"
  proof -
    assume subscribing
    then have "take taken options ! j = subscription_options entry"
      by (simp only: maps(2) nth_map [OF jl] nth)
    then show ?thesis using j t4 l4 by (simp add: get_at_def)
  qed
  have e: "get_at entries (at + j) = Some entry" using at by (simp add: get_at_def entry_def)
  have "gather_entries subscribing entries at little options [j..<taken] (parts, wanted, whole) =
     gather_entries subscribing entries at little options [Suc j..<taken]
       (parts @ entry_vectors subscribing entry, wanted + length (entry_vectors subscribing entry),
        whole + length (concat (entry_vectors subscribing entry)))"
  proof -
    have room: "length parts + length (entry_vectors subscribing entry) \<le> MAX_VECTORS"
      using Suc.prems(1) unfolding here by simp
    show ?thesis
    proof (cases subscribing)
      case True
      then show ?thesis
        using room o unfolding upt_conv_Cons [OF j]
        by (cases "sb_topic_filter entry = []")
          (simp_all add: e g Let_def want_vector_def entry_vectors_def numeral_3_eq_3)
    next
      case False
      then show ?thesis
        using room unfolding upt_conv_Cons [OF j]
        by (cases "sb_topic_filter entry = []")
          (simp_all add: e g Let_def want_vector_def entry_vectors_def numeral_3_eq_3)
    qed
  qed
  then show ?case
    using Suc.hyps(1) [OF n, of "parts @ entry_vectors subscribing entry"] Suc.prems(1) j
    unfolding here by (simp add: Let_def)
qed

lemma carried_vectors:
  "length parts + length carried \<le> MAX_VECTORS \<Longrightarrow>
   fold (\<lambda>part. want_vector part 0) carried (parts, wanted, whole) =
     (parts @ carried, wanted + length carried, whole)"
  by (induction carried arbitrary: parts wanted) (simp_all add: want_vector_def)

lemma gather_ok:
  assumes small: "list_all (\<lambda>s. length (sb_topic_filter s) < 65536) entries"
    and carried: "length carried \<le> 3" "carried_bytes = length (concat carried)"
    and at: "at \<le> length entries"
  obtains parts taken where
    "gather subscribing entries carried carried_bytes at first =
       Inr (parts, length (concat parts), taken)"
    "concat parts = (if first then concat carried else []) @
       list_payload subscribing (take taken (drop at entries))"
    "at + taken \<le> length entries" "\<not> first \<Longrightarrow> at < length entries \<Longrightarrow> 0 < taken"
proof -
  let ?room = "MAX_VECTORS - (if subscribing then SUBSCRIBE_PER_TOPIC else UNSUBSCRIBE_PER_TOPIC)"
  let ?used0 = "if first then length carried else 0"
  have start: "filled subscribing entries at ?used0 ?used0 0 (replicate MAX_VECTORS [0, 0]) (replicate MAX_VECTORS 0)"
    using at carried(1) by (simp add: filled_def)
  from fill_gather_ok [OF small refl start] obtain taken used little options where
    fill: "fill_gather subscribing entries at ?room ?used0 0 (replicate MAX_VECTORS [0, 0])
      (replicate MAX_VECTORS 0) = Inr (taken, little, options)"
    and f: "filled subscribing entries at ?used0 used taken little options"
    and prog: "?used0 \<le> ?room \<and> at + 0 < length entries \<longrightarrow> 0 < taken"
    by blast
  define vs where "vs = concat (map (entry_vectors subscribing) (take taken (drop at entries)))"
  have room: "(if first then length carried else 0) + length vs \<le> MAX_VECTORS"
    using f by (simp add: filled_def Let_def vs_def)
  define parts0 where "parts0 = (if first then carried else [])"
  have g: "gather_entries subscribing entries at little options [0..<taken]
      (parts0, length parts0, length (concat parts0)) =
      (parts0 @ vs, length parts0 + length vs, length (concat parts0) + length (concat vs))"
    using gather_entries_ok [OF f, of parts0 0] room by (simp add: vs_def parts0_def Let_def split: if_splits)
  have c: "(if first then (case fold (\<lambda>part. want_vector part 0) carried ([], 0, 0) of
      (parts, wanted, _) \<Rightarrow> (parts, wanted, carried_bytes)) else ([], 0, 0)) =
      (parts0, length parts0, length (concat parts0))"
    using carried by (simp add: carried_vectors parts0_def)
  have "gather subscribing entries carried carried_bytes at first =
       Inr (parts0 @ vs, length (concat (parts0 @ vs)), taken)"
    unfolding gather_def Let_def fill c rbind_simps prod.case g by simp
  moreover have "concat (parts0 @ vs) = (if first then concat carried else []) @
       list_payload subscribing (take taken (drop at entries))"
    by (simp add: parts0_def vs_def concat_entry_vectors)
  moreover have "at + taken \<le> length entries" using f by (simp add: filled_def Let_def)
  moreover have "\<not> first \<Longrightarrow> at < length entries \<Longrightarrow> 0 < taken" using prog by simp
  ultimately show thesis by (rule that)
qed
section \<open>The gathers are one packet\<close>

text \<open>Where the loop over the gathers stands.\<close>

definition list_going :: "'w transport \<Rightarrow> 'w clock \<Rightarrow> ('w \<Rightarrow> bytes) \<Rightarrow> bool \<Rightarrow> subscription list \<Rightarrow> bytes \<Rightarrow>
    mqtt_context \<times> 'w \<Rightarrow> nat \<times> bool \<Rightarrow> mqtt_context \<times> 'w \<Rightarrow> bool" where
  "list_going tr clock wire subscribing entries front s x s' \<longleftrightarrow> (case x of (at, first) \<Rightarrow>
     at \<le> length entries \<and> (first \<longrightarrow> at = 0) \<and> stamped (fst s) (fst s') \<and>
     (carries tr clock wire \<longrightarrow> wire (snd s') = wire (snd s) @
        (if first then [] else front @ list_payload subscribing (take at entries))))"

lemma stamped_trans: "stamped c c' \<Longrightarrow> stamped c' c'' \<Longrightarrow> stamped c c''"
  unfolding stamped_def by fastforce

lemma payload_split:
  "list_payload subscribing entries =
     list_payload subscribing (take at entries) @ list_payload subscribing (take taken (drop at entries)) @
     list_payload subscribing (drop (at + taken) entries)"
proof -
  have "entries = take at entries @ take taken (drop at entries) @ drop (at + taken) entries"
    by (metis append_assoc append_take_drop_id take_add)
  then show ?thesis by (metis list_payload_simps(3))
qed

lemma send_list_turn_wlp:
  assumes small: "list_all (\<lambda>s. length (sb_topic_filter s) < 65536) entries"
    and carried: "length carried \<le> 3" "carried_bytes = length (concat carried)"
    and going: "list_going tr clock wire subscribing entries (concat carried) s x s'"
  shows "wlp (send_list_turn tr clock subscribing entries carried carried_bytes x) (\<lambda>s'' r. case r of
      Inl out \<Rightarrow> all_post tr clock wire (concat carried @ list_payload subscribing entries) s s'' out
    | Inr x' \<Rightarrow> list_going tr clock wire subscribing entries (concat carried) s x' s'') s'"
proof -
  obtain at first where x: "x = (at, first)" by (cases x)
  let ?packet = "concat carried @ list_payload subscribing entries"
  define gone where "gone = (if first then [] else concat carried @ list_payload subscribing (take at entries))"
  have at: "at \<le> length entries" "first \<longrightarrow> at = 0" "stamped (fst s) (fst s')"
    "carries tr clock wire \<Longrightarrow> wire (snd s') = wire (snd s) @ gone"
    using going by (auto simp: list_going_def x gone_def)
  show ?thesis
  proof (cases "first \<or> at < length entries")
    case False
    then have "all_post tr clock wire ?packet s s' (Inr ())"
      using at by (auto simp: all_post_def gone_def)
    then show ?thesis using False by (simp add: send_list_turn_def x wlp_basic)
  next
    case True
    obtain parts taken where g: "gather subscribing entries carried carried_bytes at first =
         Inr (parts, length (concat parts), taken)"
      and parts: "concat parts = (if first then concat carried else []) @
         list_payload subscribing (take taken (drop at entries))"
      and fits: "at + taken \<le> length entries"
      using gather_ok [OF small carried at(1), of subscribing first] by blast
    have packet: "?packet = gone @ concat parts @ list_payload subscribing (drop (at + taken) entries)"
      using at(2) unfolding gone_def parts payload_split [of subscribing entries at taken] by auto
    have sent: "list_going tr clock wire subscribing entries (concat carried) s (at + taken, False) s2"
      if "stamped (fst s') (fst s2)" "carries tr clock wire \<longrightarrow> wire (snd s2) = wire (snd s') @ concat parts" for s2
      using that at fits stamped_trans [OF at(3) that(1)] parts
      by (auto simp: list_going_def gone_def take_add simp del: list_payload_simps(2))
    have failed: "all_post tr clock wire ?packet s s2 (Inl CE_SendFailed)"
      if p: "send_post tr clock wire (concat parts) s' s2 out" for s2 out
    proof -
      obtain n c where n: "n \<le> length (concat parts)" "stamped (fst s') c"
        "carries tr clock wire \<longrightarrow> wire (snd s2) = wire (snd s') @ take n (concat parts)"
        "fst s2 = c \<or> fst s2 = transport_failed c"
        using p unfolding send_post_def by (cases out) auto
      have "carries tr clock wire \<longrightarrow> wire (snd s2) = wire (snd s) @ take (length gone + n) ?packet"
        using n(1,3) at(4) unfolding packet by auto
      moreover have "length gone + n \<le> length ?packet" using n(1) unfolding packet by simp
      ultimately show ?thesis
        unfolding all_post_def using n(4) stamped_trans [OF at(3) n(2)] by (simp del: append_assoc) blast
    qed
    show ?thesis
      unfolding send_list_turn_def x prod.case
      using True
      apply (simp only: simp_thms if_False g sum.case prod.case)
      apply (rule wlp_bindI [OF send_vectors_wlp [where wire = wire]])
       apply (auto simp: wlp_basic intro: failed intro!: sent)
        apply (auto simp: send_post_def)
      done
  qed
qed
definition list_body_bytes :: "bool \<Rightarrow> subscription list \<Rightarrow> u16 \<Rightarrow> bytes \<Rightarrow> bytes" where
  "list_body_bytes subscribing entries packet_id properties =
     be16 packet_id @ property_block properties @ list_payload subscribing entries"

text \<open>The whole packet.\<close>

definition list_packet_bytes :: "bool \<Rightarrow> subscription list \<Rightarrow> u16 \<Rightarrow> bytes \<Rightarrow> bytes" where
  "list_packet_bytes subscribing entries packet_id properties =
     (if subscribing then SUBSCRIBE else UNSUBSCRIBE) #
       vl_encode (length (list_body_bytes subscribing entries packet_id properties)) @
       list_body_bytes subscribing entries packet_id properties"

definition list_post :: "'w transport \<Rightarrow> 'w clock \<Rightarrow> ('w \<Rightarrow> bytes) \<Rightarrow> bool \<Rightarrow> subscription list \<Rightarrow> u16 \<Rightarrow> bytes \<Rightarrow>
    mqtt_context \<times> 'w \<Rightarrow> mqtt_context \<times> 'w \<Rightarrow> client_error + unit \<Rightarrow> bool" where
  "list_post tr clock wire subscribing entries i properties s s' r \<longleftrightarrow>
     (case check_list (fst s) entries i properties subscribing of
        Inl e \<Rightarrow> r = Inl e \<and> s' = s
      | Inr _ \<Rightarrow> (case connected (fst s) of
          Inl e \<Rightarrow> r = Inl e \<and> s' = s
        | Inr _ \<Rightarrow> all_post tr clock wire (list_packet_bytes subscribing entries i properties) s s' r))"

lemma check_list_size:
  assumes "check_list c entries i properties subscribing = Inr (pl, sz)"
  shows "list_packet_size (if subscribing then LP_Subscribe else LP_Unsubscribe)
      (map (\<lambda>s. length (sb_topic_filter s)) entries) pl
      (ls_max_packet_size (cp_server (mc_properties c))) = Inr sz"
    and "unat pl = length properties"
  using assms
  by (auto simp: check_list_def rbind_eq_Inr map_err_eq_Inr ok_or_eq_Inr try_u32_eq_Some Let_def
      subscribe_packet_size_def unsubscribe_packet_size_def split: if_splits)

lemma list_parts:
  assumes "check_list c entries i properties subscribing = Inr (pl, sz)"
  defines "head \<equiv> (if subscribing then SUBSCRIBE else UNSUBSCRIBE) #
      vl_encode (length (list_body_bytes subscribing entries i properties)) @ be16 i"
  shows "(if subscribing then serialize_subscribe_header (replicate 7 0) (ps_remaining_length sz) i
          else serialize_unsubscribe_header (replicate 7 0) (ps_remaining_length sz) i) =
      (written (replicate 7 0) head, length head)"
    and "encode_variable_length (replicate 4 0) pl =
      (written (replicate 4 0) (vl_encode (length properties)), length (vl_encode (length properties)))"
    and "list_all (\<lambda>s. length (sb_topic_filter s) < 65536) entries"
    and "length head \<le> 7" "length (vl_encode (length properties)) \<le> 4"
    and "length (list_body_bytes subscribing entries i properties) < 268435456"
proof -
  note sz = list_size_of_body(1,2,3) [OF check_list_size [OF assms(1)]]
    list_size_of_body(4,5,6) [OF check_list_size [OF assms(1)], of i]
  have body: "be16 i @ property_block properties @
      (if (if subscribing then LP_Subscribe else LP_Unsubscribe) = LP_Subscribe
       then subscribe_payload entries else unsubscribe_payload entries) =
      list_body_bytes subscribing entries i properties"
    by (simp add: list_body_bytes_def list_payload_def)
  have rl: "ps_remaining_length sz \<le> MAX_REMAINING_LENGTH"
    "unat (ps_remaining_length sz) = length (list_body_bytes subscribing entries i properties)"
    using sz(4,5) unfolding body by (simp_all add: word_le_nat_alt)
  show small: "length (list_body_bytes subscribing entries i properties) < 268435456"
    using sz(5) unfolding body .
  show l4: "length (vl_encode (length properties)) \<le> 4" by (rule length_vl_encode_le_4 [OF sz(3)])
  show h7: "length head \<le> 7" using length_vl_encode_le_4 [OF small] by (simp add: head_def)
  show "(if subscribing then serialize_subscribe_header (replicate 7 0) (ps_remaining_length sz) i
          else serialize_unsubscribe_header (replicate 7 0) (ps_remaining_length sz) i) =
      (written (replicate 7 0) head, length head)"
    using h7 rl(2) serialize_id_header_eq [OF rl(1), of "replicate 7 0" _ i]
    by (auto simp: serialize_subscribe_header_def serialize_unsubscribe_header_def head_def Let_def)
  show "encode_variable_length (replicate 4 0) pl =
      (written (replicate 4 0) (vl_encode (length properties)), length (vl_encode (length properties)))"
    using sz(3) l4 check_list_size(2) [OF assms(1)]
    by (simp add: encode_variable_length_eq splice_0 written_def not_less)
  show "list_all (\<lambda>s. length (sb_topic_filter s) < 65536) entries" by (rule sz(2))
qed

lemma slice_written: "length xs \<le> length d \<Longrightarrow> slice (written d xs) 0 (length xs) = Some xs"
  by (simp add: slice_def written_take)

lemma send_list_wlp:
  "wlp (send_list tr clock entries i properties subscribing)
     (list_post tr clock wire subscribing entries i properties s) s"
proof -
  obtain c w where s: "s = (c, w)" by (cases s)
  show ?thesis
    unfolding s send_list_def
  proof (rule wlp_check, goal_cases)
    case (2 e)
    then show ?case by (simp add: list_post_def)
  next
    case (1 a)
    obtain pl sz where a: "a = (pl, sz)" by (cases a)
    note ok = 1 [unfolded a]
    note parts = list_parts [OF ok]
    define head where "head = (if subscribing then SUBSCRIBE else UNSUBSCRIBE) #
      vl_encode (length (list_body_bytes subscribing entries i properties)) @ be16 i"
    define prefix where "prefix = vl_encode (length properties)"
    define vs where "vs = take (if properties = [] then 2 else 3) [head, prefix, properties]"
    let ?bytes = "length head + length prefix + (if properties = [] then 0 else length properties)"
    have whole: "concat vs @ list_payload subscribing entries =
        list_packet_bytes subscribing entries i properties"
      by (simp add: vs_def list_packet_bytes_def head_def prefix_def list_body_bytes_def property_block_def)
    have carried: "length vs \<le> 3" "?bytes = length (concat vs)" by (simp_all add: vs_def)
    have start: "list_going tr clock wire subscribing entries (concat vs) (c, w) (0, True) (c, w)"
      by (simp add: list_going_def)
    have run: "wlp (io_bind (rounds (send_list_turn tr clock subscribing entries vs ?bytes) (0, True)) io_lift)
        (all_post tr clock wire (list_packet_bytes subscribing entries i properties) (c, w)) (c, w)"
    proof (rule wlp_bindI)
      show "wlp (rounds (send_list_turn tr clock subscribing entries vs ?bytes) (0, True))
          (\<lambda>s' r. \<exists>out. r = Inr out \<and>
             all_post tr clock wire (list_packet_bytes subscribing entries i properties) (c, w) s' out) (c, w)"
        unfolding whole [symmetric]
        by (rule wlp_rounds [where I = "list_going tr clock wire subscribing entries (concat vs) (c, w)",
              OF _ start], rule wlp_conseq [OF send_list_turn_wlp [OF parts(3) carried]], assumption)
          (auto split: sum.splits)
    qed (auto simp: wlp_basic)
    show ?case
      unfolding a prod.case
    proof (rule must_be_connected_wlp)
      fix e
      assume "connected c = Inl e"
      then show "list_post tr clock wire subscribing entries i properties (c, w) (c, w) (Inl e)"
        by (simp add: list_post_def ok)
    next
      assume "mc_connect_status c = Connected"
      then have up: "connected c = Inr ()" by (simp add: connected_def)
      have fine: "all_post tr clock wire (list_packet_bytes subscribing entries i properties) (c, w) s' r \<Longrightarrow>
          list_post tr clock wire subscribing entries i properties (c, w) s' r" for s' r
        by (simp add: list_post_def ok up)
      have nonzero: "(length head = 0) = False" by (simp add: head_def)
      have sl: "slice (written (replicate 7 0) head) 0 (length head) = Some head"
        "slice (written (replicate 4 0) prefix) 0 (length prefix) = Some prefix"
        using parts(4,5) unfolding head_def [symmetric] prefix_def [symmetric]
        by (simp_all add: slice_written)
      show "wlp (case if subscribing
            then serialize_subscribe_header (replicate 7 0) (ps_remaining_length sz) i
            else serialize_unsubscribe_header (replicate 7 0) (ps_remaining_length sz) i of
          (fixed, header) \<Rightarrow>
            if header = 0 then io_fail CE_SendFailed
            else case encode_variable_length (replicate 4 0) pl of
              (length_field, length_written) \<Rightarrow>
                io_bind (io_lift (ok_or CE_SendFailed (slice fixed 0 header))) (\<lambda>head.
                io_bind (io_lift (ok_or CE_SendFailed (slice length_field 0 length_written))) (\<lambda>prefix.
                let carried = take (if properties = [] then 2 else 3) [head, prefix, properties];
                    carried_bytes = header + length_written + (if properties = [] then 0 else length properties)
                in io_bind (rounds (send_list_turn tr clock subscribing entries carried carried_bytes)
                     (0, True)) io_lift)))
        (list_post tr clock wire subscribing entries i properties (c, w)) (c, w)"
        by (simp only: parts(1,2) head_def [symmetric] prefix_def [symmetric] prod.case nonzero if_False
            sl ok_or_simps wlp_bind [of "io_lift _"] wlp_basic sum.case Let_def vs_def [symmetric] wlp_conseq [OF run fine])
    qed
  qed
qed

lemma returns_lift: "(\<And>a. x = Inr a \<Longrightarrow> returns (k a) s) \<Longrightarrow> returns (io_bind (io_lift x) k) s"
  by (cases x) (simp_all add: returns_def io_bind_def io_lift_def)

lemma returns_check:
  "(\<And>a. f c = Inr a \<Longrightarrow> returns (k a) (c, w)) \<Longrightarrow> returns (io_bind (io_bind (ctx f) io_lift) k) (c, w)"
  by (cases "f c") (simp_all add: returns_def io_bind_def io_lift_def ctx_def io_get_def)

lemma returns_must_be_connected:
  "returns (k ()) (c, w) \<Longrightarrow> returns (io_bind must_be_connected k) (c, w)"
  by (cases "connected c")
    (simp_all add: must_be_connected_def returns_def io_bind_def io_lift_def ctx_def io_get_def)

lemma send_list_returns:
  assumes runs: "clock_runs tr clock time patience"
  shows "returns (send_list tr clock entries i properties subscribing) s"
proof -
  have turn: "returns (send_list_turn tr clock subscribing entries carried cb x) s'" for carried cb x s'
    unfolding send_list_turn_def
    by (cases x) (auto simp: returns_basic split: sum.split prod.split
        intro!: returns_bindI send_vectors_returns [OF runs])
  have loop: "returns (rounds (send_list_turn tr clock subscribing entries carried cb) (0, True)) s'"
    if small: "list_all (\<lambda>s. length (sb_topic_filter s) < 65536) entries" and carried: "length carried \<le> 3"
      "cb = length (concat carried)" for carried cb s'
  proof (rule returns_rounds [where I = "\<lambda>x s. fst x \<le> length entries" and
        R = "measures [\<lambda>(x, s). length entries - fst x, \<lambda>(x, s). if snd x then 1 else 0]"],
      rule wf_measures, goal_cases)
    case (1 x s2)
    obtain at first where x: "x = (at, first)" by (cases x)
    have "at \<le> length entries" using 1 x by simp
    from gather_ok [OF small carried this, of subscribing first]
    obtain parts taken where g: "gather subscribing entries carried cb at first =
         Inr (parts, length (concat parts), taken)" "at + taken \<le> length entries"
      "first \<or> \<not> at < length entries \<or> 0 < taken"
      by blast
    have "wlp (send_list_turn tr clock subscribing entries carried cb (at, first))
        (\<lambda>s' r. case r of Inl a \<Rightarrow> True | Inr x' \<Rightarrow>
           fst x' \<le> length entries \<and> \<not> snd x' \<and> (first \<and> at \<le> fst x' \<or> at < fst x')) s2"
      using g unfolding send_list_turn_def
      by (auto simp: wlp_basic intro!: wlp_bindI [OF wlp_True])
    then have "wlp (send_list_turn tr clock subscribing entries carried cb x)
        (\<lambda>s' r. case r of Inl a \<Rightarrow> True | Inr x' \<Rightarrow> fst x' \<le> length entries \<and>
          ((x', s'), (x, s2)) \<in> measures
            [\<lambda>(x, s). length entries - fst x, \<lambda>(x, s). if snd x then 1 else 0]) s2"
      unfolding x
      by (rule wlp_conseq) (auto split: sum.splits)
    then show ?case using turn by blast
  qed simp
  obtain c w where s: "s = (c, w)" by (cases s)
  have rest: "returns (case (if subscribing
        then serialize_subscribe_header (replicate 7 0) (ps_remaining_length sz) i
        else serialize_unsubscribe_header (replicate 7 0) (ps_remaining_length sz) i) of
       (fixed, header) \<Rightarrow>
     if header = 0 then io_fail CE_SendFailed
     else case encode_variable_length (replicate 4 0) pl of
       (length_field, length_written) \<Rightarrow>
     io_bind (io_lift (ok_or CE_SendFailed (slice fixed 0 header))) (\<lambda>head.
     io_bind (io_lift (ok_or CE_SendFailed (slice length_field 0 length_written))) (\<lambda>prefix.
     let carried = take (if properties = [] then 2 else 3) [head, prefix, properties];
         carried_bytes = header + length_written + (if properties = [] then 0 else length properties)
     in io_bind (rounds (send_list_turn tr clock subscribing entries carried carried_bytes)
          (0, True)) io_lift))) s'"
    if "check_list c entries i properties subscribing = Inr (pl, sz)" for pl sz s'
  proof -
    note parts = list_parts [OF that]
    define head where "head = (if subscribing then SUBSCRIBE else UNSUBSCRIBE) #
      vl_encode (length (list_body_bytes subscribing entries i properties)) @ be16 i"
    define prefix where "prefix = vl_encode (length properties)"
    have sl: "slice (written (replicate 7 0) head) 0 (length head) = Some head"
      "slice (written (replicate 4 0) prefix) 0 (length prefix) = Some prefix"
      using parts(4,5) unfolding head_def [symmetric] prefix_def [symmetric]
      by (simp_all add: slice_written)
    have nonzero: "length head \<noteq> 0" by (simp add: head_def)
    show ?thesis
      unfolding parts(1,2) head_def [symmetric] prefix_def [symmetric] prod.case sl ok_or_simps Let_def
      unfolding if_not_P [OF nonzero]
      by (intro returns_lift) (auto simp: returns_basic intro!: returns_bindI loop [OF parts(3)])
  qed
  show ?thesis
    unfolding s send_list_def
  proof (rule returns_check, goal_cases)
    case (1 a)
    then show ?case by (cases a) (simp only: prod.case returns_must_be_connected [OF rest])
  qed
qed
section \<open>PUBLISH on the wire and in the store\<close>

definition publish_front :: "outgoing_publish \<Rightarrow> bytes" where
  "publish_front g = publish_flags g # vl_encode (publish_length g) @
     be16 (word_of_nat (length (og_topic_name g)))"

abbreviation (input) as_duplicate :: "outgoing_publish \<Rightarrow> outgoing_publish" where
  "as_duplicate g \<equiv> g\<lparr>og_dup := True\<rparr>"

lemma check_publish_ok:
  assumes "check_publish c g i = Inr (header, header_size)"
  shows "header = written (replicate 7 0) (publish_front g)" "header_size = length (publish_front g)"
    and "length (publish_front g) \<le> 7" "length (og_properties g) < 268435456"
    and "og_qos g \<noteq> AtMostOnce \<Longrightarrow> i \<noteq> 0 \<and> outgoing_records c \<noteq> 0"
proof -
  from assms obtain sz where
    v: "Client.validate_publish c (og_qos g) i (length (og_topic_name g)) (length (og_payload g)) = Inr ()"
    and sz: "publish_packet_size g (ls_max_packet_size (cp_server (mc_properties c))) = Inr sz"
    and h: "(case serialize_publish_header_without_topic (replicate 7 0) g (pz_remaining_length sz) of
          (header, answer) \<Rightarrow>
            rbind (map_err (\<lambda>_. CE_BadParameter) answer) (\<lambda>header_size. Inr (header, header_size))) =
        Inr (header, header_size)"
    unfolding check_publish_def Let_def rbind_eq_Inr map_err_eq_Inr by auto
  note s = publish_sized [OF sz]
  have l4: "length (vl_encode (publish_length g)) \<le> 4" by (rule length_vl_encode_le_4 [OF s(3)])
  show f7: "length (publish_front g) \<le> 7" using l4 by (simp add: publish_front_def)
  have tn: "length (og_topic_name g) < 65536" "length (og_properties g) < 268435456"
    using s(1) by (simp_all add: og_fits_def)
  show "length (og_properties g) < 268435456" by (rule tn(2))
  have "unat (pz_remaining_length sz) < 268435456" using s(2,3) by simp
  from serialize_without_topic_ok [OF tn(1) this refl, of "replicate 7 0", unfolded s(2), folded publish_front_def]
  show "header = written (replicate 7 0) (publish_front g)" "header_size = length (publish_front g)"
    using h f7 by (auto split: if_splits)
  show "i \<noteq> 0 \<and> outgoing_records c \<noteq> 0" if "og_qos g \<noteq> AtMostOnce"
    using v that by (auto simp: Client.validate_publish_def split: if_splits)
qed

lemma duplicate_flags:
  "\<not> og_dup g \<Longrightarrow> update_duplicate_flag (publish_flags g) True = (publish_flags (as_duplicate g), Inr ())"
  by (cases "og_qos g"; cases "og_retain g")
    (simp_all add: update_duplicate_flag_def publish_flags_def Let_def)

lemma duplicate_header_ok:
  assumes "length (publish_front g) \<le> 7"
  shows "duplicate_header g (written (replicate 7 0) (publish_front g)) =
    Inr (written (replicate 7 0) (publish_front (as_duplicate g)))"
proof (cases "og_dup g")
  case True
  then have same: "as_duplicate g = g" by simp
  show ?thesis unfolding same duplicate_header_def using True by simp
next
  case False
  then show ?thesis
    by (simp add: duplicate_header_def publish_front_def written_def splice_def duplicate_flags
        publish_length_def)
qed

lemma publish_vectors_ok:
  "publish_vectors g i head prefix =
     (let vs = [head, og_topic_name g] @ (if og_qos g \<noteq> AtMostOnce then [be16 i] else []) @ [prefix] @
        (if og_properties g \<noteq> [] then [og_properties g] else []) @
        (if og_payload g \<noteq> [] then [og_payload g] else [])
      in (vs, length (concat vs)))"
  by (simp add: publish_vectors_def push_part_def Let_def)

lemma publish_vectors_packet:
  assumes "publish_vectors g i (publish_front g) (vl_encode (length (og_properties g))) = (parts, whole)"
  shows "concat parts = publish_packet g i" "whole = length (publish_packet g i)"
    and "concat (parts[0 := publish_front (as_duplicate g)]) = publish_packet (as_duplicate g) i"
proof -
  show c: "concat parts = publish_packet g i"
    using assms by (auto simp: publish_vectors_ok Let_def publish_packet_def publish_content_def
        publish_head_def publish_front_def property_block_def mqtt_string_def)
  show "whole = length (publish_packet g i)"
    using assms unfolding c [symmetric] by (auto simp: publish_vectors_ok Let_def)
  show "concat (parts[0 := publish_front (as_duplicate g)]) = publish_packet (as_duplicate g) i"
    using assms by (auto simp: publish_vectors_ok Let_def publish_packet_def publish_content_def
        publish_head_def publish_front_def property_block_def mqtt_string_def publish_length_def)
qed

text \<open>What is out and what is kept when a PUBLISH is done.\<close>

definition publish_post :: "'w transport \<Rightarrow> 'w clock \<Rightarrow> ('w \<Rightarrow> bytes) \<Rightarrow> 'w store option \<Rightarrow> outgoing_publish \<Rightarrow> u16 \<Rightarrow>
    mqtt_context \<times> 'w \<Rightarrow> mqtt_context \<times> 'w \<Rightarrow> client_error + unit \<Rightarrow> bool" where
  "publish_post tr clock wire store g i s s' r \<longleftrightarrow>
     (case check_publish (fst s) g i of Inl e \<Rightarrow> r = Inl e \<and> s' = s
      | Inr _ \<Rightarrow> (case connected (fst s) of Inl e \<Rightarrow> r = Inl e \<and> s' = s
      | Inr _ \<Rightarrow> (case reserve_record g i (fst s) of (c, Inl e) \<Rightarrow> r = Inl e \<and> s' = (c, snd s)
      | (c, Inr _) \<Rightarrow> (\<exists>copy w kept. concat copy = publish_packet (as_duplicate g) i \<and>
          (w, kept) = (case store of
             None \<Rightarrow> (snd s, True)
           | Some st \<Rightarrow> if og_qos g = AtMostOnce then (snd s, True) else st_store st (ucast i) copy (snd s)) \<and>
          (if kept then (\<exists>s2 r2. all_post tr clock wire (publish_packet g i) (c, w) s2 r2 \<and>
             (case r2 of Inl e \<Rightarrow> r = Inl e \<and> s' = s2
              | Inr _ \<Rightarrow> (case publish_sent g i (fst s2) of (c3, r3) \<Rightarrow> r = r3 \<and> s' = (c3, snd s2))))
           else r = Inl CE_PublishStoreFailed \<and> s' = (c, w))))))"

lemma wlp_upd_try:
  "(\<And>c' a. f c = (c', Inr a) \<Longrightarrow> wlp (k a) Q (c', w)) \<Longrightarrow> (\<And>c' e. f c = (c', Inl e) \<Longrightarrow> Q (c', w) (Inl e)) \<Longrightarrow>
   wlp (io_bind (upd_try f) k) Q (c, w)"
  by (cases "f c"; cases "snd (f c)") (auto simp: wlp_simps)

lemma publish_tail_wlp:
  assumes packet: "whole = length (publish_packet g i)" "concat parts = publish_packet g i"
    and copy: "concat copy = publish_packet (as_duplicate g) i"
  shows "wlp (io_bind (store_copy store g i copy) (\<lambda>_.
       io_bind (all_of whole (send_vectors tr clock parts)) (\<lambda>_. upd_try (publish_sent g i))))
     (\<lambda>s' r. \<exists>copy w' kept. concat copy = publish_packet (as_duplicate g) i \<and>
          (w', kept) = (case store of
             None \<Rightarrow> (w, True)
           | Some st \<Rightarrow> if og_qos g = AtMostOnce then (w, True) else st_store st (ucast i) copy w) \<and>
          (if kept then (\<exists>s2 r2. all_post tr clock wire (publish_packet g i) (c, w') s2 r2 \<and>
             (case r2 of Inl e \<Rightarrow> r = Inl e \<and> s' = s2
              | Inr _ \<Rightarrow> (case publish_sent g i (fst s2) of (c3, r3) \<Rightarrow> r = r3 \<and> s' = (c3, snd s2))))
           else r = Inl CE_PublishStoreFailed \<and> s' = (c, w'))) (c, w)"
proof (rule wlp_bindI [where P = "\<lambda>s' r. \<exists>w' kept. (w', kept) = (case store of
             None \<Rightarrow> (w, True)
           | Some st \<Rightarrow> if og_qos g = AtMostOnce then (w, True) else st_store st (ucast i) copy w) \<and>
        s' = (c, w') \<and> r = (if kept then Inr () else Inl CE_PublishStoreFailed)"], goal_cases)
  case 1
  show ?case
    by (cases store) (auto simp: store_copy_def wlp_simps split: prod.split)
next
  case (2 s1 a)
  then obtain w' where w': "(w', True) = (case store of
             None \<Rightarrow> (w, True)
           | Some st \<Rightarrow> if og_qos g = AtMostOnce then (w, True) else st_store st (ucast i) copy w)" "s1 = (c, w')"
    by (auto split: if_splits)
  have send: "wlp (all_of whole (send_vectors tr clock parts))
      (all_post tr clock wire (publish_packet g i) (c, w')) (c, w')"
    using all_of_vectors [of whole parts tr clock wire "(c, w')"] packet by simp
  show ?case
    unfolding w'(2)
  proof (rule wlp_bindI [OF send], goal_cases)
    case (1 s2 u)
    obtain c2 w2 where s2: "s2 = (c2, w2)" by (cases s2)
    obtain c3 r3 where r3: "publish_sent g i c2 = (c3, r3)" by (cases "publish_sent g i c2")
    show ?case
      unfolding s2 wlp_context r3 prod.case
      using copy w'(1) 1 r3 unfolding s2
      by (intro exI [of _ copy] exI [of _ w'] exI [of _ True]) (auto intro!: exI [of _ c2] exI [of _ w2] exI [of _ "Inr ()"])
  next
    case (2 s2 e)
    then show ?case
      using copy w'(1)
      by (intro exI [of _ copy] exI [of _ w'] exI [of _ True]) (auto intro!: exI [of _ "fst s2"] exI [of _ "snd s2"] exI [of _ "Inl e"])
  qed
next
  case (3 s1 e)
  then obtain w' where w': "(w', False) = (case store of
             None \<Rightarrow> (w, True)
           | Some st \<Rightarrow> if og_qos g = AtMostOnce then (w, True) else st_store st (ucast i) copy w)"
    "s1 = (c, w')" "e = CE_PublishStoreFailed"
    by (auto split: if_splits)
  then show ?case
    using copy by (intro exI [of _ copy] exI [of _ w'] exI [of _ False]) simp
qed

lemma publish_wlp:
  "wlp (publish tr clock store g i) (publish_post tr clock wire store g i s) s"
proof -
  obtain c w where s: "s = (c, w)" by (cases s)
  show ?thesis
    unfolding s publish_def
  proof (rule wlp_check, goal_cases)
    case (2 e)
    then show ?case by (simp add: publish_post_def)
  next
    case (1 a)
    obtain header header_size where a: "a = (header, header_size)" by (cases a)
    note ok = 1 [unfolded a]
    note h = check_publish_ok [OF ok]
    define prefix where "prefix = vl_encode (length (og_properties g))"
    obtain parts whole where v: "publish_vectors g i (publish_front g) prefix = (parts, whole)"
      by (cases "publish_vectors g i (publish_front g) prefix")
    note packet = publish_vectors_packet [OF v [unfolded prefix_def]]
    have f7: "length (publish_front (as_duplicate g)) \<le> 7" "length (publish_front (as_duplicate g)) = length (publish_front g)"
      using h(3) by (simp_all add: publish_front_def publish_length_def)
    have sl: "slice (written (replicate 7 0) (publish_front g)) 0 (length (publish_front g)) = Some (publish_front g)"
      "slice (written (replicate 7 0) (publish_front (as_duplicate g))) 0 (length (publish_front g)) =
         Some (publish_front (as_duplicate g))"
      "slice (written (replicate 4 0) prefix) 0 (length prefix) = Some prefix"
      using h(3,4) f7 slice_written [of "publish_front g" "replicate 7 0"]
        slice_written [of "publish_front (as_duplicate g)" "replicate 7 0"]
        slice_written [of prefix "replicate 4 0"] length_vl_encode_le_4 [OF h(4)]
      by (simp_all add: prefix_def)
    have pl: "try_u32 (length (og_properties g)) = Some (word_of_nat (length (og_properties g)))"
      "encode_variable_length (replicate 4 0) (word_of_nat (length (og_properties g))) =
        (written (replicate 4 0) prefix, length prefix)"
      using h(4) length_vl_encode_le_4 [OF h(4)]
      by (simp_all add: try_u32_def encode_variable_length_eq unat_u32_of_nat prefix_def written_def splice_0 not_less)
    show ?case
      unfolding a prod.case
    proof (rule must_be_connected_wlp)
      fix e
      assume "connected c = Inl e"
      then show "publish_post tr clock wire store g i (c, w) (c, w) (Inl e)"
        by (simp add: publish_post_def ok)
    next
      assume "mc_connect_status c = Connected"
      then have up: "connected c = Inr ()" by (simp add: connected_def)
      have fine: "publish_post tr clock wire store g i (c, w) s' r"
        if "reserve_record g i c = (c', Inr u)"
          "\<exists>copy w' kept. concat copy = publish_packet (as_duplicate g) i \<and>
          (w', kept) = (case store of
             None \<Rightarrow> (w, True)
           | Some st \<Rightarrow> if og_qos g = AtMostOnce then (w, True) else st_store st (ucast i) copy w) \<and>
          (if kept then (\<exists>s2 r2. all_post tr clock wire (publish_packet g i) (c', w') s2 r2 \<and>
             (case r2 of Inl e \<Rightarrow> r = Inl e \<and> s' = s2
              | Inr _ \<Rightarrow> (case publish_sent g i (fst s2) of (c3, r3) \<Rightarrow> r = r3 \<and> s' = (c3, snd s2))))
           else r = Inl CE_PublishStoreFailed \<and> s' = (c', w'))" for c' u s' r
        unfolding publish_post_def fst_conv snd_conv ok up sum.case that(1) prod.case by (rule that(2))
      have tail: "wlp (io_bind (store_copy store g i (parts[0 := publish_front (as_duplicate g)])) (\<lambda>_.
          io_bind (all_of whole (send_vectors tr clock parts)) (\<lambda>_. upd_try (publish_sent g i))))
        (publish_post tr clock wire store g i (c, w)) (c', w)"
        if "reserve_record g i c = (c', Inr u)" for c' u
        by (rule wlp_conseq [OF publish_tail_wlp [OF packet(2,1,3)]]) (rule fine [OF that])
      show "wlp (io_bind (upd_try (reserve_record g i)) (\<lambda>_.
         io_bind (io_lift (ok_or CE_BadParameter (try_u32 (length (og_properties g))))) (\<lambda>property_length.
         case encode_variable_length (replicate 4 0) property_length of (length_field, length_written) \<Rightarrow>
         io_bind (io_lift (duplicate_header g header)) (\<lambda>dup_header.
         io_bind (io_lift (ok_or CE_SendFailed (slice header 0 header_size))) (\<lambda>head.
         io_bind (io_lift (ok_or CE_SendFailed (slice dup_header 0 header_size))) (\<lambda>dup_head.
         io_bind (io_lift (ok_or CE_SendFailed (slice length_field 0 length_written))) (\<lambda>prefix.
         case publish_vectors g i head prefix of (parts, whole) \<Rightarrow>
         io_bind (store_copy store g i (parts[0 := dup_head])) (\<lambda>_.
         io_bind (all_of whole (send_vectors tr clock parts)) (\<lambda>_.
         upd_try (publish_sent g i))))))))))
        (publish_post tr clock wire store g i (c, w)) (c, w)"
        by (rule wlp_upd_try)
          (simp_all only: pl h(1,2) duplicate_header_ok [OF h(3)] ok_or_simps sl prod.case v
            wlp_bind [of "io_lift _"] wlp_basic sum.case tail,
           simp_all add: publish_post_def ok up)
    qed
  qed
qed
lemma publish_returns:
  assumes runs: "clock_runs tr clock time patience"
  shows "returns (publish tr clock store g i) s"
proof -
  obtain c w where s: "s = (c, w)" by (cases s)
  have upd_try: "returns (upd_try f) s'" for f :: "mqtt_context \<Rightarrow> mqtt_context \<times> (client_error + unit)" and s' :: "mqtt_context \<times> 'a"
    by (cases s') (simp add: returns_context)
  have copy: "returns (store_copy store g i ps) s'" for ps s'
    by (auto simp: store_copy_def returns_basic intro!: returns_bindI returns_world split: option.split)
  show ?thesis
    unfolding s publish_def
  proof (rule returns_check, goal_cases)
    case (1 a)
    show ?case
      by (cases a) (auto intro!: returns_must_be_connected returns_bindI upd_try copy returns_basic
          send_vectors_returns [OF runs] simp: all_of_returns split: prod.split)
  qed
qed

section \<open>Properties\<close>

lemma list_flat:
  assumes "check_list c entries i properties subscribing = Inr (pl, sz)"
    and "list_all (\<lambda>s. sb_topic_filter s \<noteq> []) entries"
  shows "(if subscribing then serialize_subscribe else serialize_unsubscribe)
      (replicate (unat (ps_packet_size sz)) 0) entries properties i (ps_remaining_length sz) =
    (list_packet_bytes subscribing entries i properties,
     Inr (length (list_packet_bytes subscribing entries i properties)))"
proof -
  note sz = check_list_size [OF assms(1)]
  have i: "i \<noteq> 0"
    using assms(1) by (auto simp: check_list_def rbind_eq_Inr validate_subscriptions_def split: if_splits)
  have body: "be16 i @ property_block properties @
      (if (if subscribing then LP_Subscribe else LP_Unsubscribe) = LP_Subscribe
       then subscribe_payload entries else unsubscribe_payload entries) =
      list_body_bytes subscribing entries i properties"
    by (simp add: list_body_bytes_def list_payload_def)
  have "unat (ps_packet_size sz) = length (list_packet_bytes subscribing entries i properties)"
    using list_size_of_body(6) [OF sz, of i] unfolding body by (simp add: full_size_def list_packet_bytes_def)
  then show ?thesis
    using list_packets_ok [OF sz i assms(2), of "replicate (unat (ps_packet_size sz)) 0"]
    unfolding body list_packet_bytes_def
    by (cases subscribing) (simp_all add: written_full del: replicate_Suc)
qed

text \<open>The flat serializer refuses a list with an empty filter in it.\<close>

lemma list_flat_refused:
  assumes "\<not> (\<forall>s \<in> set entries. sb_topic_filter s \<noteq> [])"
  shows "isl (snd ((if subscribing then serialize_subscribe else serialize_unsubscribe) d entries properties i rl))"
proof -
  have "validate_filters entries \<noteq> Inr ()" using assms by (auto simp: validate_filters_ok list_all_iff)
  then obtain e where "validate_filters entries = Inl e" by (cases "validate_filters entries") auto
  then have "isl (validate_list entries i rl d)" by (auto simp: validate_list_def Let_def)
  then show ?thesis
    by (auto simp: serialize_subscribe_def serialize_unsubscribe_def isl_def split: sum.split)
qed

lemma list_packet_spelled:
  "list_packet_bytes subscribing entries i properties =
    (let body = be16 i @ property_block properties @ concat (map (\<lambda>s. mqtt_string (sb_topic_filter s) @
           (if subscribing then [subscription_options s] else [])) entries)
     in (if subscribing then SUBSCRIBE else UNSUBSCRIBE) # vl_encode (length body) @ body)"
  by (simp add: list_packet_bytes_def list_body_bytes_def list_payload_def subscribe_payload_def unsubscribe_payload_def)

text \<open>C12. SUBSCRIBE and UNSUBSCRIBE on the wire. A request that is refused, or made without a
  connection, changes nothing and sends nothing. Otherwise the gathers, however the filters
  fall into them and however little the transport takes at a time, put one packet on the wire,
  whole if the answer is success and a front of it if it is \<open>SendFailed\<close>; there is no other
  answer. The packet is the type, the length of its body, and as its body the identifier, the
  properties behind their length, and the filters in their order, each behind its length and, in
  a SUBSCRIBE, before its options. It is what the flat serializer writes of the same list when no
  filter in it is empty; a list with an empty filter, where the client's check has let one
  through, is sent all the same, and the flat serializer refuses it.\<close>

theorem list_requests_on_wire:
  assumes "carries tr clock wire"
    and "(if subscribing then subscribe else unsubscribe) tr clock entries i properties (c, w) =
      Some ((c', w'), r)"
  shows "case check_list c entries i properties subscribing of
      Inl e \<Rightarrow> r = Inl e \<and> c' = c \<and> w' = w
    | Inr (pl, sz) \<Rightarrow> (case connected c of
        Inl e \<Rightarrow> r = Inl e \<and> c' = c \<and> w' = w
      | Inr _ \<Rightarrow>
          (let body = be16 i @ property_block properties @ concat (map (\<lambda>s. mqtt_string (sb_topic_filter s) @
                 (if subscribing then [subscription_options s] else [])) entries);
               packet = (if subscribing then SUBSCRIBE else UNSUBSCRIBE) # vl_encode (length body) @ body;
               flat = (if subscribing then serialize_subscribe else serialize_unsubscribe)
                 (replicate (unat (ps_packet_size sz)) 0) entries properties i (ps_remaining_length sz)
           in on_wire (wire w) packet (wire w') r \<and>
              (if \<forall>s \<in> set entries. sb_topic_filter s \<noteq> [] then flat = (packet, Inr (length packet))
               else isl (snd flat))))"
proof -
  have run: "send_list tr clock entries i properties subscribing (c, w) = Some ((c', w'), r)"
    using assms(2) by (cases subscribing) (simp_all add: subscribe_def unsubscribe_def)
  note post = wlpD [OF send_list_wlp [where s = "(c, w)" and wire = wire] run]
  show ?thesis
  proof (cases "check_list c entries i properties subscribing")
    case (Inl e)
    then show ?thesis using post by (simp add: list_post_def)
  next
    case (Inr a)
    obtain pl sz where a: "a = (pl, sz)" by (cases a)
    note ok = Inr [unfolded a]
    show ?thesis
    proof (cases "connected c")
      case (Inl e)
      then show ?thesis using post ok by (simp add: list_post_def)
    next
      case (Inr u)
      then have "all_post tr clock wire (list_packet_bytes subscribing entries i properties) (c, w) (c', w') r"
        using post ok by (simp add: list_post_def)
      from all_post_on_wire [OF assms(1) this] show ?thesis
        using list_flat [OF ok] list_flat_refused [of entries subscribing]
        unfolding ok Inr sum.case prod.case list_packet_spelled [unfolded Let_def, symmetric] Let_def list_all_iff
        by simp
    qed
  qed
qed

definition sample_filters :: "subscription list" where
  "sample_filters = map (\<lambda>f. \<lparr>sb_topic_filter = f, sb_qos = AtMostOnce, sb_no_local = False,
     sb_retain_as_published = False, sb_retain_handling = OnSubscribe\<rparr>) [[0x61], [0x62, 0x63]]"

definition connected_sample :: mqtt_context where
  "connected_sample = context_new [1, 2]\<lparr>mc_connect_status := Connected\<rparr>"

theorem list_requests_on_wire_witness:
  "\<exists>c' w' r. unsubscribe slow_transport slow_clock sample_filters 7 [] (connected_sample, ([], 0)) =
      Some ((c', w'), r) \<and>
    on_wire [] ([0xA2, 10, 0, 7, 0] @ [0, 1, 0x61] @ [0, 2, 0x62, 0x63]) (fst w') r"
proof -
  obtain c' w' r where run: "(if False then subscribe else unsubscribe) slow_transport slow_clock sample_filters 7 []
      (connected_sample, ([], 0)) = Some ((c', w'), r)"
    using send_list_returns [OF slow_clock_runs, of sample_filters 7 "[]" False]
    unfolding returns_def unsubscribe_def by fastforce
  have "validate_subscriptions connected_sample sample_filters 7 ST_Unsubscribe = Inr ()"
    by (simp add: sample_filters_def validate_subscriptions_def validate_one_def try_u16_def)
  moreover have "list_packet_size LP_Unsubscribe [1, 2] 0 (ls_max_packet_size (cp_server (mc_properties connected_sample)))
      = Inr \<lparr>ps_remaining_length = 10, ps_packet_size = 12\<rparr>"
    by (simp add: list_packet_size_ok list_body_def per_filter_def sized_def full_size_def vl_encode_small
        connected_sample_def context_new_def connection_properties_new_def)
  ultimately have "check_list connected_sample sample_filters 7 [] False =
      Inr (0, \<lparr>ps_remaining_length = 10, ps_packet_size = 12\<rparr>)"
    by (simp add: check_list_def try_u32_def unsubscribe_packet_size_def sample_filters_def
        numeral_2_eq_2)
  moreover have "connected connected_sample = Inr ()" by (simp add: connected_sample_def connected_def)
  moreover have "list_packet_bytes False sample_filters 7 [] =
      [0xA2, 10, 0, 7, 0] @ [0, 1, 0x61] @ [0, 2, 0x62, 0x63]"
    by (simp add: list_packet_bytes_def list_body_bytes_def list_payload_def unsubscribe_payload_def
        sample_filters_def mqtt_string_def be16_def property_block_def vl_encode_small)
  ultimately show ?thesis
    using list_requests_on_wire [OF slow_transport_carries run] run
    unfolding list_packet_spelled by (simp add: fst_def Let_def)
qed

lemma all_post_stamped:
  "all_post tr clock wire packet s s' r \<Longrightarrow> \<exists>c. stamped (fst s) c \<and> (fst s' = c \<or> fst s' = transport_failed c)"
  by (erule all_postE) auto

text \<open>The last stage of PUBLISH, once the store has what it keeps.\<close>

lemma publish_gathered:
  assumes "carries tr clock wire" and "all_post tr clock wire (publish_packet g i) (c1, w1) s2 r2"
    and "case r2 of Inl e \<Rightarrow> r = Inl e \<and> (c', w') = s2
      | Inr _ \<Rightarrow> (case publish_sent g i (fst s2) of (c3, r3) \<Rightarrow> r = r3 \<and> (c', w') = (c3, snd s2))"
  shows "\<exists>n. wire w' = wire w1 @ take n (publish_packet g i)"
    and "r = Inr () \<Longrightarrow> wire w' = wire w1 @ publish_packet g i"
    and "r \<noteq> Inl CE_PublishStoreFailed"
proof -
  have w': "w' = snd s2" "r = Inr () \<Longrightarrow> r2 = Inr ()"
    using assms(3) by (auto split: sum.splits prod.splits)
  have wire: "on_wire (wire w1) (publish_packet g i) (wire w') r2"
    using all_post_on_wire [OF assms(1,2)] by (simp add: w'(1))
  show "\<exists>n. wire w' = wire w1 @ take n (publish_packet g i)"
    using wire unfolding on_wire_def by (metis take_all_iff order_refl)
  show "r = Inr () \<Longrightarrow> wire w' = wire w1 @ publish_packet g i"
    using wire w'(2) unfolding on_wire_def by auto
  have "rbind (map_err CE_State x) (\<lambda>_. Inr ()) \<noteq> Inl CE_PublishStoreFailed" for x :: "state_error + publish_state"
    by (cases x) simp_all
  then show "r \<noteq> Inl CE_PublishStoreFailed"
    using assms(2,3) by (auto simp: all_post_def publish_sent_def on_records_def dest: sym
        split: sum.splits prod.splits if_splits option.splits)
qed

lemma publish_sends:
  assumes "carries tr clock wire"
    and "\<And>key copy w. wire (fst (st_store st key copy w)) = wire w"
    and "publish tr clock (Some st) g i (c, w) = Some ((c', w'), r)"
  shows "(\<exists>n. wire w' = wire w @ take n (publish_packet g i)) \<and>
    (r = Inr () \<longrightarrow> wire w' = wire w @ publish_packet g i \<and> connected c = Inr () \<and>
       (og_qos g \<noteq> AtMostOnce \<longrightarrow> (\<exists>copy w1. st_store st (ucast i) copy w = (w1, True) \<and>
          concat copy = publish_packet (as_duplicate g) i))) \<and>
    (isl (check_publish c g i) \<or> isl (connected c) \<or> isl (snd (reserve_record g i c)) \<or>
       r = Inl CE_PublishStoreFailed \<longrightarrow> wire w' = wire w)"
proof -
  have post: "publish_post tr clock wire (Some st) g i (c, w) (c', w') r"
    using wlpD [OF publish_wlp assms(3)] .
  have none: "\<exists>n. wire w = wire w @ take n (publish_packet g i)" by (rule exI [of _ 0]) simp
  show ?thesis
  proof (cases "check_publish c g i")
    case (Inl e)
    then show ?thesis using post none by (simp add: publish_post_def)
  next
    case ok: (Inr a)
    show ?thesis
    proof (cases "connected c")
      case (Inl e)
      then show ?thesis using post none ok by (simp add: publish_post_def)
    next
      case up: (Inr u)
      obtain c1 r1 where r1: "reserve_record g i c = (c1, r1)" by (cases "reserve_record g i c")
      show ?thesis
      proof (cases r1)
        case (Inl e)
        then show ?thesis using post none ok up r1 by (simp add: publish_post_def)
      next
        case (Inr u)
        have reserved: "\<not> isl (snd (reserve_record g i c))" by (simp add: r1 Inr)
        from Inr obtain copy w1 kept where copy: "concat copy = publish_packet (as_duplicate g) i"
          and w1: "(w1, kept) = (if og_qos g = AtMostOnce then (w, True) else st_store st (ucast i) copy w)"
          and sent: "if kept then (\<exists>s2 r2. all_post tr clock wire (publish_packet g i) (c1, w1) s2 r2 \<and>
             (case r2 of Inl e \<Rightarrow> r = Inl e \<and> (c', w') = s2
              | Inr _ \<Rightarrow> (case publish_sent g i (fst s2) of (c3, r3) \<Rightarrow> r = r3 \<and> (c', w') = (c3, snd s2))))
           else r = Inl CE_PublishStoreFailed \<and> (c', w') = (c1, w1)"
          using post unfolding publish_post_def fst_conv snd_conv ok up r1 Inr sum.case prod.case option.case by blast
        have same: "wire w1 = wire w"
          using w1 assms(2) [of "ucast i" copy w] by (cases "og_qos g = AtMostOnce") (simp_all, metis fst_conv)
        show ?thesis
        proof (cases kept)
          case False
          then show ?thesis using sent same none by simp
        next
          case True
          then obtain s2 r2 where s2: "all_post tr clock wire (publish_packet g i) (c1, w1) s2 r2"
            "case r2 of Inl e \<Rightarrow> r = Inl e \<and> (c', w') = s2
              | Inr _ \<Rightarrow> (case publish_sent g i (fst s2) of (c3, r3) \<Rightarrow> r = r3 \<and> (c', w') = (c3, snd s2))"
            using sent by auto
          note wire = publish_gathered [OF assms(1) s2, unfolded same]
          have stored: "og_qos g \<noteq> AtMostOnce \<Longrightarrow> st_store st (ucast i) copy w = (w1, True)"
            using w1 True by simp
          show ?thesis
            using wire up ok stored copy reserved by auto
        qed
      qed
    qed
  qed
qed

text \<open>The packet, spelled out, and the flat serializer on it.\<close>

lemma publish_packet_spelled:
  "publish_packet g i =
    (let body = mqtt_string (og_topic_name g) @ (if og_qos g = AtMostOnce then [] else be16 i) @
         property_block (og_properties g) @ og_payload g
     in publish_flags g # vl_encode (length body) @ body)"
  unfolding publish_packet_def length_publish_content [symmetric, of g i]
  by (simp add: publish_content_def publish_head_def)

lemma publish_flat:
  assumes "check_publish c g i = Inr checked"
  shows "\<exists>sz. publish_packet_size g (ls_max_packet_size (cp_server (mc_properties c))) = Inr sz \<and>
    unat (pz_packet_size sz) = length (publish_packet g i) \<and>
    (let flat = serialize_publish (replicate (unat (pz_packet_size sz)) 0) g i (pz_remaining_length sz)
     in if og_topic_name g \<noteq> [] \<and> (og_dup g \<longrightarrow> og_qos g \<noteq> AtMostOnce)
        then flat = (publish_packet g i, Inr (length (publish_packet g i))) else isl (snd flat))"
proof -
  obtain header n where checked: "checked = (header, n)" by (cases checked)
  from assms obtain sz where sz: "publish_packet_size g (ls_max_packet_size (cp_server (mc_properties c))) = Inr sz"
    unfolding check_publish_def Let_def rbind_eq_Inr map_err_eq_Inr by auto
  note s = publish_sized [OF sz]
  have "og_qos g = AtMostOnce \<or> i \<noteq> 0" using check_publish_ok(5) [OF assms [unfolded checked]] by blast
  then have strict: "validate_strict g i (pz_remaining_length sz) = Inr () \<longleftrightarrow>
      og_topic_name g \<noteq> [] \<and> (og_dup g \<longrightarrow> og_qos g \<noteq> AtMostOnce)"
    using s(1-3) by (auto simp: validate_strict_ok og_fits_def)
  let ?flat = "serialize_publish (replicate (unat (pz_packet_size sz)) 0) g i (pz_remaining_length sz)"
  show ?thesis
  proof (cases "validate_strict g i (pz_remaining_length sz)")
    case (Inl e)
    then have "isl (snd ?flat)" by (simp add: serialize_publish_def)
    then show ?thesis using sz s(4) strict Inl by (auto simp: Let_def)
  next
    case (Inr u)
    then have "?flat = (publish_packet g i, Inr (length (publish_packet g i)))"
      using serialize_publish_ok [OF s(1,2), of i] s(4) [of i] by (simp add: written_full del: replicate_Suc)
    then show ?thesis using sz s(4) strict Inr by simp
  qed
qed

text \<open>C9. PUBLISH on the wire and in the store. With a store whose own work sends nothing: what
  goes out is a front of one packet, and all of it if the answer is success. Nothing goes out if
  the request is refused, there is no connection, the records refuse the identifier or the store
  will not keep the copy. A QoS above 0 succeeds only when the store has kept the copy, taken
  before anything was sent, under the packet's identifier: the same packet with the flag of a
  duplicate. The packet is its flags, the length of its body, and as its body the topic, the
  identifier when the QoS is above 0, the properties behind their length, and the payload. It is
  what the flat serializer writes of the same request, but for a topic given by its alias alone
  and a duplicate at QoS 0, both of which that serializer refuses.\<close>

theorem publish_on_wire:
  assumes "carries tr clock wire"
    and "\<And>key copy w. wire (fst (st_store st key copy w)) = wire w"
    and "publish tr clock (Some st) g i (c, w) = Some ((c', w'), r)"
    and "body = mqtt_string (og_topic_name g) @ (if og_qos g = AtMostOnce then [] else be16 i) @
      property_block (og_properties g) @ og_payload g"
    and "packet = publish_flags g # vl_encode (length body) @ body"
  shows "(\<exists>n. wire w' = wire w @ take n packet) \<and>
    (r = Inr () \<longrightarrow> wire w' = wire w @ packet \<and> connected c = Inr () \<and>
       (og_qos g \<noteq> AtMostOnce \<longrightarrow> (\<exists>copy w1. st_store st (ucast i) copy w = (w1, True) \<and>
          concat copy = publish_flags (g\<lparr>og_dup := True\<rparr>) # vl_encode (length body) @ body))) \<and>
    (isl (check_publish c g i) \<or> isl (connected c) \<or> isl (snd (reserve_record g i c)) \<or>
       r = Inl CE_PublishStoreFailed \<longrightarrow> wire w' = wire w) \<and>
    (\<not> isl (check_publish c g i) \<longrightarrow>
       (\<exists>sz. publish_packet_size g (ls_max_packet_size (cp_server (mc_properties c))) = Inr sz \<and>
          unat (pz_packet_size sz) = length packet \<and>
          (let flat = serialize_publish (replicate (unat (pz_packet_size sz)) 0) g i (pz_remaining_length sz)
           in if og_topic_name g \<noteq> [] \<and> (og_dup g \<longrightarrow> og_qos g \<noteq> AtMostOnce)
              then flat = (packet, Inr (length packet)) else isl (snd flat))))"
proof -
  have packet: "publish_packet g i = packet"
    unfolding assms(4,5) publish_packet_spelled by (simp only: Let_def)
  have duplicate: "publish_packet (as_duplicate g) i = publish_flags (as_duplicate g) # vl_encode (length body) @ body"
    unfolding assms(4) publish_packet_spelled by (simp add: Let_def)
  have flat: "\<not> isl (check_publish c g i) \<longrightarrow>
       (\<exists>sz. publish_packet_size g (ls_max_packet_size (cp_server (mc_properties c))) = Inr sz \<and>
          unat (pz_packet_size sz) = length packet \<and>
          (let flat = serialize_publish (replicate (unat (pz_packet_size sz)) 0) g i (pz_remaining_length sz)
           in if og_topic_name g \<noteq> [] \<and> (og_dup g \<longrightarrow> og_qos g \<noteq> AtMostOnce)
              then flat = (packet, Inr (length packet)) else isl (snd flat)))"
    using publish_flat [of c g i] unfolding packet by (cases "check_publish c g i") simp_all
  have sent: "(\<exists>n. wire w' = wire w @ take n (publish_packet g i)) \<and>
    (r = Inr () \<longrightarrow> wire w' = wire w @ publish_packet g i \<and> connected c = Inr () \<and>
       (og_qos g \<noteq> AtMostOnce \<longrightarrow> (\<exists>copy w1. st_store st (ucast i) copy w = (w1, True) \<and>
          concat copy = publish_packet (as_duplicate g) i))) \<and>
    (isl (check_publish c g i) \<or> isl (connected c) \<or> isl (snd (reserve_record g i c)) \<or>
       r = Inl CE_PublishStoreFailed \<longrightarrow> wire w' = wire w)"
    by (rule publish_sends [OF assms(1-3)])
  show ?thesis
    using sent flat unfolding packet duplicate by blast
qed

definition keeping_store :: "'w store" where
  "keeping_store = \<lparr>st_store = (\<lambda>_ _ w. (w, True)), st_retrieve = (\<lambda>_ w. (w, None)), st_clear = (\<lambda>_ w. w)\<rparr>"

theorem publish_on_wire_witness:
  "\<exists>c' w' r n. publish slow_transport slow_clock (Some keeping_store)
      \<lparr>og_qos = AtLeastOnce, og_dup = False, og_retain = False, og_topic_name = [0x61],
       og_payload = [1, 2], og_properties = []\<rparr> 7
      (enable_qos [empty_record] [empty_record] [] connected_sample, ([9], 0)) = Some ((c', w'), r) \<and>
    fst w' = [9] @ take n [0x32, 8, 0, 1, 0x61, 0, 7, 0, 1, 2] \<and>
    (r = Inr () \<longrightarrow> fst w' = [9, 0x32, 8, 0, 1, 0x61, 0, 7, 0, 1, 2])"
proof -
  let ?g = "\<lparr>og_qos = AtLeastOnce, og_dup = False, og_retain = False, og_topic_name = [0x61],
       og_payload = [1, 2], og_properties = []\<rparr>"
  let ?c = "enable_qos [empty_record] [empty_record] [] connected_sample"
  obtain c' w' r where run: "publish slow_transport slow_clock (Some keeping_store) ?g 7 (?c, ([9], 0)) = Some ((c', w'), r)"
    using publish_returns [OF slow_clock_runs, of "Some keeping_store" ?g 7] unfolding returns_def by fastforce
  have quiet: "fst (fst (st_store keeping_store key copy w)) = fst w" for key copy and w :: "bytes \<times> nat"
    by (simp add: keeping_store_def)
  have body: "publish_flags ?g # vl_encode (length [0, 1, 0x61, 0, 7, 0, 1, 2]) @ [0, 1, 0x61, 0, 7, 0, 1, 2] =
      ([0x32, 8, 0, 1, 0x61, 0, 7, 0, 1, 2] :: bytes)"
    by (simp add: publish_flags_def vl_encode_small)
  have "[0, 1, 0x61, 0, 7, 0, 1, 2] = mqtt_string (og_topic_name ?g) @ (if og_qos ?g = AtMostOnce then [] else be16 7) @
      property_block (og_properties ?g) @ og_payload ?g"
    by (simp add: mqtt_string_def be16_def property_block_def vl_encode_small)
  from publish_on_wire [OF slow_transport_carries quiet run this body [symmetric]] show ?thesis
    using run by auto
qed

end
