(* ===== verification/Session.thy ===== *)
theory Session
  imports Requests
begin

text \<open>
  session.rs, up to the CONNACK: the bounded read of a packet body into the network buffer, the
  CONNECT gathered from the buffers of the caller, and the wait for the CONNACK with its two
  ways of giving up. Sending and receiving meet here for the first time.
\<close>

section \<open>Reading a body\<close>

abbreviation (input) RECV_POLLING_TIMEOUT_MS :: u32 where "RECV_POLLING_TIMEOUT_MS \<equiv> 10"

abbreviation (input) MAX_CONNACK_RECEIVE_RETRY_COUNT :: u16 where
  "MAX_CONNACK_RECEIVE_RETRY_COUNT \<equiv> 5"

datatype body_read = Body_Bytes nat | Body_Failed

text \<open>The transport fills a slice of the network buffer: what it hands back has the length of
  the slice, and a model that handed back another one would change nothing.\<close>

definition receive_into :: "nat \<Rightarrow> bytes \<Rightarrow> bytes \<Rightarrow> mqtt_context \<Rightarrow> mqtt_context" where
  "receive_into at into given c =
     (if length given = length into then c\<lparr>mc_network := splice (mc_network c) at given\<rparr> else c)"

definition recv_exact_turn :: "'w transport \<Rightarrow> 'w clock \<Rightarrow> nat \<Rightarrow> nat \<times> nat \<times> u32 \<Rightarrow>
    (mqtt_context \<times> 'w, body_read, nat \<times> nat \<times> u32) io" where
  "recv_exact_turn transport clock wanted = (\<lambda>(remaining, whole, last_data).
     if remaining = 0 then io_fail (Body_Bytes whole)
     else io_bind (ctx (\<lambda>c. slice (mc_network c) whole wanted)) (\<lambda>buffer.
     case buffer of
       None \<Rightarrow> io_fail Body_Failed
     | Some into \<Rightarrow>
         io_bind (world_call (tr_recv transport into)) (\<lambda>(given, answer).
         io_bind (upd (receive_into whole into given)) (\<lambda>_.
         let silent =
           io_bind (world_call clock) (\<lambda>now.
           if elapsed_ms now last_data \<ge> RECV_POLLING_TIMEOUT_MS then io_fail (Body_Bytes whole)
           else io_return (remaining, whole, last_data))
         in case answer of
           Recv_Failed \<Rightarrow> io_bind (upd transport_failed) (\<lambda>_. io_fail Body_Failed)
         | Recv_Nothing \<Rightarrow> silent
         | Recv_Bytes count \<Rightarrow>
             if count = 0 then silent
             else let count = min count remaining
             in io_bind (world_call clock) (\<lambda>now.
                io_return (remaining - count, whole + count, now))))))"

definition recv_exact :: "'w transport \<Rightarrow> 'w clock \<Rightarrow> nat \<Rightarrow> (mqtt_context \<times> 'w, 'e, body_read) io" where
  "recv_exact transport clock wanted =
     io_bind (world_call clock) (\<lambda>last_data.
       rounds (recv_exact_turn transport clock wanted) (wanted, 0, last_data))"

section \<open>The CONNACK\<close>

definition receive_connack_packet :: "'w transport \<Rightarrow> 'w clock \<Rightarrow> u32 \<Rightarrow>
    (mqtt_context \<times> 'w, client_error, unit) io" where
  "receive_connack_packet transport clock remaining_length =
     (let wanted = unat remaining_length
      in io_bind (ctx (\<lambda>c. wanted > length (mc_network c))) (\<lambda>too_big.
         if too_big then io_fail CE_RecvFailed
         else io_bind (recv_exact transport clock wanted) (\<lambda>got.
           if got = Body_Bytes wanted then io_return () else io_fail CE_RecvFailed)))"

text \<open>One turn of the wait for the header, over how many there were. The wait is over when a
  header came, when something else went wrong, or when it is given up.\<close>

definition connack_header_turn :: "'w transport \<Rightarrow> 'w clock \<Rightarrow> u32 \<Rightarrow> u32 \<Rightarrow> u16 \<Rightarrow>
    (mqtt_context \<times> 'w, read_error + incoming_header, u16) io" where
  "connack_header_turn transport clock timeout_ms entry loop_count =
     io_bind (io_try (in_world (read_header transport))) (\<lambda>header.
     io_bind (if timeout_ms > 0
              then io_bind (world_call clock) (\<lambda>now.
                io_return (elapsed_ms now entry \<ge> timeout_ms, loop_count))
              else io_return (loop_count \<ge> MAX_CONNACK_RECEIVE_RETRY_COUNT, sat_add loop_count 1))
       (\<lambda>(give_up, loop_count).
     if header = Inl Read_NoDataAvailable \<and> \<not> give_up then io_return loop_count
     else io_fail header))"

text \<open>The packet, in the network buffer.\<close>

definition receive_connack_info :: "'w transport \<Rightarrow> 'w clock \<Rightarrow> u32 \<Rightarrow>
    (mqtt_context \<times> 'w, client_error, packet_info) io" where
  "receive_connack_info transport clock timeout_ms =
     io_bind (world_call clock) (\<lambda>entry.
     io_bind (rounds (connack_header_turn transport clock timeout_ms entry) 0) (\<lambda>header.
     io_bind (io_lift (map_err client_of_read header)) (\<lambda>packet.
     if ih_packet_type packet \<noteq> CONNACK then io_fail CE_BadResponse
     else io_bind (receive_connack_packet transport clock (ih_remaining_length packet)) (\<lambda>_.
       io_bind (io_bind (ctx (\<lambda>c. ok_or CE_RecvFailed
           (slice (mc_network c) 0 (unat (ih_remaining_length packet))))) io_lift) (\<lambda>body.
       io_return \<lparr>pi_packet_type = ih_packet_type packet,
                  pi_remaining_length = ih_remaining_length packet,
                  pi_remaining_data = body\<rparr>)))))"

definition apply_connack :: "connection_properties \<Rightarrow> conn_ack \<Rightarrow> connection_properties" where
  "apply_connack properties connack =
     (let present = (\<lambda>n. ca_fields_present connack AND push_bit n 1 \<noteq> 0);
          said = ca_server connack;
          server = cp_server properties;
          properties = (if present F_SESSION_EXPIRY_INTERVAL
            then properties\<lparr>cp_session_expiry := ss_session_expiry said\<rparr> else properties);
          server = (if present F_RECEIVE_MAXIMUM
            then server\<lparr>ls_receive_max := ss_receive_max said\<rparr> else server);
          server = (if present F_MAX_QOS then server\<lparr>ls_max_qos := ss_max_qos said\<rparr> else server);
          server = (if present F_RETAIN_AVAILABLE
            then server\<lparr>ls_retain_available := ss_retain_available said\<rparr> else server);
          server = (if present F_MAX_PACKET_SIZE
            then server\<lparr>ls_max_packet_size := ss_max_packet_size said\<rparr> else server);
          server = (if present F_TOPIC_ALIAS_MAX
            then server\<lparr>ls_topic_alias_max := ss_topic_alias_max said\<rparr> else server);
          server = (if present F_WILDCARD_SUBSCRIPTION_AVAILABLE
            then server\<lparr>ls_wildcard_available := ss_wildcard_available said\<rparr> else server);
          server = (if present F_SUBSCRIPTION_ID_AVAILABLE
            then server\<lparr>ls_subscription_id_available := ss_subscription_id_available said\<rparr> else server);
          server = (if present F_SHARED_SUBSCRIPTION_AVAILABLE
            then server\<lparr>ls_shared_available := ss_shared_available said\<rparr> else server);
          server = (if present F_SERVER_KEEP_ALIVE
            then server\<lparr>ls_keep_alive := ss_keep_alive said\<rparr> else server)
      in properties\<lparr>cp_server := server\<rparr>)"

definition client_settings_of :: "mqtt_context \<Rightarrow> client_settings" where
  "client_settings_of c =
     \<lparr>cs_max_packet_size = lc_max_packet_size (cp_client (mc_properties c)),
      cs_request_response_info = lc_request_response_info (cp_client (mc_properties c))\<rparr>"

text \<open>The caller's flag \<open>session_present\<close> is written before the packet can be refused, so it is
  part of every answer, an error as well as success.\<close>

definition flagged :: "bool \<Rightarrow> ('s, client_error, 'a) io \<Rightarrow> ('s, bool \<times> client_error, 'a) io" where
  "flagged session_present m = io_map_err (Pair session_present) m"

definition receive_connack :: "'w transport \<Rightarrow> 'w clock \<Rightarrow> u32 \<Rightarrow> bool \<Rightarrow> bool \<Rightarrow>
    (mqtt_context \<times> 'w, bool \<times> client_error, bool) io" where
  "receive_connack transport clock timeout_ms clean_session session_present =
     io_bind (flagged session_present (receive_connack_info transport clock timeout_ms)) (\<lambda>info.
     io_bind (ctx client_settings_of) (\<lambda>settings.
     io_bind (flagged session_present
         (io_lift (map_err client_of_connack (deserialize_connack info settings)))) (\<lambda>connack.
     io_bind (upd (\<lambda>c. c\<lparr>mc_properties := apply_connack (mc_properties c) connack\<rparr>)) (\<lambda>_.
     if clean_session \<and> ca_session_present connack
     then io_fail (ca_session_present connack, CE_BadResponse)
     else if refused connack then io_fail (ca_session_present connack, CE_ServerRefused)
     else io_return (ca_session_present connack)))))"

section \<open>The CONNECT\<close>

abbreviation (input) CONNECT_MAX_VECTORS :: nat where "CONNECT_MAX_VECTORS \<equiv> 15"

text \<open>The vectors and how many bytes they hold; a vector more than there are slots is dropped.\<close>

definition push_slot :: "bytes \<Rightarrow> bytes list \<times> nat \<Rightarrow> bytes list \<times> nat" where
  "push_slot part = (\<lambda>(parts, whole).
     if length parts < CONNECT_MAX_VECTORS then (parts @ [part], whole + length part)
     else (parts, whole))"

definition push_string :: "bytes list \<times> nat \<Rightarrow> bytes \<Rightarrow> bytes \<Rightarrow> client_error + (bytes list \<times> nat)" where
  "push_string vectors little body =
     (if snd vectors + 2 + length body > unat Context.MAX_PACKET_SIZE then Inl CE_BadParameter
      else let vectors = push_slot little vectors
           in Inr (if body \<noteq> [] then push_slot body vectors else vectors))"

text \<open>A length as two bytes; one that does not fit was refused before.\<close>

definition length_bytes :: "bytes \<Rightarrow> bytes" where
  "length_bytes body = be16 (case try_u16 (length body) of None \<Rightarrow> - 1 | Some n \<Rightarrow> n)"

text \<open>From the client identifier on.\<close>

definition push_payload :: "connect \<Rightarrow> bytes \<Rightarrow> bytes \<Rightarrow> bytes list \<times> nat \<Rightarrow>
    client_error + (bytes list \<times> nat)" where
  "push_payload cn client_id_field will_prefix vectors =
     rbind (push_string vectors client_id_field (cn_client_identifier cn)) (\<lambda>vectors.
     rbind (case cn_will cn of
         None \<Rightarrow> Inr vectors
       | Some will \<Rightarrow>
           let vectors = push_slot will_prefix vectors;
               vectors = (if wl_properties will \<noteq> [] then push_slot (wl_properties will) vectors
                          else vectors)
           in rbind (push_string vectors (length_bytes (wl_topic_name will)) (wl_topic_name will)) (\<lambda>vectors.
              push_string vectors (length_bytes (wl_payload will)) (wl_payload will))) (\<lambda>vectors.
     rbind (case ci_username (cn_info cn) of
         None \<Rightarrow> Inr vectors
       | Some username \<Rightarrow> push_string vectors (length_bytes username) username) (\<lambda>vectors.
     (case ci_password (cn_info cn) of
         None \<Rightarrow> Inr vectors
       | Some password \<Rightarrow> push_string vectors (length_bytes password) password))))"

definition set_server_keep_alive :: "u16 \<Rightarrow> mqtt_context \<Rightarrow> mqtt_context" where
  "set_server_keep_alive seconds c = c\<lparr>mc_properties := (mc_properties c)
     \<lparr>cp_server := (cp_server (mc_properties c))\<lparr>ls_keep_alive := seconds\<rparr>\<rparr>\<rparr>"

definition learn_connect_props :: "bytes \<Rightarrow> mqtt_context \<Rightarrow> mqtt_context \<times> (client_error + unit)" where
  "learn_connect_props properties c =
     (case update_with_connect_props properties (mc_properties c) of
        (p, answer) \<Rightarrow> (c\<lparr>mc_properties := p\<rparr>, map_err (\<lambda>_. CE_BadParameter) answer))"

definition send_connect :: "'w transport \<Rightarrow> 'w clock \<Rightarrow> connect \<Rightarrow> u32 \<Rightarrow>
    (mqtt_context \<times> 'w, client_error, unit) io" where
  "send_connect transport clock cn remaining_length =
     (case serialize_connect_fixed_header (replicate 15 0) (cn_info cn)
             (map_option wl_info (cn_will cn)) remaining_length of (fixed, header) \<Rightarrow>
      if header = 0 then io_fail CE_SendFailed
      else
      io_bind (upd (set_server_keep_alive (ci_keep_alive_seconds (cn_info cn)))) (\<lambda>_.
      io_bind (io_lift (ok_or CE_BadParameter (try_u32 (length (cn_properties cn))))) (\<lambda>property_length.
      case encode_variable_length (replicate 4 0) property_length of (length_field, length_written) \<Rightarrow>
      let will_property_length = (case cn_will cn of None \<Rightarrow> 0 | Some will \<Rightarrow>
            (case try_u32 (length (wl_properties will)) of None \<Rightarrow> 0 | Some n \<Rightarrow> n)) in
      case encode_variable_length (replicate 4 0) will_property_length of
        (will_length_field, will_length_written) \<Rightarrow>
      io_bind (io_lift (ok_or CE_BadParameter (try_u16 (length (cn_client_identifier cn))))) (\<lambda>client_id_length.
      io_bind (io_lift (ok_or CE_SendFailed (slice fixed 0 header))) (\<lambda>head.
      io_bind (io_lift (ok_or CE_SendFailed (slice length_field 0 length_written))) (\<lambda>prefix.
      io_bind (io_lift (ok_or CE_SendFailed (slice will_length_field 0 will_length_written))) (\<lambda>will_prefix.
      let vectors = push_slot prefix (push_slot head ([], 0)) in
      io_bind (if cn_properties cn = [] then io_return vectors
               else io_bind (upd_try (learn_connect_props (cn_properties cn))) (\<lambda>_.
                 io_return (push_slot (cn_properties cn) vectors))) (\<lambda>vectors.
      io_bind (io_lift (push_payload cn (be16 client_id_length) will_prefix vectors)) (\<lambda>(parts, whole).
      all_of whole (send_vectors transport clock parts))))))))))"

section \<open>Reading ends\<close>

lemma returns_silent:
  "returns (io_bind (world_call clock) (\<lambda>now. if late now then io_fail e else io_return x)) s"
  by (auto simp: returns_basic intro!: returns_bindI returns_world)

lemma returns_ctx: "returns (ctx f) s"
  by (cases s) (simp add: returns_context)

lemma recv_exact_turn_returns: "returns (recv_exact_turn tr clock wanted x) s"
  unfolding recv_exact_turn_def Let_def
  by (cases x) (auto simp: returns_basic split: option.split recv.split prod.split
      intro!: returns_bindI returns_world returns_ctx)

text \<open>A turn brings bytes, or reads the clock within the ten milliseconds.\<close>

lemma recv_exact_turn_ticks:
  assumes runs: "clock_runs tr clock time patience"
  shows "wlp (recv_exact_turn tr clock wanted (remaining, whole, word_of_nat t0)) (\<lambda>s' r. case r of Inl _ \<Rightarrow> True
    | Inr (remaining', whole', last') \<Rightarrow>
       (remaining' < remaining \<and> last' = word_of_nat (time (snd s'))) \<or>
       (remaining' = remaining \<and> last' = word_of_nat t0 \<and> ticks 8 time patience (snd s) (snd s') \<and>
        unat (elapsed_ms (word_of_nat (time (snd s'))) (word_of_nat t0)) \<le> 9)) s"
proof (cases "remaining = 0")
  case True
  then show ?thesis by (simp add: recv_exact_turn_def wlp_basic)
next
  case False
  obtain c w where s: "s = (c, w)" by (cases s)
  show ?thesis
  proof (cases "slice (mc_network c) whole wanted")
    case None
    then show ?thesis by (simp add: recv_exact_turn_def s wlp_simps)
  next
    case (Some into)
    obtain w1 given answer where a: "tr_recv tr into w = (w1, given, answer)"
      by (cases "tr_recv tr into w") auto
    have p1: "passes 1 time patience w (snd (receive_into whole into given c, w1))"
      using clock_runsD(4) [OF runs a] by simp
    have late: "10 \<le> elapsed_ms t start \<or> unat (elapsed_ms t start) \<le> 9" for t start
      by (cases "10 \<le> elapsed_ms t start") (simp_all add: word_le_nat_alt not_le)
    let ?Q = "\<lambda>s' r. case r of Inl _ \<Rightarrow> True | Inr (remaining', whole', last') \<Rightarrow>
       (remaining' < remaining \<and> last' = word_of_nat (time (snd s'))) \<or>
       (remaining' = remaining \<and> last' = word_of_nat t0 \<and> ticks 8 time patience w (snd s') \<and>
        unat (elapsed_ms (word_of_nat (time (snd s'))) (word_of_nat t0)) \<le> 9)"
    have silent: "wlp (io_bind (world_call clock) (\<lambda>now.
        if elapsed_ms now (word_of_nat t0) \<ge> RECV_POLLING_TIMEOUT_MS then io_fail e
        else io_return (remaining, whole, word_of_nat t0))) ?Q (receive_into whole into given c, w1)" for e
    proof -
      obtain w2 t where t: "clock w1 = (w2, t)" by (cases "clock w1")
      have "ticks (1 + 1) time patience w w2"
        using passes_ticks(1) [OF p1, of 1 w2] clock_runsD(1) [OF runs t] by simp
      then have "ticks 8 time patience w w2" by (rule ticks_more) simp
      then show ?thesis
        using late [of t "word_of_nat t0"] clock_runsD(1) [OF runs t] by (auto simp: wlp_simps t)
    qed
    have some: "wlp (io_bind (world_call clock) (\<lambda>now.
        io_return (remaining - min n remaining, whole + min n remaining, now))) ?Q
      (receive_into whole into given c, w1)" if "n \<noteq> 0" for n
    proof -
      obtain w2 t where t: "clock w1 = (w2, t)" by (cases "clock w1")
      have "remaining - min n remaining < remaining" using that False by (simp add: min_def)
      then show ?thesis using clock_runsD(1) [OF runs t] by (simp add: wlp_simps t)
    qed
    show ?thesis
      unfolding recv_exact_turn_def s prod.case if_not_P [OF False] snd_conv
    proof (rule wlp_ctx, unfold Some option.case,
        rule wlp_world_call [where f = "tr_recv tr into", OF a], unfold prod.case, rule wlp_upd, unfold Let_def)
      show "wlp (case answer of Recv_Bytes count \<Rightarrow>
            if count = 0 then io_bind (world_call clock) (\<lambda>now.
              if elapsed_ms now (word_of_nat t0) \<ge> RECV_POLLING_TIMEOUT_MS then io_fail (Body_Bytes whole)
              else io_return (remaining, whole, word_of_nat t0))
            else io_bind (world_call clock) (\<lambda>now.
              io_return (remaining - min count remaining, whole + min count remaining, now))
          | Recv_Nothing \<Rightarrow> io_bind (world_call clock) (\<lambda>now.
              if elapsed_ms now (word_of_nat t0) \<ge> RECV_POLLING_TIMEOUT_MS then io_fail (Body_Bytes whole)
              else io_return (remaining, whole, word_of_nat t0))
          | Recv_Failed \<Rightarrow> io_bind (upd transport_failed) (\<lambda>_. io_fail Body_Failed))
        ?Q (receive_into whole into given c, w1)"
      proof (cases answer)
        case (Recv_Bytes n)
        show ?thesis
          unfolding Recv_Bytes recv.case
          by (cases "n = 0") (simp_all only: if_True if_False silent some not_False_eq_True simp_thms)
      next
        case Recv_Nothing
        then show ?thesis by (simp only: recv.case silent)
      next
        case Recv_Failed
        then show ?thesis by (simp add: wlp_simps)
      qed
    qed
  qed
qed

lemma recv_exact_returns:
  assumes runs: "clock_runs tr clock time patience"
  shows "returns (recv_exact tr clock wanted) s"
proof -
  obtain c w where s: "s = (c, w)" by (cases s)
  obtain w1 t where t: "clock w = (w1, t)" by (cases "clock w")
  have start: "t = word_of_nat (time w1)" using clock_runsD(1) [OF runs t] by blast
  let ?R = "measures [\<lambda>((remaining :: nat, _ :: nat, _), _). remaining,
      \<lambda>((_, _, last), s). 9 - unat (elapsed_ms (word_of_nat (time (snd s))) last),
      \<lambda>(_, s :: mqtt_context \<times> 'a). patience (snd s)]"
  let ?I = "\<lambda>(remaining :: nat, whole :: nat, last :: u32) s. \<exists>t0. last = word_of_nat t0 \<and> t0 \<le> time (snd s) \<and> time (snd s) - t0 \<le> 9"
  have "returns (rounds (recv_exact_turn tr clock wanted) (wanted, 0, t)) (c, w1)"
  proof (rule returns_rounds [where R = ?R and I = ?I])
    show "wf ?R" by (rule wf_measures)
    show "?I (wanted, 0, t) (c, w1)" unfolding start prod.case by (rule exI [of _ "time w1"]) simp
    fix x s
    assume i: "?I x (s :: mqtt_context \<times> 'a)"
    obtain remaining whole last where x: "x = (remaining, whole, last)" by (cases x)
    from i obtain t0 where t0: "last = word_of_nat t0" "t0 \<le> time (snd s)" "time (snd s) - t0 \<le> 9"
      unfolding x by auto
    have next_ok: "?I y s' \<and> ((y, s'), x, s) \<in> ?R"
      if y: "case y of (remaining', whole', last') \<Rightarrow>
       (remaining' < remaining \<and> last' = word_of_nat (time (snd s'))) \<or>
       (remaining' = remaining \<and> last' = word_of_nat t0 \<and> ticks 8 time patience (snd s) (snd s') \<and>
        unat (elapsed_ms (word_of_nat (time (snd s'))) (word_of_nat t0)) \<le> 9)" for y s'
    proof -
      obtain remaining' whole' last' where ys: "y = (remaining', whole', last')" by (cases y)
      from y [unfolded ys prod.case] show ?thesis
      proof
        assume "remaining' < remaining \<and> last' = word_of_nat (time (snd s'))"
        then show ?thesis unfolding ys x by auto
      next
        assume q: "remaining' = remaining \<and> last' = word_of_nat t0 \<and> ticks 8 time patience (snd s) (snd s') \<and>
          unat (elapsed_ms (word_of_nat (time (snd s'))) (word_of_nat t0)) \<le> 9"
        then have le: "time (snd s) \<le> time (snd s')" "time (snd s') \<le> time (snd s) + 8 * 2 ^ 28"
          "time (snd s) = time (snd s') \<Longrightarrow> patience (snd s') < patience (snd s)"
          by (auto simp: ticks_def)
        have e: "unat (elapsed_ms (word_of_nat (time (snd s'))) (word_of_nat t0)) = time (snd s') - t0"
          "unat (elapsed_ms (word_of_nat (time (snd s))) (word_of_nat t0)) = time (snd s) - t0"
          using le t0 by (simp_all add: elapsed_true)
        then have "time (snd s') - t0 \<le> 9" using q by simp
        then show ?thesis
          unfolding ys x using q le t0 e by (cases "time (snd s) = time (snd s')") auto
      qed
    qed
    have post: "wlp (recv_exact_turn tr clock wanted x) (\<lambda>s' r. case r of Inl _ \<Rightarrow> True
      | Inr y \<Rightarrow> (case y of (remaining', whole', last') \<Rightarrow>
       (remaining' < remaining \<and> last' = word_of_nat (time (snd s'))) \<or>
       (remaining' = remaining \<and> last' = word_of_nat t0 \<and> ticks 8 time patience (snd s) (snd s') \<and>
        unat (elapsed_ms (word_of_nat (time (snd s'))) (word_of_nat t0)) \<le> 9))) s"
      unfolding x t0(1) by (rule recv_exact_turn_ticks [OF runs])
    show "returns (recv_exact_turn tr clock wanted x) s \<and>
      wlp (recv_exact_turn tr clock wanted x) (\<lambda>s' r. case r of Inl a \<Rightarrow> True
        | Inr y \<Rightarrow> ?I y s' \<and> ((y, s'), x, s) \<in> ?R) s"
    proof (rule conjI [OF recv_exact_turn_returns], rule wlp_conseq [OF post], goal_cases)
      case (1 s' r)
      then show ?case by (cases r) (simp_all only: sum.case, rule next_ok)
    qed
  qed
  then show ?thesis by (simp add: recv_exact_def s returns_simps wlp_simps t)
qed

section \<open>What reading does\<close>

text \<open>A transport that delivers a stream, of which \<open>queued w\<close> has arrived and was not read: it
  puts the next bytes at the front of the buffer it is given. And a transport for which to
  receive is not to send: \<open>wire\<close> stays as it is.\<close>

definition streams :: "'w transport \<Rightarrow> 'w clock \<Rightarrow> ('w \<Rightarrow> bytes) \<Rightarrow> bool" where
  "streams tr clock queued \<longleftrightarrow> (\<forall>w. queued (fst (clock w)) = queued w) \<and>
     (\<forall>into w. case tr_recv tr into w of (w', given, answer) \<Rightarrow>
        (case answer of
           Recv_Bytes n \<Rightarrow> n \<le> length into \<and> n \<le> length (queued w) \<and>
             given = take n (queued w) @ drop n into \<and> queued w' = drop n (queued w)
         | Recv_Nothing \<Rightarrow> given = into \<and> queued w' = queued w
         | Recv_Failed \<Rightarrow> True))"

definition quiet :: "'w transport \<Rightarrow> 'w clock \<Rightarrow> ('w \<Rightarrow> 'v) \<Rightarrow> bool" where
  "quiet tr clock wire \<longleftrightarrow> (\<forall>w. wire (fst (clock w)) = wire w) \<and>
     (\<forall>into w. wire (fst (tr_recv tr into w)) = wire w) \<and> (\<forall>w. wire (fst (tr_recv_one tr w)) = wire w)"

lemma streamsD:
  assumes "streams tr clock queued"
  shows "clock w = (w', t) \<Longrightarrow> queued w' = queued w"
    and "tr_recv tr into w = (w', given, answer) \<Longrightarrow> (case answer of
           Recv_Bytes n \<Rightarrow> n \<le> length into \<and> n \<le> length (queued w) \<and>
             given = take n (queued w) @ drop n into \<and> queued w' = drop n (queued w)
         | Recv_Nothing \<Rightarrow> given = into \<and> queued w' = queued w
         | Recv_Failed \<Rightarrow> True)"
proof -
  show "clock w = (w', t) \<Longrightarrow> queued w' = queued w"
    using assms unfolding streams_def by (metis fst_conv)
  show "tr_recv tr into w = (w', given, answer) \<Longrightarrow> (case answer of
           Recv_Bytes n \<Rightarrow> n \<le> length into \<and> n \<le> length (queued w) \<and>
             given = take n (queued w) @ drop n into \<and> queued w' = drop n (queued w)
         | Recv_Nothing \<Rightarrow> given = into \<and> queued w' = queued w
         | Recv_Failed \<Rightarrow> True)"
    using conjunct2 [OF assms [unfolded streams_def], rule_format, of into w] by simp
qed

lemma quietD:
  assumes "quiet tr clock wire"
  shows "clock w = (w', t) \<Longrightarrow> wire w' = wire w"
    and "tr_recv tr into w = (w', a) \<Longrightarrow> wire w' = wire w"
    and "tr_recv_one tr w = (w', b) \<Longrightarrow> wire w' = wire w"
  using assms unfolding quiet_def by (metis fst_conv)+

text \<open>While \<open>whole\<close> bytes are in, and when it is over.\<close>

definition recv_going :: "'w transport \<Rightarrow> 'w clock \<Rightarrow> ('w \<Rightarrow> bytes) \<Rightarrow> ('w \<Rightarrow> bytes) \<Rightarrow> nat \<Rightarrow>
    mqtt_context \<times> 'w \<Rightarrow> nat \<Rightarrow> mqtt_context \<times> 'w \<Rightarrow> bool" where
  "recv_going tr clock queued wire wanted s whole s' \<longleftrightarrow> whole \<le> wanted \<and> whole \<le> length (mc_network (fst s)) \<and>
     (\<exists>net. length net = length (mc_network (fst s)) \<and> fst s' = (fst s)\<lparr>mc_network := net\<rparr> \<and>
       (streams tr clock queued \<longrightarrow> whole \<le> length (queued (snd s)) \<and>
          net = take whole (queued (snd s)) @ drop whole (mc_network (fst s)) \<and>
          queued (snd s') = drop whole (queued (snd s)))) \<and>
     (quiet tr clock wire \<longrightarrow> wire (snd s') = wire (snd s))"

definition recv_post :: "'w transport \<Rightarrow> 'w clock \<Rightarrow> ('w \<Rightarrow> bytes) \<Rightarrow> ('w \<Rightarrow> bytes) \<Rightarrow> nat \<Rightarrow>
    mqtt_context \<times> 'w \<Rightarrow> mqtt_context \<times> 'w \<Rightarrow> body_read \<Rightarrow> bool" where
  "recv_post tr clock queued wire wanted s s' out \<longleftrightarrow> (case out of
      Body_Bytes n \<Rightarrow> recv_going tr clock queued wire wanted s n s'
    | Body_Failed \<Rightarrow> (\<exists>net. length net = length (mc_network (fst s)) \<and>
        (fst s' = (fst s)\<lparr>mc_network := net\<rparr> \<or> fst s' = transport_failed ((fst s)\<lparr>mc_network := net\<rparr>))) \<and>
        (quiet tr clock wire \<longrightarrow> wire (snd s') = wire (snd s)))"

lemma take_then_drop: "a \<le> b \<Longrightarrow> take (b - a) (drop a xs) @ drop b xs = drop a xs"
  using append_take_drop_id [of "b - a" "drop a xs"] by simp

lemma recv_going_read:
  assumes going: "recv_going tr clock queued wire wanted s whole (c, w)"
    and into: "slice (mc_network c) whole wanted = Some into"
    and a: "tr_recv tr into w = (w1, given, answer)"
  shows "\<And>n. answer = Recv_Bytes n \<Longrightarrow>
      recv_going tr clock queued wire wanted s (whole + min n (wanted - whole)) (receive_into whole into given c, w1)"
    and "answer = Recv_Nothing \<Longrightarrow>
      recv_going tr clock queued wire wanted s whole (receive_into whole into given c, w1)"
    and "recv_post tr clock queued wire wanted s (transport_failed (receive_into whole into given c), w1) Body_Failed"
proof -
  obtain net where net: "length net = length (mc_network (fst s))" "c = (fst s)\<lparr>mc_network := net\<rparr>"
    "streams tr clock queued \<Longrightarrow> whole \<le> length (queued (snd s)) \<and>
          net = take whole (queued (snd s)) @ drop whole (mc_network (fst s)) \<and>
          queued w = drop whole (queued (snd s))"
    "quiet tr clock wire \<Longrightarrow> wire w = wire (snd s)" and whole: "whole \<le> wanted"
    using going unfolding recv_going_def by auto
  from into have l: "wanted \<le> length net" "length into = wanted - whole" "into = take (wanted - whole) (drop whole net)"
    by (auto simp: slice_def net(2) split: if_splits)
  define net' where "net' = (if length given = length into then splice net whole given else net)"
  have c': "receive_into whole into given c = (fst s)\<lparr>mc_network := net'\<rparr>"
    by (simp add: receive_into_def net(2) net'_def)
  have len: "length net' = length (mc_network (fst s))"
    using l whole net(1) by (auto simp: net'_def splice_def)
  have wire: "quiet tr clock wire \<Longrightarrow> wire w1 = wire (snd s)"
    using quietD(2) [OF _ a] net(4) by metis
  show "recv_post tr clock queued wire wanted s (transport_failed (receive_into whole into given c), w1) Body_Failed"
    unfolding recv_post_def c' using len wire by auto
  have keep: "net' = net" if "given = into"
    using that l whole take_then_drop [of whole wanted net] by (simp add: net'_def splice_def)
  show "recv_going tr clock queued wire wanted s whole (receive_into whole into given c, w1)" if "answer = Recv_Nothing"
  proof -
    have "whole \<le> length (queued (snd s)) \<and> net' = take whole (queued (snd s)) @ drop whole (mc_network (fst s)) \<and>
        queued w1 = drop whole (queued (snd s))" if "streams tr clock queued"
      using net(3) [OF that] keep streamsD(2) [OF that a] \<open>answer = Recv_Nothing\<close> by auto
    then show ?thesis
      unfolding recv_going_def c' fst_conv snd_conv using len wire l net(1) whole by auto
  qed
  show "recv_going tr clock queued wire wanted s (whole + min n (wanted - whole)) (receive_into whole into given c, w1)"
    if n: "answer = Recv_Bytes n" for n
  proof -
    have "whole + min n (wanted - whole) \<le> length (queued (snd s)) \<and>
        net' = take (whole + min n (wanted - whole)) (queued (snd s)) @
          drop (whole + min n (wanted - whole)) (mc_network (fst s)) \<and>
        queued w1 = drop (whole + min n (wanted - whole)) (queued (snd s))"
      if st: "streams tr clock queued"
    proof -
      let ?q = "queued (snd s)"
      note q = net(3) [OF st]
      from streamsD(2) [OF st a] n have r: "n \<le> wanted - whole" "n \<le> length (drop whole ?q)"
        "given = take n (drop whole ?q) @ drop n into" "queued w1 = drop n (drop whole ?q)"
        using l q by auto
      have g: "length given = length into" using r l by simp
      have "net' = take whole net @ given @ drop wanted net"
        using g l whole by (simp add: net'_def splice_def)
      also have "take whole net = take whole ?q" using q by simp
      also have "given @ drop wanted net = take n (drop whole ?q) @ drop (whole + n) net"
        using r(1,3) l whole
        using take_then_drop [of "whole + n" wanted net] by (simp add: drop_take add.commute)
      also have "drop (whole + n) net = drop (whole + n) (mc_network (fst s))"
        using q net(1) l whole by (simp add: add.commute)
      finally have "net' = take (whole + n) ?q @ drop (whole + n) (mc_network (fst s))" by (simp add: take_add)
      moreover have "whole + n \<le> length ?q" using r(2) conjunct1 [OF q] by simp
      moreover have "queued w1 = drop (whole + n) ?q" using r(4) by (simp add: add.commute)
      ultimately show ?thesis using r(1) by (simp only: min_absorb1)
    qed
    then show ?thesis
      unfolding recv_going_def c' fst_conv snd_conv using len wire l net(1) whole by auto
  qed
qed

lemma recv_going_clock:
  assumes "recv_going tr clock queued wire wanted s whole (c, w)" "clock w = (w', t)"
  shows "recv_going tr clock queued wire wanted s whole (c, w')"
  using assms streamsD(1) [of tr clock queued w w' t] quietD(1) [of tr clock wire w w' t]
  unfolding recv_going_def by auto

lemma recv_exact_wlp:
  "wlp (recv_exact tr clock wanted) (\<lambda>s' r. \<exists>out. r = Inr out \<and> recv_post tr clock queued wire wanted s s' out) s"
proof -
  obtain c w where s: "s = (c, w)" by (cases s)
  obtain w0 t where t: "clock w = (w0, t)" by (cases "clock w")
  let ?I = "\<lambda>(remaining, whole, last :: u32) s'. remaining = wanted - whole \<and>
      recv_going tr clock queued wire wanted s whole s'"
  let ?Q = "\<lambda>s' r. \<exists>out. r = Inr out \<and> recv_post tr clock queued wire wanted s s' out"
  have turn: "wlp (recv_exact_turn tr clock wanted x) (\<lambda>s' r. case r of
      Inl a \<Rightarrow> recv_post tr clock queued wire wanted s s' a | Inr x' \<Rightarrow> ?I x' s') s1" if i: "?I x s1" for x s1
  proof -
    obtain remaining whole last where x: "x = (remaining, whole, last)" by (cases x)
    obtain c1 w1 where s1: "s1 = (c1, w1)" by (cases s1)
    from i have going: "recv_going tr clock queued wire wanted s whole (c1, w1)" and rem: "remaining = wanted - whole"
      unfolding x s1 by auto
    have le: "whole \<le> wanted" using going by (simp add: recv_going_def)
    have over: "recv_post tr clock queued wire wanted s s2 (Body_Bytes whole)"
      if "recv_going tr clock queued wire wanted s whole s2" for s2
      using that by (simp add: recv_post_def)
    let ?T = "\<lambda>s' r. case r of Inl a \<Rightarrow> recv_post tr clock queued wire wanted s s' a | Inr x' \<Rightarrow> ?I x' s'"
    show ?thesis
    proof (cases "remaining = 0")
      case True
      then show ?thesis using over [OF going] by (simp add: recv_exact_turn_def x s1 wlp_basic)
    next
      case False
      show ?thesis
      proof (cases "slice (mc_network c1) whole wanted")
        case None
        have "recv_post tr clock queued wire wanted s (c1, w1) Body_Failed"
          using going unfolding recv_post_def recv_going_def by auto
        then show ?thesis using None False by (simp add: recv_exact_turn_def x s1 wlp_simps)
      next
        case (Some into)
        obtain w2 given answer where a: "tr_recv tr into w1 = (w2, given, answer)"
          by (cases "tr_recv tr into w1") auto
        note read = recv_going_read [OF going Some a]
        have silent: "wlp (io_bind (world_call clock) (\<lambda>now.
            if elapsed_ms now last \<ge> RECV_POLLING_TIMEOUT_MS then io_fail (Body_Bytes whole)
            else io_return (remaining, whole, last))) ?T (receive_into whole into given c1, w2)"
          if g: "recv_going tr clock queued wire wanted s whole (receive_into whole into given c1, w2)"
        proof -
          obtain w3 t where t: "clock w2 = (w3, t)" by (cases "clock w2")
          show ?thesis using recv_going_clock [OF g t] over rem by (simp add: wlp_simps t)
        qed
        have some: "wlp (io_bind (world_call clock) (\<lambda>now.
            io_return (remaining - min n remaining, whole + min n remaining, now))) ?T
          (receive_into whole into given c1, w2)" if n: "answer = Recv_Bytes n" for n
        proof -
          obtain w3 t where t: "clock w2 = (w3, t)" by (cases "clock w2")
          show ?thesis using recv_going_clock [OF read(1) [OF n] t] rem by (simp add: wlp_simps t)
        qed
        show ?thesis
          unfolding recv_exact_turn_def x s1 prod.case if_not_P [OF False]
        proof (rule wlp_ctx, unfold Some option.case,
            rule wlp_world_call [where f = "tr_recv tr into", OF a], unfold prod.case, rule wlp_upd,
            unfold Let_def)
          show "wlp (case answer of Recv_Bytes count \<Rightarrow>
                if count = 0 then io_bind (world_call clock) (\<lambda>now.
                  if elapsed_ms now last \<ge> RECV_POLLING_TIMEOUT_MS then io_fail (Body_Bytes whole)
                  else io_return (remaining, whole, last))
                else io_bind (world_call clock) (\<lambda>now.
                  io_return (remaining - min count remaining, whole + min count remaining, now))
              | Recv_Nothing \<Rightarrow> io_bind (world_call clock) (\<lambda>now.
                  if elapsed_ms now last \<ge> RECV_POLLING_TIMEOUT_MS then io_fail (Body_Bytes whole)
                  else io_return (remaining, whole, last))
              | Recv_Failed \<Rightarrow> io_bind (upd transport_failed) (\<lambda>_. io_fail Body_Failed))
            ?T (receive_into whole into given c1, w2)"
          proof (cases answer)
            case (Recv_Bytes n)
            have same: "recv_going tr clock queued wire wanted s whole (receive_into whole into given c1, w2)" if "n = 0"
              using read(1) [OF Recv_Bytes] that by simp
            show ?thesis
              unfolding Recv_Bytes recv.case
            proof (cases "n = 0")
              case True
              show "wlp (if n = 0 then io_bind (world_call clock) (\<lambda>now.
                  if elapsed_ms now last \<ge> RECV_POLLING_TIMEOUT_MS then io_fail (Body_Bytes whole)
                  else io_return (remaining, whole, last))
                else io_bind (world_call clock) (\<lambda>now.
                  io_return (remaining - min n remaining, whole + min n remaining, now)))
                ?T (receive_into whole into given c1, w2)"
                unfolding if_P [OF True] by (rule silent [OF same [OF True]])
            next
              case False
              show "wlp (if n = 0 then io_bind (world_call clock) (\<lambda>now.
                  if elapsed_ms now last \<ge> RECV_POLLING_TIMEOUT_MS then io_fail (Body_Bytes whole)
                  else io_return (remaining, whole, last))
                else io_bind (world_call clock) (\<lambda>now.
                  io_return (remaining - min n remaining, whole + min n remaining, now)))
                ?T (receive_into whole into given c1, w2)"
                unfolding if_not_P [OF False] by (rule some [OF Recv_Bytes])
            qed
          next
            case Recv_Nothing
            show ?thesis unfolding Recv_Nothing recv.case by (rule silent [OF read(2) [OF Recv_Nothing]])
          next
            case Recv_Failed
            show ?thesis unfolding Recv_Failed recv.case using read(3) by (simp add: wlp_simps)
          qed
        qed
      qed
    qed
  qed
  have start: "?I (wanted, 0, t) (c, w0)"
  proof -
    have "fst s = (fst s)\<lparr>mc_network := mc_network (fst s)\<rparr>" by simp
    then show ?thesis
      using streamsD(1) [of tr clock queued w w0 t] quietD(1) [of tr clock wire w w0 t] t
      unfolding recv_going_def s by auto
  qed
  have "wlp (rounds (recv_exact_turn tr clock wanted) (wanted, 0, t)) ?Q (c, w0)"
  proof (rule wlp_rounds [where I = ?I])
    fix x s1
    assume "?I x s1"
    from turn [OF this] show "wlp (recv_exact_turn tr clock wanted x) (\<lambda>s' r. case r of
        Inl a \<Rightarrow> ?Q s' (Inr a) | Inr x' \<Rightarrow> ?I x' s') s1"
      by (rule wlp_conseq) (auto split: sum.splits)
  qed (rule start)
  then show ?thesis
    unfolding recv_exact_def s by (rule wlp_world_call [where f = clock, OF t])
qed

section \<open>The vectors of a CONNECT\<close>

definition connect_packet :: "connect \<Rightarrow> bytes" where
  "connect_packet cn = CONNECT # vl_encode (length (connect_body cn)) @ connect_body cn"

text \<open>At most \<open>k\<close> vectors, which hold \<open>bs\<close>, and the count of its bytes.\<close>

definition pushed :: "nat \<Rightarrow> bytes \<Rightarrow> bytes list \<times> nat \<Rightarrow> bool" where
  "pushed k bs v \<longleftrightarrow> length (fst v) \<le> k \<and> concat (fst v) = bs \<and> snd v = length bs"

lemma pushed_slot: "pushed k bs v \<Longrightarrow> k < 15 \<Longrightarrow> pushed (Suc k) (bs @ part) (push_slot part v)"
  by (cases v) (auto simp: pushed_def push_slot_def)

lemma pushed_mono: "pushed k bs v \<Longrightarrow> k \<le> l \<Longrightarrow> pushed l bs v"
  by (simp add: pushed_def)

lemma pushed_string:
  assumes "pushed k bs v" "k < 14" "length bs + 2 + length body \<le> 268435460" "length little = 2"
  shows "\<exists>v'. push_string v little body = Inr v' \<and> pushed (k + 2) (bs @ little @ body) v'"
proof -
  have fits: "\<not> snd v + 2 + length body > unat Context.MAX_PACKET_SIZE"
    using assms(1,3) by (simp add: pushed_def)
  have one: "pushed (Suc k) (bs @ little) (push_slot little v)"
    using pushed_slot [OF assms(1)] assms(2) by simp
  show ?thesis
  proof (cases "body = []")
    case True
    then show ?thesis
      using pushed_mono [OF one, of "k + 2"] unfolding push_string_def if_not_P [OF fits] Let_def by simp
  next
    case False
    then show ?thesis
      using pushed_slot [OF one, of body] assms(2) unfolding push_string_def if_not_P [OF fits] Let_def by simp
  qed
qed

lemma length_bytes_string: "length body < 65536 \<Longrightarrow> length_bytes body @ body = mqtt_string body"
  by (simp add: length_bytes_def try_u16_def mqtt_string_def)

lemma length_length_bytes [simp]: "length (length_bytes body) = 2"
  by (simp add: length_bytes_def)

lemma pushed_mqtt_string:
  assumes "pushed k bs v" "k < 14" "length bs + 2 + length body \<le> 268435460" "length body < 65536"
  shows "\<exists>v'. push_string v (length_bytes body) body = Inr v' \<and> pushed (k + 2) (bs @ mqtt_string body) v'"
  using pushed_string [OF assms(1-3), of "length_bytes body"] length_bytes_string [OF assms(4)] by simp

lemma push_payload_ok:
  assumes fits: "connect_fits cn" and v: "pushed 3 bs v"
    and will: "case cn_will cn of None \<Rightarrow> True | Some will \<Rightarrow> will_prefix = vl_encode (length (wl_properties will))"
    and front: "bs @ drop (length (property_block (cn_properties cn))) (connect_payload cn) = packet"
    and small: "length packet \<le> 268435460"
  shows "\<exists>v'. push_payload cn (length_bytes (cn_client_identifier cn)) will_prefix v = Inr v' \<and> pushed 15 packet v'"
proof -
  let ?w = "case cn_will cn of None \<Rightarrow> [] | Some w \<Rightarrow> property_block (wl_properties w) @
        mqtt_string (wl_topic_name w) @ mqtt_string (wl_payload w)"
  let ?u = "case ci_username (cn_info cn) of None \<Rightarrow> [] | Some u \<Rightarrow> mqtt_string u"
  let ?p = "case ci_password (cn_info cn) of None \<Rightarrow> [] | Some p \<Rightarrow> mqtt_string p"
  have packet: "packet = bs @ mqtt_string (cn_client_identifier cn) @ ?w @ ?u @ ?p"
    using front by (simp add: connect_payload_def)
  then have len: "length packet = length bs + (length (cn_client_identifier cn) + 2) + length ?w + length ?u + length ?p"
    by simp
  obtain v1 where v1: "push_string v (length_bytes (cn_client_identifier cn)) (cn_client_identifier cn) = Inr v1"
    "pushed 5 (bs @ mqtt_string (cn_client_identifier cn)) v1"
    using pushed_mqtt_string [OF v, of "cn_client_identifier cn"] fits len small by (auto simp: connect_fits_def)
  let ?b1 = "bs @ mqtt_string (cn_client_identifier cn)"
  have "\<exists>v2. (case cn_will cn of
         None \<Rightarrow> Inr v1
       | Some will \<Rightarrow>
           let vectors = push_slot will_prefix v1;
               vectors = (if wl_properties will \<noteq> [] then push_slot (wl_properties will) vectors
                          else vectors)
           in rbind (push_string vectors (length_bytes (wl_topic_name will)) (wl_topic_name will)) (\<lambda>vectors.
              push_string vectors (length_bytes (wl_payload will)) (wl_payload will))) = Inr v2 \<and>
      pushed 11 (?b1 @ ?w) v2"
  proof (cases "cn_will cn")
    case None
    then show ?thesis using pushed_mono [OF v1(2), of 11] by simp
  next
    case (Some will)
    have lens: "length (wl_topic_name will) < 65536" "length (wl_payload will) < 65536"
      using fits by (simp_all add: connect_fits_def Some)
    define b2 where "b2 = ?b1 @ property_block (wl_properties will)"
    define va where "va = (if wl_properties will \<noteq> [] then push_slot (wl_properties will) (push_slot will_prefix v1)
        else push_slot will_prefix v1)"
    have six: "pushed 6 (?b1 @ will_prefix) (push_slot will_prefix v1)"
      using pushed_slot [OF v1(2)] by simp
    have va: "pushed 7 b2 va"
    proof (cases "wl_properties will = []")
      case True
      then show ?thesis using pushed_mono [OF six, of 7] will
        by (simp add: va_def b2_def Some property_block_def)
    next
      case False
      then show ?thesis using pushed_slot [OF six, of "wl_properties will"] will
        by (simp add: va_def b2_def Some property_block_def)
    qed
    have sum: "length b2 + (length (wl_topic_name will) + 2) + (length (wl_payload will) + 2) \<le> length packet"
      using len by (simp add: b2_def Some)
    obtain vb where vb: "push_string va (length_bytes (wl_topic_name will)) (wl_topic_name will) = Inr vb"
      "pushed 9 (b2 @ mqtt_string (wl_topic_name will)) vb"
      using pushed_mqtt_string [OF va, of "wl_topic_name will"] lens sum small by auto
    obtain vc where vc: "push_string vb (length_bytes (wl_payload will)) (wl_payload will) = Inr vc"
      "pushed 11 ((b2 @ mqtt_string (wl_topic_name will)) @ mqtt_string (wl_payload will)) vc"
      using pushed_mqtt_string [OF vb(2), of "wl_payload will"] lens sum small by auto
    then show ?thesis
      unfolding Some option.case Let_def va_def [symmetric] vb(1) by (simp add: b2_def)
  qed
  then obtain v2 where v2: "(case cn_will cn of
         None \<Rightarrow> Inr v1
       | Some will \<Rightarrow>
           let vectors = push_slot will_prefix v1;
               vectors = (if wl_properties will \<noteq> [] then push_slot (wl_properties will) vectors
                          else vectors)
           in rbind (push_string vectors (length_bytes (wl_topic_name will)) (wl_topic_name will)) (\<lambda>vectors.
              push_string vectors (length_bytes (wl_payload will)) (wl_payload will))) = Inr v2"
      "pushed 11 (?b1 @ ?w) v2" by blast
  have more: "\<exists>v'. (case x of None \<Rightarrow> Inr v | Some s \<Rightarrow> push_string v (length_bytes s) s) = Inr v' \<and>
      pushed (k + 2) (b @ (case x of None \<Rightarrow> [] | Some s \<Rightarrow> mqtt_string s)) v'"
    if "pushed k b v" "k < 14" "length b + length (case x of None \<Rightarrow> [] | Some s \<Rightarrow> mqtt_string s) \<le> 268435460"
      "case x of None \<Rightarrow> True | Some s \<Rightarrow> length s < 65536" for v k b x
  proof (cases x)
    case None
    then show ?thesis using pushed_mono [OF that(1), of "k + 2"] by simp
  next
    case (Some s)
    then show ?thesis using pushed_mqtt_string [OF that(1,2), of s] that(3,4) by simp
  qed
  obtain v3 where v3: "(case ci_username (cn_info cn) of None \<Rightarrow> Inr v2
       | Some s \<Rightarrow> push_string v2 (length_bytes s) s) = Inr v3" "pushed 13 ((?b1 @ ?w) @ ?u) v3"
    using more [OF v2(2), of "ci_username (cn_info cn)"] fits len small
    by (auto simp: connect_fits_def)
  obtain v4 where v4: "(case ci_password (cn_info cn) of None \<Rightarrow> Inr v3
       | Some s \<Rightarrow> push_string v3 (length_bytes s) s) = Inr v4" "pushed 15 (((?b1 @ ?w) @ ?u) @ ?p) v4"
    using more [OF v3(2), of "ci_password (cn_info cn)"] fits len small
    by (auto simp: connect_fits_def)
  have "push_payload cn (length_bytes (cn_client_identifier cn)) will_prefix v = Inr v4"
    unfolding push_payload_def v1(1) rbind_simps v2(1) v3(1) v4(1) ..
  moreover have "pushed 15 packet v4" using v4(2) unfolding packet by simp
  ultimately show ?thesis by blast
qed

text \<open>What a CONNECT makes of the context before it is sent.\<close>

definition connect_learns :: "connect \<Rightarrow> mqtt_context \<Rightarrow> mqtt_context \<times> (client_error + unit)" where
  "connect_learns cn c =
     (if cn_properties cn = [] then (set_server_keep_alive (ci_keep_alive_seconds (cn_info cn)) c, Inr ())
      else learn_connect_props (cn_properties cn) (set_server_keep_alive (ci_keep_alive_seconds (cn_info cn)) c))"

definition send_connect_post :: "'w transport \<Rightarrow> 'w clock \<Rightarrow> ('w \<Rightarrow> bytes) \<Rightarrow> connect \<Rightarrow>
    mqtt_context \<times> 'w \<Rightarrow> mqtt_context \<times> 'w \<Rightarrow> client_error + unit \<Rightarrow> bool" where
  "send_connect_post tr clock wire cn s s' r \<longleftrightarrow> (case connect_learns cn (fst s) of
      (c1, Inl e) \<Rightarrow> r = Inl e \<and> s' = (c1, snd s)
    | (c1, Inr _) \<Rightarrow> all_post tr clock wire (connect_packet cn) (c1, snd s) s' r)"

lemma connect_sized:
  assumes "connect_packet_size cn = Inr sz"
  shows "connect_fits cn" "length (connect_body cn) < 268435456"
    "unat (cz_remaining_length sz) = length (connect_body cn)" "length (connect_packet cn) \<le> 268435460"
proof -
  from assms show "connect_fits cn" and small: "length (connect_body cn) < 268435456"
    by (simp_all only: connect_packet_size_ok)
  from assms have "cz_remaining_length sz = word_of_nat (length (connect_body cn))"
    by (simp only: connect_packet_size_ok)
  then show "unat (cz_remaining_length sz) = length (connect_body cn)"
    using small by (simp add: unat_u32_of_nat)
  show "length (connect_packet cn) \<le> 268435460"
    using length_vl_encode_le_4 [OF small] small by (simp add: connect_packet_def)
qed

lemma send_connect_wlp:
  assumes sz: "connect_packet_size cn = Inr sz"
  shows "wlp (send_connect tr clock cn (cz_remaining_length sz)) (send_connect_post tr clock wire cn s) s"
proof -
  obtain c w where s: "s = (c, w)" by (cases s)
  note fits = connect_sized [OF sz]
  let ?rl = "cz_remaining_length sz" and ?props = "cn_properties cn"
  define head where "head = CONNECT # vl_encode (length (connect_body cn)) @ [0, 4, 0x4D, 0x51, 0x54, 0x54, VERSION_5,
       connect_flags (cn_info cn) (map_option wl_info (cn_will cn))] @ be16 (ci_keep_alive_seconds (cn_info cn))"
  have head15: "length head \<le> 15" using length_vl_encode_le_4 [OF fits(2)] by (simp add: head_def)
  have fixed: "serialize_connect_fixed_header (replicate 15 0) (cn_info cn) (map_option wl_info (cn_will cn)) ?rl =
      (written (replicate 15 0) head, length head)"
  proof -
    have "?rl \<le> MAX_REMAINING_LENGTH" using fits(2,3) by (simp add: word_le_nat_alt)
    from serialize_connect_fixed_header_eq [OF this, of "replicate 15 0" "cn_info cn" "map_option wl_info (cn_will cn)"]
    show ?thesis using head15 unfolding fits(3) head_def [symmetric] Let_def length_replicate
      by (simp only: if_not_P not_less)
  qed
  have ne: "\<not> length head = 0" by (simp add: head_def)
  have p28: "length ?props < 268435456" using fits(1) by (simp add: connect_fits_def)
  define will_length where "will_length = (case cn_will cn of None \<Rightarrow> 0 | Some w \<Rightarrow> length (wl_properties w))"
  have w28: "will_length < 268435456"
    using fits(1) by (simp add: connect_fits_def will_length_def split: option.splits)
  have wl: "(case cn_will cn of None \<Rightarrow> 0 | Some will \<Rightarrow>
            (case try_u32 (length (wl_properties will)) of None \<Rightarrow> 0 | Some n \<Rightarrow> n)) = word_of_nat will_length"
    using fits(1) by (simp add: connect_fits_def will_length_def try_u32_def split: option.splits)
  have pl: "try_u32 (length ?props) = Some (word_of_nat (length ?props))"
    using p28 by (simp add: try_u32_def)
  have vl: "encode_variable_length (replicate 4 0) (word_of_nat n) =
      (written (replicate 4 0) (vl_encode n), length (vl_encode n))"
    "slice (written (replicate 4 0) (vl_encode n)) 0 (length (vl_encode n)) = Some (vl_encode n)"
    if "n < 268435456" for n
    using that length_vl_encode_le_4 [OF that] slice_written [of "vl_encode n" "replicate 4 0"]
    by (simp_all add: encode_variable_length_eq unat_u32_of_nat written_def splice_0 not_less)
  have hd: "slice (written (replicate 15 0) head) 0 (length head) = Some head"
    using slice_written [of head "replicate 15 0"] head15 by simp
  obtain cl where cl: "try_u16 (length (cn_client_identifier cn)) = Some cl"
    "be16 cl = length_bytes (cn_client_identifier cn)"
    using fits(1) by (simp add: connect_fits_def length_bytes_def try_u16_def)
  define start where "start = push_slot (vl_encode (length ?props)) (push_slot head ([], 0))"
  have start: "pushed 2 (head @ vl_encode (length ?props)) start"
    using pushed_slot [of 1 head "push_slot head ([], 0)" "vl_encode (length ?props)"]
      pushed_slot [of 0 "[]" "([], 0)" head] by (simp add: start_def pushed_def numeral_2_eq_2)
  have wp: "case cn_will cn of None \<Rightarrow> True
      | Some will \<Rightarrow> vl_encode will_length = vl_encode (length (wl_properties will))"
    by (simp add: will_length_def split: option.split)
  have packet: "(head @ property_block ?props) @ drop (length (property_block ?props)) (connect_payload cn) =
      connect_packet cn"
    by (simp add: head_def connect_packet_def connect_body_def connect_payload_def)
  have sent: "wlp (io_bind (io_lift (push_payload cn (be16 cl) (vl_encode will_length) v))
        (\<lambda>(parts, whole). all_of whole (send_vectors tr clock parts)))
      (all_post tr clock wire (connect_packet cn) (c1, w)) (c1, w)"
    if p3: "pushed 3 (head @ property_block ?props) v" for v c1
  proof -
    obtain v' where v': "push_payload cn (be16 cl) (vl_encode will_length) v = Inr v'" "pushed 15 (connect_packet cn) v'"
      using push_payload_ok [OF fits(1) p3 wp packet fits(4)] unfolding cl(2) by blast
    obtain parts whole where p: "v' = (parts, whole)" by (cases v')
    have pw: "concat parts = connect_packet cn" "whole = length (connect_packet cn)"
      using v'(2) by (simp_all add: p pushed_def)
    show ?thesis
      unfolding v'(1) p wlp_bind wlp_basic sum.case prod.case
      using all_of_vectors [of whole parts tr clock wire "(c1, w)"] pw by simp
  qed
  have tail: "wlp (io_bind (if ?props = [] then io_return start
           else io_bind (upd_try (learn_connect_props ?props)) (\<lambda>_. io_return (push_slot ?props start)))
         (\<lambda>vectors. io_bind (io_lift (push_payload cn (be16 cl) (vl_encode will_length) vectors))
           (\<lambda>(parts, whole). all_of whole (send_vectors tr clock parts))))
       (send_connect_post tr clock wire cn (c, w)) (set_server_keep_alive (ci_keep_alive_seconds (cn_info cn)) c, w)"
  proof (cases "?props = []")
    case True
    have p3: "pushed 3 (head @ property_block ?props) start"
      using pushed_mono [OF start, of 3] by (simp add: property_block_def True)
    have post: "send_connect_post tr clock wire cn (c, w) =
        all_post tr clock wire (connect_packet cn) (set_server_keep_alive (ci_keep_alive_seconds (cn_info cn)) c, w)"
      by (simp add: send_connect_post_def connect_learns_def True fun_eq_iff)
    show ?thesis
      unfolding if_P [OF True] wlp_bind [of "io_return _"] wlp_basic sum.case post by (rule sent [OF p3])
  next
    case False
    have p3: "pushed 3 (head @ property_block ?props) (push_slot ?props start)"
      using pushed_slot [OF start, of ?props] by (simp add: property_block_def numeral_3_eq_3 numeral_2_eq_2)
    obtain c1 r1 where l: "learn_connect_props ?props (set_server_keep_alive (ci_keep_alive_seconds (cn_info cn)) c) = (c1, r1)"
      by fastforce
    show ?thesis
    proof (cases r1)
      case (Inl e)
      then show ?thesis
        using l False by (simp add: wlp_simps send_connect_post_def connect_learns_def)
    next
      case (Inr u)
      have post: "send_connect_post tr clock wire cn (c, w) = all_post tr clock wire (connect_packet cn) (c1, w)"
        by (simp add: send_connect_post_def connect_learns_def False l Inr fun_eq_iff)
      show ?thesis
        unfolding if_not_P [OF False] wlp_bind [of "io_bind _ _"] wlp_bind [of "upd_try _"] wlp_context l prod.case Inr
          wlp_basic sum.case post
        by (rule sent [OF p3])
    qed
  qed
  show ?thesis
    unfolding s send_connect_def fixed prod.case if_not_P [OF ne]
    by (rule wlp_upd)
      (simp only: pl wl vl [OF p28] vl [OF w28] hd cl(1) ok_or_simps prod.case Let_def
        wlp_bind [of "io_lift _"] wlp_basic sum.case tail [unfolded start_def])
qed

lemma returns_upd_try: "returns (upd_try f) s"
  by (cases s) (simp add: returns_context)

lemma send_connect_returns:
  "clock_runs tr clock time patience \<Longrightarrow> returns (send_connect tr clock cn rl) s"
  unfolding send_connect_def Let_def
  by (auto simp: all_of_returns returns_basic split: prod.split
      intro!: returns_bindI returns_world returns_upd_try send_vectors_returns)

section \<open>The wait for the CONNACK\<close>

text \<open>Reading a header calls for a byte five times at most: whatever holds of one call, and adds
  up, holds of the reading.\<close>

lemma read_length_loop_steps:
  fixes rel :: "nat \<Rightarrow> 'w \<Rightarrow> 'w \<Rightarrow> bool"
  assumes one: "\<And>w w' a. tr_recv_one tr w = (w', a) \<Longrightarrow> rel 1 w w'"
    and refl: "\<And>w. rel 0 w w" and more: "\<And>i j w w'. rel i w w' \<Longrightarrow> i \<le> j \<Longrightarrow> rel j w w'"
    and trans: "\<And>i j w w' w''. rel i w w' \<Longrightarrow> rel j w' w'' \<Longrightarrow> rel (i + j) w w''"
  shows "k \<le> 4 \<Longrightarrow> wlp (read_length_loop tr rl (word_of_nat (128 ^ k)) n) (\<lambda>w' r. rel (4 - k) w w') w"
proof (induction "4 - k" arbitrary: k rl n w)
  case 0
  then have k: "k = 4" by simp
  show ?case unfolding wlp_def by (subst read_length_loop.simps) (simp add: k refl)
next
  case (Suc j)
  then have k: "k < 4" "j = 4 - Suc k" by auto
  obtain w1 a where a: "tr_recv_one tr w = (w1, a)" by (cases "tr_recv_one tr w")
  have le: "\<not> word_of_nat (128 ^ k) > (2097152 :: u32)"
  proof -
    have small: "(128 :: nat) ^ k \<le> 2097152"
      using k(1) power_increasing [of k 3 "128 :: nat"] by simp
    then have "unat (word_of_nat (128 ^ k) :: u32) = 128 ^ k" by (intro unat_u32_of_nat) simp
    then show ?thesis unfolding word_less_nat_alt using small by simp
  qed
  have m: "sat_mul (word_of_nat (128 ^ k)) 128 = (word_of_nat (128 ^ Suc k) :: u32)"
    by (rule saturating_digit(4) [OF k(1), of 0]) simp
  have stop: "rel (4 - k) w w1" by (rule more [OF one [OF a]]) (use k(1) in simp)
  show ?case
  proof (cases a)
    case (Received_Byte b)
    have go: "wlp (read_length_loop tr rl' (word_of_nat (128 ^ Suc k)) n') (\<lambda>w' r. rel (4 - k) w w') w1" for rl' n'
    proof (rule wlp_conseq [OF Suc.hyps(1) [OF k(2)]])
      show "Suc k \<le> 4" using k(1) by simp
      show "rel (4 - k) w w'" if "rel (4 - Suc k) w1 w'" for w'
      proof -
        have "1 + (4 - Suc k) = 4 - k" using k(1) by simp
        with trans [OF one [OF a] that] show ?thesis by (simp only:)
      qed
    qed
    show ?thesis
      unfolding wlp_def
      by (subst read_length_loop.simps)
        (simp only: if_not_P [OF le] a prod.case Received_Byte received.case Let_def m,
         use stop go [unfolded wlp_def] in auto)
  qed (subst wlp_def, subst read_length_loop.simps, simp only: if_not_P [OF le] a prod.case received.case, simp add: stop)+
qed

lemma read_header_steps:
  fixes rel :: "nat \<Rightarrow> 'w \<Rightarrow> 'w \<Rightarrow> bool"
  assumes one: "\<And>w w' a. tr_recv_one tr w = (w', a) \<Longrightarrow> rel 1 w w'"
    and refl: "\<And>w. rel 0 w w" and more: "\<And>i j w w'. rel i w w' \<Longrightarrow> i \<le> j \<Longrightarrow> rel j w w'"
    and trans: "\<And>i j w w' w''. rel i w w' \<Longrightarrow> rel j w' w'' \<Longrightarrow> rel (i + j) w w''"
  shows "wlp (read_header tr) (\<lambda>w' r. rel 5 w w') w"
proof -
  have type: "wlp (read_packet_type tr) (\<lambda>w' r. rel 1 w w') w"
    using one by (auto simp: wlp_def read_packet_type_def split: prod.split received.split)
  have rest: "wlp (read_remaining_length tr) (\<lambda>w' r. rel 4 w w') w" for w
    unfolding read_remaining_length_def
    by (rule wlp_bindI [OF read_length_loop_steps [of tr rel 0, OF one refl more trans, simplified]])
      (auto simp: wlp_basic split: prod.split)
  show ?thesis
    unfolding read_header_def
  proof (rule wlp_bindI [OF type])
    fix w1 t
    assume 1: "rel 1 w w1"
    have end5: "rel 5 w w2" if "rel 4 w1 w2" for w2 using trans [OF 1 that] by simp
    have r5: "rel 5 w w1" by (rule more [OF 1]) simp
    show "wlp (if \<not> incoming_packet_valid t then io_fail Read_BadResponse
       else io_bind (read_remaining_length tr) (\<lambda>(remaining_length, bytes_decoded).
         io_return \<lparr>ih_packet_type = t, ih_remaining_length = remaining_length,
                    ih_header_length = bytes_decoded + 1\<rparr>)) (\<lambda>w' r. rel 5 w w') w1"
      by (auto simp: wlp_basic r5 end5 split: prod.split intro!: wlp_bindI [OF rest])
  next
    fix w1 and e :: read_error
    assume 1: "rel 1 w w1"
    show "rel 5 w w1" by (rule more [OF 1]) simp
  qed
qed

lemma read_header_ticks:
  assumes runs: "clock_runs tr clock time patience"
  shows "wlp (in_world (read_header tr)) (\<lambda>s' r. passes 5 time patience (snd s) (snd s') \<and> fst s' = fst s) s"
proof -
  obtain c w where s: "s = (c, w)" by (cases s)
  have "wlp (read_header tr) (\<lambda>w' r. passes 5 time patience w w') w"
    by (rule read_header_steps [where rel = "\<lambda>k. passes k time patience"])
      (auto dest: clock_runsD(5) [OF runs] intro: passes_more passes_ticks(4) simp: passes_def)
  then show ?thesis unfolding s wlp_context by simp
qed

lemma connack_header_turn_returns: "returns (connack_header_turn tr clock timeout entry n) s"
  unfolding connack_header_turn_def
  by (cases s) (auto simp: returns_basic returns_wrapped returns_context split: prod.split
      intro!: returns_bindI returns_world read_header_returns [folded returns_def])

lemma connack_wait_returns:
  assumes runs: "clock_runs tr clock time patience" and timeout: "unat timeout < 2 ^ 30"
  shows "returns (rounds (connack_header_turn tr clock timeout (word_of_nat (time (snd s)))) 0) s"
proof (cases "timeout > 0")
  case True
  show ?thesis
  proof (rule returns_clocked_rounds [where over = "\<lambda>_. False" and T = "unat timeout" and time = time
        and patience = patience and ?t0.0 = "time (snd s)"])
    fix x s1
    show "wlp (connack_header_turn tr clock timeout (word_of_nat (time (snd s))) x) (\<lambda>s' r. case r of Inl _ \<Rightarrow> True
       | Inr x' \<Rightarrow> False \<or> (ticks 8 time patience (snd s1) (snd s') \<and>
        unat (elapsed_ms (word_of_nat (time (snd s'))) (word_of_nat (time (snd s)))) \<le> unat timeout)) s1"
      unfolding connack_header_turn_def if_P [OF True] wlp_bind [of "io_try _"] wlp_try sum.case
    proof (rule wlp_conseq [OF read_header_ticks [OF runs]])
      fix s2 header
      assume p: "passes 5 time patience (snd s1) (snd s2) \<and> fst s2 = fst s1"
      obtain c2 w2 where s2: "s2 = (c2, w2)" by (cases s2)
      obtain w3 t where t: "clock w2 = (w3, t)" by (cases "clock w2")
      have "ticks (5 + 1) time patience (snd s1) w3"
        using passes_ticks(1) [of 5 time patience "snd s1" w2 1 w3] p clock_runsD(1) [OF runs t] by (simp add: s2)
      then have "ticks 8 time patience (snd s1) w3" by (rule ticks_more) simp
      moreover have "t = word_of_nat (time w3)" using clock_runsD(1) [OF runs t] by blast
      ultimately show "wlp (io_bind (io_bind (world_call clock) (\<lambda>now.
            io_return (elapsed_ms now (word_of_nat (time (snd s))) \<ge> timeout, x)))
          (\<lambda>(give_up, loop_count). if header = Inl Read_NoDataAvailable \<and> \<not> give_up then io_return loop_count
             else io_fail header)) (\<lambda>s' r. case r of Inl _ \<Rightarrow> True
       | Inr x' \<Rightarrow> False \<or> (ticks 8 time patience (snd s1) (snd s') \<and>
        unat (elapsed_ms (word_of_nat (time (snd s'))) (word_of_nat (time (snd s)))) \<le> unat timeout)) s2"
        by (auto simp: s2 wlp_simps t word_le_nat_alt)
    qed
  qed (use timeout in \<open>auto intro: connack_header_turn_returns\<close>)
next
  case False
  show ?thesis
  proof (rule returns_rounds [where R = "measure (\<lambda>(n, s). 5 - unat n)" and I = "\<lambda>_ _. True"])
    fix n s1
    show "returns (connack_header_turn tr clock timeout (word_of_nat (time (snd s))) n) s1 \<and>
      wlp (connack_header_turn tr clock timeout (word_of_nat (time (snd s))) n) (\<lambda>s' r. case r of Inl a \<Rightarrow> True
       | Inr n' \<Rightarrow> True \<and> ((n', s'), n, s1) \<in> measure (\<lambda>(n, s). 5 - unat n)) s1"
    proof (rule conjI [OF connack_header_turn_returns])
      show "wlp (connack_header_turn tr clock timeout (word_of_nat (time (snd s))) n) (\<lambda>s' r. case r of Inl a \<Rightarrow> True
       | Inr n' \<Rightarrow> True \<and> ((n', s'), n, s1) \<in> measure (\<lambda>(n, s). 5 - unat n)) s1"
        unfolding connack_header_turn_def if_not_P [OF False] wlp_bind [of "io_try _"] wlp_try sum.case
        by (rule wlp_conseq [OF read_header_ticks [OF runs]])
          (auto simp: wlp_simps word_le_nat_alt unat_sat_add min_def)
    qed
  qed simp_all
qed

lemma receive_connack_info_returns:
  assumes runs: "clock_runs tr clock time patience" and timeout: "unat timeout < 2 ^ 30"
  shows "returns (receive_connack_info tr clock timeout) s"
proof -
  obtain c w where s: "s = (c, w)" by (cases s)
  obtain w1 t where t: "clock w = (w1, t)" by (cases "clock w")
  have start: "t = word_of_nat (time (snd (c, w1)))" using clock_runsD(1) [OF runs t] by simp
  have lift: "returns (io_bind (ctx f) io_lift) s'" for f :: "mqtt_context \<Rightarrow> client_error + bytes" and s' :: "mqtt_context \<times> 'a"
    by (auto intro!: returns_bindI returns_ctx simp: returns_basic)
  have packet: "returns (receive_connack_packet tr clock rl) s'" for rl s'
    unfolding receive_connack_packet_def Let_def
    by (auto intro!: returns_bindI returns_ctx recv_exact_returns [OF runs] simp: returns_basic)
  have "returns (io_bind (rounds (connack_header_turn tr clock timeout t) 0) (\<lambda>header.
     io_bind (io_lift (map_err client_of_read header)) (\<lambda>packet.
     if ih_packet_type packet \<noteq> CONNACK then io_fail CE_BadResponse
     else io_bind (receive_connack_packet tr clock (ih_remaining_length packet)) (\<lambda>_.
       io_bind (io_bind (ctx (\<lambda>c. ok_or CE_RecvFailed
           (slice (mc_network c) 0 (unat (ih_remaining_length packet))))) io_lift) (\<lambda>body.
       io_return \<lparr>pi_packet_type = ih_packet_type packet,
                  pi_remaining_length = ih_remaining_length packet,
                  pi_remaining_data = body\<rparr>))))) (c, w1)"
    by (rule returns_bindI, unfold start, rule connack_wait_returns [OF runs timeout])
      (auto intro!: returns_bindI packet lift simp: returns_basic)
  then show ?thesis
    unfolding receive_connack_info_def s by (simp add: returns_bind [of "world_call _"] returns_context wlp_context t)
qed

lemma receive_connack_returns:
  assumes "clock_runs tr clock time patience" "unat timeout < 2 ^ 30"
  shows "returns (receive_connack tr clock timeout clean present) s"
  unfolding receive_connack_def flagged_def
  by (auto intro!: returns_bindI returns_ctx returns_world receive_connack_info_returns [OF assms]
      simp: returns_basic returns_wrapped)

section \<open>What the CONNACK does\<close>

lemma transport_failed_unless: "mc_connect_status c \<noteq> Connected \<Longrightarrow> transport_failed c = c"
  by (simp add: transport_failed_def)

text \<open>The packet as it is in the buffer. Of the context only the buffer has changed, and the state
  of the connection if there was one and the transport failed.\<close>

definition info_post :: "'w transport \<Rightarrow> 'w clock \<Rightarrow> ('w \<Rightarrow> bytes) \<Rightarrow> mqtt_context \<times> 'w \<Rightarrow>
    mqtt_context \<times> 'w \<Rightarrow> client_error + packet_info \<Rightarrow> bool" where
  "info_post tr clock wire s s' r \<longleftrightarrow> (quiet tr clock wire \<longrightarrow> wire (snd s') = wire (snd s)) \<and>
     (\<exists>net. length net = length (mc_network (fst s)) \<and> (case r of
        Inr info \<Rightarrow> fst s' = (fst s)\<lparr>mc_network := net\<rparr> \<and> pi_packet_type info = CONNACK \<and>
          unat (pi_remaining_length info) \<le> length net \<and>
          pi_remaining_data info = take (unat (pi_remaining_length info)) net
      | Inl e \<Rightarrow> fst s' = (fst s)\<lparr>mc_network := net\<rparr> \<or>
          fst s' = transport_failed ((fst s)\<lparr>mc_network := net\<rparr>)))"

lemma info_post_failed:
  "fst s' = fst s \<Longrightarrow> (quiet tr clock wire \<Longrightarrow> wire (snd s') = wire (snd s)) \<Longrightarrow>
   info_post tr clock wire s s' (Inl e)"
  unfolding info_post_def by (auto intro!: exI [of _ "mc_network (fst s)"])

lemma connack_wait_wlp:
  "wlp (rounds (connack_header_turn tr clock timeout entry) n :: (mqtt_context \<times> 'w, 'e, read_error + incoming_header) io) (\<lambda>s' r. \<exists>header. r = Inr header \<and>
      fst s' = fst s \<and> (quiet tr clock wire \<longrightarrow> wire (snd s') = wire (snd s))) s"
proof -
  let ?same = "\<lambda>s'. fst s' = fst s \<and> (quiet tr clock wire \<longrightarrow> wire (snd s') = wire (snd s))"
  have read: "wlp (in_world (read_header tr)) (\<lambda>s' r. ?same s') s1" if "?same s1" for s1
  proof -
    obtain c w where s1: "s1 = (c, w)" by (cases s1)
    show ?thesis
    proof (cases "quiet tr clock wire")
      case True
      have "wlp (read_header tr) (\<lambda>w' r. wire w' = wire w) w"
        by (rule read_header_steps [where rel = "\<lambda>_ w w'. wire w' = wire w"]) (auto dest: quietD(3) [OF True])
      then show ?thesis using that unfolding s1 wlp_context by (auto elim: wlp_conseq)
    next
      case False
      then show ?thesis using that unfolding s1 wlp_context by simp
    qed
  qed
  have clocked: "?same (c, w')" if "?same (c, w)" "clock w = (w', t)" for c w w' t
    using that quietD(1) [of tr clock wire w w' t] by auto
  show ?thesis
  proof (rule wlp_rounds [where I = "\<lambda>_. ?same"])
    fix n s1
    assume "?same s1"
    from read [OF this] show "wlp (connack_header_turn tr clock timeout entry n) (\<lambda>s' r. case r of
        Inl a \<Rightarrow> \<exists>header. (Inr a :: 'e + (read_error + incoming_header)) = Inr header \<and> ?same s' | Inr x' \<Rightarrow> ?same s') s1"
      unfolding connack_header_turn_def wlp_bind [of "io_try _"] wlp_try sum.case
    proof (rule wlp_conseq)
      fix s2 header
      assume same: "?same s2"
      obtain c2 w2 where s2: "s2 = (c2, w2)" by (cases s2)
      obtain w3 t where t: "clock w2 = (w3, t)" by (cases "clock w2")
      have later: "?same (c2, w3)" by (rule clocked [OF same [unfolded s2] t])
      show "wlp (io_bind (if timeout > 0
              then io_bind (world_call clock) (\<lambda>now. io_return (elapsed_ms now entry \<ge> timeout, n))
              else io_return (n \<ge> MAX_CONNACK_RECEIVE_RETRY_COUNT, sat_add n 1))
          (\<lambda>(give_up, loop_count). if header = Inl Read_NoDataAvailable \<and> \<not> give_up then io_return loop_count
             else io_fail header)) (\<lambda>s' r. case r of
        Inl a \<Rightarrow> \<exists>header. (Inr a :: 'e + (read_error + incoming_header)) = Inr header \<and> ?same s' | Inr x' \<Rightarrow> ?same s') s2"
        using same later unfolding s2 by (simp add: wlp_simps t)
    qed
  qed simp
qed

lemma wlp_answer: "wlp (if b then io_return a else io_fail e) Q s \<longleftrightarrow> Q s (if b then Inr a else Inl e)"
  by (simp add: wlp_basic)

lemma receive_connack_packet_wlp:
  fixes wire :: "'w \<Rightarrow> bytes"
  shows "wlp (receive_connack_packet tr clock rl) (\<lambda>s' r.
     (quiet tr clock wire \<longrightarrow> wire (snd s') = wire (snd s)) \<and>
     (\<exists>net. length net = length (mc_network (fst s)) \<and> (case r of
        Inr _ \<Rightarrow> fst s' = (fst s)\<lparr>mc_network := net\<rparr> \<and> unat rl \<le> length net
      | Inl e \<Rightarrow> fst s' = (fst s)\<lparr>mc_network := net\<rparr> \<or>
          fst s' = transport_failed ((fst s)\<lparr>mc_network := net\<rparr>)))) s"
proof -
  obtain c w where s: "s = (c, w)" by (cases s)
  show ?thesis
  proof (cases "unat rl > length (mc_network c)")
    case True
    then show ?thesis
      unfolding s fst_conv snd_conv by (simp add: receive_connack_packet_def wlp_bind [of "ctx _"] wlp_context wlp_basic Let_def)
        (rule exI [of _ "mc_network c"], simp)
  next
    case False
    let ?Q = "\<lambda>s' r. (quiet tr clock wire \<longrightarrow> wire (snd s') = wire w) \<and>
     (\<exists>net. length net = length (mc_network c) \<and> (case r of
        Inr _ \<Rightarrow> fst s' = c\<lparr>mc_network := net\<rparr> \<and> unat rl \<le> length net
      | Inl e \<Rightarrow> fst s' = c\<lparr>mc_network := net\<rparr> \<or> fst s' = transport_failed (c\<lparr>mc_network := net\<rparr>)))"
    have post: "?Q s' (if out = Body_Bytes (unat rl) then Inr () else Inl CE_RecvFailed)"
      if "recv_post tr clock (\<lambda>_. []) wire (unat rl) (c, w) s' out" for s' out
      using that False unfolding recv_post_def recv_going_def by (cases out) auto
    have "wlp (io_bind (recv_exact tr clock (unat rl)) (\<lambda>got.
        if got = Body_Bytes (unat rl) then io_return () else io_fail CE_RecvFailed)) ?Q (c, w)"
    proof (rule wlp_bindI [OF recv_exact_wlp [of tr clock "unat rl" "\<lambda>_. []" wire "(c, w)"]], goal_cases)
      case (1 s' a)
      then have "recv_post tr clock (\<lambda>_. []) wire (unat rl) (c, w) s' a" by simp
      from post [OF this] show ?case unfolding wlp_answer .
    qed blast
    then show ?thesis
      using False unfolding s fst_conv snd_conv by (simp add: receive_connack_packet_def wlp_bind [of "ctx _"] wlp_context Let_def)
  qed
qed

lemma receive_connack_info_wlp:
  "wlp (receive_connack_info tr clock timeout) (info_post tr clock wire s) s"
proof -
  obtain c w where s: "s = (c, w)" by (cases s)
  obtain w1 t where t: "clock w = (w1, t)" by (cases "clock w")
  show ?thesis
    unfolding receive_connack_info_def s
  proof (rule wlp_world_call [where f = clock, OF t],
      rule wlp_bindI [OF connack_wait_wlp [where wire = wire]], goal_cases)
    case (1 s1 header)
    then have same: "fst s1 = c" "quiet tr clock wire \<Longrightarrow> wire (snd s1) = wire w"
      using quietD(1) [of tr clock wire w w1 t] t by auto
    obtain w2 where s1: "s1 = (c, w2)" using same(1) by (cases s1) simp
    show ?case
    proof (rule wlp_lift, goal_cases)
      case (2 e)
      then show ?case using info_post_failed [of s1 "(c, w)"] same by simp
    next
      case (1 packet)
      show ?case
      proof (cases "ih_packet_type packet = CONNACK")
        case False
        then show ?thesis using info_post_failed [of s1 "(c, w)"] same by (simp add: wlp_basic)
      next
        case type: True
        then have nn: "\<not> ih_packet_type packet \<noteq> CONNACK" by simp
        let ?rl = "ih_remaining_length packet"
        show ?thesis
          unfolding if_not_P [OF nn]
        proof (rule wlp_bindI [OF receive_connack_packet_wlp [where wire = wire]], goal_cases)
          case (1 s2 u)
          then obtain net where net: "length net = length (mc_network c)" "fst s2 = c\<lparr>mc_network := net\<rparr>"
            "unat ?rl \<le> length net" "quiet tr clock wire \<Longrightarrow> wire (snd s2) = wire w"
            using same by auto
          obtain w3 where s2: "s2 = (c\<lparr>mc_network := net\<rparr>, w3)" using net(2) by (cases s2) simp
          show ?case
            using net type by (simp add: s2 wlp_simps slice_def info_post_def) (rule exI [of _ net], simp)
        next
          case (2 s2 e)
          then show ?case using same unfolding info_post_def by auto
        qed
      qed
    qed
  next
    case (2 s1 e)
    then show ?case by simp
  qed
qed

text \<open>A CONNACK that was read and its packet \<open>info\<close>, in the buffer \<open>net\<close>.\<close>

definition connack_in :: "bytes \<Rightarrow> packet_info \<Rightarrow> client_settings \<Rightarrow> conn_ack \<Rightarrow> bool" where
  "connack_in net info settings connack \<longleftrightarrow> pi_packet_type info = CONNACK \<and>
     unat (pi_remaining_length info) \<le> length net \<and>
     pi_remaining_data info = take (unat (pi_remaining_length info)) net \<and>
     deserialize_connack info settings = Inr connack"

definition connack_post :: "'w transport \<Rightarrow> 'w clock \<Rightarrow> ('w \<Rightarrow> bytes) \<Rightarrow> bool \<Rightarrow> bool \<Rightarrow> mqtt_context \<times> 'w \<Rightarrow>
    mqtt_context \<times> 'w \<Rightarrow> (bool \<times> client_error) + bool \<Rightarrow> bool" where
  "connack_post tr clock wire clean present s s' r \<longleftrightarrow> (quiet tr clock wire \<longrightarrow> wire (snd s') = wire (snd s)) \<and>
     (\<exists>net. length net = length (mc_network (fst s)) \<and>
       ((\<exists>e. r = Inl (present, e) \<and> (fst s' = (fst s)\<lparr>mc_network := net\<rparr> \<or>
            fst s' = transport_failed ((fst s)\<lparr>mc_network := net\<rparr>))) \<or>
        (\<exists>info connack. connack_in net info (client_settings_of (fst s)) connack \<and>
          fst s' = (fst s)\<lparr>mc_network := net, mc_properties := apply_connack (mc_properties (fst s)) connack\<rparr> \<and>
          r = (if clean \<and> ca_session_present connack then Inl (ca_session_present connack, CE_BadResponse)
               else if refused connack then Inl (ca_session_present connack, CE_ServerRefused)
               else Inr (ca_session_present connack)))))"

lemma receive_connack_wlp:
  fixes wire :: "'w \<Rightarrow> bytes"
  shows "wlp (receive_connack tr clock timeout clean present) (connack_post tr clock wire clean present s) s"
  unfolding receive_connack_def flagged_def
proof (rule wlp_bindI [where P = "\<lambda>s' r. case r of Inl x \<Rightarrow> fst x = present \<and> info_post tr clock wire s s' (Inl (snd x))
      | Inr info \<Rightarrow> info_post tr clock wire s s' (Inr info)"], goal_cases)
  case 1
  show ?case
    unfolding wlp_map_err
  proof (rule wlp_conseq [OF receive_connack_info_wlp [where wire = wire]], goal_cases)
    case (1 s' r)
    then show ?case by (cases r) simp_all
  qed
next
  case (2 s1 info)
  then have post: "info_post tr clock wire s s1 (Inr info)" by simp
  then obtain net where net: "length net = length (mc_network (fst s))" "fst s1 = (fst s)\<lparr>mc_network := net\<rparr>"
    "pi_packet_type info = CONNACK" "unat (pi_remaining_length info) \<le> length net"
    "pi_remaining_data info = take (unat (pi_remaining_length info)) net"
    and wire: "quiet tr clock wire \<Longrightarrow> wire (snd s1) = wire (snd s)"
    unfolding info_post_def by auto
  obtain c1 w1 where s1: "s1 = (c1, w1)" by (cases s1)
  have settings: "client_settings_of c1 = client_settings_of (fst s)"
    using net(2) by (simp add: s1 client_settings_of_def)
  show ?case
    unfolding s1
  proof (rule wlp_ctx, unfold wlp_bind [of "io_map_err _ _"] wlp_map_err wlp_basic settings,
      cases "deserialize_connack info (client_settings_of (fst s))")
    case (Inl e)
    show "case map_err (Pair present) (map_err client_of_connack (deserialize_connack info (client_settings_of (fst s)))) of
        Inl e \<Rightarrow> connack_post tr clock wire clean present s (c1, w1) (Inl e)
      | Inr connack \<Rightarrow> wlp (io_bind (upd (\<lambda>c. c\<lparr>mc_properties := apply_connack (mc_properties c) connack\<rparr>)) (\<lambda>_.
          if clean \<and> ca_session_present connack then io_fail (ca_session_present connack, CE_BadResponse)
          else if refused connack then io_fail (ca_session_present connack, CE_ServerRefused)
          else io_return (ca_session_present connack))) (connack_post tr clock wire clean present s) (c1, w1)"
      using net(1,2) wire by (auto simp: Inl s1 connack_post_def)
  next
    case (Inr connack)
    have inn: "connack_in net info (client_settings_of (fst s)) connack"
      using net Inr by (simp add: connack_in_def)
    have fine: "connack_post tr clock wire clean present s (c1\<lparr>mc_properties := apply_connack (mc_properties c1) connack\<rparr>, w1)
        (if clean \<and> ca_session_present connack then Inl (ca_session_present connack, CE_BadResponse)
               else if refused connack then Inl (ca_session_present connack, CE_ServerRefused)
               else Inr (ca_session_present connack))"
      unfolding connack_post_def
      using inn net(1,2) wire unfolding s1 fst_conv snd_conv by (intro conjI impI exI [of _ net] disjI2 exI [of _ info] exI [of _ connack]) auto
    show "case map_err (Pair present) (map_err client_of_connack (deserialize_connack info (client_settings_of (fst s)))) of
        Inl e \<Rightarrow> connack_post tr clock wire clean present s (c1, w1) (Inl e)
      | Inr connack \<Rightarrow> wlp (io_bind (upd (\<lambda>c. c\<lparr>mc_properties := apply_connack (mc_properties c) connack\<rparr>)) (\<lambda>_.
          if clean \<and> ca_session_present connack then io_fail (ca_session_present connack, CE_BadResponse)
          else if refused connack then io_fail (ca_session_present connack, CE_ServerRefused)
          else io_return (ca_session_present connack))) (connack_post tr clock wire clean present s) (c1, w1)"
      using fine unfolding Inr map_err_simps sum.case wlp_bind [of "upd _"] wlp_context
      by (cases "clean \<and> ca_session_present connack"; cases "refused connack")
        (simp_all only: if_True if_False wlp_basic simp_thms)
  qed
next
  case (3 s1 e)
  then show ?case by (cases e) (auto simp: info_post_def connack_post_def)
qed

section \<open>A transport for the examples\<close>

text \<open>What was sent, what is to be received, and the time, which moves on when the clock is read.\<close>

definition pipe_transport :: "(bytes \<times> bytes \<times> nat) transport" where
  "pipe_transport = \<lparr>
     tr_recv = (\<lambda>into (sent, queue, t). ((sent, drop (length into) queue, t),
        take (length into) queue @ drop (length queue) into,
        if queue = [] then Recv_Nothing else Recv_Bytes (min (length into) (length queue)))),
     tr_recv_one = (\<lambda>(sent, queue, t). ((sent, drop 1 queue, t),
        case queue of [] \<Rightarrow> Received_Nothing | b # _ \<Rightarrow> Received_Byte b)),
     tr_send = (\<lambda>bs (sent, queue, t). ((sent @ bs, queue, t), Sent_Bytes (length bs))),
     tr_writev = (\<lambda>vs (sent, queue, t). ((sent @ concat vs, queue, t), Sent_Bytes (length (concat vs))))\<rparr>"

definition pipe_clock :: "(bytes \<times> bytes \<times> nat) clock" where
  "pipe_clock = (\<lambda>(sent, queue, t). ((sent, queue, t + 1), word_of_nat (t + 1)))"

lemma pipe_carries: "carries pipe_transport pipe_clock fst"
  by (auto simp: carries_def pipe_transport_def pipe_clock_def)

lemma pipe_streams: "streams pipe_transport pipe_clock (\<lambda>(_, queue, _). queue)"
  by (auto simp: streams_def pipe_transport_def pipe_clock_def min_def)

lemma pipe_quiet: "quiet pipe_transport pipe_clock fst"
  by (auto simp: quiet_def pipe_transport_def pipe_clock_def)

lemma pipe_clock_runs: "clock_runs pipe_transport pipe_clock (\<lambda>(_, _, t). t) (\<lambda>_. 0)"
  by (auto simp: clock_runs_def ticks_def passes_def pipe_transport_def pipe_clock_def)

text \<open>C25. The body of a packet. On a clock that runs, reading \<open>wanted\<close> bytes ends, whatever the
  transport delivers and however slowly. From a transport that delivers a stream it takes the
  next bytes, no more than it wants and no more than the buffer holds; they are at the front of
  the buffer in the order they came, the rest of the buffer and of the context is as it was, and
  the stream goes on behind them. A failed transport changes nothing but the buffer and, if there
  was a connection, its state.\<close>

theorem body_read_in_order:
  assumes "clock_runs tr clock time patience" and "streams tr clock queued"
  shows "\<exists>c' w' out. recv_exact tr clock wanted (c, w) = Some ((c', w'), Inr out :: 'e + body_read) \<and> (case out of
      Body_Bytes n \<Rightarrow> n \<le> wanted \<and> n \<le> length (mc_network c) \<and> n \<le> length (queued w) \<and>
        c' = c\<lparr>mc_network := take n (queued w) @ drop n (mc_network c)\<rparr> \<and>
        queued w' = drop n (queued w)
    | Body_Failed \<Rightarrow> \<exists>net. length net = length (mc_network c) \<and>
        (c' = c\<lparr>mc_network := net\<rparr> \<or> c' = transport_failed (c\<lparr>mc_network := net\<rparr>)))"
proof -
  obtain c' w' and r :: "'e + body_read" where run: "recv_exact tr clock wanted (c, w) = Some ((c', w'), r)"
    using recv_exact_returns [OF assms(1), of wanted "(c, w)"] unfolding returns_def by fastforce
  from wlpD [OF recv_exact_wlp [where queued = queued and wire = queued] run] obtain out where
    out: "r = Inr out" "recv_post tr clock queued queued wanted (c, w) (c', w') out" by blast
  show ?thesis
    using run out assms(2) by (cases out) (auto simp: recv_post_def recv_going_def)
qed

theorem body_read_in_order_witness:
  "\<exists>c' w' out. recv_exact pipe_transport pipe_clock 3 (context_new [9, 9, 9, 9], ([], [1, 2, 3, 4], 0)) =
      Some ((c', w'), Inr out :: unit + body_read) \<and> (case out of
      Body_Bytes n \<Rightarrow> n \<le> 3 \<and> mc_network c' = take n [1, 2, 3, 4] @ drop n [9, 9, 9, 9]
    | Body_Failed \<Rightarrow> length (mc_network c') = 4)"
proof -
  let ?c = "context_new [9, 9, 9, 9]" and ?w = "([], [1, 2, 3, 4], 0) :: bytes \<times> bytes \<times> nat"
  from body_read_in_order [OF pipe_clock_runs pipe_streams, of 3 ?c ?w] obtain c' w' out where
    run: "recv_exact pipe_transport pipe_clock 3 (?c, ?w) = Some ((c', w'), Inr out :: unit + body_read)"
    and post: "case out of Body_Bytes n \<Rightarrow> n \<le> 3 \<and> c' = ?c\<lparr>mc_network := take n [1, 2, 3, 4] @ drop n (mc_network ?c)\<rparr>
      | Body_Failed \<Rightarrow> \<exists>net. length net = length (mc_network ?c) \<and>
        (c' = ?c\<lparr>mc_network := net\<rparr> \<or> c' = transport_failed (?c\<lparr>mc_network := net\<rparr>))"
    by (force split: body_read.splits)
  have "case out of Body_Bytes n \<Rightarrow> n \<le> 3 \<and> mc_network c' = take n [1, 2, 3, 4] @ drop n [9, 9, 9, 9]
    | Body_Failed \<Rightarrow> length (mc_network c') = 4"
    using post by (cases out) (auto simp: context_new_def transport_failed_def)
  then show ?thesis using run by blast
qed

end
