(* ===== verification/Establish.thy ===== *)
theory Establish
  imports Session
begin

text \<open>
  session.rs, the rest: what a fresh session forgets and what a resumed one sends again, the
  acknowledgements that are sent for it, and \<open>connect\<close> itself with the order of its refusals.
\<close>

section \<open>A fresh session\<close>

text \<open>\<open>while let Some(packet_id) = ...\<close>, over the cursor.\<close>

definition clear_turn :: "'w store \<Rightarrow> (nat \<Rightarrow> nat \<times> u16 option) \<Rightarrow> (u16 \<Rightarrow> u32) \<Rightarrow> nat \<Rightarrow>
    (mqtt_context \<times> 'w, unit, nat) io" where
  "clear_turn keeper find_next key cursor =
     (case find_next cursor of
        (cursor, None) \<Rightarrow> io_fail ()
      | (cursor, Some packet_id) \<Rightarrow>
          io_bind (world_call (\<lambda>w. (st_clear keeper (key packet_id) w, ()))) (\<lambda>_. io_return cursor))"

definition clear_stored :: "'w store option \<Rightarrow> (nat \<Rightarrow> nat \<times> u16 option) \<Rightarrow> (u16 \<Rightarrow> u32) \<Rightarrow>
    (mqtt_context \<times> 'w, 'e, unit) io" where
  "clear_stored store find_next key =
     (case store of
        None \<Rightarrow> io_return ()
      | Some keeper \<Rightarrow> rounds (clear_turn keeper find_next key) 0)"

definition handle_clean_session :: "'w store option \<Rightarrow> (mqtt_context \<times> 'w, 'e, unit) io" where
  "handle_clean_session store =
     io_bind (upd (\<lambda>c. c\<lparr>mc_index := 0, mc_network := replicate (length (mc_network c)) 0\<rparr>)) (\<lambda>_.
     io_bind (ctx mc_records) (\<lambda>found.
     case found of
       None \<Rightarrow> io_return ()
     | Some records \<Rightarrow>
         io_bind (clear_stored store (publish_to_resend records) ucast) (\<lambda>_.
         let records = clear_outgoing records in
         io_bind (clear_stored store (pubrel_to_resend records) incoming_key) (\<lambda>_.
         upd (\<lambda>c. c\<lparr>mc_records := Some (clear_incoming records)\<rparr>)))))"

section \<open>Acknowledgements without a reply\<close>

definition ack_type_to_send :: "publish_state \<Rightarrow> byte" where
  "ack_type_to_send state =
     (case state of
        PubAckSend \<Rightarrow> PUBACK | PubRecSend \<Rightarrow> PUBREC | PubRelSend \<Rightarrow> PUBREL | PubCompSend \<Rightarrow> PUBCOMP
      | _ \<Rightarrow> 0)"

definition ack_from_packet_type :: "byte \<Rightarrow> ack_type option" where
  "ack_from_packet_type packet_type =
     (if packet_type = PUBACK then Some PubAck
      else if packet_type = PUBREC then Some PubRec
      else if packet_type = PUBREL then Some PubRel
      else if packet_type = PUBCOMP then Some PubComp
      else None)"

text \<open>The move of the state machine an acknowledgement earns once it is out.\<close>

definition ack_sent :: "u16 \<Rightarrow> ack_type \<Rightarrow> mqtt_context \<Rightarrow> mqtt_context \<times> (client_error + unit)" where
  "ack_sent packet_id ack c =
     (let c = c\<lparr>mc_control_packet_sent := True\<rparr>
      in case mc_records c of
        None \<Rightarrow> (c, Inr ())
      | Some records \<Rightarrow>
          (case on_records (\<lambda>r. update_ack r packet_id ack Op_Send) records c of
             (c, answer) \<Rightarrow> (c, rbind answer (\<lambda>_. Inr ()))))"

definition send_publish_acks :: "'w transport \<Rightarrow> 'w clock \<Rightarrow> u16 \<Rightarrow> publish_state \<Rightarrow>
    (mqtt_context \<times> 'w, client_error, unit) io" where
  "send_publish_acks transport clock packet_id state =
     (let packet_type = ack_type_to_send state
      in if packet_type = 0 then io_return ()
      else case ack_from_packet_type packet_type of
        None \<Rightarrow> io_return ()
      | Some ack \<Rightarrow>
          (case serialize_ack (replicate PUBLISH_ACK_PACKET_SIZE 0) packet_type packet_id None [] of
             (packet, answer) \<Rightarrow>
           io_bind (io_lift (map_err (\<lambda>_. CE_BadParameter) answer)) (\<lambda>written.
           io_bind must_be_connected (\<lambda>_.
           io_bind (io_lift (ok_or CE_SendFailed (slice packet 0 written))) (\<lambda>bytes.
           io_bind (all_of written (send_buffer transport clock bytes)) (\<lambda>_.
           upd_try (ack_sent packet_id ack)))))))"

section \<open>A resumed session\<close>

text \<open>A packet that the application kept, sent as it is.\<close>

definition resend_stored :: "'w transport \<Rightarrow> 'w clock \<Rightarrow> 'w store \<Rightarrow> u32 \<Rightarrow>
    (mqtt_context \<times> 'w, client_error, unit) io" where
  "resend_stored transport clock keeper key =
     io_bind (world_call (st_retrieve keeper key)) (\<lambda>found.
     case found of
       None \<Rightarrow> io_fail CE_PublishRetrieveFailed
     | Some packet \<Rightarrow>
         if length packet > unat Context.MAX_PACKET_SIZE then io_fail CE_BadParameter
         else all_of (length packet) (send_buffer transport clock packet))"

text \<open>One turn of a pass: the next packet id, by a cursor over the records as they are by then.\<close>

definition resend_turn :: "(publish_records \<Rightarrow> nat \<Rightarrow> nat \<times> u16 option) \<Rightarrow>
    (u16 \<Rightarrow> (mqtt_context \<times> 'w, client_error, unit) io) \<Rightarrow> nat \<Rightarrow>
    (mqtt_context \<times> 'w, client_error + unit, nat) io" where
  "resend_turn find_next send cursor =
     io_bind (ctx (\<lambda>c. case mc_records c of
         Some records \<Rightarrow> find_next records cursor
       | None \<Rightarrow> (cursor, None))) (\<lambda>(cursor, found).
     case found of
       None \<Rightarrow> io_fail (Inr ())
     | Some packet_id \<Rightarrow> io_bind (io_map_err Inl (send packet_id)) (\<lambda>_. io_return cursor))"

definition resend_all :: "(publish_records \<Rightarrow> nat \<Rightarrow> nat \<times> u16 option) \<Rightarrow>
    (u16 \<Rightarrow> (mqtt_context \<times> 'w, client_error, unit) io) \<Rightarrow> (mqtt_context \<times> 'w, client_error, unit) io" where
  "resend_all find_next send = io_bind (rounds (resend_turn find_next send) 0) io_lift"

definition handle_unclean_session :: "'w transport \<Rightarrow> 'w clock \<Rightarrow> 'w store option \<Rightarrow>
    (mqtt_context \<times> 'w, client_error, unit) io" where
  "handle_unclean_session transport clock store =
     io_bind (resend_all pubrel_to_resend (\<lambda>packet_id.
         case store of
           Some keeper \<Rightarrow> resend_stored transport clock keeper (incoming_key packet_id)
         | None \<Rightarrow> send_publish_acks transport clock packet_id PubRelSend)) (\<lambda>_.
     case store of
       None \<Rightarrow> io_return ()
     | Some keeper \<Rightarrow>
         resend_all publish_to_resend (\<lambda>packet_id. resend_stored transport clock keeper (ucast packet_id)))"

section \<open>Opening the session\<close>

definition learn_size :: "connect \<Rightarrow> u32 \<Rightarrow> mqtt_context \<Rightarrow> mqtt_context \<times> (client_error + unit)" where
  "learn_size cn network_size c =
     (let set_client = (\<lambda>f. c\<lparr>mc_properties := (mc_properties c)
              \<lparr>cp_client := f (cp_client (mc_properties c))\<rparr>\<rparr>)
      in if cn_properties cn = []
         then (set_client (lc_max_packet_size_update (\<lambda>_. network_size)), Inr ())
         else case validate_connect_properties (cn_properties cn)
                     \<lparr>cv_request_problem_info = False, cv_max_packet_size = None\<rparr> of
           (found, Inl e) \<Rightarrow> (c, Inl (client_of_validate e))
         | (found, Inr _) \<Rightarrow>
             (set_client (lc_request_problem_info_update (\<lambda>_. cv_request_problem_info found)),
              case cv_max_packet_size found of
                None \<Rightarrow> Inr ()
              | Some limit \<Rightarrow> if unat limit > length (mc_network c) then Inl CE_BadParameter else Inr ()))"

text \<open>Everything before the first byte is sent: the CONNECT that goes out, and its size.\<close>

definition check_connect :: "connect \<Rightarrow> mqtt_context \<Rightarrow> mqtt_context \<times> (client_error + connect \<times> connect_size)" where
  "check_connect cn c =
     (case (case cn_will cn of
              None \<Rightarrow> Inr ()
            | Some will \<Rightarrow> if wl_properties will = [] then Inr ()
                else map_err client_of_validate (validate_will_properties (wl_properties will))) of
        Inl e \<Rightarrow> (c, Inl e)
      | Inr _ \<Rightarrow>
          (let network_size = (case try_u32 (length (mc_network c)) of None \<Rightarrow> - 1 | Some n \<Rightarrow> n);
               invented = ID_MAX_PACKET_SIZE # be32 network_size
           in case learn_size cn network_size c of
             (c, Inl e) \<Rightarrow> (c, Inl e)
           | (c, Inr _) \<Rightarrow>
               (let outgoing = (if cn_properties cn = [] then cn\<lparr>cn_properties := invented\<rparr> else cn)
                in (c, rbind (map_err client_of_connect (connect_packet_size outgoing)) (\<lambda>sz.
                       case mc_connect_status c of
                         NotConnected \<Rightarrow> Inr (outgoing, sz)
                       | Connected \<Rightarrow> Inl CE_StatusConnected
                       | DisconnectPending \<Rightarrow> Inl CE_DisconnectPending)))))"

definition cap_records :: "mqtt_context \<Rightarrow> mqtt_context" where
  "cap_records c =
     (case mc_records c of
        None \<Rightarrow> c
      | Some records \<Rightarrow> c\<lparr>mc_records := Some (cap records
          (unat (ls_receive_max (cp_server (mc_properties c))))
          (unat (lc_receive_max (cp_client (mc_properties c)))))\<rparr>)"

definition open_session :: "mqtt_context \<Rightarrow> mqtt_context" where
  "open_session c = c\<lparr>mc_connect_status := Connected,
     mc_keep_alive_seconds := ls_keep_alive (cp_server (mc_properties c)),
     mc_waiting_for_ping_resp := False, mc_ping_req_send_time := 0\<rparr>"

definition connect_inner :: "'w transport \<Rightarrow> 'w clock \<Rightarrow> 'w store option \<Rightarrow> connect \<Rightarrow> u32 \<Rightarrow> connect_size \<Rightarrow>
    bool \<Rightarrow> (mqtt_context \<times> 'w, bool \<times> client_error, bool) io" where
  "connect_inner transport clock store cn timeout_ms sz session_present =
     io_bind (flagged session_present (send_connect transport clock cn (cz_remaining_length sz))) (\<lambda>_.
     io_bind (receive_connack transport clock timeout_ms (ci_clean_session (cn_info cn)) session_present)
       (\<lambda>session_present.
     io_bind (upd cap_records) (\<lambda>_.
     io_bind (if session_present then io_return () else handle_clean_session store) (\<lambda>_.
     io_bind (upd open_session) (\<lambda>_.
     io_bind (if session_present
              then flagged session_present (handle_unclean_session transport clock store)
              else io_return ()) (\<lambda>_.
     io_return session_present))))))"

text \<open>\<open>MqttContext::connect\<close>. The error of a session that was opened and then failed leaves the
  connection to be given up.\<close>

definition connect_session :: "'w transport \<Rightarrow> 'w clock \<Rightarrow> 'w store option \<Rightarrow> connect \<Rightarrow> u32 \<Rightarrow> bool \<Rightarrow>
    (mqtt_context \<times> 'w, bool \<times> client_error, bool) io" where
  "connect_session transport clock store cn timeout_ms session_present =
     io_bind (flagged session_present (upd_try (check_connect cn))) (\<lambda>(outgoing, sz).
     io_bind (io_try (connect_inner transport clock store outgoing timeout_ms sz session_present)) (\<lambda>outcome.
     io_bind (upd (\<lambda>c. if isl outcome \<and> mc_connect_status c = Connected
         then c\<lparr>mc_connect_status := DisconnectPending\<rparr> else c)) (\<lambda>_.
     io_lift outcome)))"

section \<open>The passes over the records\<close>

text \<open>Both passes look for records in certain states, and go forward.\<close>

definition find_selected :: "publish_state list \<Rightarrow> pub_record list \<Rightarrow> nat \<Rightarrow> nat \<times> u16 option" where
  "find_selected wanted rs cursor = (case state_select rs wanted cursor of
     (cursor', i) \<Rightarrow> (cursor', if i = 0 then None else Some i))"

abbreviation (input) publishes_owed :: "publish_state list" where
  "publishes_owed \<equiv> [PublishSend, PubAckPending, PubRecPending]"

abbreviation (input) pubrels_owed :: "publish_state list" where
  "pubrels_owed \<equiv> [PubCompPending, PubRelSend]"

lemma passes_select:
  "publish_to_resend r = find_selected publishes_owed (pr_outgoing r)"
  "pubrel_to_resend r = find_selected pubrels_owed (pr_outgoing r)"
  by (simp_all add: fun_eq_iff publish_to_resend_def pubrel_to_resend_def find_selected_def)

lemma state_select_moves:
  "state_select rs wanted n = (n', i) \<Longrightarrow> i \<noteq> 0 \<Longrightarrow> n < n' \<and> n' \<le> length rs"
proof (induction rs wanted n rule: state_select.induct)
  case (1 rs wanted n)
  show ?case
  proof (cases "n < length rs")
    case False
    then show ?thesis using "1.prems" by (subst (asm) state_select.simps) simp
  next
    case in_range: True
    show ?thesis
    proof (cases "r_state (rs ! n) \<in> set wanted")
      case True
      then show ?thesis using "1.prems" in_range by (subst (asm) state_select.simps) simp
    next
      case False
      then have "state_select rs wanted (n + 1) = (n', i)"
        using "1.prems"(1) in_range by (subst (asm) state_select.simps) simp
      from "1.IH" [OF in_range False this "1.prems"(2)] show ?thesis by simp
    qed
  qed
qed

lemma find_selected_moves:
  "find_selected wanted rs n = (n', Some i) \<Longrightarrow> n < n' \<and> n' \<le> length rs"
  using state_select_moves [of rs wanted n n' i]
  by (auto simp: find_selected_def split: prod.splits if_splits)

lemma find_selected_log:
  assumes "empties_ok rs" "PS_Null \<notin> set wanted"
  shows "case selected wanted (drop n rs) of
      [] \<Rightarrow> snd (find_selected wanted rs n) = None
    | i # is \<Rightarrow> \<exists>n'. find_selected wanted rs n = (n', Some i) \<and> selected wanted (drop n' rs) = is"
proof -
  obtain n' i where st: "state_select rs wanted n = (n', i)" by (cases "state_select rs wanted n")
  show ?thesis
    using state_select_log [OF assms, of n] selected_pos [of _ wanted "drop n rs"]
    by (cases "selected wanted (drop n rs)") (simp_all add: find_selected_def st)
qed

lemma rounds_stop: "body x s = Some (s', Inl a) \<Longrightarrow> rounds body x s = Some (s', Inr a)"
  by (subst rounds.simps) simp

lemma rounds_again: "body x s = Some (s', Inr x') \<Longrightarrow> rounds body x s = rounds body x' s'"
  by (subst rounds.simps) simp

lemma io_bind_steps:
  "io_bind (upd f) k (c, w) = k () (f c, w)"
  "io_bind (ctx g) k' (c, w) = k' (g c) (c, w)"
  "io_bind (io_return a) k'' s = k'' a s"
  by (simp_all add: io_bind_def upd_def io_modify_def ctx_def io_get_def io_return_def)

lemma io_bind_run: "m s = Some (s', Inr a) \<Longrightarrow> io_bind m k s = k a s'"
  by (simp add: io_bind_def)

section \<open>What a fresh session clears\<close>

lemma clear_walk:
  assumes "empties_ok rs" "PS_Null \<notin> set wanted"
  shows "rounds (clear_turn keeper (find_selected wanted rs) key) n (c, w) =
    Some ((c, fold (\<lambda>i. st_clear keeper (key i)) (selected wanted (drop n rs)) w), Inr ())"
proof (induction "selected wanted (drop n rs)" arbitrary: n w)
  case Nil
  then have "clear_turn keeper (find_selected wanted rs) key n (c, w) = Some ((c, w), Inl ())"
    using find_selected_log [OF assms, of n]
    by (cases "find_selected wanted rs n") (simp add: clear_turn_def io_fail_def Nil [symmetric])
  note stop = rounds_stop [where body = "clear_turn keeper (find_selected wanted rs) key", OF this]
  show ?case unfolding stop by (simp add: Nil [symmetric])
next
  case (Cons i rest)
  then obtain n' where n': "find_selected wanted rs n = (n', Some i)" "selected wanted (drop n' rs) = rest"
    using find_selected_log [OF assms, of n] by (auto simp: Cons.hyps(2) [symmetric])
  have "clear_turn keeper (find_selected wanted rs) key n (c, w) = Some ((c, st_clear keeper (key i) w), Inr n')"
    by (simp add: clear_turn_def n' io_bind_def world_call_def io_return_def)
  note step = rounds_again [where body = "clear_turn keeper (find_selected wanted rs) key", OF this]
  show ?case
    unfolding step using Cons.hyps(1) [OF n'(2) [symmetric], of "st_clear keeper (key i) w"]
    by (simp add: Cons.hyps(2) [symmetric] n'(2))
qed

text \<open>The context and the world after a fresh session.\<close>

definition forgotten :: "mqtt_context \<Rightarrow> mqtt_context" where
  "forgotten c = c\<lparr>mc_index := 0, mc_network := replicate (length (mc_network c)) 0,
     mc_records := map_option (\<lambda>r. clear_incoming (clear_outgoing r)) (mc_records c)\<rparr>"

definition cleared :: "'w store option \<Rightarrow> publish_records option \<Rightarrow> 'w \<Rightarrow> 'w" where
  "cleared store records w = (case (store, records) of
      (Some keeper, Some r) \<Rightarrow> fold (\<lambda>i. st_clear keeper (ucast i)) (selected publishes_owed (pr_outgoing r)) w
    | _ \<Rightarrow> w)"

lemma handle_clean_session_eq:
  assumes "\<And>r. mc_records c = Some r \<Longrightarrow> empties_ok (pr_outgoing r)"
  shows "handle_clean_session store (c, w) = Some ((forgotten c, cleared store (mc_records c) w), Inr ())"
proof (cases "mc_records c")
  case None
  then show ?thesis
    by (simp add: handle_clean_session_def io_bind_def upd_def io_modify_def ctx_def io_get_def
        io_return_def forgotten_def cleared_def split: option.split)
next
  case (Some r)
  define c1 where "c1 = c\<lparr>mc_index := 0, mc_network := replicate (length (mc_network c)) 0\<rparr>"
  let ?none = "clear_outgoing r"
  have e: "empties_ok (pr_outgoing ?none)"
    by (simp add: clear_outgoing_def empties_ok_def)
  have none: "selected pubrels_owed (pr_outgoing ?none) = []"
    by (simp add: selected_def clear_outgoing_def)
  have walk: "clear_stored store (publish_to_resend r) ucast (c1, w) = Some ((c1, cleared store (Some r) w), Inr ())"
    using clear_walk [OF assms [OF Some], of publishes_owed _ ucast 0 c1]
    by (cases store) (simp_all add: clear_stored_def cleared_def io_return_def passes_select)
  have useless: "clear_stored store (pubrel_to_resend ?none) incoming_key (c1, w') = Some ((c1, w'), Inr ())" for w'
    using clear_walk [OF e, of pubrels_owed _ incoming_key 0 c1]
    by (cases store) (simp_all add: clear_stored_def none io_return_def passes_select)
  have "handle_clean_session store (c, w) =
      (io_bind (clear_stored store (publish_to_resend r) ucast) (\<lambda>_.
         io_bind (clear_stored store (pubrel_to_resend ?none) incoming_key) (\<lambda>_.
         upd (\<lambda>c. c\<lparr>mc_records := Some (clear_incoming ?none)\<rparr>)))) (c1, w)"
    unfolding handle_clean_session_def io_bind_steps c1_def [symmetric] by (simp add: c1_def Some Let_def)
  also have "\<dots> = Some ((forgotten c, cleared store (Some r) w), Inr ())"
    unfolding io_bind_run [of "clear_stored store (publish_to_resend r) ucast", OF walk]
      io_bind_run [of "clear_stored store (pubrel_to_resend ?none) incoming_key", OF useless]
    by (simp add: upd_def io_modify_def c1_def forgotten_def Some)
  finally show ?thesis by (simp add: Some)
qed

section \<open>Acknowledgements on the wire\<close>

text \<open>What a state owes: the packet type and what the state machine calls it.\<close>

definition ack_owed :: "publish_state \<Rightarrow> (byte \<times> ack_type) option" where
  "ack_owed state = (case state of
     PubAckSend \<Rightarrow> Some (PUBACK, PubAck) | PubRecSend \<Rightarrow> Some (PUBREC, PubRec)
   | PubRelSend \<Rightarrow> Some (PUBREL, PubRel) | PubCompSend \<Rightarrow> Some (PUBCOMP, PubComp) | _ \<Rightarrow> None)"

lemma ack_owed_code:
  "ack_owed state = (if ack_type_to_send state = 0 then None
     else map_option (Pair (ack_type_to_send state)) (ack_from_packet_type (ack_type_to_send state)))"
  by (cases state) (simp_all add: ack_owed_def ack_type_to_send_def ack_from_packet_type_def)

lemma simple_ack:
  assumes "ack_owed state = Some (t, ack)"
  shows "i \<noteq> 0 \<Longrightarrow> serialize_ack (replicate 4 0) t i None [] = (t # 2 # be16 i, Inr 4)"
    and "serialize_ack (replicate 4 0) t 0 None [] = (replicate 4 0, Inl Outbound_BadParameter)"
proof -
  have t: "t \<in> {PUBACK, PUBREC, PUBREL, PUBCOMP}"
    using assms by (cases state) (auto simp: ack_owed_def)
  have sec: "outbound_section_length [] = Inr 0" by (simp add: outbound_section_length_ok)
  obtain a b where b: "be16 i = [a, b]" by (simp add: be16_def)
  have put: "put_ack (replicate 4 0) t i None [] 0 = (t # 2 # be16 i, Inr 4)"
    by (simp add: put_ack_def copy_at_def put_slice_def splice_def wstep_def b numeral_eq_Suc)
  show "i \<noteq> 0 \<Longrightarrow> serialize_ack (replicate 4 0) t i None [] = (t # 2 # be16 i, Inr 4)"
    using t put sec by (simp add: serialize_ack_def)
  show "serialize_ack (replicate 4 0) t 0 None [] = (replicate 4 0, Inl Outbound_BadParameter)"
    by (simp add: serialize_ack_def)
qed

definition acks_post :: "'w transport \<Rightarrow> 'w clock \<Rightarrow> ('w \<Rightarrow> bytes) \<Rightarrow> u16 \<Rightarrow> publish_state \<Rightarrow>
    mqtt_context \<times> 'w \<Rightarrow> mqtt_context \<times> 'w \<Rightarrow> client_error + unit \<Rightarrow> bool" where
  "acks_post tr clock wire i state s s' r \<longleftrightarrow> (case ack_owed state of
      None \<Rightarrow> r = Inr () \<and> s' = s
    | Some (t, ack) \<Rightarrow>
        if i = 0 then r = Inl CE_BadParameter \<and> s' = s
        else (case connected (fst s) of
            Inl e \<Rightarrow> r = Inl e \<and> s' = s
          | Inr _ \<Rightarrow> (\<exists>s2 r2. all_post tr clock wire (t # 2 # be16 i) s s2 r2 \<and> (case r2 of
                Inl e \<Rightarrow> r = Inl e \<and> s' = s2
              | Inr _ \<Rightarrow> (r, fst s', snd s') = (case ack_sent i ack (fst s2) of (c3, r3) \<Rightarrow> (r3, c3, snd s2))))))"

lemma send_publish_acks_wlp:
  "wlp (send_publish_acks tr clock i state) (acks_post tr clock wire i state s) s"
proof (cases "ack_owed state")
  case None
  then have "ack_type_to_send state = 0 \<or> ack_from_packet_type (ack_type_to_send state) = None"
    by (auto simp: ack_owed_code split: if_splits)
  then show ?thesis by (auto simp: send_publish_acks_def Let_def wlp_basic acks_post_def None)
next
  case (Some a)
  obtain t ack where a: "a = (t, ack)" by (cases a)
  have owed: "ack_type_to_send state = t" "\<not> t = 0" "ack_from_packet_type t = Some ack"
    using Some by (auto simp: a ack_owed_code split: if_splits)
  note simple = simple_ack [OF Some [unfolded a]]
  obtain c w where s: "s = (c, w)" by (cases s)
  show ?thesis
  proof (cases "i = 0")
    case True
    then show ?thesis
      by (simp add: send_publish_acks_def Let_def owed simple(2) wlp_simps acks_post_def Some a del: replicate_Suc)
  next
    case False
    have sl: "slice (t # 2 # be16 i) 0 4 = Some (t # 2 # be16 i)" by (simp add: slice_def)
    show ?thesis
      unfolding send_publish_acks_def Let_def owed(1) if_not_P [OF owed(2)] owed(3) option.case simple(1) [OF False]
        prod.case map_err_simps s
    proof (rule wlp_lift, rule must_be_connected_wlp, goal_cases)
      case (2 n e)
      then show ?case using False by (simp add: acks_post_def Some a)
    next
      case (1 n)
      then have n: "n = 4" and up: "connected c = Inr ()" by (simp_all add: connected_def)
      have send: "wlp (all_of 4 (send_buffer tr clock (t # 2 # be16 i)))
          (all_post tr clock wire (t # 2 # be16 i) (c, w)) (c, w)"
        by (rule all_of_buffer) simp
      have post: "acks_post tr clock wire i state (c, w) s' r"
        if "all_post tr clock wire (t # 2 # be16 i) (c, w) s2 r2" "case r2 of
                Inl e \<Rightarrow> r = Inl e \<and> s' = s2
              | Inr _ \<Rightarrow> (r, fst s', snd s') = (case ack_sent i ack (fst s2) of (c3, r3) \<Rightarrow> (r3, c3, snd s2))"
        for s' r s2 r2
        unfolding acks_post_def Some a option.case prod.case if_not_P [OF False] fst_conv up sum.case
        using that by blast
      show ?case
        unfolding n sl ok_or_simps wlp_bind [of "io_lift _"] wlp_basic sum.case
      proof (rule wlp_bindI [OF send], goal_cases)
        case (1 s2 u)
        obtain c3 r3 where r3: "ack_sent i ack (fst s2) = (c3, r3)" by (cases "ack_sent i ack (fst s2)")
        show ?case
          using post [OF 1, of r3 "(c3, snd s2)"] r3 by (cases s2) (simp add: wlp_context)
      next
        case (2 s2 e)
        then show ?case using post [OF 2, of "Inl e" s2] by simp
      qed
    qed simp
  qed
qed

lemma send_publish_acks_returns:
  "clock_runs tr clock time patience \<Longrightarrow> returns (send_publish_acks tr clock i state) s"
  unfolding send_publish_acks_def must_be_connected_def Let_def
  by (auto simp: all_of_returns returns_basic split: prod.split option.split
      intro!: returns_bindI returns_ctx returns_upd_try send_buffer_returns)

lemma all_post_keeps:
  assumes "all_post tr clock wire packet s s' r"
  shows "mc_records (fst s') = mc_records (fst s)" "mc_properties (fst s') = mc_properties (fst s)"
  using assms by (auto elim!: all_postE simp: stamped_def transport_failed_def)

lemma length_update_record [simp]: "length (update_record rs k st delete) = length rs"
  by (simp add: update_record_def)

text \<open>A PUBREL going out moves no record.\<close>

lemma update_ack_pubrel_length:
  "length (pr_outgoing (fst (update_ack r i PubRel Op_Send))) = length (pr_outgoing r)"
  by (auto simp: update_ack_def is_publish_outgoing_def update_ack_records_def calculate_state_ack_def Let_def
      split: option.split prod.split)

lemma ack_sent_pubrel_room: "outgoing_records (fst (ack_sent i PubRel c)) = outgoing_records c"
  using update_ack_pubrel_length [of _ i]
  by (auto simp: ack_sent_def on_records_def outgoing_records_def Let_def split: option.split prod.split)
    (metis fst_conv)

section \<open>A resumed session ends\<close>

lemma resend_all_returns:
  fixes send :: "u16 \<Rightarrow> (mqtt_context \<times> 'w, client_error, unit) io"
  assumes moves: "\<And>r n n' i. find_next r n = (n', Some i) \<Longrightarrow> n < n' \<and> n' \<le> length (pr_outgoing r)"
    and returns: "\<And>i s. returns (send i) s"
    and room: "\<And>i s. wlp (send i) (\<lambda>s' r. outgoing_records (fst s') = outgoing_records (fst s)) s"
  shows "returns (resend_all find_next send) s"
  unfolding resend_all_def
proof (rule returns_bindI)
  have turn: "returns (resend_turn find_next send n) s1" for n s1
    unfolding resend_turn_def
    by (auto simp: returns_basic returns_wrapped returns split: prod.split option.split
        intro!: returns_bindI returns_ctx)
  show "returns (rounds (resend_turn find_next send) 0) s"
  proof (rule returns_rounds [where I = "\<lambda>_ _. True"
        and R = "measure (\<lambda>(n, s). outgoing_records (fst s) - n)"])
    fix n and s1 :: "mqtt_context \<times> 'w"
    obtain c w where s1: "s1 = (c, w)" by (cases s1)
    show "returns (resend_turn find_next send n) s1 \<and>
      wlp (resend_turn find_next send n) (\<lambda>s' r. case r of Inl a \<Rightarrow> True
        | Inr n' \<Rightarrow> True \<and> ((n', s'), n, s1) \<in> measure (\<lambda>(n, s). outgoing_records (fst s) - n)) s1"
    proof (rule conjI [OF turn])
      show "wlp (resend_turn find_next send n) (\<lambda>s' r. case r of Inl a \<Rightarrow> True
        | Inr n' \<Rightarrow> True \<and> ((n', s'), n, s1) \<in> measure (\<lambda>(n, s). outgoing_records (fst s) - n)) s1"
        unfolding resend_turn_def s1
      proof (rule wlp_ctx)
        obtain n' found where f: "(case mc_records c of Some records \<Rightarrow> find_next records n | None \<Rightarrow> (n, None)) = (n', found)"
          by (cases "case mc_records c of Some records \<Rightarrow> find_next records n | None \<Rightarrow> (n, None)")
        show "wlp (case case mc_records c of None \<Rightarrow> (n, None) | Some records \<Rightarrow> find_next records n of
            (cursor, None) \<Rightarrow> io_fail (Inr ())
          | (cursor, Some packet_id) \<Rightarrow> io_bind (io_map_err Inl (send packet_id)) (\<lambda>_. io_return cursor))
          (\<lambda>s' r. case r of Inl a \<Rightarrow> True
            | Inr n' \<Rightarrow> True \<and> ((n', s'), n, c, w) \<in> measure (\<lambda>(n, s). outgoing_records (fst s) - n)) (c, w)"
        proof (cases found)
          case None
          then show ?thesis unfolding f by (simp add: wlp_basic)
        next
          case (Some i)
          then obtain r where r: "mc_records c = Some r" "find_next r n = (n', Some i)"
            using f by (auto split: option.splits)
          have m: "n < n'" "n' \<le> outgoing_records c" using moves [OF r(2)] r(1) by (simp_all add: outgoing_records_def)
          show ?thesis
            unfolding f Some prod.case option.case wlp_bind wlp_map_err
          proof (rule wlp_conseq [OF room], goal_cases)
            case (1 s' q)
            then show ?case using m by (cases q) (auto simp: wlp_basic)
          qed
        qed
      qed
    qed
  qed simp_all
qed (simp add: returns_basic)

lemma resend_stored_returns:
  "clock_runs tr clock time patience \<Longrightarrow> returns (resend_stored tr clock st key) s"
  unfolding resend_stored_def
  by (auto simp: all_of_returns returns_basic split: option.split intro!: returns_bindI returns_world send_buffer_returns)

lemma resend_stored_keeps:
  "wlp (resend_stored tr clock st key) (\<lambda>s' r. mc_records (fst s') = mc_records (fst s)) s"
proof -
  obtain c w where s: "s = (c, w)" by (cases s)
  obtain w1 found where f: "st_retrieve st key w = (w1, found)" by (cases "st_retrieve st key w")
  have send: "wlp (all_of (length packet) (send_buffer tr clock packet)) (\<lambda>s' r. mc_records (fst s') = mc_records c) (c, w1)" for packet
    by (rule wlp_conseq [OF all_of_buffer [OF refl]]) (auto dest: all_post_keeps)
  show ?thesis
    unfolding resend_stored_def s
    by (rule wlp_world_call [where f = "st_retrieve st key", OF f])
      (auto simp: wlp_basic send split: option.split)
qed

lemma handle_unclean_session_returns:
  assumes runs: "clock_runs tr clock time patience"
  shows "returns (handle_unclean_session tr clock store) s"
proof -
  have stored: "wlp (resend_stored tr clock st key) (\<lambda>s' r. outgoing_records (fst s') = outgoing_records (fst s)) s" for st key s
    by (rule wlp_conseq [OF resend_stored_keeps]) (simp add: outgoing_records_def)
  have acks: "wlp (send_publish_acks tr clock i PubRelSend) (\<lambda>s' r. outgoing_records (fst s') = outgoing_records (fst s)) s" for i s
  proof (rule wlp_conseq [OF send_publish_acks_wlp])
    fix s' and r :: "client_error + unit"
    assume post: "acks_post tr clock (\<lambda>_. []) i PubRelSend s s' r"
    show "outgoing_records (fst s') = outgoing_records (fst s)"
    proof (cases "s' = s")
      case False
      then obtain s2 r2 where s2: "all_post tr clock (\<lambda>_. []) (PUBREL # 2 # be16 i) s s2 r2" "case r2 of
                Inl e \<Rightarrow> r = Inl e \<and> s' = s2
              | Inr _ \<Rightarrow> (r, fst s', snd s') = (case ack_sent i PubRel (fst s2) of (c3, r3) \<Rightarrow> (r3, c3, snd s2))"
        using post False by (cases "i = 0"; cases "connected (fst s)") (auto simp: acks_post_def ack_owed_def)
      have same: "outgoing_records (fst s2) = outgoing_records (fst s)"
        using all_post_keeps(1) [OF s2(1)] by (simp add: outgoing_records_def)
      show ?thesis
        using s2(2) same ack_sent_pubrel_room [of i "fst s2"]
        by (cases r2) (auto split: prod.splits)
    qed simp
  qed
  show ?thesis
    unfolding handle_unclean_session_def
    by (cases store)
      (auto intro!: returns_bindI resend_all_returns send_publish_acks_returns [OF runs] resend_stored_returns [OF runs]
        stored acks simp: passes_select returns_basic dest: find_selected_moves)
qed

section \<open>Connecting ends\<close>

lemma clear_stored_returns: "returns (clear_stored store (find_selected wanted rs) key) s"
proof (cases store)
  case None
  then show ?thesis by (simp add: clear_stored_def returns_basic)
next
  case (Some keeper)
  have "returns (rounds (clear_turn keeper (find_selected wanted rs) key) 0) s"
  proof (rule returns_rounds [where I = "\<lambda>_ _. True" and R = "measure (\<lambda>(n, s). length rs - n)"])
    fix n and s1 :: "mqtt_context \<times> 'a"
    obtain c w where s1: "s1 = (c, w)" by (cases s1)
    obtain n' found where f: "find_selected wanted rs n = (n', found)" by (cases "find_selected wanted rs n")
    show "returns (clear_turn keeper (find_selected wanted rs) key n) s1 \<and>
      wlp (clear_turn keeper (find_selected wanted rs) key n) (\<lambda>s' r. case r of Inl a \<Rightarrow> True
        | Inr n' \<Rightarrow> True \<and> ((n', s'), n, s1) \<in> measure (\<lambda>(n, s). length rs - n)) s1"
    proof (cases found)
      case None
      then show ?thesis by (simp add: clear_turn_def f returns_basic wlp_basic)
    next
      case (Some i)
      have "n < n' \<and> n' \<le> length rs" using find_selected_moves [OF f [unfolded Some]] .
      then show ?thesis
        by (auto simp: clear_turn_def f Some s1 returns_bind returns_basic returns_context wlp_simps)
    qed
  qed simp_all
  then show ?thesis by (simp add: clear_stored_def Some)
qed

lemma handle_clean_session_returns: "returns (handle_clean_session store) s"
  unfolding handle_clean_session_def Let_def passes_select
  by (auto simp: returns_basic split: option.split
      intro!: returns_bindI returns_world returns_ctx clear_stored_returns)

lemma connect_session_returns:
  assumes runs: "clock_runs tr clock time patience" and timeout: "unat timeout < 2 ^ 30"
  shows "returns (connect_session tr clock store cn timeout present) s"
proof -
  have inner: "returns (connect_inner tr clock store cn timeout sz present) s" for cn sz present s
    unfolding connect_inner_def flagged_def
    by (auto simp: returns_basic returns_wrapped
        intro!: returns_bindI returns_world send_connect_returns [OF runs] receive_connack_returns [OF runs timeout]
          handle_clean_session_returns handle_unclean_session_returns [OF runs])
  show ?thesis
    unfolding connect_session_def flagged_def
    by (auto simp: returns_basic returns_wrapped inner split: prod.split
        intro!: returns_bindI returns_world returns_upd_try)
qed

section \<open>The outcome of a connect\<close>

lemma transport_failed_keeps [simp]:
  "mc_records (transport_failed c) = mc_records c" "mc_properties (transport_failed c) = mc_properties c"
  by (simp_all add: transport_failed_def)





lemma resend_all_wlp:
  fixes send :: "u16 \<Rightarrow> (mqtt_context \<times> 'w, client_error, unit) io"
  assumes step: "\<And>i s. I s \<Longrightarrow> wlp (send i) (\<lambda>s' r. case r of Inr _ \<Rightarrow> I s' | Inl _ \<Rightarrow> E s') s"
    and start: "I s"
  shows "wlp (resend_all find_next send) (\<lambda>s' r. case r of Inr _ \<Rightarrow> I s' | Inl _ \<Rightarrow> E s') s"
  unfolding resend_all_def
proof (rule wlp_bindI [where P = "\<lambda>s' r. case r of Inr (Inr _) \<Rightarrow> I s' | Inr (Inl _) \<Rightarrow> E s' | Inl _ \<Rightarrow> False"], goal_cases)
  case 1
  show ?case
  proof (rule wlp_rounds [where I = "\<lambda>_. I", OF _ start])
    fix n and s1 :: "mqtt_context \<times> 'w"
    assume i: "I s1"
    obtain c w where s1: "s1 = (c, w)" by (cases s1)
    obtain n' found where f: "(case mc_records c of Some records \<Rightarrow> find_next records n | None \<Rightarrow> (n, None)) = (n', found)"
      by (cases "case mc_records c of Some records \<Rightarrow> find_next records n | None \<Rightarrow> (n, None)")
    show "wlp (resend_turn find_next send n) (\<lambda>s' r. case r of
        Inl a \<Rightarrow> (case Inr a of Inr (Inr _) \<Rightarrow> I s' | Inr (Inl _) \<Rightarrow> E s' | Inl _ \<Rightarrow> False) | Inr x' \<Rightarrow> I s') s1"
      unfolding resend_turn_def s1
    proof (rule wlp_ctx, cases found)
      case None
      then show "wlp (case case mc_records c of None \<Rightarrow> (n, None) | Some records \<Rightarrow> find_next records n of
            (cursor, None) \<Rightarrow> io_fail (Inr ())
          | (cursor, Some packet_id) \<Rightarrow> io_bind (io_map_err Inl (send packet_id)) (\<lambda>_. io_return cursor))
        (\<lambda>s' r. case r of
          Inl a \<Rightarrow> (case Inr a of Inr (Inr _) \<Rightarrow> I s' | Inr (Inl _) \<Rightarrow> E s' | Inl _ \<Rightarrow> False) | Inr x' \<Rightarrow> I s') (c, w)"
        unfolding f using i by (simp add: wlp_basic s1)
    next
      case (Some i)
      show "wlp (case case mc_records c of None \<Rightarrow> (n, None) | Some records \<Rightarrow> find_next records n of
            (cursor, None) \<Rightarrow> io_fail (Inr ())
          | (cursor, Some packet_id) \<Rightarrow> io_bind (io_map_err Inl (send packet_id)) (\<lambda>_. io_return cursor))
        (\<lambda>s' r. case r of
          Inl a \<Rightarrow> (case Inr a of Inr (Inr _) \<Rightarrow> I s' | Inr (Inl _) \<Rightarrow> E s' | Inl _ \<Rightarrow> False) | Inr x' \<Rightarrow> I s') (c, w)"
        unfolding f Some prod.case option.case wlp_bind wlp_map_err
      proof (rule wlp_conseq [OF step [OF \<open>I s1\<close> [unfolded s1]]], goal_cases)
        case (1 s' q)
        then show ?case by (cases q) (auto simp: wlp_basic)
      qed
    qed
  qed
next
  case (2 s' a)
  then show ?case by (cases a) (simp_all add: wlp_basic)
qed simp

text \<open>A store whose operations send nothing.\<close>

definition silent_store :: "'w store option \<Rightarrow> ('w \<Rightarrow> bytes) \<Rightarrow> bool" where
  "silent_store store wire \<longleftrightarrow> (case store of None \<Rightarrow> True | Some keeper \<Rightarrow>
     \<forall>key w. wire (st_clear keeper key w) = wire w \<and> wire (fst (st_retrieve keeper key w)) = wire w)"

text \<open>What resending leaves alone, and what it adds to the wire.\<close>

definition session_kept :: "mqtt_context \<Rightarrow> mqtt_context \<Rightarrow> bool" where
  "session_kept c c' \<longleftrightarrow> mc_connect_status c' = mc_connect_status c \<and> mc_properties c' = mc_properties c \<and>
     mc_keep_alive_seconds c' = mc_keep_alive_seconds c \<and>
     mc_waiting_for_ping_resp c' = mc_waiting_for_ping_resp c \<and>
     mc_ping_req_send_time c' = mc_ping_req_send_time c \<and> mc_index c' = mc_index c \<and>
     mc_network c' = mc_network c"

lemma session_kept_refl [simp]: "session_kept c c"
  by (simp add: session_kept_def)

lemma session_kept_trans: "session_kept c c' \<Longrightarrow> session_kept c' c'' \<Longrightarrow> session_kept c c''"
  by (simp add: session_kept_def)

lemma all_post_session_kept: "all_post tr clock wire packet s s' (Inr u) \<Longrightarrow> session_kept (fst s) (fst s')"
  by (auto elim!: all_postE simp: stamped_def session_kept_def)

lemma all_post_prefix:
  assumes "all_post tr clock wire packet s s' r" "carries tr clock wire"
  shows "\<exists>n. wire (snd s') = wire (snd s) @ take n packet"
  using assms by (auto elim!: all_postE) (metis take_all order_refl)

definition resent :: "'w transport \<Rightarrow> 'w clock \<Rightarrow> ('w \<Rightarrow> bytes) \<Rightarrow> 'w store option \<Rightarrow>
    mqtt_context \<times> 'w \<Rightarrow> mqtt_context \<times> 'w \<Rightarrow> bool" where
  "resent tr clock wire store s s' \<longleftrightarrow>
     (carries tr clock wire \<and> silent_store store wire \<longrightarrow> (\<exists>sent. wire (snd s') = wire (snd s) @ sent))"

lemma resent_trans: "resent tr clock wire store s s' \<Longrightarrow> resent tr clock wire store s' s'' \<Longrightarrow> resent tr clock wire store s s''"
  unfolding resent_def by (metis append_assoc)

lemma all_post_resent: "all_post tr clock wire packet s s' r \<Longrightarrow> resent tr clock wire store s s'"
  unfolding resent_def using all_post_prefix by blast

lemma ack_sent_kept: "session_kept c (fst (ack_sent i ack c))"
  by (auto simp: ack_sent_def on_records_def session_kept_def Let_def split: option.split prod.split)

lemma resend_stored_wlp:
  "wlp (resend_stored tr clock keeper key) (\<lambda>s' r. resent tr clock wire (Some keeper) s s' \<and>
     (r = Inr () \<longrightarrow> session_kept (fst s) (fst s'))) s"
proof -
  obtain c w where s: "s = (c, w)" by (cases s)
  obtain w1 found where f: "st_retrieve keeper key w = (w1, found)" by (cases "st_retrieve keeper key w")
  have first: "resent tr clock wire (Some keeper) (c, w) (c, w1)"
    using f unfolding resent_def silent_store_def by (auto simp: dest: spec [of _ key] intro!: exI [of _ "[]"]) (metis fst_conv)
  have send: "wlp (all_of (length packet) (send_buffer tr clock packet)) (\<lambda>s' r. resent tr clock wire (Some keeper) (c, w) s' \<and>
     (r = Inr () \<longrightarrow> session_kept c (fst s'))) (c, w1)" for packet
    by (rule wlp_conseq [OF all_of_buffer [OF refl, where wire = wire]])
      (auto dest: all_post_session_kept intro: resent_trans [OF first all_post_resent])
  show ?thesis
    unfolding resend_stored_def s fst_conv
    by (rule wlp_world_call [where f = "st_retrieve keeper key", OF f])
      (auto simp: wlp_basic send first split: option.split)
qed

lemma acks_post_resent:
  assumes "acks_post tr clock wire i state s s' r"
  shows "resent tr clock wire store s s' \<and> (r = Inr () \<longrightarrow> session_kept (fst s) (fst s'))"
proof (cases "s' = s")
  case True
  then show ?thesis by (auto simp: resent_def)
next
  case False
  obtain t ack s2 r2 where s2: "all_post tr clock wire (t # 2 # be16 i) s s2 r2" "case r2 of
      Inl e \<Rightarrow> r = Inl e \<and> s' = s2
    | Inr _ \<Rightarrow> (r, fst s', snd s') = (case ack_sent i ack (fst s2) of (c3, r3) \<Rightarrow> (r3, c3, snd s2))"
    using assms False
    by (cases "ack_owed state"; cases "i = 0"; cases "connected (fst s)") (auto simp: acks_post_def)
  have r: "resent tr clock wire store s s2" by (rule all_post_resent [OF s2(1)])
  show ?thesis
  proof (cases r2)
    case (Inl e)
    then show ?thesis using r s2(2) by simp
  next
    case (Inr u)
    have "session_kept (fst s) (fst s2)" using all_post_session_kept s2(1) unfolding Inr by blast
    then have "session_kept (fst s) (fst (ack_sent i ack (fst s2)))"
      using ack_sent_kept session_kept_trans by blast
    moreover have "resent tr clock wire store s (fst (ack_sent i ack (fst s2)), snd s2)"
      using r by (simp add: resent_def)
    ultimately show ?thesis using s2(2) by (cases s') (auto simp: Inr split: prod.splits)
  qed
qed

lemma handle_unclean_session_wlp:
  "wlp (handle_unclean_session tr clock store) (\<lambda>s' r. resent tr clock wire store s s' \<and>
     (r = Inr () \<longrightarrow> session_kept (fst s) (fst s'))) s"
proof -
  let ?I = "\<lambda>s'. resent tr clock wire store s s' \<and> session_kept (fst s) (fst s')"
  let ?E = "\<lambda>s'. resent tr clock wire store s s'"
  have next_step: "wlp m (\<lambda>s' r. case r of Inr _ \<Rightarrow> ?I s' | Inl _ \<Rightarrow> ?E s') s1"
    if i: "?I s1" and m: "wlp m (\<lambda>s' r. resent tr clock wire store s1 s' \<and>
     (r = Inr () \<longrightarrow> session_kept (fst s1) (fst s'))) s1" for m :: "(mqtt_context \<times> 'a, client_error, unit) io" and s1
  proof (rule wlp_conseq [OF m], goal_cases)
    case (1 s' r)
    then show ?case using i by (cases r) (auto intro: resent_trans session_kept_trans)
  qed
  have start: "?I s" by (simp add: resent_def)
  have pass: "wlp (resend_all f send) (\<lambda>s' r. case r of Inr _ \<Rightarrow> ?I s' | Inl _ \<Rightarrow> ?E s') s1"
    if "?I s1" "\<And>i s1. wlp (send i) (\<lambda>s' r. resent tr clock wire store s1 s' \<and>
     (r = Inr () \<longrightarrow> session_kept (fst s1) (fst s'))) s1" for f send s1
    by (rule resend_all_wlp [where I = ?I and E = ?E]) (rule next_step, assumption, rule that(2), rule that(1))
  show ?thesis
  proof (cases store)
    case None
    show ?thesis
      unfolding handle_unclean_session_def None option.case
      by (rule wlp_bindI [OF pass [OF start, unfolded None]])
        (auto simp: wlp_basic None intro!: wlp_conseq [OF send_publish_acks_wlp] dest: acks_post_resent)
  next
    case (Some keeper)
    show ?thesis
      unfolding handle_unclean_session_def Some option.case
    proof (rule wlp_bindI [OF pass [OF start, unfolded Some]], goal_cases)
      case (1 i s1)
      show ?case by (rule resend_stored_wlp)
    next
      case (2 s1 a)
      then have "?I s1" by (simp add: Some)
      from pass [OF this, unfolded Some, OF resend_stored_wlp] show ?case
        by (rule wlp_conseq) (auto split: sum.splits)
    qed auto
  qed
qed








lemma open_session_simps [simp]:
  "mc_connect_status (open_session c) = Connected" "mc_properties (open_session c) = mc_properties c"
  "mc_keep_alive_seconds (open_session c) = ls_keep_alive (cp_server (mc_properties c))"
  "mc_waiting_for_ping_resp (open_session c) = False" "mc_ping_req_send_time (open_session c) = 0"
  "mc_index (open_session c) = mc_index c" "mc_network (open_session c) = mc_network c"
  "mc_records (open_session c) = mc_records c"
  by (simp_all add: open_session_def)




section \<open>Properties\<close>

text \<open>C13. Every request of the client gives an answer. On a clock that runs, and with a CONNACK
  timeout below twelve days, connecting, publishing, subscribing, unsubscribing, pinging and
  disconnecting all return, whatever the transport and the store do: however little is sent at
  a time, however the bytes of the CONNACK come in, and through both passes of a resumed
  session.\<close>

theorem requests_return:
  assumes "clock_runs tr clock time patience" and "unat timeout < 2 ^ 30"
  shows "connect_session tr clock store cn timeout present s \<noteq> None \<and>
    publish tr clock store g i s \<noteq> None \<and>
    subscribe tr clock entries i properties s \<noteq> None \<and>
    unsubscribe tr clock entries i properties s \<noteq> None \<and>
    ping tr clock s \<noteq> None \<and> disconnect tr clock reason properties s \<noteq> None"
  using connect_session_returns [OF assms, of store cn present s] publish_returns [OF assms(1), of store g i s]
    send_list_returns [OF assms(1), of entries i properties True s]
    send_list_returns [OF assms(1), of entries i properties False s]
    ping_returns [OF assms(1), of s] disconnect_returns [OF assms(1), of reason properties s]
  unfolding returns_def subscribe_def unsubscribe_def by blast



section \<open>What a resumed session sends\<close>

lemma send_buffer_world:
  assumes f: "\<And>w. f (fst (clock w)) = f w" "\<And>bs w. f (fst (tr_send tr bs w)) = f w"
  shows "wlp (send_buffer tr clock buffer) (\<lambda>s' r. f (snd s') = f (snd s)) s"
proof -
  have c: "f w' = f w" if "clock w = (w', t)" for w w' t using f(1) [of w] that by simp
  have t: "f w' = f w" if "tr_send tr bs w = (w', a)" for w w' a bs using f(2) [of bs w] that by simp
  have turn: "wlp (send_buffer_turn tr clock buffer start n) (\<lambda>s' r. f (snd s') = f (snd s1)) s1" for start n s1
  proof -
    obtain c1 w1 where s1: "s1 = (c1, w1)" by (cases s1)
    show ?thesis
      unfolding send_buffer_turn_def s1 stamp_tx_def
      by (auto simp: wlp_simps split: option.split prod.split sent.split dest!: c t)
  qed
  obtain c0 w0 where s: "s = (c0, w0)" by (cases s)
  obtain w1 st where w1: "clock w0 = (w1, st)" by (cases "clock w0")
  show ?thesis
    unfolding send_buffer_def s
  proof (rule wlp_world_call [where f = clock, OF w1], rule wlp_rounds [where I = "\<lambda>_ s'. f (snd s') = f w0"], goal_cases)
    case (1 x s1)
    show ?case by (rule wlp_conseq [OF turn]) (use 1 in \<open>auto split: sum.split\<close>)
  next
    case 2
    then show ?case using c [OF w1] by simp
  qed
qed

text \<open>A store that gives back what it kept, \<open>kept w key\<close>, and keeps it; nothing that is sent and no
  look at the clock changes that.\<close>

definition recalls :: "'w transport \<Rightarrow> 'w clock \<Rightarrow> 'w store \<Rightarrow> ('w \<Rightarrow> u32 \<Rightarrow> bytes option) \<Rightarrow> bool" where
  "recalls tr clock st kept \<longleftrightarrow> (\<forall>w. kept (fst (clock w)) = kept w) \<and>
     (\<forall>bs w. kept (fst (tr_send tr bs w)) = kept w) \<and>
     (\<forall>key w. kept (fst (st_retrieve st key w)) = kept w \<and> snd (st_retrieve st key w) = kept w key)"

lemma resend_stored_exact:
  assumes wire: "carries tr clock wire" and recalls: "recalls tr clock st kept"
    and silent: "silent_store (Some st) wire"
  shows "wlp (resend_stored tr clock st key) (\<lambda>s' r. r = Inr () \<longrightarrow> kept (snd s) key \<noteq> None \<and>
      kept (snd s') = kept (snd s) \<and> wire (snd s') = wire (snd s) @ the (kept (snd s) key) \<and>
      mc_records (fst s') = mc_records (fst s)) s"
proof -
  obtain c w where s: "s = (c, w)" by (cases s)
  obtain w1 found where f: "st_retrieve st key w = (w1, found)" by (cases "st_retrieve st key w")
  have w1: "kept w1 = kept w" "found = kept w key" "wire w1 = wire w"
    using recalls silent f unfolding recalls_def silent_store_def by (auto dest!: spec [of _ key] spec [of _ w])
  have world: "wlp (send_buffer tr clock packet) (\<lambda>s' r. kept (snd s') = kept w) (c, w1)" for packet
    using send_buffer_world [where f = kept and clock = clock and tr = tr and s = "(c, w1)"] recalls w1(1)
    unfolding recalls_def by simp
  have send: "wlp (all_of (length packet) (send_buffer tr clock packet)) (\<lambda>s' r. r = Inr () \<longrightarrow>
      kept (snd s') = kept w \<and> wire (snd s') = wire w @ packet \<and> mc_records (fst s') = mc_records c) (c, w1)" for packet
  proof -
    have "wlp (all_of (length packet) (send_buffer tr clock packet)) (\<lambda>s' r. kept (snd s') = kept w) (c, w1)"
      unfolding all_of_def by (rule wlp_bindI [OF world]) (auto simp: wlp_basic)
    from wlp_conj [OF all_of_buffer [OF refl, where wire = wire] this] show ?thesis
    proof (rule wlp_conseq, goal_cases)
      case (1 s' r)
      then show ?case
        using wire w1(3) all_post_keeps(1) [of tr clock wire packet "(c, w1)" s' r] by (auto elim!: all_postE)
    qed
  qed
  show ?thesis
    unfolding resend_stored_def s fst_conv snd_conv
  proof (rule wlp_world_call [where f = "st_retrieve st key", OF f], cases found)
    case None
    then show "wlp (case found of None \<Rightarrow> io_fail CE_PublishRetrieveFailed | Some packet \<Rightarrow>
         if length packet > unat Context.MAX_PACKET_SIZE then io_fail CE_BadParameter
         else all_of (length packet) (send_buffer tr clock packet))
      (\<lambda>s' r. r = Inr () \<longrightarrow> kept w key \<noteq> None \<and> kept (snd s') = kept w \<and>
         wire (snd s') = wire w @ the (kept w key) \<and> mc_records (fst s') = mc_records c) (c, w1)"
      by (simp add: wlp_basic)
  next
    case (Some packet)
    show "wlp (case found of None \<Rightarrow> io_fail CE_PublishRetrieveFailed | Some packet \<Rightarrow>
         if length packet > unat Context.MAX_PACKET_SIZE then io_fail CE_BadParameter
         else all_of (length packet) (send_buffer tr clock packet))
      (\<lambda>s' r. r = Inr () \<longrightarrow> kept w key \<noteq> None \<and> kept (snd s') = kept w \<and>
         wire (snd s') = wire w @ the (kept w key) \<and> mc_records (fst s') = mc_records c) (c, w1)"
      using send [of packet] w1(2) [symmetric] by (simp add: Some wlp_basic)
  qed
qed

lemma resend_all_exact:
  fixes wire :: "'w \<Rightarrow> bytes"
  assumes "carries tr clock wire" "recalls tr clock st kept" "silent_store (Some st) wire"
    and r: "mc_records (fst s) = Some r" "empties_ok (pr_outgoing r)" and wanted: "PS_Null \<notin> set wanted"
    and find: "\<And>r. find_next r = find_selected wanted (pr_outgoing r)"
  shows "wlp (resend_all find_next (\<lambda>i. resend_stored tr clock st (key i))) (\<lambda>s' r'. r' = Inr () \<longrightarrow>
      (\<forall>i \<in> set (selected wanted (pr_outgoing r)). kept (snd s) (key i) \<noteq> None) \<and>
      wire (snd s') = wire (snd s) @ concat (map (\<lambda>i. the (kept (snd s) (key i))) (selected wanted (pr_outgoing r))) \<and>
      kept (snd s') = kept (snd s) \<and> mc_records (fst s') = Some r) s"
proof -
  let ?all = "selected wanted (pr_outgoing r)"
  let ?I = "\<lambda>n s'. mc_records (fst s') = Some r \<and> kept (snd s') = kept (snd s) \<and>
      (\<exists>sent. ?all = sent @ selected wanted (drop n (pr_outgoing r)) \<and>
         (\<forall>i \<in> set sent. kept (snd s) (key i) \<noteq> None) \<and>
         wire (snd s') = wire (snd s) @ concat (map (\<lambda>i. the (kept (snd s) (key i))) sent))"
  let ?Q = "\<lambda>s'. (\<forall>i \<in> set ?all. kept (snd s) (key i) \<noteq> None) \<and>
      wire (snd s') = wire (snd s) @ concat (map (\<lambda>i. the (kept (snd s) (key i))) ?all) \<and>
      kept (snd s') = kept (snd s) \<and> mc_records (fst s') = Some r"
  show ?thesis
    unfolding resend_all_def
  proof (rule wlp_bindI [where P = "\<lambda>s' q. \<forall>a. q = Inr (Inr a) \<longrightarrow> ?Q s'"], goal_cases)
    case 1
    show ?case
    proof (rule wlp_rounds [where I = ?I])
      fix n and s1 :: "mqtt_context \<times> 'w"
      assume i: "?I n s1"
      obtain c w where s1: "s1 = (c, w)" by (cases s1)
      obtain n' found where f: "find_selected wanted (pr_outgoing r) n = (n', found)"
        by (cases "find_selected wanted (pr_outgoing r) n")
      note log = find_selected_log [OF r(2) wanted, of n]
      have look: "(case mc_records c of Some records \<Rightarrow> find_next records n | None \<Rightarrow> (n, None)) = (n', found)"
        using i f by (simp add: s1 find)
      show "wlp (resend_turn find_next (\<lambda>i. resend_stored tr clock st (key i)) n) (\<lambda>s' q. case q of
          Inl a \<Rightarrow> (\<forall>a'. Inr a = Inr (Inr a') \<longrightarrow> ?Q s') | Inr n' \<Rightarrow> ?I n' s') s1"
        unfolding resend_turn_def s1
      proof (rule wlp_ctx, unfold look prod.case, cases found)
        case None
        have nil: "selected wanted (drop n (pr_outgoing r)) = []"
          using log by (cases "selected wanted (drop n (pr_outgoing r))") (auto simp: f None)
        show "wlp (case found of None \<Rightarrow> io_fail (Inr ())
            | Some packet_id \<Rightarrow> io_bind (io_map_err Inl (resend_stored tr clock st (key packet_id))) (\<lambda>_. io_return n'))
          (\<lambda>s' q. case q of
            Inl a \<Rightarrow> (\<forall>a'. Inr a = Inr (Inr a') \<longrightarrow> ?Q s') | Inr n' \<Rightarrow> ?I n' s') (c, w)"
          using i nil by (simp add: None wlp_basic s1)
      next
        case (Some i')
        have tl: "selected wanted (drop n (pr_outgoing r)) = i' # selected wanted (drop n' (pr_outgoing r))"
          using log by (cases "selected wanted (drop n (pr_outgoing r))") (auto simp: f Some)
        show "wlp (case found of None \<Rightarrow> io_fail (Inr ())
            | Some packet_id \<Rightarrow> io_bind (io_map_err Inl (resend_stored tr clock st (key packet_id))) (\<lambda>_. io_return n'))
          (\<lambda>s' q. case q of
            Inl a \<Rightarrow> (\<forall>a'. Inr a = Inr (Inr a') \<longrightarrow> ?Q s') | Inr n' \<Rightarrow> ?I n' s') (c, w)"
          unfolding Some option.case wlp_bind wlp_map_err
        proof (rule wlp_conseq [OF resend_stored_exact [OF assms(1-3)]], goal_cases)
          case (1 s' q)
          show ?case
          proof (cases q)
            case (Inl e)
            then show ?thesis by simp
          next
            case (Inr u)
            then have k: "kept w (key i') \<noteq> None" "kept (snd s') = kept w"
              "wire (snd s') = wire w @ the (kept w (key i'))" "mc_records (fst s') = mc_records c"
              using 1 by simp_all
            from i obtain sent where sent: "mc_records c = Some r" "kept w = kept (snd s)"
              "?all = sent @ i' # selected wanted (drop n' (pr_outgoing r))"
              "\<forall>i \<in> set sent. kept (snd s) (key i) \<noteq> None"
              "wire w = wire (snd s) @ concat (map (\<lambda>i. the (kept (snd s) (key i))) sent)"
              by (auto simp: s1 tl)
            have "?I n' s'"
              using k sent by (intro conjI exI [of _ "sent @ [i']"]) auto
            then show ?thesis by (simp add: Inr wlp_basic)
          qed
        qed
      qed
    next
      show "?I 0 s" using r(1) by (intro conjI exI [of _ "[]"]) simp_all
    qed
  next
    case (2 s' a)
    then show ?case by (cases a) (simp_all add: wlp_basic)
  next
    case (3 s' e)
    then show ?case by simp
  qed
qed

definition sample_connect :: connect where
  "sample_connect = \<lparr>cn_info = \<lparr>ci_clean_session = True, ci_keep_alive_seconds = 60, ci_username = None,
     ci_password = None\<rparr>, cn_client_identifier = [65], cn_properties = [], cn_will = None\<rparr>"


definition sample_context :: mqtt_context where
  "sample_context = context_new [0, 0, 0, 0, 0, 0, 0, 0]"



theorem requests_return_witness:
  "connect_session pipe_transport pipe_clock None sample_connect 1000 False
      (sample_context, ([], [0x20, 3, 0, 0, 0], 0)) \<noteq> None"
  using requests_return [OF pipe_clock_runs, of 1000 None sample_connect False
      "(sample_context, ([], [0x20, 3, 0, 0, 0], 0))"] by simp



text \<open>C14. A session that is resumed from a store. When the pass over the records and the store ends
  well, what has been sent is, in this order and without anything between, every PUBREL that is
  owed as the store has it under its incoming key, in the order of the PUBRECs, and then every
  PUBLISH that is owed as the store has it under its packet id, in the order they were first
  sent; the store had all of them, and the records and the session are as they were.\<close>

theorem resumed_session_resends:
  assumes "carries tr clock wire" and "recalls tr clock st kept" and "silent_store (Some st) wire"
    and "mc_records c = Some r" and "records_inv r"
    and "handle_unclean_session tr clock (Some st) (c, w) = Some ((c', w'), Inr ())"
  shows "let pubrels = map r_packet_id (filter (\<lambda>x. r_state x \<in> {PubCompPending, PubRelSend}) (occupied (pr_outgoing r)));
      publishes = map r_packet_id (filter (\<lambda>x. r_state x \<in> {PublishSend, PubAckPending, PubRecPending})
        (occupied (pr_outgoing r)));
      packets = map (\<lambda>i. kept w (incoming_key i)) pubrels @ map (\<lambda>i. kept w (ucast i)) publishes
    in None \<notin> set packets \<and> wire w' = wire w @ concat (map the packets) \<and>
      mc_records c' = Some r \<and> session_kept c c'"
proof -
  let ?rels = "selected pubrels_owed (pr_outgoing r)" and ?pubs = "selected publishes_owed (pr_outgoing r)"
  have e: "empties_ok (pr_outgoing r)" using assms(5) by (simp add: records_inv_def array_ok_def)
  note pass = resend_all_exact [OF assms(1-3) _ e]
  let ?Q = "\<lambda>s' r'. r' = (Inr () :: client_error + unit) \<longrightarrow> (\<forall>i \<in> set ?rels. kept w (incoming_key i) \<noteq> None) \<and>
      (\<forall>i \<in> set ?pubs. kept w (ucast i) \<noteq> None) \<and>
      wire (snd s') = (wire w @ concat (map (\<lambda>i. the (kept w (incoming_key i))) ?rels)) @
        concat (map (\<lambda>i. the (kept w (ucast i))) ?pubs) \<and> mc_records (fst s') = Some r"
  have "wlp (handle_unclean_session tr clock (Some st)) ?Q (c, w)"
    unfolding handle_unclean_session_def option.case
  proof (rule wlp_bindI [OF pass [where wanted = pubrels_owed and key = incoming_key]], goal_cases)
    case (4 s1 u)
    then have s1: "\<forall>i \<in> set ?rels. kept w (incoming_key i) \<noteq> None"
      "wire (snd s1) = wire w @ concat (map (\<lambda>i. the (kept w (incoming_key i))) ?rels)"
      "kept (snd s1) = kept w" "mc_records (fst s1) = Some r" by simp_all
    show ?case
      by (rule wlp_conseq [OF pass [where wanted = publishes_owed and key = ucast]])
        (use s1 in \<open>auto simp: passes_select\<close>)
  qed (simp_all add: assms(4) passes_select)
  from wlpD [OF this assms(6)] have q: "?Q (c', w') (Inr ())" .
  have "session_kept c c'"
    using wlpD [OF handle_unclean_session_wlp [where wire = wire] assms(6)] by simp
  then show ?thesis
    using q by (auto simp: Let_def selected_def comp_def)
qed

lemma pipe_send_buffer:
  assumes "b \<noteq> []"
  shows "send_buffer pipe_transport pipe_clock b (c, (s, q, t)) =
    Some ((c\<lparr>mc_last_packet_tx_time := word_of_nat (t + 2)\<rparr>, (s @ b, q, t + 3)), Inr (Outcome_Sent (length b)))"
proof -
  let ?body = "send_buffer_turn pipe_transport pipe_clock b (word_of_nat (t + 1))"
  have e: "elapsed_ms (1 + (2 + word_of_nat t)) (1 + word_of_nat t) = 2"
    by (simp add: elapsed_ms_def)
  have first: "?body 0 (c, (s, q, t + 1)) =
      Some ((c\<lparr>mc_last_packet_tx_time := word_of_nat (t + 2)\<rparr>, (s @ b, q, t + 3)), Inr (length b))"
    using assms by (simp add: send_buffer_turn_def slice_from_def pipe_transport_def pipe_clock_def io_bind_def
        world_call_def stamp_tx_def upd_def io_modify_def io_return_def elapsed_ms_def)
  have second: "?body (length b) s' = Some (s', Inl (Outcome_Sent (length b)))" for s'
    by (simp add: send_buffer_turn_def io_fail_def)
  have "rounds ?body 0 (c, (s, q, t + 1)) =
      Some ((c\<lparr>mc_last_packet_tx_time := word_of_nat (t + 2)\<rparr>, (s @ b, q, t + 3)), Inr (Outcome_Sent (length b)))"
    unfolding rounds_again [where body = ?body, OF first] by (rule rounds_stop [where body = ?body, OF second])
  then show ?thesis
    by (simp add: send_buffer_def io_bind_def world_call_def pipe_clock_def)
qed

text \<open>A store that has one byte for every key, its lowest, and two packets in flight.\<close>

definition byte_store :: "(bytes \<times> bytes \<times> nat) store" where
  "byte_store = \<lparr>st_store = (\<lambda>_ _ w. (w, True)), st_retrieve = (\<lambda>key w. (w, Some [ucast key])), st_clear = (\<lambda>_ w. w)\<rparr>"

definition two_in_flight :: publish_records where
  "two_in_flight = \<lparr>pr_outgoing =
      [\<lparr>r_packet_id = 8, r_qos = AtLeastOnce, r_state = PublishSend\<rparr>,
       \<lparr>r_packet_id = 7, r_qos = ExactlyOnce, r_state = PubRelSend\<rparr>], pr_incoming = []\<rparr>"

lemma byte_store_resends:
  "resend_stored pipe_transport pipe_clock byte_store key (c, (s, q, t)) =
     Some ((c\<lparr>mc_last_packet_tx_time := word_of_nat (t + 2)\<rparr>, (s @ [ucast key], q, t + 3)), Inr ())"
proof -
  have sent: "all_of (length [ucast key :: byte]) (send_buffer pipe_transport pipe_clock [ucast key]) (c, (s, q, t)) =
     Some ((c\<lparr>mc_last_packet_tx_time := word_of_nat (t + 2)\<rparr>, (s @ [ucast key], q, t + 3)), Inr ())"
    unfolding all_of_def by (subst io_bind_run [where m = "send_buffer pipe_transport pipe_clock [ucast key]", OF pipe_send_buffer])
      (simp_all add: io_return_def)
  have found: "world_call (st_retrieve byte_store key) (c, (s, q, t)) = Some ((c, (s, q, t)), Inr (Some [ucast key]))"
    by (simp add: world_call_def byte_store_def)
  have small: "\<not> length [ucast key :: byte] > unat Context.MAX_PACKET_SIZE" by simp
  show ?thesis
    unfolding resend_stored_def io_bind_run [where m = "world_call (st_retrieve byte_store key)", OF found] option.case if_not_P [OF small] by (rule sent)
qed

lemma two_in_flight_find:
  "pubrel_to_resend two_in_flight 0 = (2, Some 7)" "pubrel_to_resend two_in_flight 2 = (2, None)"
  "publish_to_resend two_in_flight 0 = (1, Some 8)" "publish_to_resend two_in_flight (Suc 0) = (2, None)"
  by (simp_all add: pubrel_to_resend_def publish_to_resend_def two_in_flight_def state_select.simps)

lemma two_in_flight_resent:
  assumes "mc_records c = Some two_in_flight"
  shows "\<exists>c' w'. handle_unclean_session pipe_transport pipe_clock (Some byte_store) (c, ([], [], 0)) =
    Some ((c', w'), Inr ())"
proof -
  let ?rels = "resend_turn pubrel_to_resend (\<lambda>i. resend_stored pipe_transport pipe_clock byte_store (incoming_key i))"
  let ?pubs = "resend_turn publish_to_resend (\<lambda>i. resend_stored pipe_transport pipe_clock byte_store (ucast i))"
  have records: "mc_records (c\<lparr>mc_last_packet_tx_time := t\<rparr>) = Some two_in_flight" for t using assms by simp
  have r1: "?rels 0 (c, ([], [], 0)) = Some ((c\<lparr>mc_last_packet_tx_time := 2\<rparr>, ([ucast (incoming_key 7)], [], 3)), Inr 2)"
    by (simp add: resend_turn_def io_bind_def ctx_def io_get_def assms two_in_flight_find io_map_err_def
        byte_store_resends io_return_def)
  have r2: "?rels 2 (c\<lparr>mc_last_packet_tx_time := 2\<rparr>, w) = Some ((c\<lparr>mc_last_packet_tx_time := 2\<rparr>, w), Inl (Inr ()))" for w
    by (simp add: resend_turn_def io_bind_def ctx_def io_get_def assms two_in_flight_find io_fail_def)
  have p1: "?pubs 0 (c\<lparr>mc_last_packet_tx_time := 2\<rparr>, (s, [], 3)) =
      Some ((c\<lparr>mc_last_packet_tx_time := 5\<rparr>, (s @ [8], [], 6)), Inr 1)" for s
    by (simp add: resend_turn_def io_bind_def ctx_def io_get_def assms two_in_flight_find io_map_err_def
        byte_store_resends io_return_def)
  have p2: "?pubs 1 (c\<lparr>mc_last_packet_tx_time := 5\<rparr>, w) = Some ((c\<lparr>mc_last_packet_tx_time := 5\<rparr>, w), Inl (Inr ()))" for w
    by (simp add: resend_turn_def io_bind_def ctx_def io_get_def assms two_in_flight_find io_fail_def)
  note rels = rounds_again [where body = ?rels, OF r1] rounds_stop [where body = ?rels, OF r2]
  note pubs = rounds_again [where body = ?pubs, OF p1] rounds_stop [where body = ?pubs, OF p2]
  show ?thesis
    by (simp add: handle_unclean_session_def resend_all_def io_bind_def io_lift_def rels pubs del: One_nat_def)
qed

theorem resumed_session_resends_witness:
  "\<exists>c' w'. handle_unclean_session pipe_transport pipe_clock (Some byte_store)
      (sample_context\<lparr>mc_records := Some two_in_flight\<rparr>, ([], [], 0)) = Some ((c', w'), Inr ()) \<and>
    fst w' = [7, 8]"
proof -
  let ?c = "sample_context\<lparr>mc_records := Some two_in_flight\<rparr>"
  obtain c' w' where run: "handle_unclean_session pipe_transport pipe_clock (Some byte_store) (?c, ([], [], 0)) =
      Some ((c', w'), Inr ())"
    using two_in_flight_resent [of ?c] by auto
  have "recalls pipe_transport pipe_clock byte_store (\<lambda>w key. Some [ucast key])"
    by (simp add: recalls_def byte_store_def)
  moreover have "silent_store (Some byte_store) fst" by (simp add: silent_store_def byte_store_def)
  moreover have "records_inv two_in_flight"
    by (simp add: two_in_flight_def records_inv_def array_ok_def empties_ok_def distinct_ids_def outgoing_ok_def)
  moreover have "ucast (incoming_key 7) = (7 :: byte)" by (simp add: incoming_key_def)
  ultimately have "fst w' = [7, 8]"
    using resumed_session_resends [OF pipe_carries _ _ _ _ run] by (simp add: two_in_flight_def is_empty_def Let_def)
  then show ?thesis using run by blast
qed

text \<open>C26. A fresh session forgets. It always returns and cannot fail: the index is reset, the buffer
  zeroed, every slot of both arrays emptied. From the store it clears the packet id of every
  PUBLISH that is owed, once and in order, and nothing else: the PUBRELs that were owed stay
  stored under their incoming keys, since the second pass looks for them in the array the line
  before it has emptied.\<close>

theorem fresh_session_forgets:
  assumes "mc_records c = Some r" and "records_inv r"
  shows "handle_clean_session store (c, w) =
    Some ((c\<lparr>mc_index := 0, mc_network := replicate (length (mc_network c)) 0,
        mc_records := Some \<lparr>pr_outgoing = replicate (length (pr_outgoing r)) empty_record,
          pr_incoming = replicate (length (pr_incoming r)) empty_record\<rparr>\<rparr>,
      case store of None \<Rightarrow> w
      | Some keeper \<Rightarrow> fold (\<lambda>i. st_clear keeper (ucast i))
          (map r_packet_id (filter (\<lambda>x. r_state x \<in> {PublishSend, PubAckPending, PubRecPending})
            (occupied (pr_outgoing r)))) w), Inr ())"
proof -
  have e: "empties_ok (pr_outgoing r)" using assms(2) by (simp add: records_inv_def array_ok_def)
  have "forgotten c = c\<lparr>mc_index := 0, mc_network := replicate (length (mc_network c)) 0,
      mc_records := Some \<lparr>pr_outgoing = replicate (length (pr_outgoing r)) empty_record,
        pr_incoming = replicate (length (pr_incoming r)) empty_record\<rparr>\<rparr>"
    by (cases r) (simp add: forgotten_def assms(1) clear_outgoing_def clear_incoming_def)
  then show ?thesis
    using e by (subst handle_clean_session_eq) (simp_all add: assms(1) cleared_def selected_def split: option.split)
qed

definition clearing_store :: "u32 list store" where
  "clearing_store = \<lparr>st_store = (\<lambda>_ _ w. (w, True)), st_retrieve = (\<lambda>_ w. (w, None)), st_clear = (\<lambda>key w. w @ [key])\<rparr>"

theorem fresh_session_forgets_witness:
  "\<exists>c'. handle_clean_session (Some clearing_store) (sample_context\<lparr>mc_records := Some two_in_flight\<rparr>, []) =
    Some ((c', [8]), Inr () :: unit + unit)"
proof -
  let ?c = "sample_context\<lparr>mc_records := Some two_in_flight\<rparr>"
  have "mc_records ?c = Some two_in_flight" by simp
  moreover have "records_inv two_in_flight"
    by (simp add: two_in_flight_def records_inv_def array_ok_def empties_ok_def distinct_ids_def outgoing_ok_def)
  ultimately show ?thesis
    by (subst fresh_session_forgets [where r = two_in_flight])
      (simp_all add: clearing_store_def two_in_flight_def is_empty_def)
qed

end
