(* ===== verification/Loop.thy ===== *)
theory Loop
  imports Establish
begin

text \<open>
  loop_.rs: one pass over what the transport has. A pass reads once behind the bytes it has
  kept, then takes whole packets off the front of the network buffer, hands each to the
  application and acknowledges it. The application works on the same world as the transport.
\<close>

section \<open>The application\<close>

record event =
  ev_packet_type :: byte
  ev_packet_id :: u16
  ev_publish :: "publish_in option"
  ev_reason_codes :: bytes
  ev_properties :: bytes

record ack_reply =
  ay_accepted :: bool
  ay_reason_code :: "byte option"
  ay_buffer :: bytes
  ay_used :: nat

definition ack_reply_new :: "bool \<Rightarrow> bytes \<Rightarrow> nat \<Rightarrow> ack_reply" where
  "ack_reply_new accepted buffer used =
     \<lparr>ay_accepted = accepted, ay_reason_code = None, ay_buffer = buffer, ay_used = used\<rparr>"

definition set_reason_code :: "byte \<Rightarrow> ack_reply \<Rightarrow> ack_reply" where
  "set_reason_code reason_code r =
     (if ay_accepted r then r\<lparr>ay_reason_code := Some reason_code\<rparr> else r)"

text \<open>\<open>EventHandler::on_event\<close>: the reply it makes and whether it accepts the event.\<close>

type_synonym 'w handler = "event \<Rightarrow> ack_reply \<Rightarrow> 'w \<Rightarrow> 'w \<times> ack_reply \<times> bool"

definition ignore_events :: "'w handler" where
  "ignore_events event reply w = (w, reply, True)"

definition dispatch :: "'w handler \<Rightarrow> event \<Rightarrow> bool \<Rightarrow>
    (mqtt_context \<times> 'w, client_error, bool \<times> byte option) io" where
  "dispatch handler event wants_reply =
     io_bind (ctx (\<lambda>c. ack_reply_new wants_reply (mc_ack_properties c) (mc_ack_used c))) (\<lambda>reply.
     io_bind (world_call (handler event reply)) (\<lambda>(reply, accepted).
     io_bind (upd (\<lambda>c. c\<lparr>mc_ack_properties := ay_buffer reply, mc_ack_used := ay_used reply\<rparr>)) (\<lambda>_.
     io_return (accepted, ay_reason_code reply))))"

definition accepted_or_failed :: "bool \<Rightarrow> client_error + unit" where
  "accepted_or_failed accepted = (if accepted then Inr () else Inl CE_EventCallbackFailed)"

section \<open>The front of the buffer\<close>

abbreviation (input) PACKET_TX_TIMEOUT_MS :: u32 where "PACKET_TX_TIMEOUT_MS \<equiv> 30000"

abbreviation (input) PACKET_RX_TIMEOUT_MS :: u32 where "PACKET_RX_TIMEOUT_MS \<equiv> 30000"

abbreviation (input) PINGRESP_TIMEOUT_MS :: u32 where "PINGRESP_TIMEOUT_MS \<equiv> 5000"

definition packet_view :: "bytes \<Rightarrow> nat \<Rightarrow> nat \<Rightarrow> packet_info option" where
  "packet_view network index whole =
     (case process_incoming_packet_type_and_length network index of
        Inl _ \<Rightarrow> None
      | Inr header \<Rightarrow> map_option (\<lambda>body. \<lparr>pi_packet_type = h_packet_type header,
            pi_remaining_length = h_remaining_length header, pi_remaining_data = body\<rparr>)
          (slice network (h_header_length header) whole))"

definition view_of :: "nat \<Rightarrow> mqtt_context \<Rightarrow> client_error + packet_info" where
  "view_of whole c = ok_or CE_RecvFailed (packet_view (mc_network c) (mc_index c) whole)"

definition measure_packet :: "mqtt_context \<Rightarrow> client_error + nat" where
  "measure_packet c =
     rbind (map_err client_of_header (process_incoming_packet_type_and_length (mc_network c) (mc_index c)))
       (\<lambda>header. Inr (unat (h_remaining_length header) + h_header_length header))"

definition consume :: "nat \<Rightarrow> mqtt_context \<Rightarrow> mqtt_context" where
  "consume whole c = c\<lparr>mc_index := mc_index c - whole,
     mc_network := drop whole (mc_network c) @ drop (length (mc_network c) - whole) (mc_network c)\<rparr>"

definition limits_of :: "mqtt_context \<Rightarrow> ack_limits" where
  "limits_of c = \<lparr>al_max_packet_size = lc_max_packet_size (cp_client (mc_properties c)),
     al_request_problem_info = lc_request_problem_info (cp_client (mc_properties c))\<rparr>"

text \<open>An acknowledgement at the front of the buffer.\<close>

definition read_ack_packet :: "nat \<Rightarrow> mqtt_context \<Rightarrow> client_error + packet_info \<times> ack_info" where
  "read_ack_packet whole c =
     rbind (view_of whole c) (\<lambda>view.
     rbind (map_err client_of_ack (deserialize_ack view (limits_of c))) (\<lambda>info. Inr (view, info)))"

definition packet_id_or_0 :: "u16 option \<Rightarrow> u16" where
  "packet_id_or_0 i = (case i of None \<Rightarrow> 0 | Some i \<Rightarrow> i)"

section \<open>Acknowledging\<close>

record ack_answer =
  aa_reason_code :: "byte option"
  aa_property_length :: nat

definition validate_publish_ack_reason_code :: "byte option \<Rightarrow> byte \<Rightarrow> client_error + unit" where
  "validate_publish_ack_reason_code reason_code packet_type =
     (case reason_code of
        None \<Rightarrow> Inl CE_BadParameter
      | Some reason_code \<Rightarrow>
          if reason_code = 0 then Inr ()
          else if reason_code \<in> {0x10, 0x80, 0x83, 0x87, 0x90, 0x91, 0x97, 0x99}
          then (if packet_type = PUBACK \<or> packet_type = PUBREC then Inr () else Inl CE_BadParameter)
          else if reason_code = 0x92
          then (if packet_type = PUBREL \<or> packet_type = PUBCOMP then Inr () else Inl CE_BadParameter)
          else Inl CE_BadParameter)"

text \<open>A PUBREC and a PUBREL are kept, because the broker will ask again.\<close>

definition keep_ack :: "'w store option \<Rightarrow> byte \<Rightarrow> u16 \<Rightarrow> bytes list \<Rightarrow>
    (mqtt_context \<times> 'w, client_error, unit) io" where
  "keep_ack store packet_type packet_id parts =
     (if packet_type \<noteq> PUBACK \<and> packet_type \<noteq> PUBCOMP then
        case store of
          None \<Rightarrow> io_return ()
        | Some keeper \<Rightarrow>
            io_bind (world_call (st_store keeper (incoming_key packet_id) parts)) (\<lambda>stored.
            if stored then io_return () else io_fail CE_PublishStoreFailed)
      else io_return ())"

definition send_publish_acks_without_property :: "'w transport \<Rightarrow> 'w clock \<Rightarrow> 'w store option \<Rightarrow> u16 \<Rightarrow>
    publish_state \<Rightarrow> (mqtt_context \<times> 'w, client_error, unit) io" where
  "send_publish_acks_without_property transport clock store packet_id state =
     (let packet_type = ack_type_to_send state
      in if packet_type = 0 then io_return ()
      else case ack_from_packet_type packet_type of
        None \<Rightarrow> io_return ()
      | Some ack \<Rightarrow>
          (case serialize_ack (replicate PUBLISH_ACK_PACKET_SIZE 0) packet_type packet_id None [] of
             (packet, answer) \<Rightarrow>
           io_bind (io_lift (map_err (\<lambda>_. CE_BadParameter) answer)) (\<lambda>written.
           io_bind (ctx (\<lambda>c. ls_max_packet_size (cp_server (mc_properties c)))) (\<lambda>max_packet_size.
           if word_of_nat PUBLISH_ACK_PACKET_SIZE > max_packet_size then io_fail CE_BadParameter
           else
           io_bind must_be_connected (\<lambda>_.
           io_bind (io_lift (ok_or CE_SendFailed (slice packet 0 written))) (\<lambda>bytes.
           io_bind (keep_ack store packet_type packet_id [bytes]) (\<lambda>_.
           io_bind (all_of written (send_buffer transport clock bytes)) (\<lambda>_.
           upd_try (ack_sent packet_id ack)))))))))"

text \<open>The context's own buffer is out of it while it is sent: whatever the sender does, the same
  buffer is put back.\<close>

definition build_and_send_ack_with_props :: "'w transport \<Rightarrow> 'w clock \<Rightarrow> 'w store option \<Rightarrow> byte \<Rightarrow> u16 \<Rightarrow>
    byte \<Rightarrow> u32 \<Rightarrow> nat \<Rightarrow> (mqtt_context \<times> 'w, client_error, unit) io" where
  "build_and_send_ack_with_props transport clock store packet_type packet_id reason_code
       remaining_length property_length =
     (case serialize_ack_fixed (replicate 8 0) packet_type packet_id remaining_length reason_code of
        (header, header_length) \<Rightarrow>
      if header_length = 0 then io_fail CE_SendFailed
      else case encode_variable_length (replicate 4 0)
          (case try_u32 property_length of Some n \<Rightarrow> n | None \<Rightarrow> 0) of
        (length_field, length_written) \<Rightarrow>
      io_bind (io_lift (ok_or CE_SendFailed (slice header 0 header_length))) (\<lambda>head.
      io_bind (io_lift (ok_or CE_SendFailed (slice length_field 0 length_written))) (\<lambda>prefix.
      let count = (if property_length = 0 then 2 else 3);
          whole = header_length + length_written + property_length
      in
      io_bind (upd (\<lambda>c. if property_length > 0 then c\<lparr>mc_ack_used := 0\<rparr> else c)) (\<lambda>_.
      if whole > unat Context.MAX_PACKET_SIZE then io_fail CE_BadParameter
      else
      io_bind (ctx mc_ack_properties) (\<lambda>ack_buffer.
      io_bind (upd (\<lambda>c. c\<lparr>mc_ack_properties := []\<rparr>)) (\<lambda>_.
      io_bind (io_try (
        io_bind (io_lift (ok_or CE_SendFailed (slice ack_buffer 0 property_length))) (\<lambda>properties.
        io_bind (io_lift (ok_or CE_SendFailed (slice [head, prefix, properties] 0 count))) (\<lambda>gather.
        io_bind (keep_ack store packet_type packet_id gather) (\<lambda>_.
        all_of whole (send_vectors transport clock gather)))))) (\<lambda>outcome.
      io_bind (upd (\<lambda>c. c\<lparr>mc_ack_properties := ack_buffer\<rparr>)) (\<lambda>_.
      io_lift outcome))))))))"

text \<open>What \<open>sendPublishAcksWithProperty\<close> refuses before it asks whether there is a connection.\<close>

definition check_ack_reply :: "byte \<Rightarrow> ack_answer \<Rightarrow> mqtt_context \<Rightarrow> client_error + unit" where
  "check_ack_reply packet_type reply c =
     (if packet_type \<noteq> 0 then
        rbind (if aa_property_length reply > 0 then
                 rbind (ok_or CE_BadParameter (slice (mc_ack_properties c) 0 (aa_property_length reply)))
                   (\<lambda>properties. map_err client_of_validate (validate_publish_ack_properties properties))
               else Inr ()) (\<lambda>_.
        rbind (validate_publish_ack_reason_code (aa_reason_code reply) packet_type) (\<lambda>_.
        rbind (map_err (\<lambda>_. CE_BadParameter) (ack_packet_size
                 (ls_max_packet_size (cp_server (mc_properties c))) (aa_property_length reply))) (\<lambda>_.
        Inr ())))
      else Inr ())"

definition send_publish_acks_with_property :: "'w transport \<Rightarrow> 'w clock \<Rightarrow> 'w store option \<Rightarrow> u16 \<Rightarrow>
    publish_state \<Rightarrow> ack_answer \<Rightarrow> (mqtt_context \<times> 'w, client_error, unit) io" where
  "send_publish_acks_with_property transport clock store packet_id state reply =
     (let packet_type = ack_type_to_send state
      in io_bind (io_bind (ctx (check_ack_reply packet_type reply)) io_lift) (\<lambda>_.
      io_bind must_be_connected (\<lambda>_.
      if packet_type = 0 then io_return ()
      else case ack_from_packet_type packet_type of
        None \<Rightarrow> io_return ()
      | Some ack \<Rightarrow>
          io_bind (io_bind (ctx (\<lambda>c. map_err (\<lambda>_. CE_BadParameter) (ack_packet_size
             (ls_max_packet_size (cp_server (mc_properties c))) (aa_property_length reply)))) io_lift) (\<lambda>size.
          io_bind (build_and_send_ack_with_props transport clock store packet_type packet_id
             (case aa_reason_code reply of None \<Rightarrow> 0 | Some code \<Rightarrow> code)
             (ps_remaining_length size) (aa_property_length reply)) (\<lambda>_.
          upd_try (ack_sent packet_id ack))))))"

definition send_ack_for :: "'w transport \<Rightarrow> 'w clock \<Rightarrow> 'w store option \<Rightarrow> u16 \<Rightarrow> publish_state \<Rightarrow>
    ack_answer \<Rightarrow> (mqtt_context \<times> 'w, client_error, unit) io" where
  "send_ack_for transport clock store packet_id state reply =
     (if aa_property_length reply = 0 \<and> aa_reason_code reply = None
      then send_publish_acks_without_property transport clock store packet_id state
      else send_publish_acks_with_property transport clock store packet_id state reply)"

text \<open>After the application: its refusal, a section too long, and the acknowledgement it gets.\<close>

definition answer_packet :: "'w transport \<Rightarrow> 'w clock \<Rightarrow> 'w store option \<Rightarrow> u16 \<Rightarrow> publish_state \<Rightarrow>
    byte option \<Rightarrow> (mqtt_context \<times> 'w, client_error, unit) io" where
  "answer_packet transport clock store packet_id state reason_code =
     io_bind (ctx mc_ack_used) (\<lambda>used.
     send_ack_for transport clock store packet_id state
       \<lparr>aa_reason_code = reason_code, aa_property_length = used\<rparr>)"

definition section_fits :: "(mqtt_context \<times> 'w, client_error, unit) io" where
  "section_fits = io_bind (ctx mc_ack_used) (\<lambda>used.
     if used \<ge> unat REMAINING_LENGTH_INVALID then io_fail CE_SendFailed else io_return ())"

section \<open>Handling a packet\<close>

definition read_publish_packet :: "nat \<Rightarrow> mqtt_context \<Rightarrow> client_error + packet_info \<times> publish_in" where
  "read_publish_packet whole c =
     rbind (view_of whole c) (\<lambda>view.
     rbind (map_err client_of_publish (deserialize_publish view
        (lc_max_packet_size (cp_client (mc_properties c)))
        (lc_topic_alias_max (cp_client (mc_properties c))))) (\<lambda>incoming.
     if mc_records c = None \<and> pu_qos incoming \<noteq> AtMostOnce then Inl CE_RecvFailed
     else Inr (view, incoming)))"

text \<open>The record of an incoming PUBLISH: the state it owes an acknowledgement for, and whether it
  is there already.\<close>

definition receive_publish :: "u16 \<Rightarrow> qos \<Rightarrow> mqtt_context \<Rightarrow>
    mqtt_context \<times> (client_error + publish_state \<times> bool)" where
  "receive_publish packet_id qos c =
     (case mc_records c of
        None \<Rightarrow> (c, Inr (PS_Null, False))
      | Some records \<Rightarrow>
          (case update_publish records packet_id Op_Receive qos of
             (records, answer) \<Rightarrow> (c\<lparr>mc_records := Some records\<rparr>,
               case answer of
                 Inr state \<Rightarrow> Inr (state, False)
               | Inl S_StateCollision \<Rightarrow> Inr (calculate_state_publish Op_Receive qos, True)
               | Inl e \<Rightarrow> Inl (CE_State e))))"

definition publish_event :: "packet_info \<Rightarrow> publish_in \<Rightarrow> event" where
  "publish_event view incoming = \<lparr>ev_packet_type = pi_packet_type view,
     ev_packet_id = packet_id_or_0 (pu_packet_id incoming), ev_publish = Some incoming,
     ev_reason_codes = [], ev_properties = pu_properties incoming\<rparr>"

definition handle_incoming_publish :: "'w transport \<Rightarrow> 'w clock \<Rightarrow> 'w store option \<Rightarrow> 'w handler \<Rightarrow>
    nat \<Rightarrow> (mqtt_context \<times> 'w, client_error, unit) io" where
  "handle_incoming_publish transport clock store handler whole =
     io_bind (io_bind (ctx (read_publish_packet whole)) io_lift) (\<lambda>(view, incoming).
     let qos = pu_qos incoming; packet_id = packet_id_or_0 (pu_packet_id incoming)
     in io_bind (upd_try (receive_publish packet_id qos)) (\<lambda>(ack_state, duplicate).
     io_bind (if \<not> duplicate \<or> qos = AtLeastOnce
              then dispatch handler (publish_event view incoming) (qos \<noteq> AtMostOnce)
              else io_return (True, None)) (\<lambda>(accepted, reason_code).
     io_bind (io_lift (accepted_or_failed accepted)) (\<lambda>_.
     if qos = AtMostOnce then io_return ()
     else
     io_bind section_fits (\<lambda>_.
     answer_packet transport clock store packet_id ack_state reason_code)))))"

definition ack_event :: "packet_info \<Rightarrow> ack_info \<Rightarrow> event" where
  "ack_event view info = \<lparr>ev_packet_type = pi_packet_type view,
     ev_packet_id = packet_id_or_0 (ai_packet_id info), ev_publish = None,
     ev_reason_codes = ai_reason_codes info, ev_properties = ai_properties info\<rparr>"

text \<open>The move of the state machine an incoming acknowledgement makes.\<close>

definition ack_received :: "u16 \<Rightarrow> ack_type \<Rightarrow> mqtt_context \<Rightarrow> mqtt_context \<times> (client_error + publish_state)" where
  "ack_received packet_id ack c =
     (case mc_records c of
        None \<Rightarrow> (c, Inr PS_Null)
      | Some records \<Rightarrow> on_records (\<lambda>r. update_ack r packet_id ack Op_Receive) records c)"

text \<open>What the acknowledgement releases from the store, and under which key.\<close>

definition release_stored :: "'w store option \<Rightarrow> ack_type \<Rightarrow> u16 \<Rightarrow> (mqtt_context \<times> 'w, client_error, unit) io" where
  "release_stored store ack packet_id =
     (case store of
        None \<Rightarrow> io_return ()
      | Some keeper \<Rightarrow> world_call (\<lambda>w. (st_clear keeper
          (if ack \<in> {PubAck, PubRec} then ucast packet_id else incoming_key packet_id) w, ())))"

definition handle_publish_acks :: "'w transport \<Rightarrow> 'w clock \<Rightarrow> 'w store option \<Rightarrow> 'w handler \<Rightarrow>
    nat \<Rightarrow> (mqtt_context \<times> 'w, client_error, unit) io" where
  "handle_publish_acks transport clock store handler whole =
     io_bind (io_bind (ctx (view_of whole)) io_lift) (\<lambda>view.
     case ack_from_packet_type (pi_packet_type view) of
       None \<Rightarrow> io_fail CE_BadResponse
     | Some ack \<Rightarrow>
         io_bind (io_bind (ctx (read_ack_packet whole)) io_lift) (\<lambda>(view, info).
         let packet_id = packet_id_or_0 (ai_packet_id info)
         in io_bind (upd_try (ack_received packet_id ack)) (\<lambda>ack_state.
         io_bind (release_stored store ack packet_id) (\<lambda>_.
         io_bind (dispatch handler (ack_event view info) (ack \<notin> {PubAck, PubComp})) (\<lambda>(accepted, reason_code).
         io_bind (io_lift (accepted_or_failed accepted)) (\<lambda>_.
         io_bind section_fits (\<lambda>_.
         if ack \<in> {PubAck, PubComp} then io_return ()
         else answer_packet transport clock store packet_id ack_state reason_code)))))))"

definition handle_pingresp :: "'w handler \<Rightarrow> nat \<Rightarrow> bool \<Rightarrow> (mqtt_context \<times> 'w, client_error, unit) io" where
  "handle_pingresp handler whole manage_keep_alive =
     io_bind (io_bind (ctx (read_ack_packet whole)) io_lift) (\<lambda>(view, info).
     if manage_keep_alive then upd (\<lambda>c. c\<lparr>mc_waiting_for_ping_resp := False\<rparr>)
     else
     io_bind (dispatch handler \<lparr>ev_packet_type = pi_packet_type view,
         ev_packet_id = packet_id_or_0 (ai_packet_id info), ev_publish = None,
         ev_reason_codes = [], ev_properties = []\<rparr> False) (\<lambda>(accepted, _).
     io_lift (accepted_or_failed accepted)))"

definition handle_sub_unsub_ack :: "'w handler \<Rightarrow> nat \<Rightarrow> (mqtt_context \<times> 'w, client_error, unit) io" where
  "handle_sub_unsub_ack handler whole =
     io_bind (io_bind (ctx (read_ack_packet whole)) io_lift) (\<lambda>(view, info).
     io_bind (dispatch handler (ack_event view info) False) (\<lambda>(accepted, _).
     io_lift (accepted_or_failed accepted)))"

definition handle_incoming_ack :: "'w transport \<Rightarrow> 'w clock \<Rightarrow> 'w store option \<Rightarrow> 'w handler \<Rightarrow>
    nat \<Rightarrow> bool \<Rightarrow> (mqtt_context \<times> 'w, client_error, unit) io" where
  "handle_incoming_ack transport clock store handler whole manage_keep_alive =
     io_bind (ctx (\<lambda>c. get_at (mc_network c) 0)) (\<lambda>found.
     case found of
       None \<Rightarrow> io_fail CE_RecvFailed
     | Some packet_type \<Rightarrow>
         if packet_type \<in> {PUBACK, PUBREC, PUBREL, PUBCOMP}
         then handle_publish_acks transport clock store handler whole
         else if packet_type = PINGRESP then handle_pingresp handler whole manage_keep_alive
         else if packet_type \<in> {SUBACK, UNSUBACK} then handle_sub_unsub_ack handler whole
         else io_fail CE_BadResponse)"

definition disconnect_event :: "packet_info \<Rightarrow> disconnect_in \<Rightarrow> event" where
  "disconnect_event view incoming = \<lparr>ev_packet_type = pi_packet_type view, ev_packet_id = 0,
     ev_publish = None, ev_reason_codes = (case dc_reason_code incoming of None \<Rightarrow> [] | Some code \<Rightarrow> [code]),
     ev_properties = dc_properties incoming\<rparr>"

text \<open>The application's refusal is passed on, a malformed packet is answered with a DISCONNECT.\<close>

definition tell_disconnect :: "'w handler \<Rightarrow> packet_info \<Rightarrow> (mqtt_context \<times> 'w, client_error, unit) io" where
  "tell_disconnect handler view =
     io_bind (io_bind (ctx (\<lambda>c. map_err client_of_disconnect (deserialize_disconnect view
         (lc_max_packet_size (cp_client (mc_properties c)))))) io_lift) (\<lambda>incoming.
     io_bind (dispatch handler (disconnect_event view incoming) False) (\<lambda>(accepted, _).
     io_lift (accepted_or_failed accepted)))"

definition answer_malformed :: "'w transport \<Rightarrow> 'w clock \<Rightarrow> (mqtt_context \<times> 'w, client_error, unit) io" where
  "answer_malformed transport clock =
     io_bind (disconnect transport clock (Some MALFORMED_PACKET) []) (\<lambda>_. io_fail CE_NotConnected)"

definition handle_incoming_disconnect :: "'w transport \<Rightarrow> 'w clock \<Rightarrow> 'w handler \<Rightarrow> nat \<Rightarrow>
    (mqtt_context \<times> 'w, client_error, unit) io" where
  "handle_incoming_disconnect transport clock handler whole =
     io_bind (io_bind (ctx (view_of whole)) io_lift) (\<lambda>view.
     io_bind (io_try (tell_disconnect handler view)) (\<lambda>outcome.
     io_bind (io_try (case outcome of
         Inr _ \<Rightarrow> io_return ()
       | Inl e \<Rightarrow>
           if e = CE_EventCallbackFailed then io_fail e
           else answer_malformed transport clock)) (\<lambda>status.
     io_bind (upd (\<lambda>c. c\<lparr>mc_connect_status := NotConnected\<rparr>)) (\<lambda>_.
     io_lift status))))"

definition handle_packet :: "'w transport \<Rightarrow> 'w clock \<Rightarrow> 'w store option \<Rightarrow> 'w handler \<Rightarrow>
    nat \<Rightarrow> bool \<Rightarrow> (mqtt_context \<times> 'w, client_error, unit) io" where
  "handle_packet transport clock store handler whole manage_keep_alive =
     io_bind (ctx (\<lambda>c. get_at (mc_network c) 0)) (\<lambda>found.
     case found of
       None \<Rightarrow> io_fail CE_RecvFailed
     | Some packet_type \<Rightarrow>
         if packet_type AND 0xF0 = PUBLISH then handle_incoming_publish transport clock store handler whole
         else if packet_type = DISCONNECT then handle_incoming_disconnect transport clock handler whole
         else handle_incoming_ack transport clock store handler whole manage_keep_alive)"

section \<open>Keep alive\<close>

definition handle_keep_alive :: "'w transport \<Rightarrow> 'w clock \<Rightarrow> (mqtt_context \<times> 'w, client_error, unit) io" where
  "handle_keep_alive transport clock =
     io_bind (world_call clock) (\<lambda>now.
     io_bind (ctx (\<lambda>c. c)) (\<lambda>c.
     let tx_timeout = sat_mul 1000 (ucast (mc_keep_alive_seconds c));
         tx_timeout = (if PACKET_TX_TIMEOUT_MS < tx_timeout then PACKET_TX_TIMEOUT_MS else tx_timeout)
     in if mc_waiting_for_ping_resp c then
          (if elapsed_ms now (mc_ping_req_send_time c) > PINGRESP_TIMEOUT_MS then io_fail CE_KeepAliveTimeout
           else io_return ())
        else if tx_timeout \<noteq> 0 \<and> elapsed_ms now (mc_last_packet_tx_time c) \<ge> tx_timeout
        then ping transport clock
        else let since_rx = elapsed_ms now (mc_last_packet_rx_time c)
             in if since_rx \<noteq> 0 \<and> since_rx \<ge> PACKET_RX_TIMEOUT_MS then ping transport clock
                else io_return ()))"

section \<open>A pass\<close>

definition nothing_received :: "recv \<Rightarrow> bool" where
  "nothing_received received \<longleftrightarrow> received = Recv_Nothing \<or> received = Recv_Bytes 0"

text \<open>One read behind what is kept.\<close>

definition receive_once :: "'w transport \<Rightarrow> (mqtt_context \<times> 'w, client_error, recv) io" where
  "receive_once transport =
     io_bind (ctx (\<lambda>c. (mc_index c, slice_from (mc_network c) (mc_index c)))) (\<lambda>(index, room).
     case room of
       None \<Rightarrow> io_return Recv_Failed
     | Some into \<Rightarrow>
         io_bind (world_call (tr_recv transport into)) (\<lambda>(given, answer).
         io_bind (upd (receive_into index into given)) (\<lambda>_. io_return answer)))"

text \<open>What arrived counts; the length of the packet at the front, or why there is none.\<close>

definition take_received :: "recv \<Rightarrow> mqtt_context \<Rightarrow> mqtt_context \<times> (client_error + nat)" where
  "take_received received c =
     (if received = Recv_Failed then (transport_failed c, Inl CE_RecvFailed)
      else if nothing_received received \<and> mc_index c = 0 then (c, Inl CE_NoDataAvailable)
      else let c = (case received of Recv_Bytes count \<Rightarrow> c\<lparr>mc_index := mc_index c + count\<rparr> | _ \<Rightarrow> c)
           in (c, measure_packet c))"

definition check_keep_alive :: "'w transport \<Rightarrow> 'w clock \<Rightarrow> bool \<Rightarrow> recv \<Rightarrow> client_error + nat \<Rightarrow>
    (mqtt_context \<times> 'w, client_error, nat) io" where
  "check_keep_alive transport clock manage_keep_alive received status =
     (if nothing_received received \<and> manage_keep_alive \<and>
         (case status of Inr _ \<Rightarrow> True | Inl e \<Rightarrow> e \<in> {CE_NoDataAvailable, CE_NeedMoreBytes})
      then io_bind (handle_keep_alive transport clock) (\<lambda>_. io_lift status)
      else io_lift status)"

definition packet_ready :: "nat \<Rightarrow> mqtt_context \<Rightarrow> client_error + unit" where
  "packet_ready whole c =
     (if whole > length (mc_network c) then Inl CE_RecvFailed
      else if whole > mc_index c then Inl CE_NeedMoreBytes
      else Inr ())"

text \<open>The body of the loop: the status of this turn.\<close>

definition take_packet :: "'w transport \<Rightarrow> 'w clock \<Rightarrow> 'w store option \<Rightarrow> 'w handler \<Rightarrow> bool \<Rightarrow> recv \<Rightarrow>
    (mqtt_context \<times> 'w, client_error, unit) io" where
  "take_packet transport clock store handler manage_keep_alive received =
     io_bind (io_try (upd_try (take_received received))) (\<lambda>status.
     io_bind (check_keep_alive transport clock manage_keep_alive received status) (\<lambda>whole.
     io_bind (io_bind (ctx (packet_ready whole)) io_lift) (\<lambda>_.
     io_bind (handle_packet transport clock store handler whole manage_keep_alive) (\<lambda>_.
     io_bind (upd (consume whole)) (\<lambda>_.
     io_bind (world_call clock) (\<lambda>now.
     upd (\<lambda>c. c\<lparr>mc_last_packet_rx_time := now\<rparr>)))))))"

definition finish :: "client_error + unit \<Rightarrow> client_error + unit" where
  "finish outcome = (if outcome = Inl CE_NoDataAvailable then Inr () else outcome)"

definition iteration_turn :: "'w transport \<Rightarrow> 'w clock \<Rightarrow> 'w store option \<Rightarrow> 'w handler \<Rightarrow> bool \<Rightarrow> recv \<Rightarrow>
    (mqtt_context \<times> 'w, client_error + unit, recv) io" where
  "iteration_turn transport clock store handler manage_keep_alive received =
     io_bind (io_map_err Inl (take_packet transport clock store handler manage_keep_alive received)) (\<lambda>_.
     io_bind (ctx mc_index) (\<lambda>index.
     if index = 0 then io_fail (Inr ())
     else io_return (if nothing_received received then received else Recv_Bytes 0)))"

definition receive_single_iteration :: "'w transport \<Rightarrow> 'w clock \<Rightarrow> 'w store option \<Rightarrow> 'w handler \<Rightarrow> bool \<Rightarrow>
    (mqtt_context \<times> 'w, client_error, unit) io" where
  "receive_single_iteration transport clock store handler manage_keep_alive =
     io_bind (receive_once transport) (\<lambda>received.
     io_bind (rounds (iteration_turn transport clock store handler manage_keep_alive) received) (\<lambda>status.
     io_lift (finish status)))"

definition process_loop :: "'w transport \<Rightarrow> 'w clock \<Rightarrow> 'w store option \<Rightarrow> 'w handler \<Rightarrow>
    (mqtt_context \<times> 'w, client_error, unit) io" where
  "process_loop transport clock store handler =
     io_bind (upd (\<lambda>c. c\<lparr>mc_control_packet_sent := False\<rparr>)) (\<lambda>_.
     receive_single_iteration transport clock store handler True)"

definition receive_loop :: "'w transport \<Rightarrow> 'w clock \<Rightarrow> 'w store option \<Rightarrow> 'w handler \<Rightarrow>
    (mqtt_context \<times> 'w, client_error, unit) io" where
  "receive_loop transport clock store handler =
     receive_single_iteration transport clock store handler False"

end
