(* ===== verification/Frames.thy ===== *)
theory Frames
  imports Loop
begin

text \<open>
  What an operation leaves alone, whatever it answers. A relation between the state before and
  after that is reflexive and transitive and that the single steps respect is respected by the
  operations made of them: \<open>frame\<close> for the combinators, \<open>sending_frame\<close> for the senders,
  \<open>acking_frame\<close> for the acknowledgements and \<open>handling_frame\<close> for what a packet sets going.
\<close>

definition keeps :: "('s \<Rightarrow> 's \<Rightarrow> bool) \<Rightarrow> ('s, 'e, 'a) io \<Rightarrow> bool" where
  "keeps kept m \<longleftrightarrow> (\<forall>s. wlp m (\<lambda>s' _. kept s s') s)"

lemma keepsD: "keeps kept m \<Longrightarrow> wlp m (\<lambda>s' _. kept s s') s"
  by (simp add: keeps_def)

locale frame =
  fixes kept :: "mqtt_context \<times> 'w \<Rightarrow> mqtt_context \<times> 'w \<Rightarrow> bool"
  assumes kept_refl: "kept s s"
    and kept_trans: "kept s s' \<Longrightarrow> kept s' s'' \<Longrightarrow> kept s s''"
begin

lemma keeps_pure: "keeps kept (io_return a)" "keeps kept (io_fail e)" "keeps kept (io_lift x)" "keeps kept (ctx f)"
  using kept_refl by (auto simp: keeps_def wlp_simps)

lemma keeps_bind:
  assumes "keeps kept m" "\<And>a. keeps kept (k a)"
  shows "keeps kept (io_bind m k)"
  unfolding keeps_def
proof (intro allI wlp_bindI [OF keepsD [OF assms(1)]])
  show "wlp (k a) (\<lambda>s' _. kept s s') s1" if "kept s s1" for s s1 a
    using kept_trans [OF that] by (intro wlp_conseq [OF keepsD [OF assms(2)]])
qed

lemma keeps_wrapped: "keeps kept m \<Longrightarrow> keeps kept (io_try m)" "keeps kept m \<Longrightarrow> keeps kept (io_map_err g m)"
  by (simp_all add: keeps_def wlp_simps)

lemma keeps_world: "(\<And>c w. kept (c, w) (c, fst (f w))) \<Longrightarrow> keeps kept (world_call f)"
  by (auto simp: keeps_def wlp_simps split: prod.split) (metis fst_conv)

lemma keeps_upd: "(\<And>c w. kept (c, w) (f c, w)) \<Longrightarrow> keeps kept (upd f)"
  by (auto simp: keeps_def wlp_simps)

lemma keeps_upd_try: "(\<And>c w. kept (c, w) (fst (f c), w)) \<Longrightarrow> keeps kept (upd_try f)"
  by (auto simp: keeps_def wlp_simps split: prod.split) (metis fst_conv)

lemma keeps_if: "keeps kept m \<Longrightarrow> keeps kept m' \<Longrightarrow> keeps kept (if b then m else m')"
  by simp

lemma keeps_option: "keeps kept m \<Longrightarrow> (\<And>a. keeps kept (f a)) \<Longrightarrow> keeps kept (case x of None \<Rightarrow> m | Some a \<Rightarrow> f a)"
  by (cases x) simp_all

lemma keeps_prod: "(\<And>a b. keeps kept (f a b)) \<Longrightarrow> keeps kept (case p of (a, b) \<Rightarrow> f a b)"
  by (cases p) simp

lemma keeps_rounds:
  assumes "\<And>x. keeps kept (body x)"
  shows "keeps kept (rounds body x)"
  unfolding keeps_def
proof
  fix s
  show "wlp (rounds body x) (\<lambda>s' _. kept s s') s"
  proof (rule wlp_rounds [where I = "\<lambda>_ s'. kept s s'"])
    show "wlp (body y) (\<lambda>s' r. case r of Inl a \<Rightarrow> kept s s' | Inr x' \<Rightarrow> kept s s') s1" if "kept s s1" for y s1
      by (rule wlp_conseq [OF keepsD [OF assms]]) (use that kept_trans in \<open>auto split: sum.split\<close>)
  qed (rule kept_refl)
qed

lemma keeps_connected: "keeps kept must_be_connected"
  unfolding must_be_connected_def by (intro keeps_bind keeps_pure)

lemmas keeps_intros = keeps_pure keeps_bind keeps_wrapped keeps_if keeps_option keeps_prod keeps_connected

end

locale sending_frame = frame kept
  for kept :: "mqtt_context \<times> 'w \<Rightarrow> mqtt_context \<times> 'w \<Rightarrow> bool" +
  fixes tr :: "'w transport" and clock :: "'w clock"
  assumes kept_clock: "kept (c, w) (c, fst (clock w))"
    and kept_send: "kept (c, w) (c, fst (tr_send tr bs w))"
    and kept_writev: "kept (c, w) (c, fst (tr_writev tr vs w))"
    and kept_stamp: "kept (c, w) (c\<lparr>mc_last_packet_tx_time := t\<rparr>, w)"
    and kept_failed: "kept (c, w) (transport_failed c, w)"
    and kept_pinged: "kept (c, w) (c\<lparr>mc_ping_req_send_time := t, mc_waiting_for_ping_resp := b\<rparr>, w)"
begin

lemma keeps_clock: "keeps kept (world_call clock)"
  by (rule keeps_world) (rule kept_clock)

lemma keeps_stamp_tx: "keeps kept (stamp_tx clock)"
  unfolding stamp_tx_def by (intro keeps_bind keeps_clock keeps_upd kept_stamp)

lemma keeps_send_buffer: "keeps kept (send_buffer tr clock buffer)"
  unfolding send_buffer_def send_buffer_turn_def
  by (intro keeps_rounds keeps_intros keeps_clock)
    (auto split: sent.split intro!: keeps_intros keeps_clock keeps_stamp_tx keeps_upd kept_failed keeps_world kept_send)

lemma keeps_send_vectors: "keeps kept (send_vectors tr clock vectors)"
  unfolding send_vectors_def send_vectors_turn_def Let_def
  by (intro keeps_rounds keeps_intros keeps_clock)
    (auto split: sent.split intro!: keeps_intros keeps_clock keeps_stamp_tx keeps_upd kept_failed keeps_world kept_writev)

lemma keeps_all_of:
  "keeps kept (all_of n (send_buffer tr clock buffer))" "keeps kept (all_of n (send_vectors tr clock vectors))"
  unfolding all_of_def by (intro keeps_intros keeps_send_buffer keeps_send_vectors)+

lemma keeps_ping: "keeps kept (ping tr clock)"
  unfolding ping_def by (intro keeps_intros keeps_all_of keeps_upd kept_pinged)

lemma keeps_handle_keep_alive: "keeps kept (handle_keep_alive tr clock)"
  unfolding handle_keep_alive_def Let_def by (intro keeps_intros keeps_clock keeps_ping)

lemma keeps_check_keep_alive: "keeps kept (check_keep_alive tr clock manage received status)"
  unfolding check_keep_alive_def by (intro keeps_intros keeps_handle_keep_alive)

end

locale acking_frame = sending_frame kept tr clock
  for kept :: "mqtt_context \<times> 'w \<Rightarrow> mqtt_context \<times> 'w \<Rightarrow> bool" and tr clock +
  fixes store :: "'w store option"
  assumes kept_store: "store = Some keeper \<Longrightarrow> kept (c, w) (c, fst (st_store keeper key parts w))"
    and kept_ack_sent: "kept (c, w) (fst (ack_sent i ack c), w)"
    and kept_ack_used: "kept (c, w) (c\<lparr>mc_ack_used := n\<rparr>, w)"
    and kept_ack_properties: "kept (c, w) (c\<lparr>mc_ack_properties := bs\<rparr>, w)"
begin

lemma keeps_keep_ack: "keeps kept (keep_ack store packet_type i parts)"
  unfolding keep_ack_def
  by (cases store) (auto intro!: keeps_intros keeps_world kept_store)

lemma keeps_without_property: "keeps kept (send_publish_acks_without_property tr clock store i state)"
  unfolding send_publish_acks_without_property_def Let_def
  by (intro keeps_intros keeps_keep_ack keeps_all_of keeps_upd_try kept_ack_sent)

lemma keeps_build_and_send:
  "keeps kept (build_and_send_ack_with_props tr clock store packet_type i code remaining n)"
  unfolding build_and_send_ack_with_props_def Let_def
  by (intro keeps_intros keeps_keep_ack keeps_all_of keeps_upd)
    (simp_all add: kept_ack_properties kept_ack_used kept_refl)

lemma keeps_with_property: "keeps kept (send_publish_acks_with_property tr clock store i state reply)"
  unfolding send_publish_acks_with_property_def Let_def
  by (intro keeps_intros keeps_build_and_send keeps_upd_try kept_ack_sent)

lemma keeps_section_fits: "keeps kept section_fits"
  unfolding section_fits_def by (intro keeps_intros)

lemma keeps_answer_packet: "keeps kept (answer_packet tr clock store i state code)"
  unfolding answer_packet_def send_ack_for_def
  by (intro keeps_intros keeps_without_property keeps_with_property)

end

locale handling_frame = acking_frame kept tr clock store
  for kept :: "mqtt_context \<times> 'w \<Rightarrow> mqtt_context \<times> 'w \<Rightarrow> bool" and tr clock store +
  fixes handler :: "'w handler"
  assumes kept_handler: "kept (c, w) (c, fst (handler ev reply w))"
    and kept_clear: "store = Some keeper \<Longrightarrow> kept (c, w) (c, st_clear keeper key w)"
    and kept_receive_publish: "kept (c, w) (fst (receive_publish i q c), w)"
    and kept_ack_received: "kept (c, w) (fst (ack_received i ack c), w)"
    and kept_answered: "kept (c, w) (c\<lparr>mc_waiting_for_ping_resp := b\<rparr>, w)"
begin

lemma keeps_dispatch: "keeps kept (dispatch handler ev wants)"
proof -
  have "kept (c, w) (c\<lparr>mc_ack_properties := bs, mc_ack_used := n\<rparr>, w)" for c w bs n
    using kept_trans [OF kept_ack_properties kept_ack_used] .
  then show ?thesis
    unfolding dispatch_def by (intro keeps_intros keeps_world kept_handler keeps_upd)
qed

lemma keeps_release: "keeps kept (release_stored store ack i)"
  unfolding release_stored_def by (cases store) (auto intro!: keeps_intros keeps_world kept_clear)

lemma keeps_handle_incoming_publish: "keeps kept (handle_incoming_publish tr clock store handler n)"
  unfolding handle_incoming_publish_def Let_def
  by (intro keeps_intros keeps_dispatch keeps_upd_try kept_receive_publish keeps_section_fits keeps_answer_packet)

lemma keeps_handle_publish_acks: "keeps kept (handle_publish_acks tr clock store handler n)"
  unfolding handle_publish_acks_def Let_def
  by (intro keeps_intros keeps_dispatch keeps_upd_try kept_ack_received keeps_section_fits
      keeps_answer_packet keeps_release)

lemma keeps_handle_incoming_ack: "keeps kept (handle_incoming_ack tr clock store handler n manage)"
  unfolding handle_incoming_ack_def handle_pingresp_def handle_sub_unsub_ack_def
  by (intro keeps_intros keeps_handle_publish_acks keeps_dispatch keeps_upd kept_answered)

lemma keeps_tell_disconnect: "keeps kept (tell_disconnect handler view)"
  unfolding tell_disconnect_def by (intro keeps_intros keeps_dispatch)

end

end
