(* ===== verification/Receive.thy ===== *)
theory Receive
  imports Frames
begin

text \<open>
  loop_.rs, what a pass does: it ends, it takes the packets off the stream of received bytes in
  the order they came, it keeps the records in order, and what it tells the application of each
  packet, given the QoS 2 identifiers the records hold (\<open>held\<close>, \<open>tells\<close>, \<open>held_after\<close>).
\<close>

section \<open>A pass ends\<close>

lemma returns_cases:
  "returns m s \<Longrightarrow> (\<And>a. returns (f a) s) \<Longrightarrow> returns (case x of None \<Rightarrow> m | Some a \<Rightarrow> f a) s"
  "(\<And>a b. returns (g a b) s) \<Longrightarrow> returns (case p of (a, b) \<Rightarrow> g a b) s"
  "returns m s \<Longrightarrow> returns m' s \<Longrightarrow> returns (if b then m else m') s"
  by (auto split: option.split prod.split)

lemma must_be_connected_returns: "returns must_be_connected s"
  unfolding must_be_connected_def by (intro returns_bindI returns_ctx returns_basic)

lemmas returns_intros = returns_bindI returns_basic returns_ctx returns_world returns_upd_try returns_cases
  must_be_connected_returns returns_wrapped [THEN iffD2]

lemma keep_ack_returns: "returns (keep_ack store packet_type i parts) s"
  unfolding keep_ack_def by (intro returns_intros)

lemma answer_packet_returns:
  assumes "clock_runs tr clock time patience"
  shows "returns (answer_packet tr clock store i state code) s"
proof -
  have buffer: "returns (all_of n (send_buffer tr clock bs)) s"
    and vectors: "returns (all_of n (send_vectors tr clock vs)) s" for n bs vs s
    using send_buffer_returns [OF assms] send_vectors_returns [OF assms] by (simp_all add: all_of_returns)
  have "returns (send_publish_acks_without_property tr clock store i state) s" for s
    unfolding send_publish_acks_without_property_def Let_def by (intro returns_intros buffer keep_ack_returns)
  moreover have "returns (build_and_send_ack_with_props tr clock store packet_type i k remaining n) s"
    for packet_type k remaining n s
    unfolding build_and_send_ack_with_props_def Let_def by (intro returns_intros vectors keep_ack_returns)
  then have "returns (send_publish_acks_with_property tr clock store i state reply) s" for reply s
    unfolding send_publish_acks_with_property_def Let_def by (intro returns_intros)
  ultimately show ?thesis
    unfolding answer_packet_def send_ack_for_def by (intro returns_intros)
qed

lemma handle_packet_returns:
  assumes "clock_runs tr clock time patience"
  shows "returns (handle_packet tr clock store handler n manage) s"
proof -
  have told: "returns (dispatch handler ev wants) s" for ev wants s
    unfolding dispatch_def by (intro returns_intros)
  have fits: "returns section_fits s" for s :: "mqtt_context \<times> 'a"
    unfolding section_fits_def by (intro returns_intros)
  have release: "returns (release_stored store ack i) s" for ack i s
    unfolding release_stored_def by (intro returns_intros)
  have "returns (handle_incoming_publish tr clock store handler n) s" for s
    unfolding handle_incoming_publish_def Let_def
    by (intro returns_intros told fits answer_packet_returns [OF assms])
  moreover have "returns (handle_incoming_ack tr clock store handler n manage) s" for s
    unfolding handle_incoming_ack_def handle_publish_acks_def handle_pingresp_def handle_sub_unsub_ack_def Let_def
    by (intro returns_intros told fits release answer_packet_returns [OF assms])
  moreover have "returns (handle_incoming_disconnect tr clock handler n) s" for s
  proof -
    have "returns (case outcome of Inl e \<Rightarrow>
        if e = CE_EventCallbackFailed then io_fail e else answer_malformed tr clock
      | Inr _ \<Rightarrow> io_return ()) s" for outcome :: "client_error + unit" and s
      unfolding answer_malformed_def
      by (cases outcome) (auto intro!: returns_intros disconnect_returns [OF assms])
    then show ?thesis
      unfolding handle_incoming_disconnect_def tell_disconnect_def by (intro returns_intros told)
  qed
  ultimately show ?thesis
    unfolding handle_packet_def by (intro returns_intros)
qed

lemma take_packet_returns:
  assumes "clock_runs tr clock time patience"
  shows "returns (take_packet tr clock store handler manage received) s"
proof -
  have "returns (handle_keep_alive tr clock) s" for s
    unfolding handle_keep_alive_def Let_def by (intro returns_intros ping_returns [OF assms])
  then show ?thesis
    unfolding take_packet_def check_keep_alive_def
    by (intro returns_intros handle_packet_returns [OF assms])
qed

section \<open>What a packet leaves alone\<close>

text \<open>The front of the buffer and the limits; the order of the records; what is observed of the
  world, as long as only the application makes it.\<close>

definition same_buffer :: "mqtt_context \<Rightarrow> mqtt_context \<Rightarrow> bool" where
  "same_buffer c c' \<longleftrightarrow> mc_network c' = mc_network c \<and> mc_index c' = mc_index c \<and>
     mc_properties c' = mc_properties c"

lemma same_buffer_refl [simp]: "same_buffer c c"
  by (simp add: same_buffer_def)

definition untouched :: "'w transport \<Rightarrow> 'w clock \<Rightarrow> 'w store option \<Rightarrow> ('w \<Rightarrow> 'v) \<Rightarrow> bool" where
  "untouched tr clock store f \<longleftrightarrow>
     (\<forall>w. f (fst (clock w)) = f w) \<and> (\<forall>bs w. f (fst (tr_send tr bs w)) = f w) \<and>
     (\<forall>vs w. f (fst (tr_writev tr vs w)) = f w) \<and>
     (\<forall>keeper key parts w. store = Some keeper \<longrightarrow>
        f (fst (st_store keeper key parts w)) = f w \<and> f (st_clear keeper key w) = f w)"

interpretation buffer: handling_frame "\<lambda>s s'. same_buffer (fst s) (fst s')" tr clock store handler
  for tr :: "'w transport" and clock store handler
  by unfold_locales
    (auto simp: same_buffer_def transport_failed_def ack_sent_def on_records_def receive_publish_def
      ack_received_def Let_def split: option.split prod.split)

interpretation unseen: acking_frame
    "\<lambda>s s'. untouched tr clock store f \<longrightarrow> f (snd s') = f (snd s)" tr clock store
  for f :: "'w \<Rightarrow> 'v" and tr clock store
  by unfold_locales (auto simp: untouched_def)

lemma answer_malformed_fails: "wlp (answer_malformed tr clock) (\<lambda>_ r. r \<noteq> Inr ()) s"
  unfolding answer_malformed_def by (rule wlp_bindI [OF wlp_True]) (simp_all add: wlp_basic)

lemma wlp_upd_any: "wlp (upd f) Q s \<longleftrightarrow> Q (f (fst s), snd s) (Inr ())"
  by (cases s) (simp add: wlp_context)

text \<open>An incoming DISCONNECT, by what the application and the answer make of it.\<close>

lemma handle_incoming_disconnect_wlp:
  assumes "\<And>e. view_of n c = Inl e \<Longrightarrow> Q (c, w) (Inl e)"
    and "\<And>view. view_of n c = Inr view \<Longrightarrow> wlp (tell_disconnect handler view) (\<lambda>s1 r.
        if r = Inr () \<or> r = Inl CE_EventCallbackFailed
        then Q ((fst s1)\<lparr>mc_connect_status := NotConnected\<rparr>, snd s1) r
        else wlp (answer_malformed tr clock)
          (\<lambda>s2 r2. Q ((fst s2)\<lparr>mc_connect_status := NotConnected\<rparr>, snd s2) r2) s1) (c, w)"
  shows "wlp (handle_incoming_disconnect tr clock handler n) Q (c, w)"
  unfolding handle_incoming_disconnect_def
proof (rule wlp_check)
  fix view
  assume v: "view_of n c = Inr view"
  show "wlp (io_bind (io_try (tell_disconnect handler view)) (\<lambda>outcome.
      io_bind (io_try (case outcome of
          Inr _ \<Rightarrow> io_return ()
        | Inl e \<Rightarrow> if e = CE_EventCallbackFailed then io_fail e else answer_malformed tr clock)) (\<lambda>status.
      io_bind (upd (\<lambda>c. c\<lparr>mc_connect_status := NotConnected\<rparr>)) (\<lambda>_. io_lift status)))) Q (c, w)"
    unfolding wlp_bind wlp_try sum.case
  proof (rule wlp_conseq [OF assms(2) [OF v]], goal_cases)
    case (1 s1 r)
    then show ?case
      by (cases r) (auto simp: wlp_basic wlp_upd_any split: if_splits)
  qed
qed (rule assms(1))

lemma handle_incoming_disconnect_buffer:
  "wlp (handle_incoming_disconnect tr clock handler n) (\<lambda>s' r. r = Inr () \<longrightarrow> same_buffer (fst s) (fst s')) s"
proof -
  obtain c w where s: "s = (c, w)" by (cases s)
  have malformed: "wlp (answer_malformed tr clock) (\<lambda>s2 r2. r2 = Inr () \<longrightarrow> R s2) s1" for R s1
    by (rule wlp_conseq [OF answer_malformed_fails]) simp
  show ?thesis
    unfolding s
  proof (rule handle_incoming_disconnect_wlp, goal_cases)
    case (2 view)
    show ?case
      by (rule wlp_conseq [OF keepsD [OF buffer.keeps_tell_disconnect]])
        (auto simp: same_buffer_def intro: malformed)
  qed simp
qed

text \<open>Where a packet goes.\<close>

lemma handle_packet_wlp:
  assumes "\<And>t. get_at (mc_network c) 0 = Some t \<Longrightarrow> t AND 0xF0 = PUBLISH \<Longrightarrow>
      wlp (handle_incoming_publish tr clock store handler n) Q (c, w)"
    and "get_at (mc_network c) 0 = Some DISCONNECT \<Longrightarrow> wlp (handle_incoming_disconnect tr clock handler n) Q (c, w)"
    and "\<And>t. get_at (mc_network c) 0 = Some t \<Longrightarrow> t AND 0xF0 \<noteq> PUBLISH \<Longrightarrow> t \<noteq> DISCONNECT \<Longrightarrow>
      wlp (handle_incoming_ack tr clock store handler n manage) Q (c, w)"
    and "get_at (mc_network c) 0 = None \<Longrightarrow> Q (c, w) (Inl CE_RecvFailed)"
  shows "wlp (handle_packet tr clock store handler n manage) Q (c, w)"
  unfolding handle_packet_def
proof (rule wlp_ctx, cases "get_at (mc_network c) 0")
  case None
  then show "wlp (case get_at (mc_network c) 0 of None \<Rightarrow> io_fail CE_RecvFailed
      | Some t \<Rightarrow> if t AND 0xF0 = PUBLISH then handle_incoming_publish tr clock store handler n
          else if t = DISCONNECT then handle_incoming_disconnect tr clock handler n
          else handle_incoming_ack tr clock store handler n manage) Q (c, w)"
    using assms(4) by (simp only: option.case wlp_basic)
next
  case (Some t)
  show "wlp (case get_at (mc_network c) 0 of None \<Rightarrow> io_fail CE_RecvFailed
      | Some t \<Rightarrow> if t AND 0xF0 = PUBLISH then handle_incoming_publish tr clock store handler n
          else if t = DISCONNECT then handle_incoming_disconnect tr clock handler n
          else handle_incoming_ack tr clock store handler n manage) Q (c, w)"
    unfolding Some option.case
    by (rule wlp_if [THEN iffD2], rule if_split [THEN iffD2], intro conjI impI, rule assms(1) [OF Some], assumption,
        rule if_split [where P = "\<lambda>m. wlp m Q (c, w)", THEN iffD2], intro conjI impI, rule assms(2),
        simp only: Some, rule assms(3) [OF Some], assumption+)
qed

lemma handle_packet_buffer:
  "wlp (handle_packet tr clock store handler n manage) (\<lambda>s' r. r = Inr () \<longrightarrow> same_buffer (fst s) (fst s')) s"
proof -
  obtain c w where s: "s = (c, w)" by (cases s)
  have weaken: "wlp m (\<lambda>s' r. r = Inr () \<longrightarrow> same_buffer (fst (c, w)) (fst s')) (c, w)"
    if "keeps (\<lambda>s s'. same_buffer (fst s) (fst s')) m" for m :: "(mqtt_context \<times> 'a, client_error, unit) io"
    by (rule wlp_conseq [OF keepsD [OF that]]) simp
  show ?thesis
    unfolding s
    by (intro handle_packet_wlp handle_incoming_disconnect_buffer weaken
        buffer.keeps_handle_incoming_publish buffer.keeps_handle_incoming_ack) simp
qed

section \<open>The packet at the front\<close>

text \<open>A whole packet by itself: its header, and as many bytes behind it as the header says.\<close>

definition packet_info_of :: "bytes \<Rightarrow> packet_info option" where
  "packet_info_of packet = packet_view packet (length packet) (length packet)"

definition whole_packet :: "bytes \<Rightarrow> bool" where
  "whole_packet packet \<longleftrightarrow> (case process_incoming_packet_type_and_length packet (length packet) of
     Inl _ \<Rightarrow> False | Inr h \<Rightarrow> unat (h_remaining_length h) + h_header_length h = length packet)"

lemma header_front:
  assumes "process_incoming_packet_type_and_length buffer k = Inr h"
    and "h_header_length h \<le> length front" and "\<exists>more. take k buffer = front @ more"
  shows "process_incoming_packet_type_and_length front (length front) = Inr h"
proof -
  from assms(1) have h: "incoming_packet_valid (h_packet_type h)" "unat (h_remaining_length h) \<le> 268435455"
    "h_header_length h = 1 + length (vl_encode (unat (h_remaining_length h)))"
    by (simp_all add: header_accepts_iff)
  from assms(1) obtain rest where r: "take k buffer = (h_packet_type h # vl_encode (unat (h_remaining_length h))) @ rest"
    by (auto simp: header_accepts_iff)
  then have "take (h_header_length h) front = h_packet_type h # vl_encode (unat (h_remaining_length h))"
    using assms(2,3) h(3) by (metis append_eq_append_conv_if append_take_drop_id length_Cons plus_1_eq_Suc take_all_iff append_eq_conv_conj le_refl)
  then have "front = h_packet_type h # vl_encode (unat (h_remaining_length h)) @ drop (h_header_length h) front"
    by (metis append_take_drop_id append_Cons)
  then show ?thesis using h unfolding header_accepts_iff by (metis order_refl take_all)
qed

lemma measured:
  assumes "measure_packet c = Inr n" "n \<le> mc_index c" "n \<le> length (mc_network c)"
  shows "whole_packet (take n (mc_network c))" "2 \<le> n"
    "\<exists>view. view_of n c = Inr view \<and> packet_info_of (take n (mc_network c)) = Some view \<and>
       get_at (mc_network c) 0 = Some (pi_packet_type view)"
proof -
  let ?p = "take n (mc_network c)"
  from assms(1) obtain h where h: "process_incoming_packet_type_and_length (mc_network c) (mc_index c) = Inr h"
    "n = unat (h_remaining_length h) + h_header_length h"
    by (auto simp: measure_packet_def rbind_eq_Inr map_err_eq_Inr)
  then have hl: "h_header_length h = 1 + length (vl_encode (unat (h_remaining_length h)))"
    and first: "\<exists>rest. take (mc_index c) (mc_network c) =
        h_packet_type h # vl_encode (unat (h_remaining_length h)) @ rest"
    by (simp_all add: header_accepts_iff)
  have len: "length ?p = n" using assms(3) by simp
  have "take (mc_index c) (mc_network c) = ?p @ drop n (take (mc_index c) (mc_network c))"
    using assms(2) by (metis append_take_drop_id min.absorb1 take_take)
  then have p: "process_incoming_packet_type_and_length ?p (length ?p) = Inr h"
    by (intro header_front [OF h(1)] exI) (use h(2) len in simp_all)
  show "whole_packet ?p" using p h(2) len by (simp add: whole_packet_def)
  show "2 \<le> n" using h(2) hl length_vl_encode_pos [of "unat (h_remaining_length h)"] by linarith
  have "slice ?p (h_header_length h) n = slice (mc_network c) (h_header_length h) n"
    using assms(3) h(2) by (simp add: slice_def min_def drop_take)
  moreover have "slice (mc_network c) (h_header_length h) n \<noteq> None"
    using assms(3) h(2) by (simp add: slice_def)
  moreover obtain t bs where "mc_network c = t # bs" "t = h_packet_type h"
    using first by (cases "mc_network c"; cases "mc_index c") auto
  ultimately show "\<exists>view. view_of n c = Inr view \<and> packet_info_of ?p = Some view \<and>
       get_at (mc_network c) 0 = Some (pi_packet_type view)"
    using h(1) p len by (auto simp: view_of_def packet_view_def packet_info_of_def)
qed

section \<open>What a packet says\<close>

definition event_of :: "client_limits \<Rightarrow> bytes \<Rightarrow> event option" where
  "event_of limits packet = (case packet_info_of packet of
     None \<Rightarrow> None
   | Some view \<Rightarrow>
       if pi_packet_type view AND 0xF0 = PUBLISH then
         (case deserialize_publish view (lc_max_packet_size limits) (lc_topic_alias_max limits) of
            Inl _ \<Rightarrow> None | Inr incoming \<Rightarrow> Some (publish_event view incoming))
       else if pi_packet_type view = DISCONNECT then
         (case deserialize_disconnect view (lc_max_packet_size limits) of
            Inl _ \<Rightarrow> None | Inr incoming \<Rightarrow> Some (disconnect_event view incoming))
       else (case deserialize_ack view \<lparr>al_max_packet_size = lc_max_packet_size limits,
              al_request_problem_info = lc_request_problem_info limits\<rparr> of
            Inl _ \<Rightarrow> None
          | Inr info \<Rightarrow> Some (if pi_packet_type view = PINGRESP
               then ack_event view \<lparr>ai_packet_id = ai_packet_id info, ai_reason_codes = [], ai_properties = []\<rparr>
               else ack_event view info)))"

text \<open>The identifiers of the incoming messages that the records hold.\<close>

definition held :: "mqtt_context \<Rightarrow> u16 set" where
  "held c = (case mc_records c of None \<Rightarrow> {} | Some s \<Rightarrow> r_packet_id ` set (occupied (pr_incoming s)))"

definition sound :: "mqtt_context \<Rightarrow> bool" where
  "sound c \<longleftrightarrow> (\<forall>s. mc_records c = Some s \<longrightarrow> records_inv s)"

text \<open>What the application hears of, by the identifiers held when the packet comes: everything but a
  PINGRESP that the client waits for itself, and a QoS 2 PUBLISH whose identifier is held.\<close>

definition tells :: "bool \<Rightarrow> u16 set \<Rightarrow> event \<Rightarrow> bool" where
  "tells manage H ev \<longleftrightarrow> \<not> (manage \<and> ev_packet_type ev = PINGRESP) \<and>
     \<not> (\<exists>incoming. ev_publish ev = Some incoming \<and> pu_qos incoming = ExactlyOnce \<and> ev_packet_id ev \<in> H)"

text \<open>The identifiers held once a packet has been handled to its end: a QoS 2 PUBLISH puts its
  identifier there, a PUBREL takes it away, and a QoS 1 PUBLISH holds it only until its PUBACK is out.\<close>

definition held_after :: "event \<Rightarrow> u16 set \<Rightarrow> u16 set" where
  "held_after ev H = (case ev_publish ev of
       Some incoming \<Rightarrow> (case pu_qos incoming of
           AtMostOnce \<Rightarrow> H | AtLeastOnce \<Rightarrow> H - {ev_packet_id ev} | ExactlyOnce \<Rightarrow> insert (ev_packet_id ev) H)
     | None \<Rightarrow> if ev_packet_type ev = PUBREL then H - {ev_packet_id ev} else H)"

text \<open>What the application was told of a packet: exactly its event when it is one to be told and the
  packet was handled to its end, and no more than that when it was not.\<close>

definition told :: "bool \<Rightarrow> client_limits \<Rightarrow> u16 set \<Rightarrow> bytes \<Rightarrow> event list \<Rightarrow> bool \<Rightarrow> bool" where
  "told manage limits H packet es handled \<longleftrightarrow>
     (es = [] \<or> (\<exists>ev. event_of limits packet = Some ev \<and> tells manage H ev \<and> es = [ev])) \<and>
     (handled \<longrightarrow> (\<exists>ev. event_of limits packet = Some ev \<and> es = (if tells manage H ev then [ev] else [])))"

lemma told_simps:
  "told manage limits H packet [] False"
  "event_of limits packet = Some ev \<Longrightarrow> tells manage H ev \<Longrightarrow> told manage limits H packet [ev] b"
  "event_of limits packet = Some ev \<Longrightarrow> \<not> tells manage H ev \<Longrightarrow> told manage limits H packet [] b"
  by (auto simp: told_def)

text \<open>An application that can be observed: what it is told is in the world, in order.\<close>

definition heard :: "'w transport \<Rightarrow> 'w clock \<Rightarrow> 'w store option \<Rightarrow> 'w handler \<Rightarrow> ('w \<Rightarrow> event list) \<Rightarrow> bool" where
  "heard tr clock store handler log \<longleftrightarrow> untouched tr clock store log \<and>
     (\<forall>ev reply w. log (fst (handler ev reply w)) = log w @ [ev])"

lemma dispatch_wlp:
  "wlp (dispatch handler ev wants) (\<lambda>s' r. (\<exists>a. r = Inr a) \<and>
     (heard tr clock store handler log \<longrightarrow> log (snd s') = log (snd s) @ [ev])) s"
  by (cases s) (auto simp: dispatch_def wlp_simps heard_def split: prod.split, metis fst_conv)

lemma after_dispatch:
  assumes "\<And>a. keeps (\<lambda>s s'. untouched tr clock store log \<longrightarrow> log (snd s') = log (snd s)) (k a)"
  shows "wlp (io_bind (dispatch handler ev wants) k) (\<lambda>s' r.
     heard tr clock store handler log \<longrightarrow> log (snd s') = log (snd s) @ [ev]) s"
proof (rule wlp_bindI [OF dispatch_wlp [where tr = tr and clock = clock and store = store and log = log]], goal_cases)
  case (1 s' a)
  then show ?case
    by (intro wlp_conseq [OF keepsD [OF assms]]) (auto simp: heard_def)
qed simp

section \<open>What the application is told\<close>

text \<open>The observation of one packet: nothing or its event behind what was told before.\<close>

definition one_told :: "'w transport \<Rightarrow> 'w clock \<Rightarrow> 'w store option \<Rightarrow> 'w handler \<Rightarrow> ('w \<Rightarrow> event list) \<Rightarrow>
    bool \<Rightarrow> client_limits \<Rightarrow> u16 set \<Rightarrow> bytes \<Rightarrow> 'w \<Rightarrow> 'w \<Rightarrow> client_error + unit \<Rightarrow> bool" where
  "one_told tr clock store handler log manage limits H packet w w' r \<longleftrightarrow> (heard tr clock store handler log \<longrightarrow>
     (\<exists>es. log w' = log w @ es \<and> told manage limits H packet es (r = Inr ())))"

lemma one_told_nothing: "one_told tr clock store handler log manage limits H packet w w (Inl e)"
  by (auto simp: one_told_def told_simps)

lemma one_told_event:
  assumes "event_of limits packet = Some ev" "tells manage H ev"
    and "wlp m (\<lambda>s' r. heard tr clock store handler log \<longrightarrow> log (snd s') = log w @ [ev]) s"
  shows "wlp m (\<lambda>s' r. one_told tr clock store handler log manage limits H packet w (snd s') r) s"
  by (rule wlp_conseq [OF assms(3)]) (auto simp: one_told_def told_simps(2) [OF assms(1,2)])

lemma one_told_swallowed:
  assumes "event_of limits packet = Some ev" "\<not> tells manage H ev"
    and "keeps (\<lambda>s s'. untouched tr clock store log \<longrightarrow> log (snd s') = log (snd s)) m"
  shows "wlp m (\<lambda>s' r. one_told tr clock store handler log manage limits H packet (snd s) (snd s') r) s"
  by (rule wlp_conseq [OF keepsD [OF assms(3)]])
    (auto simp: one_told_def heard_def intro!: exI [of _ "[]"] told_simps(3) [OF assms(1,2)])

section \<open>What the records hold\<close>

lemma held_some: "mc_records c = Some s \<Longrightarrow> held c = r_packet_id ` set (sl_in (abs_records s))"
  by (simp add: held_def abs_records_def)

lemma held_none: "mc_records c = None \<Longrightarrow> held c = {}"
  by (simp add: held_def)

lemma sound_same: "mc_records c' = mc_records c \<Longrightarrow> sound c' = sound c"
  "mc_records c' = mc_records c \<Longrightarrow> held c' = held c"
  by (simp_all add: sound_def held_def)

lemma receive_publish_held:
  assumes "sound c" "receive_publish i q c = (c', Inr (state, duplicate))" "mc_records c = None \<longrightarrow> q = AtMostOnce"
  shows "sound c'" "duplicate \<longleftrightarrow> q \<noteq> AtMostOnce \<and> i \<in> held c"
    "held c' = (if q = AtMostOnce then held c else insert i (held c))"
    "q = AtLeastOnce \<Longrightarrow> state = PubAckSend" "q = ExactlyOnce \<Longrightarrow> state = PubRecSend"
proof -
  have "sound c' \<and> (duplicate \<longleftrightarrow> q \<noteq> AtMostOnce \<and> i \<in> held c) \<and>
    held c' = (if q = AtMostOnce then held c else insert i (held c)) \<and>
    (q = AtLeastOnce \<longrightarrow> state = PubAckSend) \<and> (q = ExactlyOnce \<longrightarrow> state = PubRecSend)"
  proof (cases "mc_records c")
    case None
    then show ?thesis using assms by (auto simp: receive_publish_def)
  next
    case (Some s)
    obtain s' res where u: "update_publish s i Op_Receive q = (s', res)" by (cases "update_publish s i Op_Receive q")
    have c': "c' = c\<lparr>mc_records := Some s'\<rparr>" using assms(2) Some u by (simp add: receive_publish_def)
    note ref = receive_publish_refines [OF assms(1) [unfolded sound_def, rule_format, OF Some] u]
    have out: "res = Inr state \<and> \<not> duplicate \<or> res = Inl S_StateCollision \<and> duplicate \<and> state = calculate_state_publish Op_Receive q"
      using assms(2) Some u by (auto simp: receive_publish_def split: sum.splits state_error.splits)
    have "held c' = r_packet_id ` set (sl_in (abs_records s'))" by (rule held_some) (simp add: c')
    moreover note held_some [OF Some]
    ultimately show ?thesis
      using ref out unfolding c' sound_def
      by (cases q) (auto simp: spec_receive_publish_def log_add_def calculate_state_publish_def split: prod.splits if_splits)
  qed
  then show "sound c'" "duplicate \<longleftrightarrow> q \<noteq> AtMostOnce \<and> i \<in> held c"
    "held c' = (if q = AtMostOnce then held c else insert i (held c))"
    "q = AtLeastOnce \<Longrightarrow> state = PubAckSend" "q = ExactlyOnce \<Longrightarrow> state = PubRecSend" by blast+
qed

lemma log_set_ids: "r_packet_id ` set (log_set i st log) = r_packet_id ` set log"
  by (metis list.set_map map_id_log_set)

lemma log_del_ids: "r_packet_id ` set (log_del i log) = r_packet_id ` set log - {i}"
  by (auto simp: log_del_def)

text \<open>Which identifiers an acknowledgement leaves among the incoming ones.\<close>

lemma log_ack_moved:
  assumes "log_ack log i ack op = (log', Inr st)"
  shows "\<exists>q st0. log_find i log = Some (q, st0) \<and> ack_next ack op q st0 = Some st"
    "log' = (if st = PublishDone then log_del i log
       else if st = PubRelSend then log_del i log @ [\<lparr>r_packet_id = i, r_qos = ExactlyOnce, r_state = PubRelSend\<rparr>]
       else log_set i st log)"
  using assms by (simp_all add: log_ack_def split: option.splits prod.splits publish_state.splits)

lemma ack_next_incoming:
  "ack_next ack op q st0 = Some st \<Longrightarrow> \<not> is_publish_outgoing ack op \<Longrightarrow>
     st \<noteq> PubRelSend \<and> (st = PublishDone \<longleftrightarrow> op = Op_Send \<and> ack \<in> {PubAck, PubComp})"
  by (cases ack; cases op) (auto simp: ack_next_def is_publish_outgoing_def split: qos.splits publish_state.splits)

lemma spec_ack_ids:
  assumes "spec_ack a i ack op = (a', Inr st)"
  shows "r_packet_id ` set (sl_in a') =
    (if op = Op_Send \<and> ack \<in> {PubAck, PubComp} then r_packet_id ` set (sl_in a) - {i} else r_packet_id ` set (sl_in a))"
proof (cases "is_publish_outgoing ack op")
  case True
  then have "sl_in a' = sl_in a" using assms by (auto simp: spec_ack_def split: if_splits prod.splits)
  moreover have "\<not> (op = Op_Send \<and> ack \<in> {PubAck, PubComp})" using True by (auto simp: is_publish_outgoing_def)
  ultimately show ?thesis by auto
next
  case False
  then obtain log' where l: "log_ack (sl_in a) i ack op = (log', Inr st)" "sl_in a' = log'"
    using assms by (auto simp: spec_ack_def split: if_splits prod.splits)
  note moved = log_ack_moved [OF l(1)]
  then have "st \<noteq> PubRelSend \<and> (st = PublishDone \<longleftrightarrow> op = Op_Send \<and> ack \<in> {PubAck, PubComp})"
    using ack_next_incoming [OF _ False] by blast
  then show ?thesis unfolding l(2) moved(2) by (auto simp: log_set_ids log_del_ids)
qed

lemma ack_next_received:
  "ack_next PubRel Op_Receive q st0 = Some st \<Longrightarrow> st = PubCompSend"
  "ack_next PubRec Op_Receive q st0 = Some st \<Longrightarrow> st = PubRelSend"
  by (auto simp: ack_next_def split: qos.splits publish_state.splits)

lemma update_ack_held:
  assumes "sound c" "mc_records c = Some s" "update_ack s i ack op = (s', Inr st)" "mc_records c' = Some s'"
  shows "sound c'" "held c' = (if op = Op_Send \<and> ack \<in> {PubAck, PubComp} then held c - {i} else held c)"
proof -
  note ref = ack_refines [OF assms(1) [unfolded sound_def, rule_format, OF assms(2)] assms(3)]
  show "sound c'" using ref(1) assms(4) by (simp add: sound_def)
  show "held c' = (if op = Op_Send \<and> ack \<in> {PubAck, PubComp} then held c - {i} else held c)"
    unfolding held_some [OF assms(2)] held_some [OF assms(4)] by (rule spec_ack_ids [OF ref(2) [symmetric]])
qed

lemma ack_received_held:
  assumes "sound c" "ack_received i ack c = (c', Inr state)"
  shows "sound c'" "held c' = held c" "ack = PubRel \<Longrightarrow> state = PubCompSend \<or> mc_records c' = None"
    "ack = PubRec \<Longrightarrow> state = PubRelSend \<or> state = PS_Null"
proof -
  have "sound c' \<and> held c' = held c \<and> (ack = PubRel \<longrightarrow> state = PubCompSend \<or> mc_records c' = None) \<and>
    (ack = PubRec \<longrightarrow> state = PubRelSend \<or> state = PS_Null)"
  proof (cases "mc_records c")
    case None
    then show ?thesis using assms by (auto simp: ack_received_def)
  next
    case (Some s)
    obtain s' where u: "update_ack s i ack Op_Receive = (s', Inr state)" "mc_records c' = Some s'"
      using assms(2) Some by (auto simp: ack_received_def on_records_def map_err_eq_Inr split: prod.splits)
    have next_state: "ack = PubRel \<longrightarrow> state = PubCompSend" "ack = PubRec \<longrightarrow> state = PubRelSend"
      using ack_refines(2) [OF assms(1) [unfolded sound_def, rule_format, OF Some] u(1)]
      by (auto simp: spec_ack_def split: prod.splits if_splits dest!: sym [of "(_, Inr state)"] log_ack_moved(1) ack_next_received)
    show ?thesis using update_ack_held [OF assms(1) Some u] next_state by simp
  qed
  then show "sound c'" "held c' = held c" "ack = PubRel \<Longrightarrow> state = PubCompSend \<or> mc_records c' = None"
    "ack = PubRec \<Longrightarrow> state = PubRelSend \<or> state = PS_Null" by simp_all
qed

text \<open>An answer that went out has made its move in the records.\<close>

definition acked :: "u16 \<Rightarrow> publish_state \<Rightarrow> mqtt_context \<Rightarrow> mqtt_context \<Rightarrow> bool" where
  "acked i state c c' \<longleftrightarrow> (case ack_from_packet_type (ack_type_to_send state) of
     None \<Rightarrow> mc_records c' = mc_records c
   | Some ack \<Rightarrow> \<exists>c0. mc_records c0 = mc_records c \<and> ack_sent i ack c0 = (c', Inr ()))"

lemma ack_sent_held:
  assumes "sound c" "ack_sent i ack c = (c', Inr ())"
  shows "sound c'" "held c' = (if ack \<in> {PubAck, PubComp} then held c - {i} else held c)"
proof -
  have "sound c' \<and> held c' = (if ack \<in> {PubAck, PubComp} then held c - {i} else held c)"
  proof (cases "mc_records c")
    case None
    then show ?thesis using assms by (auto simp: ack_sent_def sound_def held_def)
  next
    case (Some s)
    obtain s' st where u: "update_ack s i ack Op_Send = (s', Inr st)" "mc_records c' = Some s'"
      using assms(2) Some
      by (auto simp: ack_sent_def Let_def on_records_def rbind_eq_Inr map_err_eq_Inr split: prod.splits)
    show ?thesis using update_ack_held [OF assms(1) Some u] by simp
  qed
  then show "sound c'" "held c' = (if ack \<in> {PubAck, PubComp} then held c - {i} else held c)" by blast+
qed

lemma acked_held:
  assumes "sound c" "acked i state c c'"
  shows "sound c'" "held c' = (if state \<in> {PubAckSend, PubCompSend} then held c - {i} else held c)"
proof -
  have "sound c' \<and> held c' = (if state \<in> {PubAckSend, PubCompSend} then held c - {i} else held c)"
  proof (cases "ack_from_packet_type (ack_type_to_send state)")
    case None
    then have "state \<notin> {PubAckSend, PubCompSend}" by (auto simp: ack_type_to_send_def ack_from_packet_type_def)
    then show ?thesis using assms None sound_same [of c' c] by (simp add: acked_def)
  next
    case (Some ack)
    then obtain c0 where c0: "mc_records c0 = mc_records c" "ack_sent i ack c0 = (c', Inr ())"
      using assms(2) by (auto simp: acked_def)
    have "ack \<in> {PubAck, PubComp} \<longleftrightarrow> state \<in> {PubAckSend, PubCompSend}"
      using Some by (cases state) (auto simp: ack_type_to_send_def ack_from_packet_type_def)
    then show ?thesis
      using ack_sent_held [OF _ c0(2)] sound_same [OF c0(1)] assms(1) by simp
  qed
  then show "sound c'" "held c' = (if state \<in> {PubAckSend, PubCompSend} then held c - {i} else held c)" by blast+
qed

lemma publish_told:
  assumes "packet_info_of packet = Some view" "view_of n c = Inr view" "pi_packet_type view AND 0xF0 = PUBLISH" "sound c"
  shows "wlp (handle_incoming_publish tr clock store handler n)
    (\<lambda>s' r. one_told tr clock store handler log manage (cp_client (mc_properties c)) (held c) packet w (snd s') r) (c, w)"
  unfolding handle_incoming_publish_def
proof (rule wlp_check, goal_cases)
  case (1 a)
  then obtain incoming where a: "a = (view, incoming)" and d: "deserialize_publish view
      (lc_max_packet_size (cp_client (mc_properties c))) (lc_topic_alias_max (cp_client (mc_properties c))) = Inr incoming"
    and recs: "mc_records c = None \<longrightarrow> pu_qos incoming = AtMostOnce"
    using assms(2) by (auto simp: read_publish_packet_def rbind_eq_Inr map_err_eq_Inr split: if_splits)
  have ev: "event_of (cp_client (mc_properties c)) packet = Some (publish_event view incoming)"
    using assms d by (simp add: event_of_def)
  have no_ping: "pi_packet_type view \<noteq> PINGRESP" using assms(3) by auto
  have rest: "keeps (\<lambda>s s'. untouched tr clock store log \<longrightarrow> log (snd s') = log (snd s))
      (case p of (accepted, reason_code) \<Rightarrow> io_bind (io_lift (accepted_or_failed accepted)) (\<lambda>_.
        if pu_qos incoming = AtMostOnce then io_return ()
        else io_bind section_fits (\<lambda>_. answer_packet tr clock store i state reason_code)))" for p i state
    by (intro unseen.keeps_intros unseen.keeps_section_fits unseen.keeps_answer_packet)
  show ?case
    unfolding a prod.case Let_def
  proof (rule wlp_upd_try, goal_cases)
    case (1 c' b)
    obtain state duplicate where b: "b = (state, duplicate)" by (cases b)
    note dup = receive_publish_held(2) [OF assms(4) 1 [unfolded b] recs]
    show ?case
    proof (cases "\<not> duplicate \<or> pu_qos incoming = AtLeastOnce")
      case True
      then have tell: "tells manage (held c) (publish_event view incoming)"
        using dup no_ping by (auto simp: tells_def publish_event_def)
      show ?thesis
        unfolding b prod.case if_P [OF True]
        by (rule one_told_event [OF ev tell]) (use after_dispatch [OF rest, where handler = handler and s = "(c', w)"] in simp)
    next
      case False
      then have "pu_qos incoming = ExactlyOnce"
        using dup by (cases "pu_qos incoming") auto
      then have sw: "\<not> tells manage (held c) (publish_event view incoming)"
        using dup False by (simp add: tells_def publish_event_def)
      show ?thesis
        unfolding b prod.case if_not_P [OF False]
        using one_told_swallowed [OF ev sw unseen.keeps_bind [OF unseen.keeps_pure(1) rest], where s = "(c', w)"] by simp
    qed
  qed (simp add: one_told_nothing)
qed (simp add: one_told_nothing)

lemma ack_told:
  assumes "packet_info_of packet = Some view" "view_of n c = Inr view"
    and "get_at (mc_network c) 0 = Some (pi_packet_type view)"
    and "pi_packet_type view AND 0xF0 \<noteq> PUBLISH" "pi_packet_type view \<noteq> DISCONNECT"
  shows "wlp (handle_incoming_ack tr clock store handler n manage)
    (\<lambda>s' r. one_told tr clock store handler log manage (cp_client (mc_properties c)) (held c) packet w (snd s') r) (c, w)"
proof -
  let ?limits = "cp_client (mc_properties c)"
  let ?Q = "\<lambda>s' r. one_told tr clock store handler log manage ?limits (held c) packet w (snd s') r"
  have read: "\<exists>info. a = (view, info) \<and> deserialize_ack view (limits_of c) = Inr info"
    if "read_ack_packet n c = Inr a" for a
    using that assms(2) by (auto simp: read_ack_packet_def rbind_eq_Inr map_err_eq_Inr)
  have ev: "event_of ?limits packet = Some (if pi_packet_type view = PINGRESP
      then ack_event view \<lparr>ai_packet_id = ai_packet_id info, ai_reason_codes = [], ai_properties = []\<rparr>
      else ack_event view info)"
    if "deserialize_ack view (limits_of c) = Inr info" for info
    using assms that by (simp add: event_of_def limits_of_def)
  have tell_ack: "tells manage (held c) (ack_event view info)" if "pi_packet_type view \<noteq> PINGRESP" for info
    using that by (simp add: tells_def ack_event_def)
  have plain: "keeps (\<lambda>s s'. untouched tr clock store log \<longrightarrow> log (snd s') = log (snd s))
      (case p of (accepted, _ :: byte option) \<Rightarrow>
        (io_lift (accepted_or_failed accepted) :: (mqtt_context \<times> 'a, client_error, unit) io))" for p
    by (intro unseen.keeps_intros)
  have ping: "wlp (handle_pingresp handler n manage) ?Q (c, w)" if "pi_packet_type view = PINGRESP"
    unfolding handle_pingresp_def
  proof (rule wlp_check, goal_cases)
    case (1 a)
    obtain info where a: "a = (view, info)" and d: "deserialize_ack view (limits_of c) = Inr info"
      using read [OF 1] by blast
    let ?ev = "ack_event view \<lparr>ai_packet_id = ai_packet_id info, ai_reason_codes = [], ai_properties = []\<rparr>"
    have e: "event_of ?limits packet = Some ?ev" using ev [OF d] that by simp
    have same: "\<lparr>ev_packet_type = pi_packet_type view, ev_packet_id = packet_id_or_0 (ai_packet_id info),
        ev_publish = None, ev_reason_codes = [], ev_properties = []\<rparr> = ?ev"
      by (simp add: ack_event_def)
    show ?case
    proof (cases manage)
      case True
      have sw: "\<not> tells manage (held c) ?ev" using True that by (simp add: tells_def ack_event_def)
      show ?thesis
        unfolding a prod.case if_P [OF True]
        using one_told_swallowed [OF e sw unseen.keeps_upd, where handler = handler and s = "(c, w)" and tr = tr and clock = clock and store = store and log = log] by simp
    next
      case False
      then have tell: "tells manage (held c) ?ev" by (simp add: tells_def ack_event_def)
      show ?thesis
        unfolding a prod.case if_not_P [OF False] same
        by (rule one_told_event [OF e tell]) (use after_dispatch [OF plain, where handler = handler and s = "(c, w)"] in simp)
    qed
  qed (simp add: one_told_nothing)
  have list: "wlp (handle_sub_unsub_ack handler n) ?Q (c, w)" if "pi_packet_type view \<noteq> PINGRESP"
    unfolding handle_sub_unsub_ack_def
  proof (rule wlp_check, goal_cases)
    case (1 a)
    obtain info where a: "a = (view, info)" and d: "deserialize_ack view (limits_of c) = Inr info"
      using read [OF 1] by blast
    have e: "event_of ?limits packet = Some (ack_event view info)" using ev [OF d] that by simp
    show ?case
      unfolding a prod.case
      by (rule one_told_event [OF e tell_ack [OF that]]) (use after_dispatch [OF plain, where handler = handler and s = "(c, w)"] in simp)
  qed (simp add: one_told_nothing)
  have acks: "wlp (handle_publish_acks tr clock store handler n) ?Q (c, w)" if t: "pi_packet_type view \<noteq> PINGRESP"
    unfolding handle_publish_acks_def
  proof (rule wlp_check, goal_cases)
    case (1 view')
    then have v: "view' = view" using assms(2) by simp
    show ?case
    proof (cases "ack_from_packet_type (pi_packet_type view)")
      case None
      then show ?thesis by (simp add: v wlp_basic one_told_nothing)
    next
      case (Some ack)
      have rest: "keeps (\<lambda>s s'. untouched tr clock store log \<longrightarrow> log (snd s') = log (snd s))
          (case p of (accepted, reason_code) \<Rightarrow> io_bind (io_lift (accepted_or_failed accepted)) (\<lambda>_.
            io_bind section_fits (\<lambda>_.
            if ack \<in> {PubAck, PubComp} then io_return ()
            else answer_packet tr clock store i state reason_code)))" for p i state
        by (intro unseen.keeps_intros unseen.keeps_section_fits unseen.keeps_answer_packet)
      show ?thesis
        unfolding v Some option.case
      proof (rule wlp_check, goal_cases)
        case (1 a)
        obtain info where a: "a = (view, info)" and d: "deserialize_ack view (limits_of c) = Inr info"
          using read [OF 1] by blast
        have e: "event_of ?limits packet = Some (ack_event view info)" using ev [OF d] t by simp
        have free: "wlp (release_stored store ack i) (\<lambda>s' r. (\<exists>u. r = Inr u) \<and>
            (heard tr clock store handler log \<longrightarrow> log (snd s') = log w)) (c', w)" for c' i
          by (cases store) (auto simp: release_stored_def wlp_simps heard_def untouched_def)
        show ?case
          unfolding a prod.case Let_def
        proof (rule wlp_upd_try, goal_cases)
          case (1 c' state)
          show ?case
          proof (rule wlp_bindI [OF free], goal_cases)
            case (1 s' u)
            have "wlp (io_bind (dispatch handler (ack_event view info) (ack \<notin> {PubAck, PubComp})) (\<lambda>(accepted, reason_code).
                io_bind (io_lift (accepted_or_failed accepted)) (\<lambda>_. io_bind section_fits (\<lambda>_.
                if ack \<in> {PubAck, PubComp} then io_return ()
                else answer_packet tr clock store (packet_id_or_0 (ai_packet_id info)) state reason_code))))
              (\<lambda>s2 r. heard tr clock store handler log \<longrightarrow> log (snd s2) = log (snd s') @ [ack_event view info]) s'"
              by (rule after_dispatch [OF rest])
            then show ?case
              by (intro one_told_event [OF e tell_ack [OF t]]) (rule wlp_conseq, assumption, use 1 in auto)
          next
            case (2 s' e)
            then show ?case by simp
          qed
        next
          case (2 c' e)
          then show ?case by (simp add: one_told_nothing)
        qed
      next
        case (2 e)
        then show ?case by (simp add: one_told_nothing)
      qed
    qed
  next
    case (2 e)
    then show ?case by (simp add: one_told_nothing)
  qed
  show ?thesis
    unfolding handle_incoming_ack_def
    by (rule wlp_ctx) (use assms(3) acks ping list in \<open>auto simp: wlp_basic one_told_nothing\<close>)
qed

lemma unseen_disconnect:
  "keeps (\<lambda>s s'. untouched tr clock store log \<longrightarrow> log (snd s') = log (snd s)) (answer_malformed tr clock)"
  unfolding answer_malformed_def disconnect_def Let_def
  by (intro unseen.keeps_intros unseen.keeps_all_of unseen.keeps_upd) simp

lemma disconnect_told:
  assumes "packet_info_of packet = Some view" "view_of n c = Inr view" "pi_packet_type view = DISCONNECT"
  shows "wlp (handle_incoming_disconnect tr clock handler n)
    (\<lambda>s' r. one_told tr clock store handler log manage (cp_client (mc_properties c)) (held c) packet w (snd s') r) (c, w)"
proof (rule handle_incoming_disconnect_wlp, goal_cases)
  case (2 view')
  then have v: "view' = view" using assms(2) by simp
  let ?limits = "cp_client (mc_properties c)"
  show ?case
    unfolding v tell_disconnect_def
  proof (rule wlp_check, goal_cases)
    case (1 incoming)
    then have ev: "event_of ?limits packet = Some (disconnect_event view incoming)"
      using assms by (simp add: event_of_def map_err_eq_Inr)
    have tell: "tells manage (held c) (disconnect_event view incoming)"
      using assms(3) by (simp add: tells_def disconnect_event_def)
    have told: "wlp (io_bind (dispatch handler (disconnect_event view incoming) False) (\<lambda>(accepted, _).
          io_lift (accepted_or_failed accepted)))
        (\<lambda>s1 r. (r = Inr () \<or> r = Inl CE_EventCallbackFailed) \<and> one_told tr clock store handler log manage ?limits (held c) packet w (snd s1) r) (c, w)"
    proof (rule wlp_bindI [OF dispatch_wlp [where tr = tr and clock = clock and store = store and log = log]], goal_cases)
      case (1 s1 a)
      then show ?case
        by (cases a) (auto simp: wlp_basic accepted_or_failed_def one_told_def told_simps(2) [OF ev tell])
    next
      case (2 s1 e)
      then show ?case by simp
    qed
    show ?case by (rule wlp_conseq [OF told]) auto
  next
    case (2 e)
    have "e \<noteq> CE_EventCallbackFailed"
      using 2 by (auto simp: map_err_eq_Inl elim!: client_of_disconnect.elims)
    moreover have "wlp (answer_malformed tr clock) (\<lambda>s2 r2.
        one_told tr clock store handler log manage ?limits (held c) packet w (snd s2) r2) (c, w)"
      by (rule wlp_conseq [OF wlp_conj [OF answer_malformed_fails keepsD [OF unseen_disconnect]]])
        (auto simp: one_told_def heard_def intro!: exI [of _ "[]"] simp: told_simps)
    ultimately show ?case by simp
  qed
qed (simp add: one_told_nothing)

lemma handle_packet_told:
  assumes "measure_packet c = Inr n" "n \<le> mc_index c" "n \<le> length (mc_network c)" "sound c"
  shows "wlp (handle_packet tr clock store handler n manage) (\<lambda>s' r.
    one_told tr clock store handler log manage (cp_client (mc_properties c)) (held c) (take n (mc_network c)) w (snd s') r) (c, w)"
proof -
  obtain view where view: "view_of n c = Inr view" "packet_info_of (take n (mc_network c)) = Some view"
    "get_at (mc_network c) 0 = Some (pi_packet_type view)"
    using measured(3) [OF assms(1-3)] by blast
  show ?thesis
  proof (rule handle_packet_wlp, goal_cases)
    case (1 t)
    then show ?case using publish_told [OF view(2,1) _ assms(4)] view(3) by simp
  next
    case 2
    then show ?case using disconnect_told [OF view(2,1)] view(3) by simp
  next
    case (3 t)
    then show ?case using ack_told [OF view(2,1,3)] view(3) by simp
  next
    case 4
    then show ?case using view(3) by simp
  qed
qed

section \<open>What is held once a packet has been handled\<close>

interpretation steady: sending_frame "\<lambda>s s'. mc_records (fst s') = mc_records (fst s)" tr clock
  for tr :: "'w transport" and clock
  by unfold_locales (simp_all add: transport_failed_def)

text \<open>What has become of the context when an operation that starts from these records succeeds.\<close>

definition ends :: "publish_records option \<Rightarrow> (mqtt_context \<Rightarrow> bool) \<Rightarrow> (mqtt_context \<times> 'w, client_error, unit) io \<Rightarrow> bool" where
  "ends records Q m \<longleftrightarrow> (\<forall>s. mc_records (fst s) = records \<longrightarrow> wlp m (\<lambda>s' r. r = Inr () \<longrightarrow> Q (fst s')) s)"

lemma ends_steady:
  assumes "keeps (\<lambda>s s'. mc_records (fst s') = mc_records (fst s)) m" "\<And>a. ends records Q (k a)"
  shows "ends records Q (io_bind m k)"
  unfolding ends_def
proof (intro allI impI)
  fix s :: "mqtt_context \<times> 'a"
  assume s: "mc_records (fst s) = records"
  show "wlp (io_bind m k) (\<lambda>s' r. r = Inr () \<longrightarrow> Q (fst s')) s"
    by (rule wlp_bindI [OF keepsD [OF assms(1)]]) (use assms(2) s in \<open>auto simp: ends_def\<close>)
qed

lemma ends_upd_try:
  assumes "\<And>c c' a. mc_records c = records \<Longrightarrow> f c = (c', Inr a) \<Longrightarrow> ends (mc_records c') Q (k a)"
  shows "ends records Q (io_bind (upd_try f) k)"
  unfolding ends_def
proof (intro allI impI)
  fix s :: "mqtt_context \<times> 'b"
  assume s: "mc_records (fst s) = records"
  obtain c w where "s = (c, w)" by (cases s)
  then show "wlp (io_bind (upd_try f) k) (\<lambda>s' r. r = Inr () \<longrightarrow> Q (fst s')) s"
    using s assms [of c] by (auto intro!: wlp_upd_try simp: ends_def)
qed

lemma ends_cases:
  "ends records Q (io_fail e)"
  "(b \<Longrightarrow> ends records Q m) \<Longrightarrow> (\<not> b \<Longrightarrow> ends records Q m') \<Longrightarrow> ends records Q (if b then m else m')"
  "(x = None \<Longrightarrow> ends records Q m) \<Longrightarrow> (\<And>a. x = Some a \<Longrightarrow> ends records Q (f a)) \<Longrightarrow>
     ends records Q (case x of None \<Rightarrow> m | Some a \<Rightarrow> f a)"
  "(\<And>a b. p = (a, b) \<Longrightarrow> ends records Q (g a b)) \<Longrightarrow> ends records Q (case p of (a, b) \<Rightarrow> g a b)"
  by (auto simp: ends_def wlp_basic split: option.split prod.split)

lemma ends_return: "(\<And>c. mc_records c = records \<Longrightarrow> Q c) \<Longrightarrow> ends records Q (io_return ())"
  by (auto simp: ends_def wlp_basic)

lemma ends_lift: "(\<And>c. x = Inr () \<Longrightarrow> mc_records c = records \<Longrightarrow> Q c) \<Longrightarrow> ends records Q (io_lift x)"
  by (auto simp: ends_def wlp_basic)

lemma ends_conseq: "ends records Q m \<Longrightarrow> (\<And>c. Q c \<Longrightarrow> R c) \<Longrightarrow> ends records R m"
  unfolding ends_def by (blast intro: wlp_conseq)

lemma steady_keep_ack:
  "keeps (\<lambda>s s'. mc_records (fst s') = mc_records (fst s)) (keep_ack store packet_type i parts)"
  unfolding keep_ack_def by (intro steady.keeps_intros steady.keeps_world) simp

lemma steady_build_and_send:
  "keeps (\<lambda>s s'. mc_records (fst s') = mc_records (fst s))
     (build_and_send_ack_with_props tr clock store packet_type i code remaining n)"
  unfolding build_and_send_ack_with_props_def Let_def
  by (intro steady.keeps_intros steady_keep_ack steady.keeps_all_of steady.keeps_upd) simp_all

lemma ends_acked:
  assumes "ack_from_packet_type (ack_type_to_send state) = Some ack"
  shows "ends (mc_records c) (acked i state c) (upd_try (ack_sent i ack))"
  using assms by (auto simp: ends_def wlp_context acked_def split: prod.split)

lemma ends_unacked:
  assumes "ack_type_to_send state = 0 \<or> ack_from_packet_type (ack_type_to_send state) = None"
  shows "ends (mc_records c) (acked i state c) (io_return ())"
  using assms by (intro ends_return) (auto simp: acked_def ack_from_packet_type_def)

lemma answer_packet_acked:
  "ends (mc_records c) (acked i state c) (answer_packet tr clock store i state code)"
proof -
  note steady = steady.keeps_intros steady_keep_ack steady.keeps_all_of steady_build_and_send
  have "ends (mc_records c) (acked i state c) (send_publish_acks_without_property tr clock store i state)"
    unfolding send_publish_acks_without_property_def Let_def
    by (intro ends_cases ends_steady ends_unacked ends_acked steady; blast)
  moreover have "ends (mc_records c) (acked i state c) (send_publish_acks_with_property tr clock store i state reply)"
    for reply
    unfolding send_publish_acks_with_property_def Let_def
    by (intro ends_cases ends_steady ends_unacked ends_acked steady; blast)
  ultimately show ?thesis
    unfolding answer_packet_def send_ack_for_def by (intro ends_cases ends_steady steady; blast)
qed

lemma steady_dispatch: "keeps (\<lambda>s s'. mc_records (fst s') = mc_records (fst s)) (dispatch handler ev wants)"
  unfolding dispatch_def by (intro steady.keeps_intros steady.keeps_world steady.keeps_upd) simp_all

lemma steady_release: "keeps (\<lambda>s s'. mc_records (fst s') = mc_records (fst s)) (release_stored store ack i)"
  unfolding release_stored_def by (intro steady.keeps_intros steady.keeps_world) simp

text \<open>The records and the identifiers held after a packet that was handled to its end.\<close>

definition settled :: "client_limits \<Rightarrow> bytes \<Rightarrow> mqtt_context \<Rightarrow> mqtt_context \<Rightarrow> bool" where
  "settled limits packet c c' \<longleftrightarrow> sound c' \<and>
     (\<exists>ev. event_of limits packet = Some ev \<and> held c' = held_after ev (held c))"

lemma settled_same:
  assumes "sound c" "mc_records c' = mc_records c" "event_of limits packet = Some ev" "held_after ev (held c) = held c"
  shows "settled limits packet c c'"
  using assms sound_same [OF assms(2)] by (simp add: settled_def)

lemma publish_settled:
  assumes "packet_info_of packet = Some view" "view_of n c = Inr view" "pi_packet_type view AND 0xF0 = PUBLISH" "sound c"
  shows "wlp (handle_incoming_publish tr clock store handler n)
    (\<lambda>s' r. r = Inr () \<longrightarrow> settled (cp_client (mc_properties c)) packet c (fst s')) (c, w)"
  unfolding handle_incoming_publish_def
proof (rule wlp_check, goal_cases)
  case (1 a)
  then obtain incoming where a: "a = (view, incoming)" and d: "deserialize_publish view
      (lc_max_packet_size (cp_client (mc_properties c))) (lc_topic_alias_max (cp_client (mc_properties c))) = Inr incoming"
    and recs: "mc_records c = None \<longrightarrow> pu_qos incoming = AtMostOnce"
    using assms(2) by (auto simp: read_publish_packet_def rbind_eq_Inr map_err_eq_Inr split: if_splits)
  let ?i = "packet_id_or_0 (pu_packet_id incoming)" and ?Q = "settled (cp_client (mc_properties c)) packet c"
  have ev: "event_of (cp_client (mc_properties c)) packet = Some (publish_event view incoming)"
    using assms d by (simp add: event_of_def)
  show ?case
    unfolding a prod.case Let_def
  proof (rule wlp_upd_try, goal_cases)
    case (1 c1 b)
    obtain state duplicate where b: "b = (state, duplicate)" by (cases b)
    note got = receive_publish_held [OF assms(4) 1 [unfolded b] recs]
    have over: "?Q c'" if "pu_qos incoming = AtMostOnce" "mc_records c' = mc_records c1" for c'
      using got that ev sound_same [OF that(2)] by (simp add: settled_def held_after_def publish_event_def)
    have answered: "?Q c'" if "pu_qos incoming \<noteq> AtMostOnce" "acked ?i state c1 c'" for c'
      using got acked_held [OF got(1) that(2)] that(1) ev
      by (cases "pu_qos incoming") (auto simp: settled_def held_after_def publish_event_def)
    have "ends (mc_records c1) ?Q (io_bind (if \<not> duplicate \<or> pu_qos incoming = AtLeastOnce
              then dispatch handler (publish_event view incoming) (pu_qos incoming \<noteq> AtMostOnce)
              else io_return (True, None)) (\<lambda>(accepted, reason_code).
        io_bind (io_lift (accepted_or_failed accepted)) (\<lambda>_.
        if pu_qos incoming = AtMostOnce then io_return ()
        else io_bind section_fits (\<lambda>_. answer_packet tr clock store ?i state reason_code))))"
      unfolding section_fits_def
      by (intro ends_cases ends_steady steady.keeps_intros steady_dispatch ends_return
          ends_conseq [OF answer_packet_acked]) (use over answered in auto)
    then show ?case unfolding b prod.case by (simp add: ends_def)
  qed simp
qed simp

lemma acks_settled:
  assumes "packet_info_of packet = Some view" "view_of n c = Inr view" "sound c"
    and "pi_packet_type view AND 0xF0 \<noteq> PUBLISH" "pi_packet_type view \<notin> {DISCONNECT, PINGRESP}"
  shows "wlp (handle_publish_acks tr clock store handler n)
    (\<lambda>s' r. r = Inr () \<longrightarrow> settled (cp_client (mc_properties c)) packet c (fst s')) (c, w)"
  unfolding handle_publish_acks_def
proof (rule wlp_check, goal_cases)
  case (1 view')
  then have v: "view' = view" using assms(2) by simp
  show ?case
  proof (cases "ack_from_packet_type (pi_packet_type view)")
    case None
    then show ?thesis by (simp add: v wlp_basic)
  next
    case (Some ack)
    show ?thesis
      unfolding v Some option.case
    proof (rule wlp_check, goal_cases)
      case (1 a)
      then obtain info where a: "a = (view, info)" and d: "deserialize_ack view (limits_of c) = Inr info"
        using assms(2) by (auto simp: read_ack_packet_def rbind_eq_Inr map_err_eq_Inr)
      let ?i = "packet_id_or_0 (ai_packet_id info)" and ?Q = "settled (cp_client (mc_properties c)) packet c"
      have ev: "event_of (cp_client (mc_properties c)) packet = Some (ack_event view info)"
        using assms d by (simp add: event_of_def limits_of_def)
      have rel: "pi_packet_type view = PUBREL \<longleftrightarrow> ack = PubRel"
        using Some by (auto simp: ack_from_packet_type_def split: if_splits)
      show ?case
        unfolding a prod.case Let_def
      proof (rule wlp_upd_try, goal_cases)
        case (1 c1 state)
        note got = ack_received_held [OF assms(3) 1]
        have over: "?Q c'" if "ack \<in> {PubAck, PubComp}" "mc_records c' = mc_records c1" for c'
          using got that ev rel sound_same [OF that(2)]
          by (auto simp: settled_def held_after_def ack_event_def)
        have answered: "?Q c'" if "ack \<notin> {PubAck, PubComp}" "acked ?i state c1 c'" for c'
        proof -
          note moved = acked_held [OF got(1) that(2)]
          have "ack = PubRel \<or> ack = PubRec" using that(1) by (cases ack) auto
          moreover have "mc_records c1 = None \<Longrightarrow> held c = {}" using got(2) by (simp add: held_none)
          ultimately show ?thesis
            using moved got(2-4) ev rel by (auto simp: settled_def held_after_def ack_event_def)
        qed
        have "ends (mc_records c1) ?Q (io_bind (release_stored store ack ?i) (\<lambda>_.
            io_bind (dispatch handler (ack_event view info) (ack \<notin> {PubAck, PubComp})) (\<lambda>(accepted, reason_code).
            io_bind (io_lift (accepted_or_failed accepted)) (\<lambda>_.
            io_bind section_fits (\<lambda>_.
            if ack \<in> {PubAck, PubComp} then io_return ()
            else answer_packet tr clock store ?i state reason_code)))))"
          unfolding section_fits_def
          by (intro ends_cases ends_steady steady.keeps_intros steady_dispatch steady_release ends_return
              ends_conseq [OF answer_packet_acked]) (use over answered in auto)
        then show ?case by (simp add: ends_def)
      qed simp
    qed simp
  qed
qed simp

lemma ack_settled:
  assumes "packet_info_of packet = Some view" "view_of n c = Inr view" "sound c"
    and "get_at (mc_network c) 0 = Some (pi_packet_type view)"
    and "pi_packet_type view AND 0xF0 \<noteq> PUBLISH" "pi_packet_type view \<noteq> DISCONNECT"
  shows "wlp (handle_incoming_ack tr clock store handler n manage)
    (\<lambda>s' r. r = Inr () \<longrightarrow> settled (cp_client (mc_properties c)) packet c (fst s')) (c, w)"
proof -
  let ?limits = "cp_client (mc_properties c)"
  let ?P = "\<lambda>s' (r :: client_error + unit). r = Inr () \<longrightarrow> settled ?limits packet c (fst s')"
  have same: "?P s' r" if "read_ack_packet n c = Inr (view', info)" "pi_packet_type view \<noteq> PUBREL"
    "mc_records (fst s') = mc_records c" for view' info s' r
  proof -
    have "view' = view" "deserialize_ack view (limits_of c) = Inr info"
      using that(1) assms(2) by (auto simp: read_ack_packet_def rbind_eq_Inr map_err_eq_Inr)
    then have "\<exists>ev. event_of ?limits packet = Some ev \<and> held_after ev (held c) = held c"
      using assms that(2) by (auto simp: event_of_def limits_of_def held_after_def ack_event_def)
    then show ?thesis using settled_same [OF assms(3) that(3)] by blast
  qed
  have ping: "wlp (handle_pingresp handler n manage) ?P (c, w)" if "pi_packet_type view = PINGRESP"
    unfolding handle_pingresp_def
  proof (rule wlp_check, goal_cases)
    case (1 a)
    have k: "keeps (\<lambda>s s'. mc_records (fst s') = mc_records (fst s)) (case a of (view, info) \<Rightarrow>
      if manage then upd (\<lambda>c. c\<lparr>mc_waiting_for_ping_resp := False\<rparr>)
      else io_bind (dispatch handler \<lparr>ev_packet_type = pi_packet_type view, ev_packet_id = packet_id_or_0 (ai_packet_id info),
          ev_publish = None, ev_reason_codes = [], ev_properties = []\<rparr> False)
        (\<lambda>(accepted, _). io_lift (accepted_or_failed accepted)))"
      by (intro steady.keeps_intros steady_dispatch steady.keeps_upd) simp
    show ?case by (rule wlp_conseq [OF keepsD [OF k]]) (use same 1 that in \<open>cases a; auto\<close>)
  qed simp
  have list: "wlp (handle_sub_unsub_ack handler n) ?P (c, w)" if "pi_packet_type view \<noteq> PUBREL"
    unfolding handle_sub_unsub_ack_def
  proof (rule wlp_check, goal_cases)
    case (1 a)
    have k: "keeps (\<lambda>s s'. mc_records (fst s') = mc_records (fst s)) (case a of (view, info) \<Rightarrow>
      io_bind (dispatch handler (ack_event view info) False) (\<lambda>(accepted, _). io_lift (accepted_or_failed accepted)))"
      by (intro steady.keeps_intros steady_dispatch)
    show ?case by (rule wlp_conseq [OF keepsD [OF k]]) (use same 1 that in \<open>cases a; auto\<close>)
  qed simp
  show ?thesis
    unfolding handle_incoming_ack_def
    by (rule wlp_ctx) (use assms(4) acks_settled [OF assms(1-3,5)] assms(6) ping list in \<open>auto simp: wlp_basic\<close>)
qed

lemma disconnect_settled:
  assumes "packet_info_of packet = Some view" "view_of n c = Inr view" "pi_packet_type view = DISCONNECT" "sound c"
  shows "wlp (handle_incoming_disconnect tr clock handler n)
    (\<lambda>s' r. r = Inr () \<longrightarrow> settled (cp_client (mc_properties c)) packet c (fst s')) (c, w)"
proof (rule handle_incoming_disconnect_wlp, goal_cases)
  case (2 view')
  then have v: "view' = view" using assms(2) by simp
  let ?limits = "cp_client (mc_properties c)"
  have read: "wlp (tell_disconnect handler view) (\<lambda>s1 r. mc_records (fst s1) = mc_records c \<and>
      (r = Inr () \<longrightarrow> (\<exists>ev. event_of ?limits packet = Some ev \<and> held_after ev (held c) = held c))) (c, w)"
    unfolding tell_disconnect_def
  proof (rule wlp_check, goal_cases)
    case (1 incoming)
    then have "event_of ?limits packet = Some (disconnect_event view incoming)"
      using assms by (simp add: event_of_def map_err_eq_Inr)
    moreover have "held_after (disconnect_event view incoming) (held c) = held c"
      using assms(3) by (simp add: held_after_def disconnect_event_def)
    moreover have k: "keeps (\<lambda>s s'. mc_records (fst s') = mc_records (fst s))
        (io_bind (dispatch handler (disconnect_event view incoming) False) (\<lambda>(accepted, _). io_lift (accepted_or_failed accepted)))"
      by (intro steady.keeps_intros steady_dispatch)
    ultimately show ?case by (intro wlp_conseq [OF keepsD [OF k]]) auto
  qed simp
  have malformed: "wlp (answer_malformed tr clock) (\<lambda>s2 r2. r2 = Inr () \<longrightarrow> R s2) s1" for R s1
    by (rule wlp_conseq [OF answer_malformed_fails]) simp
  show ?case
    unfolding v
    by (rule wlp_conseq [OF read]) (auto intro: malformed settled_same [OF assms(4)])
qed simp

lemma handle_packet_settled:
  assumes "measure_packet c = Inr n" "n \<le> mc_index c" "n \<le> length (mc_network c)" "sound c"
  shows "wlp (handle_packet tr clock store handler n manage) (\<lambda>s' r. r = Inr () \<longrightarrow>
    settled (cp_client (mc_properties c)) (take n (mc_network c)) c (fst s')) (c, w)"
proof -
  obtain view where view: "view_of n c = Inr view" "packet_info_of (take n (mc_network c)) = Some view"
    "get_at (mc_network c) 0 = Some (pi_packet_type view)"
    using measured(3) [OF assms(1-3)] by blast
  show ?thesis
  proof (rule handle_packet_wlp, goal_cases)
    case (1 t)
    then show ?case using publish_settled [OF view(2,1) _ assms(4)] view(3) by simp
  next
    case 2
    then show ?case using disconnect_settled [OF view(2,1) _ assms(4)] view(3) by simp
  next
    case (3 t)
    then show ?case using ack_settled [OF view(2,1) assms(4) view(3)] view(3) by simp
  next
    case 4
    then show ?case using view(3) by simp
  qed
qed

section \<open>The errors that keep a packet waiting\<close>

text \<open>\<open>NeedMoreBytes\<close> and \<open>NoDataAvailable\<close> are said of the buffer alone: nothing that handles a
  packet or sends says them.\<close>

definition waiting :: "client_error + 'a \<Rightarrow> bool" where
  "waiting r \<longleftrightarrow> r = Inl CE_NeedMoreBytes \<or> r = Inl CE_NoDataAvailable"

lemma waiting_simps [simp]: "\<not> waiting (Inr a)" "waiting (Inl e) \<longleftrightarrow> e = CE_NeedMoreBytes \<or> e = CE_NoDataAvailable"
  by (simp_all add: waiting_def)

definition never_waits :: "('s, client_error, 'a) io \<Rightarrow> bool" where
  "never_waits m \<longleftrightarrow> (\<forall>s. wlp m (\<lambda>_ r. \<not> waiting r) s)"

lemma never_waits_bind: "never_waits m \<Longrightarrow> (\<And>a. never_waits (k a)) \<Longrightarrow> never_waits (io_bind m k)"
  unfolding never_waits_def
proof (intro allI wlp_bindI)
  fix s
  assume "\<forall>s. wlp m (\<lambda>_ r. \<not> waiting r) s"
  then show "wlp m (\<lambda>_ r. \<not> waiting r) s" by blast
qed auto

lemma never_waits_basic:
  "never_waits (io_return a)" "\<not> waiting (Inl e :: client_error + 'a) \<Longrightarrow> never_waits (io_fail e :: ('s, client_error, 'a) io)"
  "\<not> waiting x \<Longrightarrow> never_waits (io_lift x)"
  "never_waits (ctx f)" "never_waits (upd g)" "never_waits (world_call h)" "never_waits (io_try m)"
  by (auto simp: never_waits_def wlp_simps split: prod.split)

lemma never_waits_upd_try: "(\<And>c. \<not> waiting (snd (f c))) \<Longrightarrow> never_waits (upd_try f)"
  by (auto simp: never_waits_def wlp_simps split: prod.split) (metis snd_conv)+

lemma never_waits_checked: "(\<And>c. \<not> waiting (f c)) \<Longrightarrow> never_waits (io_bind (ctx f) io_lift)"
  by (auto simp: never_waits_def wlp_simps)

lemma never_waits_cases:
  "never_waits m \<Longrightarrow> (\<And>a. never_waits (f a)) \<Longrightarrow> never_waits (case x of None \<Rightarrow> m | Some a \<Rightarrow> f a)"
  "(\<And>a b. never_waits (g a b)) \<Longrightarrow> never_waits (case p of (a, b) \<Rightarrow> g a b)"
  "never_waits m \<Longrightarrow> never_waits m' \<Longrightarrow> never_waits (if b then m else m')"
  by (auto split: option.split prod.split)

lemma never_waits_rounds: "never_waits (rounds body x)"
  unfolding never_waits_def by (intro allI wlp_rounds [where I = "\<lambda>_ _. True"]) (auto split: sum.split intro: wlpI)

lemma never_waits_connected: "never_waits must_be_connected"
  unfolding must_be_connected_def
  by (rule never_waits_checked) (auto simp: waiting_def connected_def split: connection_status.split)

text \<open>A block whose outcome is answered after the context has been put in order.\<close>

lemma never_waits_tried:
  assumes "never_waits m"
  shows "never_waits (io_bind (io_try m) (\<lambda>outcome. io_bind (upd g) (\<lambda>_. io_lift outcome)))"
  unfolding never_waits_def
proof
  fix s
  show "wlp (io_bind (io_try m) (\<lambda>outcome. io_bind (upd g) (\<lambda>_. io_lift outcome))) (\<lambda>_ r. \<not> waiting r) s"
    unfolding wlp_bind wlp_try sum.case
    by (rule wlp_conseq [OF assms [unfolded never_waits_def, rule_format]])
      (auto simp: wlp_def upd_def io_modify_def io_lift_def)
qed

lemmas never_waits_intros = never_waits_tried never_waits_checked never_waits_bind never_waits_basic never_waits_upd_try never_waits_cases
  never_waits_rounds never_waits_connected

lemma never_waits_send:
  "never_waits (all_of n (send_buffer tr clock bs))" "never_waits (all_of n (send_vectors tr clock vs))"
  unfolding all_of_def send_buffer_def send_vectors_def Let_def by (intro never_waits_intros; simp)+

lemma waiting_map_err: "(\<And>e. f e \<noteq> CE_NeedMoreBytes \<and> f e \<noteq> CE_NoDataAvailable) \<Longrightarrow> \<not> waiting (map_err f x)"
  by (cases x) auto

lemma not_waiting [simp]:
  "\<not> waiting (map_err client_of_publish p)" "\<not> waiting (map_err client_of_ack q)"
  "\<not> waiting (map_err client_of_disconnect d)" "\<not> waiting (map_err client_of_validate v)"
  "\<not> waiting (map_err (\<lambda>_. CE_BadParameter) y)" "\<not> waiting (map_err (\<lambda>_. CE_SendFailed) y')"
  "\<not> waiting (map_err CE_State z)"
  by (rule waiting_map_err; auto simp: client_of_validate_def elim: client_of_publish.elims
      client_of_ack.elims client_of_disconnect.elims)+

lemma not_waiting_answers [simp]:
  "\<not> waiting (ok_or CE_SendFailed x)" "\<not> waiting (ok_or CE_BadParameter x)" "\<not> waiting (ok_or CE_RecvFailed x)"
  "\<not> waiting (accepted_or_failed b)"
  by (cases x; simp add: accepted_or_failed_def)+

lemma waiting_rbind: "waiting (rbind x f) \<longleftrightarrow> waiting x \<or> (\<exists>a. x = Inr a \<and> waiting (f a))"
  by (cases x) (auto simp: waiting_def)

lemma never_waits_answer: "never_waits (answer_packet tr clock store i state code)"
proof -
  have keep: "never_waits (keep_ack store t i parts)" for t parts
    unfolding keep_ack_def by (intro never_waits_intros; simp)
  have sent: "\<not> waiting (snd (ack_sent i ack c))" for ack c
    by (auto simp: ack_sent_def on_records_def Let_def waiting_rbind split: option.split prod.split)
  have code: "\<not> waiting (validate_publish_ack_reason_code k t)" for k t
    by (auto simp: validate_publish_ack_reason_code_def split: option.split)
  have "\<not> waiting (check_ack_reply t reply c)" for t reply c
    unfolding check_ack_reply_def by (auto simp: waiting_rbind code)
  moreover have "never_waits (build_and_send_ack_with_props tr clock store t i k remaining m)" for t k remaining m
    unfolding build_and_send_ack_with_props_def Let_def
    by (intro never_waits_tried never_waits_bind never_waits_basic never_waits_cases keep never_waits_send; simp)
  ultimately have "never_waits (send_publish_acks_with_property tr clock store i state reply)" for reply
    unfolding send_publish_acks_with_property_def Let_def
    by (intro never_waits_intros; simp add: sent)
  moreover have "never_waits (send_publish_acks_without_property tr clock store i state)"
    unfolding send_publish_acks_without_property_def Let_def
    by (intro never_waits_intros keep never_waits_send; simp add: sent)
  ultimately show ?thesis
    unfolding answer_packet_def send_ack_for_def by (intro never_waits_intros)
qed

lemma never_waits_handle_packet: "never_waits (handle_packet tr clock store handler n manage)"
proof -
  have view: "\<not> waiting (view_of n c)" for c by (simp add: view_of_def)
  then have ack: "\<not> waiting (read_ack_packet n c)" for c
    by (auto simp: read_ack_packet_def waiting_rbind)
  have pub: "\<not> waiting (read_publish_packet n c)" for c
    using view by (auto simp: read_publish_packet_def waiting_rbind)
  have rec: "\<not> waiting (snd (receive_publish i q c))" for i q c
    by (auto simp: receive_publish_def split: option.split prod.split sum.split state_error.split)
  have recv: "\<not> waiting (snd (ack_received i a c))" for i a c
    by (auto simp: ack_received_def on_records_def split: option.split prod.split)
  have told: "never_waits (dispatch handler ev wants)" for ev wants
    unfolding dispatch_def by (intro never_waits_intros)
  have fits: "never_waits (section_fits :: (mqtt_context \<times> 'a, client_error, unit) io)"
    unfolding section_fits_def by (intro never_waits_intros; simp)
  have release: "never_waits (release_stored store a i)" for a i
    unfolding release_stored_def by (intro never_waits_intros)
  have publish: "never_waits (handle_incoming_publish tr clock store handler n)"
    unfolding handle_incoming_publish_def Let_def
    by (intro never_waits_intros told fits never_waits_answer; simp add: pub rec)
  have acks: "never_waits (handle_incoming_ack tr clock store handler n manage)"
    unfolding handle_incoming_ack_def handle_publish_acks_def handle_pingresp_def handle_sub_unsub_ack_def Let_def
    by (intro never_waits_intros told fits release never_waits_answer; simp add: view ack recv)
  have tell: "never_waits (tell_disconnect handler view)" for view
    unfolding tell_disconnect_def by (intro never_waits_intros told; simp)
  have bye: "never_waits (handle_incoming_disconnect tr clock handler n)"
  proof -
    have size: "\<not> waiting (check_disconnect c code ps)" for c code ps
      by (auto simp: check_disconnect_def waiting_rbind)
    then have "never_waits (answer_malformed tr clock)"
      unfolding answer_malformed_def disconnect_def Let_def by (intro never_waits_intros never_waits_send; simp)
    then have malformed: "wlp (answer_malformed tr clock) (\<lambda>_ r. \<not> waiting r) s" for s
      unfolding never_waits_def by blast
    show ?thesis
      unfolding never_waits_def
    proof
      fix s :: "mqtt_context \<times> 'a"
      obtain c w where s: "s = (c, w)" by (cases s)
      show "wlp (handle_incoming_disconnect tr clock handler n) (\<lambda>_ r. \<not> waiting r) s"
        unfolding s
      proof (rule handle_incoming_disconnect_wlp, goal_cases)
        case (1 e)
        then show ?case using view [of c] by simp
      next
        case (2 view)
        show ?case
          by (rule wlp_conseq [OF wlp_True]) (auto intro: malformed)
      qed
    qed
  qed
  show ?thesis
    unfolding handle_packet_def by (intro never_waits_intros publish acks bye; simp)
qed

lemma never_waits_keep_alive: "never_waits (handle_keep_alive tr clock)"
  unfolding handle_keep_alive_def ping_def Let_def by (intro never_waits_intros never_waits_send; simp)

end
