(* ===== verification/Stream.thy ===== *)
theory Stream
  imports Receive
begin

text \<open>
  loop_.rs, a pass as a whole: it ends, and what it takes off the stream of received bytes and
  hands on is the packets of the stream, whole, in order and once each, however the transport
  cuts the stream; \<open>telling\<close> is what the application hears of them.
\<close>

section \<open>A pass ends\<close>

text \<open>How many bytes a turn works on.\<close>

definition in_hand :: "recv \<Rightarrow> mqtt_context \<Rightarrow> nat" where
  "in_hand received c = mc_index c + (case received of Recv_Bytes n \<Rightarrow> n | _ \<Rightarrow> 0)"

lemma take_received_ok:
  assumes "take_received received c = (c1, Inr n)"
  shows "c1 = c\<lparr>mc_index := in_hand received c\<rparr>" "measure_packet c1 = Inr n"
  using assms by (auto simp: take_received_def in_hand_def Let_def split: if_splits recv.splits)

text \<open>A turn that is not the last has taken a packet off the front.\<close>

definition taken :: "recv \<Rightarrow> mqtt_context \<Rightarrow> nat \<Rightarrow> mqtt_context \<Rightarrow> bool" where
  "taken received c n c' \<longleftrightarrow> 2 \<le> n \<and> n \<le> in_hand received c \<and> n \<le> length (mc_network c) \<and>
     mc_index c' = in_hand received c - n \<and>
     mc_network c' = drop n (mc_network c) @ drop (length (mc_network c) - n) (mc_network c) \<and>
     mc_properties c' = mc_properties c"

lemma check_keep_alive_same:
  "wlp (check_keep_alive tr clock manage received status) (\<lambda>s' r. same_buffer (fst s) (fst s') \<and>
     (r = status \<or> (\<exists>e. r = Inl e \<and> \<not> waiting (Inl e :: client_error + nat)))) s"
proof -
  have alive: "wlp (handle_keep_alive tr clock) (\<lambda>s' r. same_buffer (fst s) (fst s') \<and> \<not> waiting r) s"
    by (rule wlp_conj [OF keepsD [OF buffer.keeps_handle_keep_alive]
          never_waits_keep_alive [unfolded never_waits_def, rule_format]])
  show ?thesis
    unfolding check_keep_alive_def
    by (auto simp: wlp_basic intro!: wlp_bindI [OF alive])
qed

text \<open>What the turn finds at the front.\<close>

definition pending :: "recv \<Rightarrow> mqtt_context \<Rightarrow> bytes" where
  "pending received c = take (in_hand received c) (mc_network c)"

text \<open>Bytes that are not, or not yet, a packet.\<close>

definition incomplete :: "bytes \<Rightarrow> bool" where
  "incomplete bs \<longleftrightarrow> (\<forall>n \<le> length bs. \<not> whole_packet (take n bs))"

lemma whole_packet_front:
  assumes "whole_packet p" "take k buffer = p @ behind"
  shows "\<exists>h. process_incoming_packet_type_and_length buffer k = Inr h \<and>
    unat (h_remaining_length h) + h_header_length h = length p"
proof -
  from assms(1) obtain h where h: "process_incoming_packet_type_and_length p (length p) = Inr h"
    "unat (h_remaining_length h) + h_header_length h = length p"
    by (auto simp: whole_packet_def split: sum.splits)
  from h(1) have "\<exists>rest. p = h_packet_type h # vl_encode (unat (h_remaining_length h)) @ rest"
    by (simp add: header_accepts_iff)
  then have "\<exists>rest. take k buffer = h_packet_type h # vl_encode (unat (h_remaining_length h)) @ rest"
    using assms(2) by auto
  then have "process_incoming_packet_type_and_length buffer k = Inr h"
    using h(1) by (simp add: header_accepts_iff)
  then show ?thesis using h(2) by blast
qed

lemma measured_front:
  assumes "n \<le> mc_index c" "n \<le> length (mc_network c)" "whole_packet (take n (mc_network c))"
  shows "measure_packet c = Inr n"
proof -
  have "take (mc_index c) (mc_network c) = take n (mc_network c) @ drop n (take (mc_index c) (mc_network c))"
    using assms(1) by (metis append_take_drop_id min.absorb1 take_take)
  from whole_packet_front [OF assms(3) this] assms(2) show ?thesis
    by (auto simp: measure_packet_def)
qed

lemma incomplete_front:
  assumes "\<And>n. measure_packet c = Inr n \<Longrightarrow> n > mc_index c" "mc_index c \<le> length (mc_network c)"
  shows "incomplete (take (mc_index c) (mc_network c))"
  unfolding incomplete_def
proof (intro allI impI notI)
  fix n
  assume n: "n \<le> length (take (mc_index c) (mc_network c))" "whole_packet (take n (take (mc_index c) (mc_network c)))"
  then have "n \<le> mc_index c" by simp
  moreover from this n(2) have "whole_packet (take n (mc_network c))" by (simp add: min_def)
  ultimately have "measure_packet c = Inr n" using measured_front assms(2) by simp
  then show False using assms(1) \<open>n \<le> mc_index c\<close> by (simp add: leD)
qed

text \<open>What has been observed at the end of a turn.\<close>

definition observed :: "'w transport \<Rightarrow> 'w clock \<Rightarrow> 'w store option \<Rightarrow> 'w handler \<Rightarrow> ('w \<Rightarrow> event list) \<Rightarrow>
    bool \<Rightarrow> client_limits \<Rightarrow> u16 set \<Rightarrow> bytes \<Rightarrow> bool \<Rightarrow> 'w \<Rightarrow> 'w \<Rightarrow> bool" where
  "observed tr clock store handler log manage limits H packet ok w w' \<longleftrightarrow>
     (heard tr clock store handler log \<longrightarrow> (\<exists>es. log w' = log w @ es \<and> told manage limits H packet es ok))"

definition turn_done :: "'w transport \<Rightarrow> 'w clock \<Rightarrow> 'w store option \<Rightarrow> 'w handler \<Rightarrow> ('w \<Rightarrow> event list) \<Rightarrow>
    bool \<Rightarrow> recv \<Rightarrow> mqtt_context \<times> 'w \<Rightarrow> mqtt_context \<times> 'w \<Rightarrow> client_error + unit \<Rightarrow> bool" where
  "turn_done tr clock store handler log manage received s s' r \<longleftrightarrow>
     (case r of
        Inr _ \<Rightarrow> (\<exists>n. taken received (fst s) n (fst s') \<and> whole_packet (take n (mc_network (fst s))) \<and>
          (sound (fst s) \<longrightarrow> observed tr clock store handler log manage (cp_client (mc_properties (fst s)))
              (held (fst s)) (take n (mc_network (fst s))) True (snd s) (snd s') \<and>
            settled (cp_client (mc_properties (fst s))) (take n (mc_network (fst s))) (fst s) (fst s')))
      | Inl e \<Rightarrow>
          if waiting (Inl e :: client_error + unit) then
            mc_network (fst s') = mc_network (fst s) \<and> mc_index (fst s') = in_hand received (fst s) \<and>
            mc_records (fst s') = mc_records (fst s) \<and>
            (heard tr clock store handler log \<longrightarrow> log (snd s') = log (snd s)) \<and>
            (in_hand received (fst s) \<le> length (mc_network (fst s)) \<longrightarrow> incomplete (pending received (fst s)) \<and>
               (e = CE_NoDataAvailable \<longleftrightarrow> in_hand received (fst s) = 0))
          else (heard tr clock store handler log \<longrightarrow> log (snd s') = log (snd s)) \<or>
            (\<exists>n. n \<le> in_hand received (fst s) \<and> n \<le> length (mc_network (fst s)) \<and>
               whole_packet (take n (mc_network (fst s))) \<and>
               (sound (fst s) \<longrightarrow> observed tr clock store handler log manage (cp_client (mc_properties (fst s)))
                 (held (fst s)) (take n (mc_network (fst s))) False (snd s) (snd s'))))"

lemma check_keep_alive_records:
  "wlp (check_keep_alive tr clock manage received status) (\<lambda>s' _. mc_records (fst s') = mc_records (fst s)) s"
  by (rule keepsD [OF steady.keeps_check_keep_alive])

lemma take_received_records: "mc_records (fst (take_received received c)) = mc_records c"
  by (auto simp: take_received_def transport_failed_def Let_def split: recv.split)

lemma check_keep_alive_log:
  "wlp (check_keep_alive tr clock manage received status)
     (\<lambda>s' _. heard tr clock store handler log \<longrightarrow> log (snd s') = log (snd s)) s"
  by (rule wlp_conseq [OF keepsD [OF unseen.keeps_check_keep_alive [where f = log and store = store]]])
    (simp add: heard_def)

lemma wlp_try_bind: "wlp m (\<lambda>s' r. wlp (k r) Q s') s \<Longrightarrow> wlp (io_bind (io_try m) k) Q s"
  by (simp add: wlp_bind wlp_try)

lemma nothing_measured:
  assumes "process_incoming_packet_type_and_length buffer k = Inl H_NoDataAvailable"
  shows "take k buffer = []"
  using assms
  by (cases "take k buffer") (auto simp: process_incoming_unfold split: if_splits vl_result.splits)

lemma measured_some: "measure_packet c = Inr n \<Longrightarrow> mc_index c \<noteq> 0"
  by (cases "mc_index c") (simp_all add: measure_packet_def process_incoming_packet_type_and_length_def)

lemma incomplete_nil: "incomplete []"
  by (simp add: incomplete_def whole_packet_def process_incoming_packet_type_and_length_def)

lemma take_received_waiting:
  assumes "take_received received c = (c1, Inl e)" "waiting (Inl e :: client_error + nat)"
  shows "c1 = c\<lparr>mc_index := in_hand received c\<rparr>"
    and "in_hand received c \<le> length (mc_network c) \<Longrightarrow> incomplete (pending received c) \<and>
      (e = CE_NoDataAvailable \<longleftrightarrow> in_hand received c = 0)"
proof -
  have "c1 = c\<lparr>mc_index := in_hand received c\<rparr> \<and> (in_hand received c \<le> length (mc_network c) \<longrightarrow>
    incomplete (pending received c) \<and> (e = CE_NoDataAvailable \<longleftrightarrow> in_hand received c = 0))"
  proof (cases "nothing_received received \<and> mc_index c = 0")
    case True
    then have "in_hand received c = 0" by (auto simp: in_hand_def nothing_received_def)
    moreover have "c1 = c" "e = CE_NoDataAvailable"
      using assms True by (auto simp: take_received_def nothing_received_def)
    ultimately show ?thesis using True by (simp add: pending_def incomplete_nil)
  next
    case False
    let ?c = "c\<lparr>mc_index := in_hand received c\<rparr>"
    have r: "received \<noteq> Recv_Failed" using assms by (auto simp: take_received_def)
    have c1: "c1 = ?c" "measure_packet ?c = Inl e"
      using assms(1) False r by (auto simp: take_received_def in_hand_def Let_def split: recv.splits)
    have some: "in_hand received c \<noteq> 0"
      using False r by (auto simp: in_hand_def nothing_received_def split: recv.splits)
    have "e \<noteq> CE_NoDataAvailable" if "in_hand received c \<le> length (mc_network c)"
    proof
      assume "e = CE_NoDataAvailable"
      then have "process_incoming_packet_type_and_length (mc_network c) (in_hand received c) = Inl H_NoDataAvailable"
        using c1(2) by (auto simp: measure_packet_def rbind_eq_Inl map_err_eq_Inl dest!: sym [of CE_NoDataAvailable]
            elim: client_of_header.elims)
      from nothing_measured [OF this] that some show False by auto
    qed
    moreover have "in_hand received c \<le> length (mc_network c) \<longrightarrow> incomplete (pending received c)"
      using incomplete_front [of ?c] c1(2) by (simp add: pending_def)
    ultimately show ?thesis using c1(1) some by blast
  qed
  then show "c1 = c\<lparr>mc_index := in_hand received c\<rparr>"
    "in_hand received c \<le> length (mc_network c) \<Longrightarrow> incomplete (pending received c) \<and>
      (e = CE_NoDataAvailable \<longleftrightarrow> in_hand received c = 0)" by blast+
qed

lemma consume_taken:
  assumes "measure_packet c1 = Inr n" "n \<le> mc_index c1" "n \<le> length (mc_network c1)" "same_buffer c1 c'"
    and "mc_network c1 = mc_network c" "mc_index c1 = in_hand received c" "mc_properties c1 = mc_properties c"
  shows "taken received c n ((consume n c')\<lparr>mc_last_packet_rx_time := now\<rparr>)"
  using measured(2) [OF assms(1-3)] assms(2-7) by (simp add: taken_def consume_def same_buffer_def)

text \<open>One packet, when the records are in order: what is told and what is held.\<close>

lemma wlp_when: "(P \<Longrightarrow> wlp m Q s) \<Longrightarrow> wlp m (\<lambda>s' r. P \<longrightarrow> Q s' r) s"
  by (cases P) simp_all

lemma handle_packet_handled:
  assumes "measure_packet c = Inr n" "n \<le> mc_index c" "n \<le> length (mc_network c)"
  shows "wlp (handle_packet tr clock store handler n manage) (\<lambda>s' r. sound c \<longrightarrow>
    one_told tr clock store handler log manage (cp_client (mc_properties c)) (held c) (take n (mc_network c)) w (snd s') r \<and>
    (r = Inr () \<longrightarrow> settled (cp_client (mc_properties c)) (take n (mc_network c)) c (fst s'))) (c, w)"
  by (rule wlp_when, rule wlp_conj [OF handle_packet_told handle_packet_settled]) (use assms in simp_all)

lemma take_packet_wlp:
  "wlp (take_packet tr clock store handler manage received)
     (turn_done tr clock store handler log manage received s) s"
proof -
  obtain c w where s: "s = (c, w)" by (cases s)
  obtain c1 status where st: "take_received received c = (c1, status)" by (cases "take_received received c")
  let ?Q = "turn_done tr clock store handler log manage received (c, w)"
  let ?quiet = "\<lambda>w'. heard tr clock store handler log \<longrightarrow> log w' = log w"
  note alive = wlp_conj [OF check_keep_alive_same wlp_conj [OF check_keep_alive_records
        check_keep_alive_log [where store = store and handler = handler and log = log]],
      of tr clock manage received status "(c1, w)"]
  have c1: "mc_records c1 = mc_records c" using take_received_records [of received c] st by simp
  have failed: "?Q s' (Inl e)" if "\<not> waiting (Inl e :: client_error + unit)" "?quiet (snd s')" for s' e
    using that by (simp add: turn_done_def)
  have handled: "wlp (io_bind (handle_packet tr clock store handler n manage) (\<lambda>_.
      io_bind (upd (consume n)) (\<lambda>_. io_bind (world_call clock) (\<lambda>now.
      upd (\<lambda>c. c\<lparr>mc_last_packet_rx_time := now\<rparr>))))) ?Q (c2, w2)"
    if m: "measure_packet c2 = Inr n" "n \<le> mc_index c2" "n \<le> length (mc_network c2)"
      and c2: "mc_network c2 = mc_network c" "mc_index c2 = in_hand received c" "mc_properties c2 = mc_properties c"
        "mc_records c2 = mc_records c"
      and w2: "?quiet w2" for n c2 w2
  proof (rule wlp_bindI [OF wlp_conj [OF handle_packet_buffer wlp_conj [OF
          handle_packet_handled [OF m, where log = log and handler = handler]
          never_waits_handle_packet [unfolded never_waits_def, rule_format]]]], goal_cases)
    case (1 s3 a)
    obtain c3 w3 where s3: "s3 = (c3, w3)" by (cases s3)
    obtain w4 now where now: "clock w3 = (w4, now)" by (cases "clock w3")
    let ?c3 = "(consume n c3)\<lparr>mc_last_packet_rx_time := now\<rparr>"
    have t: "taken received c n ?c3"
      using consume_taken [OF m, of c3] c2 1 by (simp add: s3)
    have still: "heard tr clock store handler log \<Longrightarrow> log w4 = log w3"
      using now by (auto simp: heard_def untouched_def) (metis fst_conv)
    have "observed tr clock store handler log manage (cp_client (mc_properties c)) (held c) (take n (mc_network c)) True w w4 \<and>
        settled (cp_client (mc_properties c)) (take n (mc_network c)) c ?c3" if "sound c"
    proof -
      have "one_told tr clock store handler log manage (cp_client (mc_properties c)) (held c) (take n (mc_network c)) w2 w3 (Inr ())"
        "settled (cp_client (mc_properties c)) (take n (mc_network c)) c c3"
        using 1 that c2 sound_same [OF c2(4)] by (simp_all add: s3 settled_def)
      moreover have "mc_records ?c3 = mc_records c3" by (simp add: consume_def)
      ultimately show ?thesis
        using still w2 sound_same [of ?c3 c3] by (auto simp: observed_def one_told_def settled_def)
    qed
    then have "?Q (?c3, w4) (Inr ())"
      using t measured(1) [OF m] c2 by (auto simp: turn_done_def)
    then show ?case by (simp add: s3 wlp_simps now)
  next
    case (2 s3 e)
    have "observed tr clock store handler log manage (cp_client (mc_properties c)) (held c) (take n (mc_network c)) False w (snd s3)"
      if "sound c"
      using 2 w2 c2 that sound_same [OF c2(4)] by (auto simp: observed_def one_told_def)
    then show ?case
      using 2 m c2 measured(1) [OF m] by (auto simp: turn_done_def)
  qed
  show ?thesis
    unfolding s take_packet_def
  proof (rule wlp_try_bind, unfold wlp_context st prod.case, rule wlp_bindI [OF alive], goal_cases)
    case (1 s2 n)
    obtain c2 w2 where s2: "s2 = (c2, w2)" by (cases s2)
    have ok: "status = Inr n" "same_buffer c1 c2" "?quiet w2" "mc_records c2 = mc_records c" using 1 c1 by (auto simp: s2)
    note r = take_received_ok [OF st [unfolded ok(1)]]
    have c2: "mc_network c2 = mc_network c" "mc_index c2 = in_hand received c" "mc_properties c2 = mc_properties c"
        "mc_records c2 = mc_records c"
      and m: "measure_packet c2 = Inr n"
      using ok(2,4) r by (auto simp: same_buffer_def measure_packet_def)
    show ?case
      unfolding s2
    proof (rule wlp_check, goal_cases)
      case 1
      then show ?case using handled [OF m _ _ c2 ok(3)] by (auto simp: packet_ready_def split: if_splits)
    next
      case (2 e)
      then consider "e = CE_RecvFailed" | "e = CE_NeedMoreBytes" "n > mc_index c2"
        by (auto simp: packet_ready_def split: if_splits)
      then show ?case
      proof cases
        case 1
        then show ?thesis using failed ok(3) by simp
      next
        case 2
        have "in_hand received c \<le> length (mc_network c) \<longrightarrow> incomplete (pending received c)"
          using incomplete_front [of c2] m 2(2) c2 by (simp add: pending_def)
        then show ?thesis
          using ok(3) c2 2(1) measured_some [OF m] by (auto simp: turn_done_def)
      qed
    qed
  next
    case (2 s2 e)
    obtain c2 w2 where s2: "s2 = (c2, w2)" by (cases s2)
    show ?case
    proof (cases "waiting (Inl e :: client_error + nat)")
      case False
      then show ?thesis using failed 2 by simp
    next
      case True
      then have status: "status = Inl e" using 2 by auto
      note r = take_received_waiting [OF st [unfolded status] True]
      show ?thesis
        using 2 r True c1 by (auto simp: turn_done_def same_buffer_def)
    qed
  qed
qed

lemma iteration_turn_wlp:
  "wlp (iteration_turn tr clock store handler manage received) (\<lambda>s' r. case r of
      Inl (Inl e) \<Rightarrow> turn_done tr clock store handler log manage received s s' (Inl e)
    | Inl (Inr _) \<Rightarrow> turn_done tr clock store handler log manage received s s' (Inr ()) \<and> mc_index (fst s') = 0
    | Inr received' \<Rightarrow> turn_done tr clock store handler log manage received s s' (Inr ()) \<and> nothing_received received') s"
  unfolding iteration_turn_def wlp_bind wlp_map_err
proof (rule wlp_conseq [OF take_packet_wlp [where log = log]], goal_cases)
  case (1 s' r)
  then show ?case
    by (cases r; cases s') (auto simp: wlp_simps nothing_received_def)
qed

lemma in_hand_nothing: "nothing_received received \<Longrightarrow> in_hand received c = mc_index c"
  by (auto simp: in_hand_def nothing_received_def)

lemma iterations_return:
  assumes "clock_runs tr clock time patience"
  shows "returns (receive_single_iteration tr clock store handler manage) s"
proof -
  have turn: "returns (iteration_turn tr clock store handler manage received) s" for received s
    unfolding iteration_turn_def by (intro returns_intros take_packet_returns [OF assms])
  have rounds: "returns (rounds (iteration_turn tr clock store handler manage) received) s" for received s
  proof (rule returns_rounds [where R = "measure (\<lambda>(received, s). in_hand received (fst s))" and I = "\<lambda>_ _. True"])
    fix x and s :: "mqtt_context \<times> 'a"
    show "returns (iteration_turn tr clock store handler manage x) s \<and>
      wlp (iteration_turn tr clock store handler manage x) (\<lambda>s' r. case r of Inl a \<Rightarrow> True
        | Inr x' \<Rightarrow> True \<and> ((x', s'), x, s) \<in> measure (\<lambda>(received, s). in_hand received (fst s))) s"
      by (rule conjI [OF turn wlp_conseq [OF iteration_turn_wlp [where log = "\<lambda>_. []"]]])
        (auto split: sum.splits simp: turn_done_def taken_def in_hand_nothing)
  qed simp_all
  show ?thesis
    unfolding receive_single_iteration_def receive_once_def
    by (intro returns_intros rounds)
qed

section \<open>Through all of it\<close>

text \<open>What the application is told of packets that are handled one after the other, and the
  identifiers held in the end: none of it when a packet is one the deserializers refuse.\<close>

fun telling :: "bool \<Rightarrow> client_limits \<Rightarrow> u16 set \<Rightarrow> bytes list \<Rightarrow> (event list \<times> u16 set) option" where
  "telling manage limits H [] = Some ([], H)"
| "telling manage limits H (p # ps) = (case event_of limits p of
       None \<Rightarrow> None
     | Some ev \<Rightarrow> (case telling manage limits (held_after ev H) ps of
         None \<Rightarrow> None
       | Some (es, H') \<Rightarrow> Some ((if tells manage H ev then [ev] else []) @ es, H')))"

lemma telling_snoc:
  assumes "telling manage limits H ps = Some (es, H1)" "event_of limits p = Some ev"
  shows "telling manage limits H (ps @ [p]) = Some (es @ (if tells manage H1 ev then [ev] else []), held_after ev H1)"
  using assms by (induction ps arbitrary: H es) (auto split: option.splits)

text \<open>While the pass goes round, and at its end.\<close>

definition handed :: "('w \<Rightarrow> event list) \<Rightarrow> bool \<Rightarrow> client_limits \<Rightarrow> u16 set \<Rightarrow> event list \<Rightarrow> bytes list \<Rightarrow>
    mqtt_context \<times> 'w \<Rightarrow> bool" where
  "handed log manage limits H before ps s \<longleftrightarrow> (\<forall>p \<in> set ps. whole_packet p) \<and> sound (fst s) \<and>
     (\<exists>es. telling manage limits H ps = Some (es, held (fst s)) \<and> log (snd s) = before @ es)"

definition passing :: "('w \<Rightarrow> event list) \<Rightarrow> bool \<Rightarrow> client_limits \<Rightarrow> u16 set \<Rightarrow> nat \<Rightarrow> bytes \<Rightarrow> event list \<Rightarrow>
    recv \<Rightarrow> mqtt_context \<times> 'w \<Rightarrow> bool" where
  "passing log manage limits H room whole before received s \<longleftrightarrow>
     cp_client (mc_properties (fst s)) = limits \<and> length (mc_network (fst s)) = room \<and>
     in_hand received (fst s) \<le> room \<and> (\<exists>ps. handed log manage limits H before ps s \<and>
       whole = concat ps @ pending received (fst s))"

text \<open>The last packet when it is not handled to its end: nothing is told of it but its event.\<close>

definition told_last :: "bool \<Rightarrow> client_limits \<Rightarrow> u16 set \<Rightarrow> bytes list \<Rightarrow> event list \<Rightarrow> bool" where
  "told_last manage limits H failing es \<longleftrightarrow> (\<forall>p \<in> set failing. whole_packet p) \<and> length failing \<le> 1 \<and>
     (es = [] \<or> (\<exists>p ev. failing = [p] \<and> event_of limits p = Some ev \<and> tells manage H ev \<and> es = [ev]))"

lemma told_last_simps [simp]:
  "told_last manage limits H [] es \<longleftrightarrow> es = []"
  "told_last manage limits H [p] es \<longleftrightarrow> whole_packet p \<and>
     (es = [] \<or> (\<exists>ev. event_of limits p = Some ev \<and> tells manage H ev \<and> es = [ev]))"
  by (auto simp: told_last_def)

definition passed :: "('w \<Rightarrow> event list) \<Rightarrow> bool \<Rightarrow> client_limits \<Rightarrow> u16 set \<Rightarrow> bytes \<Rightarrow> event list \<Rightarrow>
    mqtt_context \<times> 'w \<Rightarrow> client_error + unit \<Rightarrow> bool" where
  "passed log manage limits H whole before s r \<longleftrightarrow> (\<exists>ps es H' last es' rest.
     whole = concat (ps @ last) @ rest \<and> (\<forall>p \<in> set ps. whole_packet p) \<and>
     telling manage limits H ps = Some (es, H') \<and> told_last manage limits H' last es' \<and>
     log (snd s) = before @ es @ es' \<and>
     (r = Inr () \<or> waiting r \<longrightarrow> last = [] \<and> H' = held (fst s) \<and>
        rest = take (mc_index (fst s)) (mc_network (fst s)) \<and> incomplete rest) \<and>
     (r = Inr () \<or> r = Inl CE_NoDataAvailable \<longrightarrow> rest = []) \<and> (r = Inl CE_NeedMoreBytes \<longrightarrow> rest \<noteq> []))"

lemma pending_taken:
  assumes "taken received c n c'" "in_hand received c \<le> length (mc_network c)" "nothing_received received'"
  shows "pending received c = take n (mc_network c) @ pending received' c'"
    and "length (mc_network c') = length (mc_network c)" "in_hand received' c' \<le> length (mc_network c)"
proof -
  let ?m = "in_hand received c"
  have t: "n \<le> ?m" "n \<le> length (mc_network c)" "mc_index c' = ?m - n"
    "mc_network c' = drop n (mc_network c) @ drop (length (mc_network c) - n) (mc_network c)"
    using assms(1) by (simp_all add: taken_def)
  have "take (?m - n) (mc_network c') = take (?m - n) (drop n (mc_network c))"
    using t assms(2) by simp
  then show "pending received c = take n (mc_network c) @ pending received' c'"
    using t(1) by (simp add: pending_def in_hand_nothing [OF assms(3)] t(3) take_add [symmetric])
  show "length (mc_network c') = length (mc_network c)" using t by simp
  show "in_hand received' c' \<le> length (mc_network c)"
    using assms(2) by (simp add: in_hand_nothing [OF assms(3)] t(3))
qed

lemma passing_step:
  assumes "passing log manage limits H room whole before received s" "heard tr clock store handler log"
    and "turn_done tr clock store handler log manage received s s' (Inr ())" "nothing_received received'"
  shows "passing log manage limits H room whole before received' s'"
proof -
  from assms(1) obtain ps es where ps: "\<forall>p \<in> set ps. whole_packet p" "sound (fst s)"
    "telling manage limits H ps = Some (es, held (fst s))" "log (snd s) = before @ es"
    "whole = concat ps @ pending received (fst s)" and c: "cp_client (mc_properties (fst s)) = limits"
    "length (mc_network (fst s)) = room" "in_hand received (fst s) \<le> room"
    by (auto simp: passing_def handed_def)
  from assms(2,3) ps(2) obtain n es' where n: "taken received (fst s) n (fst s')" "whole_packet (take n (mc_network (fst s)))"
    "log (snd s') = log (snd s) @ es'" "told manage limits (held (fst s)) (take n (mc_network (fst s))) es' True"
    "settled limits (take n (mc_network (fst s))) (fst s) (fst s')"
    by (auto simp: turn_done_def observed_def c(1))
  let ?p = "take n (mc_network (fst s))"
  note p = pending_taken [OF n(1) _ assms(4), unfolded c(2), OF c(3)]
  from n(4,5) obtain ev where ev: "event_of limits ?p = Some ev" "es' = (if tells manage (held (fst s)) ev then [ev] else [])"
    "held (fst s') = held_after ev (held (fst s))" "sound (fst s')"
    by (auto simp: told_def settled_def)
  have "handed log manage limits H before (ps @ [?p]) s'"
    using ps n ev telling_snoc [OF ps(3) ev(1)] by (simp add: handed_def)
  moreover have "whole = concat (ps @ [?p]) @ pending received' (fst s')" using p ps(5) by simp
  ultimately show ?thesis
    unfolding passing_def using p n(1) c by (auto simp: taken_def)
qed

lemma passing_end:
  assumes "passing log manage limits H room whole before received s" "heard tr clock store handler log"
    and "turn_done tr clock store handler log manage received s s' r" "r = Inr () \<Longrightarrow> mc_index (fst s') = 0"
  shows "passed log manage limits H whole before s' r"
proof (cases r)
  case (Inr u)
  have "passing log manage limits H room whole before Recv_Nothing s'"
    using passing_step [OF assms(1,2)] assms(3) by (simp add: Inr nothing_received_def)
  then obtain ps es where ps: "\<forall>p \<in> set ps. whole_packet p" "telling manage limits H ps = Some (es, held (fst s'))"
    "log (snd s') = before @ es" "whole = concat ps @ pending Recv_Nothing (fst s')"
    by (auto simp: passing_def handed_def)
  have e: "pending Recv_Nothing (fst s') = []" "mc_index (fst s') = 0"
    using assms(4) Inr by (simp_all add: pending_def in_hand_def)
  show ?thesis
    unfolding passed_def
    by (rule exI [of _ ps], rule exI [of _ es], rule exI [of _ "held (fst s')"], rule exI [of _ "[]"])
      (use e ps incomplete_nil in \<open>simp add: Inr\<close>)
next
  case (Inl e)
  from assms(1) obtain ps es where ps: "\<forall>p \<in> set ps. whole_packet p" "sound (fst s)"
    "telling manage limits H ps = Some (es, held (fst s))" "log (snd s) = before @ es"
    "whole = concat ps @ pending received (fst s)" and c: "cp_client (mc_properties (fst s)) = limits"
    "length (mc_network (fst s)) = room" "in_hand received (fst s) \<le> room"
    by (auto simp: passing_def handed_def)
  have ended: "?thesis" if "whole = concat (ps @ failing) @ rest" "told_last manage limits (held (fst s)) failing es'"
    "log (snd s') = before @ es @ es'"
    "waiting r \<longrightarrow> failing = [] \<and> held (fst s) = held (fst s') \<and> rest = take (mc_index (fst s')) (mc_network (fst s')) \<and> incomplete rest"
    "r = Inl CE_NoDataAvailable \<longrightarrow> rest = []" "r = Inl CE_NeedMoreBytes \<longrightarrow> rest \<noteq> []" for failing es' rest
    unfolding passed_def
    by (rule exI [of _ ps], rule exI [of _ es], rule exI [of _ "held (fst s)"], rule exI [of _ failing],
        rule exI [of _ es'], rule exI [of _ rest]) (use that ps(1,3) Inl in auto)
  show ?thesis
  proof (cases "waiting r")
    case True
    then have w: "mc_network (fst s') = mc_network (fst s)" "mc_index (fst s') = in_hand received (fst s)"
      "log (snd s') = log (snd s)" "incomplete (pending received (fst s))" "mc_records (fst s') = mc_records (fst s)"
      "e = CE_NoDataAvailable \<longleftrightarrow> in_hand received (fst s) = 0"
      using assms(2,3) c by (auto simp: turn_done_def Inl)
    have "pending received (fst s) = [] \<longleftrightarrow> in_hand received (fst s) = 0"
      using c(2,3) by (auto simp: pending_def)
    then show ?thesis
      using ps w sound_same(2) [OF w(5)] by (intro ended [of "[]" "pending received (fst s)" "[]"]) (auto simp: Inl pending_def)
  next
    case False
    then have "log (snd s') = log (snd s) \<or> (\<exists>n es. n \<le> in_hand received (fst s) \<and> n \<le> length (mc_network (fst s)) \<and>
        whole_packet (take n (mc_network (fst s))) \<and> log (snd s') = log (snd s) @ es \<and>
        told manage limits (held (fst s)) (take n (mc_network (fst s))) es False)"
      using assms(2,3) c ps(2) by (auto simp: turn_done_def Inl observed_def)
    then show ?thesis
    proof
      assume "log (snd s') = log (snd s)"
      then show ?thesis
        using ps False by (intro ended [of "[]" "pending received (fst s)" "[]"]) (auto simp: Inl)
    next
      assume "\<exists>n es. n \<le> in_hand received (fst s) \<and> n \<le> length (mc_network (fst s)) \<and>
        whole_packet (take n (mc_network (fst s))) \<and> log (snd s') = log (snd s) @ es \<and>
        told manage limits (held (fst s)) (take n (mc_network (fst s))) es False"
      then obtain n es' where n: "n \<le> in_hand received (fst s)" "whole_packet (take n (mc_network (fst s)))"
        "log (snd s') = log (snd s) @ es'" "told manage limits (held (fst s)) (take n (mc_network (fst s))) es' False"
        by blast
      have "pending received (fst s) = take n (mc_network (fst s)) @ drop n (pending received (fst s))"
        using n(1) by (metis append_take_drop_id min.absorb1 pending_def take_take)
      then show ?thesis
        using ps n False
        by (intro ended [of "[take n (mc_network (fst s))]" "drop n (pending received (fst s))" es']) (auto simp: Inl told_def)
    qed
  qed
qed

section \<open>Bytes that have not been read\<close>

text \<open>What neither sending nor the application touches, such as the bytes still queued.\<close>

definition apart :: "'w transport \<Rightarrow> 'w clock \<Rightarrow> 'w store option \<Rightarrow> 'w handler \<Rightarrow> ('w \<Rightarrow> 'v) \<Rightarrow> bool" where
  "apart tr clock store handler f \<longleftrightarrow> untouched tr clock store f \<and> (\<forall>ev reply w. f (fst (handler ev reply w)) = f w)"

interpretation apart: handling_frame
    "\<lambda>s s'. apart tr clock store handler f \<longrightarrow> f (snd s') = f (snd s)" tr clock store handler
  for f :: "'w \<Rightarrow> 'v" and tr clock store handler
  by unfold_locales (auto simp: apart_def untouched_def)

lemma keeps_sum:
  "(\<And>e. keeps kept (f e)) \<Longrightarrow> (\<And>a. keeps kept (g a)) \<Longrightarrow> keeps kept (case x of Inl e \<Rightarrow> f e | Inr a \<Rightarrow> g a)"
  by (cases x) simp_all

lemma apart_iteration_turn:
  "keeps (\<lambda>s s'. apart tr clock store handler f \<longrightarrow> f (snd s') = f (snd s))
     (iteration_turn tr clock store handler manage received)"
proof -
  have bye: "keeps (\<lambda>s s'. apart tr clock store handler f \<longrightarrow> f (snd s') = f (snd s)) (answer_malformed tr clock)"
    by (rule keeps_def [THEN iffD2, rule_format]) (rule wlp_conseq [OF keepsD [OF unseen_disconnect]], auto simp: apart_def)
  have "keeps (\<lambda>s s'. apart tr clock store handler f \<longrightarrow> f (snd s') = f (snd s))
      (handle_incoming_disconnect tr clock handler n)" for n
    unfolding handle_incoming_disconnect_def
    by (intro apart.keeps_intros apart.keeps_tell_disconnect apart.keeps_upd keeps_sum bye) simp
  then show ?thesis
    unfolding iteration_turn_def take_packet_def handle_packet_def
    by (intro apart.keeps_intros apart.keeps_upd_try apart.keeps_upd apart.keeps_clock apart.keeps_check_keep_alive
        apart.keeps_handle_incoming_publish apart.keeps_handle_incoming_ack) simp_all
qed

section \<open>The read\<close>

definition arrives :: "'w transport \<Rightarrow> ('w \<Rightarrow> bytes) \<Rightarrow> mqtt_context \<times> 'w \<Rightarrow> recv \<Rightarrow> mqtt_context \<times> 'w \<Rightarrow> bytes \<Rightarrow> bool" where
  "arrives tr queued s received s' arrived \<longleftrightarrow>
     length (mc_network (fst s')) = length (mc_network (fst s)) \<and> mc_properties (fst s') = mc_properties (fst s) \<and>
     mc_records (fst s') = mc_records (fst s) \<and> in_hand received (fst s') \<le> length (mc_network (fst s)) \<and>
     pending received (fst s') = take (mc_index (fst s)) (mc_network (fst s)) @ arrived \<and>
     (received \<noteq> Recv_Failed \<longrightarrow> queued (snd s) = arrived @ queued (snd s'))"

lemma receive_once_wlp:
  assumes "streams tr clock queued" "mc_index c \<le> length (mc_network c)" "\<And>into w. log (fst (tr_recv tr into w)) = log w"
  shows "wlp (receive_once tr) (\<lambda>s' r. \<exists>received arrived. r = Inr received \<and>
    arrives tr queued (c, w) received s' arrived \<and> log (snd s') = log w) (c, w)"
proof -
  let ?i = "mc_index c" and ?net = "mc_network c"
  have room: "slice_from ?net ?i = Some (drop ?i ?net)" using assms(2) by (simp add: slice_from_def)
  obtain w1 given answer where a: "tr_recv tr (drop ?i ?net) w = (w1, given, answer)"
    by (cases "tr_recv tr (drop ?i ?net) w") auto
  have log: "log w1 = log w" using assms(3) [of "drop ?i ?net" w] a by simp
  let ?c = "receive_into ?i (drop ?i ?net) given c"
  have kept: "mc_index ?c = ?i" "mc_properties ?c = mc_properties c" "length (mc_network ?c) = length ?net"
    "take ?i (mc_network ?c) = take ?i ?net" "mc_records ?c = mc_records c"
    using assms(2) by (auto simp: receive_into_def splice_def)
  have "\<exists>arrived. arrives tr queued (c, w) answer (?c, w1) arrived"
  proof (cases answer)
    case (Recv_Bytes n)
    then have n: "n \<le> length ?net - ?i" "n \<le> length (queued w)" "given = take n (queued w) @ drop n (drop ?i ?net)"
      "queued w1 = drop n (queued w)"
      using streamsD(2) [OF assms(1) a] by simp_all
    have len: "length given = length ?net - ?i" unfolding n(3) using n(1,2) by simp
    have front: "take n given = take n (queued w)" unfolding n(3) using n(2) by simp
    have hand: "in_hand answer ?c = ?i + n" by (simp add: in_hand_def Recv_Bytes kept(1))
    have "mc_network ?c = take ?i ?net @ given"
      using len assms(2) by (simp add: receive_into_def splice_def)
    then have "pending answer ?c = take ?i ?net @ take n given"
      unfolding pending_def hand using assms(2) by simp
    then have "arrives tr queued (c, w) answer (?c, w1) (take n (queued w))"
      unfolding arrives_def hand front fst_conv snd_conv using kept(2,3,5) n(1,4) assms(2) by simp
    then show ?thesis by blast
  next
    case Recv_Nothing
    then show ?thesis
      using kept assms(2) streamsD(2) [OF assms(1) a]
      by (intro exI [of _ "[]"]) (simp add: arrives_def in_hand_def pending_def)
  next
    case Recv_Failed
    then show ?thesis
      using kept assms(2) by (intro exI [of _ "[]"]) (simp add: arrives_def in_hand_def pending_def)
  qed
  then obtain arrived where arrived: "arrives tr queued (c, w) answer (?c, w1) arrived" by blast
  have "receive_once tr (c, w) = Some ((?c, w1), Inr answer)"
    by (simp add: receive_once_def io_bind_def ctx_def io_get_def room world_call_def a upd_def io_modify_def io_return_def)
  then show ?thesis using arrived log by (auto simp: wlp_def)
qed

lemma failed_turn:
  "wlp (iteration_turn tr clock store handler manage Recv_Failed) (\<lambda>s' r. r = Inl (Inl CE_RecvFailed)) s"
  by (cases s) (simp add: iteration_turn_def take_packet_def take_received_def check_keep_alive_def
      nothing_received_def wlp_simps)

lemma iterations_wlp:
  assumes "heard tr clock store handler log" "apart tr clock store handler queued"
    and "passing log manage limits H room whole before received s" "received \<noteq> Recv_Failed \<Longrightarrow> queued (snd s) = queue"
  shows "wlp (rounds (iteration_turn tr clock store handler manage) received) (\<lambda>s' r. \<exists>status. r = Inr status \<and>
    passed log manage limits H whole before s' status \<and> (queued (snd s') = queue \<or> status = Inl CE_RecvFailed)) s"
proof (rule wlp_rounds [where I = "\<lambda>received s. passing log manage limits H room whole before received s \<and>
      (received \<noteq> Recv_Failed \<longrightarrow> queued (snd s) = queue)"])
  fix x and s :: "mqtt_context \<times> 'a"
  assume i: "passing log manage limits H room whole before x s \<and> (x \<noteq> Recv_Failed \<longrightarrow> queued (snd s) = queue)"
  have fail: "wlp (iteration_turn tr clock store handler manage x) (\<lambda>s' r. x = Recv_Failed \<longrightarrow> r = Inl (Inl CE_RecvFailed)) s"
    using failed_turn by (cases "x = Recv_Failed") simp_all
  show "wlp (iteration_turn tr clock store handler manage x) (\<lambda>s' r. case r of
      Inl a \<Rightarrow> \<exists>status. Inr a = Inr status \<and> passed log manage limits H whole before s' status \<and>
        (queued (snd s') = queue \<or> status = Inl CE_RecvFailed)
    | Inr x' \<Rightarrow> passing log manage limits H room whole before x' s' \<and> (x' \<noteq> Recv_Failed \<longrightarrow> queued (snd s') = queue)) s"
  proof (rule wlp_conseq [OF wlp_conj [OF fail wlp_conj [OF iteration_turn_wlp [where log = log]
          keepsD [OF apart_iteration_turn [where f = queued]]]]], goal_cases)
    case (1 s' r)
    show ?case
    proof (cases r)
      case (Inl a)
      then show ?thesis
        using 1 i assms(1,2) by (cases a) (auto intro: passing_end [where received = x and s = s])
    next
      case (Inr x')
      then show ?thesis
        using 1 i assms(1,2) by (auto intro: passing_step [where received = x and s = s])
    qed
  qed
qed (use assms(3,4) in auto)

section \<open>Properties\<close>

text \<open>C10. Both loops return. On a clock that runs, a pass ends whatever the transport delivers,
  whatever is in the buffer, and whatever the store and the application do: each turn but the
  last takes a packet of at least two bytes out of the buffer, and the acknowledgements and
  PINGREQs it sends end by their own timeouts.\<close>

theorem loops_return:
  assumes "clock_runs tr clock time patience"
  shows "process_loop tr clock store handler s \<noteq> None \<and> receive_loop tr clock store handler s \<noteq> None"
proof -
  note pass = iterations_return [OF assms, unfolded returns_def]
  show ?thesis
    unfolding process_loop_def receive_loop_def
    by (cases s) (simp add: io_bind_steps pass)
qed

lemma loops_unfold:
  "(if manage then process_loop else receive_loop) tr clock store handler (c, w) =
     receive_single_iteration tr clock store handler manage
       (if manage then c\<lparr>mc_control_packet_sent := False\<rparr> else c, w)"
  by (simp add: process_loop_def receive_loop_def io_bind_steps)

lemma pass_wlp:
  assumes "heard tr clock store handler log" "apart tr clock store handler queued" "streams tr clock queued"
    and "\<And>into w. log (fst (tr_recv tr into w)) = log w" "mc_index c \<le> length (mc_network c)"
    and "sound c"
  shows "wlp (receive_single_iteration tr clock store handler manage) (\<lambda>s' r. \<exists>arrived status. r = finish status \<and>
    passed log manage (cp_client (mc_properties c)) (held c) (take (mc_index c) (mc_network c) @ arrived) (log w) s' status \<and>
    (queued w = arrived @ queued (snd s') \<or> status = Inl CE_RecvFailed)) (c, w)"
  unfolding receive_single_iteration_def
proof (rule wlp_bindI [OF receive_once_wlp [OF assms(3,5,4)]], goal_cases)
  case (1 s1 received)
  then obtain arrived where a: "arrives tr queued (c, w) received s1 arrived" "log (snd s1) = log w" by auto
  let ?whole = "take (mc_index c) (mc_network c) @ arrived"
  have "mc_records (fst s1) = mc_records c" using a by (simp add: arrives_def)
  note s1 = sound_same [OF this]
  have start: "passing log manage (cp_client (mc_properties c)) (held c) (length (mc_network c)) ?whole (log w) received s1"
    using a assms(6) s1 by (auto simp: passing_def handed_def arrives_def intro!: exI [of _ "[]"])
  have queue: "received \<noteq> Recv_Failed \<Longrightarrow> queued w = arrived @ queued (snd s1)"
    using a by (simp add: arrives_def)
  show ?case
  proof (rule wlp_bindI [OF wlp_conj [OF iterations_wlp [OF assms(1,2) start refl]
          wlp_rounds [where I = "\<lambda>x _. received = Recv_Failed \<longrightarrow> x = Recv_Failed"
            and Q = "\<lambda>_ r. received = Recv_Failed \<longrightarrow> r = Inr (Inl CE_RecvFailed)"]]], goal_cases)
    case (1 x s)
    show ?case
    proof (cases "received = Recv_Failed")
      case True
      then have "x = Recv_Failed" using 1 by blast
      then show ?thesis by (simp only:) (rule wlp_conseq [OF failed_turn], simp)
    next
      case False
      then show ?thesis by (intro wlp_conseq [OF wlp_True]) (simp split: sum.split)
    qed

  next
    case 2
    show ?case by simp
  next
    case (3 s2 status)
    then have "passed log manage (cp_client (mc_properties c)) (held c) ?whole (log w) s2 status"
      "queued w = arrived @ queued (snd s2) \<or> status = Inl CE_RecvFailed"
      using queue by (cases "received = Recv_Failed"; auto)+
    then show ?case by (auto simp: wlp_basic)
  next
    case (4 s2 e)
    then show ?case by blast
  qed
qed auto

text \<open>C1. Packets in order. From a transport that delivers a stream, with what was kept of it at the
  front of the buffer and the records in order: a pass reads once, and the bytes kept and read are
  then packets, each whole as its own header says, and a rest. The application is told of the packets
  handled to their end exactly what \<open>telling\<close> says: of each in its turn, once, what the deserializers
  read from its bytes alone. It is not told of a PINGRESP the client waits for itself, nor of a
  QoS 2 PUBLISH whose identifier the records hold: because they held it at the start, or because a
  QoS 2 PUBLISH of this pass brought it, and no PUBREL (or QoS 1 PUBLISH acknowledged under it) of
  this pass has taken it away since; of every other it is told. A packet that is not handled to its
  end is the last, and of it the application is told at most this. The rest stays at the front of
  the buffer: it is empty when the pass succeeds, and an incomplete packet when it asks for more;
  in both cases no packet has failed and the records hold the identifiers that \<open>telling\<close> arrives at.\<close>

theorem packets_in_order:
  assumes "heard tr clock store handler log" and "apart tr clock store handler queued"
    and "streams tr clock queued" and "\<And>into w. log (fst (tr_recv tr into w)) = log w"
    and "mc_index c \<le> length (mc_network c)" and "\<And>s. mc_records c = Some s \<Longrightarrow> records_inv s"
    and "(if manage then process_loop else receive_loop) tr clock store handler (c, w) = Some ((c', w'), r)"
  shows "\<exists>arrived ps last rest es H es'.
      take (mc_index c) (mc_network c) @ arrived = concat (ps @ last) @ rest \<and>
      (queued w = arrived @ queued w' \<or> r = Inl CE_RecvFailed) \<and>
      (\<forall>p \<in> set (ps @ last). whole_packet p) \<and>
      telling manage (cp_client (mc_properties c)) (held c) ps = Some (es, H) \<and>
      log w' = log w @ es @ es' \<and> length last \<le> 1 \<and>
      (es' = [] \<or> (\<exists>p ev. last = [p] \<and> event_of (cp_client (mc_properties c)) p = Some ev \<and>
         tells manage H ev \<and> es' = [ev])) \<and>
      (r = Inr () \<longrightarrow> last = [] \<and> rest = [] \<and> take (mc_index c') (mc_network c') = [] \<and> held c' = H) \<and>
      (r = Inl CE_NeedMoreBytes \<longrightarrow> last = [] \<and> rest \<noteq> [] \<and> incomplete rest \<and>
         take (mc_index c') (mc_network c') = rest \<and> held c' = H)"
proof -
  let ?c = "if manage then c\<lparr>mc_control_packet_sent := False\<rparr> else c" and ?limits = "cp_client (mc_properties c)"
  have same: "mc_records ?c = mc_records c" by simp
  have "mc_index ?c \<le> length (mc_network ?c)" "sound ?c"
    using assms(5,6) by (auto simp: sound_def)
  from wlpD [OF pass_wlp [OF assms(1-4) this] assms(7) [unfolded loops_unfold]]
  obtain arrived status where r: "r = finish status"
    and p: "passed log manage ?limits (held c) (take (mc_index c) (mc_network c) @ arrived) (log w) (c', w') status"
    and q: "queued w = arrived @ queued w' \<or> status = Inl CE_RecvFailed"
    using sound_same(2) [OF same] by (auto split: if_splits)
  from p obtain ps es H last es' rest where h: "take (mc_index c) (mc_network c) @ arrived = concat (ps @ last) @ rest"
      "\<forall>p \<in> set ps. whole_packet p" "telling manage ?limits (held c) ps = Some (es, H)"
      "told_last manage ?limits H last es'" "log w' = log w @ es @ es'"
    and e: "status = Inr () \<or> waiting status \<longrightarrow> last = [] \<and> H = held c' \<and> rest = take (mc_index c') (mc_network c') \<and> incomplete rest"
      "status = Inr () \<or> status = Inl CE_NoDataAvailable \<longrightarrow> rest = []" "status = Inl CE_NeedMoreBytes \<longrightarrow> rest \<noteq> []"
    unfolding passed_def fst_conv snd_conv by (elim exE conjE) (rule that, assumption+)
  have fin: "r = Inr () \<Longrightarrow> status = Inr () \<or> status = Inl CE_NoDataAvailable"
    "r = Inl CE_NeedMoreBytes \<Longrightarrow> status = Inl CE_NeedMoreBytes" "status = Inl CE_RecvFailed \<Longrightarrow> r = Inl CE_RecvFailed"
    using r by (auto simp: finish_def split: if_splits)
  have "queued w = arrived @ queued w' \<or> r = Inl CE_RecvFailed" using q fin(3) by blast
  moreover have "r = Inr () \<longrightarrow> last = [] \<and> rest = [] \<and> take (mc_index c') (mc_network c') = [] \<and> held c' = H"
    using fin(1) e(1,2) by (metis waiting_def)
  moreover have "r = Inl CE_NeedMoreBytes \<longrightarrow> last = [] \<and> rest \<noteq> [] \<and> incomplete rest \<and>
      take (mc_index c') (mc_network c') = rest \<and> held c' = H"
    using fin(2) e(1,3) by (metis waiting_def)
  moreover have "\<forall>p \<in> set (ps @ last). whole_packet p" using h(2,4) by (auto simp: told_last_def)
  moreover have "length last \<le> 1" "es' = [] \<or> (\<exists>p ev. last = [p] \<and> event_of ?limits p = Some ev \<and> tells manage H ev \<and> es' = [ev])"
    using h(4) by (simp_all add: told_last_def)
  moreover note h(1,3,5)
  ultimately have all: "take (mc_index c) (mc_network c) @ arrived = concat (ps @ last) @ rest \<and>
      (queued w = arrived @ queued w' \<or> r = Inl CE_RecvFailed) \<and> (\<forall>p \<in> set (ps @ last). whole_packet p) \<and>
      telling manage ?limits (held c) ps = Some (es, H) \<and> log w' = log w @ es @ es' \<and> length last \<le> 1 \<and>
      (es' = [] \<or> (\<exists>p ev. last = [p] \<and> event_of ?limits p = Some ev \<and> tells manage H ev \<and> es' = [ev])) \<and>
      (r = Inr () \<longrightarrow> last = [] \<and> rest = [] \<and> take (mc_index c') (mc_network c') = [] \<and> held c' = H) \<and>
      (r = Inl CE_NeedMoreBytes \<longrightarrow> last = [] \<and> rest \<noteq> [] \<and> incomplete rest \<and>
         take (mc_index c') (mc_network c') = rest \<and> held c' = H)"
    by blast
  show ?thesis
    by (rule exI [of _ arrived], rule exI [of _ ps], rule exI [of _ last], rule exI [of _ rest], rule exI [of _ es],
        rule exI [of _ H], rule exI [of _ es']) (rule all)
qed

text \<open>A transport that delivers what is queued and takes whatever is sent, and an application that
  writes down what it is told.\<close>

definition script_transport :: "(bytes \<times> event list \<times> nat) transport" where
  "script_transport = \<lparr>
     tr_recv = (\<lambda>into (q, notes, t). let n = min (length into) (length q) in
       ((drop n q, notes, t + 1), take n q @ drop n into, Recv_Bytes n)),
     tr_recv_one = (\<lambda>(q, notes, t). case q of [] \<Rightarrow> ((q, notes, t + 1), Received_Nothing)
       | b # bs \<Rightarrow> ((bs, notes, t + 1), Received_Byte b)),
     tr_send = (\<lambda>bs (q, notes, t). ((q, notes, t + 1), Sent_Bytes (length bs))),
     tr_writev = (\<lambda>vs (q, notes, t). ((q, notes, t + 1), Sent_Bytes (length (concat vs))))\<rparr>"

definition script_clock :: "(bytes \<times> event list \<times> nat) clock" where
  "script_clock = (\<lambda>(q, notes, t). ((q, notes, t + 1), word_of_nat (t + 1)))"

definition noting :: "(bytes \<times> event list \<times> nat) handler" where
  "noting ev reply = (\<lambda>(q, notes, t). ((q, notes @ [ev], t), reply, True))"

lemma script_runs: "clock_runs script_transport script_clock (\<lambda>(_, _, t). t) (\<lambda>_. 0)"
  by (auto simp: clock_runs_def ticks_def passes_def script_transport_def script_clock_def Let_def split: list.split)

lemma script_streams: "streams script_transport script_clock (\<lambda>(q, _, _). q)"
  by (auto simp: streams_def script_transport_def script_clock_def Let_def)

lemma script_apart: "apart script_transport script_clock None noting (\<lambda>(q, _, _). q)"
  by (auto simp: apart_def untouched_def script_transport_def script_clock_def noting_def)

lemma script_heard: "heard script_transport script_clock None noting (\<lambda>(_, notes, _). notes)"
  by (auto simp: heard_def untouched_def script_transport_def script_clock_def noting_def)

text \<open>A PINGRESP at the front.\<close>

definition pong :: event where
  "pong = \<lparr>ev_packet_type = PINGRESP, ev_packet_id = 0, ev_publish = None, ev_reason_codes = [], ev_properties = []\<rparr>"

lemma pong_measured:
  "process_incoming_packet_type_and_length (0xD0 # 0 # bs) (Suc (Suc n)) =
     Inr \<lparr>h_packet_type = 0xD0, h_remaining_length = 0, h_header_length = 2\<rparr>"
  by (simp add: process_incoming_unfold incoming_packet_valid_iff numeral_eq_Suc vl_encode_small)

lemma pong_turn:
  assumes "mc_network c = 0xD0 # 0 # bs" "in_hand received c = Suc (Suc k)" "k \<le> length bs" "received \<noteq> Recv_Failed"
    and "lc_max_packet_size (cp_client (mc_properties c)) = 268435460"
  shows "\<exists>c'. iteration_turn script_transport script_clock None noting False received (c, (q, notes, t)) =
      Some ((c', (q, notes @ [pong], t + 1)), if k = 0 then Inl (Inr ())
        else Inr (if nothing_received received then received else Recv_Bytes 0)) \<and>
    mc_index c' = k \<and> mc_network c' = bs @ drop (length bs) (0xD0 # 0 # bs) \<and> mc_properties c' = mc_properties c"
proof -
  let ?c = "c\<lparr>mc_index := Suc (Suc k)\<rparr>"
  let ?view = "\<lparr>pi_packet_type = 0xD0, pi_remaining_length = 0, pi_remaining_data = []\<rparr>"
  have index: "\<not> (nothing_received received \<and> mc_index c = 0)"
    using assms(2) by (auto simp: in_hand_def nothing_received_def)
  have "measure_packet ?c = Inr 2"
    using pong_measured [of bs k] by (simp add: measure_packet_def assms(1))
  moreover have "(case received of Recv_Bytes count \<Rightarrow> c\<lparr>mc_index := mc_index c + count\<rparr> | _ \<Rightarrow> c) = ?c"
    using assms(2) by (cases received) (simp_all add: in_hand_def)
  ultimately have got: "take_received received c = (?c, Inr 2)"
    unfolding take_received_def Let_def if_not_P [OF index] if_not_P [OF assms(4)] by simp
  have ready: "packet_ready 2 ?c = Inr ()"
    using assms(1,3) by (simp add: packet_ready_def)
  have view: "read_ack_packet 2 ?c = Inr (?view, \<lparr>ai_packet_id = None, ai_reason_codes = [], ai_properties = []\<rparr>)"
    using assms(1,5) pong_measured [of bs k]
    by (simp add: read_ack_packet_def view_of_def packet_view_def slice_def limits_of_def deserialize_ack_def
        total_packet_size_def sat_add_def variable_length_encoded_size_def)
  have first: "get_at (mc_network ?c) 0 = Some 0xD0" by (simp add: assms(1))
  let ?c' = "consume 2 ?c\<lparr>mc_last_packet_rx_time := word_of_nat (t + 1)\<rparr>"
  have "handle_packet script_transport script_clock None noting 2 False (?c, (q, notes, t)) =
      Some ((?c, (q, notes @ [pong], t)), Inr ())"
    using first view
    by (simp add: handle_packet_def handle_incoming_ack_def handle_pingresp_def io_bind_def ctx_def io_get_def
        io_lift_def dispatch_def world_call_def noting_def upd_def io_modify_def io_return_def ack_reply_new_def
        accepted_or_failed_def pong_def packet_id_or_0_def)
  then have "take_packet script_transport script_clock None noting False received (c, (q, notes, t)) =
      Some ((?c', (q, notes @ [pong], t + 1)), Inr ())"
    using got ready
    by (simp add: take_packet_def check_keep_alive_def io_bind_def io_try_def upd_try_def io_lift_def ctx_def io_get_def
        upd_def io_modify_def world_call_def script_clock_def)
  then have "iteration_turn script_transport script_clock None noting False received (c, (q, notes, t)) =
      Some ((?c', (q, notes @ [pong], t + 1)), if k = 0 then Inl (Inr ())
        else Inr (if nothing_received received then received else Recv_Bytes 0))"
    by (simp add: iteration_turn_def io_bind_def io_map_err_def ctx_def io_get_def consume_def io_fail_def io_return_def)
  then show ?thesis using assms(1) by (simp add: consume_def)
qed

text \<open>Two PINGRESPs and the first byte of a PUBLISH.\<close>

definition two_and_a_bit :: bytes where
  "two_and_a_bit = [0xD0, 0, 0xD0, 0, 0x30]"

lemma two_pongs:
  "\<exists>c'. receive_loop script_transport script_clock None noting (context_new [0, 0, 0, 0, 0], (two_and_a_bit, [], 0)) =
     Some ((c', ([], [pong, pong], 3)), Inl CE_NeedMoreBytes)"
proof -
  let ?c = "context_new two_and_a_bit" and ?turn = "iteration_turn script_transport script_clock None noting False"
  have read: "receive_once script_transport (context_new [0, 0, 0, 0, 0], (two_and_a_bit, [], 0)) =
      Some ((?c, ([], [], 1)), Inr (Recv_Bytes 5))"
    by (simp add: receive_once_def io_bind_def ctx_def io_get_def world_call_def upd_def io_modify_def io_return_def
        context_new_def slice_from_def script_transport_def receive_into_def splice_def two_and_a_bit_def)
  have size: "lc_max_packet_size (cp_client (mc_properties ?c)) = 268435460"
    by (simp add: context_new_def connection_properties_new_def)
  obtain c1 where t1: "?turn (Recv_Bytes 5) (?c, ([], [], 1)) = Some ((c1, ([], [pong], 2)), Inr (Recv_Bytes 0))"
    and c1: "mc_index c1 = 3" "mc_network c1 = 0xD0 # 0 # [0x30, 0, 0x30]" "mc_properties c1 = mc_properties ?c"
    using pong_turn [of ?c "[0xD0, 0, 0x30]" "Recv_Bytes 5" 3 "[]" "[]" 1] size
    by (auto simp: context_new_def two_and_a_bit_def in_hand_def nothing_received_def)
  obtain c2 where t2: "?turn (Recv_Bytes 0) (c1, ([], [pong], 2)) = Some ((c2, ([], [pong, pong], 3)), Inr (Recv_Bytes 0))"
    and c2: "mc_index c2 = 1" "mc_network c2 = [0x30, 0, 0x30, 0, 0x30]"
    using pong_turn [of c1 "[0x30, 0, 0x30]" "Recv_Bytes 0" 1 "[]" "[pong]" 2] size c1
    by (auto simp: in_hand_def nothing_received_def)
  have "measure_packet c2 = Inl CE_NeedMoreBytes"
    by (simp add: measure_packet_def c2 process_incoming_unfold incoming_packet_valid_iff numeral_eq_Suc)
  moreover have "c2\<lparr>mc_index := mc_index c2 + 0\<rparr> = c2" by (cases c2) simp
  ultimately have "take_received (Recv_Bytes 0) c2 = (c2, Inl CE_NeedMoreBytes)"
    by (simp only: take_received_def Let_def recv.case c2(1)) simp
  then have t3: "?turn (Recv_Bytes 0) (c2, ([], [pong, pong], 3)) = Some ((c2, ([], [pong, pong], 3)), Inl (Inl CE_NeedMoreBytes))"
    by (simp add: iteration_turn_def take_packet_def check_keep_alive_def io_bind_def io_map_err_def io_try_def
        upd_try_def io_lift_def)
  note rounds = rounds_again [where body = ?turn, OF t1] rounds_again [where body = ?turn, OF t2]
    rounds_stop [where body = ?turn, OF t3]
  have "receive_single_iteration script_transport script_clock None noting False
      (context_new [0, 0, 0, 0, 0], (two_and_a_bit, [], 0)) = Some ((c2, ([], [pong, pong], 3)), Inl CE_NeedMoreBytes)"
    unfolding receive_single_iteration_def
    by (subst io_bind_run [where m = "receive_once script_transport", OF read])
      (simp add: io_bind_def rounds io_lift_def finish_def del: One_nat_def)
  then show ?thesis by (simp add: receive_loop_def)
qed

theorem loops_return_witness:
  "process_loop script_transport script_clock None noting (context_new [0, 0, 0, 0], (two_and_a_bit, [], 0)) \<noteq> None"
  using loops_return [OF script_runs] by blast

theorem packets_in_order_witness:
  "\<exists>c' ps H. receive_loop script_transport script_clock None noting (context_new [0, 0, 0, 0, 0], (two_and_a_bit, [], 0)) =
      Some ((c', ([], [pong, pong], 3)), Inl CE_NeedMoreBytes) \<and>
    two_and_a_bit = concat ps @ take (mc_index c') (mc_network c') \<and>
    telling False (cp_client connection_properties_new) {} ps = Some ([pong, pong], H)"
proof -
  let ?c = "context_new [0, 0, 0, 0, 0]"
  obtain c' where run: "receive_loop script_transport script_clock None noting (?c, (two_and_a_bit, [], 0)) =
     Some ((c', ([], [pong, pong], 3)), Inl CE_NeedMoreBytes)"
    using two_pongs by blast
  then have run': "(if False then process_loop else receive_loop) script_transport script_clock None noting
      (?c, (two_and_a_bit, [], 0)) = Some ((c', ([], [pong, pong], 3)), Inl CE_NeedMoreBytes)" by simp
  have c: "mc_index ?c \<le> length (mc_network ?c)" "mc_records ?c = None" "mc_properties ?c = connection_properties_new"
    by (simp_all add: context_new_def)
  moreover have "(\<lambda>(_, notes, _). notes) (fst (tr_recv script_transport into w)) = (\<lambda>(_, notes, _). notes) w" for into w
    by (cases w) (simp add: script_transport_def Let_def)
  ultimately obtain arrived ps rest es H where
    "take (mc_index ?c) (mc_network ?c) @ arrived = concat ps @ rest" "two_and_a_bit = arrived"
    "telling False (cp_client connection_properties_new) {} ps = Some (es, H)" "[pong, pong] = es"
    "take (mc_index c') (mc_network c') = rest" "held c' = H"
    using packets_in_order [OF script_heard script_apart script_streams _ _ _ run'] by (auto simp: held_none)
  then show ?thesis using run by (auto simp: context_new_def)
qed

end
