(* ===== verification/Answers.thy ===== *)
theory Answers
  imports Stream Cursor
begin

text \<open>
  What the client answers: the reply an application builds (client.rs), the acknowledgements on
  the wire and in the store, the duplicate of a QoS 2 message, an incoming DISCONNECT, the
  decision of the keep alive (loop_.rs), and what a pass keeps of the session's records and of
  the place in the buffer, whatever transport, store and application do.
\<close>

section \<open>The properties of a reply\<close>

text \<open>The closure an application hands over works on the builder alone; here it is a function on it.\<close>

definition with_properties :: "(property_builder \<Rightarrow> property_builder) \<Rightarrow> ack_reply \<Rightarrow> ack_reply" where
  "with_properties build r =
     (if \<not> ay_accepted r \<or> ay_buffer r = [] then r
      else case builder_resume (ay_buffer r) (ay_used r) of
        Inl _ \<Rightarrow> r
      | Inr builder \<Rightarrow>
          let builder = build builder
          in r\<lparr>ay_buffer := pb_buffer builder, ay_used := builder_len builder\<rparr>)"

section \<open>The section of a reply\<close>

text \<open>Whatever adders the application's closure calls, refused ones among them, the section it
  finds in the buffer stays at the front and whole properties are put behind it; nothing is
  written outside the buffer.\<close>

lemma build_all_appends:
  "builder_ok b \<Longrightarrow> builder_ok (build_all kind as b) \<and>
     length (pb_buffer (build_all kind as b)) = length (pb_buffer b) \<and>
     (\<exists>ps. builder_section (build_all kind as b) = builder_section b @ section_bytes ps)"
proof (induction as rule: rev_induct)
  case Nil
  then show ?case by (auto simp: build_all_def intro: exI [of _ "[]"])
next
  case (snoc a as)
  let ?b = "build_all kind as b"
  have ok: "builder_ok ?b" using snoc by simp
  have step: "build_all kind (as @ [a]) b = fst (run_adder a kind ?b)" by (simp add: build_all_def)
  obtain q v where p: "adder_property a = (q, v)" by (cases "adder_property a")
  consider (refused) "fst (run_adder a kind ?b) = ?b"
    | (added) "fst (run_adder a kind ?b) = appended ?b (q, v)"
        "1 + length (pv_bytes v) \<le> length (pb_buffer ?b) - pb_at ?b"
    using spec_run_cases [of "(q, v)" kind ?b] unfolding run_adder_eq [OF ok] p by auto
  then show ?case
  proof cases
    case refused
    then show ?thesis using snoc step by simp
  next
    case added
    have at: "pb_at ?b + 1 + length (pv_bytes v) \<le> length (pb_buffer ?b)"
      using added(2) ok by (auto simp: builder_ok_def)
    have "builder_section (appended ?b (q, v)) = builder_section ?b @ section_bytes [(q, v)]"
      using at by (simp add: builder_section_def slice_def splice_def)
    moreover obtain ps where "builder_section ?b = builder_section b @ section_bytes ps" using snoc by blast
    ultimately have "builder_section (appended ?b (q, v)) = builder_section b @ section_bytes (ps @ [(q, v)])"
      by simp
    moreover have "builder_ok (appended ?b (q, v))" "length (pb_buffer (appended ?b (q, v))) = length (pb_buffer ?b)"
      using at ok by (auto simp: builder_ok_def splice_def)
    ultimately show ?thesis using snoc step added(1) by (metis (no_types, lifting))
  qed
qed

text \<open>A second call resumes without the set of what is there already: it takes a Reason String
  again, and the section is then refused when the acknowledgement is checked.\<close>

lemma twice_refused: "validate_publish_ack_properties [0x1F, 0, 1, 65, 0x1F, 0, 1, 65] \<noteq> Inr ()"
proof
  let ?sec = "[0x1F, 0, 1, 65, 0x1F, 0, 1, 65]" and ?twice = "[(0x1F, PV_utf8 [65]), (0x1F, PV_utf8 [65])]"
  assume "validate_publish_ack_properties ?sec = Inr ()"
  then obtain ps where ps: "table_takes ack_prop_ok (\<lambda>pid. pid = ID_REASON_STRING) ps"
      "list_all (\<lambda>(_, v). pv_ok v) ps" "?sec = section_bytes ps"
    unfolding validate_publish_ack_ok table_section_def by blast
  have "readable p" if "ack_prop_ok p" "pv_ok (snd p)" for p
    using that by (cases p rule: ack_prop_ok.cases) (simp_all add: readable_def width_of_def ungettable_def)
  then have "list_all readable ps"
    using ps(1,2) by (auto simp: table_takes_def list_all_iff split: prod.splits)
  then have "read_section (cursor_new ?sec) = Inr ps"
    by (intro read_section_ahead) (simp_all add: cursor_new_def ps(3) [symmetric])
  moreover have "read_section (cursor_new ?sec) = Inr ?twice"
    by (intro read_section_ahead)
      (simp_all add: cursor_new_def readable_def width_of_def ungettable_def mqtt_string_def be16_def)
  ultimately have "ps = ?twice" by simp
  with ps(1) show False by (simp add: table_takes_def)
qed

lemma resumed_reply_refused:
  "let build = (\<lambda>b. fst (add_reason_string [65] (Some PUBACK) b));
       r = with_properties build (with_properties build (ack_reply_new True [0, 0, 0, 0, 0, 0, 0, 0, 0, 0] 0))
   in take (ay_used r) (ay_buffer r) = [0x1F, 0, 1, 65, 0x1F, 0, 1, 65] \<and>
      validate_publish_ack_properties (take (ay_used r) (ay_buffer r)) \<noteq> Inr ()"
proof -
  let ?build = "\<lambda>b. fst (add_reason_string [65] (Some PUBACK) b)"
  have add: "?build b = appended b (0x1F, PV_utf8 [65])"
    if "builder_ok b" "pb_fields b = 0" "4 \<le> length (pb_buffer b) - pb_at b" for b
    using that run_adder_eq [OF that(1), of "Reason_string [65]" "Some PUBACK"]
    by (simp add: spec_run_def spec_place_def has_field_def not_allowed_def allowed_properties_def
        field_of_def builder_fields_table_def field_bit_def)
  have step: "with_properties ?build \<lparr>ay_accepted = True, ay_reason_code = None, ay_buffer = buf, ay_used = n\<rparr> =
      \<lparr>ay_accepted = True, ay_reason_code = None, ay_buffer = splice buf n [0x1F, 0, 1, 65], ay_used = n + 4\<rparr>"
    if "length buf = 10" "n \<le> 4" for buf n
    using that by (auto simp: with_properties_def builder_resume_def builder_new_def try_u32_def
        add builder_ok_def builder_len_def mqtt_string_def be16_def)
  show ?thesis
    using twice_refused by (simp add: ack_reply_new_def step splice_def)
qed

section \<open>Acknowledgements on the wire\<close>

definition ack_packet :: "byte \<Rightarrow> u16 \<Rightarrow> byte option \<Rightarrow> bytes \<Rightarrow> bytes" where
  "ack_packet t i code sec = t # vl_encode (length (ack_body i code sec)) @ ack_body i code sec"

text \<open>The copy the store has been given, before anything was sent.\<close>

definition copy_kept :: "'w store option \<Rightarrow> byte \<Rightarrow> u16 \<Rightarrow> bytes \<Rightarrow> 'w \<Rightarrow> bool" where
  "copy_kept store t i p w \<longleftrightarrow> (t \<noteq> PUBACK \<and> t \<noteq> PUBCOMP \<longrightarrow> (\<forall>st. store = Some st \<longrightarrow>
     (\<exists>parts w1. st_store st (incoming_key i) parts w = (w1, True) \<and> concat parts = p)))"

definition answered :: "('w \<Rightarrow> bytes) \<Rightarrow> 'w store option \<Rightarrow> byte \<Rightarrow> u16 \<Rightarrow> bytes \<Rightarrow> 'w \<Rightarrow>
    mqtt_context \<times> 'w \<Rightarrow> client_error + unit \<Rightarrow> bool" where
  "answered wire store t i p w s' r \<longleftrightarrow> (\<exists>n. wire (snd s') = wire w @ take n p) \<and>
     (r = Inr () \<longrightarrow> wire (snd s') = wire w @ p \<and> copy_kept store t i p w)"

text \<open>A store whose own work sends nothing.\<close>

definition quiet :: "('w \<Rightarrow> bytes) \<Rightarrow> 'w store option \<Rightarrow> bool" where
  "quiet wire store \<longleftrightarrow> (\<forall>st key copy w. store = Some st \<longrightarrow>
     wire (fst (st_store st key copy w)) = wire w)"

lemma io_bind_assoc: "io_bind (io_bind m k) f = io_bind m (\<lambda>a. io_bind (k a) f)"
  by (rule ext) (auto simp: io_bind_def split: bind_splits sum.splits)

lemma io_bind_lift: "io_bind (io_lift (Inr a)) k = k a"
  by (rule ext) (simp add: io_bind_def io_lift_def)

lemma answered_refused: "answered wire store t i p w (c, w) (Inl e)"
  unfolding answered_def by (auto intro!: exI [of _ 0])

lemma keep_and_send_wlp:
  assumes "carries tr clock wire" "quiet wire store" "concat parts = p"
    and send: "\<And>s. wlp send (all_post tr clock wire p s) s"
  shows "wlp (io_bind (keep_ack store t i parts) (\<lambda>_. send)) (answered wire store t i p w) (c, w)"
proof (rule wlp_bindI [where P = "\<lambda>s' r. wire (snd s') = wire w \<and> (r = Inr () \<longrightarrow> copy_kept store t i p w)"], goal_cases)
  case 1
  show ?case
  proof (cases "t \<noteq> PUBACK \<and> t \<noteq> PUBCOMP")
    case True
    show ?thesis
    proof (cases store)
      case None
      then show ?thesis using True by (simp add: keep_ack_def wlp_simps copy_kept_def)
    next
      case (Some st)
      obtain w1 stored where w1: "st_store st (incoming_key i) parts w = (w1, stored)"
        by (cases "st_store st (incoming_key i) parts w")
      have "wire w1 = wire w" using assms(2) w1 Some unfolding quiet_def by (metis fst_conv)
      then show ?thesis
        using True Some w1 assms(3)
        by (auto simp: keep_ack_def wlp_simps copy_kept_def intro!: exI [of _ parts])
    qed
  qed (auto simp: keep_ack_def wlp_simps copy_kept_def)
next
  case (2 s1 a)
  have "wlp send (all_post tr clock wire p s1) s1" by (rule send)
  then show ?case
  proof (rule wlp_conseq)
    fix s2 r
    assume post: "all_post tr clock wire p s1 s2 r"
    show "answered wire store t i p w s2 r"
      using post
    proof (cases rule: all_postE)
      case sent
      then show ?thesis
        using 2 assms(1) unfolding answered_def by (auto intro!: exI [of _ "length p"])
    next
      case (failed n c)
      then show ?thesis using 2 assms(1) unfolding answered_def by auto
    qed
  qed
next
  case (3 s1 e)
  then show ?case unfolding answered_def by (auto intro!: exI [of _ 0])
qed

lemma answered_moved:
  assumes "wlp m (answered wire store t i p w) s"
  shows "wlp (io_bind m (\<lambda>_. upd_try f)) (answered wire store t i p w) s"
proof (rule wlp_bindI [OF assms])
  fix s' a
  assume "answered wire store t i p w s' (Inr a)"
  then show "wlp (upd_try f) (answered wire store t i p w) s'"
    by (cases s') (auto simp: wlp_context answered_def split: prod.split)
qed (simp add: answered_def)

lemma ack_type_cases:
  "ack_type_to_send state \<in> {0, PUBACK, PUBREC, PUBREL, PUBCOMP}"
  by (cases state) (simp_all add: ack_type_to_send_def)

lemma without_property_wlp:
  assumes "carries tr clock wire" "quiet wire store" "ack_type_to_send state \<noteq> 0"
  shows "wlp (send_publish_acks_without_property tr clock store i state)
    (\<lambda>s' r. answered wire store (ack_type_to_send state) i (ack_packet (ack_type_to_send state) i None []) w s' r \<and>
       (r = Inr () \<longrightarrow> i \<noteq> 0 \<and> mc_connect_status c = Connected) \<and>
       (mc_connect_status c \<noteq> Connected \<longrightarrow> snd s' = w)) (c, w)"
proof -
  let ?t = "ack_type_to_send state" let ?p = "ack_packet ?t i None []"
  let ?Q = "\<lambda>s' r. answered wire store ?t i ?p w s' r \<and>
       (r = Inr () \<longrightarrow> i \<noteq> 0 \<and> mc_connect_status c = Connected) \<and>
       (mc_connect_status c \<noteq> Connected \<longrightarrow> snd s' = w)"
  have refused: "?Q (c, w) (Inl e)" for e by (simp add: answered_refused)
  obtain ack where ack: "ack_from_packet_type ?t = Some ack"
    using ack_type_cases [of state] assms(3) by (auto simp: ack_from_packet_type_def)
  obtain d' answer where ser: "serialize_ack (replicate PUBLISH_ACK_PACKET_SIZE 0) ?t i None [] = (d', answer)"
    by (cases "serialize_ack (replicate PUBLISH_ACK_PACKET_SIZE 0) ?t i None []")
  have parts: "n = 4 \<and> i \<noteq> 0 \<and> d' = ?p \<and> length ?p = 4" if "answer = Inr n" for n
  proof -
    have l: "length (ack_body i None []) = 2" by (simp add: ack_body_def)
    then have l4: "length ?p = 4" by (simp add: ack_packet_def vl_encode_small)
    moreover have "n = length ?p \<and> d' = written (replicate PUBLISH_ACK_PACKET_SIZE 0) ?p \<and> i \<noteq> 0"
      using ser [unfolded that] unfolding serialize_ack_ok Let_def ack_packet_def ack_asked_def by blast
    ultimately show ?thesis by (simp add: written_full)
  qed
  show ?thesis
    unfolding send_publish_acks_without_property_def Let_def if_not_P [OF assms(3)] ack option.case ser prod.case
  proof (rule wlp_lift, goal_cases)
    case (1 n)
    then have n: "n = 4" "i \<noteq> 0" "d' = ?p" "length ?p = 4"
      using parts [of n] by (auto simp: map_err_eq_Inr)
    have sl: "slice d' 0 n = Some ?p" using n by (simp add: slice_def)
    show ?case
    proof (intro wlp_ctx)
      show "wlp (if word_of_nat PUBLISH_ACK_PACKET_SIZE > ls_max_packet_size (cp_server (mc_properties c))
          then io_fail CE_BadParameter
          else io_bind must_be_connected (\<lambda>_.
            io_bind (io_lift (ok_or CE_SendFailed (slice d' 0 n))) (\<lambda>bytes.
            io_bind (keep_ack store ?t i [bytes]) (\<lambda>_.
            io_bind (all_of n (send_buffer tr clock bytes)) (\<lambda>_.
            upd_try (ack_sent i ack)))))) ?Q (c, w)"
      proof (cases "word_of_nat PUBLISH_ACK_PACKET_SIZE > ls_max_packet_size (cp_server (mc_properties c))")
        case True
        then show ?thesis using refused by (simp add: wlp_simps)
      next
        case False
        have send: "wlp (all_of n (send_buffer tr clock ?p)) (all_post tr clock wire ?p s) s" for s
          by (rule all_of_buffer) (use n in simp)
        have tail: "wlp (io_bind (io_bind (keep_ack store ?t i [?p]) (\<lambda>_. all_of n (send_buffer tr clock ?p)))
            (\<lambda>_. upd_try (ack_sent i ack))) (answered wire store ?t i ?p w) (c, w)"
          by (intro answered_moved keep_and_send_wlp [OF assms(1,2) _ send]) simp
        show ?thesis
          unfolding if_not_P [OF False] sl ok_or_simps io_bind_lift
        proof (rule must_be_connected_wlp, goal_cases)
          case 1
          show ?case
            by (rule wlp_conseq [OF tail [unfolded io_bind_assoc]]) (use n(2) 1 in simp)
        qed (rule refused)
      qed
    qed
  qed (rule refused)
qed

lemma answered_kept_context:
  assumes "wlp m (answered wire store t i p w) s"
  shows "wlp (io_bind (io_try m) (\<lambda>outcome. io_bind (upd f) (\<lambda>_. io_lift outcome)))
    (answered wire store t i p w) s"
  unfolding wlp_bind wlp_try sum.case
  by (rule wlp_conseq [OF assms]) (auto simp: wlp_upd_any wlp_basic wlp_bind answered_def)

lemma build_and_send_wlp:
  assumes "carries tr clock wire" "quiet wire store"
    and rl: "unat rl = 3 + length (vl_encode n) + n" "unat rl < 268435456"
    and n: "n \<le> length (mc_ack_properties c)" and sec: "sec = take n (mc_ack_properties c)"
  shows "wlp (build_and_send_ack_with_props tr clock store t i code rl n)
    (answered wire store t i (ack_packet t i (Some code) sec) w) (c, w)"
proof -
  let ?p = "ack_packet t i (Some code) sec"
  let ?h = "t # vl_encode (unat rl) @ be16 i @ [code]"
  have lsec: "length sec = n" using n sec by simp
  have body: "length (ack_body i (Some code) sec) = unat rl"
    using rl(1) by (simp add: ack_body_def length_property_block lsec)
  have p: "?p = ?h @ vl_encode n @ sec"
    unfolding ack_packet_def body by (simp add: ack_body_def property_block_def lsec)
  have h8: "length ?h \<le> length (replicate 8 (0 :: byte))"
    using length_vl_encode_le_4 [OF rl(2)] by simp
  have "rl \<le> MAX_REMAINING_LENGTH" using rl(2) by (simp add: word_le_nat_alt)
  then have fixed: "serialize_ack_fixed (replicate 8 0) t i rl code = (written (replicate 8 0) ?h, length ?h)"
    using h8 unfolding serialize_ack_fixed_eq [OF \<open>rl \<le> MAX_REMAINING_LENGTH\<close>] Let_def by simp
  have n28: "n < 268435456" using rl by simp
  then have n32: "try_u32 n = Some (word_of_nat n)" "unat (word_of_nat n :: u32) = n"
    by (simp_all add: try_u32_def unat_u32_of_nat)
  have l4: "length (vl_encode n) \<le> length (replicate 4 (0 :: byte))"
    using length_vl_encode_le_4 [OF n28] by simp
  have enc: "encode_variable_length (replicate 4 0) (word_of_nat n) =
      (written (replicate 4 0) (vl_encode n), length (vl_encode n))"
    using l4 n28 by (simp add: encode_variable_length_eq n32 written_def)
  let ?parts = "take (if n = 0 then 2 else 3) [?h, vl_encode n, sec]"
  have parts: "concat ?parts = ?p" unfolding p using lsec by (cases "n = 0") simp_all
  have gather: "slice [?h, vl_encode n, sec] 0 (if n = 0 then 2 else 3) = Some ?parts"
    by (simp add: slice_def)
  have buf: "slice (mc_ack_properties c) 0 n = Some sec" using n sec by (simp add: slice_def)
  have whole: "length ?h + length (vl_encode n) + n = length ?p" unfolding p using lsec by simp
  have send: "wlp (all_of (length ?p) (send_vectors tr clock ?parts)) (all_post tr clock wire ?p s) s" for s
    using all_of_vectors [of "length ?p" ?parts] unfolding parts by blast
  have run: "wlp (io_bind (keep_ack store t i ?parts) (\<lambda>_. all_of (length ?p) (send_vectors tr clock ?parts)))
      (answered wire store t i ?p w) (c', w)" for c'
    by (rule keep_and_send_wlp [OF assms(1,2) parts send])
  have head: "length ?h \<noteq> 0" by simp
  show ?thesis
    unfolding build_and_send_ack_with_props_def fixed prod.case if_not_P [OF head] n32(1) option.case enc
      slice_written [OF h8] slice_written [OF l4] ok_or_simps io_bind_lift Let_def whole
  proof (rule wlp_upd)
    let ?c = "if n > 0 then c\<lparr>mc_ack_used := 0\<rparr> else c"
    have same: "mc_ack_properties ?c = mc_ack_properties c" by simp
    show "wlp (if length ?p > unat Context.MAX_PACKET_SIZE then io_fail CE_BadParameter
      else io_bind (ctx mc_ack_properties) (\<lambda>ack_buffer.
        io_bind (upd (\<lambda>c. c\<lparr>mc_ack_properties := []\<rparr>)) (\<lambda>_.
        io_bind (io_try (
          io_bind (io_lift (ok_or CE_SendFailed (slice ack_buffer 0 n))) (\<lambda>properties.
          io_bind (io_lift (ok_or CE_SendFailed (slice [?h, vl_encode n, properties] 0 (if n = 0 then 2 else 3)))) (\<lambda>gather.
          io_bind (keep_ack store t i gather) (\<lambda>_.
          all_of (length ?p) (send_vectors tr clock gather)))))) (\<lambda>outcome.
        io_bind (upd (\<lambda>c. c\<lparr>mc_ack_properties := ack_buffer\<rparr>)) (\<lambda>_.
        io_lift outcome))))) (answered wire store t i ?p w) (?c, w)"
    proof (cases "length ?p > unat Context.MAX_PACKET_SIZE")
      case True
      then show ?thesis by (simp add: wlp_basic answered_refused)
    next
      case False
      show ?thesis
        unfolding if_not_P [OF False]
      proof (rule wlp_ctx, rule wlp_upd, rule answered_kept_context)
        show "wlp (io_bind (io_lift (ok_or CE_SendFailed (slice (mc_ack_properties ?c) 0 n))) (\<lambda>properties.
          io_bind (io_lift (ok_or CE_SendFailed (slice [?h, vl_encode n, properties] 0 (if n = 0 then 2 else 3)))) (\<lambda>gather.
          io_bind (keep_ack store t i gather) (\<lambda>_.
          all_of (length ?p) (send_vectors tr clock gather)))))
          (answered wire store t i ?p w) (?c\<lparr>mc_ack_properties := []\<rparr>, w)"
          unfolding same buf ok_or_simps io_bind_lift gather by (rule run)
      qed
    qed
  qed
qed

lemma with_property_wlp:
  assumes "carries tr clock wire" "quiet wire store"
    and t: "ack_type_to_send state = t" and sec: "take n (mc_ack_properties c) = sec"
  shows "wlp (send_publish_acks_with_property tr clock store i state \<lparr>aa_reason_code = code, aa_property_length = n\<rparr>)
    (\<lambda>s' r. (t \<noteq> 0 \<longrightarrow> answered wire store t i (ack_packet t i code sec) w s' r) \<and>
       (t = 0 \<longrightarrow> snd s' = w) \<and> (r = Inr () \<longrightarrow> mc_connect_status c = Connected \<and> (t \<noteq> 0 \<longrightarrow> code \<noteq> None)) \<and>
       (mc_connect_status c \<noteq> Connected \<or> t \<noteq> 0 \<and> code = None \<longrightarrow> snd s' = w)) (c, w)"
proof -
  let ?reply = "\<lparr>aa_reason_code = code, aa_property_length = n\<rparr>"
  let ?Q = "\<lambda>s' r. (t \<noteq> 0 \<longrightarrow> answered wire store t i (ack_packet t i code sec) w s' r) \<and>
       (t = 0 \<longrightarrow> snd s' = w) \<and> (r = Inr () \<longrightarrow> mc_connect_status c = Connected \<and> (t \<noteq> 0 \<longrightarrow> code \<noteq> None)) \<and>
       (mc_connect_status c \<noteq> Connected \<or> t \<noteq> 0 \<and> code = None \<longrightarrow> snd s' = w)"
  have refused: "?Q (c, w) (Inl e)" for e by (simp add: answered_refused)
  have checked: "code \<noteq> None \<and> n \<le> length (mc_ack_properties c)"
    if "check_ack_reply t ?reply c = Inr a" "t \<noteq> 0" for a
    using that by (cases "n = 0"; cases code)
      (auto simp: check_ack_reply_def rbind_eq_Inr validate_publish_ack_reason_code_def ok_or_eq_Inr slice_eq_Some)
  show ?thesis
    unfolding send_publish_acks_with_property_def t Let_def
  proof (rule wlp_check, goal_cases)
    case (1 a)
    show ?case
    proof (rule must_be_connected_wlp, goal_cases)
      case 1
      note up = 1
      show ?case
      proof (cases "t = 0")
        case True
        then show ?thesis using up by (simp add: wlp_basic)
      next
        case False
        obtain ack where ack: "ack_from_packet_type t = Some ack"
          using ack_type_cases [of state] False by (auto simp: ack_from_packet_type_def t)
        obtain rc where rc: "code = Some rc" and n: "n \<le> length (mc_ack_properties c)"
          using checked [OF \<open>check_ack_reply t ?reply c = Inr a\<close> False] by auto
        show ?thesis
          unfolding if_not_P [OF False] ack option.case ack_answer.simps
        proof (rule wlp_check, goal_cases)
          case (1 size)
          then have "sized (3 + length (vl_encode n) + n) (ls_max_packet_size (cp_server (mc_properties c))) size"
            by (simp add: map_err_eq_Inr ack_packet_size_ok)
          then have rl: "unat (ps_remaining_length size) = 3 + length (vl_encode n) + n"
            "unat (ps_remaining_length size) < 268435456"
            by (auto simp: sized_def unat_u32_of_nat)
          have "wlp (io_bind (build_and_send_ack_with_props tr clock store t i rc (ps_remaining_length size) n)
              (\<lambda>_. upd_try (ack_sent i ack))) (answered wire store t i (ack_packet t i (Some rc) sec) w) (c, w)"
            by (intro answered_moved build_and_send_wlp [OF assms(1,2) rl n]) (simp add: sec)
          then show ?case
            unfolding rc option.case
            by (rule wlp_conseq) (use False up rc in simp)
        qed (use refused in simp)
      qed
    qed (use refused in simp)
  qed (use refused in simp)
qed

lemma answer_packet_wlp:
  assumes "carries tr clock wire" "quiet wire store"
    and t: "ack_type_to_send state = t" and sec: "take (mc_ack_used c) (mc_ack_properties c) = sec"
  shows "wlp (answer_packet tr clock store i state code)
    (\<lambda>s' r. (t \<noteq> 0 \<longrightarrow> answered wire store t i (ack_packet t i code sec) w s' r) \<and>
       (r = Inr () \<and> t \<noteq> 0 \<longrightarrow> mc_connect_status c = Connected \<and> (mc_ack_used c \<noteq> 0 \<longrightarrow> code \<noteq> None)) \<and>
       (t = 0 \<or> mc_connect_status c \<noteq> Connected \<or> mc_ack_used c \<noteq> 0 \<and> code = None \<longrightarrow> snd s' = w)) (c, w)"
  unfolding answer_packet_def
proof (rule wlp_ctx)
  let ?Q = "\<lambda>s' r. (t \<noteq> 0 \<longrightarrow> answered wire store t i (ack_packet t i code sec) w s' r) \<and>
       (r = Inr () \<and> t \<noteq> 0 \<longrightarrow> mc_connect_status c = Connected \<and> (mc_ack_used c \<noteq> 0 \<longrightarrow> code \<noteq> None)) \<and>
       (t = 0 \<or> mc_connect_status c \<noteq> Connected \<or> mc_ack_used c \<noteq> 0 \<and> code = None \<longrightarrow> snd s' = w)"
  show "wlp (send_ack_for tr clock store i state \<lparr>aa_reason_code = code, aa_property_length = mc_ack_used c\<rparr>) ?Q (c, w)"
  proof (cases "mc_ack_used c = 0 \<and> code = None")
    case True
    then have s: "sec = []" "code = None" using sec by auto
    show ?thesis
    proof (cases "t = 0")
      case z: True
      then show ?thesis
        using True t by (simp add: send_ack_for_def send_publish_acks_without_property_def wlp_basic)
    next
      case False
      then have f: "ack_type_to_send state \<noteq> 0" using t by simp
      have e: "send_ack_for tr clock store i state \<lparr>aa_reason_code = code, aa_property_length = mc_ack_used c\<rparr> =
          send_publish_acks_without_property tr clock store i state"
        using True by (simp add: send_ack_for_def)
      show ?thesis
        unfolding e unfolding s
        by (rule wlp_conseq [OF without_property_wlp [OF assms(1,2) f, of i w c, unfolded t]])
          (use True False in simp)
    qed
  next
    case False
    then have e: "send_ack_for tr clock store i state \<lparr>aa_reason_code = code, aa_property_length = mc_ack_used c\<rparr> =
        send_publish_acks_with_property tr clock store i state
          \<lparr>aa_reason_code = code, aa_property_length = mc_ack_used c\<rparr>"
      by (auto simp: send_ack_for_def)
    show ?thesis
      unfolding e by (rule wlp_conseq [OF with_property_wlp [OF assms(1,2) t sec, of i code w]]) blast
  qed
qed

text \<open>C6. Acknowledgements on the wire and in the store. What answers a packet is one
  acknowledgement: of the type the state machine owes, for that id, with the reason code and
  the properties the application set. What goes out is that packet or a front of it, all of it on
  success, and a PUBREC or PUBREL succeeds only when the store has kept the same bytes, before
  anything was sent. Nothing goes out when nothing is owed, when there is no connection, and
  when there are properties without a reason code, which is refused.\<close>

theorem acks_on_wire:
  assumes "carries tr clock wire"
    and "\<And>st key copy w. store = Some st \<Longrightarrow> wire (fst (st_store st key copy w)) = wire w"
    and "answer_packet tr clock store i state code (c, w) = Some ((c', w'), r)"
    and "t = ack_type_to_send state" and "sec = take (mc_ack_used c) (mc_ack_properties c)"
    and "body = be16 i @ (case code of None \<Rightarrow> [] | Some rc \<Rightarrow> rc # property_block sec)"
  shows "(t \<noteq> 0 \<longrightarrow> (\<exists>n. wire w' = wire w @ take n (t # vl_encode (length body) @ body))) \<and>
    (t \<noteq> 0 \<and> r = Inr () \<longrightarrow> wire w' = wire w @ t # vl_encode (length body) @ body \<and>
       connected c = Inr () \<and> (mc_ack_used c \<noteq> 0 \<longrightarrow> code \<noteq> None) \<and>
       (t \<in> {PUBREC, PUBREL} \<longrightarrow> (\<forall>st. store = Some st \<longrightarrow>
          (\<exists>parts w1. st_store st (incoming_key i) parts w = (w1, True) \<and>
             concat parts = t # vl_encode (length body) @ body)))) \<and>
    (t = 0 \<or> connected c \<noteq> Inr () \<or> mc_ack_used c \<noteq> 0 \<and> code = None \<longrightarrow> w' = w)"
proof -
  have q: "quiet wire store" using assms(2) by (simp add: quiet_def)
  have p: "ack_packet t i code sec = t # vl_encode (length body) @ body"
    by (simp add: ack_packet_def ack_body_def assms(6))
  have up: "connected c = Inr () \<longleftrightarrow> mc_connect_status c = Connected" by (rule connected_cases)
  note post = wlpD [OF answer_packet_wlp [OF assms(1) q assms(4,5) [symmetric]] assms(3), unfolded p snd_conv]
  have ans: "t \<noteq> 0 \<Longrightarrow> answered wire store t i (t # vl_encode (length body) @ body) w (c', w') r"
    using post by blast
  have kept: "t \<in> {PUBREC, PUBREL} \<Longrightarrow> t \<noteq> PUBACK \<and> t \<noteq> PUBCOMP" by auto
  show ?thesis
    unfolding up
  proof (intro conjI impI)
    show "t \<noteq> 0 \<Longrightarrow> \<exists>n. wire w' = wire w @ take n (t # vl_encode (length body) @ body)"
      using ans unfolding answered_def snd_conv by blast
    assume ok: "t \<noteq> 0 \<and> r = Inr ()"
    then show "wire w' = wire w @ t # vl_encode (length body) @ body"
      using ans unfolding answered_def snd_conv by blast
    show "mc_connect_status c = Connected" using ok post by blast
    show "mc_ack_used c \<noteq> 0 \<Longrightarrow> code \<noteq> None" using ok post by blast
    assume "t \<in> {PUBREC, PUBREL}"
    then show "\<forall>st. store = Some st \<longrightarrow> (\<exists>parts w1. st_store st (incoming_key i) parts w = (w1, True) \<and>
        concat parts = t # vl_encode (length body) @ body)"
      using ok ans kept unfolding answered_def copy_kept_def by blast
  qed (use post in blast)
qed

theorem acks_on_wire_witness:
  "\<exists>c' w' r n. answer_packet slow_transport slow_clock (Some keeping_store) 7 PubRecSend (Some 0x10)
      (connected_sample, ([9], 0)) = Some ((c', w'), r) \<and>
    fst w' = [9] @ take n [0x50, 4, 0, 7, 0x10, 0] \<and> (r = Inr () \<longrightarrow> fst w' = [9, 0x50, 4, 0, 7, 0x10, 0])"
proof -
  obtain c' w' r where run: "answer_packet slow_transport slow_clock (Some keeping_store) 7 PubRecSend (Some 0x10)
      (connected_sample, ([9], 0)) = Some ((c', w'), r)"
    using answer_packet_returns [OF slow_clock_runs, of "Some keeping_store" 7 PubRecSend "Some 0x10"]
    unfolding returns_def by fastforce
  have quiet: "\<And>st key copy w. Some keeping_store = Some st \<Longrightarrow> fst (fst (st_store st key copy w)) = fst w"
    by (auto simp: keeping_store_def)
  have t: "ack_type_to_send PubRecSend = 0x50" by (simp add: ack_type_to_send_def)
  have body: "be16 7 @ (case Some 0x10 of None \<Rightarrow> [] | Some rc \<Rightarrow> rc # property_block [])
      = [0, 7, 0x10, 0 :: byte]"
    by (simp add: be16_def property_block_def vl_encode_small)
  have u: "mc_ack_used connected_sample = 0" by code_simp
  from acks_on_wire [OF slow_transport_carries quiet run refl refl refl] show ?thesis
    unfolding t u take_0 body using run by (auto simp: vl_encode_small)
qed

section \<open>Keep alive\<close>

text \<open>When a PINGREQ is due, over the natural numbers.\<close>

definition ping_due :: "mqtt_context \<Rightarrow> u32 \<Rightarrow> bool" where
  "ping_due c now \<longleftrightarrow>
     mc_keep_alive_seconds c \<noteq> 0 \<and>
       min 30000 (1000 * unat (mc_keep_alive_seconds c)) \<le> unat (now - mc_last_packet_tx_time c) \<or>
     30000 \<le> unat (now - mc_last_packet_rx_time c)"

lemma tx_limit:
  fixes seconds :: u16
  shows "unat (let t = sat_mul 1000 (ucast seconds :: u32) in if PACKET_TX_TIMEOUT_MS < t then PACKET_TX_TIMEOUT_MS else t)
    = min 30000 (1000 * unat seconds)"
proof -
  have "unat seconds < 65536" by (rule unat_lt16)
  then have "1000 * unat seconds \<le> 4294967295" by linarith
  moreover have "unat (ucast seconds :: u32) = unat seconds"
    by (simp add: unsigned_ucast_eq take_bit_nat_eq_self_iff)
  ultimately have "unat (sat_mul 1000 (ucast seconds :: u32)) = 1000 * unat seconds"
    by (simp add: unat_sat_mul)
  then show ?thesis by (auto simp: Let_def word_less_nat_alt min_def)
qed

lemma handle_keep_alive_eq:
  assumes "clock w = (w1, now)"
  shows "handle_keep_alive tr clock (c, w) =
    (if mc_waiting_for_ping_resp c then
       Some ((c, w1), if 5000 < unat (now - mc_ping_req_send_time c) then Inl CE_KeepAliveTimeout else Inr ())
     else if ping_due c now then ping tr clock (c, w1)
     else Some ((c, w1), Inr ()))"
proof -
  define tx where "tx = (let t = sat_mul 1000 (ucast (mc_keep_alive_seconds c) :: u32)
     in if PACKET_TX_TIMEOUT_MS < t then PACKET_TX_TIMEOUT_MS else t)"
  have u: "unat tx = min 30000 (1000 * unat (mc_keep_alive_seconds c))"
    unfolding tx_def by (rule tx_limit)
  have "tx \<noteq> 0 \<longleftrightarrow> mc_keep_alive_seconds c \<noteq> 0"
  proof -
    have "tx = 0 \<longleftrightarrow> unat tx = 0" by (simp add: unat_eq_0)
    also have "\<dots> \<longleftrightarrow> unat (mc_keep_alive_seconds c) = 0" unfolding u by (simp add: min_def)
    finally show ?thesis by (simp add: unat_eq_0)
  qed
  then have due: "ping_due c now \<longleftrightarrow> tx \<noteq> 0 \<and> elapsed_ms now (mc_last_packet_tx_time c) \<ge> tx \<or>
      elapsed_ms now (mc_last_packet_rx_time c) \<ge> PACKET_RX_TIMEOUT_MS"
    by (simp add: ping_due_def elapsed_ms_def word_le_nat_alt u)
  have nz: "v \<noteq> 0 \<and> v \<ge> PACKET_RX_TIMEOUT_MS \<longleftrightarrow> v \<ge> PACKET_RX_TIMEOUT_MS" for v :: u32
    by (auto simp: word_le_nat_alt)
  have t: "elapsed_ms now (mc_ping_req_send_time c) > PINGRESP_TIMEOUT_MS \<longleftrightarrow> 5000 < unat (now - mc_ping_req_send_time c)"
    by (simp add: elapsed_ms_def word_less_nat_alt)
  have "handle_keep_alive tr clock (c, w) =
    (if mc_waiting_for_ping_resp c then
       Some ((c, w1), if elapsed_ms now (mc_ping_req_send_time c) > PINGRESP_TIMEOUT_MS then Inl CE_KeepAliveTimeout else Inr ())
     else if tx \<noteq> 0 \<and> elapsed_ms now (mc_last_packet_tx_time c) \<ge> tx then ping tr clock (c, w1)
     else if elapsed_ms now (mc_last_packet_rx_time c) \<noteq> 0 \<and>
          elapsed_ms now (mc_last_packet_rx_time c) \<ge> PACKET_RX_TIMEOUT_MS then ping tr clock (c, w1)
     else Some ((c, w1), Inr ()))"
    by (simp add: handle_keep_alive_def io_bind_def world_call_def assms ctx_def io_get_def Let_def tx_def
        io_fail_def io_return_def)
  then show ?thesis unfolding nz t due by simp
qed

text \<open>C18. The keep alive decides by the clock alone. While a PINGRESP is awaited nothing is sent, and
  after more than 5000 ms the answer is a timeout. Otherwise a PINGREQ goes out exactly when
  nothing was sent for the keep alive interval, or 30000 ms if that is shorter, an interval of
  zero never being over, or when nothing arrived for 30000 ms; on success it is on the wire whole
  and a PINGRESP is awaited from then, and if it fails none is. Times are differences of 32 bit
  readings, so that a clock that wraps changes nothing.\<close>

theorem keep_alive_on_wire:
  assumes "carries tr clock wire" and "clock w = (w1, now)"
    and "handle_keep_alive tr clock (c, w) = Some ((c', w'), r)"
    and "due \<longleftrightarrow> mc_keep_alive_seconds c \<noteq> 0 \<and>
        min 30000 (1000 * unat (mc_keep_alive_seconds c)) \<le> unat (now - mc_last_packet_tx_time c) \<or>
        30000 \<le> unat (now - mc_last_packet_rx_time c)"
  shows "(mc_waiting_for_ping_resp c \<longrightarrow> c' = c \<and> wire w' = wire w \<and>
      r = (if 5000 < unat (now - mc_ping_req_send_time c) then Inl CE_KeepAliveTimeout else Inr ())) \<and>
    (\<not> mc_waiting_for_ping_resp c \<and> \<not> due \<longrightarrow> c' = c \<and> wire w' = wire w \<and> r = Inr ()) \<and>
    (\<not> mc_waiting_for_ping_resp c \<and> due \<longrightarrow>
      (\<exists>n. wire w' = wire w @ take n [0xC0, 0]) \<and>
      (r = Inr () \<longleftrightarrow> mc_waiting_for_ping_resp c') \<and>
      (r = Inr () \<longrightarrow> wire w' = wire w @ [0xC0, 0] \<and> mc_ping_req_send_time c' = mc_last_packet_tx_time c'))"
proof -
  have w1: "wire w1 = wire w" by (rule carries_clock [OF assms(1,2)])
  have due: "ping_due c now \<longleftrightarrow> due" unfolding ping_due_def assms(4) ..
  note run = assms(3) [unfolded handle_keep_alive_eq [where clock = clock and w = w and c = c, OF assms(2)] due]
  have pinged: "(\<exists>n. wire w' = wire w @ take n [0xC0, 0]) \<and> (r = Inr () \<longleftrightarrow> mc_waiting_for_ping_resp c') \<and>
      (r = Inr () \<longrightarrow> wire w' = wire w @ [0xC0, 0] \<and> mc_ping_req_send_time c' = mc_last_packet_tx_time c')"
    if "ping tr clock (c, w1) = Some ((c', w'), r)" and idle: "\<not> mc_waiting_for_ping_resp c"
  proof -
    have post: "ping_post tr clock wire (c, w1) (c', w') r" by (rule wlpD [OF ping_wlp that(1)])
    show ?thesis
    proof (cases r)
      case (Inr u)
      then show ?thesis
        using post assms(1) w1 by (auto simp: ping_post_def intro!: exI [of _ 2])
    next
      case (Inl e)
      then consider "(c', w') = (c, w1)" | "all_post tr clock wire [0xC0, 0] (c, w1) (c', w') (Inl e)"
        using post by (auto simp: ping_post_def)
      then show ?thesis
      proof cases
        case 1
        then show ?thesis using Inl w1 idle by (auto intro!: exI [of _ 0])
      next
        case 2
        then show ?thesis
        proof (cases rule: all_postE)
          case (failed n c2)
          then have "\<not> mc_waiting_for_ping_resp c'"
            using idle by (auto simp: stamped_def transport_failed_def split: if_splits)
          then show ?thesis using failed Inl w1 assms(1) by auto
        qed simp
      qed
    qed
  qed
  show ?thesis
  proof (cases "mc_waiting_for_ping_resp c")
    case True
    then show ?thesis using run w1 by (simp split: if_splits)
  next
    case False
    then show ?thesis using run w1 pinged by (cases due) simp_all
  qed
qed

theorem keep_alive_on_wire_witness:
  "\<exists>c' w' r. handle_keep_alive slow_transport slow_clock
      (connected_sample\<lparr>mc_keep_alive_seconds := 10\<rparr>, ([9], 10000)) = Some ((c', w'), r) \<and>
    (r = Inr () \<longrightarrow> fst w' = [9, 0xC0, 0])"
proof -
  let ?c = "connected_sample\<lparr>mc_keep_alive_seconds := 10\<rparr>"
  have t: "slow_clock ([9], 10000) = (([9], 10001), 10001)" by (simp add: slow_clock_def)
  obtain c' w' r where run: "handle_keep_alive slow_transport slow_clock (?c, ([9], 10000)) = Some ((c', w'), r)"
    using ping_returns [OF slow_clock_runs] unfolding returns_def handle_keep_alive_eq [where clock = slow_clock and c = ?c, OF t] by fastforce
  have c: "mc_keep_alive_seconds ?c = 10" "mc_last_packet_tx_time ?c = 0" "\<not> mc_waiting_for_ping_resp ?c"
    by (simp_all add: connected_sample_def context_new_def)
  from keep_alive_on_wire [OF slow_transport_carries t run, of True] c show ?thesis
    using run by auto
qed

section \<open>An incoming DISCONNECT\<close>

lemma tell_disconnect_run:
  assumes "deserialize_disconnect view (lc_max_packet_size (cp_client (mc_properties c))) = d"
  shows "wlp (tell_disconnect handler view) (\<lambda>s1 r.
    (\<forall>incoming. d = Inr incoming \<longrightarrow> (r = Inr () \<or> r = Inl CE_EventCallbackFailed) \<and>
       snd s1 = fst (handler (disconnect_event view incoming)
          (ack_reply_new False (mc_ack_properties c) (mc_ack_used c)) w)) \<and>
    (isl d \<longrightarrow> s1 = (c, w) \<and> r \<noteq> Inr () \<and> r \<noteq> Inl CE_EventCallbackFailed)) (c, w)"
  unfolding tell_disconnect_def
proof (rule wlp_check, goal_cases)
  case (1 incoming)
  then have d: "d = Inr incoming" using assms by (auto simp: map_err_eq_Inr)
  let ?out = "handler (disconnect_event view incoming) (ack_reply_new False (mc_ack_properties c) (mc_ack_used c)) w"
  obtain w1 reply accepted where out: "?out = (w1, reply, accepted)" by (cases ?out)
  show ?case
    by (simp add: dispatch_def wlp_simps out d accepted_or_failed_def)
next
  case (2 e)
  then obtain e' where "d = Inl e'" "e = client_of_disconnect e'" using assms by (auto simp: map_err_eq_Inl)
  then show ?case by (cases e') auto
qed

text \<open>What answers an unreadable one.\<close>

lemma answer_malformed_wlp:
  "wlp (answer_malformed tr clock) (\<lambda>s2 r2. \<exists>r1. disconnect tr clock (Some 0x81) [] s = Some (s2, r1) \<and>
     r2 = (case r1 of Inr _ \<Rightarrow> Inl CE_NotConnected | Inl e \<Rightarrow> Inl e)) s"
proof (cases "disconnect tr clock (Some 0x81) [] s")
  case (Some out)
  obtain s2 r1 where out: "out = (s2, r1)" by (cases out)
  show ?thesis
    using Some by (cases r1) (simp_all add: wlp_def answer_malformed_def io_bind_def io_fail_def out)
qed (simp add: wlp_def answer_malformed_def io_bind_def)

lemma malformed_on_wire:
  assumes "carries tr clock wire" "disconnect tr clock (Some 0x81) [] (c, w) = Some ((c1, w'), r1)"
  shows "if mc_connect_status c = NotConnected \<or> ls_max_packet_size (cp_server (mc_properties c)) < 4
    then w' = w \<and> r1 \<noteq> Inr () else on_wire (wire w) [0xE0, 2, 0x81, 0] (wire w') r1"
proof -
  let ?mx = "ls_max_packet_size (cp_server (mc_properties c))"
  have bytes: "disconnect_packet (Some 0x81) [] = [0xE0, 2, 0x81, 0]"
    by (simp add: disconnect_packet_def disconnect_bytes_def property_block_def vl_encode_small)
  have total: "total_packet_size 2 = 4"
    by (simp add: total_packet_size_def sat_add_def variable_length_encoded_size_def)
  have "isl (disconnect_packet_size (Some 0x81) 0 ?mx) \<longleftrightarrow> ?mx < 4"
    by (auto simp: disconnect_packet_size_def reason_code_allowed_def sat_add_def total
        variable_length_encoded_size_def word_less_nat_alt unat_eq_0 [symmetric] simp del: unat_eq_0)
  then have check: "isl (check_disconnect c (Some 0x81) []) \<longleftrightarrow> mc_connect_status c = NotConnected \<or> ?mx < 4"
    by (cases "disconnect_packet_size (Some 0x81) 0 ?mx") (auto simp: check_disconnect_def try_u32_def)
  note post = wlpD [OF disconnect_wlp [where wire = wire and s = "(c, w)"] assms(2), unfolded disconnect_post_def bytes]
  show ?thesis
  proof (cases "check_disconnect c (Some 0x81) []")
    case (Inl e)
    then show ?thesis using post check by simp
  next
    case (Inr sz)
    then have "all_post tr clock wire [0xE0, 2, 0x81, 0] (close_connection c, w) (c1, w') r1"
      using post by simp
    from all_post_on_wire [OF assms(1) this] show ?thesis using check Inr by simp
  qed
qed

text \<open>C17. A DISCONNECT that can be read ends the connection, whatever the application says, with
  nothing sent and the application told once, with a reply it cannot use; its refusal is the
  answer. One that cannot be read is not told: all that happens to the world is one DISCONNECT of
  the client's own with the reason \<open>malformed packet\<close>, made in the state in which the packet came.
  If that is refused, because there is no connection or the broker's limit is below its four
  bytes, nothing is sent; otherwise it is on the wire, whole if it succeeds and a front of it if
  the transport fails. The answer is its error, and \<open>NotConnected\<close> when it succeeds; the
  connection is down in every case.\<close>

theorem disconnect_received:
  assumes "carries tr clock wire" and "\<And>ev reply w. wire (fst (handler ev reply w)) = wire w"
    and "view_of n c = Inr view"
    and "handle_incoming_disconnect tr clock handler n (c, w) = Some ((c', w'), r)"
  shows "mc_connect_status c' = NotConnected \<and>
    (case deserialize_disconnect view (lc_max_packet_size (cp_client (mc_properties c))) of
       Inr incoming \<Rightarrow> wire w' = wire w \<and> (r = Inr () \<or> r = Inl CE_EventCallbackFailed) \<and>
         w' = fst (handler (disconnect_event view incoming)
           (ack_reply_new False (mc_ack_properties c) (mc_ack_used c)) w)
     | Inl _ \<Rightarrow> (\<exists>c1 r1. disconnect tr clock (Some 0x81) [] (c, w) = Some ((c1, w'), r1) \<and>
         c' = c1\<lparr>mc_connect_status := NotConnected\<rparr> \<and>
         r = (case r1 of Inr _ \<Rightarrow> Inl CE_NotConnected | Inl e \<Rightarrow> Inl e) \<and>
         (if mc_connect_status c = NotConnected \<or> ls_max_packet_size (cp_server (mc_properties c)) < 4
          then w' = w \<and> r1 \<noteq> Inr () else on_wire (wire w) [0xE0, 2, 0x81, 0] (wire w') r1)))"
proof -
  let ?d = "deserialize_disconnect view (lc_max_packet_size (cp_client (mc_properties c)))"
  let ?Q = "\<lambda>s' r. mc_connect_status (fst s') = NotConnected \<and>
    (case ?d of
       Inr incoming \<Rightarrow> wire (snd s') = wire w \<and> (r = Inr () \<or> r = Inl CE_EventCallbackFailed) \<and>
         snd s' = fst (handler (disconnect_event view incoming)
           (ack_reply_new False (mc_ack_properties c) (mc_ack_used c)) w)
     | Inl _ \<Rightarrow> (\<exists>c1 r1. disconnect tr clock (Some 0x81) [] (c, w) = Some ((c1, snd s'), r1) \<and>
         fst s' = c1\<lparr>mc_connect_status := NotConnected\<rparr> \<and>
         r = (case r1 of Inr _ \<Rightarrow> Inl CE_NotConnected | Inl e \<Rightarrow> Inl e)))"
  have "wlp (handle_incoming_disconnect tr clock handler n) ?Q (c, w)"
  proof (rule handle_incoming_disconnect_wlp, goal_cases)
    case (2 v)
    then have v: "v = view" using assms(3) by simp
    show ?case
      unfolding v
    proof (rule wlp_conseq [OF tell_disconnect_run [OF refl, where w = w]], goal_cases)
      case (1 s1 r1)
      show ?case
      proof (cases ?d)
        case (Inr incoming)
        then show ?thesis using 1 assms(2) by auto
      next
        case (Inl e)
        then have s1: "s1 = (c, w)" "r1 \<noteq> Inr ()" "r1 \<noteq> Inl CE_EventCallbackFailed" using 1 by auto
        have "wlp (answer_malformed tr clock) (\<lambda>s2 r2. ?Q ((fst s2)\<lparr>mc_connect_status := NotConnected\<rparr>, snd s2) r2) (c, w)"
          by (rule wlp_conseq [OF answer_malformed_wlp]) (auto simp: Inl)
        then show ?thesis unfolding s1(1) using s1(2,3) by simp
      qed
    qed
  qed (use assms(3) in simp)
  note post = wlpD [OF this assms(4), unfolded fst_conv snd_conv]
  show ?thesis
  proof (cases ?d)
    case (Inl e)
    from post [unfolded Inl sum.case] obtain c1 r1 where r1: "mc_connect_status c' = NotConnected"
      "disconnect tr clock (Some 0x81) [] (c, w) = Some ((c1, w'), r1)" "c' = c1\<lparr>mc_connect_status := NotConnected\<rparr>"
      "r = (case r1 of Inr _ \<Rightarrow> Inl CE_NotConnected | Inl e \<Rightarrow> Inl e)" by blast
    with malformed_on_wire [OF assms(1) r1(2)] show ?thesis unfolding Inl sum.case by blast
  next
    case (Inr incoming)
    show ?thesis using post unfolding Inr sum.case by blast
  qed
qed

theorem disconnect_received_witness:
  "\<exists>c' w' r r1. handle_incoming_disconnect slow_transport slow_clock ignore_events 3
      (connected_sample\<lparr>mc_network := [0xE0, 1, 0xFF, 9], mc_index := 3\<rparr>, ([7], 0)) = Some ((c', w'), r) \<and>
    mc_connect_status c' = NotConnected \<and> r \<noteq> Inr () \<and> on_wire [7] [0xE0, 2, 0x81, 0] (fst w') r1"
proof -
  let ?c = "connected_sample\<lparr>mc_network := [0xE0, 1, 0xFF, 9], mc_index := 3\<rparr>"
  let ?view = "\<lparr>pi_packet_type = 0xE0, pi_remaining_length = 1, pi_remaining_data = [0xFF]\<rparr>"
  have "process_incoming_packet_type_and_length [0xE0, 1, 0xFF, 9] 3 =
      Inr \<lparr>h_packet_type = 0xE0, h_remaining_length = 1, h_header_length = 2\<rparr>"
    by (simp add: process_incoming_unfold incoming_packet_valid_iff numeral_eq_Suc vl_encode_small)
  then have view: "view_of 3 ?c = Inr ?view"
    by (simp add: view_of_def packet_view_def slice_def)
  have "lc_max_packet_size (cp_client (mc_properties ?c)) = 268435460"
    by (simp add: connected_sample_def context_new_def connection_properties_new_def)
  then have bad: "\<exists>e. deserialize_disconnect ?view (lc_max_packet_size (cp_client (mc_properties ?c))) = Inl e"
    by (simp add: deserialize_disconnect_def reason_code_allowed_def)
  have quiet: "\<And>ev reply w. fst (fst (ignore_events ev reply w)) = fst w" by (simp add: ignore_events_def)
  have "handle_packet slow_transport slow_clock None ignore_events 3 True (?c, ([7], 0)) =
      handle_incoming_disconnect slow_transport slow_clock ignore_events 3 (?c, ([7], 0))"
    by (simp add: handle_packet_def io_bind_def ctx_def io_get_def)
  then have "handle_incoming_disconnect slow_transport slow_clock ignore_events 3 (?c, ([7], 0)) \<noteq> None"
    using handle_packet_returns [OF slow_clock_runs, of None ignore_events 3 True "(?c, ([7], 0))"]
    unfolding returns_def by metis
  then obtain c' w' r where run: "handle_incoming_disconnect slow_transport slow_clock ignore_events 3
      (?c, ([7], 0)) = Some ((c', w'), r)"
    by (metis not_None_eq prod.exhaust)
  from bad obtain e where e: "deserialize_disconnect ?view (lc_max_packet_size (cp_client (mc_properties ?c))) = Inl e"
    by blast
  have up: "mc_connect_status ?c = Connected" "ls_max_packet_size (cp_server (mc_properties ?c)) = 268435460"
    by (simp_all add: connected_sample_def context_new_def connection_properties_new_def)
  from disconnect_received [OF slow_transport_carries quiet view run, unfolded e sum.case up]
  obtain r1 where "mc_connect_status c' = NotConnected" "on_wire [7] [0xE0, 2, 0x81, 0] (fst w') r1"
    "r = (case r1 of Inr _ \<Rightarrow> Inl CE_NotConnected | Inl e \<Rightarrow> Inl e)"
    by auto
  moreover from this(3) have "r \<noteq> Inr ()" by (cases r1) simp_all
  ultimately show ?thesis using run by blast
qed

section \<open>What a pass keeps\<close>

text \<open>The records of the session are sound, the network buffer has its length, and what is kept in
  it ends inside it.\<close>

definition session_ok :: "nat \<Rightarrow> mqtt_context \<Rightarrow> bool" where
  "session_ok room c \<longleftrightarrow> (\<forall>s. mc_records c = Some s \<longrightarrow> records_inv s) \<and>
     length (mc_network c) = room \<and> mc_index c \<le> room"

lemma session_ok_steps:
  assumes "session_ok room c"
  shows "session_ok room (fst (ack_sent i ack c))" "session_ok room (fst (ack_received i ack c))"
    "session_ok room (fst (receive_publish i q c))" "session_ok room (transport_failed c)"
    "session_ok room (close_connection c)"
proof -
  show "session_ok room (fst (ack_sent i ack c))"
    using assms ack_refines(1)
    by (auto simp: session_ok_def ack_sent_def on_records_def Let_def split: option.splits prod.splits)
  show "session_ok room (fst (ack_received i ack c))"
    using assms ack_refines(1)
    by (auto simp: session_ok_def ack_received_def on_records_def split: option.splits prod.splits)
  show "session_ok room (fst (receive_publish i q c))"
    using assms receive_publish_refines(1)
    by (auto simp: session_ok_def receive_publish_def split: option.splits prod.splits)
qed (use assms in \<open>auto simp: session_ok_def transport_failed_def close_connection_def\<close>)

interpretation session: handling_frame "\<lambda>s s'. session_ok room (fst s) \<longrightarrow> session_ok room (fst s')"
    tr clock store handler
  for room and tr :: "'w transport" and clock store handler
  by unfold_locales (auto intro: session_ok_steps, auto simp: session_ok_def)

text \<open>A transport that never says it delivered more than it was offered room for.\<close>

definition fits :: "'w transport \<Rightarrow> bool" where
  "fits tr \<longleftrightarrow> (\<forall>into w. case snd (snd (tr_recv tr into w)) of Recv_Bytes n \<Rightarrow> n \<le> length into | _ \<Rightarrow> True)"

lemma session_disconnect:
  "keeps (\<lambda>s s'. session_ok room (fst s) \<longrightarrow> session_ok room (fst s')) (disconnect tr clock reason properties)"
  unfolding disconnect_def Let_def
  by (intro session.keeps_intros session.keeps_upd session.keeps_all_of) (auto intro: session_ok_steps)

lemma session_handle_packet:
  "keeps (\<lambda>s s'. session_ok room (fst s) \<longrightarrow> session_ok room (fst s'))
     (handle_packet tr clock store handler n manage)"
proof -
  have "keeps (\<lambda>s s'. session_ok room (fst s) \<longrightarrow> session_ok room (fst s')) (answer_malformed tr clock)"
    unfolding answer_malformed_def by (intro session.keeps_intros session_disconnect)
  then have "keeps (\<lambda>s s'. session_ok room (fst s) \<longrightarrow> session_ok room (fst s'))
      (handle_incoming_disconnect tr clock handler n)"
    unfolding handle_incoming_disconnect_def
    by (intro session.keeps_intros session.keeps_tell_disconnect session.keeps_upd keeps_sum)
      (auto simp: session_ok_def)
  then show ?thesis
    unfolding handle_packet_def
    by (intro session.keeps_intros session.keeps_handle_incoming_publish session.keeps_handle_incoming_ack)
qed

text \<open>What is in hand at the start of a turn: the place, and what the read has added.\<close>

definition turn_ok :: "nat \<Rightarrow> recv \<Rightarrow> mqtt_context \<Rightarrow> bool" where
  "turn_ok room received c \<longleftrightarrow> session_ok room c \<and>
     (case received of Recv_Bytes n \<Rightarrow> mc_index c + n \<le> room | _ \<Rightarrow> True)"

lemma take_received_session:
  "turn_ok room received c \<Longrightarrow> session_ok room (fst (take_received received c))"
  by (auto simp: turn_ok_def take_received_def session_ok_def transport_failed_def Let_def split: recv.splits)

lemma session_consume:
  "session_ok room c \<Longrightarrow> whole \<le> room \<Longrightarrow> session_ok room (consume whole c)"
  by (auto simp: session_ok_def consume_def)

lemma take_packet_session:
  assumes "turn_ok room received (fst s)"
  shows "wlp (take_packet tr clock store handler manage received) (\<lambda>s' r. session_ok room (fst s')) s"
  unfolding take_packet_def
proof (rule wlp_bindI [where P = "\<lambda>s' r. session_ok room (fst s')"], goal_cases)
  case 1
  show ?case
    using take_received_session [OF assms] by (cases s) (auto simp: wlp_simps split: prod.split)
next
  case (2 s1 status)
  have keep: "wlp m (\<lambda>s' r. session_ok room (fst s')) s"
    if "session_ok room (fst s)" "keeps (\<lambda>s s'. session_ok room (fst s) \<longrightarrow> session_ok room (fst s')) m"
    for m :: "(mqtt_context \<times> 'a, client_error, 'b) io" and s
    by (rule wlp_conseq [OF keepsD [OF that(2)]]) (use that(1) in simp)
  show ?case
  proof (rule wlp_bindI [where P = "\<lambda>s' r. session_ok room (fst s')"], goal_cases)
    case 1
    show ?case
      by (rule wlp_conseq [OF keepsD [OF session.keeps_check_keep_alive [where room = room]]]) (use 2 in simp)
  next
    case (2 s2 whole)
    obtain c2 w2 where s2: "s2 = (c2, w2)" by (cases s2)
    show ?case
      unfolding s2
    proof (rule wlp_check, goal_cases)
      case (1 a)
      then have "whole \<le> length (mc_network c2)" by (auto simp: packet_ready_def split: if_splits)
      then have room: "whole \<le> room" using 2 by (simp add: s2 session_ok_def)
      show ?case
      proof (rule wlp_bindI [where P = "\<lambda>s' r. session_ok room (fst s')"], goal_cases)
        case 1
        show ?case
          by (rule wlp_conseq [OF keepsD [OF session_handle_packet [where room = room]]]) (use 2 s2 in simp)
      next
        case (2 s3 a)
        obtain c3 w3 where s3: "s3 = (c3, w3)" by (cases s3)
        have "session_ok room (consume whole c3)" using session_consume [OF _ room] 2 by (simp add: s3)
        then show ?case
          unfolding s3 by (auto simp: wlp_simps session_ok_def split: prod.split)
      qed simp
    qed (use 2 s2 in simp)
  qed simp
qed simp

lemma iteration_turn_session:
  assumes "turn_ok room received (fst s)"
  shows "wlp (iteration_turn tr clock store handler manage received)
    (\<lambda>s' r. session_ok room (fst s') \<and> (\<forall>received'. r = Inr received' \<longrightarrow> turn_ok room received' (fst s'))) s"
  unfolding iteration_turn_def
proof (rule wlp_bindI [where P = "\<lambda>s' r. session_ok room (fst s')"], goal_cases)
  case 1
  show ?case unfolding wlp_map_err by (rule take_packet_session [OF assms])
next
  case (2 s1 a)
  then show ?case
    by (cases s1) (auto simp: wlp_simps turn_ok_def session_ok_def nothing_received_def)
qed simp

lemma receive_once_session:
  assumes "fits tr" "session_ok room (fst s)"
  shows "wlp (receive_once tr) (\<lambda>s' r. session_ok room (fst s') \<and>
    (\<forall>received. r = Inr received \<longrightarrow> turn_ok room received (fst s'))) s"
proof -
  obtain c w where s: "s = (c, w)" by (cases s)
  have i: "mc_index c \<le> length (mc_network c)" using assms(2) by (simp add: s session_ok_def)
  then have room: "slice_from (mc_network c) (mc_index c) = Some (drop (mc_index c) (mc_network c))"
    by (simp add: slice_from_def)
  let ?into = "drop (mc_index c) (mc_network c)"
  obtain w1 given answer where out: "tr_recv tr ?into w = (w1, given, answer)" by (cases "tr_recv tr ?into w")
  have fit: "case answer of Recv_Bytes n \<Rightarrow> n \<le> length ?into | _ \<Rightarrow> True"
    using assms(1) out unfolding fits_def by (metis snd_conv)
  have ok: "session_ok room (receive_into (mc_index c) ?into given c)"
    using assms(2) i by (auto simp: s session_ok_def receive_into_def)
  moreover have "turn_ok room answer (receive_into (mc_index c) ?into given c)"
    using ok fit assms(2) i by (auto simp: s turn_ok_def session_ok_def receive_into_def split: recv.splits)
  ultimately show ?thesis
    by (simp add: s receive_once_def wlp_simps room out)
qed

lemma receive_single_iteration_session:
  assumes "fits tr" "session_ok room (fst s)"
  shows "wlp (receive_single_iteration tr clock store handler manage) (\<lambda>s' r. session_ok room (fst s')) s"
  unfolding receive_single_iteration_def
proof (rule wlp_bindI [OF receive_once_session [OF assms]], goal_cases)
  case (1 s1 received)
  have "wlp (rounds (iteration_turn tr clock store handler manage) received)
      (\<lambda>s' r. session_ok room (fst s')) s1"
  proof (rule wlp_rounds [where I = "\<lambda>received s. turn_ok room received (fst s)"])
    show "wlp (iteration_turn tr clock store handler manage x)
        (\<lambda>s' r. case r of Inl a \<Rightarrow> session_ok room (fst s') | Inr x' \<Rightarrow> turn_ok room x' (fst s')) s"
      if "turn_ok room x (fst s)" for x s
      by (rule wlp_conseq [OF iteration_turn_session [OF that]]) (auto split: sum.splits)
  qed (use 1 in simp)
  then show ?case
    by (rule wlp_bindI) (auto simp: wlp_basic)
qed simp

text \<open>C4. What a pass of either loop keeps, whatever the broker sends, the application says, the store
  does and however the pass ends: the records of the session keep their invariant (no identifier
  twice, every record at a point of the handshake of its own QoS and direction, free slots
  zeroed), the network buffer keeps its length, and the bytes kept end inside it. The transport
  must not claim more than it was offered room for.\<close>

theorem loops_keep_session:
  assumes "\<forall>into w. case snd (snd (tr_recv tr into w)) of Recv_Bytes n \<Rightarrow> n \<le> length into | _ \<Rightarrow> True"
    and "mc_records c = Some s" and "records_inv s" and "mc_index c \<le> length (mc_network c)"
    and "process_loop tr clock store handler (c, w) = Some ((c', w'), r) \<or>
         receive_loop tr clock store handler (c, w) = Some ((c', w'), r)"
  shows "(\<forall>s'. mc_records c' = Some s' \<longrightarrow> records_inv s' \<and>
      (\<forall>r \<in> set (pr_outgoing s') \<union> set (pr_incoming s'). is_empty r \<longrightarrow> r = empty_record) \<and>
      distinct_ids (occupied (pr_outgoing s')) \<and> distinct_ids (occupied (pr_incoming s')) \<and>
      list_all outgoing_ok (occupied (pr_outgoing s')) \<and> list_all incoming_ok (occupied (pr_incoming s'))) \<and>
    length (mc_network c') = length (mc_network c) \<and> mc_index c' \<le> length (mc_network c')"
proof -
  let ?room = "length (mc_network c)"
  have fit: "fits tr" using assms(1) by (simp add: fits_def)
  have start: "session_ok ?room c" using assms(2-4) by (simp add: session_ok_def)
  have "wlp (process_loop tr clock store handler) (\<lambda>s' r. session_ok ?room (fst s')) (c, w)"
    unfolding process_loop_def
    by (rule wlp_upd, rule receive_single_iteration_session [OF fit]) (use start in \<open>simp add: session_ok_def\<close>)
  moreover have "wlp (receive_loop tr clock store handler) (\<lambda>s' r. session_ok ?room (fst s')) (c, w)"
    unfolding receive_loop_def by (rule receive_single_iteration_session [OF fit]) (use start in simp)
  ultimately have "session_ok ?room c'" using assms(5) by (auto dest: wlpD)
  then show ?thesis by (auto simp: session_ok_def records_inv_def array_ok_def empties_ok_def)
qed

theorem loops_keep_session_witness:
  "\<exists>c' w' r s'. process_loop script_transport script_clock None noting
      (enable_qos [empty_record] [empty_record] [] connected_sample, ([0x32, 5, 0, 1], [], 0)) = Some ((c', w'), r) \<and>
    length (mc_network c') = 2 \<and> mc_index c' \<le> 2"
proof -
  let ?c = "enable_qos [empty_record] [empty_record] [] connected_sample"
  let ?w = "([0x32, 5, 0, 1], [], 0) :: bytes \<times> event list \<times> nat"
  have fit: "\<forall>into w. case snd (snd (tr_recv script_transport into w)) of Recv_Bytes n \<Rightarrow> n \<le> length into | _ \<Rightarrow> True"
    by (auto simp: script_transport_def Let_def)
  obtain s where s: "mc_records ?c = Some s" "s = records_new [empty_record] [empty_record]"
    by (auto simp: enable_qos_def)
  then have inv: "records_inv s"
    using array_ok_replicate [of 1] by (simp add: records_new_def records_inv_def)
  have n: "mc_index ?c \<le> length (mc_network ?c)" "length (mc_network ?c) = 2"
    by (simp_all add: enable_qos_def connected_sample_def context_new_def)
  obtain c' w' r where run: "process_loop script_transport script_clock None noting (?c, ?w) = Some ((c', w'), r)"
    using iterations_return [OF script_runs, of None noting True, unfolded returns_def]
    unfolding process_loop_def by (fastforce simp: io_bind_steps)
  from loops_keep_session [OF fit s(1) inv n(1) disjI1 [OF run]] show ?thesis
    using run n(2) by (cases w') auto
qed

section \<open>A QoS 2 message is told once\<close>

text \<open>The identifiers of the QoS 2 messages that were told and are not released yet: a second
  PUBLISH with one of them is a duplicate.\<close>

definition unreleased :: "u16 \<Rightarrow> mqtt_context \<Rightarrow> bool" where
  "unreleased i c \<longleftrightarrow> (\<exists>s st. mc_records c = Some s \<and> records_inv s \<and>
     log_find i (occupied (pr_incoming s)) = Some (ExactlyOnce, st) \<and> st \<in> {PubRecSend, PubRelPending})"

lemma log_find_other:
  "j \<noteq> i \<Longrightarrow> log_find i (log_del j log) = log_find i log"
  "j \<noteq> i \<Longrightarrow> log_find i (log_set j st log) = log_find i log"
  "r_packet_id r \<noteq> i \<Longrightarrow> log_find i (log @ [r]) = log_find i log"
  "log_find i log = Some x \<Longrightarrow> log_find i (log @ [r]) = log_find i log"
  by (induction log) (auto simp: log_find_def log_del_def log_set_def)

lemma log_find_set: "log_find i log = Some (q, st0) \<Longrightarrow> log_find i (log_set i st log) = Some (q, st)"
  by (induction log) (auto simp: log_find_def log_set_def split: if_splits)

lemma ack_sent_unreleased:
  assumes "unreleased i c"
  shows "unreleased i (fst (ack_sent j ack c))"
proof -
  obtain s st where s: "mc_records c = Some s" "records_inv s"
    and f: "log_find i (occupied (pr_incoming s)) = Some (ExactlyOnce, st)" "st \<in> {PubRecSend, PubRelPending}"
    using assms by (auto simp: unreleased_def)
  obtain s' res where u: "update_ack s j ack Op_Send = (s', res)" by (cases "update_ack s j ack Op_Send")
  have inv: "records_inv s'" and spec: "(abs_records s', res) = spec_ack (abs_records s) j ack Op_Send"
    using ack_refines [OF s(2) u] by simp_all
  have "\<exists>st'. log_find i (occupied (pr_incoming s')) = Some (ExactlyOnce, st') \<and> st' \<in> {PubRecSend, PubRelPending}"
  proof (cases "j = 0 \<or> is_publish_outgoing ack Op_Send")
    case True
    then have "occupied (pr_incoming s') = occupied (pr_incoming s)"
      using spec by (auto simp: spec_ack_def abs_records_def split: prod.splits if_splits)
    then show ?thesis using f by simp
  next
    case False
    then have "occupied (pr_incoming s') = fst (log_ack (occupied (pr_incoming s)) j ack Op_Send)"
      using spec by (auto simp: spec_ack_def abs_records_def split: prod.splits)
    moreover have "\<exists>st'. log_find i (fst (log_ack (occupied (pr_incoming s)) j ack Op_Send)) = Some (ExactlyOnce, st') \<and>
        st' \<in> {PubRecSend, PubRelPending}"
    proof (cases "j = i")
      case True
      have "ack_next ack Op_Send ExactlyOnce st \<in> {None, Some PubRelPending}"
        using f(2) False by (cases ack) (auto simp: ack_next_def is_publish_outgoing_def)
      then show ?thesis
        using f True log_find_set [OF f(1)] by (auto simp: log_ack_def)
    next
      case other: False
      have "ack_next ack Op_Send q x \<noteq> Some PubRelSend" for q x
        by (cases ack; cases q; cases x; simp add: ack_next_def)
      then show ?thesis
        using f log_find_other(1,2) [OF other]
        by (auto simp: log_ack_def split: option.splits publish_state.splits)
    qed
    ultimately show ?thesis by simp
  qed
  then show ?thesis
    using inv u s(1) by (auto simp: ack_sent_def on_records_def unreleased_def Let_def)
qed

interpretation memory: acking_frame "\<lambda>s s'. unreleased i (fst s) \<longrightarrow> unreleased i (fst s')" tr clock store
  for i and tr :: "'w transport" and clock store
  by unfold_locales (auto intro: ack_sent_unreleased, auto simp: unreleased_def transport_failed_def)

text \<open>The arrival of a QoS 2 PUBLISH in the records, by what they hold of its identifier.\<close>

lemma receive_qos2:
  assumes "mc_records c = Some s" "records_inv s" "i \<noteq> 0"
  shows "case log_find i (occupied (pr_incoming s)) of
     Some x \<Rightarrow> \<exists>c'. receive_publish i ExactlyOnce c = (c', Inr (PubRecSend, True)) \<and> (unreleased i c \<longrightarrow> unreleased i c')
   | None \<Rightarrow> length (occupied (pr_incoming s)) < length (pr_incoming s) \<longrightarrow>
       (\<exists>c'. receive_publish i ExactlyOnce c = (c', Inr (PubRecSend, False)) \<and> unreleased i c')"
proof -
  obtain s' res where u: "update_publish s i Op_Receive ExactlyOnce = (s', res)"
    by (cases "update_publish s i Op_Receive ExactlyOnce")
  have inv: "records_inv s'" and spec: "(abs_records s', res) = spec_receive_publish (abs_records s) i ExactlyOnce"
    using receive_publish_refines [OF assms(2) u] by simp_all
  show ?thesis
  proof (cases "log_find i (occupied (pr_incoming s))")
    case None
    show ?thesis
    proof (cases "length (occupied (pr_incoming s)) < length (pr_incoming s)")
      case True
      have new: "i \<notin> r_packet_id ` set (occupied (pr_incoming s))" using None by (simp add: log_find_None)
      then have "res = Inr PubRecSend" "occupied (pr_incoming s') = occupied (pr_incoming s) @
          [\<lparr>r_packet_id = i, r_qos = ExactlyOnce, r_state = PubRecSend\<rparr>]"
        using spec True assms(3)
        by (auto simp: spec_receive_publish_def abs_records_def log_add_def split: prod.splits)
      then show ?thesis
        using None new inv u assms(1) by (auto simp: receive_publish_def unreleased_def)
    qed (simp add: None)
  next
    case (Some x)
    then have old: "i \<in> r_packet_id ` set (occupied (pr_incoming s))"
      using log_find_None [of i "occupied (pr_incoming s)"] by auto
    then have "res = Inl S_StateCollision" "occupied (pr_incoming s') = occupied (pr_incoming s)"
      using spec assms(3)
      by (auto simp: spec_receive_publish_def abs_records_def log_add_def split: prod.splits)
    then show ?thesis
      using Some inv u assms(1)
      by (auto simp: receive_publish_def unreleased_def calculate_state_publish_def)
  qed
qed

lemma memory_dispatch:
  "keeps (\<lambda>s s'. unreleased i (fst s) \<longrightarrow> unreleased i (fst s')) (dispatch handler ev wants)"
  unfolding dispatch_def
  by (intro memory.keeps_intros memory.keeps_world memory.keeps_upd) (auto simp: unreleased_def)

text \<open>The handling of a QoS 2 PUBLISH after the records have said whether it is a duplicate.\<close>

definition after_telling :: "'w transport \<Rightarrow> 'w clock \<Rightarrow> 'w store option \<Rightarrow> u16 \<Rightarrow> bool \<times> byte option \<Rightarrow>
    (mqtt_context \<times> 'w, client_error, unit) io" where
  "after_telling tr clock store i = (\<lambda>(accepted, reason_code).
     io_bind (io_lift (accepted_or_failed accepted)) (\<lambda>_.
     io_bind section_fits (\<lambda>_. answer_packet tr clock store i PubRecSend reason_code)))"

lemma handle_qos2_run:
  assumes "read_publish_packet n c = Inr (view, incoming)" and "pu_qos incoming = ExactlyOnce"
    and "pu_packet_id incoming = Some i"
    and "receive_publish i ExactlyOnce c = (c1, Inr (PubRecSend, duplicate))"
  shows "handle_incoming_publish tr clock store handler n (c, w) =
    (if duplicate then after_telling tr clock store i (True, None) (c1, w)
     else io_bind (dispatch handler (publish_event view incoming) True) (after_telling tr clock store i) (c1, w))"
proof -
  have read: "io_bind (ctx (read_publish_packet n)) io_lift (c, w) = Some ((c, w), Inr (view, incoming))"
    using assms(1) by (simp add: io_bind_def ctx_def io_get_def io_lift_def)
  have arrive: "upd_try (receive_publish i ExactlyOnce) (c, w) = Some ((c1, w), Inr (PubRecSend, duplicate))"
    using assms(4) by (simp add: upd_try_def)
  have pid: "packet_id_or_0 (Some i) = i" by (simp add: packet_id_or_0_def)
  show ?thesis
    unfolding handle_incoming_publish_def io_bind_run [where m = "io_bind (ctx (read_publish_packet n)) io_lift", OF read]
      prod.case Let_def assms(2,3) pid io_bind_run [where m = "upd_try (receive_publish i ExactlyOnce)", OF arrive]
      after_telling_def
    by (cases duplicate) (simp_all add: io_bind_steps)
qed

text \<open>C5. A QoS 2 message is told once. The first PUBLISH with its identifier is told when the array
  of incoming records has a free slot for it, and from then, whatever the application answers and
  whether or not the PUBREC gets out, the identifier is remembered as one that is not released;
  while it is in the records a second PUBLISH with it is not told, and nothing in the handling of
  that makes the client forget it.\<close>

theorem qos2_told_once:
  assumes "heard tr clock store handler log" and "mc_records c = Some s" and "records_inv s"
    and "read_publish_packet n c = Inr (view, incoming)" and "pu_qos incoming = ExactlyOnce"
    and "pu_packet_id incoming = Some i" and "i \<noteq> 0"
    and "handle_incoming_publish tr clock store handler n (c, w) = Some ((c', w'), r)"
  shows "(log_find i (occupied (pr_incoming s)) = None \<and>
        length (occupied (pr_incoming s)) < length (pr_incoming s) \<longrightarrow>
      log w' = log w @ [publish_event view incoming] \<and> unreleased i c') \<and>
    (log_find i (occupied (pr_incoming s)) \<noteq> None \<longrightarrow>
      log w' = log w \<and> (unreleased i c \<longrightarrow> unreleased i c'))"
proof -
  let ?rest = "after_telling tr clock store i" and ?tell = "dispatch handler (publish_event view incoming) True"
  have quiet: "keeps (\<lambda>s s'. untouched tr clock store log \<longrightarrow> log (snd s') = log (snd s)) (?rest p)" for p
    unfolding after_telling_def by (intro unseen.keeps_intros unseen.keeps_section_fits unseen.keeps_answer_packet)
  have keep: "keeps (\<lambda>s s'. unreleased i (fst s) \<longrightarrow> unreleased i (fst s')) (?rest p)" for p
    unfolding after_telling_def by (intro memory.keeps_intros memory.keeps_section_fits memory.keeps_answer_packet)
  note run = handle_qos2_run [OF assms(4-6), of _ _ tr clock store handler w]
  show ?thesis
  proof (cases "log_find i (occupied (pr_incoming s))")
    case None
    show ?thesis
    proof (cases "length (occupied (pr_incoming s)) < length (pr_incoming s)")
      case True
      then obtain c1 where c1: "receive_publish i ExactlyOnce c = (c1, Inr (PubRecSend, False))" "unreleased i c1"
        using receive_qos2 [OF assms(2,3,7)] None by auto
      have told: "io_bind ?tell ?rest (c1, w) = Some ((c', w'), r)" using assms(8) run [OF c1(1)] by simp
      have "log w' = log w @ [publish_event view incoming]"
        using wlpD [OF after_dispatch [OF quiet] told] assms(1) by simp
      moreover have "unreleased i c'"
        using wlpD [OF keepsD [OF memory.keeps_bind [OF memory_dispatch keep]] told] c1(2) by simp
      ultimately show ?thesis using None by simp
    qed (simp add: None)
  next
    case (Some x)
    then obtain c1 where c1: "receive_publish i ExactlyOnce c = (c1, Inr (PubRecSend, True))"
      "unreleased i c \<longrightarrow> unreleased i c1"
      using receive_qos2 [OF assms(2,3,7)] by auto
    have silent: "?rest (True, None) (c1, w) = Some ((c', w'), r)" using assms(8) run [OF c1(1)] by simp
    have "log w' = log w"
      using wlpD [OF keepsD [OF quiet] silent] assms(1) by (simp add: heard_def)
    moreover have "unreleased i c \<longrightarrow> unreleased i c'"
      using wlpD [OF keepsD [OF keep] silent] c1(2) by simp
    ultimately show ?thesis using Some by simp
  qed
qed

theorem qos2_told_once_witness:
  "\<exists>c' w' r. handle_incoming_publish script_transport script_clock None noting 8
      (enable_qos [empty_record] [empty_record] [] (connected_sample
         \<lparr>mc_network := [0x34, 6, 0, 1, 0x61, 0, 7, 0], mc_index := 8\<rparr>), ([], [], 0)) = Some ((c', w'), r) \<and>
    length (fst (snd w')) = 1 \<and> unreleased 7 c'"
proof -
  let ?c = "enable_qos [empty_record] [empty_record] [] (connected_sample
         \<lparr>mc_network := [0x34, 6, 0, 1, 0x61, 0, 7, 0], mc_index := 8\<rparr>)"
  let ?view = "\<lparr>pi_packet_type = 0x34, pi_remaining_length = 6, pi_remaining_data = [0, 1, 0x61, 0, 7, 0]\<rparr>"
  let ?in = "\<lparr>pu_qos = ExactlyOnce, pu_dup = False, pu_retain = False, pu_packet_id = Some 7,
     pu_topic_name = [0x61], pu_properties = [], pu_payload = []\<rparr>"
  have "process_incoming_packet_type_and_length [0x34, 6, 0, 1, 0x61, 0, 7, 0] 8 =
      Inr \<lparr>h_packet_type = 0x34, h_remaining_length = 6, h_header_length = 2\<rparr>"
  proof -
    have "vl_scan (Suc 3) [6, 0, 1, 0x61, 0, 7, 0] = Vl_Done 6 1" by (simp only: vl_scan.simps) simp
    moreover have "Suc 3 = 4" by simp
    ultimately have "vl_scan 4 [6, 0, 1, 0x61, 0, 7, 0] = Vl_Done 6 1" by simp
    then show ?thesis
      by (simp add: process_incoming_unfold incoming_packet_valid_iff vl_encode_small)
  qed
  then have view: "view_of 8 ?c = Inr ?view"
    by (simp add: view_of_def packet_view_def slice_def enable_qos_def)
  have sec: "publish_section 0 []"
    unfolding publish_section_def by (auto simp: aliases_ok_def intro!: exI [of _ "[]"])
  have fields: "publish_fields_ok 0 ?in" using sec by (simp add: publish_fields_ok_def id_ok_def)
  have body: "packet_body ?view = Some (mqtt_string [0x61] @ id_bytes (Some 7) @ property_block [] @ [])"
    by (simp add: packet_body_def slice_def id_bytes_def mqtt_string_def be16_def property_block_def vl_encode_small)
  have t: "(0x34 :: byte) = publish_type_byte ExactlyOnce False False"
    by (simp add: publish_type_byte_def)
  have sz: "total_packet_size 6 \<le> 268435460" by (simp add: total_packet_size_def sat_add_def
        variable_length_encoded_size_def)
  have "deserialize_publish ?view 268435460 0 = Inr ?in"
    unfolding deserialize_publish_ok
    using sz fields body t by (simp add: id_cost_def word_less_nat_alt)
  moreover have "lc_max_packet_size (cp_client (mc_properties ?c)) = 268435460"
    "lc_topic_alias_max (cp_client (mc_properties ?c)) = 0" "mc_records ?c \<noteq> None"
    by (simp_all add: enable_qos_def connected_sample_def context_new_def connection_properties_new_def)
  ultimately have read: "read_publish_packet 8 ?c = Inr (?view, ?in)"
    by (simp add: read_publish_packet_def view)
  have s: "mc_records ?c = Some (records_new [empty_record] [empty_record])" by (simp add: enable_qos_def)
  have inv: "records_inv (records_new [empty_record] [empty_record])"
    using array_ok_replicate [of 1] by (simp add: records_new_def records_inv_def)
  have free: "log_find 7 (occupied (pr_incoming (records_new [empty_record] [empty_record]))) = None"
    "length (occupied (pr_incoming (records_new [empty_record] [empty_record]))) <
       length (pr_incoming (records_new [empty_record] [empty_record]))"
    by (simp_all add: records_new_def log_find_def is_empty_def empty_record_def)
  have "handle_packet script_transport script_clock None noting 8 True (?c, ([], [], 0)) =
      handle_incoming_publish script_transport script_clock None noting 8 (?c, ([], [], 0))"
    by (simp add: handle_packet_def io_bind_def ctx_def io_get_def enable_qos_def)
  then have "handle_incoming_publish script_transport script_clock None noting 8 (?c, ([], [], 0)) \<noteq> None"
    using handle_packet_returns [OF script_runs, of None noting 8 True "(?c, ([], [], 0))"]
    unfolding returns_def by metis
  then obtain c' w' r where run: "handle_incoming_publish script_transport script_clock None noting 8
      (?c, ([], [], 0)) = Some ((c', w'), r)"
    by (metis not_None_eq prod.exhaust)
  have "pu_qos ?in = ExactlyOnce" "pu_packet_id ?in = Some 7" "(7 :: u16) \<noteq> 0" by simp_all
  from qos2_told_once [OF script_heard s inv read this run] free
  show ?thesis using run by (cases w') auto
qed

end
