(* ===== verification/Spec2Isabelle.thy ===== *)
theory Spec2Isabelle
  imports Topic Connack Publish Validate Context Outbound Outpublish Reader Client Cursor Answers
begin

text \<open>
  The MQTT 5 client core of \<open>src/crates/rusty_rtos_mqtt-core\<close>, a port of coreMQTT: packets
  are read from and written into buffers the caller lends, nothing is allocated, and everything
  outside the crate is reached through four traits, the transport, the clock, the packet store
  and the application.

  \<^bold>\<open>The program.\<close> At the bottom are the wire formats: the fixed header (header.rs), the
  property primitives (property.rs), one deserializer per incoming packet (ack.rs, connack.rs,
  publish.rs, disconnect.rs) and one size calculator and serializer per outgoing packet (size.rs,
  writer.rs, connect.rs, outpublish.rs, outbound.rs, disconnect.rs), with the validators of
  outgoing property sections (validate.rs). Two helpers work on property sections from the
  application's side, the builder (builder.rs) and the cursor (cursor.rs). state.rs keeps the QoS 1
  and QoS 2 handshakes in two arrays of records. The client's context (client.rs, context.rs) holds
  the limits both sides agreed on, the records, the network buffer and the timers; its requests
  check their arguments, reserve a record, gather the packet and send it. session.rs makes the
  connection and resumes a session: it reads the CONNACK through reader.rs, sets the limits, and
  sends again what the records still owe. loop_.rs is the receive loop: it reads behind the bytes
  kept, measures and deserializes the packet at the front, moves the state machine, tells the
  application, sends the acknowledgement the application may have decorated, and keeps the
  connection alive. topic.rs matches a topic against a filter for the application.

  \<^bold>\<open>How it is modelled.\<close> Words keep their width (\<open>u8\<close>, \<open>u16\<close>, \<open>u32\<close>); \<open>usize\<close> is \<open>nat\<close>, because the
  lengths of slices are what it counts. An enum is a datatype, a struct a record, a \<open>Result\<close> a sum
  with the error on the left, \<open>&mut\<close> an argument that is returned. A slice access that may fail is an
  option (\<open>slice\<close>, \<open>get_at\<close>), as \<open>get\<close> is in the source. A loop over a section is a function
  with a measure; the loops that wait for the outside (\<open>rounds\<close>, \<open>read_length_loop\<close>) are partial
  functions into \<open>option\<close>, \<open>None\<close> being a loop that never ends, so that returning is a theorem. The
  transport, the clock, the store and the application are arguments of the definitions that use
  them, functions on a world \<open>'w\<close> of their own; nothing is assumed of them but what a theorem names.

  \<^bold>\<open>Which theory models what.\<close>
  \<^item> \<open>Prelude\<close>: words, slices, saturating and checked arithmetic, \<open>rbind\<close>. \<open>Varint\<close>: the
    variable byte integer as a specification, with the locale of a prefix-free code.
  \<^item> \<open>Header\<close> (header.rs): encoder and reader of the fixed header.
  \<^item> \<open>Property\<close> (property.rs): the bounded reader, what a section is (\<open>section_bytes\<close>), and
    the locale \<open>section_table\<close> of a loop over a section. \<open>Tables\<close>, \<open>Walks\<close>: the locales
    of a property table and of one that writes while it walks, from which every reader and
    validator of a section gets the list of properties it accepts.
  \<^item> \<open>Ack\<close> (ack.rs), \<open>Connack\<close> (connack.rs), \<open>Publish\<close> (publish.rs), \<open>Disconnect\<close>
    (disconnect.rs): which packets a reader accepts, as an equivalence with a layout.
  \<^item> \<open>Writer\<close>, \<open>Size\<close>, \<open>Buffers\<close>, \<open>Connect\<close>, \<open>Outpublish\<close>, \<open>Outbound\<close>, \<open>Disconnect\<close>
    (writer.rs, size.rs, connect.rs, outpublish.rs, outbound.rs, disconnect.rs): what a serializer
    writes, that it is as long as was computed, and that the reader reads it back.
  \<^item> \<open>Validate\<close> (validate.rs), \<open>Context\<close> (context.rs): the six validators; the walk that
    fills the client's limits.
  \<^item> \<open>Builder\<close> (builder.rs), \<open>Cursor\<close> (cursor.rs): the adders refine a list of properties; the
    getters return it, and when the validator of its packet takes a built section.
  \<^item> \<open>Topic\<close> (topic.rs): the matcher against the levels of MQTT 4.7, and where it differs.
  \<^item> \<open>Records\<close> (state.rs): the transition tables, the arrays, their invariant
    (\<open>records_inv\<close>), their refinement of two logs (locale \<open>ordered_log\<close>), reachable states.
  \<^item> \<open>Io\<close>: operations on a state and a world that may not return, with the partial correctness
    rules (\<open>wlp\<close>), the rules for returning, and \<open>rounds\<close>. \<open>Reader\<close> (reader.rs): the header
    read a byte at a time.
  \<^item> \<open>Client\<close>, \<open>Sending\<close>, \<open>Requests\<close> (client.rs): the context, packet identifiers and checks; the
    two senders, PINGREQ and DISCONNECT; SUBSCRIBE, UNSUBSCRIBE and PUBLISH.
  \<^item> \<open>Session\<close>, \<open>Establish\<close> (session.rs): body and CONNACK, the CONNECT on the wire; fresh
    and resumed sessions, \<open>connect\<close>.
  \<^item> \<open>Loop\<close> (loop_.rs and the event types of client.rs): every handler and both loops.
    \<open>Frames\<close>: the locales of what an operation leaves alone, a layer for each group of handlers,
    interpreted in \<open>Receive\<close>, \<open>Stream\<close> and \<open>Answers\<close>. \<open>Receive\<close>, \<open>Stream\<close>: a pass returns,
    takes the stream apart, and tells the application what \<open>telling\<close> says of the packets and of the
    QoS 2 identifiers held. \<open>Answers\<close>: acknowledgements, keep alive, DISCONNECT, duplicates.

  \<^bold>\<open>What the theorems show.\<close> Of the records: the invariant over all operation sequences, the
  refinement to logs, the handshakes. Of the loop: it returns; however the transport cuts
  the stream, the packets are told whole, in order and once, all but the duplicates of QoS 2
  and the PINGRESP the client waits for; the session's records and the buffer
  stay sound whatever comes in; a QoS 2 message is told once; an acknowledgement on the wire is the one
  owed. Of the requests and \<open>connect\<close>: they return, a refusal changes nothing and sends
  nothing, and otherwise a front of one packet is sent, all of it on success, with the conditions
  under which it is the flat serializer's; what \<open>connect\<close> leaves in the context. Of the formats: acceptance as an equivalence with a layout,
  written length, round trips. Of the builder and the cursor: refinement, bounds, round trip. This
  theory ends with the composition of the application's side: a reply built with the adders,
  sent by the loop, read by the deserializer and taken apart with the cursor (\<open>reply_understood\<close>).

  \<^bold>\<open>Assumptions and bounds.\<close> \<open>carries\<close>, \<open>delivers\<close> and \<open>streams\<close> say that a transport sends and
  delivers the bytes it counts. \<open>clock_runs\<close> says that the clock reads a time cut to 32 bits, that
  no call takes more than \<open>2 ^ 28\<close> ms, and that between two ticks only boundedly many calls
  are made; without it the senders do not return (\<open>frozen_clock_hangs\<close>). Where a theorem bounds a section or a
  buffer by \<open>2 ^ 28\<close> or \<open>2 ^ 32\<close>, that is the limit of MQTT's length field or of the \<open>u32\<close> that holds
  the length; the code checks the first where it matters. The
  readers of a variable byte integer read at most four bytes, as the code does. No fuel is
  used anywhere.

  \<^bold>\<open>Not modelled.\<close> lib.rs of the core crate and the facade crate \<open>src/crates/rusty_rtos_mqtt\<close>
  (module declarations, re-exports), the measurement programs under \<open>src/bench\<close>, and the test
  modules: they have no behaviour of their own. Display texts of errors, the accessors that only
  return or set a field, and the C sources the port is checked against are left out too. That a borrowed
  slice is not aliased is the type checker's part and is not stated here.
\<close>

section \<open>Across the components\<close>

text \<open>What a successful answer has checked: the reason code and the section.\<close>

lemma answer_packet_checked:
  assumes "answer_packet tr clock store i state code (c, w) = Some ((c', w'), Inr ())"
    and "ack_type_to_send state \<noteq> 0" and "mc_ack_used c \<noteq> 0 \<or> code \<noteq> None"
  shows "check_ack_reply (ack_type_to_send state) \<lparr>aa_reason_code = code, aa_property_length = mc_ack_used c\<rparr> c = Inr ()"
proof (rule ccontr)
  let ?reply = "\<lparr>aa_reason_code = code, aa_property_length = mc_ack_used c\<rparr>"
  assume "check_ack_reply (ack_type_to_send state) ?reply c \<noteq> Inr ()"
  then obtain e where e: "check_ack_reply (ack_type_to_send state) ?reply c = Inl e"
    by (cases "check_ack_reply (ack_type_to_send state) ?reply c") auto
  have "answer_packet tr clock store i state code (c, w) =
      send_publish_acks_with_property tr clock store i state ?reply (c, w)"
    using assms(3) by (auto simp: answer_packet_def send_ack_for_def io_bind_def ctx_def io_get_def)
  then show False
    using assms(1) e
    by (simp add: send_publish_acks_with_property_def Let_def io_bind_def ctx_def io_get_def io_lift_def)
qed

lemma checked_reply:
  assumes "check_ack_reply t \<lparr>aa_reason_code = code, aa_property_length = n\<rparr> c = Inr ()" and "t \<noteq> 0"
  shows "\<exists>rc. code = Some rc \<and> ack_code_ok rc \<and> ack_section (take n (mc_ack_properties c)) \<and>
    length (ack_body i code (take n (mc_ack_properties c))) < 268435456"
proof -
  let ?sec = "take n (mc_ack_properties c)"
  have code: "\<exists>rc. code = Some rc \<and> ack_code_ok rc" and size: "3 + length (vl_encode n) + n \<le> 268435455"
    using assms
    by (auto simp: check_ack_reply_def rbind_eq_Inr map_err_eq_Inr validate_publish_ack_reason_code_def
        ack_code_ok_def ack_packet_size_ok sized_def split: option.splits if_splits)
  have sec: "ack_section ?sec \<and> length ?sec = n"
  proof (cases "n = 0")
    case False
    then have "validate_publish_ack_properties ?sec = Inr ()" "n \<le> length (mc_ack_properties c)"
      using assms by (auto simp: check_ack_reply_def result_simps)
    then show ?thesis using section_validators_iff by simp
  qed simp
  then show ?thesis using code size by (auto simp: ack_body_def property_block_def)
qed

text \<open>The section the application leaves in the context is the builder's, and reads back.\<close>

lemma reply_section:
  assumes "t \<in> {PUBACK, PUBREC, PUBREL, PUBCOMP}" and "buf \<noteq> []" and "length buf < 268435456"
    and "reply = with_properties (build_all (Some t) as) (ack_reply_new True buf 0)"
    and "mc_ack_properties c = ay_buffer reply" and "mc_ack_used c = ay_used reply"
  shows "read_section (cursor_new (take (mc_ack_used c) (mc_ack_properties c))) =
    Inr (spec_build (length buf) (Some t) as [])"
proof -
  let ?b = "build_all (Some t) as"
  let ?sec = "take (mc_ack_used c) (mc_ack_properties c)" and ?ps = "spec_build (length buf) (Some t) as []"
  obtain b0 where b0: "builder_new buf = Inr b0" "builder_resume buf 0 = Inr b0"
    using assms(2,3) by (auto simp: builder_new_def builder_resume_def try_u32_def word_less_nat_alt
        unat_u32_of_nat not_le)
  have built: "builds (?b b0) ?ps" "built_list (Some t) ?ps"
    using builder_new_builds [OF b0(1)] build_all_builds [of b0 "[]" "Some t" as] by simp_all
  have "reply = ack_reply_new True buf 0\<lparr>ay_buffer := pb_buffer (?b b0), ay_used := builder_len (?b b0)\<rparr>"
    using assms(2,4) b0(2) by (simp add: with_properties_def ack_reply_new_def Let_def)
  then have sec: "?sec = builder_section (?b b0)"
    using builder_section_take [of "?b b0"] built(1) assms(5,6)
    by (simp add: builds_def [of "?b b0"] builder_len_def ack_reply_new_def)
  show ?thesis
    unfolding sec using built(2) assms(1)
    by (intro built_section_read [OF b0(1)]) (auto simp: built_list_def may_carry_def ungettable_def)
qed

text \<open>C7. From the application to the broker. The application answers a packet with properties it
  adds to the buffer of the context and a reason code; the acknowledgement is sent, and
  succeeds. Then what is on the wire is one packet that a peer with room for it and interest in the
  properties reads, first the header and then the body, as the acknowledgement the state
  machine owed, with the id and the reason code, and its properties read with the cursor are
  the ones the builder accepted, in the order they were added.\<close>

theorem reply_understood:
  assumes "carries tr clock wire"
    and "\<forall>st key copy w. store = Some st \<longrightarrow> wire (fst (st_store st key copy w)) = wire w"
    and "t = ack_type_to_send state" and "t \<noteq> 0" and "i \<noteq> 0" and "buf \<noteq> []" and "length buf < 268435456"
    and "reply = with_properties (build_all (Some t) as) (ack_reply_new True buf 0)"
    and "mc_ack_properties c = ay_buffer reply" and "mc_ack_used c = ay_used reply"
    and "answer_packet tr clock store i state code (c, w) = Some ((c', w'), Inr ())"
    and "268435460 \<le> al_max_packet_size l" and "al_request_problem_info l"
  shows "\<exists>packet h info. wire w' = wire w @ packet \<and>
    process_incoming_packet_type_and_length packet (length packet) = Inr h \<and> h_packet_type h = t \<and>
    deserialize_ack \<lparr>pi_packet_type = t, pi_remaining_length = h_remaining_length h,
      pi_remaining_data = drop (h_header_length h) packet\<rparr> l = Inr info \<and>
    ai_packet_id info = Some i \<and> ai_reason_codes info = (case code of None \<Rightarrow> [] | Some rc \<Rightarrow> [rc]) \<and>
    read_section (cursor_new (ai_properties info)) = Inr (spec_build (length buf) (Some t) as [])"
proof -
  let ?sec = "take (mc_ack_used c) (mc_ack_properties c)" and ?ps = "spec_build (length buf) (Some t) as []"
  have t: "t \<in> {PUBACK, PUBREC, PUBREL, PUBCOMP}"
    using ack_type_cases [of state] assms(3,4) by auto
  have "read_section (cursor_new ?sec) = Inr ?ps" by (rule reply_section [OF t assms(6-10)])
  have q: "quiet wire store" using assms(2) by (simp add: quiet_def)
  have up: "wire w' = wire w @ ack_packet t i code ?sec" "mc_ack_used c \<noteq> 0 \<longrightarrow> code \<noteq> None"
    using wlpD [OF answer_packet_wlp [OF assms(1) q assms(3) [symmetric] refl] assms(11)] assms(4)
    by (auto simp: answered_def)
  have asked: "ack_section ?sec \<and> length (ack_body i code ?sec) < 268435456 \<and>
      (\<forall>rc. code = Some rc \<longrightarrow> ack_code_ok rc) \<and> (code = None \<longrightarrow> ?sec = [])"
  proof (cases "mc_ack_used c = 0 \<and> code = None")
    case True
    then show ?thesis by (simp add: ack_body_def)
  next
    case False
    from answer_packet_checked [OF assms(11)] checked_reply [where i = i] assms(3,4) False
    show ?thesis by fastforce
  qed
  let ?packet = "ack_packet t i code ?sec"
  have "length (vl_encode (length (ack_body i code ?sec))) \<le> 4" using asked by (simp add: length_vl_encode)
  then have "length ?packet \<le> unat (al_max_packet_size l)"
    using asked assms(12) by (simp add: ack_packet_def word_le_nat_alt)
  then have "\<exists>h. process_incoming_packet_type_and_length (written ?packet ?packet) (length ?packet) = Inr h \<and>
      h_packet_type h = t \<and> deserialize_ack \<lparr>pi_packet_type = h_packet_type h,
        pi_remaining_length = h_remaining_length h,
        pi_remaining_data = drop (h_header_length h) (written ?packet ?packet)\<rparr> l =
      Inr \<lparr>ai_packet_id = Some i, ai_reason_codes = (case code of None \<Rightarrow> [] | Some c \<Rightarrow> [c]),
           ai_properties = ?sec\<rparr>"
    using asked by (intro ack_layout_read [OF t assms(5)]) (auto simp: ack_packet_def assms(13))
  moreover have "written ?packet ?packet = ?packet" by (simp add: written_def splice_def)
  ultimately obtain h where "process_incoming_packet_type_and_length ?packet (length ?packet) = Inr h"
    "h_packet_type h = t" "deserialize_ack \<lparr>pi_packet_type = t, pi_remaining_length = h_remaining_length h,
        pi_remaining_data = drop (h_header_length h) ?packet\<rparr> l =
      Inr \<lparr>ai_packet_id = Some i, ai_reason_codes = (case code of None \<Rightarrow> [] | Some c \<Rightarrow> [c]),
           ai_properties = ?sec\<rparr>"
    by auto
  then show ?thesis
    using up(1) \<open>read_section (cursor_new ?sec) = Inr ?ps\<close>
    by (intro exI [of _ ?packet] exI [of _ h] exI [of _ "\<lparr>ai_packet_id = Some i,
       ai_reason_codes = (case code of None \<Rightarrow> [] | Some c \<Rightarrow> [c]), ai_properties = ?sec\<rparr>"]) simp
qed

text \<open>A transport that takes whatever it is offered.\<close>

definition greedy_transport :: "(bytes \<times> nat) transport" where
  "greedy_transport = \<lparr>tr_recv = (\<lambda>into w. (w, into, Recv_Nothing)),
     tr_recv_one = (\<lambda>w. (w, Received_Nothing)),
     tr_send = (\<lambda>bs (w, t). ((w @ bs, t), Sent_Bytes (length bs))),
     tr_writev = (\<lambda>vs (w, t). ((w @ concat vs, t), Sent_Bytes (length (concat vs))))\<rparr>"

lemma greedy_carries: "carries greedy_transport slow_clock fst"
  by (auto simp: carries_def greedy_transport_def slow_clock_def)

lemma greedy_sends:
  assumes "concat vs \<noteq> []"
  shows "\<exists>c'. send_vectors greedy_transport slow_clock vs (c, (w, t)) =
     Some ((c', (w @ concat vs, t + 2)), Inr (Outcome_Sent (length (concat vs)))) \<and> mc_records c' = mc_records c"
proof -
  let ?n = "length (concat vs)" and ?c = "c\<lparr>mc_last_packet_tx_time := word_of_nat (t + 2)\<rparr>"
  let ?turn = "send_vectors_turn greedy_transport slow_clock ?n (word_of_nat (t + 1))"
  obtain at taken where over: "step_over vs 0 ?n = (at, taken)" by (cases "step_over vs 0 ?n")
  have "?turn (vs, 0, 0) (c, (w, t + 1)) =
      Some ((?c, (w @ concat vs, t + 2)), Inr (advance_inside vs at taken, at, ?n))"
    using assms over
    by (auto simp: send_vectors_turn_def slice_from_def io_bind_def world_call_def greedy_transport_def
        slow_clock_def stamp_tx_def upd_def io_modify_def io_return_def Let_def)
  moreover have "?turn (vectors, at, ?n) (?c, (w @ concat vs, t + 2)) =
      Some ((?c, (w @ concat vs, t + 2)), Inl (Outcome_Sent ?n))" for vectors at
    by (simp add: send_vectors_turn_def io_fail_def)
  ultimately have "rounds ?turn (vs, 0, 0) (c, (w, t + 1)) =
      Some ((?c, (w @ concat vs, t + 2)), Inr (Outcome_Sent ?n))"
    by (subst rounds.simps, simp, subst rounds.simps, simp)
  then have "send_vectors greedy_transport slow_clock vs (c, (w, t)) =
      Some ((?c, (w @ concat vs, t + 2)), Inr (Outcome_Sent ?n))"
    by (simp add: send_vectors_def io_bind_def world_call_def slow_clock_def length_concat Let_def)
  then show ?thesis by (intro exI [of _ ?c]) simp
qed

definition replied_sample :: mqtt_context where
  "replied_sample = connected_sample\<lparr>mc_ack_properties := [0x1F, 0, 1, 65, 0], mc_ack_used := 4\<rparr>"

lemma sample_reply:
  "with_properties (build_all (Some PUBACK) [Topic_alias 9, Reason_string [65]]) (ack_reply_new True [0, 0, 0, 0, 0] 0) =
     \<lparr>ay_accepted = True, ay_reason_code = None, ay_buffer = [0x1F, 0, 1, 65, 0], ay_used = 4\<rparr>"
proof -
  let ?b = "\<lparr>pb_buffer = [0, 0, 0, 0, 0], pb_at = 0, pb_fields = 0\<rparr>"
  have ok: "builder_ok ?b" by (simp add: builder_ok_def)
  have "run_adder (Topic_alias 9) (Some PUBACK) ?b = (?b, Inl Builder_NotAllowedInPacket)"
    unfolding run_adder_eq [OF ok]
    by (simp add: spec_run_def spec_place_def has_field_def not_allowed_def allowed_properties_def
        field_of_def builder_fields_table_def field_bit_def)
  moreover have "run_adder (Reason_string [65]) (Some PUBACK) ?b = (appended ?b (0x1F, PV_utf8 [65]), Inr ())"
    unfolding run_adder_eq [OF ok]
    by (simp add: spec_run_def spec_place_def has_field_def not_allowed_def allowed_properties_def
        field_of_def builder_fields_table_def field_bit_def)
  ultimately have "build_all (Some PUBACK) [Topic_alias 9, Reason_string [65]] ?b = appended ?b (0x1F, PV_utf8 [65])"
    by (simp add: build_all_def)
  then show ?thesis
    by (simp add: with_properties_def ack_reply_new_def builder_resume_def builder_new_def try_u32_def
        builder_len_def mqtt_string_def be16_def splice_def)
qed

lemma sample_checked:
  "check_ack_reply PUBACK \<lparr>aa_reason_code = Some 0x10, aa_property_length = 4\<rparr> replied_sample = Inr ()"
  "ack_packet_size (ls_max_packet_size (cp_server (mc_properties replied_sample))) 4 =
     Inr \<lparr>ps_remaining_length = 8, ps_packet_size = 10\<rparr>"
proof -
  show size: "ack_packet_size (ls_max_packet_size (cp_server (mc_properties replied_sample))) 4 =
     Inr \<lparr>ps_remaining_length = 8, ps_packet_size = 10\<rparr>"
    by (simp add: ack_packet_size_ok sized_def full_size_def vl_encode_small replied_sample_def connected_sample_def
        context_new_def connection_properties_new_def)
  have "ack_section [0x1F, 0, 1, 65]"
    unfolding ack_section_def
    by (auto simp: ack_props_ok_def mqtt_string_def be16_def intro!: exI [of _ "[(0x1F, PV_utf8 [65])]"])
  then have "validate_publish_ack_properties [0x1F, 0, 1, 65] = Inr ()"
    using section_validators_iff by blast
  moreover have "mc_ack_properties replied_sample = [0x1F, 0, 1, 65, 0]" by (simp add: replied_sample_def)
  ultimately show "check_ack_reply PUBACK \<lparr>aa_reason_code = Some 0x10, aa_property_length = 4\<rparr> replied_sample = Inr ()"
    by (simp add: check_ack_reply_def size slice_def validate_publish_ack_reason_code_def)
qed

lemma replied_run:
  "\<exists>c' t. answer_packet greedy_transport slow_clock None 7 PubAckSend (Some 0x10) (replied_sample, ([9], 0)) =
     Some ((c', ([9, 0x40, 8, 0, 7, 0x10, 4, 0x1F, 0, 1, 65], t)), Inr ())"
proof -
  let ?c = "replied_sample\<lparr>mc_ack_used := 0, mc_ack_properties := []\<rparr>"
  let ?vs = "[[0x40, 8, 0, 7, 0x10], [4], [0x1F, 0, 1, 65 :: byte]]"
  have "\<exists>c'. send_vectors greedy_transport slow_clock ?vs (?c, ([9], 0)) =
      Some ((c', ([9, 0x40, 8, 0, 7, 0x10, 4, 0x1F, 0, 1, 65], 2)), Inr (Outcome_Sent 10) :: client_error + send_outcome) \<and>
      mc_records c' = mc_records ?c"
    using greedy_sends [of ?vs ?c "[9]" 0] by (simp add: eval_nat_numeral)
  then obtain c1 where sent: "send_vectors greedy_transport slow_clock ?vs (?c, ([9], 0)) =
      Some ((c1, ([9, 0x40, 8, 0, 7, 0x10, 4, 0x1F, 0, 1, 65], 2)), Inr (Outcome_Sent 10) :: client_error + send_outcome)"
    "mc_records c1 = mc_records ?c" by blast
  have head: "serialize_ack_fixed (replicate 8 0) PUBACK 7 8 0x10 = ([0x40, 8, 0, 7, 0x10, 0, 0, 0], 5)"
    by code_simp
  have prefix: "encode_variable_length (replicate 4 0) 4 = ([4, 0, 0, 0], 1)"
    by code_simp
  have u: "try_u32 4 = Some 4" by (simp add: try_u32_def)
  have "build_and_send_ack_with_props greedy_transport slow_clock None PUBACK 7 0x10 8 4 (replied_sample, ([9], 0)) =
      Some ((c1\<lparr>mc_ack_properties := [0x1F, 0, 1, 65, 0]\<rparr>,
        ([9, 0x40, 8, 0, 7, 0x10, 4, 0x1F, 0, 1, 65], 2)), Inr ())"
    using sent
    by (simp add: build_and_send_ack_with_props_def head prefix u slice_def io_defs Let_def keep_ack_def all_of_def
        replied_sample_def ok_or_def)
  moreover have "connected replied_sample = Inr ()"
    by (simp add: connected_def replied_sample_def connected_sample_def)
  moreover have "mc_records c1 = None"
    using sent(2) by (simp add: replied_sample_def connected_sample_def context_new_def)
  moreover have "mc_ack_used replied_sample = 4" by (simp add: replied_sample_def)
  ultimately show ?thesis
    using sample_checked
    by (simp add: answer_packet_def send_ack_for_def send_publish_acks_with_property_def must_be_connected_def
        io_defs Let_def ack_type_to_send_def ack_from_packet_type_def ack_sent_def)
qed

theorem reply_understood_witness:
  "\<exists>c' w' packet h (info :: ack_info). answer_packet greedy_transport slow_clock None 7 PubAckSend (Some 0x10)
      (replied_sample, ([9], 0)) = Some ((c', w'), Inr ()) \<and> fst w' = [9] @ packet \<and>
    process_incoming_packet_type_and_length packet (length packet) = Inr h \<and> h_packet_type h = PUBACK \<and>
    ai_packet_id info = Some 7 \<and> ai_reason_codes info = [0x10] \<and>
    read_section (cursor_new (ai_properties info)) = Inr [(ID_REASON_STRING, PV_utf8 [65])]"
proof -
  let ?as = "[Topic_alias 9, Reason_string [65]]" and ?l = "\<lparr>al_max_packet_size = -1, al_request_problem_info = True\<rparr>"
  obtain c' t where run: "answer_packet greedy_transport slow_clock None 7 PubAckSend (Some 0x10)
      (replied_sample, ([9], 0)) = Some ((c', ([9, 0x40, 8, 0, 7, 0x10, 4, 0x1F, 0, 1, 65], t)), Inr ())"
    using replied_run by blast
  have quiet: "\<forall>st key copy w. None = Some st \<longrightarrow> fst (fst (st_store st key copy w)) = fst w" by simp
  have t: "PUBACK = ack_type_to_send PubAckSend" by (simp add: ack_type_to_send_def)
  have "mc_ack_properties replied_sample = ay_buffer (with_properties (build_all (Some PUBACK) ?as)
        (ack_reply_new True [0, 0, 0, 0, 0] 0))"
    "mc_ack_used replied_sample = ay_used (with_properties (build_all (Some PUBACK) ?as)
        (ack_reply_new True [0, 0, 0, 0, 0] 0))"
    unfolding sample_reply by (simp_all add: replied_sample_def)
  note reply = this
  have ps: "spec_build (length [0, 0, 0, 0, 0 :: byte]) (Some PUBACK) ?as [] = [(ID_REASON_STRING, PV_utf8 [65])]"
    by (simp add: spec_build_def spec_add_def may_carry_def mqtt_string_def be16_def)
  have "(268435460 :: u32) \<le> al_max_packet_size ?l" "al_request_problem_info ?l" by simp_all
  note limits = this
  have given: "PUBACK \<noteq> (0 :: byte)" "(7 :: u16) \<noteq> 0" "[0, 0, 0, 0, 0 :: byte] \<noteq> []"
    "length [0, 0, 0, 0, 0 :: byte] < 268435456" by simp_all
  obtain packet h and info :: ack_info where "fst ([9, 0x40, 8, 0, 7, 0x10, 4, 0x1F, 0, 1, 65 :: byte], t) = fst ([9], 0 :: nat) @ packet"
    "process_incoming_packet_type_and_length packet (length packet) = Inr h" "h_packet_type h = PUBACK"
    "ai_packet_id info = Some 7" "ai_reason_codes info = (case Some 0x10 of None \<Rightarrow> [] | Some rc \<Rightarrow> [rc])"
    "read_section (cursor_new (ai_properties info)) = Inr [(ID_REASON_STRING, PV_utf8 [65])]"
    using reply_understood [OF greedy_carries quiet t given refl reply run limits, unfolded ps] by (elim exE conjE) (rule that; assumption)
  then show ?thesis
    using run unfolding option.case fst_conv
    by (intro exI [of _ c'] exI [of _ "([9, 0x40, 8, 0, 7, 0x10, 4, 0x1F, 0, 1, 65], t)"] exI [of _ packet]
        exI [of _ h] exI [of _ info]) (intro conjI; simp)
qed

end
